(* ===== verification/Firmware_Base.thy ===== *)
theory Firmware_Base
  imports Main "HOL-Library.Word"
begin

text \<open>
  Shared vocabulary of the development: the C integer types as words, the outcome of a firmware
  operation (a value, an emergency stop, or undefined behaviour), singly linked lists threaded
  through a \<open>next\<close> field, the 32 bit clock comparison of \<open>board/misc.h\<close>, and the generic lemmas
  on them that the component theories use.
\<close>

unbundle bit_operations_syntax

named_theorems fw_simps \<open>unfolding rules of the firmware operations\<close>
named_theorems frame \<open>fields an operation leaves alone\<close>

section \<open>C integers\<close>

type_synonym u8 = "8 word"
type_synonym u16 = "16 word"
type_synonym u32 = "32 word"
type_synonym u64 = "64 word"

text \<open>\<open>!!x\<close> and \<open>x ? 1 : 0\<close> of C, as the integer the message encoder receives.\<close>

definition c_bool :: "bool \<Rightarrow> 'a::len word" where
  "c_bool b = (if b then 1 else 0)"

text \<open>\<open>DIV_ROUND_UP\<close> of \<open>compiler.h\<close> on unsigned operands; the sum wraps.\<close>

definition div_round_up :: "'a::len word \<Rightarrow> 'a word \<Rightarrow> 'a word" where
  "div_round_up n d = (n + d - 1) div d"

text \<open>C division on signed operands truncates towards zero.\<close>

definition c_div :: "int \<Rightarrow> int \<Rightarrow> int" where
  "c_div a b = sgn a * sgn b * (\<bar>a\<bar> div \<bar>b\<bar>)"

lemma c_div_nonneg: "0 \<le> a \<Longrightarrow> 0 < b \<Longrightarrow> c_div a b = a div b"
  by (cases "a = 0") (auto simp: c_div_def)

lemma c_div_neg: "a < 0 \<Longrightarrow> 0 < b \<Longrightarrow> c_div a b = - (- a div b)"
  by (simp add: c_div_def)

lemma int_le_div: "0 < d \<Longrightarrow> c * d \<le> a \<Longrightarrow> c \<le> a div d" for a c d :: int
  using zdiv_mono1 [of "c * d" a d] by simp

lemma int_div_less: "0 < d \<Longrightarrow> a < c * d \<Longrightarrow> a div d < c" for a c d :: int
proof (rule ccontr)
  assume "0 < d" "a < c * d" "\<not> a div d < c"
  then have "c * d \<le> (a div d) * d" by simp
  also have "\<dots> \<le> a" using \<open>0 < d\<close> by (simp add: minus_mod_eq_div_mult [symmetric])
  finally show False using \<open>a < c * d\<close> by simp
qed

section \<open>Outcomes\<close>

text \<open>
  An operation of the firmware returns a value in a new state (\<open>Ret\<close>), leaves through the
  \<open>longjmp\<close> of \<open>sched_shutdown\<close> with the static string it was given (\<open>Shutdown\<close>, the state is
  the one at the call), or runs into undefined behaviour such as following a \<open>NULL\<close> pointer or
  never returning (\<open>Fault\<close>).
\<close>

datatype ('a, 's) outcome =
    Ret 'a 's
  | Shutdown string 's
  | Fault

primrec andThen ::
    "('a, 's) outcome \<Rightarrow> ('a \<Rightarrow> 's \<Rightarrow> ('b, 's) outcome) \<Rightarrow> ('b, 's) outcome" where
  "andThen (Ret v s) f = f v s"
| "andThen (Shutdown r s) f = Shutdown r s"
| "andThen Fault f = Fault"

lemma andThen_Ret_iff [simp]:
  "andThen m f = Ret v s \<longleftrightarrow> (\<exists>u t. m = Ret u t \<and> f u t = Ret v s)"
  by (cases m) auto

lemma andThen_assoc: "andThen (andThen m f) g = andThen m (\<lambda>v s. andThen (f v s) g)"
  by (cases m) auto

lemma andThen_cong [fundef_cong, cong]:
  "m = m' \<Longrightarrow> (\<And>v s. m' = Ret v s \<Longrightarrow> f v s = f' v s) \<Longrightarrow> andThen m f = andThen m' f'"
  by (cases m') auto

text \<open>\<open>holds_after P m\<close>: no undefined behaviour, and \<open>P\<close> for the state however \<open>m\<close> ends.\<close>

fun holds_after :: "('s \<Rightarrow> bool) \<Rightarrow> ('a, 's) outcome \<Rightarrow> bool" where
  "holds_after P (Ret v s) = P s"
| "holds_after P (Shutdown r s) = P s"
| "holds_after P Fault = False"

lemma holds_after_andThen:
  "holds_after P m \<Longrightarrow> (\<And>v s. m = Ret v s \<Longrightarrow> holds_after P (f v s)) \<Longrightarrow>
     holds_after P (andThen m f)"
  by (cases m) auto

lemma holds_after_mono:
  "holds_after P m \<Longrightarrow> (\<And>s. P s \<Longrightarrow> Q s) \<Longrightarrow> holds_after Q m"
  by (cases m) auto

section \<open>Linked lists\<close>

text \<open>
  \<open>lseg nx p xs q\<close>: following \<open>nx\<close> from the pointer \<open>p\<close> visits the nodes \<open>xs\<close> in order and
  then holds the pointer \<open>q\<close>. A \<open>NULL\<close> terminated list is a segment that ends in \<open>None\<close>.
\<close>

fun lseg :: "('n \<Rightarrow> 'n option) \<Rightarrow> 'n option \<Rightarrow> 'n list \<Rightarrow> 'n option \<Rightarrow> bool" where
  "lseg nx p [] q = (p = q)"
| "lseg nx p (x # xs) q = (p = Some x \<and> lseg nx (nx x) xs q)"

abbreviation chain :: "('n \<Rightarrow> 'n option) \<Rightarrow> 'n option \<Rightarrow> 'n list \<Rightarrow> bool" where
  "chain nx p xs \<equiv> lseg nx p xs None"

lemma lseg_append [simp]:
  "lseg nx p (xs @ ys) q \<longleftrightarrow> (\<exists>r. lseg nx p xs r \<and> lseg nx r ys q)"
  by (induction xs arbitrary: p) auto

lemma lseg_None [simp]: "chain nx None xs \<longleftrightarrow> xs = []"
  by (cases xs) auto

lemma lseg_fun_upd [simp]:
  "a \<notin> set xs \<Longrightarrow> lseg (nx(a := v)) p xs q = lseg nx p xs q"
  by (induction xs arbitrary: p) auto

lemma lseg_cong:
  "(\<And>x. x \<in> set xs \<Longrightarrow> nx x = nx' x) \<Longrightarrow> lseg nx p xs q = lseg nx' p xs q"
  by (induction xs arbitrary: p) auto

lemma chain_functional: "chain nx p xs \<Longrightarrow> chain nx p ys \<Longrightarrow> xs = ys"
proof (induction xs arbitrary: p ys)
  case Nil
  then show ?case by simp
next
  case (Cons x xs)
  then obtain zs where "ys = x # zs" by (cases ys) auto
  with Cons show ?case by auto
qed

lemma chain_hd_notin_tl: "chain nx (nx a) xs \<Longrightarrow> a \<notin> set xs"
proof
  assume c: "chain nx (nx a) xs" and "a \<in> set xs"
  then obtain us vs where xs: "xs = us @ a # vs" by (meson split_list)
  with c have "chain nx (nx a) vs" by auto
  with c xs have "vs = us @ a # vs" by (blast intro: chain_functional)
  then show False by simp
qed

lemma chain_distinct: "chain nx p xs \<Longrightarrow> distinct xs"
  by (induction xs arbitrary: p) (auto dest: chain_hd_notin_tl)

lemma chain_next:
  "chain nx p (us @ x # y # vs) \<Longrightarrow> nx x = Some y"
  by auto

lemma chain_last: "chain nx p (us @ [x]) \<Longrightarrow> nx x = None"
  by auto

text \<open>Insertion of a fresh node behind a node, and unlinking the node behind a node.\<close>

lemma chain_insert:
  assumes "chain nx p (us @ x # vs)" and "t \<notin> set (us @ x # vs)"
  shows "chain (nx(t := nx x, x := Some t)) p (us @ x # t # vs)"
proof -
  have "distinct (us @ x # vs)" using assms(1) by (rule chain_distinct)
  with assms show ?thesis by (auto simp: fun_upd_twist)
qed

lemma chain_unlink:
  assumes "chain nx p (us @ x # y # vs)"
  shows "chain (nx(x := nx y)) p (us @ x # vs)"
proof -
  have "distinct (us @ x # y # vs)" using assms by (rule chain_distinct)
  with assms show ?thesis by auto
qed

end
