(* ===== verification/Wire.thy ===== *)
theory Wire
  imports Firmware_Base
begin

text \<open>
  The byte level encoding shared by every message of the firmware: the frame constants of
  \<open>command.h\<close>, the checksum \<open>crc16_ccitt\<close> and the variable length quantities of \<open>command.c\<close>.
\<close>

section \<open>Frame constants\<close>

definition MESSAGE_MIN :: nat where "MESSAGE_MIN = 5"
definition MESSAGE_MAX :: nat where "MESSAGE_MAX = 64"
definition MESSAGE_HEADER_SIZE :: nat where "MESSAGE_HEADER_SIZE = 2"
definition MESSAGE_TRAILER_SIZE :: nat where "MESSAGE_TRAILER_SIZE = 3"
definition MESSAGE_POS_LEN :: nat where "MESSAGE_POS_LEN = 0"
definition MESSAGE_POS_SEQ :: nat where "MESSAGE_POS_SEQ = 1"
definition MESSAGE_TRAILER_CRC :: nat where "MESSAGE_TRAILER_CRC = 3"
definition MESSAGE_TRAILER_SYNC :: nat where "MESSAGE_TRAILER_SYNC = 1"
definition MESSAGE_PAYLOAD_MAX :: nat where "MESSAGE_PAYLOAD_MAX = MESSAGE_MAX - MESSAGE_MIN"
definition MESSAGE_SEQ_MASK :: u8 where "MESSAGE_SEQ_MASK = 0x0f"
definition MESSAGE_DEST :: u8 where "MESSAGE_DEST = 0x10"
definition MESSAGE_SYNC :: u8 where "MESSAGE_SYNC = 0x7E"

lemmas message_consts =
  MESSAGE_MIN_def MESSAGE_MAX_def MESSAGE_HEADER_SIZE_def MESSAGE_TRAILER_SIZE_def
  MESSAGE_POS_LEN_def MESSAGE_POS_SEQ_def MESSAGE_TRAILER_CRC_def MESSAGE_TRAILER_SYNC_def
  MESSAGE_PAYLOAD_MAX_def MESSAGE_SEQ_MASK_def MESSAGE_DEST_def MESSAGE_SYNC_def

section \<open>Checksum\<close>

definition crc16_step :: "u16 \<Rightarrow> u8 \<Rightarrow> u16" where
  "crc16_step crc b =
     (let data = b XOR ucast (crc AND 0xff);
          data = data XOR push_bit 4 data
      in (push_bit 8 (ucast data) OR drop_bit 8 crc)
           XOR ucast (drop_bit 4 data) XOR push_bit 3 (ucast data))"

definition crc16_ccitt :: "u8 list \<Rightarrow> u16" where
  "crc16_ccitt buf = foldl crc16_step 0xffff buf"

section \<open>Variable length quantities\<close>

definition vlq_f4 :: "u32 \<Rightarrow> u8 list" where
  "vlq_f4 v = [ucast (v AND 0x7f)]"

definition vlq_f3 :: "u32 \<Rightarrow> u8 list" where
  "vlq_f3 v = ucast ((drop_bit 7 v AND 0x7f) OR 0x80) # vlq_f4 v"

definition vlq_f2 :: "u32 \<Rightarrow> u8 list" where
  "vlq_f2 v = ucast ((drop_bit 14 v AND 0x7f) OR 0x80) # vlq_f3 v"

definition vlq_f1 :: "u32 \<Rightarrow> u8 list" where
  "vlq_f1 v = ucast ((drop_bit 21 v AND 0x7f) OR 0x80) # vlq_f2 v"

text \<open>The bytes \<open>encode_int\<close> writes at \<open>p\<close>; the returned pointer is \<open>p\<close> plus their number.\<close>

definition encode_int :: "u32 \<Rightarrow> u8 list" where
  "encode_int v =
     (let sv = sint v in
      if sv < 3 * 2 ^ 5 \<and> sv \<ge> - (2 ^ 5) then vlq_f4 v
      else if sv < 3 * 2 ^ 12 \<and> sv \<ge> - (2 ^ 12) then vlq_f3 v
      else if sv < 3 * 2 ^ 19 \<and> sv \<ge> - (2 ^ 19) then vlq_f2 v
      else if sv < 3 * 2 ^ 26 \<and> sv \<ge> - (2 ^ 26) then vlq_f1 v
      else ucast (drop_bit 28 v OR 0x80) # vlq_f1 v)"

text \<open>
  \<open>parse_int\<close> returns the value and the rest of the buffer; \<open>None\<close> is a read past the end of the
  bytes it is given.
\<close>

fun parse_int_more :: "u8 \<Rightarrow> u32 \<Rightarrow> u8 list \<Rightarrow> (u32 \<times> u8 list) option" where
  "parse_int_more c v p =
     (if c AND 0x80 = 0 then Some (v, p)
      else (case p of
              [] \<Rightarrow> None
            | c' # p' \<Rightarrow> parse_int_more c' (push_bit 7 v OR ucast (c' AND 0x7f)) p'))"

declare parse_int_more.simps [simp del]

definition parse_int_first :: "u8 \<Rightarrow> u32" where
  "parse_int_first c =
     (let v = ucast (c AND 0x7f) in if c AND 0x60 = 0x60 then v OR - 0x20 else v)"

fun parse_int :: "u8 list \<Rightarrow> (u32 \<times> u8 list) option" where
  "parse_int [] = None"
| "parse_int (c # p) = parse_int_more c (parse_int_first c) p"

subsection \<open>Groups of seven bits\<close>

lemma bit_7f: "bit (0x7f :: int) n \<longleftrightarrow> n < 7"
proof -
  have "(0x7f :: int) = mask 7" by (simp add: mask_eq_exp_minus_1)
  then have "bit (0x7f :: int) n = bit (mask 7 :: int) n" by (rule arg_cong)
  also have "\<dots> \<longleftrightarrow> n < 7" by (simp only: bit_mask_iff possible_bit_int) blast
  finally show ?thesis .
qed

lemma bit_80: "bit (0x80 :: int) n \<longleftrightarrow> n = 7"
proof -
  have "(0x80 :: int) = 2 ^ 7" by simp
  then have "bit (0x80 :: int) n = bit (2 ^ 7 :: int) n" by (rule arg_cong)
  also have "\<dots> \<longleftrightarrow> n = 7" by (simp only: bit_exp_iff possible_bit_int) blast
  finally show ?thesis .
qed

lemmas byte_bits = bit_simps bit_7f bit_80

lemma cont_bit_set: "(ucast ((x :: u32) OR 0x80) :: u8) AND 0x80 \<noteq> 0"
proof -
  have "bit ((ucast (x OR 0x80) :: u8) AND 0x80) 7" by (simp add: byte_bits)
  then show ?thesis by auto
qed

lemma cont_bit_clear: "(ucast ((x :: u32) AND 0x7f) :: u8) AND 0x80 = 0"
  by (rule bit_word_eqI) (auto simp: byte_bits)

lemma payload_cont: "ucast ((ucast ((x AND 0x7f) OR 0x80) :: u8) AND 0x7f) = (x :: u32) AND 0x7f"
  by (rule bit_word_eqI) (auto simp: byte_bits)

lemma payload_last: "ucast ((ucast (x AND 0x7f) :: u8) AND 0x7f) = (x :: u32) AND 0x7f"
  by (rule bit_word_eqI) (auto simp: byte_bits)

lemma append_group_signed:
  "n + 7 < 32 \<Longrightarrow>
     push_bit 7 (signed_drop_bit (n + 7) v) OR (drop_bit n v AND 0x7f) =
       signed_drop_bit n (v :: u32)"
  by (rule bit_word_eqI) (auto simp: byte_bits min_def not_less not_le)

lemma append_group:
  "push_bit 7 (drop_bit (n + 7) v) OR (drop_bit n v AND 0x7f) = drop_bit n (v :: u32)"
  by (rule bit_word_eqI) (auto simp: byte_bits min_def not_less)

lemma group_of_signed:
  "n + 7 \<le> 32 \<Longrightarrow> drop_bit n v AND 0x7f = signed_drop_bit n (v :: u32) AND 0x7f"
  by (rule bit_word_eqI) (auto simp: byte_bits min_def not_less)

lemma first_small:
  assumes "- 32 \<le> q" "q < 96"
  shows "parse_int_first (ucast ((word_of_int q :: u32) AND 0x7f)) = word_of_int q"
    and "parse_int_first (ucast (((word_of_int q :: u32) AND 0x7f) OR 0x80)) = word_of_int q"
proof -
  have "q \<in> set [-32..95]" unfolding set_upto using assms by simp
  moreover have "\<forall>q \<in> set [-32..95].
      parse_int_first (ucast ((word_of_int q :: u32) AND 0x7f)) = word_of_int q \<and>
      parse_int_first (ucast (((word_of_int q :: u32) AND 0x7f) OR 0x80)) = word_of_int q"
    by code_simp
  ultimately show
      "parse_int_first (ucast ((word_of_int q :: u32) AND 0x7f)) = word_of_int q"
      "parse_int_first (ucast (((word_of_int q :: u32) AND 0x7f) OR 0x80)) = word_of_int q"
    by blast+
qed

lemma first_group:
  assumes "n + 7 \<le> 32" "sint v < 3 * 2 ^ (n + 5)" "sint v \<ge> - (2 ^ (n + 5))"
  shows "parse_int_first (ucast (drop_bit n v AND 0x7f)) = signed_drop_bit n v"
    and "parse_int_first (ucast ((drop_bit n v AND 0x7f) OR 0x80)) = signed_drop_bit n v"
proof -
  define q where "q = sint v div 2 ^ n"
  have w: "signed_drop_bit n v = word_of_int q"
  proof -
    have "signed_drop_bit n v = word_of_int (sint (signed_drop_bit n v))" by simp
    then show ?thesis by (simp only: q_def sint_signed_drop_bit_eq drop_bit_eq_div)
  qed
  have "- 32 \<le> q" unfolding q_def by (rule int_le_div) (use assms(3) in \<open>simp_all add: power_add\<close>)
  moreover have "q < 96" unfolding q_def by (rule int_div_less) (use assms(2) in \<open>simp_all add: power_add\<close>)
  ultimately show "parse_int_first (ucast (drop_bit n v AND 0x7f)) = signed_drop_bit n v"
    "parse_int_first (ucast ((drop_bit n v AND 0x7f) OR 0x80)) = signed_drop_bit n v"
    using first_small [of q] by (simp_all add: group_of_signed [OF assms(1)] w)
qed

subsection \<open>Round trip\<close>

lemma more_last: "parse_int_more (ucast (v AND 0x7f)) a p = Some (a, p)" for v :: u32
  by (subst parse_int_more.simps) (simp add: cont_bit_clear)

lemma more_cont:
  "parse_int_more (ucast (x OR 0x80)) a (c # p) =
     parse_int_more c (push_bit 7 a OR ucast (c AND 0x7f)) p" for x :: u32
  by (subst parse_int_more.simps) (simp add: cont_bit_set)

lemma signed_drop_bit_zero: "signed_drop_bit 0 v = v" for v :: u32
  by (rule bit_word_eqI) (auto simp: byte_bits min_def)

lemmas vlq_defs = vlq_f1_def vlq_f2_def vlq_f3_def vlq_f4_def

lemmas vlq_read =
  more_last more_cont payload_last payload_cont signed_drop_bit_zero
  append_group_signed [of 0, simplified] append_group_signed [of 7, simplified]
  append_group_signed [of 14, simplified]
  append_group [of 0, simplified] append_group [of 7, simplified]
  append_group [of 14, simplified] append_group [of 21, simplified]

lemma parse_vlq_f4:
  "sint v < 3 * 2 ^ 5 \<Longrightarrow> - (2 ^ 5) \<le> sint v \<Longrightarrow> parse_int (vlq_f4 v @ p) = Some (v, p)"
  using first_group(1) [of 0 v] by (simp add: vlq_defs vlq_read)

lemma parse_vlq_f3:
  "sint v < 3 * 2 ^ 12 \<Longrightarrow> - (2 ^ 12) \<le> sint v \<Longrightarrow> parse_int (vlq_f3 v @ p) = Some (v, p)"
  using first_group(2) [of 7 v] by (simp add: vlq_defs vlq_read)

lemma parse_vlq_f2:
  "sint v < 3 * 2 ^ 19 \<Longrightarrow> - (2 ^ 19) \<le> sint v \<Longrightarrow> parse_int (vlq_f2 v @ p) = Some (v, p)"
  using first_group(2) [of 14 v] by (simp add: vlq_defs vlq_read)

lemma parse_vlq_f1:
  "sint v < 3 * 2 ^ 26 \<Longrightarrow> - (2 ^ 26) \<le> sint v \<Longrightarrow> parse_int (vlq_f1 v @ p) = Some (v, p)"
  using first_group(2) [of 21 v] by (simp add: vlq_defs vlq_read)

lemma first_top: "parse_int_first (ucast (drop_bit 28 v OR 0x80)) = drop_bit 28 v" for v :: u32
proof -
  have "ucast ((ucast (drop_bit 28 v OR 0x80) :: u8) AND 0x7f) = drop_bit 28 v"
    by (rule bit_word_eqI) (auto simp: byte_bits dest: bit_imp_le_length)
  moreover have "(ucast (drop_bit 28 v OR 0x80) :: u8) AND 0x60 \<noteq> 0x60"
  proof
    assume "(ucast (drop_bit 28 v OR 0x80) :: u8) AND 0x60 = 0x60"
    then have "bit ((ucast (drop_bit 28 v OR 0x80) :: u8) AND 0x60) 6" by simp
    then show False using bit_imp_le_length [of v 34] by (auto simp: byte_bits)
  qed
  ultimately show ?thesis by (simp add: parse_int_first_def)
qed

lemma parse_vlq_top:
  "parse_int (ucast (drop_bit 28 v OR 0x80) # vlq_f1 v @ p) = Some (v, p)"
  by (simp add: vlq_defs vlq_read first_top)

lemma parse_int_encode_int: "parse_int (encode_int v @ p) = Some (v, p)"
  unfolding encode_int_def Let_def
  by (simp del: parse_int.simps
      add: parse_vlq_f4 parse_vlq_f3 parse_vlq_f2 parse_vlq_f1 parse_vlq_top)

lemma length_encode_int: "1 \<le> length (encode_int v)" "length (encode_int v) \<le> 5"
  by (simp_all add: encode_int_def vlq_defs Let_def)

subsection \<open>How far the parser reads\<close>

text \<open>
  The parser consumes a non-empty prefix, and it never reads beyond the first byte whose top
  bit is clear.
\<close>

lemma parse_int_more_suffix:
  "parse_int_more c v p = Some (x, r) \<Longrightarrow> \<exists>us. p = us @ r"
proof (induction c v p rule: parse_int_more.induct)
  case (1 c v p)
  show ?case
  proof (cases "c AND 0x80 = 0")
    case True
    with "1.prems" show ?thesis by (simp add: parse_int_more.simps)
  next
    case False
    with "1.prems" obtain c' p' where p: "p = c' # p'"
      and "parse_int_more c' (push_bit 7 v OR ucast (c' AND 0x7f)) p' = Some (x, r)"
      by (subst (asm) parse_int_more.simps) (auto split: list.splits)
    with "1.IH" [OF False p] obtain us where "p' = us @ r" by blast
    with p show ?thesis by (intro exI [of _ "c' # us"]) simp
  qed
qed

lemma parse_int_suffix:
  assumes "parse_int p = Some (x, r)"
  obtains us where "p = us @ r" "us \<noteq> []"
proof (cases p)
  case Nil
  with assms show ?thesis by simp
next
  case (Cons c p')
  with assms have "parse_int_more c (parse_int_first c) p' = Some (x, r)" by simp
  then obtain us where "p' = us @ r" by (blast dest: parse_int_more_suffix)
  with Cons that [of "c # us"] show ?thesis by simp
qed

lemma parse_int_length: "parse_int p = Some (x, r) \<Longrightarrow> length r < length p"
  by (erule parse_int_suffix) simp

lemma parse_int_more_stops:
  "b AND 0x80 = 0 \<Longrightarrow> \<exists>x us. parse_int_more c v (ps @ b # r) = Some (x, us @ r)"
proof (induction ps arbitrary: c v)
  case Nil
  then show ?case
    by (cases "c AND 0x80 = 0") (auto simp: parse_int_more.simps intro: exI [of _ "[b]"])
next
  case (Cons d ps)
  show ?case
  proof (cases "c AND 0x80 = 0")
    case True
    then show ?thesis
      by (simp add: parse_int_more.simps)
  next
    case False
    with Cons.IH [OF Cons.prems] show ?thesis by (subst parse_int_more.simps) simp
  qed
qed

lemma parse_int_stops:
  assumes "b AND 0x80 = 0"
  shows "\<exists>x us. parse_int (ps @ b # r) = Some (x, us @ r)"
proof (cases ps)
  case Nil
  with assms show ?thesis by (simp add: parse_int_more.simps)
next
  case (Cons c ps')
  with parse_int_more_stops [OF assms] show ?thesis by simp
qed

section \<open>Properties of the encoding\<close>

text \<open>
  C34: Every 32 bit value survives the trip over the wire: whatever follows it in the buffer,
  \<open>parse_int\<close> reads back the value \<open>encode_int\<close> wrote, stops right behind it, and the encoding
  takes one to five bytes.
\<close>

theorem vlq_roundtrip:
  "parse_int (encode_int v @ rest) = Some (v, rest) \<and>
   1 \<le> length (encode_int v) \<and> length (encode_int v) \<le> 5"
  using parse_int_encode_int length_encode_int by simp

end
