(* ===== verification/Comm.thy ===== *)
theory Comm
  imports Wire
begin

text \<open>
  The transport half of \<open>src/command.c\<close>: finding message blocks in the receive buffer, framing
  and encoding outgoing messages, and decoding the parameters of a command. The state is the two
  static variables \<open>next_sequence\<close> and \<open>sync_state\<close>, the guard \<open>in_sendf\<close>, and the list of the
  responses handed to \<open>console_sendf\<close> (the board code that transmits them).
\<close>

section \<open>State\<close>

datatype response =
    AckNak
  | Response string "u32 list"
  | Response_data string "u32 list" "u8 list"   \<comment> \<open>with a last parameter \<open>%*s\<close>\<close>

record comm =
  next_sequence :: u8
  need_sync :: bool       \<comment> \<open>\<open>CF_NEED_SYNC\<close> of \<open>sync_state\<close>\<close>
  need_valid :: bool      \<comment> \<open>\<open>CF_NEED_VALID\<close> of \<open>sync_state\<close>\<close>
  in_sendf :: bool
  sent :: "response list"

definition command_sendf :: "response \<Rightarrow> 'z comm_scheme \<Rightarrow> 'z comm_scheme" where
  "command_sendf r s =
     (if in_sendf s then s
      else let s = s\<lparr>in_sendf := True\<rparr>; s = s\<lparr>sent := sent s @ [r]\<rparr>
           in s\<lparr>in_sendf := False\<rparr>)"

definition sendf_shutdown :: "'z comm_scheme \<Rightarrow> 'z comm_scheme" where
  "sendf_shutdown s = s\<lparr>in_sendf := False\<rparr>"

section \<open>Receiving message blocks\<close>

fun memchr :: "u8 \<Rightarrow> u8 list \<Rightarrow> nat option" where
  "memchr b [] = None"
| "memchr b (x # xs) = (if x = b then Some 0 else map_option Suc (memchr b xs))"

text \<open>The labels of \<open>command_find_block\<close>; each returns the result, \<open>*pop_count\<close> and the state.\<close>

definition find_block_nak ::
    "nat \<Rightarrow> 'z comm_scheme \<Rightarrow> int \<times> nat \<times> 'z comm_scheme" where
  "find_block_nak pop s = (-1, pop, command_sendf AckNak s)"

definition find_block_need_sync ::
    "u8 list \<Rightarrow> 'z comm_scheme \<Rightarrow> int \<times> nat \<times> 'z comm_scheme" where
  "find_block_need_sync buf s =
     (let (s, pop) = (case memchr MESSAGE_SYNC buf of
                        Some i \<Rightarrow> (s\<lparr>need_sync := False\<rparr>, i + 1)
                      | None \<Rightarrow> (s, length buf))
      in if need_valid s then (-1, pop, s)
         else find_block_nak pop (s\<lparr>need_valid := True\<rparr>))"

definition find_block_error ::
    "u8 list \<Rightarrow> 'z comm_scheme \<Rightarrow> int \<times> nat \<times> 'z comm_scheme" where
  "find_block_error buf s =
     (if buf ! 0 = MESSAGE_SYNC then (-1, 1, s)
      else find_block_need_sync buf (s\<lparr>need_sync := True\<rparr>))"

definition next_seq :: "u8 \<Rightarrow> u8" where
  "next_seq msgseq = ((msgseq + 1) AND MESSAGE_SEQ_MASK) OR MESSAGE_DEST"

definition block_crc :: "u8 list \<Rightarrow> nat \<Rightarrow> u16" where
  "block_crc buf msglen =
     push_bit 8 (ucast (buf ! (msglen - MESSAGE_TRAILER_CRC)))
       OR ucast (buf ! (msglen - MESSAGE_TRAILER_CRC + 1))"

definition command_find_block ::
    "u8 list \<Rightarrow> 'z comm_scheme \<Rightarrow> int \<times> nat \<times> 'z comm_scheme" where
  "command_find_block buf s =
     (if length buf \<noteq> 0 \<and> need_sync s then find_block_need_sync buf s
      else if length buf < MESSAGE_MIN then (0, 0, s)
      else let msglen = unat (buf ! MESSAGE_POS_LEN) in
        if msglen < MESSAGE_MIN \<or> msglen > MESSAGE_MAX then find_block_error buf s
        else let msgseq = buf ! MESSAGE_POS_SEQ in
          if msgseq AND NOT MESSAGE_SEQ_MASK \<noteq> MESSAGE_DEST then find_block_error buf s
          else if length buf < msglen then (0, 0, s)
          else if buf ! (msglen - MESSAGE_TRAILER_SYNC) \<noteq> MESSAGE_SYNC
            then find_block_error buf s
          else if crc16_ccitt (take (msglen - MESSAGE_TRAILER_SIZE) buf) \<noteq> block_crc buf msglen
            then find_block_error buf s
          else let s = s\<lparr>need_valid := False\<rparr> in
            if msgseq \<noteq> next_sequence s then find_block_nak msglen s
            else (1, msglen, s\<lparr>next_sequence := next_seq msgseq\<rparr>))"

section \<open>Framing\<close>

text \<open>\<open>command_add_frame\<close> on a buffer that holds \<open>msglen\<close> bytes.\<close>

definition command_add_frame :: "u8 list \<Rightarrow> nat \<Rightarrow> 'z comm_scheme \<Rightarrow> u8 list" where
  "command_add_frame buf msglen s =
     (let buf = buf[MESSAGE_POS_LEN := of_nat msglen];
          buf = buf[MESSAGE_POS_SEQ := next_sequence s];
          crc = crc16_ccitt (take (msglen - MESSAGE_TRAILER_SIZE) buf);
          buf = buf[msglen - MESSAGE_TRAILER_CRC + 0 := ucast (drop_bit 8 crc)];
          buf = buf[msglen - MESSAGE_TRAILER_CRC + 1 := ucast crc]
      in buf[msglen - MESSAGE_TRAILER_SYNC := MESSAGE_SYNC])"

section \<open>Parameters\<close>

datatype param_type =
    PT_uint32 | PT_int32 | PT_uint16 | PT_int16 | PT_byte
  | PT_string | PT_progmem_buffer | PT_buffer

text \<open>
  \<open>command_parsef\<close> reads the receive buffer from offset \<open>p\<close>; \<open>enc_ptr\<close> is \<open>command_encode_ptr\<close>,
  from a buffer offset to the 32 bit value a handler gets. A read past the end of \<open>buf\<close> is a
  \<open>Fault\<close>.
\<close>

fun command_parsef ::
    "(nat \<Rightarrow> u32) \<Rightarrow> u8 list \<Rightarrow> nat \<Rightarrow> param_type list \<Rightarrow> nat \<Rightarrow> u32 list \<Rightarrow> 's
       \<Rightarrow> (nat \<times> u32 list, 's) outcome" where
  "command_parsef enc_ptr buf maxend [] p args s = Ret (p, args) s"
| "command_parsef enc_ptr buf maxend (t # ts) p args s =
     (if p > maxend then Shutdown ''Command parser error'' s
      else if t \<in> {PT_uint32, PT_int32, PT_uint16, PT_int16, PT_byte} then
        (case parse_int (drop p buf) of
           None \<Rightarrow> Fault
         | Some (v, r) \<Rightarrow>
             command_parsef enc_ptr buf maxend ts (length buf - length r) (args @ [v]) s)
      else if t = PT_buffer then
        (if p \<ge> length buf then Fault
         else let len = unat (buf ! p); p = p + 1 in
           if p + len > maxend then Shutdown ''Command parser error'' s
           else command_parsef enc_ptr buf maxend ts (p + len)
                  (args @ [of_nat len, enc_ptr p]) s)
      else Shutdown ''Command parser error'' s)"

text \<open>
  Arguments of \<open>command_sendf\<close>: an integer as \<open>va_arg\<close> delivers it, or the bytes behind a string
  or buffer pointer. \<open>sizeof_int\<close> is \<open>sizeof(int)\<close> of the target.
\<close>

datatype send_arg = IntArg u32 | BytesArg "u8 list"

record command_encoder =
  ce_msg_id :: u8
  ce_max_size :: nat
  ce_param_types :: "param_type list"

definition encode_arg :: "nat \<Rightarrow> param_type \<Rightarrow> u32 \<Rightarrow> u32" where
  "encode_arg sizeof_int t v =
     (if 4 > sizeof_int \<and> t \<in> {PT_uint16, PT_int16, PT_byte}
      then (if t = PT_int16 then scast (ucast v :: u16) else ucast (ucast v :: u16))
      else v)"

text \<open>
  The loop of \<open>command_encodef\<close>: \<open>out\<close> is what has been written since \<open>&buf[MESSAGE_HEADER_SIZE]\<close>,
  so \<open>p\<close> is the position \<open>length out\<close> and \<open>maxend\<close> is relative to the same base. A missing
  argument, or one of the wrong kind, is undefined behaviour of \<open>va_arg\<close>.
\<close>

fun encodef_params ::
    "nat \<Rightarrow> nat \<Rightarrow> param_type list \<Rightarrow> send_arg list \<Rightarrow> u8 list \<Rightarrow> 's \<Rightarrow> (u8 list, 's) outcome"
  where
  "encodef_params sizeof_int maxend [] args out s = Ret out s"
| "encodef_params sizeof_int maxend (t # ts) args out s =
     (if length out > maxend then Shutdown ''Message encode error'' s
      else if t \<in> {PT_uint32, PT_int32, PT_uint16, PT_int16, PT_byte} then
        (case args of
           IntArg v # args' \<Rightarrow>
             encodef_params sizeof_int maxend ts args' (out @ encode_int (encode_arg sizeof_int t v)) s
         | _ \<Rightarrow> Fault)
      else if t = PT_string then
        (case args of
           BytesArg b # args' \<Rightarrow>
             let str = take (maxend - (length out + 1)) (takeWhile (\<lambda>c. c \<noteq> 0) b) in
             encodef_params sizeof_int maxend ts args' (out @ of_nat (length str) # str) s
         | _ \<Rightarrow> Fault)
      else
        (case args of
           IntArg n # BytesArg b # args' \<Rightarrow>
             let v = (if unat n > maxend - length out then maxend - length out else unat n) in
             if length b < v then Fault
             else encodef_params sizeof_int maxend ts args' (out @ of_nat v # take v b) s
         | _ \<Rightarrow> Fault))"

text \<open>
  \<open>command_encodef\<close>: the bytes between header and trailer; the returned length counts both.
\<close>

definition command_encodef ::
    "nat \<Rightarrow> command_encoder \<Rightarrow> send_arg list \<Rightarrow> 's \<Rightarrow> (u8 list \<times> nat, 's) outcome" where
  "command_encodef sizeof_int ce args s =
     (if ce_max_size ce \<le> MESSAGE_MIN then Ret ([], ce_max_size ce) s
      else andThen
        (encodef_params sizeof_int (ce_max_size ce - MESSAGE_MIN) (ce_param_types ce) args
           [ce_msg_id ce] s)
        (\<lambda>out s. Ret (out, MESSAGE_HEADER_SIZE + length out + MESSAGE_TRAILER_SIZE) s))"

text \<open>\<open>command_encode_and_frame\<close>: the message as it is put on the wire.\<close>

definition command_encode_and_frame ::
    "nat \<Rightarrow> command_encoder \<Rightarrow> send_arg list \<Rightarrow> 'z comm_scheme \<Rightarrow> (u8 list, 'z comm_scheme) outcome"
  where
  "command_encode_and_frame sizeof_int ce args s =
     andThen (command_encodef sizeof_int ce args s)
       (\<lambda>(payload, msglen) s.
          Ret (command_add_frame
                 (replicate MESSAGE_HEADER_SIZE 0 @ payload @ replicate MESSAGE_TRAILER_SIZE 0)
                 msglen s) s)"

section \<open>Well formed blocks\<close>

text \<open>The bytes of a well formed block: header, payload, checksum of both, SYNC.\<close>

definition frame_block :: "u8 \<Rightarrow> u8 list \<Rightarrow> u8 list" where
  "frame_block seq payload =
     (let body = [of_nat (length payload + MESSAGE_MIN), seq] @ payload; crc = crc16_ccitt body
      in body @ [ucast (drop_bit 8 crc), ucast crc, MESSAGE_SYNC])"

lemma length_frame_block: "length (frame_block seq payload) = length payload + MESSAGE_MIN"
  by (simp add: frame_block_def Let_def message_consts)

lemma crc_bytes: "push_bit 8 (ucast (ucast (drop_bit 8 c) :: u8)) OR ucast (ucast c :: u8) = c" for c :: u16
  by (rule bit_word_eqI) (auto simp: bit_simps not_less)

lemma of_nat_msglen: "n \<le> MESSAGE_MAX \<Longrightarrow> unat (of_nat n :: u8) = n"
  by (simp add: message_consts unat_of_nat)

lemma add_frame_is_frame_block:
  assumes "length payload + MESSAGE_MIN = msglen" and "length h = 2" and "length t = 3"
  shows "command_add_frame (h @ payload @ t) msglen s = frame_block (next_sequence s) payload"
proof -
  obtain a b where h: "h = [a, b]" using assms(2) by (auto simp: numeral_2_eq_2 length_Suc_conv)
  obtain c d e where t: "t = [c, d, e]" using assms(3) by (auto simp: numeral_3_eq_3 length_Suc_conv)
  have m: "msglen = length payload + 5" using assms(1) by (simp add: message_consts)
  show ?thesis
    by (simp add: command_add_frame_def frame_block_def m h t message_consts list_update_append
        Let_def numeral_eq_Suc)
qed

lemma frame_block_nth:
  fixes payload :: "u8 list" and seq :: u8 and rest :: "u8 list"
  defines "m \<equiv> length payload + MESSAGE_MIN"
  defines "b \<equiv> frame_block seq payload @ rest"
  assumes "m \<le> MESSAGE_MAX"
  shows "unat (b ! MESSAGE_POS_LEN) = m" "b ! MESSAGE_POS_SEQ = seq"
    "b ! (m - MESSAGE_TRAILER_SYNC) = MESSAGE_SYNC"
    "take (m - MESSAGE_TRAILER_SIZE) b = [of_nat m, seq] @ payload"
    "block_crc b m = crc16_ccitt ([of_nat m, seq] @ payload)"
  using assms(3) of_nat_msglen [of m]
  by (simp_all add: m_def b_def frame_block_def Let_def message_consts block_crc_def crc_bytes
      nth_append)

lemma find_block_frame:
  assumes "length payload + MESSAGE_MIN \<le> MESSAGE_MAX"
    and "seq AND NOT MESSAGE_SEQ_MASK = MESSAGE_DEST" and "\<not> need_sync s"
  shows "command_find_block (frame_block seq payload @ rest) s =
     (if seq = next_sequence s
      then (1, length payload + MESSAGE_MIN,
            s\<lparr>need_valid := False, next_sequence := next_seq seq\<rparr>)
      else find_block_nak (length payload + MESSAGE_MIN) (s\<lparr>need_valid := False\<rparr>))"
proof -
  let ?m = "length payload + MESSAGE_MIN" and ?b = "frame_block seq payload @ rest"
  note n = frame_block_nth [OF assms(1), of seq rest]
  have len: "\<not> length ?b < MESSAGE_MIN" "\<not> length ?b < ?m" "\<not> ?m < MESSAGE_MIN"
    "\<not> ?m > MESSAGE_MAX"
    using assms(1) by (simp_all add: length_frame_block)
  show ?thesis
    unfolding command_find_block_def Let_def n
    using assms(2,3) len by simp
qed

lemma memchr_None: "memchr b xs = None \<longleftrightarrow> b \<notin> set xs"
  by (induction xs) auto

lemma memchr_Some: "memchr b xs = Some i \<Longrightarrow> i < length xs \<and> xs ! i = b"
  by (induction xs arbitrary: i) (auto split: if_splits)

lemma memchr_first: "b \<notin> set us \<Longrightarrow> memchr b (us @ b # vs) = Some (length us)"
  by (induction us) auto

lemma sendf_fields [frame]:
  "next_sequence (command_sendf r s) = next_sequence s"
  "need_sync (command_sendf r s) = need_sync s"
  "need_valid (command_sendf r s) = need_valid s"
  "in_sendf (command_sendf r s) = in_sendf s"
  by (simp_all add: command_sendf_def)

section \<open>What finding a block guarantees\<close>

lemma need_sync_pop:
  "find_block_need_sync buf s = (r, n, s') \<Longrightarrow> buf \<noteq> [] \<Longrightarrow> r = -1 \<and> 1 \<le> n \<and> n \<le> length buf"
  by (auto simp: find_block_need_sync_def find_block_nak_def Suc_le_eq
      split: option.splits if_splits dest!: memchr_Some)

lemma find_block_error_pop:
  "find_block_error buf s = (r, n, s') \<Longrightarrow> buf \<noteq> [] \<Longrightarrow> r = -1 \<and> 1 \<le> n \<and> n \<le> length buf"
  by (auto simp: find_block_error_def Suc_le_eq split: if_splits dest!: need_sync_pop)

lemma byte_no_high_bit: "bit (l :: u8) (8 + n) = False"
  using bit_imp_le_length [of l "8 + n"] by auto

lemma crc_high: "ucast (drop_bit 8 (push_bit 8 (ucast h) OR ucast l :: u16)) = (h :: u8)" for l :: u8
  by (rule bit_word_eqI) (simp add: bit_simps byte_no_high_bit)

lemma crc_low: "ucast (push_bit 8 (ucast h) OR ucast l :: u16) = (l :: u8)" for h :: u8
  by (rule bit_word_eqI) (simp add: bit_simps)

lemma find_block_pop:
  assumes "command_find_block buf s = (r, n, s')"
  shows "n \<le> length buf \<and> (r = 0 \<longleftrightarrow> n = 0) \<and> (r = 0 \<longrightarrow> s' = s) \<and> r \<in> {-1, 0, 1}"
proof (cases "buf = []")
  case True with assms show ?thesis by (simp add: command_find_block_def message_consts)
next
  case False
  with assms show ?thesis
    by (auto simp: command_find_block_def Let_def find_block_nak_def MESSAGE_MIN_def
        dest!: find_block_error_pop need_sync_pop split: if_splits)
qed

lemma frame_block_intro:
  assumes "unat (buf ! 0) = n" "MESSAGE_MIN \<le> n" "n \<le> length buf" 
    "buf ! (n - 1) = MESSAGE_SYNC" "crc16_ccitt (take (n - 3) buf) = block_crc buf n"
  shows "take n buf = frame_block (buf ! 1) (take (n - 5) (drop 2 buf))"
proof -
  have n5: "5 \<le> n" using assms(2) by (simp add: message_consts)
  have body: "take (n - 3) buf = [buf ! 0, buf ! 1] @ take (n - 5) (drop 2 buf)"
  proof -
    obtain a b c where buf: "buf = a # b # c" using n5 assms(3) by (cases buf; cases "tl buf") auto
    have "n - 3 = Suc (Suc (n - 5))" using n5 by simp
    then show ?thesis by (simp add: buf)
  qed
  have tail: "take n buf = take (n - 3) buf @ [buf ! (n - 3), buf ! (n - 2), buf ! (n - 1)]"
  proof -
    have "take n buf = take (n - 3) buf @ take 3 (drop (n - 3) buf)"
      using n5 take_add [of "n - 3" 3 buf] by simp
    moreover have s: "Suc (n - 3) = n - 2" "Suc (n - 2) = n - 1" "Suc (n - 1) = n"
      using n5 by simp_all
    moreover have "drop (n - 3) buf = buf ! (n - 3) # drop (n - 2) buf"
      using n5 assms(3) Cons_nth_drop_Suc [of "n - 3" buf] by (simp add: s)
    moreover have "drop (n - 2) buf = buf ! (n - 2) # drop (n - 1) buf"
      using n5 assms(3) Cons_nth_drop_Suc [of "n - 2" buf] by (simp add: s)
    moreover have "drop (n - 1) buf = buf ! (n - 1) # drop n buf"
      using n5 assms(3) Cons_nth_drop_Suc [of "n - 1" buf] by (simp add: s)
    ultimately show ?thesis by simp
  qed
  have crc: "ucast (drop_bit 8 (block_crc buf n)) = buf ! (n - 3)" "ucast (block_crc buf n) = buf ! (n - 2)"
  proof -
    have i: "n - 3 + 1 = n - 2" using n5 by simp
    show "ucast (drop_bit 8 (block_crc buf n)) = buf ! (n - 3)"
      "ucast (block_crc buf n) = buf ! (n - 2)"
      unfolding block_crc_def MESSAGE_TRAILER_CRC_def i by (rule crc_high, rule crc_low)
  qed
  have l: "of_nat n = buf ! 0" using assms(1) by auto
  have "ucast (drop_bit 8 (crc16_ccitt (take (n - 3) buf))) = buf ! (n - 3)"
    "ucast (crc16_ccitt (take (n - 3) buf)) = buf ! (n - 2)"
    using crc by (simp_all only: assms(5))
  then show ?thesis
    using n5 assms(3,4) l by (simp add: tail frame_block_def Let_def message_consts body)
qed

lemma find_block_accepted:
  assumes "command_find_block buf s = (1, n, s')"
  shows "take n buf = frame_block (next_sequence s) (take (n - 5) (drop 2 buf)) \<and>
     n \<le> length buf \<and> MESSAGE_MIN \<le> n \<and> n \<le> MESSAGE_MAX \<and> \<not> need_sync s \<and>
     s' = s\<lparr>need_valid := False, next_sequence := next_seq (next_sequence s)\<rparr>"
proof -
  have nz: "buf \<noteq> []" using assms by (auto simp: command_find_block_def message_consts)
  show ?thesis
    using assms find_block_error_pop [OF _ nz, of s 1 n s'] need_sync_pop [OF _ nz, of s 1 n s']
      nz frame_block_intro [of buf n]
    by (auto simp: command_find_block_def Let_def find_block_nak_def MESSAGE_POS_LEN_def
        MESSAGE_POS_SEQ_def MESSAGE_TRAILER_SYNC_def MESSAGE_TRAILER_SIZE_def not_less
        split: if_splits)
qed
lemma find_block_rejected:
  assumes "need_valid s" "command_find_block buf s = (-1, n, s')"
  shows "(need_valid s' \<and> sent s' = sent s) \<or>
     (\<exists>seq payload. take n buf = frame_block seq payload \<and> seq \<noteq> next_sequence s)"
proof -
  have nz: "buf \<noteq> []" using assms by (auto simp: command_find_block_def message_consts)
  show ?thesis
    using assms nz frame_block_intro [of buf n]
    by (auto simp: command_find_block_def Let_def find_block_nak_def MESSAGE_POS_LEN_def
        MESSAGE_POS_SEQ_def MESSAGE_TRAILER_SYNC_def MESSAGE_TRAILER_SIZE_def not_less
        find_block_error_def find_block_need_sync_def split: if_splits option.splits)
qed

section \<open>Parameters over the wire\<close>

definition int_param :: "param_type \<Rightarrow> bool" where
  "int_param t \<longleftrightarrow> t \<in> {PT_uint32, PT_int32, PT_uint16, PT_int16, PT_byte}"

lemma drop_at: "length us = p \<Longrightarrow> drop p (us @ vs) = vs"
  by simp

lemma parsef_int_step:
  assumes "int_param t" "length us \<le> maxend"
  shows "command_parsef enc (us @ encode_int v @ r) maxend (t # ts) (length us) args s =
    command_parsef enc ((us @ encode_int v) @ r) maxend ts (length (us @ encode_int v)) (args @ [v]) s"
  using assms by (simp add: parse_int_encode_int int_param_def)

lemma parsef_ints:
  assumes "list_all int_param ts" "length ts = length vs"
    and "length (us @ concat (map encode_int vs)) \<le> maxend"
  shows "command_parsef enc (us @ concat (map encode_int vs) @ r) maxend ts (length us) args s =
    Ret (length (us @ concat (map encode_int vs)), args @ vs) s"
  using assms
proof (induction ts arbitrary: us vs args)
  case Nil
  then show ?case by simp
next
  case (Cons t ts)
  then obtain v vs' where vs: "vs = v # vs'" by (cases vs) auto
  have "command_parsef enc (us @ encode_int v @ (concat (map encode_int vs') @ r)) maxend (t # ts)
      (length us) args s =
    command_parsef enc ((us @ encode_int v) @ concat (map encode_int vs') @ r) maxend ts
      (length (us @ encode_int v)) (args @ [v]) s"
    using Cons.prems by (intro parsef_int_step) (auto simp: vs)
  also have "\<dots> = Ret (length ((us @ encode_int v) @ concat (map encode_int vs')), (args @ [v]) @ vs') s"
    using Cons.prems by (intro Cons.IH) (auto simp: vs)
  finally show ?case by (simp add: vs)
qed

text \<open>\<open>command_parsef\<close> moves forward, and stays inside a buffer whose last byte ends a number.\<close>

lemma parsef_progress:
  "command_parsef enc buf maxend ts p args s = Ret (p', args') s' \<Longrightarrow> p \<le> p' \<and> s' = s"
proof (induction ts arbitrary: p args)
  case Nil
  then show ?case by simp
next
  case (Cons t ts)
  show ?case
  proof (cases "int_param t")
    case True
    with Cons.prems obtain v r where v: "parse_int (drop p buf) = Some (v, r)"
      and rec: "command_parsef enc buf maxend ts (length buf - length r) (args @ [v]) s = Ret (p', args') s'"
      by (auto simp: int_param_def split: if_splits option.splits)
    have "length r < length buf - p" using parse_int_length [OF v] by simp
    with Cons.IH [OF rec] show ?thesis by linarith
  next
    case False
    with Cons.prems have "t = PT_buffer" and
      "command_parsef enc buf maxend ts (p + 1 + unat (buf ! p))
         (args @ [of_nat (unat (buf ! p)), enc (p + 1)]) s = Ret (p', args') s'"
      by (auto simp: int_param_def Let_def split: if_splits)
    from Cons.IH [OF this(2)] show ?thesis by simp
  qed
qed

lemma parsef_no_fault:
  assumes "maxend \<le> i" "i < length buf" "buf ! i AND 0x80 = 0"
  shows "command_parsef enc buf maxend ts p args s \<noteq> Fault"
proof (induction ts arbitrary: p args)
  case Nil
  then show ?case by simp
next
  case (Cons t ts)
  have "\<exists>v r. parse_int (drop p buf) = Some (v, r)" if "p \<le> maxend"
  proof -
    have "drop p buf = take (i - p) (drop p buf) @ buf ! i # drop (Suc i) buf"
      using that assms(1,2) id_take_nth_drop [of "i - p" "drop p buf"] by simp
    with parse_int_stops [OF assms(3)] show ?thesis by metis
  qed
  with Cons.IH assms(1,2) show ?case
    by (cases "p \<le> maxend") (auto simp: Let_def split: option.splits)
qed

text \<open>
  The arguments that the parameters \<open>ts\<close> have to give: a number each, but the length byte and a pointer
  for a buffer, which lies with all its bytes before \<open>maxend\<close>.
\<close>

fun arguments_inside :: "(nat \<Rightarrow> u32) \<Rightarrow> u8 list \<Rightarrow> nat \<Rightarrow> param_type list \<Rightarrow> u32 list \<Rightarrow> bool" where
  "arguments_inside enc buf maxend [] vs \<longleftrightarrow> vs = []"
| "arguments_inside enc buf maxend (PT_buffer # ts) (n # ptr # vs) \<longleftrightarrow>
     (\<exists>q. 0 < q \<and> n = ucast (buf ! (q - 1)) \<and> ptr = enc q \<and> q + unat n \<le> maxend) \<and>
     arguments_inside enc buf maxend ts vs"
| "arguments_inside enc buf maxend (t # ts) (v # vs) \<longleftrightarrow>
     int_param t \<and> arguments_inside enc buf maxend ts vs"
| "arguments_inside enc buf maxend (t # ts) [] \<longleftrightarrow> False"

lemma arguments_inside_int:
  "int_param t \<Longrightarrow> arguments_inside enc buf maxend (t # ts) (v # vs) = arguments_inside enc buf maxend ts vs"
  by (cases t; cases vs) (auto simp: int_param_def)

lemma parsef_inside:
  assumes "maxend \<le> i" "i < length buf" "buf ! i AND 0x80 = 0"
  shows "command_parsef enc buf maxend ts p args s = Ret (p', args') s' \<Longrightarrow>
    p' \<le> max p (i + 1) \<and> (\<exists>vs. args' = args @ vs \<and> arguments_inside enc buf maxend ts vs)"
proof (induction ts arbitrary: p args)
  case Nil
  then show ?case by simp
next
  case (Cons t ts)
  show ?case
  proof (cases "int_param t")
    case True
    with Cons.prems obtain v r where v: "parse_int (drop p buf) = Some (v, r)" and p: "p \<le> maxend"
      and rec: "command_parsef enc buf maxend ts (length buf - length r) (args @ [v]) s = Ret (p', args') s'"
      by (auto simp: int_param_def split: if_splits option.splits)
    have "drop p buf = take (i - p) (drop p buf) @ buf ! i # drop (Suc i) buf"
      using p assms(1,2) id_take_nth_drop [of "i - p" "drop p buf"] by simp
    then have "length (drop (Suc i) buf) \<le> length r"
      using parse_int_stops [OF assms(3), of "take (i - p) (drop p buf)" "drop (Suc i) buf"] v by auto
    then show ?thesis using Cons.IH [OF rec] arguments_inside_int [OF True] assms(2) p by fastforce
  next
    case False
    with Cons.prems have t: "t = PT_buffer" and p: "p + 1 + unat (buf ! p) \<le> maxend" and
      rec: "command_parsef enc buf maxend ts (p + 1 + unat (buf ! p))
         (args @ [of_nat (unat (buf ! p)), enc (p + 1)]) s = Ret (p', args') s'"
      by (auto simp: int_param_def Let_def not_less split: if_splits)
    from Cons.IH [OF rec] obtain vs where
      vs: "p' \<le> i + 1" "args' = args @ [of_nat (unat (buf ! p)), enc (p + 1)] @ vs" "arguments_inside enc buf maxend ts vs"
      using p assms(1) by fastforce
    have "unat (buf ! p) < 2 ^ 8" using unsigned_less [of "buf ! p"] by simp
    then have u: "unat (ucast (buf ! p) :: u32) = unat (buf ! p)"
      by (simp add: unsigned_ucast_eq take_bit_nat_eq_self)
    have "arguments_inside enc buf maxend (t # ts) (ucast (buf ! p) # enc (p + 1) # vs)"
      using vs(3) p by (auto simp: t u intro!: exI [of _ "p + 1"])
    then show ?thesis using vs(1,2) by (intro conjI exI [of _ "ucast (buf ! p) # enc (p + 1) # vs"]) auto
  qed
qed

lemma parsef_stops:
  "command_parsef enc buf maxend ts p args s = Shutdown r s' \<Longrightarrow> r = ''Command parser error'' \<and> s' = s"
  by (induction ts arbitrary: p args) (auto simp: Let_def split: if_splits option.splits)

section \<open>Length of encoded messages\<close>

lemma encodef_ints:
  assumes "list_all int_param ts" "length ts = length vs"
    and "length out + 5 * length ts \<le> maxend"
  shows "encodef_params n maxend ts (map IntArg vs) out s =
    Ret (out @ concat (map encode_int (map2 (encode_arg n) ts vs))) s"
  using assms
proof (induction ts arbitrary: vs out)
  case Nil
  then show ?case by simp
next
  case (Cons t ts)
  then obtain v vs' where vs: "vs = v # vs'" by (cases vs) auto
  have "length (out @ encode_int (encode_arg n t v)) + 5 * length ts \<le> maxend"
    using Cons.prems(3) length_encode_int(2) [of "encode_arg n t v"] by simp
  from Cons.IH [OF _ _ this, of vs'] Cons.prems(1,2) Cons.prems(3) show ?case
    by (simp add: vs int_param_def)
qed

lemma length_encode_ints: "length (concat (map encode_int vs)) \<le> 5 * length vs"
proof (induction vs)
  case (Cons v vs)
  then show ?case using length_encode_int(2) [of v] by simp
qed simp

lemma encode_int_message:
  fixes n :: nat
  assumes "list_all int_param (ce_param_types ce)" "length (ce_param_types ce) = length vs"
    and "MESSAGE_MIN + 1 + 5 * length vs \<le> ce_max_size ce"
  defines "f \<equiv> \<lambda>seq. frame_block seq
    (ce_msg_id ce # concat (map encode_int (map2 (encode_arg n) (ce_param_types ce) vs)))"
  shows "\<exists>b. command_encode_and_frame n ce (map IntArg vs) s = Ret b s \<and>
    length b \<le> ce_max_size ce \<and> b = f (next_sequence s)"
proof -
  let ?p = "ce_msg_id ce # concat (map encode_int (map2 (encode_arg n) (ce_param_types ce) vs))"
  have "encodef_params n (ce_max_size ce - MESSAGE_MIN) (ce_param_types ce) (map IntArg vs)
      [ce_msg_id ce] s = Ret ?p s"
    using assms by (subst encodef_ints) auto
  then have "command_encodef n ce (map IntArg vs) s = Ret (?p, length ?p + MESSAGE_MIN) s"
    using assms(3) by (simp add: command_encodef_def message_consts)
  moreover have "length ?p + MESSAGE_MIN \<le> ce_max_size ce"
    using assms(2,3) length_encode_ints [of "map2 (encode_arg n) (ce_param_types ce) vs"] by simp
  ultimately show ?thesis
    using add_frame_is_frame_block [of ?p "length ?p + MESSAGE_MIN" "replicate 2 0" "replicate 3 0" s]
    by (simp add: f_def command_encode_and_frame_def length_frame_block
        MESSAGE_HEADER_SIZE_def MESSAGE_TRAILER_SIZE_def)
qed

section \<open>Properties of the transport\<close>

text \<open>
  A message block that the host framed with the expected sequence number, its length within
  \<open>MESSAGE_MAX\<close>, is accepted whatever bytes follow it: it is popped whole, the sequence number
  moves to the next one and nothing is sent.
\<close>

theorem find_block_accepts:
  assumes "length payload + MESSAGE_MIN \<le> MESSAGE_MAX"
    and "next_sequence s AND NOT MESSAGE_SEQ_MASK = MESSAGE_DEST" and "\<not> need_sync s"
  shows "command_find_block (frame_block (next_sequence s) payload @ rest) s =
     (1, length payload + MESSAGE_MIN,
        s\<lparr>need_valid := False, next_sequence := next_seq (next_sequence s)\<rparr>)"
  by (simp add: find_block_frame [OF assms])

definition comm0 :: comm where
  "comm0 = \<lparr>next_sequence = MESSAGE_DEST, need_sync = False, need_valid = False,
            in_sendf = False, sent = []\<rparr>"

theorem find_block_accepts_witness:
  "command_find_block (frame_block 0x10 [5, 7] @ [0x7E]) comm0 =
     (1, 7, comm0\<lparr>need_valid := False, next_sequence := 0x11\<rparr>)"
  using find_block_accepts [of "[5, 7]" comm0 "[0x7E]"]
  by (simp add: message_consts comm0_def next_seq_def)

text \<open>
  C33: Nothing but a well formed block is accepted: when \<open>command_find_block\<close> returns 1, the popped
  bytes are a frame with the sequence number the receiver waits for and a valid checksum, no
  resynchronisation is pending, and only the sequence state changes.
\<close>

theorem find_block_sound:
  assumes "command_find_block buf s = (1, n, s')"
  shows "\<exists>payload. take n buf = frame_block (next_sequence s) payload \<and> n \<le> length buf \<and>
     MESSAGE_MIN \<le> n \<and> n \<le> MESSAGE_MAX \<and> \<not> need_sync s \<and>
     s' = s\<lparr>need_valid := False, next_sequence := next_seq (next_sequence s)\<rparr>"
  using find_block_accepted [OF assms] by blast

theorem find_block_sound_witness:
  "\<exists>payload. take 5 (frame_block 0x10 []) = frame_block 0x10 payload"
proof -
  have "command_find_block (frame_block 0x10 []) comm0 =
      (1, 5, comm0\<lparr>need_valid := False, next_sequence := next_seq 0x10\<rparr>)"
    using find_block_frame [where payload = "[]" and seq = "0x10" and s = comm0 and rest = "[]"] by (simp add: message_consts comm0_def)
  from find_block_sound [OF this] show ?thesis by (auto simp: comm0_def message_consts)
qed

text \<open>
  The receiver makes progress on any input: it either asks for more data, which leaves the
  state alone and happens only while fewer than \<open>MESSAGE_MAX\<close> bytes are buffered, or it consumes
  at least one and at most all of the bytes.
\<close>

theorem find_block_progress:
  assumes "command_find_block buf s = (r, n, s')"
  shows "n \<le> length buf \<and> r \<in> {-1, 0, 1} \<and> (r \<noteq> 0 \<longleftrightarrow> 1 \<le> n) \<and>
    (r = 0 \<longrightarrow> s' = s \<and> length buf < MESSAGE_MAX)"
proof -
  have "length buf < MESSAGE_MAX" if "r = 0"
  proof (cases "buf = []")
    case False
    with assms that show ?thesis
      by (auto simp: command_find_block_def Let_def find_block_nak_def message_consts
          dest!: find_block_error_pop need_sync_pop split: if_splits)
  qed (simp add: message_consts)
  with find_block_pop [OF assms] show ?thesis by (auto simp: Suc_le_eq)
qed

theorem find_block_progress_witness:
  "\<exists>r n s'. command_find_block [1, 2, 3, 4, 5] comm0 = (r, n, s') \<and> 1 \<le> n \<and> r = -1"
proof -
  obtain r n s' where r: "command_find_block [1, 2, 3, 4, 5] comm0 = (r, n, s')"
    by (metis prod_cases3)
  moreover from r have "r = -1"
    by (simp add: command_find_block_def message_consts comm0_def find_block_error_def
        find_block_need_sync_def find_block_nak_def Let_def)
  ultimately show ?thesis using find_block_progress [OF r] by auto
qed

text \<open>
  After a corrupted block one ack/nak is sent, and no second one before a well formed block
  has been seen: while \<open>CF_NEED_VALID\<close> is set, a rejection either sends nothing and keeps the
  flag, or the bytes it popped are a well formed block with another sequence number.
\<close>

theorem find_block_naks_once:
  assumes "need_valid s" "command_find_block buf s = (-1, n, s')"
  shows "(need_valid s' \<and> sent s' = sent s) \<or>
     (\<exists>seq payload. take n buf = frame_block seq payload \<and> seq \<noteq> next_sequence s)"
  using assms by (rule find_block_rejected)

theorem find_block_naks_once_witness:
  "sent (snd (snd (command_find_block [1, 2, 3, 4, 5] (comm0\<lparr>need_valid := True\<rparr>)))) = []"
proof -
  let ?s = "comm0\<lparr>need_valid := True\<rparr>"
  have r: "command_find_block [1, 2, 3, 4, 5] ?s = (-1, 5, ?s\<lparr>need_sync := True\<rparr>)"
    by (simp add: command_find_block_def message_consts comm0_def find_block_error_def
        find_block_need_sync_def find_block_nak_def Let_def)
  have "\<not> (\<exists>seq payload. take 5 [1, 2, 3, 4, 5] = frame_block seq payload \<and> seq \<noteq> next_sequence ?s)"
    by (auto simp: frame_block_def Let_def message_consts)
  with find_block_naks_once [OF _ r] have "sent (?s\<lparr>need_sync := True\<rparr>) = sent ?s" by auto
  then show ?thesis by (simp only: r snd_conv) (simp add: comm0_def)
qed

text \<open>
  A command whose integer parameters the host encoded one after the other is decoded to
  exactly these values, in order, and the parser stops behind the last one.
\<close>

theorem command_parsef_decodes:
  assumes "list_all int_param ts" "length ts = length vs"
    and "length us + length (concat (map encode_int vs)) \<le> maxend"
  shows "command_parsef enc (us @ concat (map encode_int vs) @ r) maxend ts (length us) [] s =
    Ret (length us + length (concat (map encode_int vs)), vs) s"
  using parsef_ints [where us = us and maxend = maxend and enc = enc and r = r and args = "[]" and s = s] assms by simp

theorem command_parsef_decodes_witness:
  "command_parsef (\<lambda>p. 0) ([9, 16, 4] @ concat (map encode_int [1000, -1]) @ [0, 0, 0x7E]) 7
     [PT_uint32, PT_int32] (length [9 :: u8, 16, 4]) [] () = Ret (6, [1000, -1]) ()"
proof -
  have l: "length (concat (map encode_int [1000, -1])) = 3"
    by (simp add: encode_int_def vlq_defs Let_def)
  show ?thesis
    using command_parsef_decodes [of "[PT_uint32, PT_int32]" "[1000, -1]" "[9, 16, 4]" 7
        "\<lambda>p. 0" "[0, 0, 0x7E]" "()"]
    unfolding l by (simp add: int_param_def del: command_parsef.simps)
qed

text \<open>
  C37: No command can make the parser read or point outside the block, whatever the parameter types and
  the bytes are. The SYNC byte behind the checksum stops every number, so \<open>command_parsef\<close> never
  reads on behind it. It either stops the firmware with "Command parser error", or returns one
  argument for each number and two for each buffer, its length byte and a pointer to it, and then all
  the bytes of the buffer lie in the block before the trailer.
\<close>

theorem command_parsef_in_bounds:
  assumes "MESSAGE_MIN \<le> n" "n \<le> length buf" "buf ! (n - MESSAGE_TRAILER_SYNC) = MESSAGE_SYNC"
  shows "case command_parsef enc buf (n - MESSAGE_TRAILER_SIZE) ts p args s of
      Ret (p', args') s' \<Rightarrow> p \<le> p' \<and> p' \<le> max p n \<and> s' = s \<and>
        (\<exists>vs. args' = args @ vs \<and> arguments_inside enc buf (n - MESSAGE_TRAILER_SIZE) ts vs)
    | Shutdown r s' \<Rightarrow> r = ''Command parser error'' \<and> s' = s
    | Fault \<Rightarrow> False"
proof -
  have i: "n - MESSAGE_TRAILER_SIZE \<le> n - 1" "n - 1 < length buf" "buf ! (n - 1) AND 0x80 = 0" "n - 1 + 1 = n"
    using assms by (auto simp: message_consts)
  show ?thesis
  proof (cases "command_parsef enc buf (n - MESSAGE_TRAILER_SIZE) ts p args s")
    case (Ret r s')
    then show ?thesis
      using parsef_inside [OF i(1-3), of enc ts p args s "fst r" "snd r" s']
        parsef_progress [of enc buf _ ts p args s "fst r" "snd r" s'] i(4) by (cases r) auto
  next
    case (Shutdown r s')
    then show ?thesis using parsef_stops [OF Shutdown] by simp
  next
    case Fault
    then show ?thesis using parsef_no_fault [OF i(1-3), of enc ts p args s] by simp
  qed
qed

theorem command_parsef_in_bounds_witness:
  "\<exists>vs. command_parsef of_nat [9, 16, 4, 2, 11, 12, 0xff, 0xff, 0x7E] (9 - MESSAGE_TRAILER_SIZE) [PT_buffer] 3 [] () =
       Ret (6, vs) () \<and> vs = [2, 4] \<and> arguments_inside of_nat [9, 16, 4, 2, 11, 12, 0xff, 0xff, 0x7E] 6 [PT_buffer] vs"
  using command_parsef_in_bounds [where n = 9 and buf = "[9, 16, 4, 2, 11, 12, 0xff, 0xff, 0x7E]"
      and enc = of_nat and ts = "[PT_buffer]" and p = 3 and args = "[]" and s = "()"]
  by (simp add: message_consts del: arguments_inside.simps)

text \<open>
  A message of integer parameters, its \<open>max_size\<close> computed as the build does (five bytes per
  parameter), is encoded without a stop, fits \<open>max_size\<close>, and is a well formed block whose payload
  is the message id followed by the encoded values.
\<close>

theorem encode_and_frame_fits:
  assumes "list_all int_param (ce_param_types ce)" "length (ce_param_types ce) = length vs"
    and "MESSAGE_MIN + 1 + 5 * length vs \<le> ce_max_size ce"
  shows "\<exists>payload. command_encode_and_frame n ce (map IntArg vs) s =
      Ret (frame_block (next_sequence s) payload) s \<and>
    payload = ce_msg_id ce # concat (map encode_int (map2 (encode_arg n) (ce_param_types ce) vs)) \<and>
    length (frame_block (next_sequence s) payload) \<le> ce_max_size ce"
  using encode_int_message [OF assms] by blast

theorem encode_and_frame_fits_witness:
  "\<exists>b. command_encode_and_frame 4 \<lparr>ce_msg_id = 3, ce_max_size = 11, ce_param_types = [PT_uint32]\<rparr>
     [IntArg 77] comm0 = Ret b comm0 \<and> length b \<le> 11"
  using encode_and_frame_fits
    [of "\<lparr>ce_msg_id = 3, ce_max_size = 11, ce_param_types = [PT_uint32]\<rparr>" "[77]" 4 comm0]
  by (auto simp: int_param_def message_consts)

text \<open>
  The clipping of oversized buffers in \<open>command_encodef\<close> is one byte too generous: it leaves no
  room for the length byte, and with a 64 byte \<open>max_size\<close> the message becomes 65 bytes, more than
  \<open>MESSAGE_MAX\<close> and more than \<open>console_sendf\<close> reserves.
\<close>

theorem command_encodef_overruns:
  "\<exists>payload. command_encodef 4 \<lparr>ce_msg_id = 3, ce_max_size = 64, ce_param_types = [PT_buffer]\<rparr>
     [IntArg 60, BytesArg (replicate 60 0)] comm0 = Ret (payload, 65) comm0"
  by (simp add: command_encodef_def message_consts)

end
