(* ===== verification/Sched.thy ===== *)
theory Sched
  imports Comm
begin

text \<open>
  The scheduler of \<open>src/sched.c\<close>: the list of timers threaded through \<open>struct timer\<close>, its dispatch,
  the task wake-up flag and the emergency stop. A timer is a reference to the struct that embeds
  it, the \<open>next\<close>, \<open>func\<close> and \<open>waketime\<close> fields are maps over these references, and the loops follow
  the \<open>next\<close> pointers as the code does. Disabled interrupts make each operation atomic.
\<close>

section \<open>State\<close>

text \<open>
  \<open>Obj_timer oid\<close> is the \<open>struct timer\<close> at the head of the object \<open>oid\<close>; a trsync object has the
  two timers \<open>report_time\<close> and \<open>expire_time\<close>.
\<close>

datatype timer_ref =
    Periodic_timer
  | Sentinel_timer
  | Deleted_timer
  | Obj_timer u8
  | Report_timer u8
  | Expire_timer u8

text \<open>The functions a \<open>func\<close> field can hold.\<close>

datatype timer_func =
    Periodic_event
  | Sentinel_event
  | Deleted_event
  | Stepper_event_full
  | Trsync_report_event
  | Trsync_expire_event
  | Endstop_event
  | Endstop_oversample_event
  | Digital_load_event
  | Digital_toggle_event
  | Analog_in_event
  | Pwm_event
  | Pwm_end_event
  | Buttons_event
  | Counter_event
  | Tmcuart_send_event
  | Tmcuart_send_sync_event
  | Tmcuart_send_finish_event
  | Tmcuart_read_sync_event
  | Tmcuart_read_event
  | Thermocouple_event
  | Adxl345_event

datatype sf_result = SF_DONE | SF_RESCHEDULE

text \<open>Effects on the hardware, in the order they happen.\<close>

datatype hw_op =
    Timer_kick
  | Gpio_out_setup u32 bool
  | Gpio_in_setup u32 u32
  | Gpio_out_write u32 bool
  | Gpio_out_toggle u32
  | Gpio_out_reset u32 bool
  | Gpio_in_reset u32 bool
  | Gpio_adc_setup u32
  | Gpio_adc_cancel_sample u32
  | Gpio_pwm_setup u32 u32 u32
  | Gpio_pwm_write u32 u32
  | Spi_setup u32 u8 u32
  | Spi_prepare u32
  | Spi_transfer u32 "u8 list"
  | I2c_setup u32 u32 u8
  | I2c_write u32 u8 "u8 list"
  | I2c_read u32 u8 "u8 list" nat
  | Can_send u32 "u8 list"
  | Can_set_filter u32

text \<open>What the build fixes: \<open>autoconf.h\<close> and the static string table.\<close>

record kconfig =
  ticks_per_us :: u32
  CONFIG_INLINE_STEPPER_HACK :: bool
  CONFIG_HAVE_STEPPER_BOTH_EDGE :: bool
  CONFIG_MACH_AVR :: bool
  CONFIG_HAVE_GPIO_BITBANGING :: bool
  static_string_id :: "string \<Rightarrow> u32"

record sched = comm +
  kconf :: kconfig
  timer_read_time :: u32
  hw :: "hw_op list"
  timer_next :: "timer_ref \<Rightarrow> timer_ref option"
  timer_func :: "timer_ref \<Rightarrow> timer_func option"
  timer_waketime :: "timer_ref \<Rightarrow> u32"
  timer_list :: timer_ref
  last_insert :: timer_ref
  tasks_status :: int
  task_wake :: "string \<Rightarrow> bool"      \<comment> \<open>the \<open>struct task_wake\<close> of each task, by its name\<close>
  shutdown_status :: nat
  shutdown_reason :: string
  timer_repeat_until :: u32

definition hw_do :: "hw_op \<Rightarrow> 'z sched_scheme \<Rightarrow> 'z sched_scheme" where
  "hw_do op s = s\<lparr>hw := hw s @ [op]\<rparr>"

definition set_waketime :: "timer_ref \<Rightarrow> u32 \<Rightarrow> 'z sched_scheme \<Rightarrow> 'z sched_scheme" where
  "set_waketime t w s = s\<lparr>timer_waketime := (timer_waketime s)(t := w)\<rparr>"

definition set_next :: "timer_ref \<Rightarrow> timer_ref option \<Rightarrow> 'z sched_scheme \<Rightarrow> 'z sched_scheme" where
  "set_next t n s = s\<lparr>timer_next := (timer_next s)(t := n)\<rparr>"

definition set_func :: "timer_ref \<Rightarrow> timer_func \<Rightarrow> 'z sched_scheme \<Rightarrow> 'z sched_scheme" where
  "set_func t f s = s\<lparr>timer_func := (timer_func s)(t := Some f)\<rparr>"

section \<open>The clock\<close>

definition timer_from_us :: "'z sched_scheme \<Rightarrow> u32 \<Rightarrow> u32" where
  "timer_from_us s us = us * ticks_per_us (kconf s)"

definition timer_is_before :: "u32 \<Rightarrow> u32 \<Rightarrow> bool" where
  "timer_is_before time1 time2 \<longleftrightarrow> sint (time1 - time2) < 0"

definition timer_kick :: "'z sched_scheme \<Rightarrow> 'z sched_scheme" where
  "timer_kick s = hw_do Timer_kick s"

section \<open>Shutdown\<close>

definition sched_shutdown :: "string \<Rightarrow> 's \<Rightarrow> ('a, 's) outcome" where
  "sched_shutdown reason s = Shutdown reason s"

definition sched_try_shutdown :: "string \<Rightarrow> 'z sched_scheme \<Rightarrow> (unit, 'z sched_scheme) outcome" where
  "sched_try_shutdown reason s =
     (if shutdown_status s = 0 then sched_shutdown reason s else Ret () s)"

definition sched_is_shutdown :: "'z sched_scheme \<Rightarrow> bool" where
  "sched_is_shutdown s \<longleftrightarrow> shutdown_status s \<noteq> 0"

definition sched_clear_shutdown :: "'z sched_scheme \<Rightarrow> (unit, 'z sched_scheme) outcome" where
  "sched_clear_shutdown s =
     (if shutdown_status s = 0 then sched_shutdown ''Shutdown cleared when not shutdown'' s
      else if shutdown_status s = 2 then Ret () s
      else Ret () (s\<lparr>shutdown_status := 0\<rparr>))"

definition sched_report_shutdown :: "'z sched_scheme \<Rightarrow> 'z sched_scheme" where
  "sched_report_shutdown s =
     command_sendf (Response ''is_shutdown'' [static_string_id (kconf s) (shutdown_reason s)]) s"

section \<open>Tasks\<close>

definition TS_IDLE :: int where "TS_IDLE = -1"
definition TS_REQUESTED :: int where "TS_REQUESTED = 0"
definition TS_RUNNING :: int where "TS_RUNNING = 1"

definition sched_wake_tasks :: "'z sched_scheme \<Rightarrow> 'z sched_scheme" where
  "sched_wake_tasks s = s\<lparr>tasks_status := TS_REQUESTED\<rparr>"

definition sched_tasks_busy :: "'z sched_scheme \<Rightarrow> bool" where
  "sched_tasks_busy s \<longleftrightarrow> tasks_status s \<ge> TS_REQUESTED"

definition sched_wake_task :: "string \<Rightarrow> 'z sched_scheme \<Rightarrow> 'z sched_scheme" where
  "sched_wake_task w s =
     (let s = sched_wake_tasks s in s\<lparr>task_wake := (task_wake s)(w := True)\<rparr>)"

definition sched_check_wake :: "string \<Rightarrow> 'z sched_scheme \<Rightarrow> bool \<times> 'z sched_scheme" where
  "sched_check_wake w s =
     (if \<not> task_wake s w then (False, s)
      else (True, s\<lparr>task_wake := (task_wake s)(w := False)\<rparr>))"

section \<open>Timers\<close>

definition periodic_event :: "'z sched_scheme \<Rightarrow> (sf_result, 'z sched_scheme) outcome" where
  "periodic_event s =
     (let s = sched_wake_tasks s;
          s = set_waketime Periodic_timer
                (timer_waketime s Periodic_timer + timer_from_us s 100000) s;
          s = set_waketime Sentinel_timer (timer_waketime s Periodic_timer + 0x80000000) s
      in Ret SF_RESCHEDULE s)"

definition sentinel_event :: "'z sched_scheme \<Rightarrow> (sf_result, 'z sched_scheme) outcome" where
  "sentinel_event s = sched_shutdown ''sentinel timer called'' s"

definition deleted_event :: "'z sched_scheme \<Rightarrow> (sf_result, 'z sched_scheme) outcome" where
  "deleted_event s = Ret SF_DONE s"

text \<open>
  The loop of \<open>insert_timer\<close>: from \<open>prev\<close>, the first pair of neighbours between which a timer with
  this \<open>waketime\<close> goes. \<open>None\<close>: the walk meets a \<open>NULL\<close> pointer or does not end.
\<close>

partial_function (option) insert_pos ::
    "(timer_ref \<Rightarrow> timer_ref option) \<Rightarrow> (timer_ref \<Rightarrow> u32) \<Rightarrow> u32 \<Rightarrow> timer_ref
       \<Rightarrow> (timer_ref \<times> timer_ref) option" where
  "insert_pos nx wk waketime prev =
     (case nx prev of
        None \<Rightarrow> None
      | Some pos \<Rightarrow>
          if timer_is_before waketime (wk pos) then Some (prev, pos)
          else insert_pos nx wk waketime pos)"

definition insert_timer ::
    "timer_ref \<Rightarrow> timer_ref \<Rightarrow> u32 \<Rightarrow> 'z sched_scheme \<Rightarrow> (unit, 'z sched_scheme) outcome" where
  "insert_timer pos t waketime s =
     (case insert_pos (timer_next s) (timer_waketime s) waketime pos of
        None \<Rightarrow> Fault
      | Some (prev, pos) \<Rightarrow> Ret () (set_next prev (Some t) (set_next t (Some pos) s)))"

definition sched_add_timer :: "timer_ref \<Rightarrow> 'z sched_scheme \<Rightarrow> (unit, 'z sched_scheme) outcome" where
  "sched_add_timer add s =
     (let waketime = timer_waketime s add; tl = timer_list s in
      if timer_is_before waketime (timer_waketime s tl) then
        andThen
          (if timer_is_before waketime (timer_read_time s)
           then sched_try_shutdown ''Timer too close'' s else Ret () s)
          (\<lambda>_ s.
             let s = (if tl = Deleted_timer
                      then set_next add (timer_next s Deleted_timer) s
                      else set_next add (Some tl) s);
                 s = set_waketime Deleted_timer waketime s;
                 s = set_next Deleted_timer (Some add) s;
                 s = s\<lparr>timer_list := Deleted_timer\<rparr>
             in Ret () (timer_kick s))
      else insert_timer tl add waketime s)"

text \<open>
  The search loop of \<open>sched_del_timer\<close>: the node whose successor is \<open>del\<close>, if any. \<open>None\<close>: the
  walk does not end.
\<close>

partial_function (option) find_prev ::
    "(timer_ref \<Rightarrow> timer_ref option) \<Rightarrow> timer_ref \<Rightarrow> timer_ref \<Rightarrow> timer_ref option option" where
  "find_prev nx del pos =
     (case nx pos of
        None \<Rightarrow> Some None
      | Some n \<Rightarrow> if n = del then Some (Some pos) else find_prev nx del n)"

definition sched_del_timer :: "timer_ref \<Rightarrow> 'z sched_scheme \<Rightarrow> (unit, 'z sched_scheme) outcome" where
  "sched_del_timer del s =
     andThen
       (if timer_list s = del then
          let s = set_waketime Deleted_timer (timer_waketime s del) s;
              s = set_next Deleted_timer (timer_next s del) s
          in Ret () (s\<lparr>timer_list := Deleted_timer\<rparr>)
        else
          (case find_prev (timer_next s) del (timer_list s) of
             None \<Rightarrow> Fault
           | Some None \<Rightarrow> Ret () s
           | Some (Some pos) \<Rightarrow> Ret () (set_next pos (timer_next s del) s)))
       (\<lambda>_ s. Ret () (if last_insert s = del then s\<lparr>last_insert := Periodic_timer\<rparr> else s))"

text \<open>
  \<open>sched_timer_dispatch\<close>: the call of the timer at the head, then its removal or its move behind
  the timers that come first. The event functions of the other components come in as
  \<open>stepper_event\<close> and \<open>call\<close> (a call through the function pointer).
\<close>

definition dispatch_update ::
    "timer_ref \<Rightarrow> sf_result \<Rightarrow> 'z sched_scheme \<Rightarrow> (u32, 'z sched_scheme) outcome" where
  "dispatch_update t res s =
     (let updated_waketime = timer_waketime s t in
      case timer_next s t of
        None \<Rightarrow> Fault
      | Some n \<Rightarrow>
          if res = SF_DONE then
            let next_waketime = timer_waketime s n;
                s = s\<lparr>timer_list := n\<rparr>;
                s = (if last_insert s = t then s\<lparr>last_insert := n\<rparr> else s)
            in Ret next_waketime s
          else if \<not> timer_is_before updated_waketime (timer_waketime s n) then
            let next_waketime = timer_waketime s n;
                s = s\<lparr>timer_list := n\<rparr>;
                pos = last_insert s;
                pos = (if timer_is_before updated_waketime (timer_waketime s pos)
                       then timer_list s else pos)
            in andThen (insert_timer pos t updated_waketime s)
                 (\<lambda>_ s. Ret next_waketime (s\<lparr>last_insert := t\<rparr>))
          else Ret updated_waketime s)"

definition sched_timer_dispatch ::
    "(timer_ref \<Rightarrow> 'z sched_scheme \<Rightarrow> (sf_result, 'z sched_scheme) outcome) \<Rightarrow>
     (timer_func \<Rightarrow> timer_ref \<Rightarrow> 'z sched_scheme \<Rightarrow> (sf_result, 'z sched_scheme) outcome) \<Rightarrow>
     'z sched_scheme \<Rightarrow> (u32, 'z sched_scheme) outcome" where
  "sched_timer_dispatch stepper_event call s =
     (let t = timer_list s in
      andThen
        (case timer_func s t of
           None \<Rightarrow> if CONFIG_INLINE_STEPPER_HACK (kconf s) then stepper_event t s else Fault
         | Some f \<Rightarrow> call f t s)
        (dispatch_update t))"

definition sched_timer_reset :: "'z sched_scheme \<Rightarrow> 'z sched_scheme" where
  "sched_timer_reset s =
     (let s = s\<lparr>timer_list := Deleted_timer\<rparr>;
          s = set_waketime Deleted_timer (timer_waketime s Periodic_timer) s;
          s = set_next Deleted_timer (Some Periodic_timer) (s\<lparr>last_insert := Periodic_timer\<rparr>);
          s = set_next Periodic_timer (Some Sentinel_timer) s
      in timer_kick s)"

section \<open>Shutdown processing\<close>

text \<open>
  \<open>shutdownfuncs\<close> is the generated \<open>ctr_run_shutdownfuncs\<close>, the calls of all \<open>DECL_SHUTDOWN\<close>
  functions. The function runs with interrupts disabled.
\<close>

definition run_shutdown ::
    "('z sched_scheme \<Rightarrow> (unit, 'z sched_scheme) outcome) \<Rightarrow> string \<Rightarrow> 'z sched_scheme
       \<Rightarrow> (unit, 'z sched_scheme) outcome" where
  "run_shutdown shutdownfuncs reason s =
     (let cur = timer_read_time s;
          s = (if shutdown_status s = 0 then s\<lparr>shutdown_reason := reason\<rparr> else s);
          s = s\<lparr>shutdown_status := 2\<rparr>;
          s = sched_timer_reset s
      in andThen (shutdownfuncs s)
           (\<lambda>_ s. let s = s\<lparr>shutdown_status := 1\<rparr> in
              Ret () (command_sendf (Response ''shutdown''
                        [cur, static_string_id (kconf s) (shutdown_reason s)]) s)))"

text \<open>
  The \<open>setjmp\<close> of \<open>sched_main\<close>: code that leaves through \<open>longjmp\<close> comes back here and runs the
  shutdown handlers; a shutdown inside them comes back again, so the number of returns is bounded
  by \<open>fuel\<close> in the model.
\<close>

fun sched_resume ::
    "nat \<Rightarrow> ('z sched_scheme \<Rightarrow> (unit, 'z sched_scheme) outcome) \<Rightarrow>
     (unit, 'z sched_scheme) outcome \<Rightarrow> (unit, 'z sched_scheme) outcome" where
  "sched_resume fuel shutdownfuncs (Ret v s) = Ret v s"
| "sched_resume fuel shutdownfuncs Fault = Fault"
| "sched_resume 0 shutdownfuncs (Shutdown reason s) = Shutdown reason s"
| "sched_resume (Suc fuel) shutdownfuncs (Shutdown reason s) =
     sched_resume fuel shutdownfuncs (run_shutdown shutdownfuncs reason s)"

section \<open>Comparing times against a base\<close>

text \<open>
  \<open>from_base b w\<close> is how far \<open>w\<close> lies after \<open>b\<close> on the 32 bit circle. Two times less than half a
  turn apart compare as their distances do.
\<close>

definition from_base :: "u32 \<Rightarrow> u32 \<Rightarrow> int" where
  "from_base b w = sint (w - b)"

lemma from_base_bounds: "- (2 ^ 31) \<le> from_base b w" "from_base b w < 2 ^ 31"
  using sint_greater_eq [of "w - b"] sint_less [of "w - b"] by (simp_all add: from_base_def)

lemma sint_diff_in_range:
  fixes a b :: u32
  assumes "- (2 ^ 31) \<le> sint a - sint b" "sint a - sint b < 2 ^ 31"
  shows "sint (a - b) = sint a - sint b"
proof -
  have "sint (a - b) = signed_take_bit 31 (sint a - sint b)"
    by (simp add: sint_word_ariths)
  also have "\<dots> = sint a - sint b"
    using assms by (simp add: signed_take_bit_int_eq_self_iff)
  finally show ?thesis .
qed

lemma before_from_base:
  assumes "\<bar>from_base b w - from_base b x\<bar> < 2 ^ 31"
  shows "timer_is_before w x \<longleftrightarrow> from_base b w < from_base b x"
proof -
  have "w - x = (w - b) - (x - b)" by simp
  then have "sint (w - x) = from_base b w - from_base b x"
    using assms unfolding from_base_def by (simp only:) (rule sint_diff_in_range; simp)
  then show ?thesis by (simp add: timer_is_before_def)
qed

lemma before_sentinel: "timer_is_before w (b + 0x80000000) \<longleftrightarrow> 0 \<le> from_base b w"
proof -
  define k where "k = sint (w - b)"
  have k: "- (2 ^ 31) \<le> k" "k < 2 ^ 31" using from_base_bounds [of b w] by (simp_all add: k_def from_base_def)
  have "sint (w - (b + 0x80000000)) = sint ((w - b) - 0x80000000)" by (simp add: algebra_simps)
  also have "\<dots> = signed_take_bit 31 (k + 2 ^ 31)" by (simp add: sint_word_ariths k_def)
  also have "\<dots> = (if k < 0 then k + 2 ^ 31 else k - 2 ^ 31)"
  proof (cases "k < 0")
    case True then show ?thesis using k by (simp add: signed_take_bit_int_eq_self_iff)
  next
    case False
    have "signed_take_bit 31 (k + 2 ^ 31) = signed_take_bit 31 (k - 2 ^ 31)"
      by (rule signed_take_bit_eq_iff_take_bit_eq[THEN iffD2]) (simp add: take_bit_eq_mod mod_eq_dvd_iff)
    with False k show ?thesis by (simp add: signed_take_bit_int_eq_self_iff)
  qed
  finally show ?thesis using k by (simp add: timer_is_before_def from_base_def k_def split: if_splits)
qed

lemma before_periodic: "timer_is_before w b \<longleftrightarrow> from_base b w < 0"
  by (simp add: timer_is_before_def from_base_def)


section \<open>The timer list\<close>

text \<open>
  \<open>timer_inv s xs\<close>: the timers linked from \<open>timer_list\<close> are \<open>xs\<close>. The periodic timer is one of
  them, the sentinel is the last and lies half a turn after the periodic timer, the deleted timer
  is nowhere but at the head, and \<open>last_insert\<close> is an entry before the sentinel.
\<close>

definition timer_inv :: "'z sched_scheme \<Rightarrow> timer_ref list \<Rightarrow> bool" where
  "timer_inv s xs \<longleftrightarrow>
     chain (timer_next s) (Some (timer_list s)) xs \<and>
     (\<exists>us. xs = us @ [Sentinel_timer] \<and> Periodic_timer \<in> set us \<and>
           last_insert s \<in> set us) \<and>
     Deleted_timer \<notin> set (tl xs) \<and> last_insert s \<noteq> Deleted_timer \<and>
     timer_waketime s Sentinel_timer = timer_waketime s Periodic_timer + 0x80000000"

text \<open>
  The position of a timer in time: its distance from the periodic timer, and for the sentinel
  half a turn, more than any distance can be.
\<close>

definition rel_time :: "'z sched_scheme \<Rightarrow> u32 \<Rightarrow> int" where
  "rel_time s w = from_base (timer_waketime s Periodic_timer) w"

definition timer_key :: "'z sched_scheme \<Rightarrow> timer_ref \<Rightarrow> int" where
  "timer_key s x =
     (if x = Sentinel_timer then 2 ^ 31 else rel_time s (timer_waketime s x))"

text \<open>\<open>w\<close> is less than half a turn away from every timer of \<open>xs\<close>.\<close>

definition in_window :: "'z sched_scheme \<Rightarrow> u32 \<Rightarrow> timer_ref list \<Rightarrow> bool" where
  "in_window s w xs \<longleftrightarrow>
     (\<forall>x \<in> set xs. x = Sentinel_timer \<or> \<bar>rel_time s w - timer_key s x\<bar> < 2 ^ 31)"

definition timers_sorted :: "'z sched_scheme \<Rightarrow> timer_ref list \<Rightarrow> bool" where
  "timers_sorted s xs \<longleftrightarrow> sorted (map (timer_key s) xs)"

text \<open>The specification of an insertion: behind every timer that is not later.\<close>

definition insert_by_time ::
    "(timer_ref \<Rightarrow> int) \<Rightarrow> int \<Rightarrow> timer_ref \<Rightarrow> timer_ref list \<Rightarrow> timer_ref list" where
  "insert_by_time key w t xs =
     takeWhile (\<lambda>x. key x \<le> w) xs @ t # dropWhile (\<lambda>x. key x \<le> w) xs"

lemma sched_fields [simp, frame]:
  "timer_next (set_waketime t w s) = timer_next s"
  "timer_list (set_waketime t w s) = timer_list s"
  "last_insert (set_waketime t w s) = last_insert s"
  "timer_func (set_waketime t w s) = timer_func s"
  "timer_waketime (set_waketime t w s) = (timer_waketime s)(t := w)"
  "timer_waketime (set_next t n s) = timer_waketime s"
  "timer_list (set_next t n s) = timer_list s"
  "timer_func (set_next t n s) = timer_func s"
  "last_insert (set_next t n s) = last_insert s"
  "timer_next (set_next t n s) = (timer_next s)(t := n)"
  "timer_next (timer_kick s) = timer_next s"
  "timer_list (timer_kick s) = timer_list s"
  "timer_func (timer_kick s) = timer_func s"
  "last_insert (timer_kick s) = last_insert s"
  "timer_waketime (timer_kick s) = timer_waketime s"
  "timer_next (sched_wake_tasks s) = timer_next s"
  "timer_list (sched_wake_tasks s) = timer_list s"
  "timer_func (sched_wake_tasks s) = timer_func s"
  "last_insert (sched_wake_tasks s) = last_insert s"
  "timer_waketime (sched_wake_tasks s) = timer_waketime s"
  by (simp_all add: set_waketime_def set_next_def timer_kick_def hw_do_def sched_wake_tasks_def)

text \<open>
  The walk of \<open>insert_timer\<close> stops at the first entry the time is before, and there is one, since
  no time is both not before the periodic timer and not before the sentinel.
\<close>

lemma insert_pos_walk:
  assumes "chain nx (nx prev) ys" "\<exists>y \<in> set ys. timer_is_before w (wk y)"
  shows "insert_pos nx wk w prev =
    Some (last (prev # takeWhile (\<lambda>y. \<not> timer_is_before w (wk y)) ys),
          hd (dropWhile (\<lambda>y. \<not> timer_is_before w (wk y)) ys))"
  using assms
proof (induction ys arbitrary: prev)
  case Nil
  then show ?case by simp
next
  case (Cons y ys)
  show ?case
  proof (cases "timer_is_before w (wk y)")
    case True
    with Cons.prems show ?thesis by (subst insert_pos.simps) simp
  next
    case False
    with Cons.prems Cons.IH [of y] show ?thesis
      by (subst insert_pos.simps) auto
  qed
qed

lemma some_later:
  assumes "timer_waketime s Sentinel_timer = timer_waketime s Periodic_timer + 0x80000000"
    and "Sentinel_timer \<in> set ys"
    and "Periodic_timer \<in> set ys \<or> 0 \<le> rel_time s w"
  shows "\<exists>y \<in> set ys. timer_is_before w (timer_waketime s y)"
proof (cases "0 \<le> rel_time s w")
  case True
  then have "timer_is_before w (timer_waketime s Sentinel_timer)"
    by (simp add: assms(1) before_sentinel rel_time_def)
  with assms(2) show ?thesis by blast
next
  case False
  then have "timer_is_before w (timer_waketime s Periodic_timer)"
    by (simp add: before_periodic rel_time_def)
  with False assms(3) show ?thesis by blast
qed

lemma insert_timer_walk:
  assumes c: "chain (timer_next s) p (us @ prev # ys)"
    and e: "\<exists>y \<in> set ys. timer_is_before w (timer_waketime s y)"
    and t: "t \<notin> set (us @ prev # ys)"
  defines "nb \<equiv> \<lambda>y. \<not> timer_is_before w (timer_waketime s y)"
  shows "\<exists>s'. insert_timer prev t w s = Ret () s' \<and>
    s' = s\<lparr>timer_next := timer_next s'\<rparr> \<and>
    chain (timer_next s') p (us @ prev # takeWhile nb ys @ t # dropWhile nb ys)"
proof -
  let ?as = "takeWhile nb ys" and ?bs = "dropWhile nb ys"
  let ?q = "last (prev # ?as)"
  have bs: "?bs \<noteq> []" using e by (auto simp: nb_def)
  then obtain b bs' where b: "?bs = b # bs'" by (cases ?bs) auto
  have split: "us @ prev # ys = (us @ butlast (prev # ?as)) @ ?q # ?bs"
  proof -
    have "us @ prev # ys = us @ (prev # ?as) @ ?bs" by simp
    also have "\<dots> = us @ (butlast (prev # ?as) @ [?q]) @ ?bs"
      by (simp only: append_butlast_last_id [OF list.distinct(2)])
    finally show ?thesis by (simp only: append_assoc append_Cons append_Nil)
  qed
  have c1: "chain (timer_next s) p ((us @ butlast (prev # ?as)) @ ?q # ?bs)"
    using c by (simp only: split)
  have nq: "timer_next s ?q = Some (hd ?bs)"
    using chain_next [OF c1 [unfolded b]] by (simp only: b list.sel)
  have "t \<notin> set ((us @ butlast (prev # ?as)) @ ?q # ?bs)"
    using t by (subst split [symmetric])
  from chain_insert [OF c1 this] have
    c2: "chain ((timer_next s)(t := timer_next s ?q, ?q := Some t)) p
       ((us @ butlast (prev # ?as)) @ ?q # t # ?bs)" .
  have "(us @ butlast (prev # ?as)) @ ?q # t # ?bs = us @ (butlast (prev # ?as) @ [?q]) @ t # ?bs"
    by (simp only: append_assoc append_Cons append_Nil)
  also have "\<dots> = us @ prev # ?as @ t # ?bs"
    by (simp only: append_butlast_last_id [OF list.distinct(2)] append_Cons)
  finally have l: "(us @ butlast (prev # ?as)) @ ?q # t # ?bs = us @ prev # ?as @ t # ?bs" .
  have "chain (timer_next s) (timer_next s prev) ys" using c by auto
  from insert_pos_walk [OF this e]
  have "insert_timer prev t w s = Ret () (set_next ?q (Some t) (set_next t (Some (hd ?bs)) s))"
    by (simp add: insert_timer_def nb_def)
  moreover have "chain ((timer_next s)(t := Some (hd ?bs), ?q := Some t)) p
      (us @ prev # ?as @ t # ?bs)"
    using c2 by (simp only: l nq)
  ultimately show ?thesis by (intro exI conjI) (assumption, simp_all add: set_next_def)
qed


lemma takeWhile_upto_sentinel:
  assumes "\<And>y. y \<in> set as \<Longrightarrow> P y = Q y" "(\<exists>y \<in> set as. \<not> Q y) \<or> P z = Q z"
  shows "takeWhile P (as @ [z]) = takeWhile Q (as @ [z])"
    and "dropWhile P (as @ [z]) = dropWhile Q (as @ [z])"
  using assms by (induction as) auto

lemma rel_time_periodic [simp]: "rel_time s (timer_waketime s Periodic_timer) = 0"
  by (simp add: rel_time_def from_base_def)

lemma timer_key_periodic [simp]: "timer_key s Periodic_timer = 0"
  by (simp add: timer_key_def)

lemma rel_time_bounds: "- (2 ^ 31) \<le> rel_time s w" "rel_time s w < 2 ^ 31"
  using from_base_bounds by (simp_all add: rel_time_def)

text \<open>Within the window the 32 bit comparisons of the walk decide as the positions in time do.\<close>

lemma before_timer_key:
  assumes "in_window s w ys" "y \<in> set ys" "y \<noteq> Sentinel_timer"
  shows "timer_is_before w (timer_waketime s y) \<longleftrightarrow> rel_time s w < timer_key s y"
  using assms before_from_base [of "timer_waketime s Periodic_timer" w "timer_waketime s y"]
  by (auto simp: in_window_def timer_key_def rel_time_def)

lemma walk_by_key:
  assumes "timer_waketime s Sentinel_timer = timer_waketime s Periodic_timer + 0x80000000"
    and "Sentinel_timer \<notin> set as" and w: "in_window s w as"
    and "Periodic_timer \<in> set as \<or> 0 \<le> rel_time s w"
  defines "nb \<equiv> \<lambda>y. \<not> timer_is_before w (timer_waketime s y)"
    and "le \<equiv> \<lambda>y. timer_key s y \<le> rel_time s w"
  shows "takeWhile nb (as @ [Sentinel_timer]) = takeWhile le (as @ [Sentinel_timer])"
    and "dropWhile nb (as @ [Sentinel_timer]) = dropWhile le (as @ [Sentinel_timer])"
proof -
  have eq: "nb y = le y" if "y \<in> set as" for y
    using before_timer_key [OF w that] that assms(2) by (cases "y = Sentinel_timer") (auto simp: nb_def le_def)
  have "(\<exists>y \<in> set as. \<not> le y) \<or> nb Sentinel_timer = le Sentinel_timer"
  proof (cases "0 \<le> rel_time s w")
    case True
    then have "timer_is_before w (timer_waketime s Sentinel_timer)"
      by (simp add: assms(1) before_sentinel rel_time_def)
    moreover have "\<not> le Sentinel_timer"
      using rel_time_bounds(2) [of s w] by (simp add: le_def timer_key_def)
    ultimately show ?thesis by (simp add: nb_def)
  next
    case False
    with assms(4) show ?thesis by (auto simp: le_def intro!: bexI [of _ Periodic_timer])
  qed
  note p = this
  show "takeWhile nb (as @ [Sentinel_timer]) = takeWhile le (as @ [Sentinel_timer])"
    using eq p by (rule takeWhile_upto_sentinel(1))
  show "dropWhile nb (as @ [Sentinel_timer]) = dropWhile le (as @ [Sentinel_timer])"
    using eq p by (rule takeWhile_upto_sentinel(2))
qed

lemma insert_by_time_append:
  "(\<And>x. x \<in> set us \<Longrightarrow> key x \<le> w) \<Longrightarrow>
     insert_by_time key w t (us @ ys) = us @ insert_by_time key w t ys"
  by (simp add: insert_by_time_def takeWhile_append dropWhile_append)

lemma set_insert_by_time [simp]: "set (insert_by_time key w t xs) = insert t (set xs)"
proof -
  have "set xs = set (takeWhile (\<lambda>x. key x \<le> w) xs @ dropWhile (\<lambda>x. key x \<le> w) xs)"
    by (simp only: takeWhile_dropWhile_id)
  then have "set xs = set (takeWhile (\<lambda>x. key x \<le> w) xs) \<union> set (dropWhile (\<lambda>x. key x \<le> w) xs)"
    by (simp only: set_append)
  then show ?thesis by (simp add: insert_by_time_def)
qed

lemma sorted_insert_by_time:
  assumes "sorted (map key xs)" "key t = w"
  shows "sorted (map key (insert_by_time key w t xs))"
  using assms
proof (induction xs)
  case Nil
  then show ?case by (simp add: insert_by_time_def)
next
  case (Cons x xs)
  show ?case
  proof (cases "key x \<le> w")
    case True
    then have "insert_by_time key w t (x # xs) = x # insert_by_time key w t xs"
      by (simp add: insert_by_time_def)
    moreover have "\<forall>y \<in> set (insert_by_time key w t xs). key x \<le> key y"
      using Cons.prems True by auto
    ultimately show ?thesis using Cons by simp
  next
    case False
    with Cons.prems show ?thesis by (auto simp: insert_by_time_def)
  qed
qed

lemma insert_timer_by_time:
  assumes c: "chain (timer_next s) p (us @ prev # as @ [Sentinel_timer])"
    and st: "timer_waketime s Sentinel_timer = timer_waketime s Periodic_timer + 0x80000000"
    and t: "t \<notin> set (us @ prev # as @ [Sentinel_timer])"
    and w: "in_window s w as" "Periodic_timer \<in> set as \<or> 0 \<le> rel_time s w"
    and le: "\<And>x. x \<in> set (us @ [prev]) \<Longrightarrow> timer_key s x \<le> rel_time s w"
  shows "\<exists>s'. insert_timer prev t w s = Ret () s' \<and> s' = s\<lparr>timer_next := timer_next s'\<rparr> \<and>
    chain (timer_next s') p
      (insert_by_time (timer_key s) (rel_time s w) t (us @ prev # as @ [Sentinel_timer]))"
proof -
  have "\<exists>y \<in> set (as @ [Sentinel_timer]). timer_is_before w (timer_waketime s y)"
    using w(2) by (intro some_later [OF st]) auto
  from insert_timer_walk [OF c this t] show ?thesis
    using chain_distinct [OF c] w le insert_by_time_append [of "us @ [prev]" "timer_key s"]
    by (simp add: walk_by_key [OF st] insert_by_time_def)
qed


section \<open>Adding a timer\<close>

text \<open>The timers waiting to run: the deleted timer only stands in for a removed head.\<close>

abbreviation active :: "timer_ref list \<Rightarrow> timer_ref list" where
  "active xs \<equiv> filter (\<lambda>x. x \<noteq> Deleted_timer) xs"

lemma timer_invD:
  assumes "timer_inv s xs"
  shows "chain (timer_next s) (Some (timer_list s)) xs" "xs \<noteq> []" "hd xs = timer_list s"
    "xs = butlast xs @ [Sentinel_timer]" "Periodic_timer \<in> set (butlast xs)"
    "last_insert s \<in> set (butlast xs)" "Deleted_timer \<notin> set (tl xs)"
    "last_insert s \<noteq> Deleted_timer" "distinct xs" "Sentinel_timer \<notin> set (butlast xs)"
    "timer_waketime s Sentinel_timer = timer_waketime s Periodic_timer + 0x80000000"
    "timer_list s \<noteq> Sentinel_timer"
proof -
  from assms obtain us where us: "xs = us @ [Sentinel_timer]" "Periodic_timer \<in> set us"
    "last_insert s \<in> set us" and c: "chain (timer_next s) (Some (timer_list s)) xs"
    by (auto simp: timer_inv_def)
  show "distinct xs" using c by (rule chain_distinct)
  with us show "Sentinel_timer \<notin> set (butlast xs)" by auto
  show "hd xs = timer_list s" using c us by (cases us) auto
  moreover have "hd xs \<noteq> Sentinel_timer" using \<open>distinct xs\<close> us by (cases us) auto
  ultimately show "timer_list s \<noteq> Sentinel_timer" by simp
qed (use assms in \<open>auto simp: timer_inv_def\<close>)

lemma timer_inv_cons: "timer_inv s xs \<Longrightarrow> xs = timer_list s # tl xs"
  using timer_invD(2,3) by (metis list.collapse)

lemma timer_inv_mem:
  assumes "timer_inv s xs"
  shows "Sentinel_timer \<in> set xs" "Periodic_timer \<in> set xs" "timer_list s \<in> set xs"
    "last_insert s \<in> set xs"
proof -
  show "Sentinel_timer \<in> set xs" by (subst timer_invD(4) [OF assms]) simp
  show "Periodic_timer \<in> set xs" "last_insert s \<in> set xs"
    using timer_invD(5,6) [OF assms] by (auto dest: in_set_butlastD)
  show "timer_list s \<in> set xs" by (subst timer_inv_cons [OF assms]) simp
qed

lemma timer_inv_distinct_active: "timer_inv s xs \<Longrightarrow> distinct (active xs)"
  using timer_invD(9) by (rule distinct_filter)

lemma timer_inv_functional: "timer_inv s xs \<Longrightarrow> timer_inv s ys \<Longrightarrow> xs = ys"
  by (meson chain_functional timer_invD(1))

lemma filter_neq_id: "d \<notin> set xs \<Longrightarrow> filter (\<lambda>x. x \<noteq> d) xs = xs"
  by (auto simp: filter_id_conv)

lemma active_cons: "Deleted_timer \<notin> set ys \<Longrightarrow> active (x # ys) = (if x = Deleted_timer then ys else x # ys)"
  by (auto simp: filter_id_conv)

lemma timer_invI:
  assumes "chain (timer_next s) (Some (timer_list s)) (us @ [Sentinel_timer])"
    and "Periodic_timer \<in> set us" "last_insert s \<in> set us"
    and "Deleted_timer \<notin> set (tl us)" "last_insert s \<noteq> Deleted_timer"
    and "timer_waketime s Sentinel_timer = timer_waketime s Periodic_timer + 0x80000000"
  shows "timer_inv s (us @ [Sentinel_timer])"
  using assms by (cases us) (auto simp: timer_inv_def)

text \<open>Inserting behind the head.\<close>

lemma insert_timer_inv:
  assumes inv: "timer_inv s xs" and t: "t \<notin> set xs" "t \<noteq> Deleted_timer"
    and nb: "\<not> timer_is_before w (timer_waketime s (timer_list s))"
  shows "\<exists>s' as bs. insert_timer (timer_list s) t w s = Ret () s' \<and>
    s' = s\<lparr>timer_next := timer_next s'\<rparr> \<and> xs = as @ bs \<and> timer_inv s' (as @ t # bs) \<and>
    (in_window s w xs \<and> timers_sorted s xs \<longrightarrow>
       as @ t # bs = insert_by_time (timer_key s) (rel_time s w) t xs)"
proof -
  note i = timer_invD [OF inv]
  let ?nb = "\<lambda>y. \<not> timer_is_before w (timer_waketime s y)"
  obtain as where xs: "xs = timer_list s # as @ [Sentinel_timer]"
    using timer_inv_cons [OF inv] i(4,12) by (cases "butlast xs") auto
  have later: "Periodic_timer \<in> set as \<or> 0 \<le> rel_time s w"
    using i(5) nb by (auto simp: xs before_periodic rel_time_def)
  have ex: "\<exists>y \<in> set (as @ [Sentinel_timer]). timer_is_before w (timer_waketime s y)"
    using later by (intro some_later [OF i(11)]) auto
  have tn: "t \<notin> set ([] @ timer_list s # as @ [Sentinel_timer])" using t by (simp add: xs)
  have c: "chain (timer_next s) (Some (timer_list s)) ([] @ timer_list s # as @ [Sentinel_timer])"
    using i(1) by (simp add: xs)
  let ?as = "timer_list s # takeWhile ?nb (as @ [Sentinel_timer])"
  let ?bs = "dropWhile ?nb (as @ [Sentinel_timer])"
  from insert_timer_walk [OF c ex tn] obtain s' where
    s': "insert_timer (timer_list s) t w s = Ret () s'" "s' = s\<lparr>timer_next := timer_next s'\<rparr>"
    "chain (timer_next s') (Some (timer_list s)) (?as @ t # ?bs)" by auto
  have split: "xs = ?as @ ?bs" by (simp add: xs)
  have bs: "?bs \<noteq> []" using ex by auto
  then have "last ?bs = Sentinel_timer" using split i(4) by (metis last_appendR last_snoc)
  with bs have bs': "?bs = butlast ?bs @ [Sentinel_timer]" by (metis append_butlast_last_id)
  have fields: "timer_list s' = timer_list s" "last_insert s' = last_insert s"
    "timer_waketime s' = timer_waketime s" by (subst s'(2), simp)+
  have us: "butlast xs = ?as @ butlast ?bs" using split bs by (metis butlast_append)
  have "timer_inv s' ((?as @ t # butlast ?bs) @ [Sentinel_timer])"
  proof (rule timer_invI)
    show "chain (timer_next s') (Some (timer_list s')) ((?as @ t # butlast ?bs) @ [Sentinel_timer])"
      using s'(3) bs' by (simp add: fields del: append_butlast_last_id)
    show "Deleted_timer \<notin> set (tl (?as @ t # butlast ?bs))"
      using i(7) t(2) split bs' by (auto dest: in_set_butlastD simp: xs dest!: set_takeWhileD set_dropWhileD)
  qed (use i(5,6,8,11) us in \<open>auto simp: fields\<close>)
  then have inv': "timer_inv s' (?as @ t # ?bs)" using bs' by (metis append.assoc append_Cons)
  have "?as @ t # ?bs = insert_by_time (timer_key s) (rel_time s w) t xs"
    if w: "in_window s w xs" "timers_sorted s xs"
  proof -
    have was: "in_window s w as" using w(1) by (auto simp: in_window_def xs)
    have S: "Sentinel_timer \<notin> set as" using i(9) by (auto simp: xs)
    have "timer_key s (timer_list s) \<le> rel_time s w"
      using nb w(1) i(12) before_timer_key [of s w xs "timer_list s"] by (simp add: xs)
    then show ?thesis by (simp add: xs insert_by_time_def walk_by_key [OF i(11) S was later])
  qed
  with s'(1,2) split inv' show ?thesis by blast
qed


text \<open>Inserting before the head: the deleted timer becomes the head, so the loop above it can go on.\<close>

definition add_at_head :: "timer_ref \<Rightarrow> 'z sched_scheme \<Rightarrow> 'z sched_scheme" where
  "add_at_head t s =
     (let s1 = set_next t (if timer_list s = Deleted_timer then timer_next s Deleted_timer
                           else Some (timer_list s)) s;
          s2 = set_next Deleted_timer (Some t)
                 (set_waketime Deleted_timer (timer_waketime s t) s1)
      in timer_kick (s2\<lparr>timer_list := Deleted_timer\<rparr>))"

lemma add_at_head_inv:
  assumes inv: "timer_inv s xs" and t: "t \<notin> set xs" "t \<noteq> Deleted_timer"
  shows "timer_inv (add_at_head t s) (Deleted_timer # t # active xs)"
    and "timer_waketime (add_at_head t s) = (timer_waketime s)(Deleted_timer := timer_waketime s t)"
proof -
  note i = timer_invD [OF inv]
  show wk: "timer_waketime (add_at_head t s) = (timer_waketime s)(Deleted_timer := timer_waketime s t)"
    by (simp add: add_at_head_def Let_def)
  have f: "timer_list (add_at_head t s) = Deleted_timer" "last_insert (add_at_head t s) = last_insert s"
    by (simp_all add: add_at_head_def timer_kick_def hw_do_def Let_def)
  have ax: "active xs = (if timer_list s = Deleted_timer then tl xs else xs)"
    by (subst timer_inv_cons [OF inv], subst active_cons [OF i(7)]) (simp add: timer_inv_cons [OF inv, symmetric])
  have c: "chain (timer_next s) (if timer_list s = Deleted_timer then timer_next s Deleted_timer
      else Some (timer_list s)) (active xs)"
    using i(1) timer_inv_cons [OF inv] by (auto simp: ax) (metis lseg.simps(2) option.inject)
  have n: "timer_next (add_at_head t s) = (timer_next s)(t := (if timer_list s = Deleted_timer
      then timer_next s Deleted_timer else Some (timer_list s)), Deleted_timer := Some t)"
    by (simp add: add_at_head_def Let_def)
  have tn: "t \<notin> set (active xs)" "Deleted_timer \<notin> set (active xs)" using t by auto
  have as: "active xs = active (butlast xs) @ [Sentinel_timer]"
    by (subst i(4)) (simp del: append_butlast_last_id)
  have "timer_inv (add_at_head t s) ((Deleted_timer # t # active (butlast xs)) @ [Sentinel_timer])"
  proof (rule timer_invI)
    have "chain (timer_next (add_at_head t s)) (Some Deleted_timer) (Deleted_timer # t # active xs)"
      using c tn t(2) by (simp add: n)
    then show "chain (timer_next (add_at_head t s)) (Some (timer_list (add_at_head t s)))
        ((Deleted_timer # t # active (butlast xs)) @ [Sentinel_timer])"
      by (simp only: f as append_Cons)
    show "timer_waketime (add_at_head t s) Sentinel_timer =
        timer_waketime (add_at_head t s) Periodic_timer + 0x80000000" using i(11) by (simp add: wk)
  qed (use i(5,6,8) t(2) in \<open>auto simp: f\<close>)
  then show "timer_inv (add_at_head t s) (Deleted_timer # t # active xs)"
    by (simp only: as append_Cons)
qed

lemma sched_add_timer_eq:
  "sched_add_timer t s =
     (if timer_is_before (timer_waketime s t) (timer_waketime s (timer_list s)) then
        if timer_is_before (timer_waketime s t) (timer_read_time s) \<and> shutdown_status s = 0
        then Shutdown ''Timer too close'' s else Ret () (add_at_head t s)
      else insert_timer (timer_list s) t (timer_waketime s t) s)"
  by (simp add: sched_add_timer_def add_at_head_def sched_try_shutdown_def sched_shutdown_def
      Let_def set_next_def set_waketime_def)

lemma rel_time_cong: "timer_waketime s' Periodic_timer = timer_waketime s Periodic_timer \<Longrightarrow>
    rel_time s' w = rel_time s w"
  by (simp add: rel_time_def)

lemma timer_key_cong:
  "timer_waketime s' Periodic_timer = timer_waketime s Periodic_timer \<Longrightarrow>
   timer_waketime s' x = timer_waketime s x \<Longrightarrow> timer_key s' x = timer_key s x"
  by (simp add: timer_key_def rel_time_def)

lemma sorted_map_cong_keys:
  "(\<And>x. x \<in> set xs \<Longrightarrow> key x = key' x) \<Longrightarrow> sorted (map key xs) = sorted (map key' xs)"
  by (metis map_eq_conv)

text \<open>The outcomes of adding a timer.\<close>

lemma sched_add_timer_cases:
  assumes inv: "timer_inv s xs" and t: "t \<notin> set xs" "t \<noteq> Deleted_timer"
  obtains
    (too_close) "sched_add_timer t s = Shutdown ''Timer too close'' s"
      "shutdown_status s = 0" "timer_is_before (timer_waketime s t) (timer_read_time s)"
      "timer_is_before (timer_waketime s t) (timer_waketime s (timer_list s))"
  | (added) s' xs' as bs where "sched_add_timer t s = Ret () s'" "timer_inv s' xs'"
      "active xs = as @ bs" "active xs' = as @ t # bs"
      "in_window s (timer_waketime s t) xs \<Longrightarrow> timers_sorted s xs \<Longrightarrow>
         timers_sorted s' xs' \<and>
         active xs' = insert_by_time (timer_key s) (rel_time s (timer_waketime s t)) t (active xs)"
proof (cases "timer_is_before (timer_waketime s t) (timer_waketime s (timer_list s))")
  case True
  note i = timer_invD [OF inv] and h = add_at_head_inv [OF inv t]
  let ?w = "timer_waketime s t" and ?s = "add_at_head t s"
  have S: "t \<noteq> Sentinel_timer" "t \<noteq> Periodic_timer"
    using t(1) timer_inv_mem [OF inv] by auto
  have ax: "active (Deleted_timer # t # active xs) = [] @ t # active xs" using t(2) by simp
  have key: "timer_key ?s x = timer_key s x" if "x \<noteq> Deleted_timer" for x
    using that by (intro timer_key_cong) (simp_all add: h(2))
  have kD: "timer_key ?s Deleted_timer = rel_time s ?w"
    by (simp add: timer_key_def h(2) rel_time_def)
  have kt: "timer_key s t = rel_time s ?w" using S by (simp add: timer_key_def)
  have ord: "timers_sorted ?s (Deleted_timer # t # active xs) \<and>
      active (Deleted_timer # t # active xs) = insert_by_time (timer_key s) (rel_time s ?w) t (active xs)"
    if w: "in_window s ?w xs" "timers_sorted s xs"
  proof -
    have "rel_time s ?w < timer_key s (timer_list s)"
      using True w(1) i(12) before_timer_key timer_inv_mem(3) [OF inv] by blast
    moreover have "\<forall>x \<in> set xs. timer_key s (timer_list s) \<le> timer_key s x"
      using w(2) unfolding timers_sorted_def by (subst (asm) timer_inv_cons [OF inv],
        subst timer_inv_cons [OF inv]) simp
    ultimately have lt: "\<forall>x \<in> set xs. rel_time s ?w < timer_key s x" by auto
    have "sorted (map (timer_key s) (active xs))"
      using w(2) unfolding timers_sorted_def by (rule sorted_filter)
    then have "sorted (map (timer_key ?s) (active xs))"
      by (subst sorted_map_cong_keys [of _ "timer_key ?s" "timer_key s"]) (auto simp: key)
    moreover have "takeWhile (\<lambda>x. timer_key s x \<le> rel_time s ?w) (active xs) = []"
    proof -
      have "\<forall>x \<in> set (active xs). \<not> timer_key s x \<le> rel_time s ?w" using lt by auto
      then show ?thesis by (cases "active xs") auto
    qed
    then have "insert_by_time (timer_key s) (rel_time s ?w) t (active xs) = t # active xs"
      unfolding insert_by_time_def by (metis append_Nil takeWhile_dropWhile_id)
    ultimately show ?thesis
      using lt t(2) by (auto simp: timers_sorted_def kD key kt less_imp_le)
  qed
  show ?thesis
  proof (cases "timer_is_before ?w (timer_read_time s) \<and> shutdown_status s = 0")
    case close: True
    with True show ?thesis by (intro too_close) (simp_all add: sched_add_timer_eq)
  next
    case False
    show ?thesis
    proof (rule added [of ?s "Deleted_timer # t # active xs" "[]" "active xs"])
      show "sched_add_timer t s = Ret () ?s" using True False by (auto simp: sched_add_timer_eq)
      show "active xs = [] @ active xs" by simp
    qed (fact h(1), fact ax, fact ord)
  qed
next
  case False
  note i = timer_invD [OF inv]
  let ?w = "timer_waketime s t"
  from insert_timer_inv [OF inv t False] obtain s' as bs where
    r: "insert_timer (timer_list s) t ?w s = Ret () s'" "s' = s\<lparr>timer_next := timer_next s'\<rparr>"
      "xs = as @ bs" "timer_inv s' (as @ t # bs)" and
    o: "in_window s ?w xs \<Longrightarrow> timers_sorted s xs \<Longrightarrow>
       as @ t # bs = insert_by_time (timer_key s) (rel_time s ?w) t xs" by blast
  have wk: "timer_waketime s' = timer_waketime s" by (subst r(2)) simp
  have key: "timer_key s' = timer_key s" by (rule ext, rule timer_key_cong) (simp_all add: wk)
  have S: "t \<noteq> Sentinel_timer" using t(1) timer_inv_mem [OF inv] by auto
  have kt: "timer_key s t = rel_time s ?w" using S by (simp add: timer_key_def)
  have "timers_sorted s' (as @ t # bs) \<and>
      active (as @ t # bs) = insert_by_time (timer_key s) (rel_time s ?w) t (active xs)"
    if w: "in_window s ?w xs" "timers_sorted s xs"
  proof
    show "timers_sorted s' (as @ t # bs)"
      unfolding timers_sorted_def key o [OF w]
      by (rule sorted_insert_by_time) (use w(2) kt in \<open>simp_all add: timers_sorted_def\<close>)
    have le: "timer_key s (timer_list s) \<le> rel_time s ?w"
      using False before_timer_key [OF w(1) timer_inv_mem(3) [OF inv] i(12)] by simp
    have D: "Deleted_timer \<notin> set (insert_by_time (timer_key s) (rel_time s ?w) t (tl xs))"
      using i(7) t(2) by simp
    have hd_le: "insert_by_time (timer_key s) (rel_time s ?w) t (timer_list s # ys) =
        timer_list s # insert_by_time (timer_key s) (rel_time s ?w) t ys" for ys
      using insert_by_time_append [of "[timer_list s]" "timer_key s" "rel_time s ?w" t ys] le by simp
    obtain ys where xs: "xs = timer_list s # ys" "tl xs = ys" using timer_inv_cons [OF inv] by simp
    show "active (as @ t # bs) = insert_by_time (timer_key s) (rel_time s ?w) t (active xs)"
      using i(7) D by (simp add: o [OF w] xs hd_le filter_neq_id)
  qed
  then show ?thesis
    using False r by (intro added [of s' "as @ t # bs" "active as" "active bs"])
      (auto simp: sched_add_timer_eq t(2))
qed


section \<open>Removing a timer\<close>

lemma find_prev_walk:
  "chain nx (nx pos) ys \<Longrightarrow> find_prev nx d pos =
     Some (if d \<in> set ys then Some (last (pos # takeWhile (\<lambda>y. y \<noteq> d) ys)) else None)"
proof (induction ys arbitrary: pos)
  case Nil
  then show ?case by (subst find_prev.simps) simp
next
  case (Cons y ys)
  show ?case
  proof (cases "y = d")
    case True
    with Cons.prems show ?thesis by (subst find_prev.simps) simp
  next
    case False
    with Cons.prems Cons.IH [of y] show ?thesis by (subst find_prev.simps) auto
  qed
qed

lemma takeWhile_neq_split:
  "d \<notin> set us \<Longrightarrow> takeWhile (\<lambda>y. y \<noteq> d) (us @ d # vs) = us"
  by (induction us) auto

definition del_at_head :: "timer_ref \<Rightarrow> 'z sched_scheme \<Rightarrow> 'z sched_scheme" where
  "del_at_head d s =
     (set_next Deleted_timer (timer_next s d) (set_waketime Deleted_timer (timer_waketime s d) s))
       \<lparr>timer_list := Deleted_timer\<rparr>"

lemma sched_del_timer_eq:
  "sched_del_timer d s =
     andThen
       (if timer_list s = d then Ret () (del_at_head d s)
        else (case find_prev (timer_next s) d (timer_list s) of
                None \<Rightarrow> Fault
              | Some None \<Rightarrow> Ret () s
              | Some (Some pos) \<Rightarrow> Ret () (set_next pos (timer_next s d) s)))
       (\<lambda>_ s. Ret () (if last_insert s = d then s\<lparr>last_insert := Periodic_timer\<rparr> else s))"
  by (simp add: sched_del_timer_def del_at_head_def Let_def set_waketime_def set_next_def)

lemma timers_sorted_filter: "timers_sorted s xs \<Longrightarrow> timers_sorted s (filter P xs)"
  unfolding timers_sorted_def by (rule sorted_filter)

text \<open>Removing the head leaves the deleted timer in its place, at its time.\<close>

lemma sched_del_timer_cases:
  assumes inv: "timer_inv s xs"
    and d: "d \<noteq> Periodic_timer" "d \<noteq> Sentinel_timer" "d \<noteq> Deleted_timer"
  obtains
    (head) s' where "sched_del_timer d s = Ret () s'" "timer_list s = d"
      "timer_inv s' (Deleted_timer # tl xs)"
      "timer_waketime s' = (timer_waketime s)(Deleted_timer := timer_waketime s d)"
  | (inner) s' where "sched_del_timer d s = Ret () s'" "timer_list s \<noteq> d"
      "timer_inv s' (filter (\<lambda>x. x \<noteq> d) xs)" "timer_waketime s' = timer_waketime s"
      "timer_list s' = timer_list s"
proof -
  note i = timer_invD [OF inv]
  note xs = timer_inv_cons [OF inv]
  show ?thesis
  proof (cases "timer_list s = d")
    case True
    define s' where "s' = (if last_insert (del_at_head d s) = d
        then (del_at_head d s)\<lparr>last_insert := Periodic_timer\<rparr> else del_at_head d s)"
    have f: "timer_list s' = Deleted_timer" "timer_next s' = (timer_next s)(Deleted_timer := timer_next s d)"
      "timer_waketime s' = (timer_waketime s)(Deleted_timer := timer_waketime s d)"
      "last_insert s' = (if last_insert s = d then Periodic_timer else last_insert s)"
      by (simp_all add: s'_def del_at_head_def)
    obtain as where as: "tl xs = as @ [Sentinel_timer]" "butlast xs = d # as"
      using xs i(4,12) True by (cases "butlast xs") auto
    have "timer_inv s' ((Deleted_timer # as) @ [Sentinel_timer])"
    proof (rule timer_invI)
      have "chain (timer_next s) (timer_next s d) (tl xs)"
        using i(1) by (subst (asm) xs) (simp add: True)
      then show "chain (timer_next s') (Some (timer_list s')) ((Deleted_timer # as) @ [Sentinel_timer])"
        using i(7) by (simp add: f as)
    qed (use i(5,6,7,8,11) as d in \<open>auto simp: f\<close>)
    with True f show ?thesis
      by (intro head [of s']) (auto simp: sched_del_timer_eq s'_def as)
  next
    case False
    define s1 where "s1 = (if d \<in> set xs then set_next (last (timer_list s # takeWhile (\<lambda>y. y \<noteq> d) (tl xs)))
        (timer_next s d) s else s)"
    define s' where "s' = (if last_insert s1 = d then s1\<lparr>last_insert := Periodic_timer\<rparr> else s1)"
    have c: "chain (timer_next s) (timer_next s (timer_list s)) (tl xs)"
      using i(1) by (subst (asm) xs) simp
    have mem: "d \<in> set (tl xs) \<longleftrightarrow> d \<in> set xs" using False by (subst (2) xs) auto
    have r: "sched_del_timer d s = Ret () s'"
      using False mem by (simp add: sched_del_timer_eq find_prev_walk [OF c] s1_def s'_def)
    have f: "timer_list s' = timer_list s" "timer_next s' = timer_next s1"
      "timer_waketime s' = timer_waketime s"
      "last_insert s' = (if last_insert s = d then Periodic_timer else last_insert s)"
      by (simp_all add: s'_def s1_def)
    have c': "chain (timer_next s') (Some (timer_list s)) (filter (\<lambda>x. x \<noteq> d) xs)"
    proof (cases "d \<in> set xs")
      case True
      then obtain us vs where tl: "tl xs = us @ d # vs" using mem by (meson split_list)
      have "distinct (tl xs)" using i(9) by (rule distinct_tl)
      then have dn: "d \<notin> set us" "d \<notin> set vs" by (auto simp: tl)
      define q where "q = last (timer_list s # us)"
      have l: "xs = butlast (timer_list s # us) @ q # d # vs"
      proof -
        have "xs = (timer_list s # us) @ d # vs" using xs tl by simp
        also have "timer_list s # us = butlast (timer_list s # us) @ [q]"
          unfolding q_def by (rule append_butlast_last_id [symmetric]) simp
        finally show ?thesis by (simp only: append_assoc append_Cons append_Nil)
      qed
      have qd: "q \<noteq> d" using i(9) by (auto simp: l)
      have bd: "d \<notin> set (butlast (timer_list s # us))" using dn False by (auto dest: in_set_butlastD split: if_splits)
      from i(1) have "chain ((timer_next s)(q := timer_next s d)) (Some (timer_list s))
          (butlast (timer_list s # us) @ q # vs)" unfolding l by (rule chain_unlink)
      moreover have "filter (\<lambda>x. x \<noteq> d) xs = butlast (timer_list s # us) @ q # vs"
        by (simp only: l) (simp add: filter_neq_id bd dn qd del: butlast.simps)
      moreover have "timer_next s1 = (timer_next s)(q := timer_next s d)"
        using True dn by (simp add: s1_def tl takeWhile_neq_split q_def)
      ultimately show ?thesis by (simp add: f)
    next
      case False
      with i(1) show ?thesis by (simp add: f s1_def filter_neq_id)
    qed
    have bl: "filter (\<lambda>x. x \<noteq> d) xs = filter (\<lambda>x. x \<noteq> d) (butlast xs) @ [Sentinel_timer]"
      by (subst i(4)) (simp add: d(2) [symmetric] del: append_butlast_last_id)
    have "timer_inv s' (filter (\<lambda>x. x \<noteq> d) (butlast xs) @ [Sentinel_timer])"
    proof (rule timer_invI)
      show "Deleted_timer \<notin> set (tl (filter (\<lambda>x. x \<noteq> d) (butlast xs)))"
      proof (cases "butlast xs")
        case (Cons a as)
        then have "Deleted_timer \<notin> set as" using i(4,7) by (metis append_Cons list.sel(3) Un_iff set_append)
        moreover have "a \<noteq> d" using Cons xs i(4) False by (metis append_Cons list.inject)
        ultimately show ?thesis by (simp add: Cons)
      qed simp
    qed (use c' i(5,6,8,11) d in \<open>auto simp: f bl\<close>)
    with r False f show ?thesis by (intro inner [of s']) (auto simp: bl)
  qed
qed

section \<open>What the scheduler leaves alone\<close>

text \<open>Adding and removing timers touches the list, the wake times and the hardware timer only.\<close>

definition sched_only :: "'z sched_scheme \<Rightarrow> 'z sched_scheme \<Rightarrow> bool" where
  "sched_only s s' \<longleftrightarrow>
     s' = s\<lparr>hw := hw s', timer_next := timer_next s', timer_waketime := timer_waketime s',
            timer_list := timer_list s', last_insert := last_insert s'\<rparr>"

lemma sched_add_timer_only: "sched_add_timer t s = Ret () s' \<Longrightarrow> sched_only s s'"
  by (auto simp: sched_add_timer_eq add_at_head_def insert_timer_def sched_only_def Let_def
      timer_kick_def hw_do_def set_next_def set_waketime_def split: if_splits option.splits)

lemma sched_only_refl: "sched_only s s"
  by (simp add: sched_only_def)

lemma sched_del_timer_only: "sched_del_timer t s = Ret () s' \<Longrightarrow> sched_only s s'"
proof (cases "timer_list s = t")
  case True
  moreover assume "sched_del_timer t s = Ret () s'"
  ultimately show ?thesis
    by (auto simp: sched_del_timer_eq del_at_head_def sched_only_def set_next_def set_waketime_def
        split: if_splits)
next
  case False
  assume d: "sched_del_timer t s = Ret () s'"
  show ?thesis
  proof (cases "find_prev (timer_next s) t (timer_list s)")
    case None
    with d False show ?thesis by (simp add: sched_del_timer_eq)
  next
    case (Some p)
    with d False show ?thesis
      by (cases p) (auto simp: sched_del_timer_eq sched_only_def set_next_def split: if_splits)
  qed
qed

lemma sched_only_fields:
  assumes "sched_only s s'"
  shows "next_sequence s' = next_sequence s" "in_sendf s' = in_sendf s" "sent s' = sent s"
    "kconf s' = kconf s" "timer_read_time s' = timer_read_time s" "timer_func s' = timer_func s"
    "tasks_status s' = tasks_status s" "task_wake s' = task_wake s"
    "shutdown_status s' = shutdown_status s" "sched.more s' = sched.more s"
  by (subst assms [unfolded sched_only_def], simp)+

section \<open>Running a timer\<close>

lemma insert_pos_skip:
  "nx prev = Some n \<Longrightarrow> \<not> timer_is_before w (wk n) \<Longrightarrow> insert_pos nx wk w prev = insert_pos nx wk w n"
  by (subst insert_pos.simps) simp

lemma sorted_up_to:
  assumes "sorted (map key (us @ y # ys))" "key y \<le> w" "x \<in> set (us @ [y])"
  shows "key x \<le> w"
proof -
  have "\<forall>x \<in> set us. key x \<le> key y" using assms(1) by (auto simp: sorted_append)
  with assms(2,3) show ?thesis by auto
qed

lemma not_before_key:
  "\<not> timer_is_before w (timer_waketime s y) \<Longrightarrow> in_window s w ys \<Longrightarrow> y \<in> set ys \<Longrightarrow>
     y \<noteq> Sentinel_timer \<Longrightarrow> timer_key s y \<le> rel_time s w"
  using before_timer_key [of s w ys y] by simp

lemma in_window_subset: "in_window s w xs \<Longrightarrow> set ys \<subseteq> set xs \<Longrightarrow> in_window s w ys"
  by (auto simp: in_window_def)

lemma insert_by_time_first:
  "\<not> key x \<le> w \<Longrightarrow> insert_by_time key w t (x # ys) = t # x # ys"
  by (simp add: insert_by_time_def)

text \<open>
  Moving the head to its place: from \<open>last_insert\<close> when the new time is not before it, from the
  new head otherwise. Both walks end at the same position.
\<close>

lemma dispatch_insert:
  assumes inv: "timer_inv s (t # ys)" and w: "in_window s (timer_waketime s t) ys"
    and so: "timers_sorted s ys" and n: "timer_next s t = Some n"
    and nb: "\<not> timer_is_before (timer_waketime s t) (timer_waketime s n)"
  defines "pos \<equiv> (if timer_is_before (timer_waketime s t) (timer_waketime s (last_insert s))
                     then n else last_insert s)"
  shows "\<exists>s'. insert_timer pos t (timer_waketime s t) (s\<lparr>timer_list := n\<rparr>) = Ret () s' \<and>
    s' = s\<lparr>timer_list := n, timer_next := timer_next s'\<rparr> \<and>
    chain (timer_next s') (Some n)
      (insert_by_time (timer_key s) (rel_time s (timer_waketime s t)) t ys)"
proof -
  note i = timer_invD [OF inv]
  let ?w = "timer_waketime s t" and ?s = "s\<lparr>timer_list := n\<rparr>"
  have key: "timer_key ?s = timer_key s" "rel_time ?s = rel_time s"
    by (rule ext, simp add: timer_key_def rel_time_def)+
  have win: "in_window ?s v zs = in_window s v zs" for v zs by (simp add: in_window_def key)
  have tl: "timer_list s = t" using i(3) by simp
  obtain zs where ys: "ys = zs @ [Sentinel_timer]"
    using i(4,12) tl by (cases "butlast (t # ys)") auto
  have bl: "butlast (t # ys) = t # zs" by (simp add: ys)
  have c: "chain (timer_next s) (Some n) ys" using i(1) n by simp
  have tn: "t \<notin> set ys" using i(9) by simp
  have S: "Sentinel_timer \<notin> set zs" using i(9) by (simp add: ys)
  have nS: "n \<noteq> Sentinel_timer"
  proof
    assume "n = Sentinel_timer"
    then have "zs = []" using c S by (cases zs) (auto simp: ys)
    then have "t = Periodic_timer" using i(5) by (simp only: bl) simp
    moreover have "timer_is_before ?w (timer_waketime s Sentinel_timer)"
      using \<open>t = Periodic_timer\<close> by (simp add: i(11) before_sentinel from_base_def)
    ultimately show False using nb \<open>n = Sentinel_timer\<close> by simp
  qed
  have nz: "n \<in> set zs" using c nS by (cases zs) (auto simp: ys)
  have pos: "\<exists>y. y \<in> set zs \<and> \<not> timer_is_before ?w (timer_waketime s y) \<and>
      insert_timer pos t ?w ?s = insert_timer y t ?w ?s"
  proof (cases "last_insert s = t \<or> timer_is_before ?w (timer_waketime s (last_insert s))")
    case True
    have "insert_timer t t ?w ?s = insert_timer n t ?w ?s"
      using insert_pos_skip [where nx = "timer_next s" and wk = "timer_waketime s" and w = ?w] n nb
      by (simp add: insert_timer_def)
    with True nz nb show ?thesis by (auto simp: pos_def)
  next
    case False
    moreover have "last_insert s \<in> set (t # zs)" using i(6) by (simp only: bl)
    ultimately show ?thesis by (auto simp: pos_def)
  qed
  then obtain y where y: "y \<in> set zs" "\<not> timer_is_before ?w (timer_waketime s y)"
    "insert_timer pos t ?w ?s = insert_timer y t ?w ?s" by blast
  then obtain us as where zs: "zs = us @ y # as" by (meson split_list)
  have yS: "y \<noteq> Sentinel_timer" using y(1) S by auto
  have "timer_key s y \<le> rel_time s ?w"
    using not_before_key [OF y(2) w] y(1) yS by (simp add: ys)
  then have le: "timer_key s x \<le> rel_time s ?w" if "x \<in> set (us @ [y])" for x
    using sorted_up_to [of "timer_key s" us y "as @ [Sentinel_timer]"] so that
    by (simp add: timers_sorted_def ys zs)
  have later: "Periodic_timer \<in> set as \<or> 0 \<le> rel_time s ?w"
  proof -
    have "Periodic_timer \<in> set (t # us @ y # as)" using i(5) by (simp only: bl zs)
    then show ?thesis using le [of Periodic_timer] by auto
  qed
  have "\<exists>s'. insert_timer y t ?w ?s = Ret () s' \<and> s' = ?s\<lparr>timer_next := timer_next s'\<rparr> \<and>
    chain (timer_next s') (Some n)
      (insert_by_time (timer_key ?s) (rel_time ?s ?w) t (us @ y # as @ [Sentinel_timer]))"
  proof (rule insert_timer_by_time)
    show "chain (timer_next ?s) (Some n) (us @ y # as @ [Sentinel_timer])"
      using c by (simp add: ys zs)
    show "in_window ?s ?w as" unfolding win by (rule in_window_subset [OF w]) (auto simp: ys zs)
    show "t \<notin> set (us @ y # as @ [Sentinel_timer])" using tn by (simp add: ys zs)
  qed (use i(11) later le in \<open>auto simp: key\<close>)
  with y(3) show ?thesis by (auto simp: key ys zs)
qed

lemma dispatch_update_done:
  assumes inv: "timer_inv s (t # ys)" and t: "t \<noteq> Periodic_timer"
  shows "\<exists>s'. dispatch_update t SF_DONE s = Ret (timer_waketime s (hd ys)) s' \<and>
    timer_inv s' ys \<and> timer_waketime s' = timer_waketime s"
proof -
  note i = timer_invD [OF inv]
  have tl: "timer_list s = t" using i(3) by simp
  obtain zs where ys: "ys = zs @ [Sentinel_timer]"
    using i(4,12) tl by (cases "butlast (t # ys)") auto
  obtain n ns where zs: "zs = n # ns" using i(5) t by (cases zs) (auto simp: ys)
  have n: "timer_next s t = Some n" using i(1) by (simp add: ys zs)
  let ?s = "s\<lparr>timer_list := n, last_insert := (if last_insert s = t then n else last_insert s)\<rparr>"
  have "timer_inv ?s (zs @ [Sentinel_timer])"
    using i(1,5,6,7,8,11) t by (intro timer_invI) (auto simp: ys zs)
  then show ?thesis by (intro exI [of _ ?s]) (auto simp: dispatch_update_def n ys zs)
qed

lemma insert_by_time_ends:
  assumes "\<not> key z \<le> w"
  shows "\<exists>us. insert_by_time key w t (zs @ [z]) = us @ [z] \<and> set us = insert t (set zs)"
proof -
  have "insert_by_time key w t (zs @ [z]) = insert_by_time key w t zs @ [z]"
    using assms by (induction zs) (auto simp: insert_by_time_def)
  then show ?thesis by auto
qed

lemma dispatch_update_reschedule:
  assumes inv: "timer_inv s (t # ys)" and t: "t \<noteq> Deleted_timer"
    and w: "in_window s (timer_waketime s t) ys" and so: "timers_sorted s ys"
  shows "\<exists>s' zs. dispatch_update t SF_RESCHEDULE s = Ret (timer_waketime s (hd zs)) s' \<and>
    zs = insert_by_time (timer_key s) (rel_time s (timer_waketime s t)) t ys \<and>
    timer_inv s' zs \<and> timer_waketime s' = timer_waketime s"
proof -
  note i = timer_invD [OF inv]
  let ?w = "timer_waketime s t"
  let ?zs = "insert_by_time (timer_key s) (rel_time s ?w) t ys"
  have tl: "timer_list s = t" using i(3) by simp
  obtain as where ys: "ys = as @ [Sentinel_timer]"
    using i(4,12) tl by (cases "butlast (t # ys)") auto
  have bl: "butlast (t # ys) = t # as" by (simp add: ys)
  then obtain n ns where n: "ys = n # ns" by (cases as) (auto simp: ys)
  have nx: "timer_next s t = Some n" using i(1) by (simp add: n)
  show ?thesis
  proof (cases "timer_is_before ?w (timer_waketime s n)")
    case True
    have "\<not> timer_key s n \<le> rel_time s ?w"
    proof (cases "n = Sentinel_timer")
      case True
      then show ?thesis using rel_time_bounds(2) [of s ?w] by (simp add: timer_key_def)
    next
      case False
      with True before_timer_key [OF w, of n] show ?thesis by (simp add: n)
    qed
    then have "?zs = t # ys" unfolding n by (rule insert_by_time_first)
    with True inv show ?thesis by (simp add: dispatch_update_def nx)
  next
    case False
    from dispatch_insert [OF inv w so nx False] obtain s' where
      r: "insert_timer (if timer_is_before ?w (timer_waketime s (last_insert s)) then n
            else last_insert s) t ?w (s\<lparr>timer_list := n\<rparr>) = Ret () s'"
        "s' = s\<lparr>timer_list := n, timer_next := timer_next s'\<rparr>"
        "chain (timer_next s') (Some n) ?zs" by blast
    have wk: "timer_waketime s' = timer_waketime s" "timer_list s' = n" by (subst r(2), simp)+
    have "\<not> timer_key s Sentinel_timer \<le> rel_time s ?w"
      using rel_time_bounds(2) [of s ?w] by (simp add: timer_key_def)
    from insert_by_time_ends [of "timer_key s" _ "rel_time s ?w", OF this, of t as] obtain us where
      us: "?zs = us @ [Sentinel_timer]" "set us = insert t (set as)" by (auto simp: ys)
    have "hd ?zs = n" using r(3) us(1) by (cases us) auto
    let ?s = "s'\<lparr>last_insert := t\<rparr>"
    have "timer_inv ?s (us @ [Sentinel_timer])"
    proof (rule timer_invI)
      have "Deleted_timer \<notin> insert t (set as)" using i(7) t by (simp add: ys)
      then show "Deleted_timer \<notin> set (tl us)" using us(2) by (metis list.set_sel(2) tl_Nil)
      show "chain (timer_next ?s) (Some (timer_list ?s)) (us @ [Sentinel_timer])"
        using r(3) [unfolded us(1)] by (simp add: wk)
      show "Periodic_timer \<in> set us" using i(5) by (simp only: bl us(2)) simp
      show "last_insert ?s \<in> set us" by (simp add: us(2))
      show "last_insert ?s \<noteq> Deleted_timer" using t by simp
      show "timer_waketime ?s Sentinel_timer = timer_waketime ?s Periodic_timer + 0x80000000"
        using i(11) by (simp add: wk)
    qed
    then have "timer_inv ?s ?zs" by (simp only: us)
    moreover have "dispatch_update t SF_RESCHEDULE s = Ret (timer_waketime s n) ?s"
      using r(1) False by (simp add: dispatch_update_def nx Let_def if_distribR split: if_splits)
    ultimately show ?thesis using \<open>hd ?zs = n\<close> wk by auto
  qed
qed

lemma timer_inv_cong:
  assumes "timer_next s' = timer_next s" "timer_list s' = timer_list s" "last_insert s' = last_insert s"
    and "timer_waketime s' Periodic_timer = timer_waketime s Periodic_timer"
    and "timer_waketime s' Sentinel_timer = timer_waketime s Sentinel_timer"
  shows "timer_inv s' = timer_inv s"
  by (rule ext) (simp add: timer_inv_def assms)

text \<open>
  What the dispatcher needs of the function of the timer \<open>t\<close> at the head: it leaves \<open>t\<close> there
  and the rest of the list in order, it reschedules \<open>t\<close> only at a time in the window, and the
  periodic timer always.
\<close>

definition event_ok :: "timer_ref \<Rightarrow> (sf_result, 'z sched_scheme) outcome \<Rightarrow> bool" where
  "event_ok t m \<longleftrightarrow>
     (case m of
        Fault \<Rightarrow> False
      | Shutdown r s \<Rightarrow> True
      | Ret res s \<Rightarrow>
          (\<exists>ys. timer_inv s (t # ys) \<and> timers_sorted s ys \<and>
             (res = SF_DONE \<longrightarrow> t \<noteq> Periodic_timer) \<and>
             (res = SF_RESCHEDULE \<longrightarrow> t \<noteq> Deleted_timer \<and> in_window s (timer_waketime s t) ys)))"

lemma timers_sorted_cong:
  "timer_waketime s' = timer_waketime s \<Longrightarrow> timers_sorted s' xs = timers_sorted s xs"
  unfolding timers_sorted_def by (rule sorted_map_cong_keys, rule timer_key_cong) simp_all

lemma dispatch_update_ok:
  assumes "event_ok t (Ret res s)"
  shows "\<exists>s' xs. dispatch_update t res s = Ret (timer_waketime s' (hd xs)) s' \<and>
    timer_inv s' xs \<and> timers_sorted s' xs"
proof -
  from assms obtain ys where inv: "timer_inv s (t # ys)" and so: "timers_sorted s ys"
    and d: "res = SF_DONE \<Longrightarrow> t \<noteq> Periodic_timer"
    and r: "res = SF_RESCHEDULE \<Longrightarrow> t \<noteq> Deleted_timer \<and> in_window s (timer_waketime s t) ys"
    by (auto simp: event_ok_def)
  show ?thesis
  proof (cases res)
    case SF_DONE
    from dispatch_update_done [OF inv d [OF SF_DONE]] so show ?thesis
      unfolding SF_DONE by (metis timers_sorted_cong)
  next
    case SF_RESCHEDULE
    note r' = r [OF SF_RESCHEDULE]
    from dispatch_update_reschedule [OF inv _ _ so] r' obtain s' zs where
      z: "dispatch_update t SF_RESCHEDULE s = Ret (timer_waketime s (hd zs)) s'"
        "zs = insert_by_time (timer_key s) (rel_time s (timer_waketime s t)) t ys"
        "timer_inv s' zs" "timer_waketime s' = timer_waketime s" by blast
    have "t \<noteq> Sentinel_timer" using timer_invD(3,12) [OF inv] by auto
    then have "timers_sorted s zs"
      using so unfolding timers_sorted_def z(2)
      by (intro sorted_insert_by_time) (simp_all add: timer_key_def)
    with z SF_RESCHEDULE show ?thesis by (metis timers_sorted_cong)
  qed
qed

lemma dispatch_update_no_shutdown: "dispatch_update t res s \<noteq> Shutdown r s'"
  by (auto simp: dispatch_update_def insert_timer_def Let_def split: option.splits)

definition call_timer ::
    "(timer_ref \<Rightarrow> 'z sched_scheme \<Rightarrow> (sf_result, 'z sched_scheme) outcome) \<Rightarrow>
     (timer_func \<Rightarrow> timer_ref \<Rightarrow> 'z sched_scheme \<Rightarrow> (sf_result, 'z sched_scheme) outcome) \<Rightarrow>
     timer_ref \<Rightarrow> 'z sched_scheme \<Rightarrow> (sf_result, 'z sched_scheme) outcome" where
  "call_timer stepper_event call t s =
     (case timer_func s t of
        None \<Rightarrow> if CONFIG_INLINE_STEPPER_HACK (kconf s) then stepper_event t s else Fault
      | Some f \<Rightarrow> call f t s)"

lemma sched_timer_dispatch_eq:
  "sched_timer_dispatch stepper_event call s =
     andThen (call_timer stepper_event call (timer_list s) s) (dispatch_update (timer_list s))"
  by (simp add: sched_timer_dispatch_def call_timer_def Let_def)

lemma dispatch_ok:
  assumes "event_ok (timer_list s) (call_timer stepper_event call (timer_list s) s)"
  shows "(\<exists>s' xs. sched_timer_dispatch stepper_event call s = Ret (timer_waketime s' (hd xs)) s' \<and>
            timer_inv s' xs \<and> timers_sorted s' xs) \<or>
         (\<exists>r s'. sched_timer_dispatch stepper_event call s = Shutdown r s')"
  using assms dispatch_update_ok
  by (cases "call_timer stepper_event call (timer_list s) s")
    (fastforce simp: sched_timer_dispatch_eq event_ok_def)+

section \<open>The scheduler's own events and the reset\<close>

lemma sched_timer_reset_inv:
  assumes "timer_waketime s Sentinel_timer = timer_waketime s Periodic_timer + 0x80000000"
    and "timer_next s Sentinel_timer = None"
  shows "timer_inv (sched_timer_reset s) [Deleted_timer, Periodic_timer, Sentinel_timer]"
    and "timers_sorted (sched_timer_reset s) [Deleted_timer, Periodic_timer, Sentinel_timer]"
  using assms
  by (simp_all add: timer_inv_def timers_sorted_def timer_key_def sched_timer_reset_def Let_def
      timer_kick_def hw_do_def set_next_def set_waketime_def rel_time_def from_base_def)

text \<open>
  Moving the base of the comparison forward keeps the order as long as no distance leaves the
  half turn.
\<close>

lemma from_base_shift:
  fixes b d w :: u32
  assumes "- (2 ^ 31) \<le> from_base b w - sint d"
    and "from_base b w - sint d < 2 ^ 31"
  shows "from_base (b + d) w = from_base b w - sint d"
proof -
  have "w - (b + d) = (w - b) - d" by simp
  then show ?thesis using assms unfolding from_base_def
    by (simp only:) (rule sint_diff_in_range; simp)
qed

lemma periodic_event_ok:
  assumes inv: "timer_inv s (Periodic_timer # ys)" and so: "timers_sorted s (Periodic_timer # ys)"
    and d: "0 \<le> sint (timer_from_us s 100000)"
  shows "event_ok Periodic_timer (periodic_event s)"
proof -
  note i = timer_invD [OF inv]
  let ?P = "timer_waketime s Periodic_timer" and ?d = "timer_from_us s 100000"
  let ?s = "set_waketime Sentinel_timer (?P + ?d + 0x80000000)
    (set_waketime Periodic_timer (?P + ?d) (sched_wake_tasks s))"
  have r: "periodic_event s = Ret SF_RESCHEDULE ?s"
    by (simp add: periodic_event_def Let_def timer_from_us_def sched_wake_tasks_def)
  have wk: "timer_waketime ?s = (timer_waketime s)(Periodic_timer := ?P + ?d,
      Sentinel_timer := ?P + ?d + 0x80000000)"
    by (simp add: sched_wake_tasks_def)
  have inv': "timer_inv ?s (Periodic_timer # ys)"
    using inv by (simp add: timer_inv_def sched_wake_tasks_def)
  have P: "Periodic_timer \<notin> set ys" using i(9) by simp
  have key: "timer_key ?s y = timer_key s y - sint ?d \<and> 0 \<le> timer_key s y \<and> timer_key s y < 2 ^ 31"
    if "y \<in> set ys" "y \<noteq> Sentinel_timer" for y
  proof -
    have "0 \<le> timer_key s y" using so that(1) by (auto simp: timers_sorted_def)
    then have b: "0 \<le> from_base ?P (timer_waketime s y)" "from_base ?P (timer_waketime s y) < 2 ^ 31"
      using that from_base_bounds(2) by (simp_all add: timer_key_def rel_time_def)
    have "sint ?d < 2 ^ 31" using sint_less [of ?d] by simp
    with b d have "from_base (?P + ?d) (timer_waketime s y) = from_base ?P (timer_waketime s y) - sint ?d"
      by (intro from_base_shift) auto
    with b that P show ?thesis by (auto simp: timer_key_def rel_time_def wk)
  qed
  have kS: "timer_key ?s Sentinel_timer = 2 ^ 31" by (simp add: timer_key_def)
  have "timers_sorted ?s ys"
  proof -
    have "sorted_wrt (\<lambda>x y. timer_key s x \<le> timer_key s y) ys"
      using so by (simp add: timers_sorted_def sorted_map)
    then have "sorted_wrt (\<lambda>x y. timer_key ?s x \<le> timer_key ?s y) ys"
    proof (rule sorted_wrt_mono_rel [rotated])
      fix x y assume xy: "x \<in> set ys" "y \<in> set ys" "timer_key s x \<le> timer_key s y"
      show "timer_key ?s x \<le> timer_key ?s y"
      proof (cases "x = Sentinel_timer")
        case True
        moreover have "timer_key s Sentinel_timer = 2 ^ 31" by (simp add: timer_key_def)
        ultimately have "y = Sentinel_timer" using xy key [of y] by (cases "y = Sentinel_timer") auto
        with True show ?thesis by simp
      next
        case False
        then show ?thesis
          using xy key [OF xy(1)] key [OF xy(2)] d kS by (cases "y = Sentinel_timer") auto
      qed
    qed
    then show ?thesis by (simp add: timers_sorted_def sorted_map)
  qed
  moreover have "in_window ?s (timer_waketime ?s Periodic_timer) ys"
    unfolding in_window_def
  proof
    fix y assume y: "y \<in> set ys"
    have "sint ?d < 2 ^ 31" using sint_less [of ?d] by simp
    with key [OF y] d show "y = Sentinel_timer \<or>
        \<bar>rel_time ?s (timer_waketime ?s Periodic_timer) - timer_key ?s y\<bar> < 2 ^ 31"
      unfolding rel_time_periodic by (cases "y = Sentinel_timer") auto
  qed
  ultimately show ?thesis using inv' by (auto simp: event_ok_def r)
qed

lemma deleted_event_ok:
  assumes "timer_inv s (Deleted_timer # ys)" "timers_sorted s (Deleted_timer # ys)"
  shows "event_ok Deleted_timer (deleted_event s)"
  using assms by (auto simp: event_ok_def deleted_event_def timers_sorted_def)

text \<open>The calls of the two timers of the scheduler, whatever the other event functions are.\<close>

definition own_events ::
    "(timer_func \<Rightarrow> timer_ref \<Rightarrow> 'z sched_scheme \<Rightarrow> (sf_result, 'z sched_scheme) outcome) \<Rightarrow>
     timer_func \<Rightarrow> timer_ref \<Rightarrow> 'z sched_scheme \<Rightarrow> (sf_result, 'z sched_scheme) outcome" where
  "own_events other f t s =
     (case f of
        Periodic_event \<Rightarrow> periodic_event s
      | Sentinel_event \<Rightarrow> sentinel_event s
      | Deleted_event \<Rightarrow> deleted_event s
      | _ \<Rightarrow> other f t s)"

lemma del_timer_removes:
  assumes "timer_inv s xs" "timers_sorted s xs"
    and "d \<noteq> Periodic_timer" "d \<noteq> Sentinel_timer" "d \<noteq> Deleted_timer"
  shows "\<exists>s' xs'. sched_del_timer d s = Ret () s' \<and> timer_inv s' xs' \<and> timers_sorted s' xs' \<and>
    active xs' = filter (\<lambda>x. x \<noteq> d) (active xs)"
  using assms(1,3-5)
proof (rule sched_del_timer_cases)
  fix s' assume r: "sched_del_timer d s = Ret () s'" and hd: "timer_list s = d"
    and inv: "timer_inv s' (Deleted_timer # tl xs)"
    and wk: "timer_waketime s' = (timer_waketime s)(Deleted_timer := timer_waketime s d)"
  note xs = timer_inv_cons [OF assms(1)] and i = timer_invD [OF assms(1)]
  have dn: "d \<notin> set (tl xs)" using i(9) by (subst (asm) xs) (simp add: hd)
  have key: "timer_key s' x = timer_key s x" if "x \<in> set (tl xs)" for x
    using that i(7) by (intro timer_key_cong) (auto simp: wk)
  have "timer_key s' Deleted_timer = timer_key s d"
    using assms(4) by (simp add: timer_key_def wk rel_time_def)
  moreover have "sorted (map (timer_key s) (d # tl xs))"
    using assms(2) unfolding timers_sorted_def by (subst (asm) xs) (simp add: hd)
  ultimately have "timers_sorted s' (Deleted_timer # tl xs)"
    unfolding timers_sorted_def using key by (simp cong: map_cong)
  moreover have "active (Deleted_timer # tl xs) = filter (\<lambda>x. x \<noteq> d) (active xs)"
    using i(7) dn assms(5) by (subst (2) xs) (simp add: hd filter_neq_id)
  ultimately show ?thesis using r inv by blast
next
  fix s' assume r: "sched_del_timer d s = Ret () s'"
    and inv: "timer_inv s' (filter (\<lambda>x. x \<noteq> d) xs)" and wk: "timer_waketime s' = timer_waketime s"
  have "timers_sorted s' (filter (\<lambda>x. x \<noteq> d) xs)"
    using assms(2) timers_sorted_cong [OF wk] by (simp add: timers_sorted_filter)
  moreover have "active (filter (\<lambda>x. x \<noteq> d) xs) = filter (\<lambda>x. x \<noteq> d) (active xs)"
    by (simp add: conj_commute)
  ultimately show ?thesis using r inv by blast
qed

lemma del_timer_list:
  assumes "timer_inv s xs" "d \<noteq> Periodic_timer" "d \<noteq> Sentinel_timer" "d \<noteq> Deleted_timer"
  shows "\<exists>s' xs'. sched_del_timer d s = Ret () s' \<and> timer_inv s' xs' \<and>
    active xs' = filter (\<lambda>x. x \<noteq> d) (active xs)"
  using assms
proof (rule sched_del_timer_cases)
  fix s' assume r: "sched_del_timer d s = Ret () s'" and hd: "timer_list s = d"
    and inv: "timer_inv s' (Deleted_timer # tl xs)"
  note xs = timer_inv_cons [OF assms(1)] and i = timer_invD [OF assms(1)]
  have dn: "d \<notin> set (tl xs)" using i(9) by (subst (asm) xs) (simp add: hd)
  have "active (Deleted_timer # tl xs) = filter (\<lambda>x. x \<noteq> d) (active xs)"
    using i(7) dn assms(4) by (subst (2) xs) (simp add: hd filter_neq_id)
  with r inv show ?thesis by blast
next
  fix s' assume r: "sched_del_timer d s = Ret () s'"
    and inv: "timer_inv s' (filter (\<lambda>x. x \<noteq> d) xs)"
  have "active (filter (\<lambda>x. x \<noteq> d) xs) = filter (\<lambda>x. x \<noteq> d) (active xs)"
    by (simp add: conj_commute)
  with r inv show ?thesis by blast
qed

section \<open>Start of the program\<close>

text \<open>The static initialisers of \<open>command.c\<close> and \<open>sched.c\<close>.\<close>

definition sched_init :: "kconfig \<Rightarrow> sched" where
  "sched_init k =
     \<lparr>next_sequence = MESSAGE_DEST, need_sync = False, need_valid = False, in_sendf = False,
      sent = [], kconf = k, timer_read_time = 0, hw = [],
      timer_next = (\<lambda>_. None)(Periodic_timer := Some Sentinel_timer),
      timer_func = (\<lambda>_. None)(Periodic_timer := Some Periodic_event,
        Sentinel_timer := Some Sentinel_event, Deleted_timer := Some Deleted_event),
      timer_waketime = (\<lambda>_. 0)(Sentinel_timer := 0x80000000),
      timer_list = Periodic_timer, last_insert = Periodic_timer,
      tasks_status = TS_IDLE, task_wake = (\<lambda>_. False),
      shutdown_status = 0, shutdown_reason = '''', timer_repeat_until = 0\<rparr>"

text \<open>A 16 MHz build, for the instances below.\<close>

definition example_conf :: kconfig where
  "example_conf = \<lparr>ticks_per_us = 16, CONFIG_INLINE_STEPPER_HACK = False,
     CONFIG_HAVE_STEPPER_BOTH_EDGE = False, CONFIG_MACH_AVR = False, CONFIG_HAVE_GPIO_BITBANGING = False,
     static_string_id = (\<lambda>_. 1)\<rparr>"

abbreviation "sched0 \<equiv> sched_init example_conf"

lemma sched_init_inv:
  "timer_inv (sched_init k) [Periodic_timer, Sentinel_timer]"
  "timers_sorted (sched_init k) [Periodic_timer, Sentinel_timer]"
  by (simp_all add: timer_inv_def timers_sorted_def timer_key_def rel_time_def from_base_def
      sched_init_def)

lemma sched_init_add_inv:
  "timer_inv (set_waketime (Obj_timer n) w sched0) [Periodic_timer, Sentinel_timer]"
  "timers_sorted (set_waketime (Obj_timer n) w sched0) [Periodic_timer, Sentinel_timer]"
  by (simp_all add: timer_inv_def timers_sorted_def timer_key_def rel_time_def from_base_def
      sched_init_def set_waketime_def)

section \<open>Properties of the scheduler\<close>

text \<open>
  C35: \<open>sched_add_timer\<close> is safe for every wake time: the walk of \<open>insert_timer\<close> always ends before a
  \<open>NULL\<close> pointer, the new timer is linked in at exactly one place and every other timer stays, or
  the firmware stops with "Timer too close", and then the wake time already lies in the past.
\<close>

theorem sched_add_timer_safe:
  assumes "timer_inv s xs" "t \<notin> set xs" "t \<noteq> Deleted_timer"
  shows "(\<exists>s' xs' as bs. sched_add_timer t s = Ret () s' \<and> timer_inv s' xs' \<and>
            active xs = as @ bs \<and> active xs' = as @ t # bs) \<or>
         (sched_add_timer t s = Shutdown ''Timer too close'' s \<and> shutdown_status s = 0 \<and>
            timer_is_before (timer_waketime s t) (timer_read_time s))"
  using assms by (rule sched_add_timer_cases) blast+

theorem sched_add_timer_safe_witness:
  "\<exists>s' xs' as bs. sched_add_timer (Obj_timer 3) (set_waketime (Obj_timer 3) 5000 sched0) = Ret () s' \<and>
     timer_inv s' xs' \<and> [Periodic_timer, Sentinel_timer] = as @ bs \<and> active xs' = as @ Obj_timer 3 # bs"
  using sched_add_timer_safe [OF sched_init_add_inv(1), of "Obj_timer 3" 3 5000]
  by (simp add: timer_is_before_def set_waketime_def sched_init_def)

text \<open>
  Within the half turn of the 32 bit clock, \<open>sched_add_timer\<close> implements insertion into a list
  sorted by time in which timers of the same time keep the order they were added in.
\<close>

theorem sched_add_timer_order:
  assumes "timer_inv s xs" "t \<notin> set xs" "t \<noteq> Deleted_timer"
    and "timers_sorted s xs" "in_window s (timer_waketime s t) xs"
    and "sched_add_timer t s = Ret () s'"
  shows "\<exists>xs'. timer_inv s' xs' \<and> timers_sorted s' xs' \<and>
    active xs' = insert_by_time (timer_key s) (rel_time s (timer_waketime s t)) t (active xs)"
  using assms(1-3) by (rule sched_add_timer_cases) (use assms(4-6) in auto)

theorem sched_add_timer_order_witness:
  "\<exists>s' xs'. sched_add_timer (Obj_timer 3) (set_waketime (Obj_timer 3) 5000 sched0) = Ret () s' \<and>
     timer_inv s' xs' \<and> timers_sorted s' xs' \<and>
     active xs' = [Periodic_timer, Obj_timer 3, Sentinel_timer]"
proof -
  let ?s = "set_waketime (Obj_timer 3) 5000 sched0"
  have w: "in_window ?s (timer_waketime ?s (Obj_timer 3)) [Periodic_timer, Sentinel_timer]"
    by (simp add: in_window_def timer_key_def rel_time_def from_base_def sched_init_def)
  obtain s' where "sched_add_timer (Obj_timer 3) ?s = Ret () s'"
    using sched_add_timer_cases [OF sched_init_add_inv(1), of "Obj_timer 3" 3 5000]
    by (auto simp: timer_is_before_def set_waketime_def sched_init_def)
  with sched_add_timer_order [OF sched_init_add_inv(1) _ _ sched_init_add_inv(2) w this]
  show ?thesis
    by (auto simp: insert_by_time_def timer_key_def rel_time_def from_base_def sched_init_def)
qed

text \<open>
  \<open>sched_del_timer\<close> removes the timer whether it is the head, further down or not linked at
  all; the other timers keep their order, the list stays well formed and sorted, and the cached
  insertion point is an entry of the remaining list.
\<close>

theorem sched_del_timer_removes:
  assumes "timer_inv s xs" "timers_sorted s xs"
    and "d \<noteq> Periodic_timer" "d \<noteq> Sentinel_timer" "d \<noteq> Deleted_timer"
  shows "\<exists>s' xs'. sched_del_timer d s = Ret () s' \<and> timer_inv s' xs' \<and> timers_sorted s' xs' \<and>
    active xs' = filter (\<lambda>x. x \<noteq> d) (active xs)"
  using assms by (rule del_timer_removes)

theorem sched_del_timer_removes_witness:
  "\<exists>s' xs'. sched_del_timer (Obj_timer 3) sched0 = Ret () s' \<and> timer_inv s' xs' \<and>
     timers_sorted s' xs' \<and> active xs' = [Periodic_timer, Sentinel_timer]"
  using sched_del_timer_removes [OF sched_init_inv, of "Obj_timer 3" example_conf] by simp

text \<open>
  C32: One call of \<open>sched_timer_dispatch\<close>, when the event function of the head keeps its contract,
  never follows a \<open>NULL\<close> pointer; it returns the wake time of the new head, and the list is again
  well formed and sorted, whether the timer was dropped, kept at the head or moved (from
  \<open>last_insert\<close> or from the head).
\<close>

theorem sched_timer_dispatch_ok:
  assumes "event_ok (timer_list s) (call_timer stepper_event call (timer_list s) s)"
    and "sched_timer_dispatch stepper_event call s = m"
  shows "(\<exists>s' xs. m = Ret (timer_waketime s' (hd xs)) s' \<and> timer_inv s' xs \<and> timers_sorted s' xs) \<or>
         (\<exists>r s'. m = Shutdown r s')"
  using dispatch_ok [OF assms(1)] assms(2) by simp

theorem sched_timer_dispatch_ok_witness:
  "\<exists>s' xs. sched_timer_dispatch (\<lambda>_ _. Fault) (own_events (\<lambda>_ _ _. Fault)) sched0 =
     Ret (timer_waketime s' (hd xs)) s' \<and> timer_inv s' xs \<and> timers_sorted s' xs"
proof -
  have f: "timer_list sched0 = Periodic_timer" "timer_func sched0 Periodic_timer = Some Periodic_event"
    by (simp_all add: sched_init_def)
  have "event_ok Periodic_timer (periodic_event sched0)"
    by (rule periodic_event_ok [OF sched_init_inv])
      (simp add: timer_from_us_def sched_init_def example_conf_def)
  then have "event_ok (timer_list sched0)
      (call_timer (\<lambda>_ _. Fault) (own_events (\<lambda>_ _ _. Fault)) (timer_list sched0) sched0)"
    by (simp add: f call_timer_def own_events_def)
  from sched_timer_dispatch_ok [OF this refl] show ?thesis
    by (auto simp: sched_timer_dispatch_eq f call_timer_def own_events_def periodic_event_def Let_def
      dispatch_update_no_shutdown)
qed

text \<open>
  C36: Entering the emergency stop from any point of the program calls the shutdown handlers exactly once,
  on a state that has exactly the scheduler's own timers linked, the status "in progress" and the reason
  of the first stop only. What the handlers leave is what the program goes on with, except that the
  status becomes "stopped", so that later stops are ignored, and that the stop is reported with the
  clock at which it began. A stop inside a handler leaves the function again before it is over.
\<close>

theorem run_shutdown_spec:
  assumes "timer_waketime s Sentinel_timer = timer_waketime s Periodic_timer + 0x80000000"
    and "timer_next s Sentinel_timer = None"
  shows "\<exists>u. timer_inv u [Deleted_timer, Periodic_timer, Sentinel_timer] \<and> shutdown_status u = 2 \<and>
    shutdown_reason u = (if shutdown_status s = 0 then reason else shutdown_reason s) \<and>
    timer_func u = timer_func s \<and> sent u = sent s \<and> hw u = hw s @ [Timer_kick] \<and>
    (case shutdownfuncs u of
       Ret _ u' \<Rightarrow> \<exists>s'. run_shutdown shutdownfuncs reason s = Ret () s' \<and> shutdown_status s' = 1 \<and>
         sched_try_shutdown r s' = Ret () s' \<and> shutdown_reason s' = shutdown_reason u' \<and> hw s' = hw u' \<and>
         (timer_list s', timer_next s', timer_waketime s') = (timer_list u', timer_next u', timer_waketime u') \<and>
         sent s' = sent u' @ (if in_sendf u' then [] else [Response ''shutdown''
           [timer_read_time s, static_string_id (kconf u') (shutdown_reason u')]])
     | Shutdown again u' \<Rightarrow> run_shutdown shutdownfuncs reason s = Shutdown again u'
     | Fault \<Rightarrow> run_shutdown shutdownfuncs reason s = Fault)"
proof -
  let ?s0 = "(if shutdown_status s = 0 then s\<lparr>shutdown_reason := reason\<rparr> else s)\<lparr>shutdown_status := 2\<rparr>"
  let ?u = "sched_timer_reset ?s0"
  have "timer_inv ?u [Deleted_timer, Periodic_timer, Sentinel_timer]"
    using assms(1,2) by (intro sched_timer_reset_inv) auto
  moreover have "shutdown_status ?u = 2" "timer_func ?u = timer_func s" "sent ?u = sent s" "hw ?u = hw s @ [Timer_kick]"
    "shutdown_reason ?u = (if shutdown_status s = 0 then reason else shutdown_reason s)"
    by (simp_all add: sched_timer_reset_def Let_def timer_kick_def hw_do_def set_next_def set_waketime_def)
  moreover have "run_shutdown shutdownfuncs reason s = andThen (shutdownfuncs ?u)
      (\<lambda>_ s1. Ret () (command_sendf (Response ''shutdown''
        [timer_read_time s, static_string_id (kconf s1) (shutdown_reason s1)]) (s1\<lparr>shutdown_status := 1\<rparr>)))"
    by (simp add: run_shutdown_def Let_def)
  ultimately show ?thesis
    by (intro exI [of _ ?u]) (auto simp: command_sendf_def sched_try_shutdown_def split: outcome.split)
qed

text \<open>A handler that drives a pin to its default.\<close>

definition pin_handler :: "sched \<Rightarrow> (unit, sched) outcome" where
  "pin_handler s = Ret () (hw_do (Gpio_out_write 5 False) s)"

theorem run_shutdown_spec_witness:
  "\<exists>s'. run_shutdown pin_handler ''Timer too close'' sched0 = Ret () s' \<and>
     shutdown_status s' = 1 \<and> shutdown_reason s' = ''Timer too close'' \<and>
     hw s' = hw sched0 @ [Timer_kick, Gpio_out_write 5 False]"
  using run_shutdown_spec [of sched0 "''Timer too close''" pin_handler "''again''"]
  by (auto simp: sched_init_def pin_handler_def hw_do_def)

end
