(* ===== verification/Console.thy ===== *)
theory Console
  imports Sched
begin

text \<open>
  The command routing half of \<open>src/command.c\<close> and the serial console of \<open>src/generic/serial_irq.c\<close>:
  the receive and transmit buffers, the task that turns received bytes into command calls, and
  the path of a response into the transmit buffer.
\<close>

section \<open>Command routing\<close>

text \<open>
  An entry of the generated table \<open>command_index\<close>. A handler takes the decoded arguments; its
  \<open>flags\<close> matter through \<open>HF_IN_SHUTDOWN\<close> only.
\<close>

record 's command_parser =
  cp_in_shutdown :: bool
  cp_param_types :: "param_type list"
  cp_func :: "u32 list \<Rightarrow> 's \<Rightarrow> (unit, 's) outcome"

definition command_lookup_parser ::
    "'s command_parser list \<Rightarrow> nat \<Rightarrow> 's \<Rightarrow> ('s command_parser, 's) outcome" where
  "command_lookup_parser command_index cmdid s =
     (if cmdid = 0 \<or> cmdid \<ge> length command_index then Shutdown ''Invalid command'' s
      else Ret (command_index ! cmdid) s)"

text \<open>The loop of \<open>command_dispatch\<close>, from offset \<open>p\<close> to \<open>msgend\<close>.\<close>

function (sequential) command_dispatch_from ::
    "(nat \<Rightarrow> u32) \<Rightarrow> 'z sched_scheme command_parser list \<Rightarrow> u8 list \<Rightarrow> nat \<Rightarrow> nat
       \<Rightarrow> 'z sched_scheme \<Rightarrow> (unit, 'z sched_scheme) outcome" where
  "command_dispatch_from enc_ptr command_index buf msgend p s =
     (if p < msgend then
        andThen (command_lookup_parser command_index (unat (buf ! p)) s) (\<lambda>cp s.
        andThen (command_parsef enc_ptr buf msgend (cp_param_types cp) (p + 1) [] s) (\<lambda>r s.
          if sched_is_shutdown s \<and> \<not> cp_in_shutdown cp
          then command_dispatch_from enc_ptr command_index buf msgend (fst r) (sched_report_shutdown s)
          else andThen (cp_func cp (snd r) s) (\<lambda>_ s.
            command_dispatch_from enc_ptr command_index buf msgend (fst r) s)))
      else Ret () s)"
  by pat_completeness auto

termination
proof (relation "measure (\<lambda>(enc, ci, buf, msgend, p, s). msgend - p)")
qed (auto dest!: parsef_progress)

declare command_dispatch_from.simps [simp del]

definition command_dispatch ::
    "(nat \<Rightarrow> u32) \<Rightarrow> 'z sched_scheme command_parser list \<Rightarrow> u8 list \<Rightarrow> nat \<Rightarrow> 'z sched_scheme
       \<Rightarrow> (unit, 'z sched_scheme) outcome" where
  "command_dispatch enc_ptr command_index buf msglen s =
     command_dispatch_from enc_ptr command_index buf (msglen - MESSAGE_TRAILER_SIZE)
       MESSAGE_HEADER_SIZE s"

definition command_send_ack :: "'z comm_scheme \<Rightarrow> 'z comm_scheme" where
  "command_send_ack s = command_sendf AckNak s"

definition command_find_and_dispatch ::
    "(nat \<Rightarrow> u32) \<Rightarrow> 'z sched_scheme command_parser list \<Rightarrow> u8 list \<Rightarrow> 'z sched_scheme
       \<Rightarrow> (int \<times> nat, 'z sched_scheme) outcome" where
  "command_find_and_dispatch enc_ptr command_index buf s =
     (let (ret, pop_count, s) = command_find_block buf s in
      if ret > 0 then
        andThen (command_dispatch enc_ptr command_index buf pop_count s)
          (\<lambda>_ s. Ret (ret, pop_count) (command_send_ack s))
      else Ret (ret, pop_count) s)"

section \<open>Commands in a block\<close>

text \<open>
  What the host writes for a list of commands: the id, and for each argument a number, or the length
  and the bytes of a buffer.
\<close>

datatype cmd_arg = Num_arg u32 | Buf_arg "u8 list"

type_synonym cmd = "nat \<times> cmd_arg list"

fun write_arg :: "cmd_arg \<Rightarrow> u8 list" where
  "write_arg (Num_arg v) = encode_int v"
| "write_arg (Buf_arg bs) = of_nat (length bs) # bs"

definition encode_cmds :: "cmd list \<Rightarrow> u8 list" where
  "encode_cmds cmds = concat (map (\<lambda>(cid, as). of_nat cid # concat (map write_arg as)) cmds)"

fun arg_fits :: "param_type \<Rightarrow> cmd_arg \<Rightarrow> bool" where
  "arg_fits t (Num_arg v) \<longleftrightarrow> int_param t"
| "arg_fits t (Buf_arg bs) \<longleftrightarrow> t = PT_buffer \<and> length bs < 256"

definition valid_cmd :: "'s command_parser list \<Rightarrow> cmd \<Rightarrow> bool" where
  "valid_cmd ci c \<longleftrightarrow>
     (case c of (cid, as) \<Rightarrow> 0 < cid \<and> cid < length ci \<and> cid < 256 \<and>
        list_all2 arg_fits (cp_param_types (ci ! cid)) as)"

text \<open>
  What the firmware should do with them. A handler is called with the numbers, and with the length of
  a buffer and a pointer to its bytes in the receive buffer; \<open>p\<close> is where the arguments begin there.
\<close>

fun passed :: "(nat \<Rightarrow> u32) \<Rightarrow> nat \<Rightarrow> cmd_arg list \<Rightarrow> u32 list" where
  "passed enc p [] = []"
| "passed enc p (Num_arg v # as) = v # passed enc (p + length (write_arg (Num_arg v))) as"
| "passed enc p (Buf_arg bs # as) =
     of_nat (length bs) # enc (p + 1) # passed enc (p + length (write_arg (Buf_arg bs))) as"

fun run_commands ::
    "(nat \<Rightarrow> u32) \<Rightarrow> 'z sched_scheme command_parser list \<Rightarrow> nat \<Rightarrow> cmd list \<Rightarrow> 'z sched_scheme
       \<Rightarrow> (unit, 'z sched_scheme) outcome" where
  "run_commands enc ci p [] s = Ret () s"
| "run_commands enc ci p ((cid, as) # cs) s =
     (if sched_is_shutdown s \<and> \<not> cp_in_shutdown (ci ! cid)
      then run_commands enc ci (p + length (encode_cmds [(cid, as)])) cs (sched_report_shutdown s)
      else andThen (cp_func (ci ! cid) (passed enc (p + 1) as) s)
             (\<lambda>_ s. run_commands enc ci (p + length (encode_cmds [(cid, as)])) cs s))"

text \<open>The places and the bytes of the buffers among the arguments, and among the arguments of commands.\<close>

fun arg_buffers :: "nat \<Rightarrow> cmd_arg list \<Rightarrow> (nat \<times> u8 list) list" where
  "arg_buffers p [] = []"
| "arg_buffers p (Num_arg v # as) = arg_buffers (p + length (write_arg (Num_arg v))) as"
| "arg_buffers p (Buf_arg bs # as) = (p + 1, bs) # arg_buffers (p + length (write_arg (Buf_arg bs))) as"

fun cmd_buffers :: "nat \<Rightarrow> cmd list \<Rightarrow> (nat \<times> u8 list) list" where
  "cmd_buffers p [] = []"
| "cmd_buffers p ((cid, as) # cs) = arg_buffers (p + 1) as @ cmd_buffers (p + length (encode_cmds [(cid, as)])) cs"

lemma encode_cmds_simps [simp]:
  "encode_cmds [] = []"
  "encode_cmds ((cid, as) # cs) = of_nat cid # concat (map write_arg as) @ encode_cmds cs"
  by (simp_all add: encode_cmds_def)

lemma write_nums [simp]: "write_arg \<circ> Num_arg = encode_int"
  by (simp add: fun_eq_iff)

lemma passed_nums [simp]: "passed enc p (map Num_arg vs) = vs"
  by (induction vs arbitrary: p) simp_all

lemma nums_fit: "list_all int_param ts \<Longrightarrow> length ts = length vs \<Longrightarrow> list_all2 arg_fits ts (map Num_arg vs)"
  by (simp add: list_all_length list_all2_conv_all_nth)

lemma arg_buffers_inside:
  "(q, bs) \<in> set (arg_buffers (length us) as) \<Longrightarrow>
     take (length bs) (drop q (us @ concat (map write_arg as) @ r)) = bs"
proof (induction "length us" as arbitrary: us rule: arg_buffers.induct)
  case (2 v as)
  then show ?case using "2.hyps" [of "us @ encode_int v"] by simp
next
  case (3 bs' as)
  then show ?case using "3.hyps" [of "us @ of_nat (length bs') # bs'"] by auto
qed simp

lemma cmd_buffers_inside:
  "(q, bs) \<in> set (cmd_buffers (length us) cmds) \<Longrightarrow>
     take (length bs) (drop q (us @ encode_cmds cmds @ r)) = bs"
proof (induction "length us" cmds arbitrary: us rule: cmd_buffers.induct)
  case (2 cid as cs)
  then show ?case
    using "2.hyps" [of "us @ of_nat cid # concat (map write_arg as)"]
      arg_buffers_inside [of q bs "us @ [of_nat cid]" as "encode_cmds cs @ r"] by auto
qed simp

lemma parsef_args:
  assumes "list_all2 arg_fits ts as" "length (us @ concat (map write_arg as)) \<le> maxend"
  shows "command_parsef enc (us @ concat (map write_arg as) @ r) maxend ts (length us) args s =
    Ret (length (us @ concat (map write_arg as)), args @ passed enc (length us) as) s"
  using assms
proof (induction ts as arbitrary: us args rule: list_all2_induct)
  case (Cons t ts a as)
  let ?us = "us @ write_arg a"
  have "command_parsef enc (us @ write_arg a @ (concat (map write_arg as) @ r)) maxend (t # ts) (length us) args s =
      command_parsef enc (?us @ concat (map write_arg as) @ r) maxend ts (length ?us)
        (args @ passed enc (length us) [a]) s"
  proof (cases a)
    case (Num_arg v)
    then show ?thesis
      using Cons.hyps(1) Cons.prems parsef_int_step [of t us maxend enc v "concat (map write_arg as) @ r"]
      by (simp del: command_parsef.simps)
  next
    case (Buf_arg bs)
    then show ?thesis using Cons.hyps(1) Cons.prems by (simp add: unat_of_nat nth_append Let_def)
  qed
  moreover have "passed enc (length us) (a # as) = passed enc (length us) [a] @ passed enc (length ?us) as"
    by (cases a) simp_all
  ultimately show ?case using Cons.IH [of ?us] Cons.prems by simp
qed simp

lemma dispatch_from_runs:
  assumes "list_all (valid_cmd ci) cmds" "msgend = length (us @ encode_cmds cmds)"
  shows "command_dispatch_from enc ci (us @ encode_cmds cmds @ r) msgend (length us) s =
    run_commands enc ci (length us) cmds s"
  using assms
proof (induction enc ci "length us" cmds s arbitrary: us rule: run_commands.induct)
  case (1 enc ci s)
  then show ?case by (simp add: command_dispatch_from.simps)
next
  case (2 enc ci cid as cs s)
  let ?e = "concat (map write_arg as)" and ?us = "us @ [of_nat cid]"
  let ?b = "us @ encode_cmds ((cid, as) # cs) @ r"
  have v: "0 < cid" "cid < length ci" "cid < 256" "list_all2 arg_fits (cp_param_types (ci ! cid)) as"
    using 2(3) by (simp_all add: valid_cmd_def)
  have b: "?b = ?us @ ?e @ encode_cmds cs @ r" and b': "?b = (?us @ ?e) @ encode_cmds cs @ r" by simp_all
  have e: "msgend = length ((?us @ ?e) @ encode_cmds cs)" using 2(4) by simp
  have l: "length us + length (encode_cmds [(cid, as)]) = length (?us @ ?e)" by simp
  have cid: "unat (?b ! length us) = cid" using v(3) by (simp add: unat_of_nat)
  have p: "command_parsef enc ?b msgend (cp_param_types (ci ! cid)) (length us + 1) [] s =
      Ret (length (?us @ ?e), passed enc (length us + 1) as) s" for s :: "'a sched_scheme"
    unfolding b using parsef_args [OF v(4), of ?us msgend enc "encode_cmds cs @ r" "[]" s] by (simp add: e)
  have cs: "list_all (valid_cmd ci) cs" using 2(3) by simp
  have "length us < msgend" by (simp add: e)
  then have "command_dispatch_from enc ci ?b msgend (length us) s =
      (if sched_is_shutdown s \<and> \<not> cp_in_shutdown (ci ! cid)
       then command_dispatch_from enc ci ?b msgend (length (?us @ ?e)) (sched_report_shutdown s)
       else andThen (cp_func (ci ! cid) (passed enc (length us + 1) as) s)
         (\<lambda>_ s. command_dispatch_from enc ci ?b msgend (length (?us @ ?e)) s))"
    using v(1,2) by (subst command_dispatch_from.simps) (simp add: cid command_lookup_parser_def p
        del: One_nat_def add_Suc_right encode_cmds_simps)
  also have "\<dots> = run_commands enc ci (length us) ((cid, as) # cs) s"
    using 2(1) [OF _ l cs e] 2(2) [OF _ _ l cs e]
    by (auto simp: b' l simp del: append_assoc encode_cmds_simps cong: andThen_cong)
  finally show ?case .
qed

lemma frame_payload:
  obtains us r where "frame_block sq body @ rest = us @ body @ r" "length us = MESSAGE_HEADER_SIZE"
  by (simp add: frame_block_def Let_def MESSAGE_HEADER_SIZE_def) (metis append_Cons append_Nil
      append_assoc length_Cons list.size(3) One_nat_def Suc_1)

lemma dispatch_block:
  assumes "list_all (valid_cmd ci) cmds"
  shows "command_dispatch enc ci (frame_block sq (encode_cmds cmds) @ rest)
    (length (encode_cmds cmds) + MESSAGE_MIN) s = run_commands enc ci MESSAGE_HEADER_SIZE cmds s"
proof -
  obtain us r where b: "frame_block sq (encode_cmds cmds) @ rest = us @ encode_cmds cmds @ r"
    and us: "length us = MESSAGE_HEADER_SIZE" by (rule frame_payload)
  have "length (encode_cmds cmds) + MESSAGE_MIN - MESSAGE_TRAILER_SIZE = length (us @ encode_cmds cmds)"
    using us by (simp add: message_consts)
  from dispatch_from_runs [OF assms this, of enc r s] us show ?thesis
    unfolding b by (simp add: command_dispatch_def)
qed

section \<open>The serial buffers\<close>

definition RX_BUFFER_SIZE :: nat where "RX_BUFFER_SIZE = 192"
definition TX_BUFFER_SIZE :: nat where "TX_BUFFER_SIZE = 96"

record console = sched +
  receive_buf :: "u8 list"
  receive_pos :: nat
  transmit_buf :: "u8 list"
  transmit_pos :: nat
  transmit_max :: nat

definition serial_rx_byte :: "u8 \<Rightarrow> 'z console_scheme \<Rightarrow> 'z console_scheme" where
  "serial_rx_byte data s =
     (let s = (if data = MESSAGE_SYNC then sched_wake_tasks s else s) in
      if receive_pos s \<ge> RX_BUFFER_SIZE then s
      else s\<lparr>receive_buf := (receive_buf s)[receive_pos s := data],
             receive_pos := receive_pos s + 1\<rparr>)"

definition serial_get_tx_byte :: "'z console_scheme \<Rightarrow> u8 option \<times> 'z console_scheme" where
  "serial_get_tx_byte s =
     (if transmit_pos s \<ge> transmit_max s then (None, s)
      else (Some (transmit_buf s ! transmit_pos s), s\<lparr>transmit_pos := transmit_pos s + 1\<rparr>))"

text \<open>\<open>memmove(&buf[dst], &buf[src], n)\<close>\<close>

definition memmove :: "nat \<Rightarrow> nat \<Rightarrow> nat \<Rightarrow> u8 list \<Rightarrow> u8 list" where
  "memmove dst src n buf = take dst buf @ take n (drop src buf) @ drop (dst + n) buf"

text \<open>
  The retry loop of \<open>console_pop_input\<close>. The receive interrupt may come between the read of
  \<open>receive_pos\<close> and the critical section: \<open>irqs\<close> lists the bytes that arrive there in each round,
  and a round in which none arrives is the last.
\<close>

definition console_pop_copy :: "nat \<Rightarrow> nat \<Rightarrow> 'z console_scheme \<Rightarrow> 'z console_scheme \<times> nat" where
  "console_pop_copy len copied s =
     (let needcopy = receive_pos s - len in
      if needcopy \<noteq> 0 then
        (sched_wake_tasks
           (s\<lparr>receive_buf := memmove copied (copied + len) (needcopy - copied) (receive_buf s)\<rparr>),
         needcopy)
      else (s, copied))"

fun console_pop_loop ::
    "nat \<Rightarrow> nat \<Rightarrow> u8 list list \<Rightarrow> 'z console_scheme \<Rightarrow> 'z console_scheme" where
  "console_pop_loop len copied irqs s =
     (let rpos = receive_pos s;
          needcopy = rpos - len;
          (s, copied) = console_pop_copy len copied s
      in case irqs of
           [] \<Rightarrow> s\<lparr>receive_pos := needcopy\<rparr>
         | bs # irqs' \<Rightarrow>
             let s = foldl (\<lambda>s b. serial_rx_byte b s) s bs in
             if rpos \<noteq> receive_pos s then console_pop_loop len copied irqs' s
             else s\<lparr>receive_pos := needcopy\<rparr>)"

declare console_pop_loop.simps [simp del]

definition console_pop_input :: "nat \<Rightarrow> u8 list list \<Rightarrow> 'z console_scheme \<Rightarrow> 'z console_scheme" where
  "console_pop_input len irqs s = console_pop_loop len 0 irqs s"

definition console_task ::
    "(nat \<Rightarrow> u32) \<Rightarrow> 'z console_scheme command_parser list \<Rightarrow> u8 list list \<Rightarrow> 'z console_scheme
       \<Rightarrow> (unit, 'z console_scheme) outcome" where
  "console_task enc_ptr command_index irqs s =
     (let buf = receive_buf s;
          (ret, pop_count, s) = command_find_block (take (receive_pos s) buf) s
      in andThen (if ret > 0 then command_dispatch enc_ptr command_index buf pop_count s else Ret () s)
           (\<lambda>_ s.
              if ret \<noteq> 0 then
                let s = console_pop_input pop_count irqs s
                in Ret () (if ret > 0 then command_send_ack s else s)
              else Ret () s))"

text \<open>
  \<open>console_sendf\<close>: room for \<open>max_size\<close> bytes is made at the front of the buffer when the end is
  too close, or the message is dropped.
\<close>

definition console_sendf ::
    "nat \<Rightarrow> command_encoder \<Rightarrow> send_arg list \<Rightarrow> 'z console_scheme \<Rightarrow> (unit, 'z console_scheme) outcome"
  where
  "console_sendf sizeof_int ce args s =
     (let s = (if transmit_pos s \<ge> transmit_max s then s\<lparr>transmit_max := 0, transmit_pos := 0\<rparr> else s);
          tpos = transmit_pos s; tmax = transmit_max s; max_size = ce_max_size ce
      in if tmax + max_size > TX_BUFFER_SIZE \<and> tmax + max_size - tpos > TX_BUFFER_SIZE then Ret () s
         else
           let s = (if tmax + max_size > TX_BUFFER_SIZE
                    then s\<lparr>transmit_buf := memmove 0 tpos (tmax - tpos) (transmit_buf s),
                           transmit_pos := 0, transmit_max := tmax - tpos\<rparr>
                    else s);
               tmax = transmit_max s
           in andThen (command_encode_and_frame sizeof_int ce args s)
                (\<lambda>b s.
                   if tmax + length b > TX_BUFFER_SIZE then Fault
                   else Ret () (s\<lparr>transmit_buf := take tmax (transmit_buf s) @ b @
                                     drop (tmax + length b) (transmit_buf s),
                                  transmit_max := tmax + length b\<rparr>)))"

section \<open>The streams behind the buffers\<close>

text \<open>The bytes received and not yet consumed, and those queued for transmission.\<close>

definition received :: "'z console_scheme \<Rightarrow> u8 list" where
  "received s = take (receive_pos s) (receive_buf s)"

definition queued :: "'z console_scheme \<Rightarrow> u8 list" where
  "queued s = take (transmit_max s - transmit_pos s) (drop (transmit_pos s) (transmit_buf s))"

definition console_ok :: "'z console_scheme \<Rightarrow> bool" where
  "console_ok s \<longleftrightarrow>
     length (receive_buf s) = RX_BUFFER_SIZE \<and> receive_pos s \<le> RX_BUFFER_SIZE \<and>
     length (transmit_buf s) = TX_BUFFER_SIZE \<and> transmit_pos s \<le> transmit_max s \<and>
     transmit_max s \<le> TX_BUFFER_SIZE"

lemma console_wake_fields [simp]:
  "receive_buf (sched_wake_tasks s) = receive_buf s"
  "receive_pos (sched_wake_tasks s) = receive_pos s"
  by (simp_all add: sched_wake_tasks_def)

text \<open>What a burst of receive interrupts does: the bytes that still fit are appended.\<close>

lemma rx_byte_appends:
  assumes "length (receive_buf s) = RX_BUFFER_SIZE" "receive_pos s \<le> RX_BUFFER_SIZE"
  shows "length (receive_buf (serial_rx_byte b s)) = RX_BUFFER_SIZE \<and>
    receive_pos (serial_rx_byte b s) =
      receive_pos s + length (take (RX_BUFFER_SIZE - receive_pos s) [b]) \<and>
    received (serial_rx_byte b s) = received s @ take (RX_BUFFER_SIZE - receive_pos s) [b]"
  using assms by (cases "receive_pos s = RX_BUFFER_SIZE")
    (auto simp: serial_rx_byte_def received_def Let_def take_Suc_conv_app_nth Suc_diff_le
      simp del: take_update_swap)

definition rx_burst :: "u8 list \<Rightarrow> 'z console_scheme \<Rightarrow> 'z console_scheme" where
  "rx_burst bs s = foldl (\<lambda>s b. serial_rx_byte b s) s bs"

lemma rx_burst_appends:
  assumes "length (receive_buf s) = RX_BUFFER_SIZE" "receive_pos s \<le> RX_BUFFER_SIZE"
  shows "\<exists>new. length (receive_buf (rx_burst bs s)) = RX_BUFFER_SIZE \<and>
    receive_pos (rx_burst bs s) = receive_pos s + length new \<and>
    received (rx_burst bs s) = received s @ new \<and> new = take (RX_BUFFER_SIZE - receive_pos s) bs \<and>
    receive_pos (rx_burst bs s) \<le> RX_BUFFER_SIZE"
  using assms
proof (induction bs arbitrary: s)
  case Nil
  then show ?case by (simp add: rx_burst_def)
next
  case (Cons b bs)
  note f = rx_byte_appends [OF Cons.prems, of b]
  have "rx_burst (b # bs) s = rx_burst bs (serial_rx_byte b s)" by (simp add: rx_burst_def)
  with Cons.IH [of "serial_rx_byte b s"] f Cons.prems(2) show ?case
    by (cases "receive_pos s = RX_BUFFER_SIZE") (auto simp: take_Cons' Suc_diff_Suc)
qed

lemma take_drop_move:
  assumes "c + n \<le> length buf" "c + k + n \<le> length buf"
  shows "take (c + n) (memmove c (c + k) n buf) = take c buf @ take n (drop (c + k) buf)"
    and "length (memmove c (c + k) n buf) = length buf"
    and "drop (c + n) (memmove c (c + k) n buf) = drop (c + n) buf"
  using assms by (simp_all add: memmove_def)

text \<open>
  The invariant of the pop loop: \<open>R\<close> is everything received so far, \<open>copied\<close> bytes of it, from
  offset \<open>len\<close> on, are in place, and the rest of it still lies where it was received.
\<close>

definition pop_inv :: "nat \<Rightarrow> nat \<Rightarrow> u8 list \<Rightarrow> 'z console_scheme \<Rightarrow> bool" where
  "pop_inv len c R s \<longleftrightarrow>
     length (receive_buf s) = RX_BUFFER_SIZE \<and> receive_pos s \<le> RX_BUFFER_SIZE \<and>
     length R = receive_pos s \<and> len + c \<le> length R \<and>
     take c (receive_buf s) = take c (drop len R) \<and>
     drop (len + c) (received s) = drop (len + c) R"

lemma pop_round:
  assumes inv: "pop_inv len c R s"
    and copy: "console_pop_copy len c s = (s', c')"
  defines "n \<equiv> receive_pos s - len"
  shows "pop_inv len c' R s'" "take n (receive_buf s') = drop len R" "receive_pos s' = receive_pos s"
    "c' = n"
proof -
  note i = inv [unfolded pop_inv_def]
  have s'_def: "s' = (if n \<noteq> 0 then sched_wake_tasks
      (s\<lparr>receive_buf := memmove c (c + len) (n - c) (receive_buf s)\<rparr>) else s)"
    and c'_def: "c' = (if n \<noteq> 0 then n else c)"
    using copy by (auto simp: console_pop_copy_def n_def Let_def split: if_splits)
  have cn: "c \<le> n" "len + n = receive_pos s" using i by (auto simp: n_def)
  then show c': "c' = n" by (auto simp: c'_def)
  show "receive_pos s' = receive_pos s" by (simp add: s'_def)
  have R: "take (n - c) (drop (c + len) (receive_buf s)) = drop (len + c) R"
  proof -
    have "drop (len + c) (take (receive_pos s) (receive_buf s)) = take (n - c) (drop (c + len) (receive_buf s))"
      using cn by (simp add: drop_take add.commute n_def)
    with i show ?thesis by (simp add: received_def)
  qed
  have split: "drop len R = take c (drop len R) @ drop (len + c) R"
    by (metis append_take_drop_id drop_drop add.commute)
  show t: "take n (receive_buf s') = drop len R"
  proof (cases "n = 0")
    case True
    then show ?thesis using i by (simp add: n_def)
  next
    case False
    have "take (c + (n - c)) (memmove c (c + len) (n - c) (receive_buf s)) =
        take c (receive_buf s) @ take (n - c) (drop (c + len) (receive_buf s))"
      using i cn by (intro take_drop_move) auto
    with False i cn R split show ?thesis by (simp add: s'_def)
  qed
  have d: "drop n (receive_buf s') = drop n (receive_buf s)" and l: "length (receive_buf s') = RX_BUFFER_SIZE"
    using take_drop_move(2,3) [of c "n - c" "receive_buf s" len] i cn by (auto simp: s'_def)
  show "pop_inv len c' R s'"
    using i cn t l by (auto simp: pop_inv_def c' received_def s'_def)
qed

lemma pop_arrivals:
  assumes "pop_inv len c R s" "len + c = length R"
  shows "\<exists>new. pop_inv len c (R @ new) (rx_burst bs s) \<and>
    R @ new = take RX_BUFFER_SIZE (R @ bs) \<and> receive_pos (rx_burst bs s) = receive_pos s + length new"
proof -
  note i = assms(1) [unfolded pop_inv_def]
  from rx_burst_appends [of s bs] i obtain new where
    n: "length (receive_buf (rx_burst bs s)) = RX_BUFFER_SIZE"
      "receive_pos (rx_burst bs s) = receive_pos s + length new"
      "received (rx_burst bs s) = received s @ new" "new = take (RX_BUFFER_SIZE - receive_pos s) bs"
      "receive_pos (rx_burst bs s) \<le> RX_BUFFER_SIZE" by blast
  have "take c (receive_buf (rx_burst bs s)) = take c (receive_buf s)"
  proof -
    have "take (receive_pos s) (received (rx_burst bs s)) = received s"
      using n(3) i by (simp add: received_def)
    then have "take (receive_pos s) (receive_buf (rx_burst bs s)) = take (receive_pos s) (receive_buf s)"
      using n(2) by (simp add: received_def)
    then have "take c (take (receive_pos s) (receive_buf (rx_burst bs s))) =
        take c (take (receive_pos s) (receive_buf s))" by simp
    then show ?thesis using i assms(2) by (simp add: min_absorb1)
  qed
  then have "pop_inv len c (R @ new) (rx_burst bs s)"
    using n i assms(2) by (auto simp: pop_inv_def received_def)
  then show ?thesis using n i by (intro exI [of _ new]) (auto simp: received_def)
qed

lemma console_pop_loop_keeps:
  assumes "pop_inv len c R s"
  shows "\<exists>k. received (console_pop_loop len c irqs s) =
    drop len (take RX_BUFFER_SIZE (R @ concat (take k irqs)))"
  using assms
proof (induction irqs arbitrary: c R s)
  case Nil
  note i = Nil [unfolded pop_inv_def]
  obtain s1 c1 where copy: "console_pop_copy len c s = (s1, c1)" by (cases "console_pop_copy len c s")
  note r = pop_round [OF Nil copy]
  show ?case
    using r(2) i by (subst console_pop_loop.simps) (auto simp: Let_def received_def copy)
next
  case (Cons bs irqs)
  define n where "n = receive_pos s - len"
  note i = Cons.prems [unfolded pop_inv_def]
  obtain s1 c1 where copy1: "console_pop_copy len c s = (s1, c1)" by (cases "console_pop_copy len c s")
  note r = pop_round [OF Cons.prems copy1, folded n_def]
  have copy: "console_pop_copy len c s = (s1, n)" using copy1 r(4) by simp
  have step: "console_pop_loop len c (bs # irqs) s =
      (if receive_pos s \<noteq> receive_pos (rx_burst bs s1) then console_pop_loop len n irqs (rx_burst bs s1)
       else (rx_burst bs s1)\<lparr>receive_pos := n\<rparr>)"
    by (subst console_pop_loop.simps) (simp add: Let_def copy rx_burst_def n_def)
  have inv1: "pop_inv len n R s1" using r(1,4) by simp
  have ln: "len + n = length R" using i by (simp add: n_def)
  from pop_arrivals [OF inv1 ln, of bs] obtain new where
    a: "pop_inv len n (R @ new) (rx_burst bs s1)" "R @ new = take RX_BUFFER_SIZE (R @ bs)"
      "receive_pos (rx_burst bs s1) = receive_pos s1 + length new" by blast
  show ?case
  proof (cases "new = []")
    case True
    then have "take n (receive_buf (rx_burst bs s1)) = drop len R"
      using a(1) ln by (auto simp: pop_inv_def)
    then have "received (console_pop_loop len c (bs # irqs) s) = drop len (take RX_BUFFER_SIZE (R @ concat (take 0 (bs # irqs))))"
      using True a(3) r(3) i by (simp add: step received_def)
    then show ?thesis by blast
  next
    case False
    from Cons.IH [OF a(1)] obtain k where
      "received (console_pop_loop len n irqs (rx_burst bs s1)) =
         drop len (take RX_BUFFER_SIZE (take RX_BUFFER_SIZE (R @ bs) @ concat (take k irqs)))"
      unfolding a(2) by blast
    also have "take RX_BUFFER_SIZE (take RX_BUFFER_SIZE (R @ bs) @ concat (take k irqs)) =
        take RX_BUFFER_SIZE (R @ concat (take (Suc k) (bs # irqs)))"
      by (auto simp: take_append min_def)
    finally have "received (console_pop_loop len c (bs # irqs) s) =
        drop len (take RX_BUFFER_SIZE (R @ concat (take (Suc k) (bs # irqs))))"
      using False a(3) r(3) by (simp only: step) simp
    then show ?thesis by blast
  qed
qed


lemma pop_inv_start:
  assumes "console_ok s" "len \<le> receive_pos s"
  shows "pop_inv len 0 (received s) s"
  using assms by (simp add: pop_inv_def console_ok_def received_def)

text \<open>The transmit side.\<close>

lemma queued_memmove:
  assumes "length buf = TX_BUFFER_SIZE" "tpos \<le> tmax" "tmax \<le> TX_BUFFER_SIZE"
  shows "take (tmax - tpos) (memmove 0 tpos (tmax - tpos) buf) = take (tmax - tpos) (drop tpos buf)"
    and "length (memmove 0 tpos (tmax - tpos) buf) = TX_BUFFER_SIZE"
  using assms by (simp_all add: memmove_def)

lemma queued_append:
  assumes "length buf = TX_BUFFER_SIZE" "tpos \<le> tmax" "tmax + length b \<le> TX_BUFFER_SIZE"
  shows "take (tmax + length b - tpos) (drop tpos (take tmax buf @ b @ drop (tmax + length b) buf)) =
    take (tmax - tpos) (drop tpos buf) @ b"
proof -
  have m: "length (take tmax buf) = tmax" using assms by simp
  have "take (tmax + length b - tpos) (drop tpos (take tmax buf @ b @ drop (tmax + length b) buf)) =
      drop tpos (take (tmax + length b) (take tmax buf @ b @ drop (tmax + length b) buf))"
    by (rule drop_take [symmetric])
  also have "take (tmax + length b) (take tmax buf @ b @ drop (tmax + length b) buf) = take tmax buf @ b"
    using m by (simp add: take_append)
  also have "drop tpos (take tmax buf @ b) = drop tpos (take tmax buf) @ b" using m assms(2) by simp
  also have "drop tpos (take tmax buf) = take (tmax - tpos) (drop tpos buf)" by (rule drop_take)
  finally show ?thesis .
qed

lemma console_sendf_step:
  fixes s :: "'z console_scheme"
  assumes "console_ok s"
    and "\<And>u. \<exists>b. command_encode_and_frame n ce args u = Ret b u \<and> length b \<le> ce_max_size ce \<and>
           b = f (next_sequence (u :: 'z console_scheme))"
  shows "\<exists>s'. console_sendf n ce args s = Ret () s' \<and> console_ok s' \<and>
    (queued s' = queued s @ f (next_sequence s) \<or>
     (queued s' = queued s \<and> TX_BUFFER_SIZE < length (queued s) + ce_max_size ce))"
proof -
  note ok = assms(1) [unfolded console_ok_def]
  define s0 where "s0 = (if transmit_pos s \<ge> transmit_max s
      then s\<lparr>transmit_max := 0, transmit_pos := 0\<rparr> else s)"
  have s0: "console_ok s0" "queued s0 = queued s" "next_sequence s0 = next_sequence s"
    using assms(1) by (auto simp: s0_def console_ok_def queued_def)
  note ok0 = s0(1) [unfolded console_ok_def]
  have lq: "length (queued s) = transmit_max s0 - transmit_pos s0"
    using ok0 unfolding s0(2) [symmetric] by (auto simp: queued_def)
  let ?full = "transmit_max s0 + ce_max_size ce > TX_BUFFER_SIZE"
  let ?over = "transmit_max s0 + ce_max_size ce - transmit_pos s0 > TX_BUFFER_SIZE"
  define s1 where "s1 = (if ?full
      then s0\<lparr>transmit_buf := memmove 0 (transmit_pos s0) (transmit_max s0 - transmit_pos s0) (transmit_buf s0),
              transmit_pos := 0, transmit_max := transmit_max s0 - transmit_pos s0\<rparr>
      else s0)"
  obtain b where b: "command_encode_and_frame n ce args s1 = Ret b s1" "length b \<le> ce_max_size ce"
    "b = f (next_sequence s1)" using assms(2) by blast
  have n1: "next_sequence s1 = next_sequence s" by (simp add: s1_def s0(3))
  have eq: "console_sendf n ce args s = (if ?full \<and> ?over then Ret () s0 else
      andThen (command_encode_and_frame n ce args s1)
        (\<lambda>b u. if transmit_max s1 + length b > TX_BUFFER_SIZE then Fault
          else Ret () (u\<lparr>transmit_buf := take (transmit_max s1) (transmit_buf u) @ b @
                    drop (transmit_max s1 + length b) (transmit_buf u),
                  transmit_max := transmit_max s1 + length b\<rparr>)))"
    unfolding console_sendf_def Let_def s0_def [symmetric] s1_def [symmetric] by (rule refl)
  show ?thesis
  proof (cases "?full \<and> ?over")
    case True
    then show ?thesis using s0 lq ok0 by (intro exI [of _ s0]) (auto simp: eq)
  next
    case False
    have s1: "console_ok s1" "queued s1 = queued s0"
      using ok0 queued_memmove [of "transmit_buf s0" "transmit_pos s0" "transmit_max s0"]
      by (auto simp: s1_def console_ok_def queued_def)
    have fits: "transmit_max s1 + length b \<le> TX_BUFFER_SIZE"
      using False b(2) ok0 by (auto simp: s1_def)
    note ok1 = s1(1) [unfolded console_ok_def]
    let ?s = "s1\<lparr>transmit_buf := take (transmit_max s1) (transmit_buf s1) @ b @
                    drop (transmit_max s1 + length b) (transmit_buf s1),
                  transmit_max := transmit_max s1 + length b\<rparr>"
    have "console_sendf n ce args s = Ret () ?s" using False fits by (auto simp: eq b(1))
    moreover have "console_ok ?s" using ok1 fits by (simp add: console_ok_def)
    moreover have "queued ?s = queued s1 @ b"
      using queued_append [of "transmit_buf s1" "transmit_pos s1" "transmit_max s1" b] ok1 fits
      by (simp add: queued_def)
    ultimately show ?thesis using s1(2) s0(2) b(3) n1 by auto
  qed
qed


section \<open>Properties of the console\<close>

text \<open>The start of the program, the buffers empty.\<close>

definition console_init :: "kconfig \<Rightarrow> console" where
  "console_init k = sched.extend (sched_init k)
     \<lparr>receive_buf = replicate RX_BUFFER_SIZE 0, receive_pos = 0,
      transmit_buf = replicate TX_BUFFER_SIZE 0, transmit_pos = 0, transmit_max = 0\<rparr>"

lemma console_init_ok: "console_ok (console_init k)"
  by (simp add: console_ok_def console_init_def sched.extend_def)

text \<open>
  C38: End to end, a block of commands from the host, with numbers and buffers as arguments, has exactly
  the effect of calling their handlers one after the other with the numbers the host encoded and with
  the length of and a pointer to each buffer, where the bytes of the buffer lie in the received block
  (a handler that is not allowed in the emergency stop is replaced by an \<open>is_shutdown\<close> report),
  followed by one ack; and the block is consumed whole.
\<close>

theorem find_and_dispatch_executes:
  assumes "list_all (valid_cmd ci) cmds"
    and "length (encode_cmds cmds) + MESSAGE_MIN \<le> MESSAGE_MAX"
    and "next_sequence s AND NOT MESSAGE_SEQ_MASK = MESSAGE_DEST" and "\<not> need_sync s"
    and "block = frame_block (next_sequence s) (encode_cmds cmds)"
  shows "command_find_and_dispatch enc ci (block @ rest) s =
      andThen (run_commands enc ci MESSAGE_HEADER_SIZE cmds
          (s\<lparr>need_valid := False, next_sequence := next_seq (next_sequence s)\<rparr>))
        (\<lambda>_ s. Ret (1, length block) (command_send_ack s)) \<and>
    (\<forall>(q, bs) \<in> set (cmd_buffers MESSAGE_HEADER_SIZE cmds). take (length bs) (drop q block) = bs)"
proof -
  obtain us r where b: "block = us @ encode_cmds cmds @ r" and us: "length us = MESSAGE_HEADER_SIZE"
    using frame_payload [of "next_sequence s" "encode_cmds cmds" "[]"] assms(5) by auto
  have "take (length bs) (drop q block) = bs" if "(q, bs) \<in> set (cmd_buffers MESSAGE_HEADER_SIZE cmds)" for q bs
    unfolding b by (rule cmd_buffers_inside) (use that us in simp)
  then show ?thesis
    using find_block_frame [OF assms(2-4), of rest] dispatch_block [OF assms(1)]
    by (auto simp: command_find_and_dispatch_def assms(5) length_frame_block)
qed

definition example_index :: "sched command_parser list" where
  "example_index =
     [\<lparr>cp_in_shutdown = False, cp_param_types = [], cp_func = (\<lambda>_ s. Ret () s)\<rparr>,
      \<lparr>cp_in_shutdown = False, cp_param_types = [PT_uint32],
       cp_func = (\<lambda>args s. Ret () (s\<lparr>timer_read_time := args ! 0\<rparr>))\<rparr>,
      \<lparr>cp_in_shutdown = False, cp_param_types = [PT_byte, PT_buffer],
       cp_func = (\<lambda>args s. Ret () (s\<lparr>hw := hw s @ [Spi_setup (args ! 0) (ucast (args ! 1)) (args ! 2)]\<rparr>))\<rparr>]"

theorem find_and_dispatch_executes_witness:
  "\<exists>s. command_find_and_dispatch of_nat example_index
       (frame_block 0x10 (encode_cmds [(1, [Num_arg 7]), (2, [Num_arg 4, Buf_arg [8, 9]])])) sched0 =
     Ret (1, 12) s \<and> timer_read_time s = 7 \<and> hw s = hw sched0 @ [Spi_setup 4 2 7]"
proof -
  let ?cs = "[(1, [Num_arg 7]), (2, [Num_arg 4, Buf_arg [8, 9]])]"
  have e: "encode_cmds ?cs = [1, 7, 2, 4, 2, 8, 9]" "length (encode_int 7) = 1" "length (encode_int 4) = 1"
    by (simp_all add: encode_int_def vlq_defs Let_def)
  have l: "length (encode_cmds ?cs) = 7" unfolding e by simp
  show ?thesis
    using find_and_dispatch_executes
      [where ci = example_index and cmds = ?cs and s = sched0 and enc = of_nat and rest = "[]", OF _ _ _ _ refl]
    unfolding l length_frame_block
    by (simp add: valid_cmd_def example_index_def int_param_def sched_init_def message_consts e
        sched_is_shutdown_def command_send_ack_def command_sendf_def)
qed

text \<open>
  In the emergency stop a block of ordinary commands does nothing but report: no handler
  runs, and each command is answered with one \<open>is_shutdown\<close> message.
\<close>

theorem shutdown_blocks_commands:
  assumes "list_all (valid_cmd ci) cmds" "\<forall>c \<in> set cmds. \<not> cp_in_shutdown (ci ! fst c)"
    and "sched_is_shutdown s" "\<not> in_sendf s" "msgend = length (us @ encode_cmds cmds)"
  shows "command_dispatch_from enc ci (us @ encode_cmds cmds @ r) msgend (length us) s =
    Ret () (s\<lparr>sent := sent s @ replicate (length cmds)
      (Response ''is_shutdown'' [static_string_id (kconf s) (shutdown_reason s)])\<rparr>)"
proof -
  have "run_commands enc ci p cmds s = Ret () (s\<lparr>sent := sent s @ replicate (length cmds)
      (Response ''is_shutdown'' [static_string_id (kconf s) (shutdown_reason s)])\<rparr>)" for p
    using assms(2-4)
  proof (induction cmds arbitrary: p s)
    case Nil
    then show ?case by simp
  next
    case (Cons c cs)
    let ?s = "sched_report_shutdown s"
    have s: "?s = s\<lparr>sent := sent s @ [Response ''is_shutdown'' [static_string_id (kconf s) (shutdown_reason s)]]\<rparr>"
      using Cons.prems(3) by (simp add: sched_report_shutdown_def command_sendf_def)
    have "run_commands enc ci p cs ?s = Ret () (?s\<lparr>sent := sent ?s @ replicate (length cs)
      (Response ''is_shutdown'' [static_string_id (kconf ?s) (shutdown_reason ?s)])\<rparr>)" for p
      using Cons.prems by (intro Cons.IH) (auto simp: s sched_is_shutdown_def)
    with Cons.prems show ?case by (cases c) (simp add: s)
  qed
  then show ?thesis using dispatch_from_runs [OF assms(1,5)] by simp
qed

theorem shutdown_blocks_commands_witness:
  "\<exists>s. command_dispatch_from (\<lambda>_. 0) example_index (encode_cmds [(1, [Num_arg 7])])
     (length (encode_cmds [(1, [Num_arg 7])])) 0
     (sched0\<lparr>shutdown_status := 1\<rparr>) = Ret () s \<and> timer_read_time s = 0 \<and>
     sent s = [Response ''is_shutdown'' [1]]"
  using shutdown_blocks_commands [of example_index "[(1, [Num_arg 7])]" "sched0\<lparr>shutdown_status := 1\<rparr>" _ "[]"
      "\<lambda>_. 0" "[]", OF _ _ _ _ refl]
  by (simp add: valid_cmd_def example_index_def int_param_def sched_init_def example_conf_def
      sched_is_shutdown_def)

text \<open>
  \<open>console_pop_input\<close> loses no byte to the receive interrupt: however many interrupts hit the
  unprotected copying in however many rounds, what remains is the received stream without its
  first \<open>len\<close> bytes, bytes being dropped only when the 192 byte buffer was full.
\<close>

theorem console_pop_input_keeps_stream:
  assumes "console_ok s" "len \<le> receive_pos s"
  shows "\<exists>k. received (console_pop_input len irqs s) =
    drop len (take RX_BUFFER_SIZE (received s @ concat (take k irqs)))"
  unfolding console_pop_input_def
  by (rule console_pop_loop_keeps) (rule pop_inv_start [OF assms])

theorem console_pop_input_keeps_stream_witness:
  "received (console_pop_input 1 [] (rx_burst [4, 5, 6] (console_init example_conf))) = [5, 6]"
proof -
  let ?s = "console_init example_conf"
  obtain new where n: "length (receive_buf (rx_burst [4, 5, 6] ?s)) = RX_BUFFER_SIZE"
    "receive_pos (rx_burst [4, 5, 6] ?s) = receive_pos ?s + length new"
    "received (rx_burst [4, 5, 6] ?s) = received ?s @ new"
    "new = take (RX_BUFFER_SIZE - receive_pos ?s) [4, 5, 6]"
    using rx_burst_appends [of ?s "[4, 5, 6]"] by (auto simp: console_init_def sched.extend_def)
  have i: "receive_pos ?s = 0" "received ?s = []"
    by (simp_all add: console_init_def sched.extend_def received_def)
  have t: "transmit_buf (rx_burst [4, 5, 6] ?s) = transmit_buf ?s"
    "transmit_pos (rx_burst [4, 5, 6] ?s) = 0" "transmit_max (rx_burst [4, 5, 6] ?s) = 0"
    by (simp_all add: rx_burst_def serial_rx_byte_def console_init_def sched.extend_def
        sched_wake_tasks_def Let_def)
  have "console_ok (rx_burst [4, 5, 6] ?s)"
    using n i t by (simp add: console_ok_def RX_BUFFER_SIZE_def console_init_def sched.extend_def)
  with console_pop_input_keeps_stream [of "rx_burst [4, 5, 6] ?s" 1 "[]"] n i show ?thesis
    by (simp add: RX_BUFFER_SIZE_def)
qed

text \<open>
  \<open>console_sendf\<close> queues a message of integer parameters whole or drops it whole. It never
  writes outside the transmit buffer, never damages the bytes still to be sent, and drops the
  message only when the bytes pending and \<open>max_size\<close> together exceed the buffer.
\<close>

theorem console_sendf_queues:
  assumes "console_ok s" "list_all int_param (ce_param_types ce)"
    and "length (ce_param_types ce) = length vs" "MESSAGE_MIN + 1 + 5 * length vs \<le> ce_max_size ce"
  shows "\<exists>s'. console_sendf n ce (map IntArg vs) s = Ret () s' \<and> console_ok s' \<and>
    (queued s' = queued s @ frame_block (next_sequence s)
        (ce_msg_id ce # concat (map encode_int (map2 (encode_arg n) (ce_param_types ce) vs))) \<or>
     (queued s' = queued s \<and> TX_BUFFER_SIZE < length (queued s) + ce_max_size ce))"
  by (rule console_sendf_step [OF assms(1)]) (use encode_int_message [OF assms(2-4)] in blast)

theorem console_sendf_queues_witness:
  "\<exists>s'. console_sendf 4 \<lparr>ce_msg_id = 3, ce_max_size = 11, ce_param_types = [PT_uint32]\<rparr> [IntArg 77]
     (console_init example_conf) = Ret () s' \<and> queued s' = frame_block 0x10 (3 # encode_int 77)"
proof -
  have q: "queued (console_init example_conf) = []"
    by (simp add: queued_def console_init_def sched.extend_def)
  show ?thesis
    using console_sendf_queues [OF console_init_ok,
        of "\<lparr>ce_msg_id = 3, ce_max_size = 11, ce_param_types = [PT_uint32]\<rparr>" "[77]" 4 example_conf]
    by (auto simp: int_param_def message_consts q TX_BUFFER_SIZE_def encode_arg_def)
      (simp add: console_init_def sched.extend_def sched_init_def MESSAGE_DEST_def)
qed

end
