(* ===== verification/Fifo_Contract.thy ===== *)
theory Fifo_Contract
  imports Firmware_Base
begin

text \<open>
  The contract of a first-in first-out queue, for the several queues of the program that keep it
  by different means (linked nodes, ring buffers, byte buffers with two indices), and what follows
  from the contract for every sequence of operations.
\<close>

text \<open>
  \<open>queue_run fresh push pop q i d q'\<close>: from \<open>q\<close>, some sequence of operations accepts the items
  \<open>i\<close>, delivers the items \<open>d\<close> and ends in \<open>q'\<close>. A linked item may be pushed only when it is
  \<open>fresh\<close>, that is, in no queue.
\<close>

inductive queue_run ::
    "('a \<Rightarrow> 'q \<Rightarrow> bool) \<Rightarrow> ('a \<Rightarrow> 'q \<Rightarrow> 'q option) \<Rightarrow> ('q \<Rightarrow> ('a \<times> 'q) option) \<Rightarrow>
     'q \<Rightarrow> 'a list \<Rightarrow> 'a list \<Rightarrow> 'q \<Rightarrow> bool"
  for fresh push pop where
  run_done: "queue_run fresh push pop q [] [] q"
| run_push: "fresh x q \<Longrightarrow> push x q = Some q1 \<Longrightarrow> queue_run fresh push pop q1 i d q2 \<Longrightarrow>
    queue_run fresh push pop q (x # i) d q2"
| run_pop: "pop q = Some (x, q1) \<Longrightarrow> queue_run fresh push pop q1 i d q2 \<Longrightarrow>
    queue_run fresh push pop q i (x # d) q2"

inductive_cases queue_run_nothing: "queue_run fresh push pop q [] [] q'"

locale fifo =
  fixes repr :: "'q \<Rightarrow> 'a list \<Rightarrow> bool"
    and fresh :: "'a \<Rightarrow> 'q \<Rightarrow> bool"
    and push :: "'a \<Rightarrow> 'q \<Rightarrow> 'q option"
    and pop :: "'q \<Rightarrow> ('a \<times> 'q) option"
  assumes push_some: "repr q xs \<Longrightarrow> fresh x q \<Longrightarrow> push x q = Some q' \<Longrightarrow> repr q' (xs @ [x])"
    and pop_some: "repr q xs \<Longrightarrow> pop q = Some (x, q') \<Longrightarrow> \<exists>ys. xs = x # ys \<and> repr q' ys"
    and pop_none: "repr q xs \<Longrightarrow> pop q = None \<longleftrightarrow> xs = []"

context fifo
begin

lemma pop_cons: "repr q (x # xs) \<Longrightarrow> \<exists>q'. pop q = Some (x, q') \<and> repr q' xs"
  using pop_some [of q "x # xs"] pop_none [of q "x # xs"] by (cases "pop q") fastforce+

lemma run_order:
  "queue_run fresh push pop q i d q' \<Longrightarrow> repr q xs \<Longrightarrow> \<exists>ys. repr q' ys \<and> xs @ i = d @ ys"
proof (induction arbitrary: xs rule: queue_run.induct)
  case (run_done q)
  then show ?case by simp
next
  case (run_push x q q1 i d q2)
  from push_some [OF run_push.prems run_push.hyps(1,2)] run_push.IH show ?case by fastforce
next
  case (run_pop q x q1 i d q2)
  from pop_some [OF run_pop.prems run_pop.hyps(1)] run_pop.IH show ?case by fastforce
qed

lemma run_delivers_prefix:
  "queue_run fresh push pop q i d q' \<Longrightarrow> repr q [] \<Longrightarrow> \<exists>rest. i = d @ rest"
  using run_order [of q i d q' "[]"] by auto

end

end
