(* ===== verification/Basecmd.thy ===== *)
theory Basecmd
  imports Console Fifo_Contract
begin

text \<open>
  \<open>src/basecmd.c\<close>: the memory allocator of the configuration phase, the pool of move nodes and the
  queues made of them, the object ids, the configuration checksum and the load statistics.
\<close>

section \<open>State\<close>

text \<open>The \<open>type\<close> pointer of an object: the address of its configuration command.\<close>

datatype oid_type =
    Stepper_type
  | Trsync_type
  | Endstop_type
  | Digital_out_type
  | Analog_in_type
  | Pwm_out_type
  | Buttons_type
  | Counter_type
  | Tmcuart_type
  | Spi_type
  | Spi_shutdown_type
  | Thermocouple_type
  | Adxl345_type
  | I2c_type
  | Neopixel_type

record oid_s =
  oid_type_of :: "oid_type option"
  oid_data :: "nat option"

text \<open>
  Move nodes are the indices of \<open>move_list\<close>; \<open>move_next\<close> is the \<open>next\<close> field of each. \<open>oids\<close> is
  \<open>None\<close> while the pointer is \<open>NULL\<close>. The bounds of the dynamic memory come from the board.
\<close>

record basecmd = console +
  dynmem_start :: nat
  dynmem_end :: nat
  ptr_align :: nat
  sizeof_move_node :: nat
  sizeof_oid_s :: nat
  alloc_end :: nat
  move_free_list :: "nat option"
  move_next :: "nat \<Rightarrow> nat option"
  move_list :: "nat option"
  move_count :: nat
  move_item_size :: nat
  oids :: "oid_s list option"
  oid_count :: u8
  config_crc :: u32
  stats_send_time :: u32
  stats_send_time_high :: u32
  stats_count :: u32
  stats_sum :: u32
  stats_sumsq :: u32

definition shutdown_if :: "bool \<Rightarrow> string \<Rightarrow> 's \<Rightarrow> (unit, 's) outcome" where
  "shutdown_if c reason s = (if c then Shutdown reason s else Ret () s)"

section \<open>Allocation\<close>

definition ALIGN :: "nat \<Rightarrow> nat \<Rightarrow> nat" where
  "ALIGN x a = (x + a - 1) div a * a"

definition alloc_init :: "'z basecmd_scheme \<Rightarrow> 'z basecmd_scheme" where
  "alloc_init s = s\<lparr>alloc_end := ALIGN (dynmem_start s) (ptr_align s)\<rparr>"

definition alloc_chunk :: "nat \<Rightarrow> 'z basecmd_scheme \<Rightarrow> (nat, 'z basecmd_scheme) outcome" where
  "alloc_chunk sz s =
     (if alloc_end s + sz > dynmem_end s then Shutdown ''alloc_chunk failed'' s
      else Ret (alloc_end s) (s\<lparr>alloc_end := alloc_end s + ALIGN sz (ptr_align s)\<rparr>))"

text \<open>The loop of \<open>alloc_chunks\<close>: how many chunks fit, at most \<open>count\<close>.\<close>

fun can_alloc_chunks :: "nat \<Rightarrow> nat \<Rightarrow> nat \<Rightarrow> nat \<Rightarrow> nat" where
  "can_alloc_chunks sz p dyn_end 0 = 0"
| "can_alloc_chunks sz p dyn_end (Suc count) =
     (if p + sz \<le> dyn_end then Suc (can_alloc_chunks sz (p + sz) dyn_end count) else 0)"

definition alloc_chunks ::
    "nat \<Rightarrow> nat \<Rightarrow> 'z basecmd_scheme \<Rightarrow> (nat \<times> nat, 'z basecmd_scheme) outcome" where
  "alloc_chunks sz count s =
     (let can_alloc = can_alloc_chunks sz (alloc_end s) (dynmem_end s) count in
      if can_alloc = 0 then Shutdown ''alloc_chunks failed'' s
      else andThen (alloc_chunk (can_alloc * sz) s) (\<lambda>p s. Ret (p, can_alloc) s))"

section \<open>The move queue\<close>

definition is_finalized :: "'z basecmd_scheme \<Rightarrow> bool" where
  "is_finalized s \<longleftrightarrow> move_count s \<noteq> 0"

definition set_move_next :: "nat \<Rightarrow> nat option \<Rightarrow> 'z basecmd_scheme \<Rightarrow> 'z basecmd_scheme" where
  "set_move_next m n s = s\<lparr>move_next := (move_next s)(m := n)\<rparr>"

definition move_free :: "nat \<Rightarrow> 'z basecmd_scheme \<Rightarrow> 'z basecmd_scheme" where
  "move_free m s = (set_move_next m (move_free_list s) s)\<lparr>move_free_list := Some m\<rparr>"

definition move_alloc :: "'z basecmd_scheme \<Rightarrow> (nat, 'z basecmd_scheme) outcome" where
  "move_alloc s =
     (case move_free_list s of
        None \<Rightarrow> Shutdown ''Move queue overflow'' s
      | Some mf \<Rightarrow> Ret mf (s\<lparr>move_free_list := move_next s mf\<rparr>))"

record move_queue_head =
  mq_first :: "nat option"
  mq_last :: "nat option"

definition move_queue_empty :: "move_queue_head \<Rightarrow> bool" where
  "move_queue_empty mh \<longleftrightarrow> mq_first mh = None"

definition move_queue_first :: "move_queue_head \<Rightarrow> nat option" where
  "move_queue_first mh = mq_first mh"

text \<open>The queue head is returned updated; the flag says that the queue was empty.\<close>

definition move_queue_push ::
    "nat \<Rightarrow> move_queue_head \<Rightarrow> 'z basecmd_scheme
       \<Rightarrow> (bool \<times> move_queue_head, 'z basecmd_scheme) outcome" where
  "move_queue_push m mh s =
     (let s = set_move_next m None s in
      if mq_first mh \<noteq> None then
        (case mq_last mh of
           None \<Rightarrow> Fault
         | Some l \<Rightarrow> Ret (False, mh\<lparr>mq_last := Some m\<rparr>) (set_move_next l (Some m) s))
      else Ret (True, mh\<lparr>mq_last := Some m, mq_first := Some m\<rparr>) s)"

definition move_queue_pop ::
    "move_queue_head \<Rightarrow> 'z basecmd_scheme \<Rightarrow> (nat \<times> move_queue_head, 'z basecmd_scheme) outcome" where
  "move_queue_pop mh s =
     (case mq_first mh of
        None \<Rightarrow> Fault
      | Some mn \<Rightarrow> Ret (mn, mh\<lparr>mq_first := move_next s mn\<rparr>) s)"

definition move_queue_clear :: "move_queue_head \<Rightarrow> move_queue_head" where
  "move_queue_clear mh = mh\<lparr>mq_first := None\<rparr>"

definition move_queue_setup ::
    "nat \<Rightarrow> 'z basecmd_scheme \<Rightarrow> (move_queue_head, 'z basecmd_scheme) outcome" where
  "move_queue_setup sz s =
     (if sz > 255 \<or> is_finalized s then Shutdown ''Invalid move request size'' s
      else Ret \<lparr>mq_first = None, mq_last = None\<rparr>
             (if sz > move_item_size s then s\<lparr>move_item_size := sz\<rparr> else s))"

definition move_reset :: "'z basecmd_scheme \<Rightarrow> 'z basecmd_scheme" where
  "move_reset s =
     (if move_count s = 0 then s
      else s\<lparr>move_next := (\<lambda>i. if i < move_count s - 1 then Some (i + 1)
                               else if i = move_count s - 1 then None else move_next s i),
             move_free_list := Some 0\<rparr>)"

definition move_finalize :: "'z basecmd_scheme \<Rightarrow> (unit, 'z basecmd_scheme) outcome" where
  "move_finalize s =
     andThen (shutdown_if (is_finalized s) ''Already finalized'' s) (\<lambda>_ s.
     andThen (move_queue_setup (sizeof_move_node s) s) (\<lambda>_ s.
     andThen (alloc_chunks (move_item_size s) 1024 s) (\<lambda>(p, n) s.
       Ret () (move_reset (s\<lparr>move_list := Some p, move_count := n\<rparr>)))))"

section \<open>Object ids\<close>

text \<open>
  \<open>oid_lookup\<close> returns the data pointer of the object. Reading \<open>oids[oid]\<close> through \<open>NULL\<close> or past
  the array is a \<open>Fault\<close>.
\<close>

definition oid_at :: "u8 \<Rightarrow> 'z basecmd_scheme \<Rightarrow> (oid_s, 'z basecmd_scheme) outcome" where
  "oid_at oid s =
     (case oids s of
        None \<Rightarrow> Fault
      | Some os \<Rightarrow> if unat oid < length os then Ret (os ! unat oid) s else Fault)"

definition oid_lookup ::
    "u8 \<Rightarrow> oid_type \<Rightarrow> 'z basecmd_scheme \<Rightarrow> (nat option, 'z basecmd_scheme) outcome" where
  "oid_lookup oid type s =
     (if oid \<ge> oid_count s then Shutdown ''Invalid oid type'' s
      else andThen (oid_at oid s) (\<lambda>os s.
        if Some type \<noteq> oid_type_of os then Shutdown ''Invalid oid type'' s
        else Ret (oid_data os) s))"

definition oid_alloc ::
    "u8 \<Rightarrow> oid_type \<Rightarrow> nat \<Rightarrow> 'z basecmd_scheme \<Rightarrow> (nat, 'z basecmd_scheme) outcome" where
  "oid_alloc oid type sz s =
     (if oid \<ge> oid_count s then Shutdown ''Can't assign oid'' s
      else andThen (oid_at oid s) (\<lambda>os s.
        if oid_type_of os \<noteq> None \<or> is_finalized s then Shutdown ''Can't assign oid'' s
        else
          andThen (alloc_chunk sz
                     (s\<lparr>oids := map_option (\<lambda>xs. xs[unat oid := (xs ! unat oid)\<lparr>oid_type_of := Some type\<rparr>]) (oids s)\<rparr>))
            (\<lambda>data s. Ret data
               (s\<lparr>oids := map_option (\<lambda>xs. xs[unat oid := (xs ! unat oid)\<lparr>oid_data := Some data\<rparr>]) (oids s)\<rparr>))))"

text \<open>\<open>oid_next\<close>, from the value of \<open>*i\<close>; the object found, or \<open>None\<close> for the \<open>NULL\<close> at the end.\<close>

function oid_next ::
    "u8 \<Rightarrow> oid_type \<Rightarrow> 'z basecmd_scheme \<Rightarrow> (u8 option, 'z basecmd_scheme) outcome" where
  "oid_next oid type s =
     (if oid + 1 \<ge> oid_count s then Ret None s
      else (case oid_at (oid + 1) s of
              Ret os s' \<Rightarrow> if oid_type_of os = Some type then Ret (Some (oid + 1)) s
                          else oid_next (oid + 1) type s
            | _ \<Rightarrow> Fault))"
  by pat_completeness auto

text \<open>
  The counter of \<open>foreach_oid\<close> starts at 255 and wraps to 0; from then on it stays below
  \<open>oid_count\<close>, which fits the same byte, so it never wraps again.
\<close>

lemma oid_step_down:
  "\<not> n \<le> i + 1 \<Longrightarrow> unat n - unat (i + 1) < (if i = 255 then unat n + 1 else unat n - unat i)"
  for i n :: u8
proof -
  assume a: "\<not> n \<le> i + 1"
  then have l: "unat (i + 1) < unat n" by (simp add: word_le_nat_alt)
  show ?thesis
  proof (cases "i = 255")
    case False
    have "i + 1 \<noteq> 0"
    proof
      assume "i + 1 = 0"
      then have "i = - 1" by (simp add: eq_neg_iff_add_eq_0)
      with False show False by simp
    qed
    then have "unat (i + 1) = unat i + 1" using unatSuc [of i] by (simp add: add.commute)
    with l False show ?thesis by simp
  qed (use l in simp)
qed

lemma next_not_max: "\<not> n \<le> i + 1 \<Longrightarrow> i + 1 \<noteq> (255 :: u8)" for n i :: u8
proof
  assume a: "\<not> n \<le> i + 1" "i + 1 = 255"
  have "unat n < 2 ^ LENGTH(8)" by (rule unsigned_less)
  then have "n \<le> 255" by (simp add: word_le_nat_alt)
  with a show False by simp
qed

termination oid_next
  by (relation "measure (\<lambda>(i, type, s). if i = 255 then unat (oid_count s) + 1
        else unat (oid_count s) - unat i)")
    (auto dest!: oid_step_down simp: next_not_max)

declare oid_next.simps [simp del]

definition command_allocate_oids ::
    "u32 list \<Rightarrow> 'z basecmd_scheme \<Rightarrow> (unit, 'z basecmd_scheme) outcome" where
  "command_allocate_oids args s =
     andThen (shutdown_if (oids s \<noteq> None) ''oids already allocated'' s) (\<lambda>_ s.
       let count = ucast (args ! 0) :: u8 in
       andThen (alloc_chunk (sizeof_oid_s s * unat count) s) (\<lambda>p s.
         Ret () (s\<lparr>oids := Some (replicate (unat count) \<lparr>oid_type_of = None, oid_data = None\<rparr>),
                   oid_count := count\<rparr>)))"

section \<open>Configuration commands\<close>

definition command_get_config ::
    "u32 list \<Rightarrow> 'z basecmd_scheme \<Rightarrow> (unit, 'z basecmd_scheme) outcome" where
  "command_get_config args s =
     Ret () (command_sendf (Response ''config''
       [c_bool (is_finalized s), config_crc s, c_bool (sched_is_shutdown s),
        of_nat (move_count s)]) s)"

definition command_finalize_config ::
    "u32 list \<Rightarrow> 'z basecmd_scheme \<Rightarrow> (unit, 'z basecmd_scheme) outcome" where
  "command_finalize_config args s =
     andThen (move_finalize s) (\<lambda>_ s. Ret () (s\<lparr>config_crc := args ! 0\<rparr>))"

definition config_reset :: "u32 list \<Rightarrow> 'z basecmd_scheme \<Rightarrow> (unit, 'z basecmd_scheme) outcome" where
  "config_reset args s =
     andThen (shutdown_if (\<not> sched_is_shutdown s) ''config_reset only available when shutdown'' s)
       (\<lambda>_ s. sched_clear_shutdown (sched_timer_reset (alloc_init
          (s\<lparr>config_crc := 0, oid_count := 0, oids := None, move_free_list := None,
             move_list := None, move_count := 0, move_item_size := 0\<rparr>))))"

section \<open>Timing and load statistics\<close>

definition command_get_clock ::
    "u32 list \<Rightarrow> 'z basecmd_scheme \<Rightarrow> (unit, 'z basecmd_scheme) outcome" where
  "command_get_clock args s = Ret () (command_sendf (Response ''clock'' [timer_read_time s]) s)"

definition command_get_uptime ::
    "u32 list \<Rightarrow> 'z basecmd_scheme \<Rightarrow> (unit, 'z basecmd_scheme) outcome" where
  "command_get_uptime args s =
     (let cur = timer_read_time s;
          high = stats_send_time_high s + c_bool (cur < stats_send_time s)
      in Ret () (command_sendf (Response ''uptime'' [high, cur]) s))"

definition SUMSQ_BASE :: u32 where "SUMSQ_BASE = 256"

definition stats_nextsumsq :: "u32 \<Rightarrow> u32 \<Rightarrow> u32" where
  "stats_nextsumsq sumsq diff =
     (let nextsumsq =
            (if diff \<le> 0xffff then sumsq + div_round_up (diff * diff) SUMSQ_BASE
             else if diff \<le> 0xfffff then sumsq + div_round_up diff SUMSQ_BASE * diff
             else 0xffffffff)
      in if nextsumsq < sumsq then 0xffffffff else nextsumsq)"

definition stats_update :: "u32 \<Rightarrow> u32 \<Rightarrow> 'z basecmd_scheme \<Rightarrow> 'z basecmd_scheme" where
  "stats_update start cur s =
     (let diff = cur - start;
          s = s\<lparr>stats_count := stats_count s + 1, stats_sum := stats_sum s + diff,
                stats_sumsq := stats_nextsumsq (stats_sumsq s) diff\<rparr>
      in if timer_is_before cur (stats_send_time s + timer_from_us s 5000000) then s
         else
           let s = command_sendf (Response ''stats'' [stats_count s, stats_sum s, stats_sumsq s]) s;
               s = (if cur < stats_send_time s
                    then s\<lparr>stats_send_time_high := stats_send_time_high s + 1\<rparr> else s)
           in s\<lparr>stats_send_time := cur, stats_count := 0, stats_sum := 0, stats_sumsq := 0\<rparr>)"

section \<open>Miscellaneous commands\<close>

definition command_emergency_stop ::
    "u32 list \<Rightarrow> 'z basecmd_scheme \<Rightarrow> (unit, 'z basecmd_scheme) outcome" where
  "command_emergency_stop args s = sched_shutdown ''Command request'' s"

definition command_clear_shutdown ::
    "u32 list \<Rightarrow> 'z basecmd_scheme \<Rightarrow> (unit, 'z basecmd_scheme) outcome" where
  "command_clear_shutdown args s = sched_clear_shutdown s"

text \<open>
  \<open>command_identify\<close>: the slice of the identify data it sends; \<open>isize\<close> is the sz of the data.
\<close>

definition identify_count :: "u32 \<Rightarrow> u32 \<Rightarrow> u32 \<Rightarrow> u32" where
  "identify_count isize offset arg1 =
     (let count = ucast (ucast arg1 :: u8) :: u32 in
      if offset \<ge> isize then 0
      else if offset + count > isize then ucast (ucast (isize - offset) :: u8) else count)"

definition command_identify ::
    "u8 list \<Rightarrow> u32 list \<Rightarrow> 'z basecmd_scheme \<Rightarrow> (unit, 'z basecmd_scheme) outcome" where
  "command_identify identify_data args s =
     (let offset = args ! 0;
          count = identify_count (of_nat (length identify_data)) offset (args ! 1)
      in Ret () (command_sendf (Response ''identify_response''
            (offset # map ucast (take (unat count) (drop (unat offset) identify_data)))) s))"

section \<open>Move queues as lists\<close>

definition mq_list :: "move_queue_head \<times> (nat \<Rightarrow> nat option) \<Rightarrow> nat list \<Rightarrow> bool" where
  "mq_list q ms \<longleftrightarrow>
     (case q of (mh, nx) \<Rightarrow> chain nx (mq_first mh) ms \<and> (ms \<noteq> [] \<longrightarrow> mq_last mh = Some (last ms)))"

text \<open>The operations on a queue head and the link fields alone.\<close>

definition mq_push ::
    "nat \<Rightarrow> move_queue_head \<times> (nat \<Rightarrow> nat option) \<Rightarrow> (move_queue_head \<times> (nat \<Rightarrow> nat option)) option"
  where
  "mq_push m q =
     (case q of (mh, nx) \<Rightarrow>
        if mq_first mh \<noteq> None then
          (case mq_last mh of
             None \<Rightarrow> None
           | Some l \<Rightarrow> Some (mh\<lparr>mq_last := Some m\<rparr>, nx(m := None, l := Some m)))
        else Some (mh\<lparr>mq_last := Some m, mq_first := Some m\<rparr>, nx(m := None)))"

definition mq_pop ::
    "move_queue_head \<times> (nat \<Rightarrow> nat option) \<Rightarrow> (nat \<times> move_queue_head \<times> (nat \<Rightarrow> nat option)) option"
  where
  "mq_pop q =
     (case q of (mh, nx) \<Rightarrow>
        (case mq_first mh of None \<Rightarrow> None | Some m \<Rightarrow> Some (m, mh\<lparr>mq_first := nx m\<rparr>, nx)))"

definition mq_fresh :: "nat \<Rightarrow> move_queue_head \<times> (nat \<Rightarrow> nat option) \<Rightarrow> bool" where
  "mq_fresh m q \<longleftrightarrow> (\<forall>ms. mq_list q ms \<longrightarrow> m \<notin> set ms)"

lemma move_queue_push_eq:
  "move_queue_push m mh s =
     (case mq_push m (mh, move_next s) of
        None \<Rightarrow> Fault
      | Some (mh', nx) \<Rightarrow> Ret (mq_first mh = None, mh') (s\<lparr>move_next := nx\<rparr>))"
  by (auto simp: move_queue_push_def mq_push_def set_move_next_def Let_def split: option.splits)

lemma move_queue_pop_eq:
  "move_queue_pop mh s =
     (case mq_pop (mh, move_next s) of
        None \<Rightarrow> Fault
      | Some (m, mh', nx) \<Rightarrow> Ret (m, mh') s)"
  by (auto simp: move_queue_pop_def mq_pop_def split: option.splits)

lemma mq_list_functional: "mq_list q ms \<Longrightarrow> mq_list q ks \<Longrightarrow> ms = ks"
  by (auto simp: mq_list_def split: prod.splits intro: chain_functional)

lemma mq_push_list:
  assumes "mq_list q ms" "m \<notin> set ms" "mq_push m q = Some q'"
  shows "mq_list q' (ms @ [m])"
proof (cases q)
  case (Pair mh nx)
  show ?thesis
  proof (cases "ms = []")
    case True
    with assms Pair show ?thesis by (auto simp: mq_list_def mq_push_def)
  next
    case False
    then obtain us l where ms: "ms = us @ [l]" by (metis append_butlast_last_id)
    have c: "chain nx (mq_first mh) ms" using assms(1) Pair by (simp add: mq_list_def)
    then have "distinct ms" by (rule chain_distinct)
    moreover have "mq_first mh \<noteq> None" using c False by (cases ms) auto
    ultimately show ?thesis using assms Pair c by (auto simp: mq_list_def mq_push_def ms)
  qed
qed

interpretation move_queue: fifo mq_list mq_fresh mq_push mq_pop
proof
  fix q ms m q'
  assume "mq_list q ms" "mq_fresh m q" "mq_push m q = Some q'"
  then show "mq_list q' (ms @ [m])" by (intro mq_push_list) (auto simp: mq_fresh_def)
next
  fix q ms m q'
  assume "mq_list q ms" "mq_pop q = Some (m, q')"
  then show "\<exists>ys. ms = m # ys \<and> mq_list q' ys"
    by (cases ms) (auto simp: mq_list_def mq_pop_def split: option.splits prod.splits)
next
  fix q ms
  assume "mq_list q ms"
  then show "mq_pop q = None \<longleftrightarrow> ms = []"
    by (cases ms) (auto simp: mq_list_def mq_pop_def split: prod.splits)
qed

text \<open>The pool: the free nodes \<open>fs\<close>.\<close>

definition free_nodes :: "'z basecmd_scheme \<Rightarrow> nat list \<Rightarrow> bool" where
  "free_nodes s fs \<longleftrightarrow> chain (move_next s) (move_free_list s) fs"

lemma chain_upt:
  assumes "\<And>i. a \<le> i \<Longrightarrow> i < n - 1 \<Longrightarrow> nx i = Some (i + 1)" "nx (n - 1) = None" "a < n"
  shows "chain nx (Some a) [a..<n]"
  using assms
proof (induction "n - a" arbitrary: a)
  case 0
  then show ?case by simp
next
  case (Suc k)
  show ?case
  proof (cases "a = n - 1")
    case True
    then have "[a..<n] = [a]" using Suc.prems(3) by (simp add: upt_conv_Cons)
    with True Suc.prems show ?thesis by simp
  next
    case False
    have "chain nx (Some (a + 1)) [a + 1..<n]"
      using Suc.hyps(2) Suc.prems False by (intro Suc.hyps(1)) auto
    moreover have "nx a = Some (a + 1)" using Suc.prems False by simp
    ultimately show ?thesis using Suc.prems(3) by (simp add: upt_conv_Cons)
  qed
qed

lemma move_reset_free:
  "move_count s \<noteq> 0 \<Longrightarrow> free_nodes (move_reset s) [0..<move_count s]"
  unfolding free_nodes_def move_reset_def by (simp, rule chain_upt) auto

lemma move_alloc_step:
  assumes "free_nodes s fs"
  shows "(fs = [] \<and> move_alloc s = Shutdown ''Move queue overflow'' s) \<or>
    (\<exists>m fs' s'. fs = m # fs' \<and> move_alloc s = Ret m s' \<and> free_nodes s' fs' \<and>
       s' = s\<lparr>move_free_list := move_free_list s'\<rparr>)"
  using assms by (cases fs) (auto simp: free_nodes_def move_alloc_def)

lemma move_free_step:
  "free_nodes s fs \<Longrightarrow> m \<notin> set fs \<Longrightarrow> free_nodes (move_free m s) (m # fs)"
  by (simp add: free_nodes_def move_free_def set_move_next_def)

section \<open>Allocation bounds\<close>

lemma can_alloc_chunks_eq:
  "0 < sz \<Longrightarrow> p \<le> e \<Longrightarrow> can_alloc_chunks sz p e count = min count ((e - p) div sz)"
proof (induction count arbitrary: p)
  case 0
  then show ?case by simp
next
  case (Suc count)
  show ?case
  proof (cases "p + sz \<le> e")
    case True
    then have "(e - p) div sz = Suc ((e - (p + sz)) div sz)"
      using Suc.prems by (simp add: le_div_geq)
    with True Suc.IH [of "p + sz"] Suc.prems show ?thesis by simp
  next
    case False
    then have "(e - p) div sz = 0" using Suc.prems by (intro div_less) linarith
    with False show ?thesis by simp
  qed
qed

section \<open>Statistics\<close>

text \<open>What one measurement adds to the sum of squares, without rounding of the words.\<close>

definition sq_part :: "nat \<Rightarrow> nat" where
  "sq_part d =
     (if d \<le> 0xffff then (d * d + 255) div 256
      else if d \<le> 0xfffff then (d + 255) div 256 * d
      else 0xffffffff)"

lemma unat_plus_exact: "unat a + unat b < 2 ^ 32 \<Longrightarrow> unat (a + b) = unat a + unat b" for a b :: u32
  by (subst unat_plus_if_size) (simp add: word_size)

lemma unat_times_exact: "unat a * unat b < 2 ^ 32 \<Longrightarrow> unat (a * b) = unat a * unat b" for a b :: u32
  by (subst unat_mult_lem [THEN iffD1]) simp_all

lemma unat_bound32: "unat x < 2 ^ 32" for x :: u32
proof -
  have "unat x < 2 ^ LENGTH(32)" by (rule unsigned_less)
  then show ?thesis by simp
qed

lemma div_round_up_256:
  "unat n + 255 < 2 ^ 32 \<Longrightarrow> unat (div_round_up n SUMSQ_BASE) = (unat n + 255) div 256" for n :: u32
proof -
  assume a: "unat n + 255 < 2 ^ 32"
  have k: "unat (0xff :: u32) = 255" "unat (0x100 :: u32) = 256" by simp_all
  have "n + 0x100 - 1 = n + 0xff" by simp
  then show ?thesis using unat_plus_exact [of n "0xff"] a
    by (simp only: div_round_up_def SUMSQ_BASE_def unat_div k)
qed

lemma stats_part_exact:
  fixes d :: u32
  shows "d \<le> 0xffff \<Longrightarrow> unat (div_round_up (d * d) SUMSQ_BASE) = sq_part (unat d)"
    and "\<not> d \<le> 0xffff \<Longrightarrow> d \<le> 0xfffff \<Longrightarrow>
      unat (div_round_up d SUMSQ_BASE * d) = sq_part (unat d)"
proof -
  assume "d \<le> 0xffff"
  then have d: "unat d \<le> 0xffff" by (simp add: word_le_nat_alt)
  have "unat d * unat d \<le> 0xffff * 0xffff" using d d by (rule mult_le_mono)
  then have m: "unat (d * d) = unat d * unat d" "unat d * unat d + 255 < 2 ^ 32"
    by (simp_all add: unat_times_exact)
  then show "unat (div_round_up (d * d) SUMSQ_BASE) = sq_part (unat d)"
    using d by (simp add: div_round_up_256 sq_part_def)
next
  assume "\<not> d \<le> 0xffff" "d \<le> 0xfffff"
  then have d: "\<not> unat d \<le> 0xffff" "unat d \<le> 0xfffff" by (simp_all add: word_le_nat_alt)
  then have r: "unat (div_round_up d SUMSQ_BASE) = (unat d + 255) div 256"
    by (simp add: div_round_up_256)
  have "(unat d + 255) div 256 \<le> 4096" using d(2) by simp
  then have "(unat d + 255) div 256 * unat d \<le> 4096 * 0xfffff" using d(2) by (rule mult_le_mono)
  then have "unat (div_round_up d SUMSQ_BASE * d) = (unat d + 255) div 256 * unat d"
    using unat_times_exact [of "div_round_up d SUMSQ_BASE" d] by (simp add: r)
  with d show "unat (div_round_up d SUMSQ_BASE * d) = sq_part (unat d)"
    by (simp add: sq_part_def)
qed

lemma add_saturates:
  "unat (if a + b < a then 0xffffffff else a + b) = min 0xffffffff (unat a + unat b)" for a b :: u32
proof (cases "unat a + unat b < 2 ^ 32")
  case True
  then have "unat (a + b) = unat a + unat b" by (rule unat_plus_exact)
  with True show ?thesis by (simp add: word_less_nat_alt)
next
  case False
  have l: "unat a < 2 ^ 32" "unat b < 2 ^ 32" by (rule unat_bound32)+
  have "unat (a + b) = unat a + unat b - 2 ^ 32"
    using False by (subst unat_plus_if_size) (simp add: word_size)
  with False l show ?thesis by (simp add: word_less_nat_alt)
qed

section \<open>Properties of the infrastructure\<close>

text \<open>
  C39: A move queue is first-in first-out: through every sequence of \<open>move_queue_push\<close> (of nodes
  that are in no queue) and \<open>move_queue_pop\<close>, the nodes delivered and the nodes still linked are
  together the nodes pushed, in their order.
\<close>

theorem move_queue_fifo:
  assumes "queue_run mq_fresh mq_push mq_pop (mh, move_next s) i d q" "mq_list (mh, move_next s) ms"
  shows "\<exists>rest. mq_list q rest \<and> ms @ i = d @ rest"
  using assms by (rule move_queue.run_order)

definition empty_mq :: move_queue_head where
  "empty_mq = \<lparr>mq_first = None, mq_last = None\<rparr>"

definition basecmd_init :: "kconfig \<Rightarrow> basecmd" where
  "basecmd_init k = console.extend (console_init k)
     \<lparr>dynmem_start = 0, dynmem_end = 4096, ptr_align = 4, sizeof_move_node = 4, sizeof_oid_s = 8,
      alloc_end = 0, move_free_list = None, move_next = (\<lambda>_. None), move_list = None,
      move_count = 0, move_item_size = 0, oids = None, oid_count = 0, config_crc = 0,
      stats_send_time = 0, stats_send_time_high = 0, stats_count = 0, stats_sum = 0,
      stats_sumsq = 0\<rparr>"

abbreviation "base0 \<equiv> basecmd_init example_conf"

lemmas base0_defs = basecmd_init_def console_init_def sched_init_def console.extend_def
  sched.extend_def example_conf_def

theorem move_queue_fifo_witness:
  "\<exists>q rest. mq_list q rest \<and> [5, 6] = [5 :: nat] @ rest"
proof -
  let ?q0 = "(empty_mq, move_next base0)"
  obtain q1 where q1: "mq_push 5 ?q0 = Some q1" "mq_list q1 [5]"
    by (auto simp: mq_push_def empty_mq_def mq_list_def)
  have e: "mq_list ?q0 []" by (simp add: mq_list_def empty_mq_def)
  have f1: "mq_fresh 6 q1" using mq_list_functional [OF q1(2)] by (fastforce simp: mq_fresh_def)
  obtain q2 where q2: "mq_push 6 q1 = Some q2"
    using q1(2) by (auto simp: mq_push_def mq_list_def split: prod.splits)
  have f0: "mq_fresh 5 ?q0"
    by (auto simp: mq_fresh_def mq_list_def empty_mq_def)
  have "mq_list q2 ([5] @ [6])" using mq_push_list [OF q1(2) _ q2] by simp
  then obtain q3 where q3: "mq_pop q2 = Some (5, q3)"
    using move_queue.pop_cons [of q2 5 "[6]"] by auto
  have "queue_run mq_fresh mq_push mq_pop ?q0 [5, 6] [5] q3"
    by (rule run_push [where fresh = mq_fresh and push = mq_push, OF f0 q1(1)],
        rule run_push [where fresh = mq_fresh and push = mq_push, OF f1 q2],
        rule run_pop [where pop = mq_pop, OF q3], rule run_done)
  from move_queue_fifo [OF this e] show ?thesis by (cases q3) auto
qed

text \<open>
  No move node is lost or shared. Taking a node from the free list fails exactly when no node
  is free; otherwise the node taken is not free any more, a queue it is pushed to ends with it,
  and any other queue, whose nodes are not among the free ones, is what it was.
\<close>

theorem move_alloc_push:
  assumes "free_nodes s fs" "mq_list (mh, move_next s) ms" "mq_list (mh2, move_next s) ks"
    and "set fs \<inter> set ms = {}" "set fs \<inter> set ks = {}" "set ms \<inter> set ks = {}"
  shows "(fs = [] \<and> move_alloc s = Shutdown ''Move queue overflow'' s) \<or>
    (\<exists>m fs' s1 s2 e mh'. fs = m # fs' \<and> move_alloc s = Ret m s1 \<and>
       move_queue_push m mh s1 = Ret (e, mh') s2 \<and> e = (ms = []) \<and>
       free_nodes s2 fs' \<and> mq_list (mh', move_next s2) (ms @ [m]) \<and>
       mq_list (mh2, move_next s2) ks)"
proof (cases fs)
  case Nil
  with move_alloc_step [OF assms(1)] show ?thesis by auto
next
  case (Cons m fs')
  from move_alloc_step [OF assms(1)] Cons obtain s1 where
    s1: "move_alloc s = Ret m s1" "free_nodes s1 fs'" "s1 = s\<lparr>move_free_list := move_free_list s1\<rparr>"
    by auto
  have nx: "move_next s1 = move_next s" by (subst s1(3)) simp
  have "distinct fs" using assms(1) by (auto simp: free_nodes_def dest: chain_distinct)
  with assms(4,5) Cons have m: "m \<notin> set ms" "m \<notin> set ks" "m \<notin> set fs'" by auto
  have "mq_push m (mh, move_next s) \<noteq> None"
    using assms(2) by (cases ms) (auto simp: mq_push_def mq_list_def)
  then obtain mh' nx' where p: "mq_push m (mh, move_next s) = Some (mh', nx')" by auto
  have l: "mq_list (mh', nx') (ms @ [m])" using mq_push_list [OF assms(2) m(1) p] .
  have frame: "lseg nx' q zs r = lseg (move_next s) q zs r"
    if "m \<notin> set zs" "set ms \<inter> set zs = {}" for q zs r
  proof (rule lseg_cong)
    fix x assume x: "x \<in> set zs"
    have "mq_last mh = Some (last ms) \<and> last ms \<in> set ms" if "mq_first mh \<noteq> None"
      using assms(2) that by (cases "ms = []") (auto simp: mq_list_def)
    with p x that show "nx' x = move_next s x"
      by (auto simp: mq_push_def split: if_splits)
  qed
  have e: "mq_first mh = None \<longleftrightarrow> ms = []" using assms(2) by (cases ms) (auto simp: mq_list_def)
  let ?s2 = "s1\<lparr>move_next := nx'\<rparr>"
  have "free_nodes ?s2 fs'"
    using s1(2) frame [of fs'] m(3) assms(4) Cons by (auto simp: free_nodes_def nx)
  moreover have "mq_list (mh2, nx') ks"
    using assms(3,6) frame [of ks] m(2) by (auto simp: mq_list_def)
  moreover have "move_queue_push m mh s1 = Ret (ms = [], mh') ?s2"
    by (simp add: move_queue_push_eq nx p e)
  ultimately show ?thesis using Cons s1(1) l by auto
qed

theorem move_alloc_push_witness:
  "\<exists>m s1 s2 mh'. move_alloc (move_reset (base0\<lparr>move_count := 3\<rparr>)) = Ret m s1 \<and>
     move_queue_push m empty_mq s1 = Ret (True, mh') s2 \<and> free_nodes s2 [1, 2]"
proof -
  let ?s = "move_reset (base0\<lparr>move_count := 3\<rparr>)"
  have "free_nodes ?s [0..<3]" using move_reset_free [of "base0\<lparr>move_count := 3\<rparr>"] by simp
  moreover have "[0..<3] = [0, 1, 2 :: nat]" by (simp add: upt_rec)
  ultimately have f: "free_nodes ?s [0, 1, 2]" by (simp only:)
  have e: "mq_list (empty_mq, move_next ?s) []" by (simp add: mq_list_def empty_mq_def)
  from move_alloc_push [OF f e e] show ?thesis by fastforce
qed

text \<open>
  \<open>move_finalize\<close> carves as many nodes of the largest requested size out of the free memory as
  fit, at most 1024, all within the dynamic memory, and puts every one of them on the free list in
  address order; when not a single node fits, the firmware stops.
\<close>

theorem move_finalize_spec:
  assumes "\<not> is_finalized s" "sizeof_move_node s \<le> move_item_size s" "0 < move_item_size s"
    and "sizeof_move_node s \<le> 255" "alloc_end s \<le> dynmem_end s"
  defines "n \<equiv> min 1024 ((dynmem_end s - alloc_end s) div move_item_size s)"
  shows "(n = 0 \<and> move_finalize s = Shutdown ''alloc_chunks failed'' s) \<or>
    (\<exists>s'. move_finalize s = Ret () s' \<and> move_count s' = n \<and> free_nodes s' [0..<n] \<and>
       move_list s' = Some (alloc_end s) \<and> alloc_end s + n * move_item_size s \<le> dynmem_end s)"
proof -
  let ?k = "move_item_size s"
  have n: "can_alloc_chunks ?k (alloc_end s) (dynmem_end s) 1024 = n"
    using can_alloc_chunks_eq [OF assms(3,5)] by (simp add: n_def)
  have mqs: "move_queue_setup (sizeof_move_node s) s = Ret \<lparr>mq_first = None, mq_last = None\<rparr> s"
    using assms(1,2,4) by (simp add: move_queue_setup_def)
  have "n * ?k \<le> (dynmem_end s - alloc_end s) div ?k * ?k" by (simp add: n_def)
  also have "\<dots> \<le> dynmem_end s - alloc_end s" by (rule div_times_less_eq_dividend)
  finally have fit: "alloc_end s + n * ?k \<le> dynmem_end s" using assms(5) by simp
  show ?thesis
  proof (cases "n = 0")
    case True
    then show ?thesis
      using assms(1) by (simp add: move_finalize_def shutdown_if_def mqs alloc_chunks_def n)
  next
    case False
    let ?s = "s\<lparr>alloc_end := alloc_end s + ALIGN (n * ?k) (ptr_align s), move_list := Some (alloc_end s),
      move_count := n\<rparr>"
    have "move_finalize s = Ret () (move_reset ?s)"
      using assms(1) False fit
      by (simp add: move_finalize_def shutdown_if_def mqs alloc_chunks_def alloc_chunk_def n Let_def)
    moreover have "free_nodes (move_reset ?s) [0..<n]" using move_reset_free [of ?s] False by simp
    moreover have "move_count (move_reset ?s) = n" "move_list (move_reset ?s) = Some (alloc_end s)"
      by (simp_all add: move_reset_def)
    ultimately show ?thesis using fit by blast
  qed
qed

theorem move_finalize_spec_witness:
  "\<exists>s'. move_finalize (base0\<lparr>move_item_size := 16\<rparr>) = Ret () s' \<and> move_count s' = 256"
  using move_finalize_spec [of "base0\<lparr>move_item_size := 16\<rparr>"]
  by (auto simp: is_finalized_def base0_defs)

section \<open>Properties of ids, clock and statistics\<close>

lemma oid_at_some:
  "oids s = Some os \<Longrightarrow> unat i < length os \<Longrightarrow> oid_at i s = Ret (os ! unat i) s"
  by (simp add: oid_at_def)

lemma oid_alloc_ok:
  assumes "oids s = Some os" "\<not> oid_count s \<le> i" "unat i < length os"
    and "oid_type_of (os ! unat i) = None" "\<not> is_finalized s" "alloc_end s + sz \<le> dynmem_end s"
  shows "\<exists>s'. oid_alloc i type sz s = Ret (alloc_end s) s'"
  using assms by (simp add: oid_alloc_def oid_at_some [OF assms(1)] alloc_chunk_def)

lemma unat_add_one: "\<not> n \<le> i + 1 \<Longrightarrow> i \<noteq> 255 \<Longrightarrow> unat (i + 1) = unat i + 1" for n i :: u8
proof -
  assume "i \<noteq> 255"
  have "i + 1 \<noteq> 0"
  proof
    assume "i + 1 = 0"
    then have "i = - 1" by (simp add: eq_neg_iff_add_eq_0)
    with \<open>i \<noteq> 255\<close> show False by simp
  qed
  then show ?thesis using unatSuc [of i] by (simp add: add.commute)
qed

text \<open>
  \<open>foreach_oid\<close> visits every object of its type exactly once, in the order of the ids:
  \<open>oid_next\<close> returns the first id after the current one (the start value 255 wraps to 0) whose type
  matches, never one of another type, and \<open>NULL\<close> when there is none.
\<close>

theorem oid_next_finds:
  assumes "oids s = Some os" "length os = unat (oid_count s)"
  shows "oid_next i type s =
    Ret (map_option of_nat (find (\<lambda>j. oid_type_of (os ! j) = Some type) [unat (i + 1)..<length os])) s"
  using assms
proof (induction i type s rule: oid_next.induct)
  case (1 i type s)
  show ?case
  proof (cases "oid_count s \<le> i + 1")
    case True
    then have "length os \<le> unat (i + 1)" using "1.prems"(2) by (simp add: word_le_nat_alt)
    with True show ?thesis by (subst oid_next.simps) simp
  next
    case False
    then have l: "unat (i + 1) < length os" using "1.prems"(2) by (simp add: word_le_nat_alt)
    have at: "oid_at (i + 1) s = Ret (os ! unat (i + 1)) s" using "1.prems"(1) l by (rule oid_at_some)
    have u: "[unat (i + 1)..<length os] = unat (i + 1) # [unat (i + 1) + 1..<length os]"
      using l by (simp add: upt_conv_Cons)
    show ?thesis
    proof (cases "oid_type_of (os ! unat (i + 1)) = Some type")
      case True
      with False at u show ?thesis by (subst oid_next.simps) simp
    next
      case nt: False
      have ih: "oid_next (i + 1) type s = Ret (map_option of_nat
          (find (\<lambda>j. oid_type_of (os ! j) = Some type) [unat (i + 1 + 1)..<length os])) s"
        using "1.IH" [OF _ at] False nt "1.prems" by simp
      have "[unat (i + 1) + 1..<length os] = [unat (i + 1 + 1)..<length os]"
      proof (cases "i + 1 + 1 = 0")
        case True
        then have "i + 1 = - 1" by (simp only: eq_neg_iff_add_eq_0)
        moreover have "(- 1 :: u8) = 255" by simp
        ultimately have "i + 1 = 255" by (simp only:)
        with next_not_max [OF False] show ?thesis by simp
      next
        case False
        then show ?thesis using unatSuc [of "i + 1"] by (simp add: add.commute)
      qed
      with False nt at u ih show ?thesis by (subst oid_next.simps) simp
    qed
  qed
qed

theorem oid_next_finds_witness:
  "oid_next 255 Trsync_type (base0\<lparr>oids := Some [\<lparr>oid_type_of = None, oid_data = None\<rparr>,
       \<lparr>oid_type_of = Some Trsync_type, oid_data = Some 8\<rparr>], oid_count := 2\<rparr>) =
     Ret (Some 1) (base0\<lparr>oids := Some [\<lparr>oid_type_of = None, oid_data = None\<rparr>,
       \<lparr>oid_type_of = Some Trsync_type, oid_data = Some 8\<rparr>], oid_count := 2\<rparr>)"
  using oid_next_finds [where s = "base0\<lparr>oids := Some [\<lparr>oid_type_of = None, oid_data = None\<rparr>,
       \<lparr>oid_type_of = Some Trsync_type, oid_data = Some 8\<rparr>], oid_count := 2\<rparr>" and i = 255
       and type = Trsync_type]
  by (simp add: upt_rec)

lemma oid_s_assign: "r\<lparr>oid_type_of := a, oid_data := b\<rparr> = \<lparr>oid_type_of = a, oid_data = b\<rparr>"
  for r :: oid_s
  by (cases r) simp

text \<open>
  C40: Ids are type safe: after \<open>oid_alloc\<close> the id answers with the allocated chunk for its own type
  and stops the firmware for every other type, the other ids are unchanged, a second allocation
  of the id stops the firmware, and the chunk lies inside the dynamic memory behind everything
  allocated before.
\<close>

theorem oid_alloc_lookup:
  assumes "oids s = Some os" "length os = unat (oid_count s)" "oid_alloc i type sz s = Ret d s'"
  shows "oid_lookup i type s' = Ret (Some d) s' \<and>
    (\<forall>type'. type' \<noteq> type \<longrightarrow> oid_lookup i type' s' = Shutdown ''Invalid oid type'' s') \<and>
    oid_alloc i type2 sz2 s' = Shutdown ''Can't assign oid'' s' \<and>
    (\<forall>j. j \<noteq> i \<longrightarrow> oid_lookup j type3 s' = Ret r s' \<longleftrightarrow> oid_lookup j type3 s = Ret r s) \<and>
    d = alloc_end s \<and> d + sz \<le> dynmem_end s"
proof -
  from assms(3) have i: "\<not> oid_count s \<le> i" by (auto simp: oid_alloc_def split: if_splits)
  then have l: "unat i < length os" using assms(2) by (simp add: word_le_nat_alt)
  let ?os = "os[unat i := \<lparr>oid_type_of = Some type, oid_data = Some d\<rparr>]"
  from assms(3) l i have r: "d = alloc_end s" "d + sz \<le> dynmem_end s"
    "oids s' = Some ?os" "oid_count s' = oid_count s"
    by (auto simp: oid_alloc_def oid_at_some [OF assms(1)] assms(1) alloc_chunk_def oid_s_assign
        split: if_splits)
  have "oid_lookup j type3 s' = Ret r s' \<longleftrightarrow> oid_lookup j type3 s = Ret r s" if "j \<noteq> i" for j
  proof (cases "oid_count s \<le> j")
    case True
    then show ?thesis by (simp add: oid_lookup_def r(4))
  next
    case False
    then have "unat j < length os" using assms(2) by (simp add: word_le_nat_alt)
    moreover have "unat j \<noteq> unat i" using that by (simp add: word_unat_eq_iff)
    ultimately show ?thesis using False
      by (auto simp: oid_lookup_def r(3,4) oid_at_def assms(1))
  qed
  with r i l show ?thesis by (auto simp: oid_lookup_def oid_alloc_def oid_at_def)
qed

theorem oid_alloc_lookup_witness:
  "\<exists>s'. oid_alloc 1 Trsync_type 20 (base0\<lparr>oids := Some [\<lparr>oid_type_of = None, oid_data = None\<rparr>, \<lparr>oid_type_of = None, oid_data = None\<rparr>],
       oid_count := 2\<rparr>) = Ret 0 s' \<and> oid_lookup 1 Trsync_type s' = Ret (Some 0) s' \<and>
     oid_lookup 1 Stepper_type s' = Shutdown ''Invalid oid type'' s'"
proof -
  let ?s = "base0\<lparr>oids := Some [\<lparr>oid_type_of = None, oid_data = None\<rparr>, \<lparr>oid_type_of = None, oid_data = None\<rparr>], oid_count := 2\<rparr>"
  have "\<exists>s'. oid_alloc 1 Trsync_type 20 ?s = Ret (alloc_end ?s) s'"
    by (rule oid_alloc_ok [where os = "[\<lparr>oid_type_of = None, oid_data = None\<rparr>,
        \<lparr>oid_type_of = None, oid_data = None\<rparr>]"]) (simp_all add: is_finalized_def base0_defs word_le_nat_alt)
  then obtain s' where "oid_alloc 1 Trsync_type 20 ?s = Ret 0 s'" by (auto simp: base0_defs)
  with oid_alloc_lookup [of ?s _ 1 Trsync_type 20, OF _ _ this] show ?thesis by auto
qed

text \<open>
  The load statistics never wrap: the sum of squares the firmware reports is the exact sum of
  the contributions (the square of the time divided by 256, rounded up; for times above \<open>0xffff\<close>
  the coarser product), or all ones when that does not fit 32 bits.
\<close>

theorem stats_sumsq_saturates:
  "unat (stats_nextsumsq sumsq diff) = min 0xffffffff (unat sumsq + sq_part (unat diff))"
proof -
  consider "diff \<le> 0xffff" | "\<not> diff \<le> 0xffff" "diff \<le> 0xfffff" | "\<not> diff \<le> 0xfffff" by blast
  then show ?thesis
  proof cases
    case 1
    then show ?thesis
      using add_saturates [of sumsq "div_round_up (diff * diff) SUMSQ_BASE"]
      by (simp add: stats_nextsumsq_def stats_part_exact Let_def)
  next
    case 2
    then show ?thesis
      using add_saturates [of sumsq "div_round_up diff SUMSQ_BASE * diff"]
      by (simp add: stats_nextsumsq_def stats_part_exact Let_def)
  next
    case 3
    have o: "\<not> diff \<le> 0xffff"
    proof
      assume "diff \<le> 0xffff"
      also have "(0xffff :: u32) \<le> 0xfffff" by simp
      finally show False using 3 by simp
    qed
    with 3 have "sq_part (unat diff) = 0xffffffff" by (simp add: sq_part_def word_le_nat_alt)
    with 3 o show ?thesis by (simp add: stats_nextsumsq_def Let_def)
  qed
qed

text \<open>\<open>T\<close> counts the ticks since the start without wrapping; \<open>tracks s T\<close>: \<open>T\<close> was the time of the last report.\<close>

definition tracks :: "'z basecmd_scheme \<Rightarrow> nat \<Rightarrow> bool" where
  "tracks s T \<longleftrightarrow> stats_send_time s = of_nat T \<and> stats_send_time_high s = of_nat (T div 2 ^ 32)"

lemma no_extra_turn:
  "T = q * k + r \<Longrightarrow> T0 = q0 * k + r0 \<Longrightarrow> q = q0 + 1 \<Longrightarrow> r0 \<le> r \<Longrightarrow> T0 + k \<le> T" for T k :: nat
  by (simp add: algebra_simps)

lemma clock_high:
  fixes T T0 :: nat
  assumes "T0 \<le> T" "T < T0 + 2 ^ 32"
  shows "(of_nat (T0 div 2 ^ 32) :: u32) + c_bool ((of_nat T :: u32) < of_nat T0) = of_nat (T div 2 ^ 32)"
proof -
  have lt: "(of_nat T :: u32) < of_nat T0 \<longleftrightarrow> T mod 2 ^ 32 < T0 mod 2 ^ 32"
    by (simp add: word_less_nat_alt unat_of_nat)
  have T: "T = T div 2 ^ 32 * 2 ^ 32 + T mod 2 ^ 32" "T0 = T0 div 2 ^ 32 * 2 ^ 32 + T0 mod 2 ^ 32"
    by simp_all
  have m: "T mod 2 ^ 32 < 2 ^ 32" "T0 mod 2 ^ 32 < 2 ^ 32" by simp_all
  have d: "T div 2 ^ 32 = T0 div 2 ^ 32 \<or> T div 2 ^ 32 = T0 div 2 ^ 32 + 1"
  proof -
    have "T0 div 2 ^ 32 \<le> T div 2 ^ 32" using assms(1) by (rule div_le_mono)
    moreover have "T div 2 ^ 32 \<le> (T0 + 2 ^ 32) div 2 ^ 32" using assms(2) by (intro div_le_mono) simp
    ultimately show ?thesis by auto
  qed
  show ?thesis
  proof (cases "T mod 2 ^ 32 < T0 mod 2 ^ 32")
    case True
    then have "T div 2 ^ 32 \<noteq> T0 div 2 ^ 32" using T assms(1) by (metis add_le_cancel_left not_le)
    with d True show ?thesis by (simp add: lt c_bool_def)
  next
    case False
    have "T div 2 ^ 32 \<noteq> T0 div 2 ^ 32 + 1"
    proof
      assume "T div 2 ^ 32 = T0 div 2 ^ 32 + 1"
      from no_extra_turn [OF T(1,2) this] False assms(2) show False by simp
    qed
    with d False show ?thesis by (simp add: lt c_bool_def)
  qed
qed

text \<open>
  The 64 bit uptime is right: as long as a statistics report is sent at least once per turn of
  the 32 bit counter, \<open>get_uptime\<close> answers with the two halves of the true tick count, and
  \<open>stats_update\<close> keeps the high half in step with the counter whether it reports or not.
\<close>

theorem uptime_is_true_time:
  fixes T T0 :: nat
  assumes "tracks s T0" "T0 \<le> T" "T < T0 + 2 ^ 32" "timer_read_time s = of_nat T" "\<not> in_sendf s"
  shows "(\<exists>s'. command_get_uptime args s = Ret () s' \<and>
      sent s' = sent s @ [Response ''uptime'' [of_nat (T div 2 ^ 32), of_nat T]]) \<and>
    (tracks (stats_update start (of_nat T) s) T0 \<or> tracks (stats_update start (of_nat T) s) T)"
proof
  note h = clock_high [OF assms(2,3)]
  show "\<exists>s'. command_get_uptime args s = Ret () s' \<and>
      sent s' = sent s @ [Response ''uptime'' [of_nat (T div 2 ^ 32), of_nat T]]"
    using assms(1,4,5) h by (simp add: command_get_uptime_def tracks_def command_sendf_def)
  show "tracks (stats_update start (of_nat T) s) T0 \<or> tracks (stats_update start (of_nat T) s) T"
    using assms(1) h
    by (auto simp: stats_update_def tracks_def Let_def command_sendf_def c_bool_def split: if_splits)
qed

theorem uptime_is_true_time_witness:
  "\<exists>s'. command_get_uptime [] (base0\<lparr>timer_read_time := 5, stats_send_time := 0xfffffff0\<rparr>) = Ret () s' \<and>
     sent s' = [Response ''uptime'' [1, 5]]"
proof -
  let ?s = "base0\<lparr>timer_read_time := 5, stats_send_time := 0xfffffff0\<rparr>"
  have w: "(of_nat 4294967301 :: u32) = 5" by simp
  have d: "(4294967301 :: nat) div 2 ^ 32 = 1" by simp
  have t: "tracks ?s 0xfffffff0" by (simp add: tracks_def base0_defs)
  have r: "timer_read_time ?s = of_nat 4294967301" "\<not> in_sendf ?s" "sent ?s = []"
    by (simp_all add: base0_defs)
  from uptime_is_true_time [OF t _ _ r(1,2)] show ?thesis unfolding d w r(3) by simp
qed

end
