(* ===== verification/Timer_Contract.thy ===== *)
theory Timer_Contract
  imports Sched
begin

text \<open>
  The contract between the scheduler and the components that own timers. An event function touches
  no timer but its own, and leaves the list to the dispatcher; a component that promises this and
  never reschedules into the past can be dispatched: \<open>sched_timer_dispatch\<close> then keeps the timer
  list sorted. The components interpret the locale on their event functions.
\<close>

definition own_timer_only :: "timer_ref \<Rightarrow> 'z sched_scheme \<Rightarrow> 'z sched_scheme \<Rightarrow> bool" where
  "own_timer_only t s s' \<longleftrightarrow>
     timer_next s' = timer_next s \<and> timer_list s' = timer_list s \<and> last_insert s' = last_insert s \<and>
     (\<forall>x. x \<noteq> t \<longrightarrow> timer_waketime s' x = timer_waketime s x)"

lemma own_timer_only_refl [simp]: "own_timer_only t s s"
  by (simp add: own_timer_only_def)

lemma own_timer_only_trans:
  "own_timer_only t s s' \<Longrightarrow> own_timer_only t s' s'' \<Longrightarrow> own_timer_only t s s''"
  by (simp add: own_timer_only_def)

text \<open>\<open>w'\<close> is not before \<open>w\<close>, and \<open>w\<close> is not after the periodic timer: the distance adds up.\<close>

lemma rel_time_later:
  assumes "rel_time s w \<le> 0" "\<not> timer_is_before w' w"
  shows "rel_time s w' = rel_time s w + sint (w' - w)" "0 \<le> sint (w' - w)" "sint (w' - w) < 2 ^ 31"
proof -
  let ?b = "timer_waketime s Periodic_timer"
  have d: "0 \<le> sint (w' - w)" using assms(2) by (simp add: timer_is_before_def)
  have u: "sint (w' - w) < 2 ^ 31" using sint_less [of "w' - w"] by simp
  show "0 \<le> sint (w' - w)" "sint (w' - w) < 2 ^ 31" by (fact d, fact u)
  have "sint (w' - ?b) = signed_take_bit 31 (sint (w - ?b) + sint (w' - w))"
    using sint_word_ariths(1) [of "w - ?b" "w' - w"] by simp
  also have "\<dots> = sint (w - ?b) + sint (w' - w)"
    using assms(1) d u sint_greater_eq [of "w - ?b"]
    by (simp add: signed_take_bit_int_eq_self_iff rel_time_def from_base_def)
  finally show "rel_time s w' = rel_time s w + sint (w' - w)"
    by (simp add: rel_time_def from_base_def)
qed

lemma in_window_later:
  assumes so: "timers_sorted s (t # ys)" and per: "Periodic_timer \<in> set ys" and t: "t \<noteq> Sentinel_timer"
    and win: "in_window s (timer_waketime s t) ys" and w: "\<not> timer_is_before w (timer_waketime s t)"
  shows "in_window s w ys"
proof -
  let ?k = "rel_time s (timer_waketime s t)"
  have le: "?k \<le> timer_key s x" if "x \<in> set ys" for x
    using so that t by (simp add: timers_sorted_def timer_key_def)
  have "?k \<le> 0" using le [OF per] by simp
  note later = rel_time_later [OF this w]
  show ?thesis unfolding in_window_def
  proof
    fix x assume x: "x \<in> set ys"
    show "x = Sentinel_timer \<or> \<bar>rel_time s w - timer_key s x\<bar> < 2 ^ 31"
      using le [OF x] win x later by (auto simp: in_window_def)
  qed
qed

locale timer_component =
  fixes event :: "u8 \<Rightarrow> 'z sched_scheme \<Rightarrow> (sf_result, 'z sched_scheme) outcome"
    and own :: "u8 \<Rightarrow> timer_ref"
    and ready :: "u8 \<Rightarrow> 'z sched_scheme \<Rightarrow> bool"
  assumes object_timer: "own oid \<notin> {Periodic_timer, Sentinel_timer, Deleted_timer}"
    and runs: "ready oid s \<Longrightarrow> event oid s \<noteq> Fault"
    and frame: "event oid s = Ret r s' \<Longrightarrow> own_timer_only (own oid) s s'"
begin

lemma event_keeps_order:
  assumes "ready oid s" "timer_inv s (own oid # ys)" "timers_sorted s (own oid # ys)"
    and "in_window s (timer_waketime s (own oid)) ys"
    and later: "\<And>s'. event oid s = Ret SF_RESCHEDULE s' \<Longrightarrow>
      \<not> timer_is_before (timer_waketime s' (own oid)) (timer_waketime s (own oid))"
  shows "event_ok (own oid) (event oid s)"
proof (cases "event oid s")
  case (Ret res s')
  note f = frame [OF Ret, unfolded own_timer_only_def] and o = object_timer [of oid]
  have nt: "own oid \<notin> set ys" using timer_invD(9) [OF assms(2)] by simp
  have per: "Periodic_timer \<in> set ys" using timer_inv_mem(2) [OF assms(2)] o by auto
  have key: "timer_key s' x = timer_key s x" if "x \<in> set ys" for x
  proof -
    have "x \<noteq> own oid" using that nt by auto
    then show ?thesis using f o by (intro timer_key_cong) auto
  qed
  have rel: "rel_time s' w = rel_time s w" for w using f o by (intro rel_time_cong) auto
  have inv: "timer_inv s' (own oid # ys)"
    using assms(2) f o by (subst timer_inv_cong [of s' s]) auto
  have so: "timers_sorted s' ys"
  proof -
    have "sorted (map (timer_key s') ys) = sorted (map (timer_key s) ys)"
      by (rule sorted_map_cong_keys) (rule key)
    then show ?thesis using assms(3) by (simp add: timers_sorted_def)
  qed
  have win: "in_window s' (timer_waketime s' (own oid)) ys" if "res = SF_RESCHEDULE"
  proof -
    have "in_window s (timer_waketime s' (own oid)) ys"
      using in_window_later [OF assms(3) per _ assms(4)] later Ret that o by auto
    then show ?thesis using key by (auto simp: in_window_def rel)
  qed
  show ?thesis using Ret inv so win o by (auto simp: event_ok_def)
qed (use runs [OF assms(1)] in \<open>simp_all add: event_ok_def\<close>)

end

end
