(* ===== verification/Trsync.thy ===== *)
theory Trsync
  imports Basecmd Timer_Contract
begin

text \<open>
  \<open>src/trsync.c\<close>: the synchronised triggers used in homing. An object has two timers, one that
  reports its state and one that triggers it when the time is out, and a list of signals, the
  callbacks to run at the trigger.
\<close>

section \<open>State\<close>

text \<open>
  A \<open>struct trsync_signal\<close> is embedded in a stepper and named by the id of that stepper. The two
  bits of \<open>flags\<close> are the fields \<open>ts_can_trigger\<close> and \<open>ts_report\<close>.
\<close>

datatype signal_func = Stepper_stop

record trsync =
  ts_report_ticks :: u32
  ts_signals :: "u8 option"
  ts_can_trigger :: bool
  ts_report :: bool
  ts_trigger_reason :: u8
  ts_expire_reason :: u8

record trsyncs = basecmd +
  trsync_of :: "u8 \<Rightarrow> trsync"
  tss_next :: "u8 \<Rightarrow> u8 option"
  tss_func :: "u8 \<Rightarrow> signal_func option"

definition upd_ts :: "u8 \<Rightarrow> (trsync \<Rightarrow> trsync) \<Rightarrow> 'z trsyncs_scheme \<Rightarrow> 'z trsyncs_scheme" where
  "upd_ts oid f s = s\<lparr>trsync_of := (trsync_of s)(oid := f (trsync_of s oid))\<rparr>"

definition tss_unlink :: "u8 \<Rightarrow> 'z trsyncs_scheme \<Rightarrow> 'z trsyncs_scheme" where
  "tss_unlink tss s = s\<lparr>tss_next := (tss_next s)(tss := None), tss_func := (tss_func s)(tss := None)\<rparr>"

section \<open>Triggering\<close>

text \<open>
  The loop that dispatches the signals; \<open>dispatch\<close> is the call through the function pointer. There
  are at most 256 signals, one per stepper id, so 256 rounds empty a well formed list.
\<close>

fun dispatch_signals ::
    "nat \<Rightarrow> (signal_func \<Rightarrow> u8 \<Rightarrow> u8 \<Rightarrow> 'z trsyncs_scheme \<Rightarrow> (unit, 'z trsyncs_scheme) outcome)
       \<Rightarrow> u8 \<Rightarrow> u8 \<Rightarrow> 'z trsyncs_scheme \<Rightarrow> (unit, 'z trsyncs_scheme) outcome" where
  "dispatch_signals fuel dispatch ts reason s =
     (case ts_signals (trsync_of s ts) of
        None \<Rightarrow> Ret () s
      | Some tss \<Rightarrow>
          (case fuel of
             0 \<Rightarrow> Fault
           | Suc fuel' \<Rightarrow>
               (case tss_func s tss of
                  None \<Rightarrow> Fault
                | Some func \<Rightarrow>
                    let s = upd_ts ts (\<lambda>t. t\<lparr>ts_signals := tss_next s tss\<rparr>) s;
                        s = tss_unlink tss s
                    in andThen (dispatch func tss reason s)
                         (\<lambda>_ s. dispatch_signals fuel' dispatch ts reason s))))"

declare dispatch_signals.simps [simp del]

definition trsync_wake :: string where "trsync_wake = ''trsync_wake''"

definition trsync_do_trigger ::
    "(signal_func \<Rightarrow> u8 \<Rightarrow> u8 \<Rightarrow> 'z trsyncs_scheme \<Rightarrow> (unit, 'z trsyncs_scheme) outcome)
       \<Rightarrow> u8 \<Rightarrow> u8 \<Rightarrow> 'z trsyncs_scheme \<Rightarrow> (unit, 'z trsyncs_scheme) outcome" where
  "trsync_do_trigger dispatch ts reason s =
     (if \<not> ts_can_trigger (trsync_of s ts) then Ret () s
      else
        let s = upd_ts ts (\<lambda>t. t\<lparr>ts_trigger_reason := reason, ts_can_trigger := False, ts_report := True\<rparr>) s
        in andThen (dispatch_signals 256 dispatch ts reason s)
             (\<lambda>_ s. Ret () (sched_wake_task trsync_wake s)))"

definition trsync_expire_event ::
    "(signal_func \<Rightarrow> u8 \<Rightarrow> u8 \<Rightarrow> 'z trsyncs_scheme \<Rightarrow> (unit, 'z trsyncs_scheme) outcome)
       \<Rightarrow> u8 \<Rightarrow> 'z trsyncs_scheme \<Rightarrow> (sf_result, 'z trsyncs_scheme) outcome" where
  "trsync_expire_event dispatch ts s =
     andThen (trsync_do_trigger dispatch ts (ts_expire_reason (trsync_of s ts)) s)
       (\<lambda>_ s. Ret SF_DONE s)"

definition trsync_report_event :: "u8 \<Rightarrow> 'z trsyncs_scheme \<Rightarrow> (sf_result, 'z trsyncs_scheme) outcome" where
  "trsync_report_event ts s =
     (let s = upd_ts ts (\<lambda>t. t\<lparr>ts_report := True\<rparr>) s;
          s = sched_wake_task trsync_wake s;
          s = set_waketime (Report_timer ts)
                (timer_waketime s (Report_timer ts) + ts_report_ticks (trsync_of s ts)) s
      in Ret SF_RESCHEDULE s)"

section \<open>Commands\<close>

definition trsync_zero :: trsync where
  "trsync_zero = \<lparr>ts_report_ticks = 0, ts_signals = None, ts_can_trigger = False, ts_report = False,
     ts_trigger_reason = 0, ts_expire_reason = 0\<rparr>"

text \<open>An argument used as an id is cut to the byte of the parameter.\<close>

definition arg_oid :: "u32 list \<Rightarrow> nat \<Rightarrow> u8" where
  "arg_oid args i = ucast (args ! i)"

definition command_config_trsync ::
    "nat \<Rightarrow> u32 list \<Rightarrow> 'z trsyncs_scheme \<Rightarrow> (unit, 'z trsyncs_scheme) outcome" where
  "command_config_trsync sizeof_trsync args s =
     (let oid = arg_oid args 0 in
      andThen (oid_alloc oid Trsync_type sizeof_trsync s) (\<lambda>_ s.
        let s = upd_ts oid (\<lambda>_. trsync_zero) s;
            s = set_func (Report_timer oid) Trsync_report_event s;
            s = set_func (Expire_timer oid) Trsync_expire_event s
        in Ret () s))"

definition trsync_oid_lookup :: "u8 \<Rightarrow> 'z trsyncs_scheme \<Rightarrow> (u8, 'z trsyncs_scheme) outcome" where
  "trsync_oid_lookup oid s = andThen (oid_lookup oid Trsync_type s) (\<lambda>_ s. Ret oid s)"

definition trsync_add_signal ::
    "u8 \<Rightarrow> u8 \<Rightarrow> signal_func \<Rightarrow> 'z trsyncs_scheme \<Rightarrow> (unit, 'z trsyncs_scheme) outcome" where
  "trsync_add_signal ts tss func s =
     andThen (shutdown_if (tss_func s tss \<noteq> None) ''Can't add signal that is already active'' s) (\<lambda>_ s.
       let s = s\<lparr>tss_func := (tss_func s)(tss := Some func)\<rparr>;
           s = s\<lparr>tss_next := (tss_next s)(tss := ts_signals (trsync_of s ts))\<rparr>
       in Ret () (upd_ts ts (\<lambda>t. t\<lparr>ts_signals := Some tss\<rparr>) s))"

fun clear_signals :: "nat \<Rightarrow> u8 option \<Rightarrow> 'z trsyncs_scheme \<Rightarrow> (unit, 'z trsyncs_scheme) outcome" where
  "clear_signals fuel None s = Ret () s"
| "clear_signals 0 (Some tss) s = Fault"
| "clear_signals (Suc fuel) (Some tss) s =
     (let next = tss_next s tss in clear_signals fuel next (tss_unlink tss s))"

definition trsync_clear :: "u8 \<Rightarrow> 'z trsyncs_scheme \<Rightarrow> (unit, 'z trsyncs_scheme) outcome" where
  "trsync_clear ts s =
     andThen (sched_del_timer (Report_timer ts) s) (\<lambda>_ s.
     andThen (sched_del_timer (Expire_timer ts) s) (\<lambda>_ s.
     andThen (clear_signals 256 (ts_signals (trsync_of s ts)) s) (\<lambda>_ s.
       Ret () (upd_ts ts (\<lambda>t. t\<lparr>ts_signals := None, ts_can_trigger := False, ts_report := False,
         ts_trigger_reason := 0, ts_expire_reason := 0\<rparr>) s))))"

definition command_trsync_start ::
    "u32 list \<Rightarrow> 'z trsyncs_scheme \<Rightarrow> (unit, 'z trsyncs_scheme) outcome" where
  "command_trsync_start args s =
     andThen (trsync_oid_lookup (arg_oid args 0) s) (\<lambda>ts s.
     andThen (trsync_clear ts s) (\<lambda>_ s.
       let s = upd_ts ts (\<lambda>t. t\<lparr>ts_can_trigger := True, ts_report := False\<rparr>) s;
           s = set_waketime (Report_timer ts) (args ! 1) s;
           s = upd_ts ts (\<lambda>t. t\<lparr>ts_report_ticks := args ! 2\<rparr>) s
       in andThen (if ts_report_ticks (trsync_of s ts) \<noteq> 0 then sched_add_timer (Report_timer ts) s
                   else Ret () s)
            (\<lambda>_ s. Ret () (upd_ts ts (\<lambda>t. t\<lparr>ts_expire_reason := ucast (args ! 3)\<rparr>) s))))"

definition command_trsync_set_timeout ::
    "u32 list \<Rightarrow> 'z trsyncs_scheme \<Rightarrow> (unit, 'z trsyncs_scheme) outcome" where
  "command_trsync_set_timeout args s =
     andThen (trsync_oid_lookup (arg_oid args 0) s) (\<lambda>ts s.
       if ts_can_trigger (trsync_of s ts) then
         andThen (sched_del_timer (Expire_timer ts) s) (\<lambda>_ s.
           sched_add_timer (Expire_timer ts) (set_waketime (Expire_timer ts) (args ! 1) s))
       else Ret () s)"

definition trsync_report :: "u8 \<Rightarrow> bool \<Rightarrow> u8 \<Rightarrow> u32 \<Rightarrow> 'z trsyncs_scheme \<Rightarrow> 'z trsyncs_scheme" where
  "trsync_report oid can_trigger reason clock s =
     command_sendf (Response ''trsync_state'' [ucast oid, c_bool can_trigger, ucast reason, clock]) s"

definition command_trsync_trigger ::
    "(signal_func \<Rightarrow> u8 \<Rightarrow> u8 \<Rightarrow> 'z trsyncs_scheme \<Rightarrow> (unit, 'z trsyncs_scheme) outcome)
       \<Rightarrow> u32 list \<Rightarrow> 'z trsyncs_scheme \<Rightarrow> (unit, 'z trsyncs_scheme) outcome" where
  "command_trsync_trigger dispatch args s =
     (let oid = arg_oid args 0 in
      andThen (trsync_oid_lookup oid s) (\<lambda>ts s.
      andThen (trsync_do_trigger dispatch ts (ucast (args ! 1)) s) (\<lambda>_ s.
      andThen (sched_del_timer (Report_timer ts) s) (\<lambda>_ s.
      andThen (sched_del_timer (Expire_timer ts) s) (\<lambda>_ s.
        let s = upd_ts ts (\<lambda>t. t\<lparr>ts_can_trigger := False, ts_report := False\<rparr>) s;
            trigger_reason = ts_trigger_reason (trsync_of s ts)
        in Ret () (trsync_report oid False trigger_reason 0 s))))))"

text \<open>
  \<open>foreach_oid\<close>: the body runs for each object of the type, in the order of the ids; an id is at
  most 255, so 256 rounds are enough.
\<close>

fun foreach_oid_from ::
    "nat \<Rightarrow> u8 \<Rightarrow> oid_type \<Rightarrow> (u8 \<Rightarrow> 'z basecmd_scheme \<Rightarrow> (unit, 'z basecmd_scheme) outcome)
       \<Rightarrow> 'z basecmd_scheme \<Rightarrow> (unit, 'z basecmd_scheme) outcome" where
  "foreach_oid_from 0 i type body s = Fault"
| "foreach_oid_from (Suc fuel) i type body s =
     andThen (oid_next i type s) (\<lambda>r s.
       case r of
         None \<Rightarrow> Ret () s
       | Some oid \<Rightarrow> andThen (body oid s) (\<lambda>_ s. foreach_oid_from fuel oid type body s))"

definition foreach_oid ::
    "oid_type \<Rightarrow> (u8 \<Rightarrow> 'z basecmd_scheme \<Rightarrow> (unit, 'z basecmd_scheme) outcome)
       \<Rightarrow> 'z basecmd_scheme \<Rightarrow> (unit, 'z basecmd_scheme) outcome" where
  "foreach_oid type body s = foreach_oid_from 256 255 type body s"

definition trsync_task :: "'z trsyncs_scheme \<Rightarrow> (unit, 'z trsyncs_scheme) outcome" where
  "trsync_task s =
     (let (w, s) = sched_check_wake trsync_wake s in
      if \<not> w then Ret () s
      else foreach_oid Trsync_type (\<lambda>oid s.
        if \<not> ts_report (trsync_of s oid) then Ret () s
        else
          let time = timer_read_time s;
              trigger_reason = ts_trigger_reason (trsync_of s oid);
              can_trigger = ts_can_trigger (trsync_of s oid);
              s = upd_ts oid (\<lambda>t. t\<lparr>ts_report := False\<rparr>) s
          in Ret () (trsync_report oid can_trigger trigger_reason time s)) s)"

definition trsync_shutdown :: "'z trsyncs_scheme \<Rightarrow> (unit, 'z trsyncs_scheme) outcome" where
  "trsync_shutdown s = foreach_oid Trsync_type trsync_clear s"

section \<open>What a trigger does\<close>

text \<open>The signals waiting for a trigger, in the order they will run.\<close>

definition signals :: "'z trsyncs_scheme \<Rightarrow> u8 \<Rightarrow> u8 list \<Rightarrow> bool" where
  "signals s ts xs \<longleftrightarrow>
     chain (tss_next s) (ts_signals (trsync_of s ts)) xs \<and> (\<forall>x \<in> set xs. tss_func s x \<noteq> None)"

lemma distinct_u8_length: "distinct xs \<Longrightarrow> length xs \<le> 256" for xs :: "u8 list"
proof -
  assume "distinct xs"
  then have "length xs = card (set xs)" by (simp add: distinct_card)
  also have "\<dots> \<le> card (UNIV :: u8 set)" by (rule card_mono) simp_all
  also have "\<dots> = 256" by (simp add: card_word)
  finally show ?thesis .
qed

text \<open>
  The contract between the trigger and the code behind the function pointers: a callback ends, it
  stops its own client and leaves the other stopped ones stopped, and it does not touch the lists
  of signals.
\<close>

locale trigger_client =
  fixes inv :: "'z trsyncs_scheme \<Rightarrow> bool"
    and stopped :: "u8 \<Rightarrow> 'z trsyncs_scheme \<Rightarrow> bool"
    and dispatch :: "signal_func \<Rightarrow> u8 \<Rightarrow> u8 \<Rightarrow> 'z trsyncs_scheme \<Rightarrow> (unit, 'z trsyncs_scheme) outcome"
  assumes dispatch_ok: "inv s \<Longrightarrow> \<exists>s'. dispatch f x r s = Ret () s' \<and> inv s' \<and> stopped x s' \<and>
      trsync_of s' = trsync_of s \<and> tss_next s' = tss_next s \<and> tss_func s' = tss_func s \<and>
      (\<forall>y. stopped y s \<longrightarrow> stopped y s')"
    and inv_signals: "inv s \<Longrightarrow> inv (s\<lparr>trsync_of := a, tss_next := b, tss_func := c\<rparr>)"
    and stopped_signals: "stopped y (s\<lparr>trsync_of := a, tss_next := b, tss_func := c\<rparr>) = stopped y s"
    and inv_wake: "inv s \<Longrightarrow> inv (sched_wake_task w s)"
    and stopped_wake: "stopped y (sched_wake_task w s) = stopped y s"

context trigger_client
begin

lemma dispatch_signals_stops:
  assumes "inv s" "signals s ts xs" "length xs \<le> fuel"
  shows "\<exists>s'. dispatch_signals fuel dispatch ts reason s = Ret () s' \<and> inv s' \<and>
    (\<forall>x \<in> set xs. stopped x s' \<and> tss_func s' x = None \<and> tss_next s' x = None) \<and>
    trsync_of s' = (trsync_of s)(ts := (trsync_of s ts)\<lparr>ts_signals := None\<rparr>) \<and>
    (\<forall>y. stopped y s \<longrightarrow> stopped y s') \<and>
    (\<forall>y. y \<notin> set xs \<longrightarrow> tss_func s' y = tss_func s y \<and> tss_next s' y = tss_next s y)"
  using assms
proof (induction xs arbitrary: fuel s)
  case Nil
  then have n: "ts_signals (trsync_of s ts) = None" by (simp add: signals_def)
  then have "dispatch_signals fuel dispatch ts reason s = Ret () s"
    by (simp add: dispatch_signals.simps)
  moreover have "(trsync_of s ts)\<lparr>ts_signals := None\<rparr> = trsync_of s ts"
    using n by (cases "trsync_of s ts") simp
  ultimately show ?case using Nil.prems by simp
next
  case (Cons x xs)
  from Cons.prems(3) obtain k where k: "fuel = Suc k" "length xs \<le> k" by (cases fuel) auto
  from Cons.prems(2) have c: "ts_signals (trsync_of s ts) = Some x"
    "chain (tss_next s) (tss_next s x) xs" "x \<notin> set xs" "\<forall>y \<in> set (x # xs). tss_func s y \<noteq> None"
    by (auto simp: signals_def dest: chain_hd_notin_tl)
  then obtain f where f: "tss_func s x = Some f" by auto
  let ?s1 = "tss_unlink x (upd_ts ts (\<lambda>t. t\<lparr>ts_signals := tss_next s x\<rparr>) s)"
  have s1: "?s1 = s\<lparr>trsync_of := (trsync_of s)(ts := (trsync_of s ts)\<lparr>ts_signals := tss_next s x\<rparr>),
      tss_next := (tss_next s)(x := None), tss_func := (tss_func s)(x := None)\<rparr>"
    by (simp add: tss_unlink_def upd_ts_def)
  have inv1: "inv ?s1" unfolding s1 by (rule inv_signals) (rule Cons.prems(1))
  have st1: "stopped y ?s1 = stopped y s" for y unfolding s1 by (rule stopped_signals)
  from dispatch_ok [OF inv1, of f x reason] obtain s2 where
    s2: "dispatch f x reason ?s1 = Ret () s2" "inv s2" "stopped x s2" "trsync_of s2 = trsync_of ?s1"
      "tss_next s2 = tss_next ?s1" "tss_func s2 = tss_func ?s1" "\<forall>y. stopped y ?s1 \<longrightarrow> stopped y s2"
    by blast
  have "signals s2 ts xs"
    using c s2(4-6) by (auto simp: signals_def s1)
  from Cons.IH [OF s2(2) this k(2)] obtain s' where
    s': "dispatch_signals k dispatch ts reason s2 = Ret () s'" "inv s'"
      "\<forall>x \<in> set xs. stopped x s' \<and> tss_func s' x = None \<and> tss_next s' x = None"
      "trsync_of s' = (trsync_of s2)(ts := (trsync_of s2 ts)\<lparr>ts_signals := None\<rparr>)"
      "\<forall>y. stopped y s2 \<longrightarrow> stopped y s'"
      "\<forall>y. y \<notin> set xs \<longrightarrow> tss_func s' y = tss_func s2 y \<and> tss_next s' y = tss_next s2 y" by blast
  have "dispatch_signals fuel dispatch ts reason s = Ret () s'"
    using s2(1) s'(1) by (subst dispatch_signals.simps) (simp add: c(1) k(1) f Let_def)
  moreover have "trsync_of s' = (trsync_of s)(ts := (trsync_of s ts)\<lparr>ts_signals := None\<rparr>)"
    by (simp add: s'(4) s2(4) s1)
  moreover have "tss_func s' x = None" "tss_next s' x = None"
    using s'(6) c(3) s2(5,6) by (simp_all add: s1)
  ultimately show ?case using s' s2 c(3) by (auto simp: s1 st1 [unfolded s1])
qed

lemma do_trigger_stops:
  assumes "inv s" "signals s ts xs" "ts_can_trigger (trsync_of s ts)"
  shows "\<exists>s'. trsync_do_trigger dispatch ts reason s = Ret () s' \<and> inv s' \<and>
    (\<forall>x \<in> set xs. stopped x s' \<and> tss_func s' x = None) \<and> signals s' ts [] \<and>
    ts_trigger_reason (trsync_of s' ts) = reason \<and> ts_report (trsync_of s' ts) \<and>
    task_wake s' trsync_wake \<and>
    (\<forall>r. trsync_do_trigger dispatch ts r s' = Ret () s')"
proof -
  let ?s1 = "upd_ts ts (\<lambda>t. t\<lparr>ts_trigger_reason := reason, ts_can_trigger := False, ts_report := True\<rparr>) s"
  have s1: "?s1 = s\<lparr>trsync_of := trsync_of ?s1, tss_next := tss_next s, tss_func := tss_func s\<rparr>"
    by (simp add: upd_ts_def)
  have inv1: "inv ?s1" by (subst s1) (rule inv_signals [OF assms(1)])
  have sig: "signals ?s1 ts xs" using assms(2) by (simp add: signals_def upd_ts_def)
  have "length xs \<le> 256"
    using assms(2) by (auto simp: signals_def intro!: distinct_u8_length dest: chain_distinct)
  from dispatch_signals_stops [OF inv1 sig this, of reason] obtain s2 where
    s2: "dispatch_signals 256 dispatch ts reason ?s1 = Ret () s2" "inv s2"
      "\<forall>x \<in> set xs. stopped x s2 \<and> tss_func s2 x = None \<and> tss_next s2 x = None"
      "trsync_of s2 = (trsync_of ?s1)(ts := (trsync_of ?s1 ts)\<lparr>ts_signals := None\<rparr>)" by blast
  let ?s' = "sched_wake_task trsync_wake s2"
  have f: "trsync_of ?s' = trsync_of s2" "tss_func ?s' = tss_func s2" "task_wake ?s' trsync_wake"
    by (simp_all add: sched_wake_task_def sched_wake_tasks_def Let_def)
  have "trsync_do_trigger dispatch ts reason s = Ret () ?s'"
    using assms(3) s2(1) by (simp add: trsync_do_trigger_def Let_def)
  moreover have "trsync_of s2 ts = (trsync_of ?s1 ts)\<lparr>ts_signals := None\<rparr>" by (simp add: s2(4))
  ultimately show ?thesis
    using s2(3) f inv_wake [OF s2(2), of trsync_wake]
    by (auto simp: stopped_wake signals_def trsync_do_trigger_def upd_ts_def)
qed

end

end
