(* ===== verification/Stepper.thy ===== *)
theory Stepper
  imports Trsync
begin

text \<open>
  \<open>src/stepper.c\<close>: the step generators. Queued moves (an interval, a count and a change of the
  interval per step) become pulses on the step pin; the position is kept so that it can be read in
  the middle of a move.
\<close>

section \<open>State\<close>

record stepper_move =
  m_interval :: u32
  m_add :: u16
  m_count :: u16
  m_dir :: bool      \<comment> \<open>\<open>MF_DIR\<close>\<close>

text \<open>The bits \<open>SF_...\<close> of \<open>flags\<close> are the fields \<open>sf_...\<close>.\<close>

record stepper =
  st_interval :: u32
  st_add :: u16
  st_count :: u32
  st_next_step_time :: u32
  st_step_pulse_ticks :: u32
  st_step_pin :: u32
  st_dir_pin :: u32
  st_position :: u32
  st_mq :: move_queue_head
  sf_last_dir :: bool
  sf_next_dir :: bool
  sf_invert_step :: bool
  sf_need_reset :: bool
  sf_single_sched :: bool
  sf_have_add :: bool

text \<open>\<open>step_move\<close> is what the move nodes hold behind their link.\<close>

record steppers = trsyncs +
  stepper_of :: "u8 \<Rightarrow> stepper"
  step_move :: "nat \<Rightarrow> stepper_move"

definition POSITION_BIAS :: u32 where "POSITION_BIAS = 0x40000000"

definition AVR_STEP_INSNS :: u32 where "AVR_STEP_INSNS = 40"

definition HAVE_EDGE_OPTIMIZATION :: "'z sched_scheme \<Rightarrow> bool" where
  "HAVE_EDGE_OPTIMIZATION s \<longleftrightarrow>
     CONFIG_INLINE_STEPPER_HACK (kconf s) \<and> CONFIG_HAVE_STEPPER_BOTH_EDGE (kconf s)"

definition HAVE_AVR_OPTIMIZATION :: "'z sched_scheme \<Rightarrow> bool" where
  "HAVE_AVR_OPTIMIZATION s \<longleftrightarrow>
     \<not> HAVE_EDGE_OPTIMIZATION s \<and> CONFIG_INLINE_STEPPER_HACK (kconf s) \<and> CONFIG_MACH_AVR (kconf s)"

definition HAVE_SINGLE_SCHEDULE :: "'z sched_scheme \<Rightarrow> bool" where
  "HAVE_SINGLE_SCHEDULE s \<longleftrightarrow> HAVE_EDGE_OPTIMIZATION s \<or> HAVE_AVR_OPTIMIZATION s"

definition upd_st :: "u8 \<Rightarrow> (stepper \<Rightarrow> stepper) \<Rightarrow> 'z steppers_scheme \<Rightarrow> 'z steppers_scheme" where
  "upd_st oid f s = s\<lparr>stepper_of := (stepper_of s)(oid := f (stepper_of s oid))\<rparr>"

section \<open>Step events\<close>

text \<open>The timer of the stepper \<open>oid\<close> is \<open>Obj_timer oid\<close>.\<close>

definition load_timing :: "u8 \<Rightarrow> stepper_move \<Rightarrow> 'z steppers_scheme \<Rightarrow> 'z steppers_scheme" where
  "load_timing oid m s =
     (if HAVE_SINGLE_SCHEDULE s \<and> sf_single_sched (stepper_of s oid) then
        let s = set_waketime (Obj_timer oid) (timer_waketime s (Obj_timer oid) + m_interval m) s;
            s = (if HAVE_AVR_OPTIMIZATION s
                 then upd_st oid (\<lambda>st. st\<lparr>sf_have_add := m_add m \<noteq> 0\<rparr>) s else s)
        in upd_st oid (\<lambda>st. st\<lparr>st_count := ucast (m_count m)\<rparr>) s
      else
        let s = upd_st oid (\<lambda>st. st\<lparr>st_next_step_time := st_next_step_time st + m_interval m\<rparr>) s;
            s = set_waketime (Obj_timer oid) (st_next_step_time (stepper_of s oid)) s
        in upd_st oid (\<lambda>st. st\<lparr>st_count := ucast (m_count m) * 2\<rparr>) s)"

definition load_position :: "u8 \<Rightarrow> stepper_move \<Rightarrow> 'z steppers_scheme \<Rightarrow> 'z steppers_scheme" where
  "load_position oid m s =
     (if m_dir m then
        hw_do (Gpio_out_toggle (st_dir_pin (stepper_of s oid)))
          (upd_st oid (\<lambda>st. st\<lparr>st_position := - st_position st + ucast (m_count m)\<rparr>) s)
      else upd_st oid (\<lambda>st. st\<lparr>st_position := st_position st + ucast (m_count m)\<rparr>) s)"

definition stepper_load_next ::
    "u8 \<Rightarrow> 'z steppers_scheme \<Rightarrow> (sf_result, 'z steppers_scheme) outcome" where
  "stepper_load_next oid s =
     (if move_queue_empty (st_mq (stepper_of s oid)) then
        Ret SF_DONE (upd_st oid (\<lambda>st. st\<lparr>st_count := 0\<rparr>) s)
      else
        andThen (move_queue_pop (st_mq (stepper_of s oid)) s) (\<lambda>(mn, mq) s.
          let s = upd_st oid (\<lambda>st. st\<lparr>st_mq := mq\<rparr>) s;
              m = step_move s mn;
              s = upd_st oid (\<lambda>st. st\<lparr>st_add := m_add m,
                    st_interval := m_interval m + scast (m_add m)\<rparr>) s;
              s = load_timing oid m s;
              s = load_position oid m s
          in Ret SF_RESCHEDULE (move_free mn s)))"

definition stepper_event_edge ::
    "u8 \<Rightarrow> 'z steppers_scheme \<Rightarrow> (sf_result, 'z steppers_scheme) outcome" where
  "stepper_event_edge oid s =
     (let s = hw_do (Gpio_out_toggle (st_step_pin (stepper_of s oid))) s;
          count = st_count (stepper_of s oid) - 1
      in if count \<noteq> 0 then
           let s = upd_st oid (\<lambda>st. st\<lparr>st_count := count\<rparr>) s;
               s = set_waketime (Obj_timer oid)
                     (timer_waketime s (Obj_timer oid) + st_interval (stepper_of s oid)) s;
               s = upd_st oid (\<lambda>st. st\<lparr>st_interval := st_interval st + scast (st_add st)\<rparr>) s
           in Ret SF_RESCHEDULE s
         else stepper_load_next oid s)"

text \<open>The AVR variant counts in the low 16 bits of \<open>count\<close>.\<close>

definition stepper_event_avr ::
    "u8 \<Rightarrow> 'z steppers_scheme \<Rightarrow> (sf_result, 'z steppers_scheme) outcome" where
  "stepper_event_avr oid s =
     (let s = hw_do (Gpio_out_toggle (st_step_pin (stepper_of s oid))) s;
          count = (ucast (st_count (stepper_of s oid)) :: u16) - 1
      in if count \<noteq> 0 then
           let s = upd_st oid (\<lambda>st. st\<lparr>st_count := (st_count st AND 0xffff0000) OR ucast count\<rparr>) s;
               s = set_waketime (Obj_timer oid)
                     (timer_waketime s (Obj_timer oid) + st_interval (stepper_of s oid)) s;
               s = hw_do (Gpio_out_toggle (st_step_pin (stepper_of s oid))) s;
               s = (if sf_have_add (stepper_of s oid)
                    then upd_st oid (\<lambda>st. st\<lparr>st_interval := st_interval st + scast (st_add st)\<rparr>) s
                    else s)
           in Ret SF_RESCHEDULE s
         else
           andThen (stepper_load_next oid s) (\<lambda>ret s.
             Ret ret (hw_do (Gpio_out_toggle (st_step_pin (stepper_of s oid))) s)))"

text \<open>The label \<open>reschedule_min\<close>.\<close>

definition reschedule_min ::
    "u8 \<Rightarrow> u32 \<Rightarrow> 'z steppers_scheme \<Rightarrow> (sf_result, 'z steppers_scheme) outcome" where
  "reschedule_min oid min_next_time s =
     Ret SF_RESCHEDULE (set_waketime (Obj_timer oid) min_next_time s)"

definition stepper_event_full ::
    "u8 \<Rightarrow> 'z steppers_scheme \<Rightarrow> (sf_result, 'z steppers_scheme) outcome" where
  "stepper_event_full oid s =
     (let s = hw_do (Gpio_out_toggle (st_step_pin (stepper_of s oid))) s;
          curtime = timer_read_time s;
          min_next_time = curtime + st_step_pulse_ticks (stepper_of s oid);
          s = upd_st oid (\<lambda>st. st\<lparr>st_count := st_count st - 1\<rparr>) s
      in if odd (unat (st_count (stepper_of s oid))) then reschedule_min oid min_next_time s
         else if st_count (stepper_of s oid) \<noteq> 0 then
           let s = upd_st oid (\<lambda>st. st\<lparr>st_next_step_time := st_next_step_time st + st_interval st\<rparr>) s;
               s = upd_st oid (\<lambda>st. st\<lparr>st_interval := st_interval st + scast (st_add st)\<rparr>) s
           in if timer_is_before (st_next_step_time (stepper_of s oid)) min_next_time
              then reschedule_min oid min_next_time s
              else Ret SF_RESCHEDULE
                     (set_waketime (Obj_timer oid) (st_next_step_time (stepper_of s oid)) s)
         else
           andThen (stepper_load_next oid s) (\<lambda>ret s.
             if ret = SF_DONE \<or> \<not> timer_is_before (timer_waketime s (Obj_timer oid)) min_next_time
             then Ret ret s
             else
               let diff = sint (timer_waketime s (Obj_timer oid) - min_next_time) in
               if diff < sint (- timer_from_us s 1000) then Shutdown ''Stepper too far in past'' s
               else reschedule_min oid min_next_time s))"

definition stepper_event ::
    "u8 \<Rightarrow> 'z steppers_scheme \<Rightarrow> (sf_result, 'z steppers_scheme) outcome" where
  "stepper_event oid s =
     (if HAVE_EDGE_OPTIMIZATION s then stepper_event_edge oid s
      else if HAVE_AVR_OPTIMIZATION s then stepper_event_avr oid s
      else stepper_event_full oid s)"

section \<open>Commands\<close>

definition stepper_zero :: stepper where
  "stepper_zero =
     \<lparr>st_interval = 0, st_add = 0, st_count = 0, st_next_step_time = 0, st_step_pulse_ticks = 0,
      st_step_pin = 0, st_dir_pin = 0, st_position = 0,
      st_mq = \<lparr>mq_first = None, mq_last = None\<rparr>,
      sf_last_dir = False, sf_next_dir = False, sf_invert_step = False, sf_need_reset = False,
      sf_single_sched = False, sf_have_add = False\<rparr>"

text \<open>
  \<open>command_config_stepper\<close>. The new object is zero (\<open>alloc_chunk\<close> clears it); the sizes of the
  structs belong to the build.
\<close>

definition command_config_stepper ::
    "nat \<Rightarrow> nat \<Rightarrow> u32 list \<Rightarrow> 'z steppers_scheme \<Rightarrow> (unit, 'z steppers_scheme) outcome" where
  "command_config_stepper sizeof_stepper sizeof_move args s =
     (let oid = arg_oid args 0 in
      andThen (oid_alloc oid Stepper_type sizeof_stepper s) (\<lambda>_ s.
        let s = upd_st oid (\<lambda>_. stepper_zero) s;
            invert_step = sint (ucast (args ! 3) :: u8);
            s = upd_st oid (\<lambda>st. st\<lparr>sf_invert_step := invert_step > 0\<rparr>) s;
            s = hw_do (Gpio_out_setup (args ! 1) (invert_step > 0)) s;
            s = upd_st oid (\<lambda>st. st\<lparr>st_step_pin := args ! 1\<rparr>) s;
            s = hw_do (Gpio_out_setup (args ! 2) False) s;
            s = upd_st oid (\<lambda>st. st\<lparr>st_dir_pin := args ! 2, st_position := - POSITION_BIAS,
                                    st_step_pulse_ticks := args ! 4\<rparr>) s
        in andThen (move_queue_setup sizeof_move s) (\<lambda>mq s.
          let s = upd_st oid (\<lambda>st. st\<lparr>st_mq := mq\<rparr>) s in
          if HAVE_EDGE_OPTIMIZATION s then
            if args ! 4 = 0 \<and> invert_step < 0
            then Ret () (upd_st oid (\<lambda>st. st\<lparr>sf_single_sched := True\<rparr>) s)
            else Ret () (set_func (Obj_timer oid) Stepper_event_full s)
          else if HAVE_AVR_OPTIMIZATION s then
            if args ! 4 \<le> AVR_STEP_INSNS
            then Ret () (upd_st oid (\<lambda>st. st\<lparr>sf_single_sched := True\<rparr>) s)
            else Ret () (set_func (Obj_timer oid) Stepper_event_full s)
          else if \<not> CONFIG_INLINE_STEPPER_HACK (kconf s)
            then Ret () (set_func (Obj_timer oid) Stepper_event_full s)
          else Ret () s)))"

definition stepper_oid_lookup :: "u8 \<Rightarrow> 'z steppers_scheme \<Rightarrow> (u8, 'z steppers_scheme) outcome" where
  "stepper_oid_lookup oid s = andThen (oid_lookup oid Stepper_type s) (\<lambda>_ s. Ret oid s)"

definition push_step_move ::
    "u8 \<Rightarrow> nat \<Rightarrow> 'z steppers_scheme \<Rightarrow> (unit, 'z steppers_scheme) outcome" where
  "push_step_move oid m s =
     andThen (move_queue_push m (st_mq (stepper_of s oid)) s)
       (\<lambda>(_, mq) s. Ret () (upd_st oid (\<lambda>st. st\<lparr>st_mq := mq\<rparr>) s))"

definition command_queue_step ::
    "u32 list \<Rightarrow> 'z steppers_scheme \<Rightarrow> (unit, 'z steppers_scheme) outcome" where
  "command_queue_step args s =
     andThen (stepper_oid_lookup (arg_oid args 0) s) (\<lambda>oid s.
     andThen (move_alloc s) (\<lambda>m s.
     andThen (shutdown_if ((ucast (args ! 2) :: u16) = 0) ''Invalid count parameter''
         (s\<lparr>step_move := (step_move s)(m := (step_move s m)\<lparr>m_interval := args ! 1,
              m_count := ucast (args ! 2)\<rparr>)\<rparr>)) (\<lambda>_ s.
       let s = s\<lparr>step_move := (step_move s)(m := (step_move s m)\<lparr>m_add := ucast (args ! 3),
                   m_dir := False\<rparr>)\<rparr>;
           turn = (sf_last_dir (stepper_of s oid) \<noteq> sf_next_dir (stepper_of s oid));
           set_flags = (if turn then upd_st oid (\<lambda>st. st\<lparr>sf_last_dir := \<not> sf_last_dir st\<rparr>)
                        else (\<lambda>s. s));
           s = (if turn then s\<lparr>step_move := (step_move s)(m := (step_move s m)\<lparr>m_dir := True\<rparr>)\<rparr>
                else s)
       in if st_count (stepper_of s oid) \<noteq> 0 then
            push_step_move oid m (set_flags s)
          else if sf_need_reset (stepper_of s oid) then Ret () (move_free m s)
          else
            andThen (push_step_move oid m (set_flags s)) (\<lambda>_ s.
            andThen (stepper_load_next oid s) (\<lambda>_ s.
              sched_add_timer (Obj_timer oid) s)))))"

definition command_set_next_step_dir ::
    "u32 list \<Rightarrow> 'z steppers_scheme \<Rightarrow> (unit, 'z steppers_scheme) outcome" where
  "command_set_next_step_dir args s =
     andThen (stepper_oid_lookup (arg_oid args 0) s) (\<lambda>oid s.
       Ret () (upd_st oid (\<lambda>st. st\<lparr>sf_next_dir := args ! 1 \<noteq> 0\<rparr>) s))"

definition command_reset_step_clock ::
    "u32 list \<Rightarrow> 'z steppers_scheme \<Rightarrow> (unit, 'z steppers_scheme) outcome" where
  "command_reset_step_clock args s =
     andThen (stepper_oid_lookup (arg_oid args 0) s) (\<lambda>oid s.
       let waketime = args ! 1 in
       andThen (shutdown_if (st_count (stepper_of s oid) \<noteq> 0)
           ''Can't reset time when stepper active'' s) (\<lambda>_ s.
         Ret () (upd_st oid (\<lambda>st. st\<lparr>sf_need_reset := False\<rparr>)
           (upd_st oid (\<lambda>st. st\<lparr>st_next_step_time := waketime\<rparr>)
             (set_waketime (Obj_timer oid) waketime s)))))"

definition stepper_get_position :: "u8 \<Rightarrow> 'z steppers_scheme \<Rightarrow> u32" where
  "stepper_get_position oid s =
     (let st = stepper_of s oid;
          position = (if HAVE_SINGLE_SCHEDULE s \<and> sf_single_sched st
                      then st_position st - st_count st
                      else st_position st - st_count st div 2)
      in if position AND 0x80000000 \<noteq> 0 then - position else position)"

definition command_stepper_get_position ::
    "u32 list \<Rightarrow> 'z steppers_scheme \<Rightarrow> (unit, 'z steppers_scheme) outcome" where
  "command_stepper_get_position args s =
     (let oid = arg_oid args 0 in
      andThen (stepper_oid_lookup oid s) (\<lambda>_ s.
        let position = stepper_get_position oid s
        in Ret () (command_sendf (Response ''stepper_position'' [ucast oid, position - POSITION_BIAS]) s)))"

text \<open>
  The loop of \<open>stepper_stop\<close> that frees the queued moves. A queue holds at most \<open>move_count\<close>
  nodes, so \<open>move_count + 1\<close> rounds end it.
\<close>

fun free_moves :: "nat \<Rightarrow> u8 \<Rightarrow> 'z steppers_scheme \<Rightarrow> (unit, 'z steppers_scheme) outcome" where
  "free_moves fuel oid s =
     (if move_queue_empty (st_mq (stepper_of s oid)) then Ret () s
      else
        (case fuel of
           0 \<Rightarrow> Fault
         | Suc fuel' \<Rightarrow>
             andThen (move_queue_pop (st_mq (stepper_of s oid)) s) (\<lambda>(mn, mq) s.
               free_moves fuel' oid (move_free mn (upd_st oid (\<lambda>st. st\<lparr>st_mq := mq\<rparr>) s)))))"

declare free_moves.simps [simp del]

definition stepper_halt :: "u8 \<Rightarrow> 'z steppers_scheme \<Rightarrow> 'z steppers_scheme" where
  "stepper_halt oid s =
     (let s = set_waketime (Obj_timer oid) 0 (upd_st oid (\<lambda>st. st\<lparr>st_next_step_time := 0\<rparr>) s);
          pos = stepper_get_position oid s;
          s = upd_st oid (\<lambda>st. st\<lparr>st_position := - pos\<rparr>) s;
          s = upd_st oid (\<lambda>st. st\<lparr>st_count := 0\<rparr>) s;
          s = upd_st oid (\<lambda>st. st\<lparr>sf_last_dir := False, sf_next_dir := False, sf_have_add := False,
                sf_need_reset := True\<rparr>) s;
          s = hw_do (Gpio_out_write (st_dir_pin (stepper_of s oid)) False) s
      in if \<not> (HAVE_EDGE_OPTIMIZATION s \<and> sf_single_sched (stepper_of s oid))
         then hw_do (Gpio_out_write (st_step_pin (stepper_of s oid))
                (sf_invert_step (stepper_of s oid))) s
         else s)"

definition stepper_stop ::
    "u8 \<Rightarrow> u8 \<Rightarrow> 'z steppers_scheme \<Rightarrow> (unit, 'z steppers_scheme) outcome" where
  "stepper_stop oid reason s =
     andThen (sched_del_timer (Obj_timer oid) s) (\<lambda>_ s.
       let s = stepper_halt oid s in free_moves (move_count s + 1) oid s)"

definition stepper_signal ::
    "signal_func \<Rightarrow> u8 \<Rightarrow> u8 \<Rightarrow> 'z steppers_scheme \<Rightarrow> (unit, 'z steppers_scheme) outcome" where
  "stepper_signal f tss reason s = (case f of Stepper_stop \<Rightarrow> stepper_stop tss reason s)"

definition command_stepper_stop_on_trigger ::
    "u32 list \<Rightarrow> 'z steppers_scheme \<Rightarrow> (unit, 'z steppers_scheme) outcome" where
  "command_stepper_stop_on_trigger args s =
     andThen (stepper_oid_lookup (arg_oid args 0) s) (\<lambda>oid s.
     andThen (trsync_oid_lookup (arg_oid args 1) s) (\<lambda>ts s.
       trsync_add_signal ts oid Stepper_stop s))"

definition stepper_shutdown :: "'z steppers_scheme \<Rightarrow> (unit, 'z steppers_scheme) outcome" where
  "stepper_shutdown s =
     foreach_oid Stepper_type (\<lambda>oid s.
       stepper_stop oid 0 (upd_st oid (\<lambda>st. st\<lparr>st_mq := move_queue_clear (st_mq st)\<rparr>) s)) s"

section \<open>The reported position\<close>

text \<open>The position is kept with a sign that records the direction; folding it gives the report.\<close>

definition fold_pos :: "u32 \<Rightarrow> u32" where
  "fold_pos p = (if p AND 0x80000000 \<noteq> 0 then - p else p)"

definition raw_pos :: "u8 \<Rightarrow> 'z steppers_scheme \<Rightarrow> u32" where
  "raw_pos oid s =
     (let st = stepper_of s oid in
      if HAVE_SINGLE_SCHEDULE s \<and> sf_single_sched st then st_position st - st_count st
      else st_position st - st_count st div 2)"

lemma get_position_fold: "stepper_get_position oid s = fold_pos (raw_pos oid s)"
  by (simp add: stepper_get_position_def fold_pos_def raw_pos_def Let_def)

lemma top_bit: "p AND 0x80000000 \<noteq> 0 \<longleftrightarrow> sint p < 0" for p :: u32
proof -
  have "(0x80000000 :: u32) = 2 ^ 31" by simp
  then have "p AND 0x80000000 = 0 \<longleftrightarrow> \<not> bit p 31"
    by (simp only: and_exp_eq_0_iff_not_bit)
  moreover have "bit p 31 \<longleftrightarrow> sint p < 0" using bit_last_iff [of p] by simp
  ultimately show ?thesis by blast
qed

lemma sint_minus_cases: "- p = p \<or> sint (- p) = - sint p" for p :: u32
proof (cases "sint p = - (2 ^ 31)")
  case True
  have "p = word_of_int (sint p)" by simp
  then have "p = word_of_int (- (2 ^ 31))" by (simp only: True)
  then show ?thesis by simp
next
  case False
  have "- (2 ^ 31) \<le> sint p" "sint p < 2 ^ 31"
    using sint_greater_eq [of p] sint_less [of p] by simp_all
  with False have "signed_take_bit 31 (- sint p) = - sint p"
    by (simp add: signed_take_bit_int_eq_self_iff)
  moreover have "sint (- p) = signed_take_bit 31 (- sint p)" by (simp add: sint_word_ariths)
  ultimately show ?thesis by simp
qed

lemma fold_pos_minus: "fold_pos (- p) = fold_pos p"
proof (cases "- p = p")
  case True
  then show ?thesis by (rule arg_cong)
next
  case False
  with sint_minus_cases [of p] have m: "sint (- p) = - sint p" by blast
  show ?thesis
  proof (cases "p = 0")
    case True
    then show ?thesis by simp
  next
    case False
    then have "sint p \<noteq> 0" by (simp add: signed_eq_0_iff)
    with m show ?thesis unfolding fold_pos_def top_bit by auto
  qed
qed

lemma fold_pos_fold: "fold_pos (fold_pos p) = fold_pos p"
  by (simp add: fold_pos_def [of p] fold_pos_minus)

lemma fold_pos_step:
  "fold_pos (p + 1) = (if p AND 0x80000000 \<noteq> 0 then fold_pos p - 1 else fold_pos p + 1)"
proof -
  have s1: "sint (p + 1) = (if sint p = 2 ^ 31 - 1 then - (2 ^ 31) else sint p + 1)"
  proof -
    have b: "- (2 ^ 31) \<le> sint p" "sint p < 2 ^ 31"
      using sint_greater_eq [of p] sint_less [of p] by simp_all
    have e: "sint (p + 1) = signed_take_bit 31 (sint p + 1)" by (simp add: sint_word_ariths)
    show ?thesis
    proof (cases "sint p = 2 ^ 31 - 1")
      case True
      have "signed_take_bit 31 (2 ^ 31 :: int) = - (2 ^ 31)" by (simp add: signed_take_bit_eq_if_negative)
      with True e show ?thesis by simp
    next
      case False
      with b e show ?thesis by (simp add: signed_take_bit_int_eq_self_iff)
    qed
  qed
  show ?thesis
  proof (cases "sint p < 0")
    case True
    show ?thesis
    proof (cases "p = - 1")
      case True
      then show ?thesis by (simp add: fold_pos_def)
    next
      case False
      then have "p + 1 \<noteq> 0" by (metis add_diff_cancel_right' diff_0)
      then have "sint (p + 1) \<noteq> 0" by (simp add: signed_eq_0_iff)
      with s1 True show ?thesis by (simp add: fold_pos_def top_bit)
    qed
  next
    case False
    show ?thesis
    proof (cases "sint p = 2 ^ 31 - 1")
      case True
      have "p = word_of_int (sint p)" by simp
      then have "p = word_of_int (2 ^ 31 - 1)" by (simp only: True)
      then show ?thesis by (simp add: fold_pos_def)
    next
      case f: False
      with False s1 show ?thesis by (simp add: fold_pos_def top_bit)
    qed
  qed
qed

section \<open>Loading a move\<close>

abbreviation single :: "u8 \<Rightarrow> 'z steppers_scheme \<Rightarrow> bool" where
  "single oid s \<equiv> HAVE_SINGLE_SCHEDULE s \<and> sf_single_sched (stepper_of s oid)"

lemma upd_st_fields [simp]:
  "stepper_of (upd_st oid f s) = (stepper_of s)(oid := f (stepper_of s oid))"
  "step_move (upd_st oid f s) = step_move s"
  "timer_waketime (upd_st oid f s) = timer_waketime s"
  "kconf (upd_st oid f s) = kconf s"
  "move_next (upd_st oid f s) = move_next s"
  "move_free_list (upd_st oid f s) = move_free_list s"
  by (simp_all add: upd_st_def)

lemma stepper_frame [simp]:
  "stepper_of (hw_do h s) = stepper_of s"
  "step_move (hw_do h s) = step_move s"
  "timer_waketime (hw_do h s) = timer_waketime s"
  "kconf (hw_do h s) = kconf s"
  "move_next (hw_do h s) = move_next s"
  "move_free_list (hw_do h s) = move_free_list s"
  "stepper_of (set_waketime t w s) = stepper_of s"
  "step_move (set_waketime t w s) = step_move s"
  "kconf (set_waketime t w s) = kconf s"
  "move_next (set_waketime t w s) = move_next s"
  "move_free_list (set_waketime t w s) = move_free_list s"
  "stepper_of (move_free m s) = stepper_of s"
  "step_move (move_free m s) = step_move s"
  "timer_waketime (move_free m s) = timer_waketime s"
  "kconf (move_free m s) = kconf s"
  "move_next (move_free m s) = (move_next s)(m := move_free_list s)"
  "move_free_list (move_free m s) = Some m"
  by (simp_all add: hw_do_def set_waketime_def move_free_def set_move_next_def)

lemma have_frame [simp]:
  "kconf s' = kconf s \<Longrightarrow> HAVE_SINGLE_SCHEDULE s' = HAVE_SINGLE_SCHEDULE s"
  "kconf s' = kconf s \<Longrightarrow> HAVE_AVR_OPTIMIZATION s' = HAVE_AVR_OPTIMIZATION s"
  "kconf s' = kconf s \<Longrightarrow> HAVE_EDGE_OPTIMIZATION s' = HAVE_EDGE_OPTIMIZATION s"
  by (simp_all add: HAVE_SINGLE_SCHEDULE_def HAVE_AVR_OPTIMIZATION_def HAVE_EDGE_OPTIMIZATION_def)

declare have_frame [simp del]

lemma load_next_empty:
  "mq_first (st_mq (stepper_of s oid)) = None \<Longrightarrow>
     stepper_load_next oid s = Ret SF_DONE (upd_st oid (\<lambda>st. st\<lparr>st_count := 0\<rparr>) s)"
  by (simp add: stepper_load_next_def move_queue_empty_def)

lemma have_upd [simp]:
  "HAVE_SINGLE_SCHEDULE (upd_st oid f s) = HAVE_SINGLE_SCHEDULE s"
  "HAVE_AVR_OPTIMIZATION (upd_st oid f s) = HAVE_AVR_OPTIMIZATION s"
  "HAVE_EDGE_OPTIMIZATION (upd_st oid f s) = HAVE_EDGE_OPTIMIZATION s"
  "HAVE_SINGLE_SCHEDULE (hw_do h s) = HAVE_SINGLE_SCHEDULE s"
  "HAVE_AVR_OPTIMIZATION (hw_do h s) = HAVE_AVR_OPTIMIZATION s"
  "HAVE_EDGE_OPTIMIZATION (hw_do h s) = HAVE_EDGE_OPTIMIZATION s"
  "HAVE_SINGLE_SCHEDULE (set_waketime t w s) = HAVE_SINGLE_SCHEDULE s"
  "HAVE_AVR_OPTIMIZATION (set_waketime t w s) = HAVE_AVR_OPTIMIZATION s"
  "HAVE_EDGE_OPTIMIZATION (set_waketime t w s) = HAVE_EDGE_OPTIMIZATION s"
  "HAVE_SINGLE_SCHEDULE (move_free m s) = HAVE_SINGLE_SCHEDULE s"
  "HAVE_AVR_OPTIMIZATION (move_free m s) = HAVE_AVR_OPTIMIZATION s"
  "HAVE_EDGE_OPTIMIZATION (move_free m s) = HAVE_EDGE_OPTIMIZATION s"
  by (rule have_frame, simp)+

lemma load_fields:
  "timer_waketime (load_position oid m s) = timer_waketime s"
  "move_next (load_position oid m s) = move_next s"
  "move_free_list (load_position oid m s) = move_free_list s"
  "kconf (load_position oid m s) = kconf s"
  "stepper_of (load_position oid m s) = (stepper_of s)(oid := (stepper_of s oid)\<lparr>st_position :=
     (if m_dir m then - st_position (stepper_of s oid) else st_position (stepper_of s oid)) + ucast (m_count m)\<rparr>)"
  "move_next (load_timing oid m s) = move_next s"
  "move_free_list (load_timing oid m s) = move_free_list s"
  "kconf (load_timing oid m s) = kconf s"
  "timer_waketime (load_timing oid m s) = (timer_waketime s)(Obj_timer oid :=
     (if single oid s then timer_waketime s (Obj_timer oid) else st_next_step_time (stepper_of s oid)) + m_interval m)"
  "stepper_of (load_timing oid m s) = (stepper_of s)(oid := (stepper_of s oid)\<lparr>
     st_next_step_time := (if single oid s then st_next_step_time (stepper_of s oid)
       else st_next_step_time (stepper_of s oid) + m_interval m),
     sf_have_add := (if single oid s \<and> HAVE_AVR_OPTIMIZATION s then m_add m \<noteq> 0 else sf_have_add (stepper_of s oid)),
     st_count := (if single oid s then ucast (m_count m) else ucast (m_count m) * 2)\<rparr>)"
  by (simp_all add: load_position_def load_timing_def Let_def)

text \<open>The effect of loading the move \<open>m\<close> on the stepper, as a function.\<close>

definition loaded :: "bool \<Rightarrow> bool \<Rightarrow> stepper_move \<Rightarrow> nat option \<Rightarrow> stepper \<Rightarrow> stepper" where
  "loaded sgl avr m next st =
     st\<lparr>st_mq := (st_mq st)\<lparr>mq_first := next\<rparr>, st_add := m_add m,
        st_interval := m_interval m + scast (m_add m),
        st_next_step_time := (if sgl then st_next_step_time st else st_next_step_time st + m_interval m),
        sf_have_add := (if sgl \<and> avr then m_add m \<noteq> 0 else sf_have_add st),
        st_count := (if sgl then ucast (m_count m) else ucast (m_count m) * 2),
        st_position := (if m_dir m then - st_position st else st_position st) + ucast (m_count m)\<rparr>"

lemma load_next_some:
  assumes "mq_first (st_mq (stepper_of s oid)) = Some mn"
  defines "st \<equiv> stepper_of s oid" and "m \<equiv> step_move s mn"
  shows "\<exists>s'. stepper_load_next oid s = Ret SF_RESCHEDULE s' \<and>
    stepper_of s' = (stepper_of s)(oid := loaded (single oid s) (HAVE_AVR_OPTIMIZATION s) m
       (move_next s mn) st) \<and>
    timer_waketime s' = (timer_waketime s)(Obj_timer oid :=
       (if single oid s then timer_waketime s (Obj_timer oid) else st_next_step_time st) + m_interval m) \<and>
    move_next s' = (move_next s)(mn := move_free_list s) \<and> move_free_list s' = Some mn \<and>
    kconf s' = kconf s"
proof -
  have p: "move_queue_pop (st_mq (stepper_of s oid)) s =
      Ret (mn, (st_mq (stepper_of s oid))\<lparr>mq_first := move_next s mn\<rparr>) s"
    using assms(1) by (simp add: move_queue_pop_def)
  let ?s1 = "upd_st oid (\<lambda>st. st\<lparr>st_add := m_add m, st_interval := m_interval m + scast (m_add m)\<rparr>)
      (upd_st oid (\<lambda>st. st\<lparr>st_mq := (st_mq (stepper_of s oid))\<lparr>mq_first := move_next s mn\<rparr>\<rparr>) s)"
  let ?s' = "move_free mn (load_position oid m (load_timing oid m ?s1))"
  have "stepper_load_next oid s = Ret SF_RESCHEDULE ?s'"
    using assms(1) by (simp add: stepper_load_next_def move_queue_empty_def p Let_def m_def)
  then show ?thesis
    by (simp add: load_fields loaded_def st_def)
qed


section \<open>The position in the middle of a move\<close>

lemma unat_ucast_16_32: "unat (ucast c :: u32) = unat c" for c :: u16
proof -
  have "unat c < 2 ^ LENGTH(16)" by (rule unsigned_less)
  then have "take_bit 32 (unat c) = unat c" by (intro take_bit_nat_eq_self) simp
  then show ?thesis by (simp add: unsigned_ucast_eq)
qed

lemma ucast_times2_div2: "(ucast (c :: u16) * 2 :: u32) div 2 = ucast c"
proof -
  have "unat c < 2 ^ LENGTH(16)" by (rule unsigned_less)
  then have c: "unat c < 2 ^ 16" by simp
  then have "unat (ucast c * 2 :: u32) = unat c * 2"
    by (subst unat_times_exact) (simp_all add: unat_ucast_16_32)
  then have "unat ((ucast c * 2 :: u32) div 2) = unat c" by (simp add: unat_div)
  then show ?thesis by (simp add: word_unat_eq_iff unat_ucast_16_32)
qed

lemma load_next_position:
  assumes "stepper_load_next oid s = Ret r s'" "st_count (stepper_of s oid) = 0"
  shows "stepper_get_position oid s' = stepper_get_position oid s"
proof (cases "mq_first (st_mq (stepper_of s oid))")
  case None
  with assms have "s' = upd_st oid (\<lambda>st. st\<lparr>st_count := 0\<rparr>) s" by (simp add: load_next_empty)
  with assms(2) show ?thesis by (simp add: get_position_fold raw_pos_def Let_def)
next
  case (Some mn)
  from load_next_some [OF Some] assms(1) have
    st: "stepper_of s' = (stepper_of s)(oid := loaded (single oid s) (HAVE_AVR_OPTIMIZATION s)
       (step_move s mn) (move_next s mn) (stepper_of s oid))" and k: "kconf s' = kconf s" by auto
  have "raw_pos oid s' = (if m_dir (step_move s mn) then - st_position (stepper_of s oid)
      else st_position (stepper_of s oid))"
    by (simp add: raw_pos_def Let_def st loaded_def have_frame(1) [OF k] ucast_times2_div2)
  moreover have "raw_pos oid s = st_position (stepper_of s oid)"
    using assms(2) by (simp add: raw_pos_def Let_def)
  ultimately show ?thesis by (simp add: get_position_fold fold_pos_minus)
qed

lemma div2_pred: "unat (c - 1 :: u32) = unat c - 1" if "c \<noteq> 0"
  using that unat_minus_one by blast

lemma half_pred:
  fixes c :: u32
  assumes "c \<noteq> 0"
  shows "(c - 1) div 2 = (if even (unat c) then c div 2 - 1 else c div 2)"
proof -
  have u: "unat (c - 1) = unat c - 1" using assms by (rule div2_pred)
  have c: "0 < unat c" using assms by (simp add: unat_gt_0)
  show ?thesis
  proof (cases "even (unat c)")
    case True
    then obtain k where k: "unat c = 2 * k" by (elim evenE)
    with c have k1: "1 \<le> k" by simp
    have d: "unat (c div 2) = k" using k by (simp add: unat_div)
    then have "c div 2 \<noteq> 0" using k1 by auto
    then have "unat (c div 2 - 1) = k - 1" using d by (simp add: div2_pred)
    moreover have "unat ((c - 1) div 2) = k - 1" using u k k1 by (simp add: unat_div)
    ultimately show ?thesis using True by (simp add: word_unat_eq_iff)
  next
    case False
    then obtain k where "unat c = 2 * k + 1" by (elim oddE)
    with u False show ?thesis by (simp add: word_unat_eq_iff unat_div)
  qed
qed

text \<open>One event of the regular step function: the step edges are the even counts.\<close>

lemma event_full_position:
  assumes "stepper_event_full oid s = Ret r s'" "\<not> single oid s" "st_count (stepper_of s oid) \<noteq> 0"
  shows "stepper_get_position oid s' =
    (if odd (unat (st_count (stepper_of s oid))) then stepper_get_position oid s
     else fold_pos (raw_pos oid s + 1))"
proof -
  let ?c = "st_count (stepper_of s oid)"
  define s1 where "s1 = upd_st oid (\<lambda>st. st\<lparr>st_count := st_count st - 1\<rparr>)
      (hw_do (Gpio_out_toggle (st_step_pin (stepper_of s oid))) s)"
  have raw1: "raw_pos oid s1 = (if odd (unat ?c) then raw_pos oid s else raw_pos oid s + 1)"
    using assms(2) half_pred [OF assms(3)] by (auto simp: raw_pos_def s1_def Let_def)
  have c1: "st_count (stepper_of s1 oid) = ?c - 1" by (simp add: s1_def)
  have sm: "stepper_get_position oid (set_waketime t w u) = stepper_get_position oid u"
    "stepper_get_position oid (upd_st oid (\<lambda>st. st\<lparr>st_next_step_time := f st\<rparr>) u) = stepper_get_position oid u"
    "stepper_get_position oid (upd_st oid (\<lambda>st. st\<lparr>st_interval := g st\<rparr>) u) = stepper_get_position oid u"
    for t w f g and u :: "'a steppers_scheme"
    by (simp_all add: get_position_fold raw_pos_def Let_def)
  have "stepper_get_position oid s' = stepper_get_position oid s1"
  proof (cases "odd (unat (?c - 1)) \<or> ?c - 1 \<noteq> 0")
    case True
    with assms(1) show ?thesis
      by (auto simp: stepper_event_full_def reschedule_min_def Let_def s1_def sm split: if_splits)
  next
    case False
    then have z: "st_count (stepper_of s1 oid) = 0" by (simp add: c1)
    from assms(1) False obtain ret u where
      l: "stepper_load_next oid s1 = Ret ret u" and "s' = u \<or> (\<exists>t w. s' = set_waketime t w u)"
      by (auto simp: stepper_event_full_def reschedule_min_def Let_def s1_def split: if_splits)
    then have "stepper_get_position oid s' = stepper_get_position oid u" by (auto simp: sm)
    with load_next_position [OF l z] show ?thesis by simp
  qed
  then show ?thesis by (simp add: get_position_fold raw1)
qed

section \<open>The times of the steps\<close>

text \<open>A run of timer events, the clock reading \<open>t\<close> at each.\<close>

fun run_at ::
    "u32 list \<Rightarrow> ('z sched_scheme \<Rightarrow> (sf_result, 'z sched_scheme) outcome) \<Rightarrow> 'z sched_scheme
       \<Rightarrow> (unit, 'z sched_scheme) outcome" where
  "run_at [] ev s = Ret () s"
| "run_at (t # ts) ev s = andThen (ev (s\<lparr>timer_read_time := t\<rparr>)) (\<lambda>_ s. run_at ts ev s)"

lemma triangle_Suc: "Suc k * k div 2 = k * (k - 1) div 2 + k"
proof -
  have "Suc k * k = k * (k - 1) + k * 2" by (cases k) (simp_all add: algebra_simps)
  then show ?thesis by simp
qed

lemma clock_frame [simp]:
  "stepper_of (s\<lparr>timer_read_time := t\<rparr>) = stepper_of s"
  "timer_waketime (s\<lparr>timer_read_time := t\<rparr>) = timer_waketime s"
  by simp_all

lemma word_count_pred: "k < unat c \<Longrightarrow> c - of_nat k \<noteq> 0" for c :: u32
proof
  assume k: "k < unat c" and "c - of_nat k = 0"
  then have "c = of_nat k" by simp
  then have "unat c \<le> k" by (metis unat_of_nat mod_less_eq_dividend)
  with k show False by simp
qed

text \<open>Stepping on both edges: every event is a step.\<close>

lemma edge_event:
  assumes "st_count (stepper_of s oid) \<noteq> 1"
  shows "\<exists>s'. stepper_event_edge oid s = Ret SF_RESCHEDULE s' \<and>
    stepper_of s' oid = (stepper_of s oid)\<lparr>st_count := st_count (stepper_of s oid) - 1,
      st_interval := st_interval (stepper_of s oid) + scast (st_add (stepper_of s oid))\<rparr> \<and>
    timer_waketime s' (Obj_timer oid) =
      timer_waketime s (Obj_timer oid) + st_interval (stepper_of s oid)"
  using assms by (simp add: stepper_event_edge_def Let_def)

lemma edge_run:
  assumes "length ts < unat (st_count (stepper_of s oid))"
  shows "\<exists>s'. run_at ts (stepper_event_edge oid) s = Ret () s' \<and>
    timer_waketime s' (Obj_timer oid) = timer_waketime s (Obj_timer oid)
      + of_nat (length ts) * st_interval (stepper_of s oid)
      + of_nat (length ts * (length ts - 1) div 2) * scast (st_add (stepper_of s oid))"
  using assms
proof (induction ts arbitrary: s)
  case Nil
  then show ?case by simp
next
  case (Cons t ts)
  let ?st = "stepper_of s oid" and ?k = "length ts"
  have "st_count ?st \<noteq> 1" using Cons.prems by auto
  then obtain s1 where s1: "stepper_event_edge oid (s\<lparr>timer_read_time := t\<rparr>) = Ret SF_RESCHEDULE s1"
    "stepper_of s1 oid = ?st\<lparr>st_count := st_count ?st - 1,
      st_interval := st_interval ?st + scast (st_add ?st)\<rparr>"
    "timer_waketime s1 (Obj_timer oid) = timer_waketime s (Obj_timer oid) + st_interval ?st"
    using edge_event [of "s\<lparr>timer_read_time := t\<rparr>" oid] by auto
  have "st_count ?st \<noteq> 0" using Cons.prems by auto
  then have "?k < unat (st_count (stepper_of s1 oid))"
    using Cons.prems by (simp add: s1(2) div2_pred)
  from Cons.IH [OF this] obtain s' where
    s': "run_at ts (stepper_event_edge oid) s1 = Ret () s'"
      "timer_waketime s' (Obj_timer oid) = timer_waketime s1 (Obj_timer oid)
        + of_nat ?k * st_interval (stepper_of s1 oid)
        + of_nat (?k * (?k - 1) div 2) * scast (st_add (stepper_of s1 oid))" by blast
  have "Suc ?k * (Suc ?k - 1) div 2 = ?k * (?k - 1) div 2 + ?k" using triangle_Suc [of ?k] by simp
  with s1 s' show ?case by (simp add: algebra_simps)
qed

text \<open>
  Stepping and unstepping: the time of the next step depends on the moves alone, however late the
  events run and however often a pulse had to be pushed back.
\<close>

definition not_before :: "u32 \<Rightarrow> u32 \<Rightarrow> u32" where
  "not_before earliest t = (if timer_is_before t earliest then earliest else t)"

lemma full_step_edge:
  assumes "odd (unat (st_count (stepper_of s oid) - 1))"
  shows "\<exists>s'. stepper_event_full oid s = Ret SF_RESCHEDULE s' \<and>
    stepper_of s' oid = (stepper_of s oid)\<lparr>st_count := st_count (stepper_of s oid) - 1\<rparr> \<and>
    hw s' = hw s @ [Gpio_out_toggle (st_step_pin (stepper_of s oid))] \<and>
    timer_waketime s' (Obj_timer oid) = timer_read_time s + st_step_pulse_ticks (stepper_of s oid)"
  using assms by (simp add: stepper_event_full_def reschedule_min_def Let_def hw_do_def set_waketime_def upd_st_def)

lemma full_unstep_edge:
  assumes "even (unat (st_count (stepper_of s oid) - 1))" "st_count (stepper_of s oid) \<noteq> 1"
  shows "\<exists>s'. stepper_event_full oid s = Ret SF_RESCHEDULE s' \<and>
    stepper_of s' oid = (stepper_of s oid)\<lparr>st_count := st_count (stepper_of s oid) - 1,
      st_next_step_time := st_next_step_time (stepper_of s oid) + st_interval (stepper_of s oid),
      st_interval := st_interval (stepper_of s oid) + scast (st_add (stepper_of s oid))\<rparr> \<and>
    hw s' = hw s @ [Gpio_out_toggle (st_step_pin (stepper_of s oid))] \<and>
    timer_waketime s' (Obj_timer oid) =
      not_before (timer_read_time s + st_step_pulse_ticks (stepper_of s oid)) (st_next_step_time (stepper_of s' oid))"
  using assms
  by (simp add: stepper_event_full_def reschedule_min_def not_before_def Let_def hw_do_def set_waketime_def upd_st_def)

text \<open>
  The two events of a step and the next time: the pin is toggled twice, and the timer is armed for the
  time of the next step, or for the end of the pulse when this is later.
\<close>

lemma full_step_pair:
  assumes "unat (st_count (stepper_of s oid)) = 2 * n" "1 < n"
  defines "st \<equiv> stepper_of s oid"
  obtains s1 s2 where
    "stepper_event_full oid (s\<lparr>timer_read_time := t1\<rparr>) = Ret SF_RESCHEDULE s1"
    "stepper_event_full oid (s1\<lparr>timer_read_time := t2\<rparr>) = Ret SF_RESCHEDULE s2"
    "stepper_of s2 oid = st\<lparr>st_count := st_count st - 1 - 1, st_next_step_time := st_next_step_time st + st_interval st,
      st_interval := st_interval st + scast (st_add st)\<rparr>"
    "unat (st_count (stepper_of s2 oid)) = 2 * (n - 1)"
    "hw s2 = hw s @ [Gpio_out_toggle (st_step_pin st), Gpio_out_toggle (st_step_pin st)]"
    "timer_waketime s2 (Obj_timer oid) = not_before (t2 + st_step_pulse_ticks st) (st_next_step_time (stepper_of s2 oid))"
proof -
  have c: "st_count st \<noteq> 0" using assms by auto
  then have u1: "unat (st_count st - 1) = 2 * n - 1" using assms(1) by (simp add: div2_pred st_def)
  then have "odd (unat (st_count st - 1))" using assms(2) by simp
  then obtain s1 where s1: "stepper_event_full oid (s\<lparr>timer_read_time := t1\<rparr>) = Ret SF_RESCHEDULE s1"
    "stepper_of s1 oid = st\<lparr>st_count := st_count st - 1\<rparr>" "hw s1 = hw s @ [Gpio_out_toggle (st_step_pin st)]"
    using full_step_edge [of "s\<lparr>timer_read_time := t1\<rparr>" oid] by (auto simp: st_def)
  have "unat (st_count st - 1) \<noteq> 0" "unat (st_count st - 1) \<noteq> 1" using u1 assms(2) by simp_all
  then have nz: "st_count st - 1 \<noteq> 0" "st_count st - 1 \<noteq> 1" by auto
  have "unat (st_count st - 1 - 1) = unat (st_count st - 1) - 1" using nz(1) by (rule div2_pred)
  also have "\<dots> = 2 * (n - 1)" using u1 by (simp only:)
  finally have u2: "unat (st_count st - 1 - 1) = 2 * (n - 1)" .
  then have "even (unat (st_count (stepper_of s1 oid) - 1))" by (simp add: s1(2))
  then obtain s2 where "stepper_event_full oid (s1\<lparr>timer_read_time := t2\<rparr>) = Ret SF_RESCHEDULE s2"
    "stepper_of s2 oid = (stepper_of s1 oid)\<lparr>st_count := st_count (stepper_of s1 oid) - 1,
      st_next_step_time := st_next_step_time (stepper_of s1 oid) + st_interval (stepper_of s1 oid),
      st_interval := st_interval (stepper_of s1 oid) + scast (st_add (stepper_of s1 oid))\<rparr>"
    "hw s2 = hw s1 @ [Gpio_out_toggle (st_step_pin (stepper_of s1 oid))]"
    "timer_waketime s2 (Obj_timer oid) =
      not_before (t2 + st_step_pulse_ticks (stepper_of s1 oid)) (st_next_step_time (stepper_of s2 oid))"
    using full_unstep_edge [of "s1\<lparr>timer_read_time := t2\<rparr>" oid] nz(2) s1(2) by auto
  with s1 u2 show ?thesis by (intro that [of s1 s2]) simp_all
qed

lemma full_run:
  assumes "length ts = 2 * k" "unat (st_count (stepper_of s oid)) = 2 * n" "k < n"
  shows "\<exists>s'. run_at ts (stepper_event_full oid) s = Ret () s' \<and>
    st_next_step_time (stepper_of s' oid) = st_next_step_time (stepper_of s oid)
      + of_nat k * st_interval (stepper_of s oid)
      + of_nat (k * (k - 1) div 2) * scast (st_add (stepper_of s oid)) \<and>
    unat (st_count (stepper_of s' oid)) = 2 * (n - k) \<and>
    st_step_pin (stepper_of s' oid) = st_step_pin (stepper_of s oid) \<and>
    st_step_pulse_ticks (stepper_of s' oid) = st_step_pulse_ticks (stepper_of s oid) \<and>
    hw s' = hw s @ replicate (2 * k) (Gpio_out_toggle (st_step_pin (stepper_of s oid))) \<and>
    timer_waketime s' (Obj_timer oid) =
      (if k = 0 then timer_waketime s (Obj_timer oid)
       else not_before (last ts + st_step_pulse_ticks (stepper_of s oid)) (st_next_step_time (stepper_of s' oid)))"
  using assms
proof (induction k arbitrary: ts s n)
  case 0
  then show ?case by simp
next
  case (Suc k)
  let ?st = "stepper_of s oid"
  from Suc.prems(1) obtain t1 t2 ts' where ts: "ts = t1 # t2 # ts'" "length ts' = 2 * k"
    by (cases ts; cases "tl ts") auto
  have n: "1 < n" "k < n - 1" using Suc.prems(3) by simp_all
  obtain s1 s2 where s1: "stepper_event_full oid (s\<lparr>timer_read_time := t1\<rparr>) = Ret SF_RESCHEDULE s1"
    and s2: "stepper_event_full oid (s1\<lparr>timer_read_time := t2\<rparr>) = Ret SF_RESCHEDULE s2"
      "stepper_of s2 oid = ?st\<lparr>st_count := st_count ?st - 1 - 1, st_next_step_time := st_next_step_time ?st + st_interval ?st,
        st_interval := st_interval ?st + scast (st_add ?st)\<rparr>"
      "unat (st_count (stepper_of s2 oid)) = 2 * (n - 1)"
      "hw s2 = hw s @ [Gpio_out_toggle (st_step_pin ?st), Gpio_out_toggle (st_step_pin ?st)]"
      "timer_waketime s2 (Obj_timer oid) = not_before (t2 + st_step_pulse_ticks ?st) (st_next_step_time (stepper_of s2 oid))"
    by (rule full_step_pair [OF Suc.prems(2) n(1)])
  obtain s' where s': "run_at ts' (stepper_event_full oid) s2 = Ret () s'"
      "st_next_step_time (stepper_of s' oid) = st_next_step_time (stepper_of s2 oid)
        + of_nat k * st_interval (stepper_of s2 oid)
        + of_nat (k * (k - 1) div 2) * scast (st_add (stepper_of s2 oid))"
      "unat (st_count (stepper_of s' oid)) = 2 * (n - 1 - k)"
      "st_step_pin (stepper_of s' oid) = st_step_pin (stepper_of s2 oid)"
      "st_step_pulse_ticks (stepper_of s' oid) = st_step_pulse_ticks (stepper_of s2 oid)"
      "hw s' = hw s2 @ replicate (2 * k) (Gpio_out_toggle (st_step_pin (stepper_of s2 oid)))"
      "timer_waketime s' (Obj_timer oid) =
        (if k = 0 then timer_waketime s2 (Obj_timer oid)
         else not_before (last ts' + st_step_pulse_ticks (stepper_of s2 oid)) (st_next_step_time (stepper_of s' oid)))"
    using Suc.IH [OF ts(2) s2(3) n(2)] by blast
  have "run_at ts (stepper_event_full oid) s = Ret () s'" using s1 s2(1) s'(1) by (simp add: ts(1))
  moreover have "Suc k * (Suc k - 1) div 2 = k * (k - 1) div 2 + k" using triangle_Suc [of k] by simp
  then have "st_next_step_time (stepper_of s' oid) = st_next_step_time ?st + of_nat (Suc k) * st_interval ?st
      + of_nat (Suc k * (Suc k - 1) div 2) * scast (st_add ?st)"
    by (simp add: s'(2) s2(2) algebra_simps)
  moreover have "timer_waketime s' (Obj_timer oid) =
      not_before (last ts + st_step_pulse_ticks ?st) (st_next_step_time (stepper_of s' oid))"
    using s'(2,7) s2(2,5) ts by (cases ts') auto
  moreover have "unat (st_count (stepper_of s' oid)) = 2 * (n - Suc k)" using s'(3) by simp
  moreover have "st_step_pin (stepper_of s' oid) = st_step_pin ?st"
    "st_step_pulse_ticks (stepper_of s' oid) = st_step_pulse_ticks ?st"
    using s'(4,5) s2(2) by simp_all
  moreover have "hw s' = hw s @ replicate (2 * Suc k) (Gpio_out_toggle (st_step_pin ?st))"
    using s'(6) s2(2,4) by simp
  ultimately show ?case by (intro exI [of _ s'] conjI) (simp_all only: nat.simps if_False)
qed

section \<open>Stopping\<close>

text \<open>
  The move nodes: \<open>fs\<close> are free, \<open>q oid\<close> are queued for the stepper \<open>oid\<close>; no node is in two lists
  and all are nodes of the pool.
\<close>

definition pool :: "'z steppers_scheme \<Rightarrow> nat list \<Rightarrow> (u8 \<Rightarrow> nat list) \<Rightarrow> bool" where
  "pool s fs q \<longleftrightarrow>
     free_nodes s fs \<and> (\<forall>oid. mq_list (st_mq (stepper_of s oid), move_next s) (q oid)) \<and>
     (\<forall>oid. set fs \<inter> set (q oid) = {}) \<and>
     (\<forall>a b. a \<noteq> b \<longrightarrow> set (q a) \<inter> set (q b) = {}) \<and>
     (\<forall>oid. set (q oid) \<subseteq> {..<move_count s})"

lemma pool_length: "pool s fs q \<Longrightarrow> length (q oid) \<le> move_count s"
proof -
  assume p: "pool s fs q"
  then have "distinct (q oid)" by (auto simp: pool_def mq_list_def dest: chain_distinct)
  then have "length (q oid) = card (set (q oid))" by (simp add: distinct_card)
  also have "\<dots> \<le> card {..<move_count s}" using p by (intro card_mono) (auto simp: pool_def)
  finally show ?thesis by simp
qed

definition free_first :: "u8 \<Rightarrow> nat \<Rightarrow> 'z steppers_scheme \<Rightarrow> 'z steppers_scheme" where
  "free_first oid mn s =
     move_free mn (upd_st oid (\<lambda>st. st\<lparr>st_mq := (st_mq st)\<lparr>mq_first := move_next s mn\<rparr>\<rparr>) s)"

lemma free_first_pool:
  assumes p: "pool s fs q" and q: "q oid = m # ms"
  shows "pool (free_first oid m s) (m # fs) (q(oid := ms))"
proof -
  note p' = p [unfolded pool_def]
  have m: "m \<notin> set fs" using p' q by (metis disjoint_iff list.set_intros(1))
  have mo: "m \<notin> set (q b)" if "b \<noteq> oid" for b
    using p' q that by (metis disjoint_iff list.set_intros(1))
  have "distinct (q oid)" using p by (auto simp: pool_def mq_list_def dest: chain_distinct)
  then have mm: "m \<notin> set ms" by (simp add: q)
  have "mq_list (st_mq (stepper_of (free_first oid m s) b), move_next (free_first oid m s)) ((q(oid := ms)) b)" for b
  proof (cases "b = oid")
    case True
    have "mq_list (st_mq (stepper_of s oid), move_next s) (m # ms)" using p' q by metis
    with True mm show ?thesis by (auto simp: mq_list_def free_first_def split: if_splits)
  next
    case False
    have "mq_list (st_mq (stepper_of s b), move_next s) (q b)" using p' by blast
    with False mo [OF False] show ?thesis by (auto simp: mq_list_def free_first_def)
  qed
  moreover have "free_nodes (free_first oid m s) (m # fs)"
    using p' m by (auto simp: free_nodes_def free_first_def)
  moreover have "move_count (free_first oid m s) = move_count s"
    by (simp add: free_first_def move_free_def set_move_next_def upd_st_def)
  moreover have "set (m # fs) \<inter> set ((q(oid := ms)) b) = {}" for b
    using p' mm mo [of b] q by (cases "b = oid") (auto, (metis disjoint_iff list.set_intros(2))+)
  moreover have "set ((q(oid := ms)) a) \<inter> set ((q(oid := ms)) b) = {}" if "a \<noteq> b" for a b
  proof -
    have "set (q a) \<inter> set (q b) = {}" using p' that by blast
    moreover have "set ms \<subseteq> set (q oid)" using q by auto
    ultimately show ?thesis using p' that by (cases "a = oid"; cases "b = oid") (auto, blast+)
  qed
  moreover have "set ((q(oid := ms)) b) \<subseteq> {..<move_count s}" for b
  proof -
    have "set (q b) \<subseteq> {..<move_count s}" using p' by blast
    then show ?thesis using q by auto
  qed
  ultimately show ?thesis by (simp only: pool_def) blast
qed

text \<open>Everything but the queue and the flags of the nodes is left alone.\<close>

definition moves_only :: "u8 \<Rightarrow> 'z steppers_scheme \<Rightarrow> 'z steppers_scheme \<Rightarrow> bool" where
  "moves_only oid s s' \<longleftrightarrow>
     (\<exists>nx fl mq. s' = s\<lparr>move_next := nx, move_free_list := fl,
        stepper_of := (stepper_of s)(oid := (stepper_of s oid)\<lparr>st_mq := mq\<rparr>)\<rparr>)"

lemma moves_only_free_first: "moves_only oid s (free_first oid m s)"
  unfolding moves_only_def free_first_def move_free_def set_move_next_def upd_st_def
  by (intro exI [of _ "(move_next s)(m := move_free_list s)"] exI [of _ "Some m"]
      exI [of _ "(st_mq (stepper_of s oid))\<lparr>mq_first := move_next s m\<rparr>"], cases s) simp

lemma moves_only_trans: "moves_only oid s t \<Longrightarrow> moves_only oid t u \<Longrightarrow> moves_only oid s u"
  unfolding moves_only_def by (elim exE, hypsubst, intro exI) simp

lemma free_moves_all:
  assumes "pool s fs q" "length (q oid) < fuel"
  shows "\<exists>s'. free_moves fuel oid s = Ret () s' \<and> pool s' (rev (q oid) @ fs) (q(oid := [])) \<and>
    moves_only oid s s'"
  using assms
proof (induction "q oid" arbitrary: fuel s fs q)
  case Nil
  then have "mq_list (st_mq (stepper_of s oid), move_next s) []" by (metis pool_def)
  then have "move_queue_empty (st_mq (stepper_of s oid))"
    by (simp add: mq_list_def move_queue_empty_def)
  then have "free_moves fuel oid s = Ret () s" by (simp add: free_moves.simps)
  moreover have "q(oid := []) = q" using Nil(1) by auto
  moreover have "moves_only oid s s" unfolding moves_only_def
    by (intro exI [of _ "move_next s"] exI [of _ "move_free_list s"] exI [of _ "st_mq (stepper_of s oid)"]) simp
  ultimately show ?case using Nil by auto
next
  case (Cons m ms)
  from Cons.prems(2) obtain k where k: "fuel = Suc k" by (cases fuel) auto
  have "mq_list (st_mq (stepper_of s oid), move_next s) (m # ms)"
    using Cons.prems(1) Cons.hyps(2) by (metis pool_def)
  then have f: "mq_first (st_mq (stepper_of s oid)) = Some m" by (simp add: mq_list_def)
  have step: "free_moves fuel oid s = free_moves k oid (free_first oid m s)"
    unfolding k by (subst free_moves.simps)
      (simp add: f move_queue_empty_def move_queue_pop_def free_first_def upd_st_def)
  let ?q = "q(oid := ms)"
  have p1: "pool (free_first oid m s) (m # fs) ?q"
    using Cons.prems(1) Cons.hyps(2) [symmetric] by (rule free_first_pool)
  have "ms = ?q oid" by simp
  moreover have "length (?q oid) < k" using Cons.prems(2) Cons.hyps(2) [symmetric] k by simp
  ultimately obtain s' where s': "free_moves k oid (free_first oid m s) = Ret () s'"
    "pool s' (rev (?q oid) @ m # fs) (?q(oid := []))" "moves_only oid (free_first oid m s) s'"
    using Cons.hyps(1) [of ?q "free_first oid m s" "m # fs" k] p1 by blast
  have "pool s' (rev (q oid) @ fs) (q(oid := []))"
    using s'(2) Cons.hyps(2) [symmetric] by simp
  with s'(1,3) step moves_only_trans [OF moves_only_free_first] show ?case by metis
qed


lemma pool_cong:
  assumes "move_next s' = move_next s" "move_free_list s' = move_free_list s" "move_count s' = move_count s"
    and "\<And>oid. st_mq (stepper_of s' oid) = st_mq (stepper_of s oid)"
  shows "pool s' = pool s"
  by (intro ext) (simp add: pool_def free_nodes_def assms)

lemma sched_only_steppers:
  assumes "sched_only s s'"
  shows "stepper_of s' = stepper_of s" "step_move s' = step_move s" "move_next s' = move_next s"
    "move_free_list s' = move_free_list s" "move_count s' = move_count s"
    "trsync_of s' = trsync_of s" "tss_next s' = tss_next s" "tss_func s' = tss_func s"
    "oids s' = oids s" "oid_count s' = oid_count s"
  by (subst assms [unfolded sched_only_def], simp)+

lemma moves_only_fields:
  assumes "moves_only oid s s'"
  shows "timer_next s' = timer_next s" "timer_list s' = timer_list s" "last_insert s' = last_insert s"
    "timer_waketime s' = timer_waketime s" "trsync_of s' = trsync_of s" "tss_next s' = tss_next s"
    "tss_func s' = tss_func s" "kconf s' = kconf s" "timer_func s' = timer_func s"
    "move_count s' = move_count s" "hw s' = hw s"
    "\<exists>mq. stepper_of s' = (stepper_of s)(oid := (stepper_of s oid)\<lparr>st_mq := mq\<rparr>)"
  using assms by (auto simp: moves_only_def)

lemma position_frame:
  "stepper_get_position oid (set_waketime t w s) = stepper_get_position oid s"
  "stepper_get_position oid (upd_st oid (\<lambda>st. st\<lparr>st_next_step_time := v\<rparr>) s) = stepper_get_position oid s"
  by (simp_all add: get_position_fold raw_pos_def Let_def)

lemma halt_fields:
  "timer_next (stepper_halt oid s) = timer_next s" "timer_list (stepper_halt oid s) = timer_list s"
  "last_insert (stepper_halt oid s) = last_insert s"
  "timer_waketime (stepper_halt oid s) = (timer_waketime s)(Obj_timer oid := 0)"
  "move_next (stepper_halt oid s) = move_next s" "move_free_list (stepper_halt oid s) = move_free_list s"
  "move_count (stepper_halt oid s) = move_count s"
  "trsync_of (stepper_halt oid s) = trsync_of s" "tss_next (stepper_halt oid s) = tss_next s"
  "tss_func (stepper_halt oid s) = tss_func s" "kconf (stepper_halt oid s) = kconf s"
  "timer_func (stepper_halt oid s) = timer_func s"
  "stepper_of (stepper_halt oid s) = (stepper_of s)(oid := (stepper_of s oid)\<lparr>st_next_step_time := 0,
     st_position := - stepper_get_position oid s, st_count := 0, sf_last_dir := False, sf_next_dir := False,
     sf_have_add := False, sf_need_reset := True\<rparr>)"
proof -
  show "stepper_of (stepper_halt oid s) = (stepper_of s)(oid := (stepper_of s oid)\<lparr>st_next_step_time := 0,
     st_position := - stepper_get_position oid s, st_count := 0, sf_last_dir := False, sf_next_dir := False,
     sf_have_add := False, sf_need_reset := True\<rparr>)"
    by (simp add: stepper_halt_def Let_def position_frame)
qed (simp_all add: stepper_halt_def Let_def upd_st_def hw_do_def set_waketime_def)

lemma raw_pos_cong:
  assumes "kconf s' = kconf s" "sf_single_sched (stepper_of s' oid) = sf_single_sched (stepper_of s oid)"
    and "st_position (stepper_of s' oid) = st_position (stepper_of s oid)"
    and "st_count (stepper_of s' oid) = st_count (stepper_of s oid)"
  shows "raw_pos oid s' = raw_pos oid s"
  by (simp add: raw_pos_def Let_def have_frame(1) [OF assms(1)] assms)

lemma halt_position: "stepper_get_position oid (stepper_halt oid s) = stepper_get_position oid s"
proof -
  have "raw_pos oid (stepper_halt oid s) = - stepper_get_position oid s"
    by (simp add: raw_pos_def halt_fields Let_def)
  then show ?thesis by (simp add: get_position_fold fold_pos_minus fold_pos_fold)
qed

text \<open>
  Stopping a stepper: its timer is unlinked, its moves are back on the free list, it waits for a
  new clock, and the position it reports is the one it had.
\<close>

lemma stepper_stop_spec:
  assumes inv: "timer_inv s xs" and p: "pool s fs q"
  shows "\<exists>s' xs'. stepper_stop oid reason s = Ret () s' \<and> timer_inv s' xs' \<and>
    active xs' = filter (\<lambda>x. x \<noteq> Obj_timer oid) (active xs) \<and>
    (timers_sorted s xs \<longrightarrow> timers_sorted s' xs') \<and>
    pool s' (rev (q oid) @ fs) (q(oid := [])) \<and>
    st_count (stepper_of s' oid) = 0 \<and> sf_need_reset (stepper_of s' oid) \<and>
    (\<forall>b. b \<noteq> oid \<longrightarrow> stepper_of s' b = stepper_of s b) \<and>
    stepper_get_position oid s' = stepper_get_position oid s \<and>
    trsync_of s' = trsync_of s \<and> tss_next s' = tss_next s \<and> tss_func s' = tss_func s \<and> kconf s' = kconf s"
proof -
  obtain s1 xs1 where d: "sched_del_timer (Obj_timer oid) s = Ret () s1" "timer_inv s1 xs1"
    "active xs1 = filter (\<lambda>x. x \<noteq> Obj_timer oid) (active xs)" "timers_sorted s xs \<Longrightarrow> timers_sorted s1 xs1"
  proof (cases "timers_sorted s xs")
    case True
    from del_timer_removes [OF inv True, of "Obj_timer oid"] that show ?thesis by auto
  next
    case False
    from del_timer_list [OF inv, of "Obj_timer oid"] that False show ?thesis by auto
  qed
  have only: "sched_only s s1" using d(1) by (rule sched_del_timer_only)
  note f = sched_only_steppers [OF only] sched_only_fields(4) [OF only]
  let ?s2 = "stepper_halt oid s1"
  have "pool s1 = pool s" by (rule pool_cong) (simp_all add: f)
  moreover have "pool ?s2 = pool s1" by (rule pool_cong) (simp_all add: halt_fields)
  ultimately have p2: "pool ?s2 fs q" using p by simp
  have "length (q oid) < move_count ?s2 + 1" using pool_length [OF p2, of oid] by simp
  from free_moves_all [OF p2 this] obtain s' where
    s': "free_moves (move_count ?s2 + 1) oid ?s2 = Ret () s'" "pool s' (rev (q oid) @ fs) (q(oid := []))"
      "moves_only oid ?s2 s'" by blast
  note g = moves_only_fields [OF s'(3)]
  from g(12) obtain mq where st: "stepper_of s' = (stepper_of ?s2)(oid := (stepper_of ?s2 oid)\<lparr>st_mq := mq\<rparr>)" by blast
  have "stepper_stop oid reason s = Ret () s'" using d(1) s'(1) by (simp add: stepper_stop_def Let_def)
  moreover have "timer_inv s' = timer_inv s1" by (rule timer_inv_cong) (simp_all add: g halt_fields)
  then have "timer_inv s' xs1" using d(2) by simp
  moreover have "timers_sorted s' xs1" if "timers_sorted s xs"
  proof -
    have "Obj_timer oid \<notin> set xs1"
    proof
      assume "Obj_timer oid \<in> set xs1"
      then have "Obj_timer oid \<in> set (active xs1)" by simp
      then show False by (simp add: d(3))
    qed
    then have "sorted (map (timer_key s') xs1) = sorted (map (timer_key s1) xs1)"
      by (intro sorted_map_cong_keys timer_key_cong) (auto simp: g halt_fields)
    then show ?thesis using d(4) [OF that] by (simp add: timers_sorted_def)
  qed
  moreover have "raw_pos oid s' = raw_pos oid ?s2"
    by (rule raw_pos_cong) (simp_all add: g st)
  then have "stepper_get_position oid s' = stepper_get_position oid s1"
    using halt_position [of oid s1] by (simp add: get_position_fold)
  moreover have "raw_pos oid s1 = raw_pos oid s" by (rule raw_pos_cong) (simp_all add: f)
  then have "stepper_get_position oid s1 = stepper_get_position oid s" by (simp add: get_position_fold)
  ultimately show ?thesis
    using s'(2) d(3) by (intro exI [of _ s'] exI [of _ xs1]) (simp add: g st halt_fields f)
qed

definition stepper_ok :: "'z steppers_scheme \<Rightarrow> bool" where
  "stepper_ok s \<longleftrightarrow> (\<exists>xs. timer_inv s xs) \<and> (\<exists>fs q. pool s fs q)"

definition stopped :: "u8 \<Rightarrow> 'z steppers_scheme \<Rightarrow> bool" where
  "stopped oid s \<longleftrightarrow> st_count (stepper_of s oid) = 0 \<and> sf_need_reset (stepper_of s oid) \<and>
     mq_first (st_mq (stepper_of s oid)) = None \<and> (\<forall>xs. timer_inv s xs \<longrightarrow> Obj_timer oid \<notin> set xs)"

lemma stepper_signal_stops:
  assumes "stepper_ok s"
  shows "\<exists>s'. stepper_signal f x r s = Ret () s' \<and> stepper_ok s' \<and> stopped x s' \<and>
      trsync_of s' = trsync_of s \<and> tss_next s' = tss_next s \<and> tss_func s' = tss_func s \<and>
      (\<forall>y. stopped y s \<longrightarrow> stopped y s')"
proof -
  obtain xs fs q where i: "timer_inv s xs" "pool s fs q" using assms by (auto simp: stepper_ok_def)
  from stepper_stop_spec [OF i, of x r] obtain s' xs' where
    s': "stepper_stop x r s = Ret () s'" "timer_inv s' xs'"
      "active xs' = filter (\<lambda>t. t \<noteq> Obj_timer x) (active xs)"
      "pool s' (rev (q x) @ fs) (q(x := []))" "st_count (stepper_of s' x) = 0"
      "sf_need_reset (stepper_of s' x)" "\<forall>b. b \<noteq> x \<longrightarrow> stepper_of s' b = stepper_of s b"
      "trsync_of s' = trsync_of s" "tss_next s' = tss_next s" "tss_func s' = tss_func s" by blast
  have mem: "Obj_timer y \<in> set xs' \<longleftrightarrow> y \<noteq> x \<and> Obj_timer y \<in> set xs" for y
  proof -
    have "Obj_timer y \<in> set xs' \<longleftrightarrow> Obj_timer y \<in> set (active xs')" by simp
    also have "\<dots> \<longleftrightarrow> y \<noteq> x \<and> Obj_timer y \<in> set xs" by (auto simp: s'(3))
    finally show ?thesis .
  qed
  have "mq_list (st_mq (stepper_of s' x), move_next s') []" using s'(4) by (metis pool_def fun_upd_same)
  then have "mq_first (st_mq (stepper_of s' x)) = None" by (simp add: mq_list_def)
  then have "stopped x s'"
    using s'(2,5,6) mem by (auto simp: stopped_def dest: timer_inv_functional)
  moreover have "stopped y s'" if "stopped y s" for y
  proof (cases "y = x")
    case True
    then show ?thesis using \<open>stopped x s'\<close> by simp
  next
    case False
    then show ?thesis using that s'(2,7) mem i(1) by (auto simp: stopped_def dest: timer_inv_functional)
  qed
  ultimately show ?thesis
    using s' by (cases f) (auto simp: stepper_signal_def stepper_ok_def)
qed

interpretation stepper_trigger: trigger_client stepper_ok stopped stepper_signal
proof
  fix s :: "'a steppers_scheme" and a b c y w
  let ?s = "s\<lparr>trsync_of := a, tss_next := b, tss_func := c\<rparr>"
  have t: "timer_inv ?s = timer_inv s" by (rule timer_inv_cong) simp_all
  have p: "pool ?s = pool s" by (rule pool_cong) simp_all
  show "stopped y ?s = stopped y s" by (simp add: stopped_def t)
  show "stepper_ok s \<Longrightarrow> stepper_ok ?s" by (simp add: stepper_ok_def t p)
  let ?w = "sched_wake_task w s"
  have w: "stepper_of ?w = stepper_of s" by (simp add: sched_wake_task_def sched_wake_tasks_def Let_def)
  have tw: "timer_inv ?w = timer_inv s"
    by (rule timer_inv_cong) (simp_all add: sched_wake_task_def sched_wake_tasks_def Let_def)
  have pw: "pool ?w = pool s"
    by (rule pool_cong) (simp_all add: sched_wake_task_def sched_wake_tasks_def Let_def)
  show "stopped y ?w = stopped y s" by (simp add: stopped_def tw w)
  show "stepper_ok s \<Longrightarrow> stepper_ok ?w" by (simp add: stepper_ok_def tw pw)
qed (rule stepper_signal_stops)

section \<open>Properties of the steppers\<close>

definition steppers_init :: "kconfig \<Rightarrow> steppers" where
  "steppers_init k = trsyncs.extend (basecmd.extend (basecmd_init k)
       \<lparr>trsync_of = (\<lambda>_. trsync_zero), tss_next = (\<lambda>_. None), tss_func = (\<lambda>_. None)\<rparr>)
     \<lparr>stepper_of = (\<lambda>_. stepper_zero), step_move = (\<lambda>_. \<lparr>m_interval = 0, m_add = 0, m_count = 0, m_dir = False\<rparr>)\<rparr>"

abbreviation "steppers0 \<equiv> steppers_init example_conf"

lemmas steppers0_defs = steppers_init_def trsyncs.extend_def basecmd.extend_def base0_defs

text \<open>One move of five steps, 1000 ticks apart and 10 more each time, waiting in the queue of stepper 1.\<close>

definition steppers1 :: steppers where
  "steppers1 = steppers0\<lparr>
     stepper_of := (\<lambda>_. stepper_zero)(1 := stepper_zero\<lparr>st_mq := \<lparr>mq_first = Some 0, mq_last = Some 0\<rparr>,
       st_next_step_time := 5000\<rparr>),
     step_move := (\<lambda>_. \<lparr>m_interval = 1000, m_add = 10, m_count = 5, m_dir = True\<rparr>), move_count := 2,
     move_free_list := Some 1\<rparr>"

lemma steppers1_fields:
  "stepper_of steppers1 = (\<lambda>_. stepper_zero)(1 := stepper_zero\<lparr>st_mq := \<lparr>mq_first = Some 0, mq_last = Some 0\<rparr>,
       st_next_step_time := 5000\<rparr>)"
  "step_move steppers1 = (\<lambda>_. \<lparr>m_interval = 1000, m_add = 10, m_count = 5, m_dir = True\<rparr>)"
  "kconf steppers1 = example_conf" "move_next steppers1 = (\<lambda>_. None)"
  "move_free_list steppers1 = Some 1" "move_count steppers1 = 2"
  "trsync_of steppers1 = (\<lambda>_. trsync_zero)"
  by (simp_all add: steppers1_def steppers0_defs)

lemma steppers1_inv: "timer_inv steppers1 [Periodic_timer, Sentinel_timer]"
proof -
  have "timer_inv steppers1 = timer_inv sched0"
    by (simp add: fun_eq_iff timer_inv_def steppers1_def steppers0_defs)
  then show ?thesis using sched_init_inv(1) by simp
qed

lemma steppers1_pool: "pool steppers1 [1] ((\<lambda>_. [])(1 := [0]))"
  by (auto simp: pool_def steppers1_fields free_nodes_def mq_list_def stepper_zero_def)

lemma steppers1_ok: "stepper_ok steppers1"
  using steppers1_inv steppers1_pool by (auto simp: stepper_ok_def)

text \<open>
  The regular step function produces every step of a move at the time the host computed: after
  \<open>k\<close> step and unstep pairs the next step is due \<open>(k + 1) * interval + k (k + 1) / 2 * add\<close> ticks
  after the end of the previous move, in 32 bit arithmetic, whatever the clock reads at each event
  and however often a pulse was pushed back: a late step does not delay the following ones.
\<close>

theorem stepper_full_step_times:
  assumes "mq_first (st_mq (stepper_of s oid)) = Some mn" "\<not> single oid s"
    and "stepper_load_next oid s = Ret r s1"
    and "length ts = 2 * k" "k < unat (m_count (step_move s mn))"
  shows "\<exists>s2. run_at ts (stepper_event_full oid) s1 = Ret () s2 \<and>
    st_next_step_time (stepper_of s2 oid) = st_next_step_time (stepper_of s oid)
      + of_nat (k + 1) * m_interval (step_move s mn)
      + of_nat (k * (k + 1) div 2) * scast (m_add (step_move s mn))"
proof -
  let ?m = "step_move s mn"
  have sg: "single oid s = False" using assms(2) by blast
  have st: "stepper_of s1 = (stepper_of s)(oid :=
      loaded False (HAVE_AVR_OPTIMIZATION s) ?m (move_next s mn) (stepper_of s oid))"
    using load_next_some [OF assms(1)] assms(3) unfolding sg by auto
  have "unat (m_count ?m) < 2 ^ LENGTH(16)" by (rule unsigned_less)
  then have "unat (st_count (stepper_of s1 oid)) = 2 * unat (m_count ?m)"
    by (simp add: st loaded_def unat_times_exact unat_ucast_16_32)
  from full_run [OF assms(4) this assms(5)] obtain s2 where
    "run_at ts (stepper_event_full oid) s1 = Ret () s2"
    "st_next_step_time (stepper_of s2 oid) = st_next_step_time (stepper_of s1 oid)
      + of_nat k * st_interval (stepper_of s1 oid)
      + of_nat (k * (k - 1) div 2) * scast (st_add (stepper_of s1 oid))" by blast
  moreover have "k * (k + 1) div 2 = k * (k - 1) div 2 + k"
    using triangle_Suc [of k] by (simp add: mult.commute)
  ultimately show ?thesis by (simp add: st loaded_def algebra_simps)
qed

theorem stepper_full_step_times_witness:
  "\<exists>s1 s2. stepper_load_next 1 steppers1 = Ret SF_RESCHEDULE s1 \<and>
     run_at [9, 7, 100000, 3] (stepper_event_full 1) s1 = Ret () s2 \<and>
     st_next_step_time (stepper_of s2 1) = 8030"
proof -
  have f: "mq_first (st_mq (stepper_of steppers1 1)) = Some 0" by (simp add: steppers1_fields)
  from load_next_some [OF f] obtain s1 where l: "stepper_load_next 1 steppers1 = Ret SF_RESCHEDULE s1"
    by blast
  have n: "\<not> single 1 steppers1" by (simp add: steppers1_fields stepper_zero_def)
  from stepper_full_step_times [OF f n l, of "[9, 7, 100000, 3]" 2] l show ?thesis
    by (auto simp: steppers1_fields)
qed

text \<open>
  Stepping on both edges produces the same times, one event per step, in the wake times
  themselves.
\<close>

theorem stepper_edge_step_times:
  assumes "mq_first (st_mq (stepper_of s oid)) = Some mn" "single oid s"
    and "stepper_load_next oid s = Ret r s1" "length ts < unat (m_count (step_move s mn))"
  defines "k \<equiv> length ts"
  shows "\<exists>s2. run_at ts (stepper_event_edge oid) s1 = Ret () s2 \<and>
    timer_waketime s2 (Obj_timer oid) = timer_waketime s (Obj_timer oid)
      + of_nat (k + 1) * m_interval (step_move s mn)
      + of_nat (k * (k + 1) div 2) * scast (m_add (step_move s mn))"
proof -
  let ?m = "step_move s mn"
  from load_next_some [OF assms(1)] assms(3) have st: "stepper_of s1 = (stepper_of s)(oid :=
      loaded (single oid s) (HAVE_AVR_OPTIMIZATION s) ?m (move_next s mn) (stepper_of s oid))"
    and wk: "timer_waketime s1 (Obj_timer oid) = timer_waketime s (Obj_timer oid) + m_interval ?m"
    using assms(2) by auto
  have "length ts < unat (st_count (stepper_of s1 oid))"
    using assms(2,4) by (simp add: st loaded_def unat_ucast_16_32)
  from edge_run [OF this] obtain s2 where
    "run_at ts (stepper_event_edge oid) s1 = Ret () s2"
    "timer_waketime s2 (Obj_timer oid) = timer_waketime s1 (Obj_timer oid)
      + of_nat k * st_interval (stepper_of s1 oid)
      + of_nat (k * (k - 1) div 2) * scast (st_add (stepper_of s1 oid))" unfolding k_def by blast
  moreover have "k * (k + 1) div 2 = k * (k - 1) div 2 + k"
    using triangle_Suc [of k] by (simp add: mult.commute)
  ultimately show ?thesis using assms(2) by (simp add: st wk loaded_def algebra_simps)
qed

definition steppers2 :: steppers where
  "steppers2 = steppers1\<lparr>kconf := example_conf\<lparr>CONFIG_INLINE_STEPPER_HACK := True,
       CONFIG_HAVE_STEPPER_BOTH_EDGE := True\<rparr>,
     stepper_of := (\<lambda>_. stepper_zero)(1 := stepper_zero\<lparr>st_mq := \<lparr>mq_first = Some 0, mq_last = Some 0\<rparr>,
       sf_single_sched := True\<rparr>)\<rparr>"

theorem stepper_edge_step_times_witness:
  "\<exists>s1 s2. stepper_load_next 1 steppers2 = Ret SF_RESCHEDULE s1 \<and>
     run_at [9, 7] (stepper_event_edge 1) s1 = Ret () s2 \<and>
     timer_waketime s2 (Obj_timer 1) = timer_waketime steppers2 (Obj_timer 1) + 3030"
proof -
  have f: "mq_first (st_mq (stepper_of steppers2 1)) = Some 0" by (simp add: steppers2_def)
  from load_next_some [OF f] obtain s1 where l: "stepper_load_next 1 steppers2 = Ret SF_RESCHEDULE s1"
    by blast
  have n: "single 1 steppers2"
    by (simp add: steppers2_def HAVE_SINGLE_SCHEDULE_def HAVE_EDGE_OPTIMIZATION_def)
  have m: "step_move steppers2 0 = \<lparr>m_interval = 1000, m_add = 10, m_count = 5, m_dir = True\<rparr>"
    by (simp add: steppers2_def steppers1_fields)
  from stepper_edge_step_times [OF f n l, of "[9, 7]"] l show ?thesis by (auto simp: m)
qed

text \<open>
  The position that \<open>stepper_get_position\<close> reports in the middle of a move counts the steps
  really made: an event that makes a step moves it by exactly one, up or down with the direction
  of the move, an unstep event does not move it, and loading the next move, in either direction,
  does not move it either.
\<close>

theorem stepper_event_full_position:
  assumes "stepper_event_full oid s = Ret r s'" "\<not> single oid s" "st_count (stepper_of s oid) \<noteq> 0"
  shows "stepper_get_position oid s' =
    (if odd (unat (st_count (stepper_of s oid))) then stepper_get_position oid s
     else if raw_pos oid s AND 0x80000000 \<noteq> 0 then stepper_get_position oid s - 1
     else stepper_get_position oid s + 1)"
  using event_full_position [OF assms] by (auto simp: fold_pos_step get_position_fold)

theorem stepper_event_full_position_witness:
  "\<exists>s1 s'. stepper_load_next 1 steppers1 = Ret SF_RESCHEDULE s1 \<and>
     stepper_event_full 1 s1 = Ret SF_RESCHEDULE s' \<and>
     stepper_get_position 1 s' = stepper_get_position 1 s1 + 1"
proof -
  have f: "mq_first (st_mq (stepper_of steppers1 1)) = Some 0" by (simp add: steppers1_fields)
  have n: "\<not> single 1 steppers1" by (simp add: steppers1_fields stepper_zero_def)
  from load_next_some [OF f] obtain s1 where l: "stepper_load_next 1 steppers1 = Ret SF_RESCHEDULE s1"
    "stepper_of s1 1 = loaded False (HAVE_AVR_OPTIMIZATION steppers1) (step_move steppers1 0)
       (move_next steppers1 0) (stepper_of steppers1 1)" "kconf s1 = kconf steppers1"
    using n by auto
  have c: "st_count (stepper_of s1 1) = 10" "st_position (stepper_of s1 1) = 5"
    by (simp_all add: l(2) loaded_def steppers1_fields stepper_zero_def)
  have n1: "\<not> single 1 s1" by (simp add: l(2) loaded_def steppers1_fields stepper_zero_def)
  have "odd (unat (st_count (stepper_of s1 1) - 1))" by (simp add: c)
  from full_step_edge [OF this] obtain s' where s': "stepper_event_full 1 s1 = Ret SF_RESCHEDULE s'" by blast
  have r: "raw_pos 1 s1 = 0" using n1 by (simp add: raw_pos_def Let_def c)
  from stepper_event_full_position [OF s' n1] have
    "stepper_get_position 1 s' = stepper_get_position 1 s1 + 1" unfolding c r by simp
  with l(1) s' show ?thesis by blast
qed

text \<open>
  A stop takes a stepper out of motion completely and loses nothing: its timer is unlinked
  while the other timers keep their order, all its queued moves return to the free list and no
  other queue changes, it refuses moves until its clock is set again, and the position it reports
  is still the one it had in the middle of its move.
\<close>

theorem stepper_stop_halts:
  assumes "timer_inv s xs" "pool s fs q"
  shows "\<exists>s' xs'. stepper_stop oid reason s = Ret () s' \<and> timer_inv s' xs' \<and>
    active xs' = filter (\<lambda>x. x \<noteq> Obj_timer oid) (active xs) \<and>
    pool s' (rev (q oid) @ fs) (q(oid := [])) \<and>
    st_count (stepper_of s' oid) = 0 \<and> sf_need_reset (stepper_of s' oid) \<and>
    stepper_get_position oid s' = stepper_get_position oid s"
  using stepper_stop_spec [OF assms, of oid reason] by blast

theorem stepper_stop_halts_witness:
  "\<exists>s'. stepper_stop 1 0 steppers1 = Ret () s' \<and> pool s' [0, 1] (\<lambda>_. []) \<and>
     stepper_get_position 1 s' = stepper_get_position 1 steppers1"
proof -
  have "((\<lambda>_. [])(1 := [0]))(1 := []) = (\<lambda>_ :: u8. [] :: nat list)" by auto
  with stepper_stop_halts [OF steppers1_inv steppers1_pool, of 1 0] show ?thesis by auto
qed

text \<open>
  A trigger stops every stepper that was registered for it: \<open>trsync_do_trigger\<close> returns with
  all of them stopped and unregistered, the reason recorded and a report pending, and it happens
  at most once: a second trigger of the same object changes nothing.
\<close>

theorem trsync_trigger_stops_steppers:
  assumes "stepper_ok s" "signals s ts xs" "ts_can_trigger (trsync_of s ts)"
  shows "\<exists>s'. trsync_do_trigger stepper_signal ts reason s = Ret () s' \<and> stepper_ok s' \<and>
    (\<forall>x \<in> set xs. stopped x s' \<and> tss_func s' x = None) \<and> signals s' ts [] \<and>
    ts_trigger_reason (trsync_of s' ts) = reason \<and> ts_report (trsync_of s' ts) \<and>
    task_wake s' trsync_wake \<and>
    (\<forall>r. trsync_do_trigger stepper_signal ts r s' = Ret () s')"
  using assms by (rule stepper_trigger.do_trigger_stops)

theorem trsync_trigger_stops_steppers_witness:
  "\<exists>s'. trsync_do_trigger stepper_signal 2 7 (steppers1\<lparr>tss_func := (\<lambda>_. None)(1 := Some Stepper_stop),
       trsync_of := (\<lambda>_. trsync_zero)(2 := trsync_zero\<lparr>ts_signals := Some 1, ts_can_trigger := True\<rparr>)\<rparr>) = Ret () s' \<and>
     stopped 1 s'"
proof -
  let ?s = "steppers1\<lparr>tss_func := (\<lambda>_. None)(1 := Some Stepper_stop),
       trsync_of := (\<lambda>_. trsync_zero)(2 := trsync_zero\<lparr>ts_signals := Some 1, ts_can_trigger := True\<rparr>)\<rparr>"
  have "timer_inv ?s = timer_inv steppers1" by (rule timer_inv_cong) simp_all
  moreover have "pool ?s = pool steppers1" by (rule pool_cong) simp_all
  ultimately have ok: "stepper_ok ?s" using steppers1_ok by (simp add: stepper_ok_def)
  have nx: "tss_next steppers1 = (\<lambda>_. None)" by (simp add: steppers1_def steppers0_defs)
  have sig: "signals ?s 2 [1]" by (simp add: signals_def nx)
  from trsync_trigger_stops_steppers [OF ok sig] show ?thesis by auto
qed

end
