(* ===== verification/Endstop.thy ===== *)
theory Endstop
  imports Stepper
begin

text \<open>
  \<open>src/endstop.c\<close>: the homing switches. A timer samples the pin; the trigger fires only when the
  pin matched in a number of samples in a row.
\<close>

section \<open>State\<close>

text \<open>
  \<open>es_ts\<close> is the trsync object, \<open>None\<close> for \<open>NULL\<close>. The levels the input pins show are
  \<open>gpio_level\<close>, set by the world outside.
\<close>

record endstop =
  es_pin :: u32
  es_rest_time :: u32
  es_sample_time :: u32
  es_nextwake :: u32
  es_ts :: "u8 option"
  es_pin_high :: bool     \<comment> \<open>\<open>ESF_PIN_HIGH\<close>\<close>
  es_homing :: bool       \<comment> \<open>\<open>ESF_HOMING\<close>\<close>
  es_sample_count :: u8
  es_trigger_count :: u8
  es_trigger_reason :: u8

record endstops = steppers +
  endstop_of :: "u8 \<Rightarrow> endstop"
  gpio_level :: "u32 \<Rightarrow> bool"

definition upd_es :: "u8 \<Rightarrow> (endstop \<Rightarrow> endstop) \<Rightarrow> 'z endstops_scheme \<Rightarrow> 'z endstops_scheme" where
  "upd_es oid f s = s\<lparr>endstop_of := (endstop_of s)(oid := f (endstop_of s oid))\<rparr>"

definition gpio_in_read :: "u32 \<Rightarrow> 'z endstops_scheme \<Rightarrow> bool" where
  "gpio_in_read pin s = gpio_level s pin"

section \<open>Timer events\<close>

text \<open>\<open>(val ? ~e->flags : e->flags) & ESF_PIN_HIGH\<close>: the level is not the one waited for.\<close>

definition es_mismatch :: "u8 \<Rightarrow> 'z endstops_scheme \<Rightarrow> bool" where
  "es_mismatch oid s =
     (let val = gpio_in_read (es_pin (endstop_of s oid)) s in
      if val then \<not> es_pin_high (endstop_of s oid) else es_pin_high (endstop_of s oid))"

definition endstop_oversample_event ::
    "u8 \<Rightarrow> 'z endstops_scheme \<Rightarrow> (sf_result, 'z endstops_scheme) outcome" where
  "endstop_oversample_event oid s =
     (if es_mismatch oid s then
        let s = set_func (Obj_timer oid) Endstop_event s;
            s = set_waketime (Obj_timer oid) (es_nextwake (endstop_of s oid)) s
        in Ret SF_RESCHEDULE (upd_es oid (\<lambda>e. e\<lparr>es_trigger_count := es_sample_count e\<rparr>) s)
      else
        let count = es_trigger_count (endstop_of s oid) - 1 in
        if count = 0 then
          (case es_ts (endstop_of s oid) of
             None \<Rightarrow> Fault
           | Some ts \<Rightarrow>
               andThen (trsync_do_trigger stepper_signal ts (es_trigger_reason (endstop_of s oid)) s)
                 (\<lambda>_ s. Ret SF_DONE s))
        else
          let s = upd_es oid (\<lambda>e. e\<lparr>es_trigger_count := count\<rparr>) s
          in Ret SF_RESCHEDULE
               (set_waketime (Obj_timer oid)
                  (timer_waketime s (Obj_timer oid) + es_sample_time (endstop_of s oid)) s))"

definition endstop_event :: "u8 \<Rightarrow> 'z endstops_scheme \<Rightarrow> (sf_result, 'z endstops_scheme) outcome" where
  "endstop_event oid s =
     (let nextwake = timer_waketime s (Obj_timer oid) + es_rest_time (endstop_of s oid) in
      if es_mismatch oid s then Ret SF_RESCHEDULE (set_waketime (Obj_timer oid) nextwake s)
      else
        let s = upd_es oid (\<lambda>e. e\<lparr>es_nextwake := nextwake\<rparr>) s;
            s = set_func (Obj_timer oid) Endstop_oversample_event s
        in endstop_oversample_event oid s)"

section \<open>Commands\<close>

definition endstop_zero :: endstop where
  "endstop_zero = \<lparr>es_pin = 0, es_rest_time = 0, es_sample_time = 0, es_nextwake = 0, es_ts = None,
     es_pin_high = False, es_homing = False, es_sample_count = 0, es_trigger_count = 0,
     es_trigger_reason = 0\<rparr>"

definition command_config_endstop ::
    "nat \<Rightarrow> u32 list \<Rightarrow> 'z endstops_scheme \<Rightarrow> (unit, 'z endstops_scheme) outcome" where
  "command_config_endstop sizeof_endstop args s =
     (let oid = arg_oid args 0 in
      andThen (oid_alloc oid Endstop_type sizeof_endstop s) (\<lambda>_ s.
        let s = upd_es oid (\<lambda>_. endstop_zero) s;
            s = hw_do (Gpio_in_setup (args ! 1) (args ! 2)) s
        in Ret () (upd_es oid (\<lambda>e. e\<lparr>es_pin := args ! 1\<rparr>) s)))"

definition endstop_oid_lookup :: "u8 \<Rightarrow> 'z endstops_scheme \<Rightarrow> (u8, 'z endstops_scheme) outcome" where
  "endstop_oid_lookup oid s = andThen (oid_lookup oid Endstop_type s) (\<lambda>_ s. Ret oid s)"

definition command_endstop_home ::
    "u32 list \<Rightarrow> 'z endstops_scheme \<Rightarrow> (unit, 'z endstops_scheme) outcome" where
  "command_endstop_home args s =
     andThen (endstop_oid_lookup (arg_oid args 0) s) (\<lambda>oid s.
     andThen (sched_del_timer (Obj_timer oid) s) (\<lambda>_ s.
       let s = set_waketime (Obj_timer oid) (args ! 1) s;
           s = upd_es oid (\<lambda>e. e\<lparr>es_sample_time := args ! 2, es_sample_count := ucast (args ! 3)\<rparr>) s
       in if es_sample_count (endstop_of s oid) = 0 then
            Ret () (upd_es oid (\<lambda>e. e\<lparr>es_ts := None, es_homing := False, es_pin_high := False\<rparr>) s)
          else
            let s = upd_es oid (\<lambda>e. e\<lparr>es_rest_time := args ! 4\<rparr>) s;
                s = set_func (Obj_timer oid) Endstop_event s;
                s = upd_es oid (\<lambda>e. e\<lparr>es_trigger_count := es_sample_count e, es_homing := True,
                      es_pin_high := args ! 5 \<noteq> 0\<rparr>) s
            in andThen (trsync_oid_lookup (arg_oid args 6) s) (\<lambda>ts s.
                 sched_add_timer (Obj_timer oid)
                   (upd_es oid (\<lambda>e. e\<lparr>es_ts := Some ts, es_trigger_reason := ucast (args ! 7)\<rparr>) s))))"

definition command_endstop_query_state ::
    "u32 list \<Rightarrow> 'z endstops_scheme \<Rightarrow> (unit, 'z endstops_scheme) outcome" where
  "command_endstop_query_state args s =
     (let oid = arg_oid args 0 in
      andThen (endstop_oid_lookup oid s) (\<lambda>_ s.
        let e = endstop_of s oid in
        Ret () (command_sendf (Response ''endstop_state''
          [ucast oid, c_bool (es_homing e), es_nextwake e, c_bool (gpio_in_read (es_pin e) s)]) s)))"

section \<open>Sequences of samples\<close>

text \<open>The event the timer runs, and a run of samples in which the pin shows the levels \<open>vs\<close>.\<close>

definition endstop_timer :: "u8 \<Rightarrow> 'z endstops_scheme \<Rightarrow> (sf_result, 'z endstops_scheme) outcome" where
  "endstop_timer oid s =
     (if timer_func s (Obj_timer oid) = Some Endstop_event then endstop_event oid s
      else if timer_func s (Obj_timer oid) = Some Endstop_oversample_event
      then endstop_oversample_event oid s
      else Fault)"

definition set_level :: "u8 \<Rightarrow> bool \<Rightarrow> 'z endstops_scheme \<Rightarrow> 'z endstops_scheme" where
  "set_level oid v s = s\<lparr>gpio_level := (gpio_level s)(es_pin (endstop_of s oid) := v)\<rparr>"

fun run_endstop ::
    "u8 \<Rightarrow> bool list \<Rightarrow> 'z endstops_scheme \<Rightarrow> (sf_result, 'z endstops_scheme) outcome" where
  "run_endstop oid [] s = Ret SF_RESCHEDULE s"
| "run_endstop oid (v # vs) s =
     andThen (endstop_timer oid (set_level oid v s))
       (\<lambda>r s. if r = SF_DONE then Ret SF_DONE s else run_endstop oid vs s)"

text \<open>How many samples in a row have matched the level \<open>h\<close>, after \<open>k\<close> before.\<close>

fun in_a_row :: "bool \<Rightarrow> nat \<Rightarrow> bool list \<Rightarrow> nat" where
  "in_a_row h k [] = k"
| "in_a_row h k (v # vs) = in_a_row h (if v = h then k + 1 else 0) vs"

text \<open>
  Between samples: \<open>k\<close> samples in a row have matched, fewer than \<open>sample_count\<close>, and the counter
  holds what is missing.
\<close>

definition sampling :: "u8 \<Rightarrow> nat \<Rightarrow> 'z endstops_scheme \<Rightarrow> bool" where
  "sampling oid k s \<longleftrightarrow>
     k < unat (es_sample_count (endstop_of s oid)) \<and>
     unat (es_trigger_count (endstop_of s oid)) = unat (es_sample_count (endstop_of s oid)) - k \<and>
     timer_func s (Obj_timer oid) = Some (if k = 0 then Endstop_event else Endstop_oversample_event)"

definition es_same :: "u8 \<Rightarrow> 'z endstops_scheme \<Rightarrow> 'z endstops_scheme \<Rightarrow> bool" where
  "es_same oid s s' \<longleftrightarrow>
     es_sample_count (endstop_of s' oid) = es_sample_count (endstop_of s oid) \<and>
     es_pin_high (endstop_of s' oid) = es_pin_high (endstop_of s oid) \<and>
     es_pin (endstop_of s' oid) = es_pin (endstop_of s oid) \<and>
     es_ts (endstop_of s' oid) = es_ts (endstop_of s oid) \<and>
     es_trigger_reason (endstop_of s' oid) = es_trigger_reason (endstop_of s oid) \<and>
     trsync_of s' = trsync_of s \<and> tss_next s' = tss_next s \<and> tss_func s' = tss_func s \<and>
     stepper_of s' = stepper_of s"

lemma es_same_trans: "es_same oid s t \<Longrightarrow> es_same oid t u \<Longrightarrow> es_same oid s u"
  by (simp add: es_same_def)

lemma unat_pred_u8: "c \<noteq> 0 \<Longrightarrow> unat (c - 1 :: u8) = unat c - 1"
  using unat_minus_one by blast

lemma es_fields [simp]:
  "endstop_of (upd_es oid f s) = (endstop_of s)(oid := f (endstop_of s oid))"
  "gpio_level (upd_es oid f s) = gpio_level s"
  "timer_func (upd_es oid f s) = timer_func s"
  "timer_waketime (upd_es oid f s) = timer_waketime s"
  "trsync_of (upd_es oid f s) = trsync_of s" "tss_next (upd_es oid f s) = tss_next s"
  "tss_func (upd_es oid f s) = tss_func s" "stepper_of (upd_es oid f s) = stepper_of s"
  "endstop_of (set_waketime t w s) = endstop_of s" "gpio_level (set_waketime t w s) = gpio_level s"
  "trsync_of (set_waketime t w s) = trsync_of s" "tss_next (set_waketime t w s) = tss_next s"
  "tss_func (set_waketime t w s) = tss_func s"
  "endstop_of (set_func t g s) = endstop_of s" "gpio_level (set_func t g s) = gpio_level s"
  "trsync_of (set_func t g s) = trsync_of s" "tss_next (set_func t g s) = tss_next s"
  "tss_func (set_func t g s) = tss_func s" "stepper_of (set_func t g s) = stepper_of s"
  "timer_func (set_func t g s) = (timer_func s)(t := Some g)"
  by (simp_all add: upd_es_def set_waketime_def set_func_def)

lemma level_fields [simp]:
  "endstop_of (set_level oid v s) = endstop_of s"
  "timer_func (set_level oid v s) = timer_func s"
  "trsync_of (set_level oid v s) = trsync_of s" "tss_next (set_level oid v s) = tss_next s"
  "tss_func (set_level oid v s) = tss_func s" "stepper_of (set_level oid v s) = stepper_of s"
  by (simp_all add: set_level_def)

lemma mismatch_level:
  "es_mismatch oid (set_level oid v s) \<longleftrightarrow> v \<noteq> es_pin_high (endstop_of s oid)"
  by (simp add: es_mismatch_def set_level_def gpio_in_read_def)

lemma mismatch_frame:
  "es_mismatch oid (set_func t g s) = es_mismatch oid s"
  "es_mismatch oid (upd_es oid (\<lambda>e. e\<lparr>es_nextwake := w\<rparr>) s) = es_mismatch oid s"
  by (simp_all add: es_mismatch_def gpio_in_read_def Let_def)

lemma sample_mismatch:
  assumes "sampling oid k s" "v \<noteq> es_pin_high (endstop_of s oid)"
  shows "\<exists>s'. endstop_timer oid (set_level oid v s) = Ret SF_RESCHEDULE s' \<and> sampling oid 0 s' \<and>
    es_same oid s s'"
  using assms mismatch_level [of oid v s]
  by (cases "k = 0") (auto simp: endstop_timer_def endstop_event_def endstop_oversample_event_def
      sampling_def es_same_def Let_def)

lemma oversample_match:
  assumes "\<not> es_mismatch oid s" "unat (es_trigger_count (endstop_of s oid)) = n" "1 < n"
  shows "\<exists>s'. endstop_oversample_event oid s = Ret SF_RESCHEDULE s' \<and> timer_func s' = timer_func s \<and>
    unat (es_trigger_count (endstop_of s' oid)) = n - 1 \<and> es_same oid s s'"
proof -
  have c: "es_trigger_count (endstop_of s oid) \<noteq> 0" using assms(2,3) by auto
  then have u: "unat (es_trigger_count (endstop_of s oid) - 1) = n - 1"
    using assms(2) by (simp add: unat_pred_u8)
  then have "es_trigger_count (endstop_of s oid) - 1 \<noteq> 0" using assms(3) by auto
  with assms(1) u show ?thesis by (simp add: endstop_oversample_event_def Let_def es_same_def)
qed

lemma sample_match:
  assumes "sampling oid k s" "v = es_pin_high (endstop_of s oid)"
    and "k + 1 < unat (es_sample_count (endstop_of s oid))"
  shows "\<exists>s'. endstop_timer oid (set_level oid v s) = Ret SF_RESCHEDULE s' \<and> sampling oid (k + 1) s' \<and>
    es_same oid s s'"
proof -
  let ?s = "set_level oid v s"
  have m: "\<not> es_mismatch oid ?s" using assms(2) by (simp add: mismatch_level)
  let ?n = "unat (es_sample_count (endstop_of s oid)) - k"
  note sa = assms(1) [unfolded sampling_def]
  show ?thesis
  proof (cases "k = 0")
    case True
    let ?u = "set_func (Obj_timer oid) Endstop_oversample_event (upd_es oid (\<lambda>e. e\<lparr>es_nextwake :=
        timer_waketime ?s (Obj_timer oid) + es_rest_time (endstop_of ?s oid)\<rparr>) ?s)"
    have e: "endstop_timer oid ?s = endstop_oversample_event oid ?u"
      using sa True m by (simp add: endstop_timer_def endstop_event_def Let_def)
    have mu: "\<not> es_mismatch oid ?u" using m by (simp add: mismatch_frame)
    have cu: "unat (es_trigger_count (endstop_of ?u oid)) = ?n" using sa by simp
    have "1 < ?n" using assms(3) by linarith
    from oversample_match [OF mu cu this] obtain s' where "endstop_oversample_event oid ?u = Ret SF_RESCHEDULE s'"
      "timer_func s' = timer_func ?u" "unat (es_trigger_count (endstop_of s' oid)) = ?n - 1" "es_same oid ?u s'"
      by blast
    with e assms(3) True show ?thesis by (auto simp: sampling_def es_same_def)
  next
    case False
    then have e: "endstop_timer oid ?s = endstop_oversample_event oid ?s"
      using sa by (simp add: endstop_timer_def)
    have "unat (es_trigger_count (endstop_of ?s oid)) = ?n" using sa by simp
    moreover have "1 < ?n" using assms(3) by linarith
    ultimately obtain s' where
      "endstop_oversample_event oid ?s = Ret SF_RESCHEDULE s'"
      "timer_func s' = timer_func ?s" "unat (es_trigger_count (endstop_of s' oid)) = ?n - 1" "es_same oid ?s s'"
      using oversample_match [OF m] by blast
    with e sa assms(3) False show ?thesis by (auto simp: sampling_def es_same_def)
  qed
qed

lemma sample_last:
  assumes "sampling oid k s" "v = es_pin_high (endstop_of s oid)"
    and "k + 1 = unat (es_sample_count (endstop_of s oid))" "es_ts (endstop_of s oid) = Some ts"
  shows "\<exists>s1. es_same oid s s1 \<and> endstop_timer oid (set_level oid v s) =
    andThen (trsync_do_trigger stepper_signal ts (es_trigger_reason (endstop_of s oid)) s1)
      (\<lambda>_ s. Ret SF_DONE s)"
proof -
  let ?s = "set_level oid v s"
  have m: "\<not> es_mismatch oid ?s" using assms(2) by (simp add: mismatch_level)
  note sa = assms(1) [unfolded sampling_def]
  have "unat (es_trigger_count (endstop_of s oid)) = 1" using sa assms(3) by simp
  then have c: "es_trigger_count (endstop_of s oid) = 1" by (simp add: word_unat_eq_iff)
  show ?thesis
  proof (cases "k = 0")
    case True
    let ?u = "set_func (Obj_timer oid) Endstop_oversample_event (upd_es oid (\<lambda>e. e\<lparr>es_nextwake :=
        timer_waketime ?s (Obj_timer oid) + es_rest_time (endstop_of ?s oid)\<rparr>) ?s)"
    have "\<not> es_mismatch oid ?u" using m by (simp add: mismatch_frame)
    then show ?thesis using sa True m c assms(4)
      by (intro exI [of _ ?u])
        (simp add: endstop_timer_def endstop_event_def endstop_oversample_event_def Let_def es_same_def)
  next
    case False
    then show ?thesis using sa m c assms(4)
      by (intro exI [of _ ?s]) (simp add: endstop_timer_def endstop_oversample_event_def Let_def es_same_def)
  qed
qed


lemma run_quiet:
  assumes "sampling oid k s"
    and "\<forall>j \<le> length vs. in_a_row (es_pin_high (endstop_of s oid)) k (take j vs)
           < unat (es_sample_count (endstop_of s oid))"
  shows "\<exists>s'. run_endstop oid vs s = Ret SF_RESCHEDULE s' \<and> es_same oid s s' \<and>
    sampling oid (in_a_row (es_pin_high (endstop_of s oid)) k vs) s'"
  using assms
proof (induction vs arbitrary: k s)
  case Nil
  then show ?case by (simp add: es_same_def)
next
  case (Cons v vs)
  let ?h = "es_pin_high (endstop_of s oid)" and ?k = "if v = es_pin_high (endstop_of s oid) then k + 1 else 0"
  have "in_a_row ?h k (take 1 (v # vs)) < unat (es_sample_count (endstop_of s oid))"
    using Cons.prems(2) by (metis length_Cons le_add1 plus_1_eq_Suc)
  then have lt: "?k < unat (es_sample_count (endstop_of s oid))" by (simp split: if_splits)
  obtain s1 where s1: "endstop_timer oid (set_level oid v s) = Ret SF_RESCHEDULE s1" "sampling oid ?k s1"
    "es_same oid s s1"
    using sample_mismatch [OF Cons.prems(1), of v] sample_match [OF Cons.prems(1), of v] lt
    by (cases "v = ?h") auto
  have e: "es_pin_high (endstop_of s1 oid) = ?h"
    "es_sample_count (endstop_of s1 oid) = es_sample_count (endstop_of s oid)"
    using s1(3) by (simp_all add: es_same_def)
  have "\<forall>j \<le> length vs. in_a_row ?h ?k (take j vs) < unat (es_sample_count (endstop_of s oid))"
  proof (intro allI impI)
    fix j assume "j \<le> length vs"
    then have "in_a_row ?h k (take (Suc j) (v # vs)) < unat (es_sample_count (endstop_of s oid))"
      using Cons.prems(2) by (metis Suc_le_mono length_Cons)
    then show "in_a_row ?h ?k (take j vs) < unat (es_sample_count (endstop_of s oid))" by simp
  qed
  with Cons.IH [OF s1(2)] e obtain s' where s': "run_endstop oid vs s1 = Ret SF_RESCHEDULE s'"
    "es_same oid s1 s'" "sampling oid (in_a_row ?h ?k vs) s'" by auto
  then show ?case using s1(1) es_same_trans [OF s1(3) s'(2)] by simp
qed

section \<open>Properties of the endstops\<close>

text \<open>
  An endstop triggers exactly at the last of \<open>sample_count\<close> matching samples in a row. Along
  every sequence of pin levels in which no such row has been completed it only reschedules its
  timer, leaving triggers and steppers alone; the sample that completes the row runs
  \<open>trsync_do_trigger\<close> with the reason given for homing, and ends the sampling.
\<close>

theorem endstop_triggers_after_samples:
  assumes "sampling oid k s" "es_ts (endstop_of s oid) = Some ts"
    and "\<forall>j \<le> length vs. in_a_row (es_pin_high (endstop_of s oid)) k (take j vs)
           < unat (es_sample_count (endstop_of s oid))"
    and "in_a_row (es_pin_high (endstop_of s oid)) k (vs @ [v]) = unat (es_sample_count (endstop_of s oid))"
  shows "\<exists>s1 s2. run_endstop oid vs s = Ret SF_RESCHEDULE s1 \<and> es_same oid s s1 \<and> es_same oid s s2 \<and>
    endstop_timer oid (set_level oid v s1) =
      andThen (trsync_do_trigger stepper_signal ts (es_trigger_reason (endstop_of s oid)) s2)
        (\<lambda>_ s. Ret SF_DONE s)"
proof -
  let ?h = "es_pin_high (endstop_of s oid)" and ?n = "unat (es_sample_count (endstop_of s oid))"
  from run_quiet [OF assms(1,3)] obtain s1 where
    s1: "run_endstop oid vs s = Ret SF_RESCHEDULE s1" "es_same oid s s1" "sampling oid (in_a_row ?h k vs) s1" by blast
  have app: "in_a_row h k (us @ [v]) = (if v = h then in_a_row h k us + 1 else 0)" for h us k
    by (induction us arbitrary: k) auto
  have "0 < ?n" using s1(2,3) by (auto simp: sampling_def es_same_def)
  with assms(4) have v: "v = ?h" "in_a_row ?h k vs + 1 = ?n" by (auto simp: app split: if_splits)
  have e: "es_pin_high (endstop_of s1 oid) = ?h" "es_sample_count (endstop_of s1 oid) = es_sample_count (endstop_of s oid)"
    "es_ts (endstop_of s1 oid) = Some ts"
    "es_trigger_reason (endstop_of s1 oid) = es_trigger_reason (endstop_of s oid)"
    using s1(2) assms(2) by (simp_all add: es_same_def)
  from sample_last [OF s1(3) _ _ e(3), of v] v e obtain s2 where
    "es_same oid s1 s2" "endstop_timer oid (set_level oid v s1) =
      andThen (trsync_do_trigger stepper_signal ts (es_trigger_reason (endstop_of s oid)) s2)
        (\<lambda>_ s. Ret SF_DONE s)" by auto
  with s1(1,2) es_same_trans [OF s1(2)] show ?thesis by blast
qed

definition endstops_init :: "kconfig \<Rightarrow> endstops" where
  "endstops_init k = steppers.extend (steppers_init k)
     \<lparr>endstop_of = (\<lambda>_. endstop_zero), gpio_level = (\<lambda>_. False)\<rparr>"

definition endstops1 :: endstops where
  "endstops1 = (endstops_init example_conf)
     \<lparr>endstop_of := (\<lambda>_. endstop_zero\<lparr>es_ts := Some 2, es_pin_high := True, es_sample_count := 2,
        es_trigger_count := 2, es_trigger_reason := 9\<rparr>),
      timer_func := (\<lambda>_. Some Endstop_event)\<rparr>"

theorem endstop_triggers_after_samples_witness:
  "\<exists>s1 s2. run_endstop 4 [True, False, True] endstops1 = Ret SF_RESCHEDULE s1 \<and>
     endstop_timer 4 (set_level 4 True s1) =
       andThen (trsync_do_trigger stepper_signal 2 9 s2) (\<lambda>_ s. Ret SF_DONE s)"
proof -
  have e: "endstop_of endstops1 4 = endstop_zero\<lparr>es_ts := Some 2, es_pin_high := True, es_sample_count := 2,
        es_trigger_count := 2, es_trigger_reason := 9\<rparr>" by (simp add: endstops1_def)
  have s: "sampling 4 0 endstops1" unfolding sampling_def e by (simp add: endstops1_def)
  have "\<forall>j \<le> length [True, False, True]. in_a_row True 0 (take j [True, False, True]) < 2"
  proof (intro allI impI)
    fix j assume "j \<le> length [True, False, True]"
    then have "j = 0 \<or> j = 1 \<or> j = 2 \<or> j = 3" by auto
    then show "in_a_row True 0 (take j [True, False, True]) < 2" by auto
  qed
  then show ?thesis
    using endstop_triggers_after_samples [OF s, of 2 "[True, False, True]" True]
    by (auto simp: e simp del: run_endstop.simps)
qed

end
