(* ===== verification/Digital_Out.thy ===== *)
theory Digital_Out
  imports Endstop
begin

text \<open>
  \<open>src/gpiocmds.c\<close>: output pins with queued settings, software PWM, and a limit on how long a pin
  may stay away from its default value.
\<close>

section \<open>State\<close>

record digital_move =
  dm_waketime :: u32
  dm_on_duration :: u32

text \<open>The bits \<open>DF_...\<close> of \<open>flags\<close> are the fields \<open>df_...\<close>.\<close>

record digital_out =
  do_on_duration :: u32
  do_off_duration :: u32
  do_end_time :: u32
  do_pin :: u32
  do_max_duration :: u32
  do_cycle_time :: u32
  do_mq :: move_queue_head
  df_on :: bool
  df_toggling :: bool
  df_check_end :: bool
  df_default_on :: bool

record digital_outs = endstops +
  digital_of :: "u8 \<Rightarrow> digital_out"
  digital_move :: "nat \<Rightarrow> digital_move"

definition upd_do :: "u8 \<Rightarrow> (digital_out \<Rightarrow> digital_out) \<Rightarrow> 'z digital_outs_scheme \<Rightarrow> 'z digital_outs_scheme" where
  "upd_do oid f s = s\<lparr>digital_of := (digital_of s)(oid := f (digital_of s oid))\<rparr>"

section \<open>Timer events\<close>

definition digital_toggle_event ::
    "u8 \<Rightarrow> 'z digital_outs_scheme \<Rightarrow> (sf_result, 'z digital_outs_scheme) outcome" where
  "digital_toggle_event oid s =
     (let s = hw_do (Gpio_out_toggle (do_pin (digital_of s oid))) s;
          s = upd_do oid (\<lambda>d. d\<lparr>df_on := \<not> df_on d\<rparr>) s;
          d = digital_of s oid;
          waketime = timer_waketime s (Obj_timer oid) +
            (if df_on d then do_on_duration d else do_off_duration d)
      in if df_check_end d \<and> \<not> timer_is_before waketime (do_end_time d)
         then Ret SF_RESCHEDULE
           (set_waketime (Obj_timer oid) (do_end_time d) (set_func (Obj_timer oid) Digital_load_event s))
         else Ret SF_RESCHEDULE (set_waketime (Obj_timer oid) waketime s))"

text \<open>The flags and the end time that a new setting gives on its own.\<close>

definition digital_next :: "digital_out \<Rightarrow> u32 \<Rightarrow> u32 \<Rightarrow> bool \<times> bool \<times> u32" where
  "digital_next d waketime on_duration =
     (let on = on_duration \<noteq> 0 in
      if \<not> on \<or> on_duration \<ge> do_cycle_time d then
        (if (\<not> on) \<noteq> (\<not> df_default_on d) \<and> do_max_duration d \<noteq> 0
         then (False, True, waketime + do_max_duration d) else (False, False, 0))
      else
        (if do_max_duration d \<noteq> 0 then (True, True, waketime + do_max_duration d)
         else (True, False, 0)))"

text \<open>The scheduling of the next event, from the comment in the code to the end.\<close>

definition digital_schedule ::
    "u8 \<Rightarrow> bool \<Rightarrow> bool \<Rightarrow> u32 \<Rightarrow> u32 \<Rightarrow> 'z digital_outs_scheme
       \<Rightarrow> (sf_result, 'z digital_outs_scheme) outcome" where
  "digital_schedule oid toggling check_end end_time on_duration s =
     (if \<not> toggling then
        if \<not> check_end then Ret SF_DONE s
        else Ret SF_RESCHEDULE (set_waketime (Obj_timer oid) end_time s)
      else
        let waketime = timer_waketime s (Obj_timer oid) + on_duration in
        if check_end \<and> \<not> timer_is_before waketime end_time
        then Ret SF_RESCHEDULE (set_waketime (Obj_timer oid) end_time s)
        else
          let s = set_func (Obj_timer oid) Digital_toggle_event s;
              s = set_waketime (Obj_timer oid) waketime s
          in Ret SF_RESCHEDULE (upd_do oid (\<lambda>d. d\<lparr>do_on_duration := on_duration,
               do_off_duration := do_cycle_time d - on_duration\<rparr>) s))"

text \<open>The end time and the flags of the setting, in view of the next one in the queue.\<close>

definition digital_load_setting ::
    "u8 \<Rightarrow> u32 \<Rightarrow> 'z digital_outs_scheme \<Rightarrow> (sf_result, 'z digital_outs_scheme) outcome" where
  "digital_load_setting oid on_duration s =
     (let (toggling, check_end, end_time) =
            digital_next (digital_of s oid) (timer_waketime s (Obj_timer oid)) on_duration
      in case move_queue_first (do_mq (digital_of s oid)) of
           None \<Rightarrow>
             digital_schedule oid toggling check_end end_time on_duration
               (upd_do oid (\<lambda>d. d\<lparr>do_end_time := end_time, df_on := on_duration \<noteq> 0,
                  df_toggling := toggling, df_check_end := check_end\<rparr>) s)
         | Some nn \<Rightarrow>
             let wake = dm_waketime (digital_move s nn) in
             if check_end \<and> timer_is_before end_time wake
             then Shutdown ''Scheduled digital out event will exceed max_duration'' s
             else digital_schedule oid toggling True wake on_duration
                    (upd_do oid (\<lambda>d. d\<lparr>do_end_time := wake, df_on := on_duration \<noteq> 0,
                       df_toggling := toggling, df_check_end := True\<rparr>) s))"

definition digital_load_event ::
    "u8 \<Rightarrow> 'z digital_outs_scheme \<Rightarrow> (sf_result, 'z digital_outs_scheme) outcome" where
  "digital_load_event oid s =
     andThen (shutdown_if (move_queue_empty (do_mq (digital_of s oid)))
         ''Missed scheduling of next digital out event'' s) (\<lambda>_ s.
     andThen (move_queue_pop (do_mq (digital_of s oid)) s) (\<lambda>(mn, mq) s.
       let s = upd_do oid (\<lambda>d. d\<lparr>do_mq := mq\<rparr>) s;
           on_duration = dm_on_duration (digital_move s mn);
           s = hw_do (Gpio_out_write (do_pin (digital_of s oid)) (on_duration \<noteq> 0)) s
       in digital_load_setting oid on_duration (move_free mn s)))"

section \<open>Commands\<close>

definition digital_zero :: digital_out where
  "digital_zero = \<lparr>do_on_duration = 0, do_off_duration = 0, do_end_time = 0, do_pin = 0,
     do_max_duration = 0, do_cycle_time = 0, do_mq = \<lparr>mq_first = None, mq_last = None\<rparr>,
     df_on = False, df_toggling = False, df_check_end = False, df_default_on = False\<rparr>"

definition command_config_digital_out ::
    "nat \<Rightarrow> nat \<Rightarrow> u32 list \<Rightarrow> 'z digital_outs_scheme \<Rightarrow> (unit, 'z digital_outs_scheme) outcome" where
  "command_config_digital_out sizeof_digital_out sizeof_digital_move args s =
     (let s = hw_do (Gpio_out_setup (args ! 1) (args ! 2 \<noteq> 0)) s; oid = arg_oid args 0 in
      andThen (oid_alloc oid Digital_out_type sizeof_digital_out s) (\<lambda>_ s.
        let s = upd_do oid (\<lambda>_. digital_zero\<lparr>do_pin := args ! 1, df_on := args ! 2 \<noteq> 0,
                  df_default_on := args ! 3 \<noteq> 0, do_max_duration := args ! 4\<rparr>) s
        in andThen (move_queue_setup sizeof_digital_move s) (\<lambda>mq s.
             Ret () (upd_do oid (\<lambda>d. d\<lparr>do_mq := mq\<rparr>) s))))"

definition digital_oid_lookup :: "u8 \<Rightarrow> 'z digital_outs_scheme \<Rightarrow> (u8, 'z digital_outs_scheme) outcome" where
  "digital_oid_lookup oid s = andThen (oid_lookup oid Digital_out_type s) (\<lambda>_ s. Ret oid s)"

definition command_set_digital_out_pwm_cycle ::
    "u32 list \<Rightarrow> 'z digital_outs_scheme \<Rightarrow> (unit, 'z digital_outs_scheme) outcome" where
  "command_set_digital_out_pwm_cycle args s =
     andThen (digital_oid_lookup (arg_oid args 0) s) (\<lambda>oid s.
     andThen (shutdown_if (\<not> move_queue_empty (do_mq (digital_of s oid)))
         ''Can not set soft pwm cycle ticks while updates pending'' s) (\<lambda>_ s.
       Ret () (upd_do oid (\<lambda>d. d\<lparr>do_cycle_time := args ! 1\<rparr>) s)))"

definition command_queue_digital_out ::
    "u32 list \<Rightarrow> 'z digital_outs_scheme \<Rightarrow> (unit, 'z digital_outs_scheme) outcome" where
  "command_queue_digital_out args s =
     andThen (digital_oid_lookup (arg_oid args 0) s) (\<lambda>oid s.
     andThen (move_alloc s) (\<lambda>m s.
       let time = args ! 1;
           s = s\<lparr>digital_move := (digital_move s)(m := \<lparr>dm_waketime = time, dm_on_duration = args ! 2\<rparr>)\<rparr>
       in andThen (move_queue_push m (do_mq (digital_of s oid)) s) (\<lambda>(first_on_queue, mq) s.
         let s = upd_do oid (\<lambda>d. d\<lparr>do_mq := mq\<rparr>) s; d = digital_of s oid in
         if \<not> first_on_queue then Ret () s
         else
           andThen (shutdown_if (df_check_end d \<and> timer_is_before (do_end_time d) time)
               ''Scheduled digital out event will exceed max_duration'' s) (\<lambda>_ s.
             let s = upd_do oid (\<lambda>d. d\<lparr>do_end_time := time, df_check_end := True\<rparr>) s in
             if df_toggling d \<and> timer_is_before (timer_waketime s (Obj_timer oid)) time then Ret () s
             else
               andThen (sched_del_timer (Obj_timer oid) s) (\<lambda>_ s.
                 sched_add_timer (Obj_timer oid)
                   (set_func (Obj_timer oid) Digital_load_event
                     (set_waketime (Obj_timer oid) time s)))))))"

definition command_update_digital_out ::
    "u32 list \<Rightarrow> 'z digital_outs_scheme \<Rightarrow> (unit, 'z digital_outs_scheme) outcome" where
  "command_update_digital_out args s =
     andThen (digital_oid_lookup (arg_oid args 0) s) (\<lambda>oid s.
     andThen (sched_del_timer (Obj_timer oid) s) (\<lambda>_ s.
     andThen (shutdown_if (\<not> move_queue_empty (do_mq (digital_of s oid)))
         ''update_digital_out not valid with active queue'' s) (\<lambda>_ s.
       let on = (ucast (args ! 1) :: u8) \<noteq> 0;
           s = hw_do (Gpio_out_write (do_pin (digital_of s oid)) on) s;
           d = digital_of s oid
       in if (\<not> on) \<noteq> (\<not> df_default_on d) \<and> do_max_duration d \<noteq> 0 then
            let end_time = timer_read_time s + do_max_duration d;
                s = set_waketime (Obj_timer oid) end_time s;
                s = set_func (Obj_timer oid) Digital_load_event s
            in sched_add_timer (Obj_timer oid)
                 (upd_do oid (\<lambda>d. d\<lparr>do_end_time := end_time, df_on := on, df_toggling := False,
                    df_check_end := True\<rparr>) s)
          else Ret () (upd_do oid (\<lambda>d. d\<lparr>df_on := on, df_toggling := False, df_check_end := False\<rparr>) s))))"

definition digital_out_shutdown ::
    "'z digital_outs_scheme \<Rightarrow> (unit, 'z digital_outs_scheme) outcome" where
  "digital_out_shutdown s =
     foreach_oid Digital_out_type (\<lambda>oid s.
       let s = hw_do (Gpio_out_write (do_pin (digital_of s oid)) (df_default_on (digital_of s oid))) s
       in Ret () (upd_do oid (\<lambda>d. d\<lparr>df_on := df_default_on d, df_toggling := False,
            df_check_end := False, do_mq := move_queue_clear (do_mq d)\<rparr>) s)) s"

definition command_set_digital_out ::
    "u32 list \<Rightarrow> 'z digital_outs_scheme \<Rightarrow> (unit, 'z digital_outs_scheme) outcome" where
  "command_set_digital_out args s = Ret () (hw_do (Gpio_out_setup (args ! 0) (args ! 1 \<noteq> 0)) s)"

section \<open>The limit on the time away from the default value\<close>

text \<open>
  The setting needs watching: a limit is configured, and the pin is pulsing or constantly not at
  its default.
\<close>

definition away_from_default :: "digital_out \<Rightarrow> bool" where
  "away_from_default d \<longleftrightarrow> df_toggling d \<or> df_on d \<noteq> df_default_on d"

lemma do_fields [simp]:
  "digital_of (upd_do oid f s) = (digital_of s)(oid := f (digital_of s oid))"
  "digital_move (upd_do oid f s) = digital_move s"
  "timer_waketime (upd_do oid f s) = timer_waketime s"
  "timer_func (upd_do oid f s) = timer_func s"
  "digital_of (set_waketime t w s) = digital_of s" "digital_of (set_func t g s) = digital_of s"
  "digital_of (hw_do h s) = digital_of s" "digital_move (hw_do h s) = digital_move s"
  "digital_of (move_free m s) = digital_of s" "digital_move (move_free m s) = digital_move s"
  "timer_func (hw_do h s) = timer_func s" "timer_func (move_free m s) = timer_func s"
  "timer_waketime (set_func t g s) = timer_waketime s"
  by (simp_all add: upd_do_def set_waketime_def set_func_def hw_do_def move_free_def set_move_next_def)

text \<open>The state after scheduling: the timer runs again no later than the end time.\<close>

definition watched :: "u8 \<Rightarrow> sf_result \<Rightarrow> 'z digital_outs_scheme \<Rightarrow> bool" where
  "watched oid r s \<longleftrightarrow>
     r = SF_RESCHEDULE \<and> df_check_end (digital_of s oid) \<and>
     (timer_waketime s (Obj_timer oid) = do_end_time (digital_of s oid) \<or>
      timer_is_before (timer_waketime s (Obj_timer oid)) (do_end_time (digital_of s oid)))"

lemma digital_schedule_watched:
  assumes "digital_schedule oid tog True e on_dur s = Ret r s'"
    and "do_end_time (digital_of s oid) = e" "df_check_end (digital_of s oid)"
  shows "watched oid r s' \<and> do_end_time (digital_of s' oid) = e \<and>
    df_toggling (digital_of s' oid) = df_toggling (digital_of s oid) \<and>
    df_on (digital_of s' oid) = df_on (digital_of s oid) \<and>
    df_default_on (digital_of s' oid) = df_default_on (digital_of s oid)"
  using assms by (auto simp: digital_schedule_def watched_def Let_def split: if_splits)

lemma digital_schedule_fields:
  assumes "digital_schedule oid tog chk e on_dur s = Ret r s'"
  shows "df_toggling (digital_of s' oid) = df_toggling (digital_of s oid) \<and>
    df_on (digital_of s' oid) = df_on (digital_of s oid) \<and>
    df_default_on (digital_of s' oid) = df_default_on (digital_of s oid)"
  using assms by (auto simp: digital_schedule_def Let_def split: if_splits)

lemma not_before_self: "\<not> timer_is_before w w"
  by (simp add: timer_is_before_def)

lemma digital_load_setting_limits:
  assumes "digital_load_setting oid od s = Ret r s'" "do_max_duration (digital_of s oid) \<noteq> 0"
    and "away_from_default (digital_of s' oid)"
  shows "watched oid r s' \<and>
    \<not> timer_is_before (timer_waketime s (Obj_timer oid) + do_max_duration (digital_of s oid))
        (do_end_time (digital_of s' oid))"
proof -
  let ?d = "digital_of s oid" and ?wk = "timer_waketime s (Obj_timer oid)"
  obtain tog chk e where n: "digital_next ?d ?wk od = (tog, chk, e)" by (metis prod_cases3)
  have chk: "chk \<and> e = ?wk + do_max_duration ?d" if "tog \<or> (od \<noteq> 0) \<noteq> df_default_on ?d"
    using n assms(2) that by (auto simp: digital_next_def Let_def split: if_splits)
  show ?thesis
  proof (cases "mq_first (do_mq ?d)")
    case None
    let ?u = "upd_do oid (\<lambda>d. d\<lparr>do_end_time := e, df_on := od \<noteq> 0, df_toggling := tog, df_check_end := chk\<rparr>) s"
    from assms(1) None have sch: "digital_schedule oid tog chk e od ?u = Ret r s'"
      by (simp add: digital_load_setting_def n move_queue_first_def)
    with digital_schedule_fields [OF sch] assms(3) chk have c: "chk" "e = ?wk + do_max_duration ?d"
      by (auto simp: away_from_default_def)
    have "digital_schedule oid tog True e od ?u = Ret r s'" using sch c(1) by simp
    from digital_schedule_watched [OF this] c not_before_self show ?thesis by simp
  next
    case (Some nn)
    let ?w = "dm_waketime (digital_move s nn)"
    let ?u = "upd_do oid (\<lambda>d. d\<lparr>do_end_time := ?w, df_on := od \<noteq> 0, df_toggling := tog, df_check_end := True\<rparr>) s"
    from assms(1) Some have b: "\<not> (chk \<and> timer_is_before e ?w)"
      and sch: "digital_schedule oid tog True ?w od ?u = Ret r s'"
      by (auto simp: digital_load_setting_def n move_queue_first_def Let_def split: if_splits)
    from digital_schedule_watched [OF sch] have w: "watched oid r s'" "do_end_time (digital_of s' oid) = ?w"
      by simp_all
    from digital_schedule_fields [OF sch] assms(3) chk have "chk" "e = ?wk + do_max_duration ?d"
      by (auto simp: away_from_default_def)
    with w b show ?thesis by simp
  qed
qed

section \<open>Properties of the output pins\<close>

text \<open>
  A pin with a \<open>max_duration\<close> cannot be left on unattended. Whenever a queued setting leaves it
  pulsing or away from its default value, the timer is armed to run again no later than
  \<open>max_duration\<close> ticks after the setting took effect (the end time, or the wake time of the next
  queued setting, which is then not later); with nothing queued at that time the firmware stops.
\<close>

theorem digital_load_event_limits:
  assumes "digital_load_event oid s = Ret r s'" "do_max_duration (digital_of s oid) \<noteq> 0"
    and "away_from_default (digital_of s' oid)"
  shows "watched oid r s' \<and>
    \<not> timer_is_before (timer_waketime s (Obj_timer oid) + do_max_duration (digital_of s oid))
        (do_end_time (digital_of s' oid))"
proof -
  from assms(1) obtain mn where mn: "mq_first (do_mq (digital_of s oid)) = Some mn"
    by (auto simp: digital_load_event_def shutdown_if_def move_queue_empty_def split: if_splits)
  define u where "u = move_free mn (hw_do (Gpio_out_write (do_pin (digital_of s oid))
      (dm_on_duration (digital_move s mn) \<noteq> 0))
    (upd_do oid (\<lambda>d. d\<lparr>do_mq := (do_mq (digital_of s oid))\<lparr>mq_first := move_next s mn\<rparr>\<rparr>) s))"
  have "digital_load_setting oid (dm_on_duration (digital_move s mn)) u = Ret r s'"
    using assms(1) mn by (simp add: digital_load_event_def shutdown_if_def move_queue_empty_def
        move_queue_pop_def u_def Let_def)
  moreover have "timer_waketime u = timer_waketime s"
    "do_max_duration (digital_of u oid) = do_max_duration (digital_of s oid)"
    by (simp_all add: u_def)
  ultimately show ?thesis using digital_load_setting_limits [of oid _ u r s'] assms(2,3) by simp
qed

definition digital_outs_init :: "kconfig \<Rightarrow> digital_outs" where
  "digital_outs_init k = endstops.extend (endstops_init k)
     \<lparr>digital_of = (\<lambda>_. digital_zero), digital_move = (\<lambda>_. \<lparr>dm_waketime = 0, dm_on_duration = 0\<rparr>)\<rparr>"

definition digital1 :: digital_outs where
  "digital1 = (digital_outs_init example_conf)
     \<lparr>digital_of := (\<lambda>_. digital_zero\<lparr>do_max_duration := 500, do_cycle_time := 100,
        do_mq := \<lparr>mq_first = Some 0, mq_last = Some 0\<rparr>\<rparr>),
      digital_move := (\<lambda>_. \<lparr>dm_waketime = 1000, dm_on_duration = 100\<rparr>), move_next := (\<lambda>_. None),
      timer_waketime := (\<lambda>_. 1000)\<rparr>"

theorem digital_load_event_limits_witness:
  "\<exists>s'. digital_load_event 3 digital1 = Ret SF_RESCHEDULE s' \<and> watched 3 SF_RESCHEDULE s' \<and>
     \<not> timer_is_before 1500 (do_end_time (digital_of s' 3))"
proof -
  have d: "digital_of digital1 = (\<lambda>_. digital_zero\<lparr>do_max_duration := 500, do_cycle_time := 100,
        do_mq := \<lparr>mq_first = Some 0, mq_last = Some 0\<rparr>\<rparr>)"
    "digital_move digital1 = (\<lambda>_. \<lparr>dm_waketime = 1000, dm_on_duration = 100\<rparr>)"
    "move_next digital1 = (\<lambda>_. None)" "timer_waketime digital1 = (\<lambda>_. 1000)"
    by (simp_all add: digital1_def)
  have "\<exists>s'. digital_load_event 3 digital1 = Ret SF_RESCHEDULE s' \<and> away_from_default (digital_of s' 3)"
    by (simp add: digital_load_event_def shutdown_if_def move_queue_empty_def move_queue_pop_def
        move_queue_first_def digital_load_setting_def d digital_zero_def Let_def digital_next_def digital_schedule_def
        away_from_default_def)
  then obtain s' where s': "digital_load_event 3 digital1 = Ret SF_RESCHEDULE s'"
    "away_from_default (digital_of s' 3)" by blast
  from digital_load_event_limits [OF s'(1) _ s'(2)] s'(1) show ?thesis by (simp add: d digital_zero_def)
qed

text \<open>
  Software PWM stays inside its time slot: every toggle event arms the timer no later than the
  end time while an end is set, and the event at the end time is the one that loads the next
  setting.
\<close>

theorem digital_toggle_event_ends:
  assumes "digital_toggle_event oid s = Ret r s'" "df_check_end (digital_of s oid)"
  shows "watched oid r s' \<and> do_end_time (digital_of s' oid) = do_end_time (digital_of s oid) \<and>
    df_on (digital_of s' oid) = (\<not> df_on (digital_of s oid)) \<and>
    (\<not> timer_is_before (timer_waketime s' (Obj_timer oid)) (do_end_time (digital_of s oid)) \<longrightarrow>
       timer_func s' (Obj_timer oid) = Some Digital_load_event)"
  using assms by (auto simp: digital_toggle_event_def watched_def Let_def set_func_def set_waketime_def
      split: if_splits)

theorem digital_toggle_event_ends_witness:
  "\<exists>s'. digital_toggle_event 3 (digital1\<lparr>digital_of := (\<lambda>_. digital_zero\<lparr>do_end_time := 1200,
       df_check_end := True, df_on := True, do_off_duration := 500\<rparr>)\<rparr>) = Ret SF_RESCHEDULE s' \<and>
     watched 3 SF_RESCHEDULE s' \<and> timer_func s' (Obj_timer 3) = Some Digital_load_event"
proof -
  let ?s = "digital1\<lparr>digital_of := (\<lambda>_. digital_zero\<lparr>do_end_time := 1200, df_check_end := True,
      df_on := True, do_off_duration := 500\<rparr>)\<rparr>"
  have w: "timer_waketime ?s (Obj_timer 3) = 1000" by (simp add: digital1_def)
  obtain s' where s': "digital_toggle_event 3 ?s = Ret SF_RESCHEDULE s'"
    "timer_waketime s' (Obj_timer 3) = 1200"
    using w by (auto simp: digital_toggle_event_def Let_def timer_is_before_def)
  from digital_toggle_event_ends [OF s'(1)] s' show ?thesis by (simp add: timer_is_before_def)
qed

end
