(* ===== verification/Device_Base.thy ===== *)
theory Device_Base
  imports Digital_Out Timer_Contract
begin

text \<open>
  What the remaining device components share: the lookup of an object by type, the zeroed timer of a
  freshly allocated object, the bytes behind a pointer argument, and the scheduler facts about a task
  that is woken.
\<close>

definition obj_lookup :: "u8 \<Rightarrow> oid_type \<Rightarrow> 'z basecmd_scheme \<Rightarrow> (u8, 'z basecmd_scheme) outcome" where
  "obj_lookup oid type s = andThen (oid_lookup oid type s) (\<lambda>_ s. Ret oid s)"

lemma obj_lookup_Ret: "obj_lookup oid type s = Ret v s' \<Longrightarrow> v = oid \<and> s' = s"
  by (auto simp: obj_lookup_def oid_lookup_def oid_at_def split: if_splits option.splits)

text \<open>\<open>oid_alloc\<close> returns zeroed memory, also for the \<open>struct timer\<close> at the head of the object.\<close>

definition clear_timer :: "timer_ref \<Rightarrow> 'z sched_scheme \<Rightarrow> 'z sched_scheme" where
  "clear_timer t s =
     s\<lparr>timer_next := (timer_next s)(t := None), timer_func := (timer_func s)(t := None),
       timer_waketime := (timer_waketime s)(t := 0)\<rparr>"

text \<open>
  \<open>command_decode_ptr\<close>: a pointer argument is an address; \<open>mem\<close> is the memory the message buffer
  lies in, \<open>mem_bytes mem p n\<close> are the \<open>n\<close> bytes from \<open>p\<close> on.
\<close>

definition mem_bytes :: "(u32 \<Rightarrow> u8) \<Rightarrow> u32 \<Rightarrow> nat \<Rightarrow> u8 list" where
  "mem_bytes mem p n = map (\<lambda>i. mem (p + of_nat i)) [0..<n]"

lemma length_mem_bytes [simp]: "length (mem_bytes mem p n) = n"
  by (simp add: mem_bytes_def)

lemma wake_fields [simp]:
  "timer_waketime (sched_wake_task w s) = timer_waketime s"
  "timer_func (sched_wake_task w s) = timer_func s"
  "timer_next (sched_wake_task w s) = timer_next s"
  "timer_list (sched_wake_task w s) = timer_list s"
  "last_insert (sched_wake_task w s) = last_insert s"
  "shutdown_status (sched_wake_task w s) = shutdown_status s"
  "task_wake (sched_wake_task w s) = (task_wake s)(w := True)"
  "sent (sched_wake_task w s) = sent s" "hw (sched_wake_task w s) = hw s"
  "gpio_level (sched_wake_task w es) = gpio_level es"
  by (simp_all add: sched_wake_task_def sched_wake_tasks_def)

lemma device_frames [simp]:
  "timer_next (move_free m b) = timer_next b" "timer_list (move_free m b) = timer_list b"
  "last_insert (move_free m b) = last_insert b" "timer_next (hw_do h s) = timer_next s"
  "timer_list (hw_do h s) = timer_list s" "last_insert (hw_do h s) = last_insert s"
  "timer_next (set_func t g s) = timer_next s" "timer_list (set_func t g s) = timer_list s"
  "last_insert (set_func t g s) = last_insert s" "timer_waketime (set_func t g s) = timer_waketime s"
  "hw (move_free m b) = hw b" "hw (hw_do h s) = hw s @ [h]" "hw (set_waketime t w s) = hw s"
  "hw (set_func t g s) = hw s" "timer_func (set_func t g s) = (timer_func s)(t := Some g)"
  "oids (hw_do h b) = oids b" "oids (set_func t g b) = oids b" "oids (set_waketime t w b) = oids b"
  "oid_count (hw_do h b) = oid_count b" "oid_count (set_func t g b) = oid_count b"
  "oid_count (set_waketime t w b) = oid_count b"
  by (simp_all add: move_free_def set_move_next_def hw_do_def set_func_def set_waketime_def)

section \<open>Iterating over the objects of a type\<close>

primrec each_oid :: "(u8 \<Rightarrow> 's \<Rightarrow> (unit, 's) outcome) \<Rightarrow> u8 list \<Rightarrow> 's \<Rightarrow> (unit, 's) outcome" where
  "each_oid body [] s = Ret () s"
| "each_oid body (x # xs) s = andThen (body x s) (\<lambda>_ s. each_oid body xs s)"

text \<open>The ids from \<open>i\<close> on, and those of them that hold an object of the type.\<close>

definition oids_from :: "nat \<Rightarrow> oid_type \<Rightarrow> oid_s list \<Rightarrow> u8 list" where
  "oids_from i type os = map of_nat (filter (\<lambda>k. oid_type_of (os ! k) = Some type) [i..<length os])"

lemma oids_from_rec:
  "oids_from i type os =
     (if length os \<le> i then []
      else if oid_type_of (os ! i) = Some type then of_nat i # oids_from (Suc i) type os
      else oids_from (Suc i) type os)"
  by (cases "length os \<le> i") (simp_all add: oids_from_def upt_conv_Cons not_le)

lemma u8_succ: "unat (oid + 1) < n \<Longrightarrow> n \<le> 255 \<Longrightarrow> unat (oid + 1 + 1) = Suc (unat (oid + 1))" for oid :: u8
  by (subst unat_plus_if') simp

lemma oid_next_from:
  assumes "oids s = Some os" "unat (oid_count s) = length os"
  shows "oid_next oid type s =
    (case oids_from (unat (oid + 1)) type os of [] \<Rightarrow> Ret None s | k # _ \<Rightarrow> Ret (Some k) s)"
  using assms
proof (induction oid type s rule: oid_next.induct)
  case (1 oid type s)
  have n: "length os \<le> 255"
    using unsigned_less [of "oid_count s", where ?'a = nat] 1(3) by simp
  show ?case
  proof (cases "oid + 1 \<ge> oid_count s")
    case True
    then show ?thesis using 1(3) by (simp add: oid_next.simps word_le_nat_alt oids_from_rec)
  next
    case False
    then have l: "unat (oid + 1) < length os" using 1(3) by (simp add: word_le_nat_alt)
    then have at: "oid_at (oid + 1) s = Ret (os ! unat (oid + 1)) s" using 1(2) by (simp add: oid_at_def)
    note nx = u8_succ [OF l n]
    show ?thesis
    proof (cases "oid_type_of (os ! unat (oid + 1)) = Some type")
      case True
      then show ?thesis using False at l
        by (subst oid_next.simps, subst oids_from_rec) (simp add: not_le)
    next
      case nt: False
      have "oid_next oid type s = oid_next (oid + 1) type s"
        using False at nt by (subst oid_next.simps) simp
      moreover have "oids_from (unat (oid + 1)) type os = oids_from (unat (oid + 1 + 1)) type os"
        using l nt nx by (subst oids_from_rec) simp
      ultimately show ?thesis using 1(1) [OF False at nt] 1(2,3) by simp
    qed
  qed
qed

text \<open>The next id after the one found, in terms of the list of those still to come.\<close>

lemma oids_from_next:
  assumes "oids_from i type os = k # ks" "length os \<le> 255"
  shows "ks = oids_from (unat (k + 1)) type os" "i \<le> unat k" "unat k < length os"
proof -
  from assms have "ks = oids_from (unat (k + 1)) type os \<and> i \<le> unat k \<and> unat k < length os"
  proof (induction "length os - i" arbitrary: i)
    case (Suc d)
    then have i: "i < length os" by simp
    show ?case
    proof (cases "oid_type_of (os ! i) = Some type")
      case True
      with Suc.prems i have k: "k = of_nat i" "ks = oids_from (Suc i) type os"
        by (subst (asm) oids_from_rec, simp)+
      have "unat k = i" using k(1) i Suc.prems(2) by (simp add: unat_of_nat take_bit_nat_eq_self)
      moreover have "unat (k + 1) = Suc i"
        using i Suc.prems(2) calculation by (subst unat_plus_if') simp
      ultimately show ?thesis using k i by simp
    next
      case False
      with Suc.prems i have "oids_from (Suc i) type os = k # ks" by (subst (asm) oids_from_rec) simp
      moreover have "d = length os - Suc i" using Suc.hyps(2) by simp
      ultimately show ?thesis using Suc.hyps(1) [of "Suc i"] Suc.prems(2) by simp
    qed
  qed (simp add: oids_from_def)
  then show "ks = oids_from (unat (k + 1)) type os" "i \<le> unat k" "unat k < length os" by simp_all
qed

lemma foreach_oid_each:
  assumes "oids s = Some os" "unat (oid_count s) = length os"
    and keeps: "\<And>oid s s'. body oid s = Ret () s' \<Longrightarrow> oids s' = oids s \<and> oid_count s' = oid_count s"
  shows "foreach_oid type body s = each_oid body (oids_from 0 type os) s"
proof -
  have n: "length os \<le> 255"
    using unsigned_less [of "oid_count s", where ?'a = nat] assms(2) by simp
  have "foreach_oid_from fuel i type body s = each_oid body (oids_from (unat (i + 1)) type os) s"
    if "oids s = Some os" "unat (oid_count s) = length os" "length os - unat (i + 1) < fuel"
    for fuel i s
    using that
  proof (induction fuel arbitrary: i s)
    case 0
    then show ?case by simp
  next
    case (Suc fuel)
    show ?case
    proof (cases "oids_from (unat (i + 1)) type os")
      case Nil
      then show ?thesis by (simp add: oid_next_from [OF Suc.prems(1,2)])
    next
      case (Cons k ks)
      note nx = oids_from_next [OF Cons n]
      have nk: "unat (k + 1) = Suc (unat k)" using nx(3) n by (subst unat_plus_if') simp
      have "foreach_oid_from fuel k type body s' = each_oid body ks s'" if "body k s = Ret () s'" for s'
      proof -
        have "length os - unat (k + 1) < fuel" using Suc.prems(3) nx(2,3) nk by linarith
        from Suc.IH [OF _ _ this] keeps [OF that] Suc.prems show ?thesis by (simp add: nx(1))
      qed
      then show ?thesis by (simp add: oid_next_from [OF Suc.prems(1,2)] Cons cong: andThen_cong)
    qed
  qed
  from this [OF assms(1,2), of "255" 256] n show ?thesis by (simp add: foreach_oid_def)
qed

text \<open>Every writer of one timer's wake time and function keeps to that timer.\<close>

lemma own_timer_only_steps [simp]:
  "own_timer_only t s (set_waketime t w s') \<longleftrightarrow>
     timer_next s' = timer_next s \<and> timer_list s' = timer_list s \<and> last_insert s' = last_insert s \<and>
     (\<forall>x. x \<noteq> t \<longrightarrow> timer_waketime s' x = timer_waketime s x)"
  "own_timer_only t s (sched_wake_task k s') = own_timer_only t s s'"
  "own_timer_only t s (hw_do h s') = own_timer_only t s s'"
  by (auto simp: own_timer_only_def set_waketime_def hw_do_def)

text \<open>An event function run over a list of inputs, each applied before the call; the timer must stay armed.\<close>

fun run_inputs ::
    "('i \<Rightarrow> 's \<Rightarrow> 's) \<Rightarrow> ('s \<Rightarrow> (sf_result, 's) outcome) \<Rightarrow> 'i list \<Rightarrow> 's \<Rightarrow> (sf_result, 's) outcome" where
  "run_inputs put ev [] s = Ret SF_RESCHEDULE s"
| "run_inputs put ev (i # is) s =
     andThen (ev (put i s)) (\<lambda>r s. if r = SF_DONE \<and> is \<noteq> [] then Fault else
       if is = [] then Ret r s else run_inputs put ev is s)"

lemma run_inputs_cons:
  "ev (put i s) = Ret SF_RESCHEDULE s' \<Longrightarrow> run_inputs put ev (i # is) s = run_inputs put ev is s'"
  by simp

end
