(* ===== verification/Analog_In.thy ===== *)
theory Analog_In
  imports Device_Base
begin

text \<open>
  \<open>src/adccmds.c\<close>: analog inputs that are sampled several times, summed, checked against a permitted
  range and reported. The converter of the board is an input of the state: \<open>adc_delay pin\<close> is what
  \<open>gpio_adc_sample\<close> returns (0 when a value is ready) and \<open>adc_value pin\<close> what \<open>gpio_adc_read\<close> does.
\<close>

section \<open>State\<close>

record analog_in =
  ai_rest_time :: u32
  ai_sample_time :: u32
  ai_next_begin_time :: u32
  ai_value :: u16
  ai_min_value :: u16
  ai_max_value :: u16
  ai_pin :: u32
  ai_invalid_count :: u8
  ai_range_check_count :: u8
  ai_state :: u8
  ai_sample_count :: u8

record analog_ins = digital_outs +
  analog_of :: "u8 \<Rightarrow> analog_in"
  adc_delay :: "u32 \<Rightarrow> u32"
  adc_value :: "u32 \<Rightarrow> u16"

definition upd_ai :: "u8 \<Rightarrow> (analog_in \<Rightarrow> analog_in) \<Rightarrow> 'z analog_ins_scheme \<Rightarrow> 'z analog_ins_scheme" where
  "upd_ai oid f s = s\<lparr>analog_of := (analog_of s)(oid := f (analog_of s oid))\<rparr>"

definition analog_wake :: string where "analog_wake = ''analog_wake''"

section \<open>The sampling event\<close>

text \<open>The sum after one more sample: a new round starts when the state is past the sample count.\<close>

definition adc_accumulate :: "u16 \<Rightarrow> analog_in \<Rightarrow> analog_in" where
  "adc_accumulate value a =
     (let fresh = ai_state a \<ge> ai_sample_count a;
          state = (if fresh then 0 else ai_state a)
      in a\<lparr>ai_value := (if fresh then value else value + ai_value a), ai_state := state + 1\<rparr>)"

definition adc_in_range :: "analog_in \<Rightarrow> bool" where
  "adc_in_range a \<longleftrightarrow> ai_value a \<ge> ai_min_value a \<and> ai_value a \<le> ai_max_value a"

definition adc_range_check ::
    "u8 \<Rightarrow> 'z analog_ins_scheme \<Rightarrow> (unit, 'z analog_ins_scheme) outcome" where
  "adc_range_check oid s =
     (if adc_in_range (analog_of s oid) then
        Ret () (upd_ai oid (\<lambda>a. a\<lparr>ai_invalid_count := 0\<rparr>) s)
      else
        let s = upd_ai oid (\<lambda>a. a\<lparr>ai_invalid_count := ai_invalid_count a + 1\<rparr>) s in
        if ai_invalid_count (analog_of s oid) \<ge> ai_range_check_count (analog_of s oid) then
          andThen (sched_try_shutdown ''ADC out of range'' s) (\<lambda>_ s.
            Ret () (upd_ai oid (\<lambda>a. a\<lparr>ai_invalid_count := 0\<rparr>) s))
        else Ret () s)"

definition analog_in_event ::
    "u8 \<Rightarrow> 'z analog_ins_scheme \<Rightarrow> (sf_result, 'z analog_ins_scheme) outcome" where
  "analog_in_event oid s =
     (let t = Obj_timer oid; sample_delay = adc_delay s (ai_pin (analog_of s oid)) in
      if sample_delay \<noteq> 0 then
        Ret SF_RESCHEDULE (set_waketime t (timer_waketime s t + sample_delay) s)
      else
        let s = upd_ai oid (adc_accumulate (adc_value s (ai_pin (analog_of s oid)))) s in
        if ai_state (analog_of s oid) < ai_sample_count (analog_of s oid) then
          Ret SF_RESCHEDULE
            (set_waketime t (timer_waketime s t + ai_sample_time (analog_of s oid)) s)
        else
          andThen (adc_range_check oid s) (\<lambda>_ s.
            let s = sched_wake_task analog_wake s;
                s = upd_ai oid (\<lambda>a. a\<lparr>ai_next_begin_time := ai_next_begin_time a + ai_rest_time a\<rparr>) s
            in Ret SF_RESCHEDULE (set_waketime t (ai_next_begin_time (analog_of s oid)) s)))"

section \<open>Commands, task and shutdown\<close>

definition analog_zero :: analog_in where
  "analog_zero = \<lparr>ai_rest_time = 0, ai_sample_time = 0, ai_next_begin_time = 0, ai_value = 0,
     ai_min_value = 0, ai_max_value = 0, ai_pin = 0, ai_invalid_count = 0, ai_range_check_count = 0,
     ai_state = 0, ai_sample_count = 0\<rparr>"

definition command_config_analog_in ::
    "nat \<Rightarrow> u32 list \<Rightarrow> 'z analog_ins_scheme \<Rightarrow> (unit, 'z analog_ins_scheme) outcome" where
  "command_config_analog_in sizeof_analog_in args s =
     (let s = hw_do (Gpio_adc_setup (args ! 1)) s; oid = arg_oid args 0 in
      andThen (oid_alloc oid Analog_in_type sizeof_analog_in s) (\<lambda>_ s.
        let s = set_func (Obj_timer oid) Analog_in_event (clear_timer (Obj_timer oid) s)
        in Ret () (upd_ai oid (\<lambda>_. analog_zero\<lparr>ai_pin := args ! 1, ai_state := 1\<rparr>) s)))"

text \<open>The settings of a query; the state past the sample count starts a new round.\<close>

definition adc_setup :: "u32 list \<Rightarrow> analog_in \<Rightarrow> analog_in" where
  "adc_setup args a =
     a\<lparr>ai_next_begin_time := args ! 1, ai_sample_time := args ! 2, ai_sample_count := ucast (args ! 3),
       ai_state := ucast (args ! 3) + 1, ai_rest_time := args ! 4, ai_min_value := ucast (args ! 5),
       ai_max_value := ucast (args ! 6), ai_range_check_count := ucast (args ! 7)\<rparr>"

definition command_query_analog_in ::
    "u32 list \<Rightarrow> 'z analog_ins_scheme \<Rightarrow> (unit, 'z analog_ins_scheme) outcome" where
  "command_query_analog_in args s =
     andThen (obj_lookup (arg_oid args 0) Analog_in_type s) (\<lambda>oid s.
     andThen (sched_del_timer (Obj_timer oid) s) (\<lambda>_ s.
       let s = hw_do (Gpio_adc_cancel_sample (ai_pin (analog_of s oid))) s;
           s = set_waketime (Obj_timer oid) (args ! 1) s;
           s = upd_ai oid (adc_setup args) s
       in if ai_sample_count (analog_of s oid) = 0 then Ret () s
          else sched_add_timer (Obj_timer oid) s))"

definition analog_in_report :: "u8 \<Rightarrow> 'z analog_ins_scheme \<Rightarrow> (unit, 'z analog_ins_scheme) outcome" where
  "analog_in_report oid s =
     (let a = analog_of s oid in
      if ai_state a \<noteq> ai_sample_count a then Ret () s
      else
        let s = upd_ai oid (\<lambda>a. a\<lparr>ai_state := ai_state a + 1\<rparr>) s
        in Ret () (command_sendf (Response ''analog_in_state''
             [ucast oid, ai_next_begin_time a, ucast (ai_value a)]) s))"

definition analog_in_task :: "'z analog_ins_scheme \<Rightarrow> (unit, 'z analog_ins_scheme) outcome" where
  "analog_in_task s =
     (let (w, s) = sched_check_wake analog_wake s in
      if \<not> w then Ret () s else foreach_oid Analog_in_type analog_in_report s)"

definition analog_in_shutdown :: "'z analog_ins_scheme \<Rightarrow> (unit, 'z analog_ins_scheme) outcome" where
  "analog_in_shutdown s =
     foreach_oid Analog_in_type (\<lambda>oid s.
       let s = hw_do (Gpio_adc_cancel_sample (ai_pin (analog_of s oid))) s in
       if ai_sample_count (analog_of s oid) = 0 then Ret () s
       else
         let s = upd_ai oid (\<lambda>a. a\<lparr>ai_state := ai_sample_count a + 1,
                   ai_next_begin_time := ai_next_begin_time a + ai_rest_time a\<rparr>) s;
             s = set_waketime (Obj_timer oid) (ai_next_begin_time (analog_of s oid)) s
         in sched_add_timer (Obj_timer oid) s) s"

section \<open>Fields\<close>

lemma ai_fields [simp]:
  "analog_of (upd_ai oid f s) = (analog_of s)(oid := f (analog_of s oid))"
  "adc_delay (upd_ai oid f s) = adc_delay s" "adc_value (upd_ai oid f s) = adc_value s"
  "timer_waketime (upd_ai oid f s) = timer_waketime s" "timer_next (upd_ai oid f s) = timer_next s"
  "timer_list (upd_ai oid f s) = timer_list s" "last_insert (upd_ai oid f s) = last_insert s"
  "timer_func (upd_ai oid f s) = timer_func s"
  "task_wake (upd_ai oid f s) = task_wake s" "shutdown_status (upd_ai oid f s) = shutdown_status s"
  "analog_of (set_waketime t w s) = analog_of s" "adc_delay (set_waketime t w s) = adc_delay s"
  "adc_value (set_waketime t w s) = adc_value s"
  "analog_of (sched_wake_task k s) = analog_of s" "adc_delay (sched_wake_task k s) = adc_delay s"
  "task_wake (set_waketime t w s) = task_wake s"
  "shutdown_status (set_waketime t w s) = shutdown_status s"
  by (simp_all add: upd_ai_def set_waketime_def sched_wake_task_def sched_wake_tasks_def)

section \<open>One round of samples\<close>

text \<open>The converter delivers the value \<open>v\<close> on the pin of the input.\<close>

definition put_adc :: "u8 \<Rightarrow> u16 \<Rightarrow> 'z analog_ins_scheme \<Rightarrow> 'z analog_ins_scheme" where
  "put_adc oid v s = s\<lparr>adc_delay := (adc_delay s)(ai_pin (analog_of s oid) := 0),
     adc_value := (adc_value s)(ai_pin (analog_of s oid) := v)\<rparr>"

lemma put_adc_fields [simp]:
  "analog_of (put_adc oid v s) = analog_of s" "timer_waketime (put_adc oid v s) = timer_waketime s"
  "adc_delay (put_adc oid v s) (ai_pin (analog_of s oid)) = 0"
  "adc_value (put_adc oid v s) (ai_pin (analog_of s oid)) = v"
  "shutdown_status (put_adc oid v s) = shutdown_status s"
  by (simp_all add: put_adc_def)

text \<open>How many samples of the current round have been taken, and their sum.\<close>

definition adc_taken :: "analog_in \<Rightarrow> nat" where
  "adc_taken a = (if ai_state a \<ge> ai_sample_count a then 0 else unat (ai_state a))"

definition adc_sum :: "analog_in \<Rightarrow> u16" where
  "adc_sum a = (if ai_state a \<ge> ai_sample_count a then 0 else ai_value a)"

lemma accumulate_fields [simp]:
  "ai_sample_count (adc_accumulate v a) = ai_sample_count a" "ai_value (adc_accumulate v a) = v + adc_sum a"
  "ai_min_value (adc_accumulate v a) = ai_min_value a" "ai_max_value (adc_accumulate v a) = ai_max_value a"
  "ai_invalid_count (adc_accumulate v a) = ai_invalid_count a"
  "ai_range_check_count (adc_accumulate v a) = ai_range_check_count a"
  "ai_next_begin_time (adc_accumulate v a) = ai_next_begin_time a"
  "ai_rest_time (adc_accumulate v a) = ai_rest_time a"
  "ai_pin (adc_accumulate v a) = ai_pin a" "ai_sample_time (adc_accumulate v a) = ai_sample_time a"
  by (simp_all add: adc_accumulate_def adc_sum_def Let_def)

lemma accumulate_state:
  assumes "0 < ai_sample_count a"
  shows "unat (ai_state (adc_accumulate v a)) = adc_taken a + 1"
proof (cases "ai_state a \<ge> ai_sample_count a")
  case False
  then have "unat (ai_state a) < unat (ai_sample_count a)" by (simp add: word_less_nat_alt not_le)
  moreover have "unat (ai_sample_count a) < 2 ^ LENGTH(8)" by (rule unsigned_less)
  ultimately have "unat (ai_state a + 1) = unat (ai_state a) + 1"
    by (subst unat_plus_if') (simp add: word_less_nat_alt)
  with False show ?thesis by (simp add: adc_accumulate_def adc_taken_def Let_def)
qed (simp add: adc_accumulate_def adc_taken_def Let_def)

lemma accumulate_mid:
  assumes "adc_taken a + 1 < unat (ai_sample_count a)"
  shows "ai_state (adc_accumulate v a) < ai_sample_count a"
    "adc_taken (adc_accumulate v a) = adc_taken a + 1" "adc_sum (adc_accumulate v a) = v + adc_sum a"
proof -
  have "0 < ai_sample_count a" using assms by (simp add: word_less_nat_alt)
  note st = accumulate_state [OF this, of v]
  show l: "ai_state (adc_accumulate v a) < ai_sample_count a" using st assms by (simp add: word_less_nat_alt)
  show "adc_taken (adc_accumulate v a) = adc_taken a + 1" "adc_sum (adc_accumulate v a) = v + adc_sum a"
    using st not_le [THEN iffD2, OF l] by (simp_all add: adc_taken_def adc_sum_def)
qed

lemma accumulate_last:
  assumes "adc_taken a + 1 = unat (ai_sample_count a)"
  shows "ai_state (adc_accumulate v a) = ai_sample_count a"
proof -
  have "0 < ai_sample_count a" using assms by (simp add: word_less_nat_alt)
  then show ?thesis using accumulate_state assms by (simp add: word_unat_eq_iff)
qed

lemma analog_event_mid:
  assumes "adc_taken (analog_of s oid) + 1 < unat (ai_sample_count (analog_of s oid))"
  shows "analog_in_event oid (put_adc oid v s) = Ret SF_RESCHEDULE
     (set_waketime (Obj_timer oid) (timer_waketime s (Obj_timer oid) + ai_sample_time (analog_of s oid))
       (upd_ai oid (adc_accumulate v) (put_adc oid v s)))"
  using accumulate_mid(1) [OF assms] by (simp add: analog_in_event_def Let_def)

text \<open>The range check and the end of the round, on the object.\<close>

definition adc_round_end :: "analog_in \<Rightarrow> analog_in" where
  "adc_round_end a =
     a\<lparr>ai_invalid_count :=
         (if adc_in_range a \<or> ai_range_check_count a \<le> ai_invalid_count a + 1 then 0
          else ai_invalid_count a + 1),
       ai_next_begin_time := ai_next_begin_time a + ai_rest_time a\<rparr>"

definition adc_must_stop :: "analog_in \<Rightarrow> bool" where
  "adc_must_stop a \<longleftrightarrow> \<not> adc_in_range a \<and> ai_range_check_count a \<le> ai_invalid_count a + 1"

lemma analog_event_last:
  fixes oid :: u8 and s :: "'z analog_ins_scheme" and v :: u16
  assumes "adc_taken (analog_of s oid) + 1 = unat (ai_sample_count (analog_of s oid))"
  defines "a \<equiv> adc_accumulate v (analog_of s oid)"
  shows "adc_must_stop a \<Longrightarrow> shutdown_status s = 0 \<Longrightarrow>
      \<exists>s'. analog_in_event oid (put_adc oid v s) = Shutdown ''ADC out of range'' s'"
    and "\<not> (adc_must_stop a \<and> shutdown_status s = 0) \<Longrightarrow>
      \<exists>s'. analog_in_event oid (put_adc oid v s) = Ret SF_RESCHEDULE s' \<and>
        analog_of s' oid = adc_round_end a \<and> task_wake s' analog_wake \<and>
        timer_waketime s' (Obj_timer oid) = ai_next_begin_time a + ai_rest_time a \<and>
        shutdown_status s' = shutdown_status s"
proof -
  have l: "\<not> ai_state a < ai_sample_count a" using accumulate_last [OF assms(1), of v] by (simp add: a_def)
  let ?s = "upd_ai oid (adc_accumulate v) (put_adc oid v s)"
  have e: "analog_in_event oid (put_adc oid v s) = andThen (adc_range_check oid ?s) (\<lambda>_ s.
      let s = sched_wake_task analog_wake s;
          s = upd_ai oid (\<lambda>a. a\<lparr>ai_next_begin_time := ai_next_begin_time a + ai_rest_time a\<rparr>) s
      in Ret SF_RESCHEDULE (set_waketime (Obj_timer oid) (ai_next_begin_time (analog_of s oid)) s))"
    using l by (simp add: analog_in_event_def Let_def a_def)
  show "adc_must_stop a \<Longrightarrow> shutdown_status s = 0 \<Longrightarrow>
      \<exists>s'. analog_in_event oid (put_adc oid v s) = Shutdown ''ADC out of range'' s'"
    unfolding e by (simp add: adc_range_check_def adc_must_stop_def a_def sched_try_shutdown_def
      sched_shutdown_def Let_def)
  show "\<not> (adc_must_stop a \<and> shutdown_status s = 0) \<Longrightarrow>
      \<exists>s'. analog_in_event oid (put_adc oid v s) = Ret SF_RESCHEDULE s' \<and>
        analog_of s' oid = adc_round_end a \<and> task_wake s' analog_wake \<and>
        timer_waketime s' (Obj_timer oid) = ai_next_begin_time a + ai_rest_time a \<and>
        shutdown_status s' = shutdown_status s"
    unfolding e by (cases "adc_in_range a"; cases "ai_range_check_count a \<le> ai_invalid_count a + 1")
      (simp_all add: adc_range_check_def adc_must_stop_def adc_round_end_def sched_try_shutdown_def
        sched_shutdown_def Let_def a_def [symmetric])
qed

lemma fold_accumulate_fields [simp]:
  "ai_min_value (fold adc_accumulate vs a) = ai_min_value a"
  "ai_max_value (fold adc_accumulate vs a) = ai_max_value a"
  "ai_invalid_count (fold adc_accumulate vs a) = ai_invalid_count a"
  "ai_range_check_count (fold adc_accumulate vs a) = ai_range_check_count a"
  "ai_next_begin_time (fold adc_accumulate vs a) = ai_next_begin_time a"
  "ai_rest_time (fold adc_accumulate vs a) = ai_rest_time a"
  "ai_sample_count (fold adc_accumulate vs a) = ai_sample_count a"
  by (induction vs arbitrary: a) simp_all

text \<open>A run of samples up to the end of the round is the last sample in the state before it.\<close>

lemma adc_run:
  assumes "vs \<noteq> []" "adc_taken (analog_of s oid) + length vs = unat (ai_sample_count (analog_of s oid))"
  shows "\<exists>u v. run_inputs (put_adc oid) (analog_in_event oid) vs s = analog_in_event oid (put_adc oid v u) \<and>
      adc_taken (analog_of u oid) + 1 = unat (ai_sample_count (analog_of u oid)) \<and>
      adc_accumulate v (analog_of u oid) = fold adc_accumulate vs (analog_of s oid) \<and>
      shutdown_status u = shutdown_status s"
    and "ai_value (fold adc_accumulate vs (analog_of s oid)) = sum_list vs + adc_sum (analog_of s oid)"
    and "ai_state (fold adc_accumulate vs (analog_of s oid)) = ai_sample_count (analog_of s oid)"
  using assms
proof (induction vs arbitrary: s)
  case (Cons v vs)
  {
    case 1
    show ?case
    proof (cases vs)
      case Nil
      have "andThen m (\<lambda>r s. Ret r s) = m" for m :: "(sf_result, 'a analog_ins_scheme) outcome"
        by (cases m) simp_all
      with Nil 1 show ?thesis by (intro exI [of _ s] exI [of _ v]) simp
    next
      case (Cons w ws)
      with 1 have mid: "adc_taken (analog_of s oid) + 1 < unat (ai_sample_count (analog_of s oid))" by simp
      let ?u = "set_waketime (Obj_timer oid)
        (timer_waketime s (Obj_timer oid) + ai_sample_time (analog_of s oid))
        (upd_ai oid (adc_accumulate v) (put_adc oid v s))"
      have "adc_taken (analog_of ?u oid) + length vs = unat (ai_sample_count (analog_of ?u oid))"
        using 1 by (simp add: accumulate_mid(2) [OF mid])
      from Cons.IH(1) [OF _ this] Cons analog_event_mid [OF mid, of v] show ?thesis by simp
    qed
  next
    case 2
    show ?case
    proof (cases vs)
      case (Cons w ws)
      with 2 have mid: "adc_taken (analog_of s oid) + 1 < unat (ai_sample_count (analog_of s oid))" by simp
      let ?u = "upd_ai oid (adc_accumulate v) s"
      from 2 Cons.IH(2) [of ?u] Cons show ?thesis
        by (simp add: accumulate_mid(2,3) [OF mid] algebra_simps)
    qed (use 2 in simp)
  next
    case 3
    show ?case
    proof (cases vs)
      case (Cons w ws)
      with 3 have mid: "adc_taken (analog_of s oid) + 1 < unat (ai_sample_count (analog_of s oid))" by simp
      let ?u = "upd_ai oid (adc_accumulate v) s"
      from 3 Cons.IH(3) [of ?u] Cons show ?thesis by (simp add: accumulate_mid(2,3) [OF mid])
    qed (use 3 accumulate_last in simp)
  }
qed simp_all

lemma unat_sum_list:
  "sum_list (map unat vs) < 2 ^ LENGTH('a) \<Longrightarrow> unat (sum_list vs) = sum_list (map unat vs)"
  for vs :: "'a::len word list"
  by (induction vs) (simp_all add: unat_plus_if' no_olen_add_nat)

interpretation adc_timer: timer_component analog_in_event Obj_timer "\<lambda>_ _. True"
proof
  show "analog_in_event oid s \<noteq> Fault" for oid and s :: "'z analog_ins_scheme"
    by (auto simp: analog_in_event_def adc_range_check_def sched_try_shutdown_def sched_shutdown_def Let_def)
  show "own_timer_only (Obj_timer oid) s s'" if "analog_in_event oid s = Ret r s'"
    for oid r and s s' :: "'z analog_ins_scheme"
    using that by (auto simp: analog_in_event_def adc_range_check_def sched_try_shutdown_def
      sched_shutdown_def Let_def split: if_splits)
qed simp_all

text \<open>
  A query starts a fresh round, except for \<open>sample_count\<close> 255: the state wraps to 0, and the first
  sample is added to the value that was left from the query before.
\<close>

lemma adc_setup_fresh:
  assumes "(ucast (args ! 3) :: u8) \<noteq> 255"
  shows "ai_sample_count (adc_setup args a) \<le> ai_state (adc_setup args a)"
proof -
  let ?n = "ucast (args ! 3) :: u8"
  have "?n + 1 \<noteq> 0"
  proof
    assume "?n + 1 = 0"
    then have "?n = - 1" by (simp add: eq_neg_iff_add_eq_0)
    with assms show False by simp
  qed
  then show ?thesis by (simp add: adc_setup_def word_le_nat_alt unatSuc add.commute)
qed

lemma adc_setup_255:
  assumes "(ucast (args ! 3) :: u8) = 255"
  shows "ai_state (adc_setup args a) = 0" "adc_sum (adc_setup args a) = ai_value a"
  using assms by (simp_all add: adc_setup_def adc_sum_def)

section \<open>Properties of the analog inputs\<close>

text \<open>
  A complete round of an analog input: from a fresh state, after \<open>sample_count\<close> samples whose sum
  fits 16 bits, the value is exactly their sum and the state marks it for the task. When the sum is
  outside the permitted range for the \<open>range_check_count\<close>-th time in a row the firmware stops;
  otherwise the count of bad rounds is kept or cleared, and the next round starts \<open>rest_time\<close> later.
\<close>

theorem analog_in_round:
  assumes "ai_sample_count (analog_of s oid) \<le> ai_state (analog_of s oid)"
    and "vs \<noteq> []" "length vs = unat (ai_sample_count (analog_of s oid))"
    and "sum_list (map unat vs) < 2 ^ 16"
    and "a = analog_of s oid" "tot = sum_list (map unat vs)"
    and "ok = (unat (ai_min_value a) \<le> tot \<and> tot \<le> unat (ai_max_value a))"
    and "stop = (\<not> ok \<and> ai_range_check_count a \<le> ai_invalid_count a + 1)"
  shows "if stop \<and> shutdown_status s = 0
    then \<exists>s'. run_inputs (put_adc oid) (analog_in_event oid) vs s = Shutdown ''ADC out of range'' s'
    else \<exists>s' a'. run_inputs (put_adc oid) (analog_in_event oid) vs s = Ret SF_RESCHEDULE s' \<and>
      a' = analog_of s' oid \<and> unat (ai_value a') = tot \<and> ai_state a' = ai_sample_count a \<and>
      ai_invalid_count a' = (if ok \<or> stop then 0 else ai_invalid_count a + 1) \<and>
      timer_waketime s' (Obj_timer oid) = ai_next_begin_time a + ai_rest_time a \<and>
      task_wake s' analog_wake"
proof -
  have t0: "adc_taken (analog_of s oid) = 0" "adc_sum (analog_of s oid) = 0"
    using assms(1) by (simp_all add: adc_taken_def adc_sum_def)
  have len: "adc_taken (analog_of s oid) + length vs = unat (ai_sample_count (analog_of s oid))"
    using assms(3) t0 by simp
  define f where "f = fold adc_accumulate vs a"
  from adc_run(1) [OF assms(2) len] obtain u v where
    run: "run_inputs (put_adc oid) (analog_in_event oid) vs s = analog_in_event oid (put_adc oid v u)"
    and tk: "adc_taken (analog_of u oid) + 1 = unat (ai_sample_count (analog_of u oid))"
    and acc: "adc_accumulate v (analog_of u oid) = f" and sh: "shutdown_status u = shutdown_status s"
    by (auto simp: f_def assms(5))
  have val: "unat (ai_value f) = tot"
    using adc_run(2) [OF assms(2) len] t0 assms(4) by (simp add: f_def assms(5,6) unat_sum_list)
  have st: "ai_state f = ai_sample_count a" using adc_run(3) [OF assms(2) len] by (simp add: f_def assms(5))
  have ok: "adc_in_range f = ok"
    using val by (simp add: adc_in_range_def assms(7) word_le_nat_alt) (simp add: f_def)
  then have stop: "adc_must_stop f = stop" by (simp add: adc_must_stop_def assms(8)) (simp add: f_def)
  show ?thesis
    using analog_event_last [OF tk, of v] val st ok stop
    by (auto simp: run acc sh adc_round_end_def assms(8)) (auto simp: f_def assms(5))
qed

definition analog_ins_init :: "kconfig \<Rightarrow> analog_ins" where
  "analog_ins_init k = digital_outs.extend (digital_outs_init k)
     \<lparr>analog_of = (\<lambda>_. analog_zero), adc_delay = (\<lambda>_. 0), adc_value = (\<lambda>_. 0)\<rparr>"

definition analog_ins1 :: analog_ins where
  "analog_ins1 = (analog_ins_init example_conf)
     \<lparr>analog_of := (\<lambda>_. analog_zero\<lparr>ai_sample_count := 2, ai_state := 3, ai_min_value := 10,
        ai_max_value := 100, ai_range_check_count := 2, ai_rest_time := 500, ai_next_begin_time := 1000\<rparr>)\<rparr>"

theorem analog_in_round_witness:
  "\<exists>s'. run_inputs (put_adc 3) (analog_in_event 3) [30, 40] analog_ins1 = Ret SF_RESCHEDULE s' \<and>
     unat (ai_value (analog_of s' 3)) = 70 \<and> ai_invalid_count (analog_of s' 3) = 0 \<and>
     timer_waketime s' (Obj_timer 3) = 1500"
  using analog_in_round [where s = analog_ins1 and oid = 3 and vs = "[30, 40]", OF _ _ _ _ refl refl refl refl]
  by (auto simp: analog_ins1_def analog_zero_def simp del: run_inputs.simps)

end
