(* ===== verification/Pwm_Out.thy ===== *)
theory Pwm_Out
  imports Analog_In
begin

text \<open>
  \<open>src/pwmcmds.c\<close>: hardware PWM outputs with queued values and a safety timeout away from the
  default value.
\<close>

section \<open>State\<close>

record pwm_move =
  pm_waketime :: u32
  pm_value :: u16

record pwm_out_s =
  pw_pin :: u32
  pw_max_duration :: u32
  pw_default_value :: u16
  pw_mq :: move_queue_head

record pwm_outs = analog_ins +
  pwm_of :: "u8 \<Rightarrow> pwm_out_s"
  pwm_move :: "nat \<Rightarrow> pwm_move"

definition upd_pw :: "u8 \<Rightarrow> (pwm_out_s \<Rightarrow> pwm_out_s) \<Rightarrow> 'z pwm_outs_scheme \<Rightarrow> 'z pwm_outs_scheme" where
  "upd_pw oid f s = s\<lparr>pwm_of := (pwm_of s)(oid := f (pwm_of s oid))\<rparr>"

section \<open>Timer events\<close>

definition pwm_end_event :: "u8 \<Rightarrow> 'z pwm_outs_scheme \<Rightarrow> (sf_result, 'z pwm_outs_scheme) outcome" where
  "pwm_end_event oid s = Shutdown ''Missed scheduling of next hard pwm event'' s"

text \<open>What follows once \<open>value\<close> is on the pin and its move is released.\<close>

definition pwm_schedule ::
    "u8 \<Rightarrow> u16 \<Rightarrow> 'z pwm_outs_scheme \<Rightarrow> (sf_result, 'z pwm_outs_scheme) outcome" where
  "pwm_schedule oid value s =
     (let t = Obj_timer oid; p = pwm_of s oid in
      case move_queue_first (pw_mq p) of
        None \<Rightarrow>
          if value = pw_default_value p \<or> pw_max_duration p = 0 then Ret SF_DONE s
          else Ret SF_RESCHEDULE
            (set_func t Pwm_end_event (set_waketime t (timer_waketime s t + pw_max_duration p) s))
      | Some nn \<Rightarrow>
          let wake = pm_waketime (pwm_move s nn) in
          if value \<noteq> pw_default_value p \<and> pw_max_duration p \<noteq> 0 \<and>
             timer_is_before (timer_waketime s t + pw_max_duration p) wake
          then Shutdown ''Scheduled pwm event will exceed max_duration'' s
          else Ret SF_RESCHEDULE (set_waketime t wake s))"

definition pwm_event :: "u8 \<Rightarrow> 'z pwm_outs_scheme \<Rightarrow> (sf_result, 'z pwm_outs_scheme) outcome" where
  "pwm_event oid s =
     andThen (move_queue_pop (pw_mq (pwm_of s oid)) s) (\<lambda>(mn, mq) s.
       let s = upd_pw oid (\<lambda>p. p\<lparr>pw_mq := mq\<rparr>) s;
           value = pm_value (pwm_move s mn);
           s = hw_do (Gpio_pwm_write (pw_pin (pwm_of s oid)) (ucast value)) s
       in pwm_schedule oid value (move_free mn s))"

section \<open>Commands and shutdown\<close>

definition pwm_zero :: pwm_out_s where
  "pwm_zero = \<lparr>pw_pin = 0, pw_max_duration = 0, pw_default_value = 0,
     pw_mq = \<lparr>mq_first = None, mq_last = None\<rparr>\<rparr>"

definition command_config_pwm_out ::
    "nat \<Rightarrow> nat \<Rightarrow> u32 list \<Rightarrow> 'z pwm_outs_scheme \<Rightarrow> (unit, 'z pwm_outs_scheme) outcome" where
  "command_config_pwm_out sizeof_pwm_out sizeof_pwm_move args s =
     (let s = hw_do (Gpio_pwm_setup (args ! 1) (args ! 2) (args ! 3)) s; oid = arg_oid args 0 in
      andThen (oid_alloc oid Pwm_out_type sizeof_pwm_out s) (\<lambda>_ s.
        let s = clear_timer (Obj_timer oid) s;
            s = upd_pw oid (\<lambda>_. pwm_zero\<lparr>pw_pin := args ! 1, pw_default_value := ucast (args ! 4),
                  pw_max_duration := args ! 5\<rparr>) s;
            s = set_func (Obj_timer oid) Pwm_event s
        in andThen (move_queue_setup sizeof_pwm_move s) (\<lambda>mq s.
             Ret () (upd_pw oid (\<lambda>p. p\<lparr>pw_mq := mq\<rparr>) s))))"

definition command_queue_pwm_out ::
    "u32 list \<Rightarrow> 'z pwm_outs_scheme \<Rightarrow> (unit, 'z pwm_outs_scheme) outcome" where
  "command_queue_pwm_out args s =
     andThen (obj_lookup (arg_oid args 0) Pwm_out_type s) (\<lambda>oid s.
     andThen (move_alloc s) (\<lambda>m s.
       let t = Obj_timer oid;
           s = s\<lparr>pwm_move := (pwm_move s)(m := \<lparr>pm_waketime = args ! 1, pm_value = ucast (args ! 2)\<rparr>)\<rparr>
       in andThen (move_queue_push m (pw_mq (pwm_of s oid)) s) (\<lambda>(need_add_timer, mq) s.
         let s = upd_pw oid (\<lambda>p. p\<lparr>pw_mq := mq\<rparr>) s in
         if \<not> need_add_timer then Ret () s
         else
           andThen (sched_del_timer t s) (\<lambda>_ s.
             if timer_func s t = Some Pwm_end_event \<and>
                timer_is_before (timer_waketime s t) (pm_waketime (pwm_move s m))
             then Shutdown ''Scheduled pwm event will exceed max_duration'' s
             else
               sched_add_timer t (set_waketime t (pm_waketime (pwm_move s m)) (set_func t Pwm_event s))))))"

definition pwm_shutdown :: "'z pwm_outs_scheme \<Rightarrow> (unit, 'z pwm_outs_scheme) outcome" where
  "pwm_shutdown s =
     foreach_oid Pwm_out_type (\<lambda>oid s.
       let s = hw_do (Gpio_pwm_write (pw_pin (pwm_of s oid)) (ucast (pw_default_value (pwm_of s oid)))) s;
           s = set_func (Obj_timer oid) Pwm_event s
       in Ret () (upd_pw oid (\<lambda>p. p\<lparr>pw_mq := move_queue_clear (pw_mq p)\<rparr>) s)) s"

definition command_set_pwm_out :: "u32 list \<Rightarrow> 'z pwm_outs_scheme \<Rightarrow> (unit, 'z pwm_outs_scheme) outcome" where
  "command_set_pwm_out args s = Ret () (hw_do (Gpio_pwm_setup (args ! 0) (args ! 1) (args ! 2)) s)"

section \<open>The safety timeout\<close>

lemma pw_fields [simp]:
  "pwm_of (upd_pw oid f s) = (pwm_of s)(oid := f (pwm_of s oid))" "pwm_move (upd_pw oid f s) = pwm_move s"
  "timer_waketime (upd_pw oid f s) = timer_waketime s" "timer_next (upd_pw oid f s) = timer_next s"
  "timer_list (upd_pw oid f s) = timer_list s" "last_insert (upd_pw oid f s) = last_insert s"
  "timer_func (upd_pw oid f s) = timer_func s" "hw (upd_pw oid f s) = hw s"
  "pwm_of (set_waketime t w s) = pwm_of s" "pwm_of (set_func t g s) = pwm_of s"
  "pwm_of (hw_do h s) = pwm_of s" "pwm_move (hw_do h s) = pwm_move s"
  "pwm_of (move_free m s) = pwm_of s" "pwm_move (move_free m s) = pwm_move s"
  "oids (upd_pw oid f s) = oids s" "oid_count (upd_pw oid f s) = oid_count s"
  by (simp_all add: upd_pw_def set_waketime_def set_func_def hw_do_def move_free_def set_move_next_def)

lemma pwm_event_Ret:
  assumes "pwm_event oid s = Ret r s'"
  obtains mn u where "mq_first (pw_mq (pwm_of s oid)) = Some mn"
    "pwm_schedule oid (pm_value (pwm_move s mn)) u = Ret r s'"
    "pwm_of u oid = (pwm_of s oid)\<lparr>pw_mq := (pw_mq (pwm_of s oid))\<lparr>mq_first := move_next s mn\<rparr>\<rparr>"
    "timer_waketime u = timer_waketime s" "timer_next u = timer_next s" "timer_list u = timer_list s"
    "last_insert u = last_insert s" "timer_func u = timer_func s" "pwm_move u = pwm_move s"
    "hw u = hw s @ [Gpio_pwm_write (pw_pin (pwm_of s oid)) (ucast (pm_value (pwm_move s mn)))]"
proof -
  from assms obtain mn where mn: "mq_first (pw_mq (pwm_of s oid)) = Some mn"
    by (auto simp: pwm_event_def move_queue_pop_def split: option.splits)
  show thesis
    by (rule that [OF mn, of "move_free mn (hw_do (Gpio_pwm_write (pw_pin (pwm_of s oid))
        (ucast (pm_value (pwm_move s mn))))
      (upd_pw oid (\<lambda>p. p\<lparr>pw_mq := (pw_mq (pwm_of s oid))\<lparr>mq_first := move_next s mn\<rparr>\<rparr>) s))"])
      (use assms mn in \<open>simp_all add: pwm_event_def move_queue_pop_def Let_def\<close>)
qed

interpretation pwm_timer: timer_component pwm_event Obj_timer
  "\<lambda>oid s. \<not> move_queue_empty (pw_mq (pwm_of s oid))"
proof
  show "pwm_event oid s \<noteq> Fault" if "\<not> move_queue_empty (pw_mq (pwm_of s oid))"
    for oid and s :: "'z pwm_outs_scheme"
    using that by (auto simp: pwm_event_def move_queue_pop_def move_queue_empty_def pwm_schedule_def Let_def
      split: option.splits if_splits)
  show "own_timer_only (Obj_timer oid) s s'" if "pwm_event oid s = Ret r s'"
    for oid r and s s' :: "'z pwm_outs_scheme"
  proof -
    from pwm_event_Ret [OF that] obtain v u where "pwm_schedule oid v u = Ret r s'"
      "timer_waketime u = timer_waketime s" "timer_next u = timer_next s" "timer_list u = timer_list s"
      "last_insert u = last_insert s" by metis
    then show ?thesis
      by (auto simp: pwm_schedule_def own_timer_only_def Let_def split: if_splits option.splits)
  qed
qed simp_all

lemma pwm_shutdown_each:
  assumes "oids s = Some os" "unat (oid_count s) = length os"
  shows "\<exists>s'. pwm_shutdown s = Ret () s' \<and>
    hw s' = hw s @ map (\<lambda>oid. Gpio_pwm_write (pw_pin (pwm_of s oid)) (ucast (pw_default_value (pwm_of s oid))))
      (oids_from 0 Pwm_out_type os) \<and>
    (\<forall>oid \<in> set (oids_from 0 Pwm_out_type os). move_queue_empty (pw_mq (pwm_of s' oid)) \<and>
       timer_func s' (Obj_timer oid) = Some Pwm_event)"
proof -
  define body where "body oid s =
       (let s = hw_do (Gpio_pwm_write (pw_pin (pwm_of s oid)) (ucast (pw_default_value (pwm_of s oid)))) s;
           s = set_func (Obj_timer oid) Pwm_event s
       in Ret () (upd_pw oid (\<lambda>p. p\<lparr>pw_mq := move_queue_clear (pw_mq p)\<rparr>) s))"
    for oid and s :: "'a pwm_outs_scheme"
  have "pwm_shutdown s = each_oid body (oids_from 0 Pwm_out_type os) s"
    unfolding pwm_shutdown_def body_def [symmetric]
    by (rule foreach_oid_each [OF assms]) (auto simp: body_def Let_def)
  moreover have "\<exists>s'. each_oid body xs s = Ret () s' \<and>
      hw s' = hw s @ map (\<lambda>oid. Gpio_pwm_write (pw_pin (pwm_of s oid)) (ucast (pw_default_value (pwm_of s oid)))) xs \<and>
      (\<forall>oid. pw_pin (pwm_of s' oid) = pw_pin (pwm_of s oid) \<and>
         pw_default_value (pwm_of s' oid) = pw_default_value (pwm_of s oid)) \<and>
      (\<forall>oid. oid \<in> set xs \<or> move_queue_empty (pw_mq (pwm_of s oid)) \<and>
           timer_func s (Obj_timer oid) = Some Pwm_event \<longrightarrow>
         move_queue_empty (pw_mq (pwm_of s' oid)) \<and> timer_func s' (Obj_timer oid) = Some Pwm_event)"
    for xs
  proof (induction xs arbitrary: s)
    case (Cons x xs)
    let ?u = "upd_pw x (\<lambda>p. p\<lparr>pw_mq := move_queue_clear (pw_mq p)\<rparr>) (set_func (Obj_timer x) Pwm_event
      (hw_do (Gpio_pwm_write (pw_pin (pwm_of s x)) (ucast (pw_default_value (pwm_of s x)))) s))"
    have b: "body x s = Ret () ?u" by (simp add: body_def Let_def)
    from Cons.IH [of ?u] show ?case
      by (auto simp: b move_queue_clear_def move_queue_empty_def)
  qed simp
  ultimately show ?thesis by metis
qed

section \<open>Properties of the PWM outputs\<close>

text \<open>
  A hardware PWM output with a \<open>max_duration\<close> never stays away from its default unattended. An
  event that leaves another value on the pin re-arms the timer no later than \<open>max_duration\<close> ticks
  on: for the next queued value, or for \<open>pwm_end_event\<close>, which stops the firmware.
\<close>

theorem pwm_event_limits:
  assumes "pwm_event oid s = Ret r s'" "pw_max_duration (pwm_of s oid) \<noteq> 0"
    and "last (hw s') = Gpio_pwm_write (pw_pin (pwm_of s oid)) (ucast value)"
    and "value \<noteq> pw_default_value (pwm_of s oid)"
  shows "r = SF_RESCHEDULE \<and>
    \<not> timer_is_before (timer_waketime s (Obj_timer oid) + pw_max_duration (pwm_of s oid))
        (timer_waketime s' (Obj_timer oid)) \<and>
    (timer_func s' (Obj_timer oid) = Some Pwm_end_event \<or>
     \<not> move_queue_empty (pw_mq (pwm_of s' oid)) \<and> timer_func s' (Obj_timer oid) = timer_func s (Obj_timer oid))"
proof -
  from pwm_event_Ret [OF assms(1)] obtain mn u where u: "pwm_schedule oid (pm_value (pwm_move s mn)) u = Ret r s'"
    "pwm_of u oid = (pwm_of s oid)\<lparr>pw_mq := (pw_mq (pwm_of s oid))\<lparr>mq_first := move_next s mn\<rparr>\<rparr>"
    "timer_waketime u = timer_waketime s" "timer_func u = timer_func s"
    "hw u = hw s @ [Gpio_pwm_write (pw_pin (pwm_of s oid)) (ucast (pm_value (pwm_move s mn)))]" by metis
  have "hw s' = hw u"
    using u(1) by (auto simp: pwm_schedule_def Let_def split: if_splits option.splits)
  then have "(ucast value :: u32) = ucast (pm_value (pwm_move s mn))" using assms(3) u(5) by simp
  then have "pm_value (pwm_move s mn) = value" by (simp add: word_unat_eq_iff unat_ucast_16_32)
  then show ?thesis using u(1-4) assms(2,4) not_before_self
    by (auto simp: pwm_schedule_def Let_def move_queue_first_def move_queue_empty_def
      split: if_splits option.splits)
qed

text \<open>
  On an emergency stop every hardware PWM output of the table is written its default value, once
  each and in the order of the ids; its queue is empty and the next queued value will be applied by
  \<open>pwm_event\<close> again.
\<close>

theorem pwm_shutdown_defaults:
  assumes "oids s = Some os" "unat (oid_count s) = length os"
  shows "\<exists>s'. pwm_shutdown s = Ret () s' \<and>
    hw s' = hw s @ map (\<lambda>oid. Gpio_pwm_write (pw_pin (pwm_of s oid)) (ucast (pw_default_value (pwm_of s oid))))
      (oids_from 0 Pwm_out_type os) \<and>
    (\<forall>oid \<in> set (oids_from 0 Pwm_out_type os). move_queue_empty (pw_mq (pwm_of s' oid)) \<and>
       timer_func s' (Obj_timer oid) = Some Pwm_event)"
  using assms by (rule pwm_shutdown_each)

definition pwm_outs_init :: "kconfig \<Rightarrow> pwm_outs" where
  "pwm_outs_init k = analog_ins.extend (analog_ins_init k)
     \<lparr>pwm_of = (\<lambda>_. pwm_zero), pwm_move = (\<lambda>_. \<lparr>pm_waketime = 0, pm_value = 0\<rparr>)\<rparr>"

definition pwm_outs1 :: pwm_outs where
  "pwm_outs1 = (pwm_outs_init example_conf)
     \<lparr>pwm_of := (\<lambda>_. pwm_zero\<lparr>pw_pin := 7, pw_max_duration := 500,
        pw_mq := \<lparr>mq_first = Some 0, mq_last = Some 0\<rparr>\<rparr>),
      pwm_move := (\<lambda>_. \<lparr>pm_waketime = 1000, pm_value = 99\<rparr>), move_next := (\<lambda>_. None),
      timer_waketime := (\<lambda>_. 1000),
      oids := Some [\<lparr>oid_type_of = Some Pwm_out_type, oid_data = Some 0\<rparr>], oid_count := 1\<rparr>"

theorem pwm_event_limits_witness:
  "\<exists>s'. pwm_event 0 pwm_outs1 = Ret SF_RESCHEDULE s' \<and>
     timer_func s' (Obj_timer 0) = Some Pwm_end_event \<and> timer_waketime s' (Obj_timer 0) = 1500"
proof -
  obtain s' where e: "pwm_event 0 pwm_outs1 = Ret SF_RESCHEDULE s'"
    and l: "last (hw s') = Gpio_pwm_write 7 99" and f: "timer_waketime s' (Obj_timer 0) = 1500"
      "timer_func s' (Obj_timer 0) = Some Pwm_end_event"
    by (simp add: pwm_event_def pwm_schedule_def move_queue_pop_def move_queue_first_def pwm_outs1_def
      pwm_zero_def Let_def move_free_def set_move_next_def upd_pw_def hw_do_def set_func_def set_waketime_def)
  have "pw_pin (pwm_of pwm_outs1 0) = 7" "pw_default_value (pwm_of pwm_outs1 0) = 0"
    "pw_max_duration (pwm_of pwm_outs1 0) = 500" by (simp_all add: pwm_outs1_def pwm_zero_def)
  with pwm_event_limits [OF e, of 99] l e f show ?thesis by simp
qed

theorem pwm_shutdown_defaults_witness:
  "\<exists>s'. pwm_shutdown pwm_outs1 = Ret () s' \<and> last (hw s') = Gpio_pwm_write 7 0 \<and>
     move_queue_empty (pw_mq (pwm_of s' 0))"
proof -
  have "oids pwm_outs1 = Some [\<lparr>oid_type_of = Some Pwm_out_type, oid_data = Some 0\<rparr>]"
    "unat (oid_count pwm_outs1) = 1" "pw_pin (pwm_of pwm_outs1 0) = 7"
    "pw_default_value (pwm_of pwm_outs1 0) = 0"
    by (simp_all add: pwm_outs1_def pwm_zero_def)
  moreover have "oids_from 0 Pwm_out_type [\<lparr>oid_type_of = Some Pwm_out_type, oid_data = Some 0\<rparr>] = [0]"
    by (simp add: oids_from_def upt_rec)
  ultimately show ?thesis using pwm_shutdown_defaults [of pwm_outs1] by auto
qed

end
