(* ===== verification/Buttons.thy ===== *)
theory Buttons
  imports Pwm_Out
begin

text \<open>
  \<open>src/buttons.c\<close>: debounced buttons whose changes are reported to the host with acknowledgement and
  retransmission.
\<close>

section \<open>State\<close>

text \<open>The array \<open>reports\<close> keeps its eight places; the first \<open>report_count\<close> hold pending reports.\<close>

record buttons =
  bu_rest_ticks :: u32
  bu_pressed :: u8
  bu_last_pressed :: u8
  bu_report_count :: u8
  bu_reports :: "u8 list"
  bu_ack_count :: u8
  bu_retransmit_state :: u8
  bu_retransmit_count :: u8
  bu_button_count :: u8
  bu_pins :: "u32 list"

record buttonss = pwm_outs +
  buttons_of :: "u8 \<Rightarrow> buttons"

definition upd_bu :: "u8 \<Rightarrow> (buttons \<Rightarrow> buttons) \<Rightarrow> 'z buttonss_scheme \<Rightarrow> 'z buttonss_scheme" where
  "upd_bu oid f s = s\<lparr>buttons_of := (buttons_of s)(oid := f (buttons_of s oid))\<rparr>"

definition buttons_wake :: string where "buttons_wake = ''buttons_wake''"

definition BF_NO_RETRANSMIT :: u8 where "BF_NO_RETRANSMIT = 0x80"
definition BF_PENDING :: u8 where "BF_PENDING = 0xff"
definition BF_ACKED :: u8 where "BF_ACKED = 0xfe"

section \<open>The polling event\<close>

text \<open>The loop over the pins: bit \<open>i\<close> of the status is the level of pin \<open>i\<close>.\<close>

definition buttons_status :: "u8 \<Rightarrow> 'z buttonss_scheme \<Rightarrow> u8" where
  "buttons_status oid s =
     fold (\<lambda>i status. if gpio_in_read (bu_pins (buttons_of s oid) ! i) s then status OR push_bit i 1 else status)
       [0..<unat (bu_button_count (buttons_of s oid))] 0"

text \<open>The debouncing; the result tells whether a report was queued.\<close>

definition buttons_debounce :: "u8 \<Rightarrow> buttons \<Rightarrow> buttons \<times> bool" where
  "buttons_debounce status b =
     (let diff = status XOR bu_pressed b in
      if diff \<noteq> 0 then
        let debounced = NOT (status XOR bu_last_pressed b) in
        if diff AND debounced \<noteq> 0 then
          let b = b\<lparr>bu_pressed := (bu_pressed b AND NOT debounced) OR (status AND debounced)\<rparr> in
          if unat (bu_report_count b) < 8 then
            (b\<lparr>bu_reports := (bu_reports b)[unat (bu_report_count b) := bu_pressed b],
               bu_report_count := bu_report_count b + 1, bu_retransmit_state := BF_PENDING\<rparr>, True)
          else (b, False)
        else (b, False)
      else (b, False))"

text \<open>The retransmit timer; the result tells whether it ran out.\<close>

definition buttons_countdown :: "buttons \<Rightarrow> buttons \<times> bool" where
  "buttons_countdown b =
     (if bu_retransmit_state b AND BF_NO_RETRANSMIT = 0 then
        let st = bu_retransmit_state b - 1
        in (b\<lparr>bu_retransmit_state := st\<rparr>, st AND BF_NO_RETRANSMIT \<noteq> 0)
      else (b, False))"

definition buttons_event :: "u8 \<Rightarrow> 'z buttonss_scheme \<Rightarrow> (sf_result, 'z buttonss_scheme) outcome" where
  "buttons_event oid s =
     (let status = buttons_status oid s;
          (b, reported) = buttons_debounce status (buttons_of s oid);
          b = b\<lparr>bu_last_pressed := status\<rparr>;
          (b, timeout) = buttons_countdown b;
          s = upd_bu oid (\<lambda>_. b) s;
          s = (if reported then sched_wake_task buttons_wake s else s);
          s = (if timeout then sched_wake_task buttons_wake s else s)
      in Ret SF_RESCHEDULE
           (set_waketime (Obj_timer oid) (timer_waketime s (Obj_timer oid) + bu_rest_ticks b) s))"

section \<open>Commands and task\<close>

definition buttons_zero :: "nat \<Rightarrow> buttons" where
  "buttons_zero n = \<lparr>bu_rest_ticks = 0, bu_pressed = 0, bu_last_pressed = 0, bu_report_count = 0,
     bu_reports = replicate 8 0, bu_ack_count = 0, bu_retransmit_state = 0, bu_retransmit_count = 0,
     bu_button_count = 0, bu_pins = replicate n 0\<rparr>"

definition command_config_buttons ::
    "nat \<Rightarrow> nat \<Rightarrow> u32 list \<Rightarrow> 'z buttonss_scheme \<Rightarrow> (unit, 'z buttonss_scheme) outcome" where
  "command_config_buttons sizeof_buttons sizeof_gpio_in args s =
     (let button_count = ucast (args ! 1) :: u8; oid = arg_oid args 0 in
      andThen (shutdown_if (button_count > 8) ''Max of 8 buttons'' s) (\<lambda>_ s.
      andThen (oid_alloc oid Buttons_type (sizeof_buttons + sizeof_gpio_in * unat button_count) s) (\<lambda>_ s.
        let s = clear_timer (Obj_timer oid) s;
            s = upd_bu oid (\<lambda>_. (buttons_zero (unat button_count))\<lparr>bu_button_count := button_count\<rparr>) s
        in Ret () (set_func (Obj_timer oid) Buttons_event s))))"

definition command_buttons_add :: "u32 list \<Rightarrow> 'z buttonss_scheme \<Rightarrow> (unit, 'z buttonss_scheme) outcome" where
  "command_buttons_add args s =
     andThen (obj_lookup (arg_oid args 0) Buttons_type s) (\<lambda>oid s.
       let pos = ucast (args ! 1) :: u8 in
       andThen (shutdown_if (pos \<ge> bu_button_count (buttons_of s oid))
           ''Set button past maximum button count'' s) (\<lambda>_ s.
         let s = hw_do (Gpio_in_setup (args ! 2) (args ! 3)) s
         in Ret () (upd_bu oid (\<lambda>b. b\<lparr>bu_pins := (bu_pins b)[unat pos := args ! 2]\<rparr>) s)))"

definition buttons_setup :: "u32 list \<Rightarrow> buttons \<Rightarrow> buttons" where
  "buttons_setup args b =
     b\<lparr>bu_rest_ticks := args ! 2, bu_pressed := ucast (args ! 4), bu_last_pressed := ucast (args ! 4),
       bu_ack_count := 0, bu_report_count := 0, bu_retransmit_state := BF_ACKED,
       bu_retransmit_count := ucast (args ! 3)\<rparr>"

definition command_buttons_query :: "u32 list \<Rightarrow> 'z buttonss_scheme \<Rightarrow> (unit, 'z buttonss_scheme) outcome" where
  "command_buttons_query args s =
     andThen (obj_lookup (arg_oid args 0) Buttons_type s) (\<lambda>oid s.
     andThen (sched_del_timer (Obj_timer oid) s) (\<lambda>_ s.
       let s = set_waketime (Obj_timer oid) (args ! 1) s;
           s = upd_bu oid (buttons_setup args) s
       in andThen (shutdown_if (bu_retransmit_count (buttons_of s oid) \<ge> BF_NO_RETRANSMIT)
            ''Invalid buttons retransmit count'' s) (\<lambda>_ s.
            if bu_rest_ticks (buttons_of s oid) = 0 then Ret () s
            else sched_add_timer (Obj_timer oid) s)))"

text \<open>The acknowledgement moves the reports that stay pending to the front.\<close>

definition buttons_acked :: "u8 \<Rightarrow> buttons \<Rightarrow> buttons" where
  "buttons_acked count b =
     (let b = b\<lparr>bu_ack_count := bu_ack_count b + count\<rparr> in
      if count \<ge> bu_report_count b then b\<lparr>bu_report_count := 0, bu_retransmit_state := BF_ACKED\<rparr>
      else
        let pending = bu_report_count b - count
        in b\<lparr>bu_reports := fold (\<lambda>i r. r[i := r ! (i + unat count)]) [0..<unat pending] (bu_reports b),
             bu_report_count := pending\<rparr>)"

definition command_buttons_ack :: "u32 list \<Rightarrow> 'z buttonss_scheme \<Rightarrow> (unit, 'z buttonss_scheme) outcome" where
  "command_buttons_ack args s =
     andThen (obj_lookup (arg_oid args 0) Buttons_type s) (\<lambda>oid s.
       Ret () (upd_bu oid (buttons_acked (ucast (args ! 1))) s))"

definition buttons_report :: "u8 \<Rightarrow> 'z buttonss_scheme \<Rightarrow> (unit, 'z buttonss_scheme) outcome" where
  "buttons_report oid s =
     (let b = buttons_of s oid in
      if bu_retransmit_state b \<noteq> BF_PENDING \<or> bu_report_count b = 0 then Ret () s
      else
        let s = upd_bu oid (\<lambda>b. b\<lparr>bu_retransmit_state := bu_retransmit_count b\<rparr>) s
        in Ret () (command_sendf (Response_data ''buttons_state'' [ucast oid, ucast (bu_ack_count b)]
             (take (unat (bu_report_count b)) (bu_reports b))) s))"

definition buttons_task :: "'z buttonss_scheme \<Rightarrow> (unit, 'z buttonss_scheme) outcome" where
  "buttons_task s =
     (let (w, s) = sched_check_wake buttons_wake s in
      if \<not> w then Ret () s else foreach_oid Buttons_type buttons_report s)"

section \<open>Fields\<close>

lemma bu_fields [simp]:
  "buttons_of (upd_bu oid f s) = (buttons_of s)(oid := f (buttons_of s oid))"
  "timer_waketime (upd_bu oid f s) = timer_waketime s" "timer_next (upd_bu oid f s) = timer_next s"
  "timer_list (upd_bu oid f s) = timer_list s" "last_insert (upd_bu oid f s) = last_insert s"
  "sent (upd_bu oid f s) = sent s" "in_sendf (upd_bu oid f s) = in_sendf s"
  "buttons_of (set_waketime t w s) = buttons_of s" "buttons_of (sched_wake_task k s) = buttons_of s"
  "sent (set_waketime t w s) = sent s" "in_sendf (set_waketime t w s) = in_sendf s"
  "in_sendf (sched_wake_task k s) = in_sendf s" "gpio_level (upd_bu oid f s) = gpio_level s"
  "gpio_level (set_waketime t w es) = gpio_level es"
  by (simp_all add: upd_bu_def set_waketime_def sched_wake_task_def sched_wake_tasks_def)

interpretation buttons_timer: timer_component buttons_event Obj_timer "\<lambda>_ _. True"
  by unfold_locales (auto simp: buttons_event_def own_timer_only_def Let_def split: prod.splits)

section \<open>Debouncing\<close>

lemma debounced_pressed:
  "bu_pressed (fst (buttons_debounce status b)) =
     (bu_pressed b AND (status XOR bu_last_pressed b)) OR (status AND NOT (status XOR bu_last_pressed b))"
proof -
  let ?p = "bu_pressed b" and ?d = "NOT (status XOR bu_last_pressed b)"
  have eq: "?p = (?p AND NOT ?d) OR (status AND ?d)" if "(status XOR ?p) AND ?d = 0"
  proof (rule bit_word_eqI)
    fix i assume i: "i < LENGTH(8)"
    have "\<not> bit ((status XOR ?p) AND ?d) i" unfolding that by simp
    then show "bit ?p i = bit ((?p AND NOT ?d) OR (status AND ?d)) i" using i by (auto simp: bit_simps)
  qed
  show ?thesis
  proof (cases "(status XOR ?p) AND ?d = 0")
    case True
    then have "bu_pressed (fst (buttons_debounce status b)) = ?p" by (simp add: buttons_debounce_def Let_def)
    with eq [OF True] show ?thesis by simp
  next
    case False
    then have "status XOR ?p \<noteq> 0" by auto
    with False show ?thesis by (simp add: buttons_debounce_def Let_def)
  qed
qed

lemma debounce_keeps:
  "length (bu_reports (fst (buttons_debounce status b))) = length (bu_reports b)"
  "bu_ack_count (fst (buttons_debounce status b)) = bu_ack_count b"
  "bu_retransmit_count (fst (buttons_debounce status b)) = bu_retransmit_count b"
  by (simp_all add: buttons_debounce_def Let_def)

section \<open>The reports\<close>

definition pending_reports :: "buttons \<Rightarrow> u8 list" where
  "pending_reports b = take (unat (bu_report_count b)) (bu_reports b)"

definition buttons_ok :: "buttons \<Rightarrow> bool" where
  "buttons_ok b \<longleftrightarrow> length (bu_reports b) = 8 \<and> unat (bu_report_count b) \<le> 8"

lemma length_pending: "buttons_ok b \<Longrightarrow> length (pending_reports b) = unat (bu_report_count b)"
  by (simp add: pending_reports_def buttons_ok_def)

lemma u8_suc: "unat c < 8 \<Longrightarrow> unat (c + 1) = Suc (unat c)" for c :: u8
  by (subst unat_plus_if') simp

lemma debounce_pending:
  assumes "buttons_ok b" "buttons_debounce status b = (b', rep)"
  shows "buttons_ok b'" "bu_ack_count b' = bu_ack_count b"
    "pending_reports b' = pending_reports b @ (if rep then [bu_pressed b'] else [])"
  using assms
  by (auto simp: buttons_debounce_def buttons_ok_def pending_reports_def Let_def u8_suc
    take_Suc_conv_app_nth split: if_splits)

lemma countdown_pending [simp]:
  "pending_reports (fst (buttons_countdown b)) = pending_reports b"
  "bu_ack_count (fst (buttons_countdown b)) = bu_ack_count b"
  "bu_pressed (fst (buttons_countdown b)) = bu_pressed b"
  "buttons_ok (fst (buttons_countdown b)) = buttons_ok b"
  by (simp_all add: buttons_countdown_def pending_reports_def buttons_ok_def Let_def)

text \<open>The copy loop of the acknowledgement, place by place.\<close>

lemma ack_loop:
  assumes "n + c \<le> length r"
  shows "length (fold (\<lambda>i r. r[i := r ! (i + c)]) [0..<n] r) = length r"
    "take n (fold (\<lambda>i r. r[i := r ! (i + c)]) [0..<n] r) = take n (drop c r)"
    "\<And>j. n \<le> j \<Longrightarrow> j < length r \<Longrightarrow> fold (\<lambda>i r. r[i := r ! (i + c)]) [0..<n] r ! j = r ! j"
  using assms
proof (induction n)
  case (Suc n)
  let ?f = "fold (\<lambda>i r. r[i := r ! (i + c)]) [0..<n] r"
  {
    case 1
    with Suc show ?case by simp
  next
    case 2
    have "?f ! (n + c) = r ! (n + c)" using Suc 2 by simp
    moreover have "length ?f = length r" "take n ?f = take n (drop c r)" using Suc 2 by simp_all
    ultimately show ?case using 2
      by (simp add: take_Suc_conv_app_nth add.commute)
  next
    case (3 j)
    then show ?case using Suc by simp
  }
qed simp_all

lemma acked_pending:
  assumes "buttons_ok b" "unat count \<le> unat (bu_report_count b)"
  shows "buttons_ok (buttons_acked count b)" "bu_ack_count (buttons_acked count b) = bu_ack_count b + count"
    "pending_reports (buttons_acked count b) = drop (unat count) (pending_reports b)"
proof -
  let ?n = "bu_report_count b - count"
  have n: "unat ?n = unat (bu_report_count b) - unat count"
    using assms(2) by (simp add: unat_sub word_le_nat_alt)
  then have "unat ?n + unat count \<le> length (bu_reports b)" using assms by (simp add: buttons_ok_def)
  note loop = ack_loop(1,2) [OF this]
  show "buttons_ok (buttons_acked count b)"
    using assms(1) loop(1) n
    by (auto simp: buttons_acked_def buttons_ok_def Let_def intro: le_trans [OF diff_le_self])
  show "bu_ack_count (buttons_acked count b) = bu_ack_count b + count"
    by (simp add: buttons_acked_def Let_def)
  show "pending_reports (buttons_acked count b) = drop (unat count) (pending_reports b)"
    using assms loop(2) n
    by (simp add: buttons_acked_def pending_reports_def Let_def word_le_nat_alt drop_take)
qed

lemma event_object:
  assumes "buttons_event oid s = Ret r s'" "buttons_debounce (buttons_status oid s) (buttons_of s oid) = (b, rep)"
  shows "buttons_of s' oid = fst (buttons_countdown (b\<lparr>bu_last_pressed := buttons_status oid s\<rparr>))"
  using assms by (auto simp: buttons_event_def Let_def split: prod.splits if_splits)

lemma event_returns: obtains s' where "buttons_event oid s = Ret SF_RESCHEDULE s'"
proof (rule that)
  show "buttons_event oid s = Ret SF_RESCHEDULE (case buttons_event oid s of Ret r s' \<Rightarrow> s')"
    by (simp add: buttons_event_def Let_def split: prod.splits)
qed

lemma event_level: "buttons_event oid s = Ret r s' \<Longrightarrow> gpio_level s' = gpio_level s"
  by (auto simp: buttons_event_def Let_def split: prod.splits if_splits)

lemma event_sendf: "buttons_event oid s = Ret r s' \<Longrightarrow> in_sendf s' = in_sendf s"
  by (auto simp: buttons_event_def Let_def split: prod.splits if_splits)

lemma report_object:
  assumes "buttons_report oid s = Ret u s'" "\<not> in_sendf s"
  shows "buttons_of s' oid = buttons_of s oid \<and> sent s' = sent s \<or>
    buttons_of s' oid = (buttons_of s oid)\<lparr>bu_retransmit_state := bu_retransmit_count (buttons_of s oid)\<rparr> \<and>
    sent s' = sent s @ [Response_data ''buttons_state'' [ucast oid, ucast (bu_ack_count (buttons_of s oid))]
      (pending_reports (buttons_of s oid))]"
  using assms
  by (auto simp: buttons_report_def Let_def command_sendf_def pending_reports_def split: if_splits)

text \<open>
  The life of one buttons object after a query: polls, acknowledgements of reports that were sent,
  runs of the task, and steps of the rest of the firmware. \<open>log\<close> collects the reports queued since
  the query and \<open>acked\<close> counts those the host has acknowledged.
\<close>

inductive buttons_run :: "u8 \<Rightarrow> 'z buttonss_scheme \<Rightarrow> u8 list \<Rightarrow> nat \<Rightarrow> bool" for oid where
  query: "buttons_of s oid = buttons_setup args b \<Longrightarrow> length (bu_reports b) = 8 \<Longrightarrow> buttons_run oid s [] 0"
| poll: "buttons_run oid s log acked \<Longrightarrow> buttons_event oid s = Ret r s' \<Longrightarrow>
    buttons_debounce (buttons_status oid s) (buttons_of s oid) = (b, rep) \<Longrightarrow>
    buttons_run oid s' (if rep then log @ [bu_pressed b] else log) acked"
| ack: "buttons_run oid s log acked \<Longrightarrow> unat count \<le> unat (bu_report_count (buttons_of s oid)) \<Longrightarrow>
    buttons_run oid (upd_bu oid (buttons_acked count) s) log (acked + unat count)"
| report: "buttons_run oid s log acked \<Longrightarrow> \<not> in_sendf s \<Longrightarrow> buttons_report oid s = Ret u s' \<Longrightarrow>
    buttons_run oid s' log acked"
| other: "buttons_run oid s log acked \<Longrightarrow> buttons_of s' oid = buttons_of s oid \<Longrightarrow> buttons_run oid s' log acked"

lemma buttons_run_inv:
  assumes "buttons_run oid s log acked"
  shows "buttons_ok (buttons_of s oid) \<and> acked \<le> length log \<and>
    pending_reports (buttons_of s oid) = drop acked log \<and> bu_ack_count (buttons_of s oid) = of_nat acked"
  using assms
proof induction
  case (query s args b)
  then show ?case by (simp add: buttons_setup_def buttons_ok_def pending_reports_def)
next
  case (poll s log acked r s' b rep)
  then have ok: "buttons_ok (buttons_of s oid)" by simp
  note d = debounce_pending [OF ok poll.hyps(3)] and o = event_object [OF poll.hyps(2,3)]
  have "pending_reports (b\<lparr>bu_last_pressed := l\<rparr>) = pending_reports b" "buttons_ok (b\<lparr>bu_last_pressed := l\<rparr>) = buttons_ok b"
    for l by (simp_all add: pending_reports_def buttons_ok_def)
  then show ?case using poll.IH d by (auto simp: o)
next
  case (ack s log acked count)
  then have "unat count \<le> length (drop acked log)"
    using length_pending [of "buttons_of s oid"] by simp
  moreover have "acked \<le> length log" using ack by simp
  ultimately have "acked + unat count \<le> length log" by simp
  with ack acked_pending [of "buttons_of s oid" count] show ?case by (simp add: add.commute)
next
  case (report s log acked u s')
  from report_object [OF report.hyps(3,2)] report.IH show ?case
    by (auto simp: buttons_ok_def pending_reports_def)
qed simp

section \<open>Properties of the buttons\<close>

text \<open>
  Debouncing is bitwise: a button's reported state becomes its new level exactly when two samples
  in a row agree on it, and otherwise stays; the tests on the whole status only save work.
\<close>

theorem buttons_debounce_bits:
  "bit (bu_pressed (fst (buttons_debounce status b))) i =
     (if bit status i = bit (bu_last_pressed b) i then bit status i else bit (bu_pressed b) i)"
  using bit_imp_le_length [of status i] bit_imp_le_length [of "bu_last_pressed b" i]
    bit_imp_le_length [of "bu_pressed b" i]
  by (auto simp: debounced_pressed bit_simps)

text \<open>
  No report of a button change is lost, repeated or reordered between queueing and sending. At any
  point after a query, at most eight reports wait, they are exactly those queued and not yet
  acknowledged, oldest first, and every \<open>buttons_state\<close> message carries the number of acknowledged
  reports (modulo 256) and all those waiting.
\<close>

theorem buttons_messages_consistent:
  assumes "buttons_run oid s log acked" "buttons_report oid s = Ret u s'" "\<not> in_sendf s"
  shows "acked \<le> length log \<and> length log \<le> acked + 8 \<and>
    (sent s' = sent s \<or>
     sent s' = sent s @ [Response_data ''buttons_state'' [ucast oid, ucast (of_nat acked :: u8)] (drop acked log)])"
proof -
  note inv = buttons_run_inv [OF assms(1)]
  then have "length (drop acked log) \<le> 8"
    using length_pending [of "buttons_of s oid"] by (simp add: buttons_ok_def)
  then have "length log \<le> acked + 8" by simp
  with inv report_object [OF assms(2,3)] show ?thesis by auto
qed

definition buttonss_init :: "kconfig \<Rightarrow> buttonss" where
  "buttonss_init k = pwm_outs.extend (pwm_outs_init k) \<lparr>buttons_of = (\<lambda>_. buttons_zero 1)\<rparr>"

text \<open>One button held down for two samples after the query.\<close>

definition buttonss1 :: buttonss where
  "buttonss1 = (buttonss_init example_conf)\<lparr>gpio_level := (\<lambda>_. True),
     buttons_of := (\<lambda>_. buttons_setup [5, 1000, 10, 3, 0] ((buttons_zero 1)\<lparr>bu_button_count := 1\<rparr>))\<rparr>"

lemmas buttonss1_defs = buttonss1_def buttonss_init_def pwm_outs_init_def analog_ins_init_def
  digital_outs_init_def endstops_init_def steppers0_defs buttons_setup_def buttons_zero_def
  buttonss.defs pwm_outs.defs analog_ins.defs digital_outs.defs endstops.defs steppers.defs buttons_status_def
  gpio_in_read_def

theorem buttons_messages_consistent_witness:
  "\<exists>s1 s2 s3. buttons_event 5 buttonss1 = Ret SF_RESCHEDULE s1 \<and> buttons_event 5 s1 = Ret SF_RESCHEDULE s2 \<and>
     buttons_report 5 s2 = Ret () s3 \<and>
     (sent s3 = sent s2 \<or> sent s3 = sent s2 @ [Response_data ''buttons_state'' [5, 0] [1]])"
proof -
  let ?b1 = "(buttons_of buttonss1 5)\<lparr>bu_last_pressed := 1\<rparr>"
  obtain s1 where e1: "buttons_event 5 buttonss1 = Ret SF_RESCHEDULE s1" by (rule event_returns)
  have d1: "buttons_debounce (buttons_status 5 buttonss1) (buttons_of buttonss1 5) = (buttons_of buttonss1 5, False)"
    by (simp add: buttonss1_defs buttons_debounce_def)
  have b1: "buttons_of s1 5 = ?b1"
    by (simp add: event_object [OF e1 d1]) (simp add: buttonss1_defs buttons_countdown_def BF_NO_RETRANSMIT_def BF_ACKED_def)
  obtain s2 where e2: "buttons_event 5 s1 = Ret SF_RESCHEDULE s2" by (rule event_returns)
  have "buttons_status 5 s1 = 1"
    using event_level [OF e1] by (simp add: buttons_status_def b1 gpio_in_read_def) (simp add: buttonss1_defs)
  then obtain b where d2: "buttons_debounce (buttons_status 5 s1) (buttons_of s1 5) = (b, True)" "bu_pressed b = 1"
    by (simp add: b1 buttons_debounce_def) (simp add: buttonss1_defs)
  have "buttons_run 5 buttonss1 [] 0"
    by (rule buttons_run.query [where args = "[5, 1000, 10, 3, 0]" and b = "(buttons_zero 1)\<lparr>bu_button_count := 1\<rparr>"])
      (simp_all add: buttonss1_def, simp add: buttons_zero_def)
  from buttons_run.poll [OF this e1 d1] have "buttons_run 5 s1 [] 0" by simp
  from buttons_run.poll [OF this e2 d2(1)] have r2: "buttons_run 5 s2 [1] 0" by (simp add: d2(2))
  obtain s3 where e3: "buttons_report 5 s2 = Ret () s3"
    by (cases "bu_retransmit_state (buttons_of s2 5) = BF_PENDING \<and> bu_report_count (buttons_of s2 5) \<noteq> 0")
      (auto simp: buttons_report_def Let_def)
  have "\<not> in_sendf s2" using event_sendf [OF e1] event_sendf [OF e2]
    by (simp add: buttonss1_defs)
  from buttons_messages_consistent [OF r2 e3 this] e1 e2 e3 show ?thesis by auto
qed

end
