(* ===== verification/Counter.thy ===== *)
theory Counter
  imports Buttons
begin

text \<open>\<open>src/pulse_counter.c\<close>: counting the edges of an input pin by polling it.\<close>

section \<open>State\<close>

record counter =
  co_poll_ticks :: u32
  co_sample_ticks :: u32
  co_next_sample_time :: u32
  co_count :: u32
  co_last_count_time :: u32
  co_pending :: bool          \<comment> \<open>\<open>CF_PENDING\<close> of \<open>flags\<close>\<close>
  co_pin :: u32

record counters = buttonss +
  counter_of :: "u8 \<Rightarrow> counter"

definition upd_co :: "u8 \<Rightarrow> (counter \<Rightarrow> counter) \<Rightarrow> 'z counters_scheme \<Rightarrow> 'z counters_scheme" where
  "upd_co oid f s = s\<lparr>counter_of := (counter_of s)(oid := f (counter_of s oid))\<rparr>"

definition counter_wake :: string where "counter_wake = ''counter_wake''"

section \<open>Operations\<close>

definition counter_event :: "u8 \<Rightarrow> 'z counters_scheme \<Rightarrow> (sf_result, 'z counters_scheme) outcome" where
  "counter_event oid s =
     (let time = timer_waketime s (Obj_timer oid);
          last_value = co_count (counter_of s oid) AND 1;
          value = (if gpio_in_read (co_pin (counter_of s oid)) s then 1 else 0);
          s = (if last_value \<noteq> value
               then upd_co oid (\<lambda>c. c\<lparr>co_count := co_count c + 1, co_last_count_time := time\<rparr>) s else s);
          s = (if timer_is_before (co_next_sample_time (counter_of s oid)) time
               then sched_wake_task counter_wake
                 (upd_co oid (\<lambda>c. c\<lparr>co_pending := True, co_next_sample_time := time + co_sample_ticks c\<rparr>) s)
               else s)
      in Ret SF_RESCHEDULE
           (set_waketime (Obj_timer oid)
              (timer_waketime s (Obj_timer oid) + co_poll_ticks (counter_of s oid)) s))"

definition counter_zero :: counter where
  "counter_zero = \<lparr>co_poll_ticks = 0, co_sample_ticks = 0, co_next_sample_time = 0, co_count = 0,
     co_last_count_time = 0, co_pending = False, co_pin = 0\<rparr>"

definition command_config_counter ::
    "nat \<Rightarrow> u32 list \<Rightarrow> 'z counters_scheme \<Rightarrow> (unit, 'z counters_scheme) outcome" where
  "command_config_counter sizeof_counter args s =
     (let oid = arg_oid args 0 in
      andThen (oid_alloc oid Counter_type sizeof_counter s) (\<lambda>_ s.
        let s = clear_timer (Obj_timer oid) s;
            s = hw_do (Gpio_in_setup (args ! 1) (args ! 2)) s;
            s = upd_co oid (\<lambda>_. counter_zero\<lparr>co_pin := args ! 1\<rparr>) s
        in Ret () (set_func (Obj_timer oid) Counter_event s)))"

definition command_query_counter :: "u32 list \<Rightarrow> 'z counters_scheme \<Rightarrow> (unit, 'z counters_scheme) outcome" where
  "command_query_counter args s =
     andThen (obj_lookup (arg_oid args 0) Counter_type s) (\<lambda>oid s.
     andThen (sched_del_timer (Obj_timer oid) s) (\<lambda>_ s.
       let s = set_waketime (Obj_timer oid) (args ! 1) s
       in sched_add_timer (Obj_timer oid)
            (upd_co oid (\<lambda>c. c\<lparr>co_poll_ticks := args ! 2, co_sample_ticks := args ! 3,
               co_next_sample_time := args ! 1\<rparr>) s)))"

definition counter_report :: "u8 \<Rightarrow> 'z counters_scheme \<Rightarrow> (unit, 'z counters_scheme) outcome" where
  "counter_report oid s =
     (let c = counter_of s oid in
      if \<not> co_pending c then Ret () s
      else
        let waketime = timer_waketime s (Obj_timer oid);
            s = upd_co oid (\<lambda>c. c\<lparr>co_pending := False\<rparr>) s
        in Ret () (command_sendf (Response ''counter_state''
             [ucast oid, waketime, co_count c, co_last_count_time c]) s))"

definition counter_task :: "'z counters_scheme \<Rightarrow> (unit, 'z counters_scheme) outcome" where
  "counter_task s =
     (let (w, s) = sched_check_wake counter_wake s in
      if \<not> w then Ret () s else foreach_oid Counter_type counter_report s)"

section \<open>Fields\<close>

lemma co_fields [simp]:
  "counter_of (upd_co oid f s) = (counter_of s)(oid := f (counter_of s oid))"
  "timer_waketime (upd_co oid f s) = timer_waketime s" "timer_next (upd_co oid f s) = timer_next s"
  "timer_list (upd_co oid f s) = timer_list s" "last_insert (upd_co oid f s) = last_insert s"
  "task_wake (upd_co oid f s) = task_wake s" "gpio_level (upd_co oid f s) = gpio_level s"
  "counter_of (set_waketime t w s) = counter_of s" "gpio_level (set_waketime t w s) = gpio_level s"
  "counter_of (sched_wake_task k s) = counter_of s" "task_wake (set_waketime t w s) = task_wake s"
  by (simp_all add: upd_co_def set_waketime_def sched_wake_task_def sched_wake_tasks_def)

interpretation counter_timer: timer_component counter_event Obj_timer "\<lambda>_ _. True"
  by unfold_locales (auto simp: counter_event_def own_timer_only_def Let_def)

section \<open>Counting edges\<close>

text \<open>The levels the polled pin shows, and the edges among them.\<close>

definition put_level :: "u8 \<Rightarrow> bool \<Rightarrow> 'z counters_scheme \<Rightarrow> 'z counters_scheme" where
  "put_level oid v s = s\<lparr>gpio_level := (gpio_level s)(co_pin (counter_of s oid) := v)\<rparr>"

fun edges :: "bool \<Rightarrow> bool list \<Rightarrow> nat" where
  "edges l [] = 0"
| "edges l (v # vs) = (if v \<noteq> l then 1 else 0) + edges v vs"

lemma put_level_fields [simp]:
  "counter_of (put_level oid v s) = counter_of s" "timer_waketime (put_level oid v s) = timer_waketime s"
  "gpio_level (put_level oid v s) (co_pin (counter_of s oid)) = v"
  by (simp_all add: put_level_def)

lemma counter_event_step:
  "\<exists>s'. counter_event oid (put_level oid v s) = Ret SF_RESCHEDULE s' \<and>
     co_count (counter_of s' oid) =
       co_count (counter_of s oid) + (if v \<noteq> odd (co_count (counter_of s oid)) then 1 else 0) \<and>
     odd (co_count (counter_of s' oid)) = v \<and> co_poll_ticks (counter_of s' oid) = co_poll_ticks (counter_of s oid) \<and>
     timer_waketime s' (Obj_timer oid) = timer_waketime s (Obj_timer oid) + co_poll_ticks (counter_of s oid)"
  by (cases v; cases "odd (co_count (counter_of s oid))";
      cases "timer_is_before (co_next_sample_time (counter_of s oid)) (timer_waketime s (Obj_timer oid))")
    (simp_all add: counter_event_def gpio_in_read_def Let_def and_one_eq mod_2_eq_odd)

text \<open>
  A polled counter counts edges exactly: after the levels \<open>vs\<close> the count has grown by the number of
  changes among them (modulo \<open>2 ^ 32\<close>), its lowest bit is the level of the pin, as the comment in the
  code claims, and the timer has advanced one poll interval per sample.
\<close>

theorem counter_counts_edges:
  "\<exists>s'. run_inputs (put_level oid) (counter_event oid) vs s = Ret SF_RESCHEDULE s' \<and>
     co_count (counter_of s' oid) = co_count (counter_of s oid) +
       of_nat (edges (odd (co_count (counter_of s oid))) vs) \<and>
     odd (co_count (counter_of s' oid)) = last (odd (co_count (counter_of s oid)) # vs) \<and>
     timer_waketime s' (Obj_timer oid) = timer_waketime s (Obj_timer oid) +
       of_nat (length vs) * co_poll_ticks (counter_of s oid)"
proof (induction vs arbitrary: s)
  case (Cons v vs)
  obtain u where u: "counter_event oid (put_level oid v s) = Ret SF_RESCHEDULE u"
    "co_count (counter_of u oid) =
       co_count (counter_of s oid) + (if v \<noteq> odd (co_count (counter_of s oid)) then 1 else 0)"
    "odd (co_count (counter_of u oid)) = v" "co_poll_ticks (counter_of u oid) = co_poll_ticks (counter_of s oid)"
    "timer_waketime u (Obj_timer oid) = timer_waketime s (Obj_timer oid) + co_poll_ticks (counter_of s oid)"
    using counter_event_step by blast
  have r: "run_inputs (put_level oid) (counter_event oid) (v # vs) s =
      run_inputs (put_level oid) (counter_event oid) vs u"
    by (rule run_inputs_cons) (rule u(1))
  obtain s' where s': "run_inputs (put_level oid) (counter_event oid) vs u = Ret SF_RESCHEDULE s'"
    "co_count (counter_of s' oid) = co_count (counter_of u oid) + of_nat (edges v vs)"
    "odd (co_count (counter_of s' oid)) = last (v # vs)"
    "timer_waketime s' (Obj_timer oid) = timer_waketime u (Obj_timer oid) +
       of_nat (length vs) * co_poll_ticks (counter_of u oid)"
    using Cons.IH [of u] u(3) by auto
  show ?case
    unfolding r s'(1)
    by (rule exI [of _ s']) (use u s' in \<open>auto simp: algebra_simps\<close>)
qed simp

end
