(* ===== verification/Tmcuart.thy ===== *)
theory Tmcuart
  imports Counter
begin

text \<open>
  \<open>src/tmcuart.c\<close>: a software UART that talks to stepper drivers over a single wire. The bits to send
  are run-length coded into pin toggles; the answer is sampled bit by bit.
\<close>

section \<open>State\<close>

text \<open>The bits \<open>TU_...\<close> of \<open>flags\<close> are the fields \<open>tf_...\<close>; \<open>data\<close> has ten places.\<close>

record tmcuart_s =
  tu_tx_pin :: u32
  tu_rx_pin :: u32
  tf_line_high :: bool
  tf_active :: bool
  tf_read_sync :: bool
  tf_report :: bool
  tf_pullup :: bool
  tf_single_wire :: bool
  tu_pos :: u8
  tu_read_count :: u8
  tu_write_count :: u8
  tu_cfg_bit_time :: u32
  tu_bit_time :: u32
  tu_data :: "u8 list"

record tmcuarts = counters +
  tmcuart_of :: "u8 \<Rightarrow> tmcuart_s"

definition upd_tu :: "u8 \<Rightarrow> (tmcuart_s \<Rightarrow> tmcuart_s) \<Rightarrow> 'z tmcuarts_scheme \<Rightarrow> 'z tmcuarts_scheme" where
  "upd_tu oid f s = s\<lparr>tmcuart_of := (tmcuart_of s)(oid := f (tmcuart_of s oid))\<rparr>"

definition tmcuart_wake :: string where "tmcuart_wake = ''tmcuart_wake''"

text \<open>\<open>DIV_ROUND_CLOSEST\<close> of \<open>compiler.h\<close> on a signed dividend and a positive divisor.\<close>

definition div_round_closest :: "int \<Rightarrow> int \<Rightarrow> int" where
  "div_round_closest x d = c_div (x + c_div d 2) d"

section \<open>Timer events\<close>

definition tmcuart_reset_line :: "u8 \<Rightarrow> 'z tmcuarts_scheme \<Rightarrow> 'z tmcuarts_scheme" where
  "tmcuart_reset_line oid s =
     (let t = tmcuart_of s oid;
          s = hw_do (if tf_single_wire t then Gpio_out_reset (tu_tx_pin t) True
                     else Gpio_out_write (tu_tx_pin t) True) s
      in upd_tu oid (\<lambda>t. t\<lparr>tf_line_high := True, tf_active := False, tf_read_sync := False,
           tf_report := False\<rparr>) s)"

definition tmcuart_finalize :: "u8 \<Rightarrow> 'z tmcuarts_scheme \<Rightarrow> (sf_result, 'z tmcuarts_scheme) outcome" where
  "tmcuart_finalize oid s =
     (let s = tmcuart_reset_line oid s;
          s = upd_tu oid (\<lambda>t. t\<lparr>tf_report := True\<rparr>) s
      in Ret SF_DONE (sched_wake_task tmcuart_wake s))"

text \<open>Storing one sampled bit; outside the ten bytes of \<open>data\<close> it is undefined.\<close>

definition store_bit :: "u8 \<Rightarrow> bool \<Rightarrow> u8 list \<Rightarrow> u8 list option" where
  "store_bit pos v data =
     (let i = unat (drop_bit 3 pos); mask = push_bit (unat (pos AND 7)) 1 in
      if i < length data then
        Some (data[i := (if v then data ! i OR mask else data ! i AND NOT mask)])
      else None)"

definition tmcuart_read_event :: "u8 \<Rightarrow> 'z tmcuarts_scheme \<Rightarrow> (sf_result, 'z tmcuarts_scheme) outcome" where
  "tmcuart_read_event oid s =
     (let t = tmcuart_of s oid; v = gpio_in_read (tu_rx_pin t) s in
      case store_bit (tu_pos t) v (tu_data t) of
        None \<Rightarrow> Fault
      | Some data \<Rightarrow>
          let s = upd_tu oid (\<lambda>t. t\<lparr>tu_data := data\<rparr>) s; pos = tu_pos t + 1 in
          if pos \<ge> tu_read_count t then tmcuart_finalize oid s
          else
            let s = upd_tu oid (\<lambda>t. t\<lparr>tu_pos := pos\<rparr>) s
            in Ret SF_RESCHEDULE (set_waketime (Obj_timer oid)
                 (timer_waketime s (Obj_timer oid) + tu_bit_time t) s))"

definition tmcuart_read_sync_event :: "u8 \<Rightarrow> 'z tmcuarts_scheme \<Rightarrow> (sf_result, 'z tmcuarts_scheme) outcome" where
  "tmcuart_read_sync_event oid s =
     (let v = gpio_in_read (tu_rx_pin (tmcuart_of s oid)) s in
      if \<not> v \<and> tf_read_sync (tmcuart_of s oid) then
        tmcuart_read_event oid
          (set_func (Obj_timer oid) Tmcuart_read_event (upd_tu oid (\<lambda>t. t\<lparr>tu_pos := 0\<rparr>) s))
      else
        let s = (if v then upd_tu oid (\<lambda>t. t\<lparr>tf_read_sync := True\<rparr>) s else s);
            pos = tu_pos (tmcuart_of s oid);
            s = upd_tu oid (\<lambda>t. t\<lparr>tu_pos := pos + 1\<rparr>) s
        in if pos \<ge> 64 then tmcuart_finalize oid (upd_tu oid (\<lambda>t. t\<lparr>tu_read_count := 0\<rparr>) s)
           else Ret SF_RESCHEDULE (set_waketime (Obj_timer oid)
                  (timer_waketime s (Obj_timer oid) + tu_bit_time (tmcuart_of s oid)) s))"

definition tmcuart_send_finish_event :: "u8 \<Rightarrow> 'z tmcuarts_scheme \<Rightarrow> (sf_result, 'z tmcuarts_scheme) outcome" where
  "tmcuart_send_finish_event oid s =
     (let t = tmcuart_of s oid in
      if tu_read_count t = 0 then tmcuart_finalize oid s
      else
        let s = (if tf_single_wire t then hw_do (Gpio_in_reset (tu_rx_pin t) (tf_pullup t)) s else s);
            s = upd_tu oid (\<lambda>t. t\<lparr>tu_pos := 0\<rparr>) s;
            s = set_func (Obj_timer oid) Tmcuart_read_sync_event s
        in Ret SF_RESCHEDULE (set_waketime (Obj_timer oid)
             (timer_waketime s (Obj_timer oid) + tu_bit_time t * 4) s))"

text \<open>
  The loop that looks for the next bit that differs from the line: its position and the time until
  then, or no position when the last bit has been reached. Reading past \<open>data\<close> is undefined.
\<close>

definition data_bit :: "u8 list \<Rightarrow> u8 \<Rightarrow> bool" where
  "data_bit data pos = odd (drop_bit (unat (pos AND 7)) (data ! unat (drop_bit 3 pos)))"

function next_toggle ::
    "u8 list \<Rightarrow> u8 \<Rightarrow> bool \<Rightarrow> u32 \<Rightarrow> u8 \<Rightarrow> u32 \<Rightarrow> (u8 option \<times> u32) option" where
  "next_toggle data write_count line bit_time pos next_time =
     (let pos' = pos + 1 in
      if pos' \<ge> write_count then Some (None, next_time)
      else if unat (drop_bit 3 pos') \<ge> length data then None
      else if data_bit data pos' \<noteq> line then Some (Some pos', next_time)
      else next_toggle data write_count line bit_time pos' (next_time + bit_time))"
  by pat_completeness auto

termination next_toggle
  by (relation "measure (\<lambda>(data, n, line, bt, i, nt). if i = 255 then unat n + 1 else unat n - unat i)")
    (auto dest!: oid_step_down simp: next_not_max)

declare next_toggle.simps [simp del]

definition tmcuart_send_event :: "u8 \<Rightarrow> 'z tmcuarts_scheme \<Rightarrow> (sf_result, 'z tmcuarts_scheme) outcome" where
  "tmcuart_send_event oid s =
     (let tm = Obj_timer oid;
          s = hw_do (Gpio_out_toggle (tu_tx_pin (tmcuart_of s oid))) s;
          s = upd_tu oid (\<lambda>t. t\<lparr>tf_line_high := \<not> tf_line_high t\<rparr>) s;
          t = tmcuart_of s oid
      in case next_toggle (tu_data t) (tu_write_count t) (tf_line_high t) (tu_bit_time t) (tu_pos t)
               (tu_bit_time t) of
           None \<Rightarrow> Fault
         | Some (None, next_time) \<Rightarrow>
             Ret SF_RESCHEDULE (set_waketime tm (timer_waketime s tm + next_time)
               (set_func tm Tmcuart_send_finish_event s))
         | Some (Some pos, next_time) \<Rightarrow>
             Ret SF_RESCHEDULE (set_waketime tm (timer_waketime s tm + next_time)
               (upd_tu oid (\<lambda>t. t\<lparr>tu_pos := pos\<rparr>) s)))"

definition tmcuart_send_sync_event :: "u8 \<Rightarrow> 'z tmcuarts_scheme \<Rightarrow> (sf_result, 'z tmcuarts_scheme) outcome" where
  "tmcuart_send_sync_event oid s =
     (let tm = Obj_timer oid;
          s = hw_do (Gpio_out_toggle (tu_tx_pin (tmcuart_of s oid))) s;
          cur = timer_read_time s;
          s = upd_tu oid (\<lambda>t. t\<lparr>tf_line_high := \<not> tf_line_high t, tu_pos := tu_pos t + 1\<rparr>) s;
          t = tmcuart_of s oid;
          offset = cur - timer_waketime s tm
      in if tu_pos t \<noteq> 1 \<and> tu_pos t \<ge> 5 then
           let diff = sint (offset - tu_bit_time t);
               bit_time = tu_cfg_bit_time t + word_of_int (div_round_closest diff 4);
               s = upd_tu oid (\<lambda>t. t\<lparr>tu_bit_time := bit_time\<rparr>) s;
               s = set_func tm Tmcuart_send_event s
           in Ret SF_RESCHEDULE (set_waketime tm (timer_waketime s tm + (word_of_int diff + bit_time)) s)
         else
           let s = (if tu_pos t = 1 then upd_tu oid (\<lambda>t. t\<lparr>tu_bit_time := offset\<rparr>) s else s)
           in Ret SF_RESCHEDULE (set_waketime tm (timer_waketime s tm + tu_cfg_bit_time t) s))"

section \<open>Commands, task and shutdown\<close>

definition tmcuart_zero :: tmcuart_s where
  "tmcuart_zero = \<lparr>tu_tx_pin = 0, tu_rx_pin = 0, tf_line_high = False, tf_active = False,
     tf_read_sync = False, tf_report = False, tf_pullup = False, tf_single_wire = False, tu_pos = 0,
     tu_read_count = 0, tu_write_count = 0, tu_cfg_bit_time = 0, tu_bit_time = 0,
     tu_data = replicate 10 0\<rparr>"

definition command_config_tmcuart ::
    "nat \<Rightarrow> u32 list \<Rightarrow> 'z tmcuarts_scheme \<Rightarrow> (unit, 'z tmcuarts_scheme) outcome" where
  "command_config_tmcuart sizeof_tmcuart args s =
     (let oid = arg_oid args 0 in
      andThen (oid_alloc oid Tmcuart_type sizeof_tmcuart s) (\<lambda>_ s.
        let s = clear_timer (Obj_timer oid) s;
            pull_up = (ucast (args ! 2) :: u8) \<noteq> 0; rx_pin = args ! 1; tx_pin = args ! 3;
            s = hw_do (Gpio_in_setup rx_pin (c_bool pull_up)) s;
            s = hw_do (Gpio_out_setup tx_pin True) s
        in Ret () (upd_tu oid (\<lambda>_. tmcuart_zero\<lparr>tu_rx_pin := rx_pin, tu_tx_pin := tx_pin,
             tu_cfg_bit_time := args ! 4, tf_line_high := True, tf_pullup := pull_up,
             tf_single_wire := rx_pin = tx_pin\<rparr>) s)))"

text \<open>The object set up for a request that fits.\<close>

definition tmcuart_load :: "u8 list \<Rightarrow> u8 \<Rightarrow> u8 \<Rightarrow> tmcuart_s \<Rightarrow> tmcuart_s" where
  "tmcuart_load bytes write_len read_len t =
     t\<lparr>tu_data := bytes @ drop (length bytes) (tu_data t), tu_pos := 0, tf_active := True,
       tf_read_sync := False, tf_report := False, tu_write_count := write_len * 8,
       tu_read_count := read_len * 8\<rparr>"

definition command_tmcuart_send ::
    "(u32 \<Rightarrow> u8) \<Rightarrow> u32 list \<Rightarrow> 'z tmcuarts_scheme \<Rightarrow> (unit, 'z tmcuarts_scheme) outcome" where
  "command_tmcuart_send mem args s =
     andThen (obj_lookup (arg_oid args 0) Tmcuart_type s) (\<lambda>oid s.
       if tf_active (tmcuart_of s oid) then Ret () s
       else
         let write_len = ucast (args ! 1) :: u8; read_len = ucast (args ! 3) :: u8 in
         andThen (shutdown_if (unat write_len > 10 \<or> unat read_len > 10) ''tmcuart data too large'' s) (\<lambda>_ s.
           let tm = Obj_timer oid;
               s = upd_tu oid (tmcuart_load (mem_bytes mem (args ! 2) (unat write_len)) write_len read_len) s;
               s = (if write_len \<ge> 1 \<and> tu_data (tmcuart_of s oid) ! 0 AND 0x3f = 0x2a
                    then set_func tm Tmcuart_send_sync_event s
                    else set_func tm Tmcuart_send_event
                      (upd_tu oid (\<lambda>t. t\<lparr>tu_bit_time := tu_cfg_bit_time t\<rparr>) s))
           in sched_add_timer tm (set_waketime tm (timer_read_time s + timer_from_us s 200) s)))"

definition tmcuart_respond :: "u8 \<Rightarrow> 'z tmcuarts_scheme \<Rightarrow> (unit, 'z tmcuarts_scheme) outcome" where
  "tmcuart_respond oid s =
     (if \<not> tf_report (tmcuart_of s oid) then Ret () s
      else
        let s = upd_tu oid (\<lambda>t. t\<lparr>tf_report := False\<rparr>) s; t = tmcuart_of s oid
        in Ret () (command_sendf (Response_data ''tmcuart_response'' [ucast oid]
             (take (unat (tu_read_count t) div 8) (tu_data t))) s))"

definition tmcuart_task :: "'z tmcuarts_scheme \<Rightarrow> (unit, 'z tmcuarts_scheme) outcome" where
  "tmcuart_task s =
     (let (w, s) = sched_check_wake tmcuart_wake s in
      if \<not> w then Ret () s else foreach_oid Tmcuart_type tmcuart_respond s)"

definition tmcuart_shutdown :: "'z tmcuarts_scheme \<Rightarrow> (unit, 'z tmcuarts_scheme) outcome" where
  "tmcuart_shutdown s = foreach_oid Tmcuart_type (\<lambda>oid s. Ret () (tmcuart_reset_line oid s)) s"

section \<open>Fields\<close>

lemma tu_fields [simp]:
  "tmcuart_of (upd_tu oid f s) = (tmcuart_of s)(oid := f (tmcuart_of s oid))"
  "timer_waketime (upd_tu oid f s) = timer_waketime s" "timer_next (upd_tu oid f s) = timer_next s"
  "timer_list (upd_tu oid f s) = timer_list s" "last_insert (upd_tu oid f s) = last_insert s"
  "timer_func (upd_tu oid f s) = timer_func s" "gpio_level (upd_tu oid f s) = gpio_level s"
  "timer_read_time (upd_tu oid f s) = timer_read_time s" "hw (upd_tu oid f s) = hw s"
  "tmcuart_of (set_waketime t w s) = tmcuart_of s" "tmcuart_of (set_func t g s) = tmcuart_of s"
  "tmcuart_of (hw_do h s) = tmcuart_of s" "tmcuart_of (sched_wake_task k s) = tmcuart_of s"
  "gpio_level (set_waketime t w c) = gpio_level c" "gpio_level (set_func t g c) = gpio_level c"
  "gpio_level (hw_do h c) = gpio_level c"
  by (simp_all add: upd_tu_def set_waketime_def set_func_def hw_do_def sched_wake_task_def
    sched_wake_tasks_def)

lemma finalize_frame: "tmcuart_finalize oid s = Ret r s' \<Longrightarrow> own_timer_only (Obj_timer oid) s s'"
  by (auto simp: tmcuart_finalize_def tmcuart_reset_line_def own_timer_only_def Let_def split: if_splits)

lemma finalize_no_fault [simp]: "tmcuart_finalize oid s \<noteq> Fault"
  by (simp add: tmcuart_finalize_def Let_def)

lemma read_event_frame: "tmcuart_read_event oid s = Ret r s' \<Longrightarrow> own_timer_only (Obj_timer oid) s s'"
  by (auto simp: tmcuart_read_event_def own_timer_only_def Let_def split: option.splits if_splits
    dest!: finalize_frame)

interpretation tmcuart_read_timer: timer_component tmcuart_read_event Obj_timer
  "\<lambda>oid s. unat (drop_bit 3 (tu_pos (tmcuart_of s oid))) < length (tu_data (tmcuart_of s oid))"
  by unfold_locales
    (auto simp: tmcuart_read_event_def store_bit_def Let_def read_event_frame split: option.splits if_splits)

interpretation tmcuart_read_sync_timer: timer_component tmcuart_read_sync_event Obj_timer
  "\<lambda>oid s. tu_data (tmcuart_of s oid) \<noteq> []"
proof
  show "own_timer_only (Obj_timer oid) s s'" if "tmcuart_read_sync_event oid s = Ret r s'"
    for oid r and s s' :: "'z tmcuarts_scheme"
    using that
    by (auto simp: tmcuart_read_sync_event_def own_timer_only_def Let_def split: if_splits
      dest!: finalize_frame read_event_frame)
qed (auto simp: tmcuart_read_sync_event_def tmcuart_read_event_def store_bit_def Let_def
    split: option.splits if_splits)

interpretation tmcuart_send_finish_timer: timer_component tmcuart_send_finish_event Obj_timer "\<lambda>_ _. True"
  by unfold_locales
    (auto simp: tmcuart_send_finish_event_def own_timer_only_def Let_def split: if_splits dest!: finalize_frame)

interpretation tmcuart_send_sync_timer: timer_component tmcuart_send_sync_event Obj_timer "\<lambda>_ _. True"
  by unfold_locales (auto simp: tmcuart_send_sync_event_def own_timer_only_def Let_def split: if_splits)

section \<open>Bits of the message\<close>

lemma u8_byte: "unat (drop_bit 3 pos) = unat pos div 8" for pos :: u8
  by (simp add: drop_bit_eq_div unat_div)

lemma u8_offset: "unat (pos AND 7) = unat pos mod 8" for pos :: u8
proof -
  have "unat (pos AND 7) = unat pos AND 7" by (simp add: unsigned_and_eq)
  also have "\<dots> = unat pos mod 8"
    using take_bit_eq_mask [of 3 "unat pos"] by (simp add: mask_eq_exp_minus_1 take_bit_eq_mod)
  finally show ?thesis .
qed

lemma data_bit_alt: "data_bit data pos = bit (data ! (unat pos div 8)) (unat pos mod 8)"
  by (simp only: data_bit_def u8_byte u8_offset bit_iff_odd_drop_bit)

lemma pos_eq: "k = pos \<longleftrightarrow> unat k div 8 = unat pos div 8 \<and> unat k mod 8 = unat pos mod 8" for k pos :: u8
  by (metis mult_div_mod_eq word_unat_eq_iff)

lemma store_bit_spec:
  assumes "unat pos < 8 * length data"
  obtains data' where "store_bit pos v data = Some data'" "length data' = length data"
    "\<And>k. unat k < 8 * length data \<Longrightarrow> data_bit data' k = (if k = pos then v else data_bit data k)"
proof
  let ?i = "unat pos div 8" and ?m = "push_bit (unat pos mod 8) 1 :: u8"
  let ?d = "data[?i := (if v then data ! ?i OR ?m else data ! ?i AND NOT ?m)]"
  have i: "?i < length data" using assms by (simp add: less_mult_imp_div_less mult.commute)
  show "store_bit pos v data = Some ?d" using i by (simp only: store_bit_def u8_byte u8_offset Let_def if_True)
  show "length ?d = length data" by simp
  show "data_bit ?d k = (if k = pos then v else data_bit data k)" if "unat k < 8 * length data" for k
  proof (cases "unat k div 8 = ?i")
    case True
    have "unat k mod 8 < 8" by simp
    with True i show ?thesis unfolding data_bit_alt pos_eq [of k]
      by (cases "unat k mod 8 = unat pos mod 8") (auto simp: bit_simps)
  next
    case False
    then have "k \<noteq> pos" by auto
    then show ?thesis using False by (simp add: data_bit_alt)
  qed
qed

text \<open>Receiving: the pin shows one level per sample.\<close>

definition put_rx :: "u8 \<Rightarrow> bool \<Rightarrow> 'z tmcuarts_scheme \<Rightarrow> 'z tmcuarts_scheme" where
  "put_rx oid v s = s\<lparr>gpio_level := (gpio_level s)(tu_rx_pin (tmcuart_of s oid) := v)\<rparr>"

lemma put_rx_fields [simp]:
  "tmcuart_of (put_rx oid v s) = tmcuart_of s"
  "gpio_level (put_rx oid v s) (tu_rx_pin (tmcuart_of s oid)) = v"
  "timer_waketime (put_rx oid v s) = timer_waketime s"
  by (simp_all add: put_rx_def)

lemma read_event_step:
  assumes "unat (tu_pos (tmcuart_of s oid)) < 8 * length (tu_data (tmcuart_of s oid))"
    and "unat (tu_pos (tmcuart_of s oid)) < unat (tu_read_count (tmcuart_of s oid))"
  obtains s' data' where
    "tmcuart_read_event oid (put_rx oid v s) =
       Ret (if unat (tu_pos (tmcuart_of s oid)) + 1 = unat (tu_read_count (tmcuart_of s oid)) then SF_DONE else SF_RESCHEDULE) s'"
    "tu_data (tmcuart_of s' oid) = data'" "length data' = length (tu_data (tmcuart_of s oid))"
    "tu_read_count (tmcuart_of s' oid) = tu_read_count (tmcuart_of s oid)"
    "tf_report (tmcuart_of s' oid) = (unat (tu_pos (tmcuart_of s oid)) + 1 = unat (tu_read_count (tmcuart_of s oid)) \<or>
       tf_report (tmcuart_of s oid))"
    "unat (tu_pos (tmcuart_of s oid)) + 1 < unat (tu_read_count (tmcuart_of s oid)) \<Longrightarrow>
       unat (tu_pos (tmcuart_of s' oid)) = unat (tu_pos (tmcuart_of s oid)) + 1"
    "\<And>k. unat k < 8 * length data' \<Longrightarrow>
       data_bit data' k = (if k = tu_pos (tmcuart_of s oid) then v else data_bit (tu_data (tmcuart_of s oid)) k)"
proof -
  let ?t = "tmcuart_of s oid"
  obtain d where d: "store_bit (tu_pos ?t) v (tu_data ?t) = Some d" "length d = length (tu_data ?t)"
    "\<And>k. unat k < 8 * length (tu_data ?t) \<Longrightarrow> data_bit d k = (if k = tu_pos ?t then v else data_bit (tu_data ?t) k)"
    using store_bit_spec [OF assms(1), of v] by blast
  have "unat (tu_read_count ?t) < 2 ^ LENGTH(8)" by (rule unsigned_less)
  then have p: "unat (tu_pos ?t + 1) = unat (tu_pos ?t) + 1"
    using assms(2) by (subst unat_plus_if') simp
  show thesis
  proof (cases "unat (tu_pos ?t) + 1 = unat (tu_read_count ?t)")
    case True
    then have "tu_pos ?t + 1 \<ge> tu_read_count ?t" using p by (simp add: word_le_nat_alt)
    then have "\<exists>s'. tmcuart_read_event oid (put_rx oid v s) = Ret SF_DONE s' \<and>
        tu_data (tmcuart_of s' oid) = d \<and> tu_read_count (tmcuart_of s' oid) = tu_read_count ?t \<and>
        tf_report (tmcuart_of s' oid)"
      using d by (simp add: tmcuart_read_event_def gpio_in_read_def Let_def tmcuart_finalize_def
          tmcuart_reset_line_def)
    then obtain s' where "tmcuart_read_event oid (put_rx oid v s) = Ret SF_DONE s'"
      "tu_data (tmcuart_of s' oid) = d" "tu_read_count (tmcuart_of s' oid) = tu_read_count ?t"
      "tf_report (tmcuart_of s' oid)" by blast
    with True d show ?thesis by (intro that [of s' d]) simp_all
  next
    case False
    then have "\<not> tu_pos ?t + 1 \<ge> tu_read_count ?t" using p assms(2) by (simp add: word_le_nat_alt)
    then have "\<exists>s'. tmcuart_read_event oid (put_rx oid v s) = Ret SF_RESCHEDULE s' \<and>
        tu_data (tmcuart_of s' oid) = d \<and> tu_read_count (tmcuart_of s' oid) = tu_read_count ?t \<and>
        tf_report (tmcuart_of s' oid) = tf_report ?t \<and> tu_pos (tmcuart_of s' oid) = tu_pos ?t + 1"
      using d by (simp add: tmcuart_read_event_def gpio_in_read_def Let_def)
    then obtain s' where "tmcuart_read_event oid (put_rx oid v s) = Ret SF_RESCHEDULE s'"
      "tu_data (tmcuart_of s' oid) = d" "tu_read_count (tmcuart_of s' oid) = tu_read_count ?t"
      "tf_report (tmcuart_of s' oid) = tf_report ?t" "tu_pos (tmcuart_of s' oid) = tu_pos ?t + 1" by blast
    with False d p show ?thesis by (intro that [of s' d]) simp_all
  qed
qed

lemma read_run:
  assumes "vs \<noteq> []" "unat (tu_pos (tmcuart_of s oid)) + length vs = unat (tu_read_count (tmcuart_of s oid))"
    and "unat (tu_read_count (tmcuart_of s oid)) \<le> 8 * length (tu_data (tmcuart_of s oid))"
  shows "\<exists>s'. run_inputs (put_rx oid) (tmcuart_read_event oid) vs s = Ret SF_DONE s' \<and>
      tf_report (tmcuart_of s' oid) \<and> tu_read_count (tmcuart_of s' oid) = tu_read_count (tmcuart_of s oid) \<and>
      length (tu_data (tmcuart_of s' oid)) = length (tu_data (tmcuart_of s oid)) \<and>
      (\<forall>k. unat k < unat (tu_read_count (tmcuart_of s oid)) \<longrightarrow> data_bit (tu_data (tmcuart_of s' oid)) k =
        (if unat k < unat (tu_pos (tmcuart_of s oid)) then data_bit (tu_data (tmcuart_of s oid)) k
         else vs ! (unat k - unat (tu_pos (tmcuart_of s oid)))))"
  using assms
proof (induction vs arbitrary: s)
  case (Cons v vs)
  let ?t = "tmcuart_of s oid"
  have pos: "unat (tu_pos ?t) < 8 * length (tu_data ?t)" "unat (tu_pos ?t) < unat (tu_read_count ?t)"
    using Cons.prems by simp_all
  obtain u d where
    e: "tmcuart_read_event oid (put_rx oid v s) =
       Ret (if unat (tu_pos ?t) + 1 = unat (tu_read_count ?t) then SF_DONE else SF_RESCHEDULE) u"
    and u: "tu_data (tmcuart_of u oid) = d" "length d = length (tu_data ?t)"
    "tu_read_count (tmcuart_of u oid) = tu_read_count ?t"
    "tf_report (tmcuart_of u oid) = (unat (tu_pos ?t) + 1 = unat (tu_read_count ?t) \<or> tf_report ?t)"
    "unat (tu_pos ?t) + 1 < unat (tu_read_count ?t) \<Longrightarrow> unat (tu_pos (tmcuart_of u oid)) = unat (tu_pos ?t) + 1"
    and bits: "\<And>k. unat k < 8 * length d \<Longrightarrow>
       data_bit d k = (if k = tu_pos ?t then v else data_bit (tu_data ?t) k)"
    by (rule read_event_step [OF pos, of v]) simp
  have eqp: "k = tu_pos ?t \<longleftrightarrow> unat k = unat (tu_pos ?t)" for k :: u8 by (simp add: word_unat_eq_iff)
  show ?case
  proof (cases vs)
    case Nil
    then have l: "unat (tu_pos ?t) + 1 = unat (tu_read_count ?t)" using Cons.prems by simp
    have "run_inputs (put_rx oid) (tmcuart_read_event oid) (v # vs) s = Ret SF_DONE u"
      using e l Nil by simp
    then show ?thesis using u l bits Cons.prems(3) by (auto simp: Nil eqp)
  next
    case (Cons w ws)
    then have m: "unat (tu_pos ?t) + 1 < unat (tu_read_count ?t)" using Cons.prems by simp
    have r: "run_inputs (put_rx oid) (tmcuart_read_event oid) (v # vs) s =
        run_inputs (put_rx oid) (tmcuart_read_event oid) vs u"
      by (rule run_inputs_cons) (use e m in simp)
    have pu: "unat (tu_pos (tmcuart_of u oid)) = unat (tu_pos ?t) + 1" by (rule u(5) [OF m])
    have "vs \<noteq> []" "unat (tu_pos (tmcuart_of u oid)) + length vs = unat (tu_read_count (tmcuart_of u oid))"
      "unat (tu_read_count (tmcuart_of u oid)) \<le> 8 * length (tu_data (tmcuart_of u oid))"
      using Cons Cons.prems pu by (simp_all add: u)
    from Cons.IH [OF this, unfolded pu u(1-3)]
    obtain s' where s': "run_inputs (put_rx oid) (tmcuart_read_event oid) vs u = Ret SF_DONE s'"
      "tf_report (tmcuart_of s' oid)" "tu_read_count (tmcuart_of s' oid) = tu_read_count ?t"
      "length (tu_data (tmcuart_of s' oid)) = length (tu_data ?t)"
      "\<And>k. unat k < unat (tu_read_count ?t) \<Longrightarrow> data_bit (tu_data (tmcuart_of s' oid)) k =
        (if unat k < unat (tu_pos ?t) + 1 then data_bit d k else vs ! (unat k - (unat (tu_pos ?t) + 1)))"
      by blast
    have "data_bit (tu_data (tmcuart_of s' oid)) k = (if unat k < unat (tu_pos ?t) then data_bit (tu_data ?t) k
        else (v # vs) ! (unat k - unat (tu_pos ?t)))" if "unat k < unat (tu_read_count ?t)" for k
      using s'(5) [OF that] bits [of k] that Cons.prems(3) u(2)
      by (auto simp: eqp nth_Cons' less_Suc_eq not_less)
    with s' show ?thesis unfolding r by blast
  qed
qed simp

section \<open>Sending\<close>

abbreviation bit_at :: "u8 list \<Rightarrow> nat \<Rightarrow> bool" where
  "bit_at data i \<equiv> data_bit data (of_nat i)"

text \<open>The scan stops at the first position \<open>j\<close> whose bit differs from the line, or at the end.\<close>

lemma next_toggle_spec:
  assumes "unat pos < unat n" "unat n \<le> 8 * length data"
  shows "\<exists>j. unat pos < j \<and> j \<le> unat n \<and> (\<forall>i. unat pos < i \<and> i < j \<longrightarrow> bit_at data i = line) \<and>
    next_toggle data n line bt pos nt =
      Some (if j < unat n then Some (of_nat j) else None, nt + of_nat (j - unat pos - 1) * bt) \<and>
    (j < unat n \<longrightarrow> bit_at data j \<noteq> line)"
  using assms
proof (induction data n line bt pos nt rule: next_toggle.induct)
  case (1 data n line bt pos nt)
  have "unat n < 2 ^ LENGTH(8)" by (rule unsigned_less)
  then have p: "unat (pos + 1) = unat pos + 1" using 1(2) by (subst unat_plus_if') simp
  have q: "of_nat (unat pos + 1) = pos + 1" by simp
  show ?case
  proof (cases "pos + 1 \<ge> n")
    case True
    then have "unat pos + 1 = unat n" using p 1(2) by (simp add: word_le_nat_alt)
    then show ?thesis using True by (intro exI [of _ "unat n"]) (subst next_toggle.simps, auto)
  next
    case False
    then have l: "unat pos + 1 < unat n" using p by (simp add: word_le_nat_alt)
    then have "unat pos + 1 < 8 * length data" using 1(3) by simp
    then have "(unat pos + 1) div 8 < length data" by (simp add: less_mult_imp_div_less mult.commute)
    then have b: "\<not> unat (drop_bit 3 (pos + 1)) \<ge> length data" using p by (simp only: u8_byte not_le)
    show ?thesis
    proof (cases "data_bit data (pos + 1) = line")
      case False
      then have "next_toggle data n line bt pos nt = Some (Some (pos + 1), nt)"
        using \<open>\<not> pos + 1 \<ge> n\<close> b by (subst next_toggle.simps) (simp only: Let_def if_False if_True simp_thms)
      then show ?thesis using False l q
        by (intro exI [of _ "unat pos + 1"]) (auto simp: add.commute [of 1 pos])
    next
      case True
      then have r: "next_toggle data n line bt pos nt = next_toggle data n line bt (pos + 1) (nt + bt)"
        using \<open>\<not> pos + 1 \<ge> n\<close> b by (subst next_toggle.simps) (simp only: Let_def if_False if_True simp_thms)
      have "unat (pos + 1) < unat n" using l p by simp
      from 1(1) [OF refl \<open>\<not> pos + 1 \<ge> n\<close> b _ this 1(3)] True
      obtain j where j: "unat pos + 1 < j" "j \<le> unat n"
        "\<And>i. unat pos + 1 < i \<Longrightarrow> i < j \<Longrightarrow> bit_at data i = line"
        "next_toggle data n line bt (pos + 1) (nt + bt) =
           Some (if j < unat n then Some (of_nat j) else None, nt + bt + of_nat (j - (unat pos + 1) - 1) * bt)"
        "j < unat n \<Longrightarrow> bit_at data j \<noteq> line"
        unfolding p by blast
      have t: "nt + bt + of_nat (j - (unat pos + 1) - 1) * bt = nt + of_nat (j - unat pos - 1) * bt"
      proof -
        have "j - unat pos - 1 = Suc (j - (unat pos + 1) - 1)" using j(1) by simp
        then show ?thesis by (simp add: algebra_simps)
      qed
      have "bit_at data i = line" if "unat pos < i" "i < j" for i
        using that j(3) [of i] True q by (cases "i = unat pos + 1") (auto simp: add.commute [of 1 pos])
      with j t r show ?thesis by (intro exI [of _ j]) simp
    qed
  qed
qed

text \<open>
  The events of a transmission: for each, the level of the line it leaves and the time until the next
  event. \<open>fuel\<close> bounds their number; the events of one message are at most its bits.
\<close>

fun tx_run :: "nat \<Rightarrow> u8 \<Rightarrow> 'z tmcuarts_scheme \<Rightarrow> ((bool \<times> u32) list \<times> 'z tmcuarts_scheme) option" where
  "tx_run 0 oid s = None"
| "tx_run (Suc fuel) oid s =
     (case tmcuart_send_event oid s of
        Ret r s' \<Rightarrow>
          let e = (tf_line_high (tmcuart_of s' oid), timer_waketime s' (Obj_timer oid) - timer_waketime s (Obj_timer oid)) in
          if timer_func s' (Obj_timer oid) = Some Tmcuart_send_event
          then map_option (\<lambda>(es, u). (e # es, u)) (tx_run fuel oid s')
          else Some ([e], s')
      | _ \<Rightarrow> None)"

lemma upt_split3: "p < j \<Longrightarrow> j \<le> n \<Longrightarrow> [p..<n] = [p..<j] @ [j..<n]" for p :: nat
  by (metis le_add_diff_inverse less_imp_le_nat upt_add_eq_append)

lemma tx_run_bits:
  assumes "unat (tu_pos (tmcuart_of s oid)) < unat (tu_write_count (tmcuart_of s oid))"
    and "unat (tu_write_count (tmcuart_of s oid)) \<le> 8 * length (tu_data (tmcuart_of s oid))"
    and "tf_line_high (tmcuart_of s oid) \<noteq> data_bit (tu_data (tmcuart_of s oid)) (tu_pos (tmcuart_of s oid))"
    and "timer_func s (Obj_timer oid) = Some Tmcuart_send_event"
    and "unat (tu_write_count (tmcuart_of s oid)) \<le> unat (tu_pos (tmcuart_of s oid)) + fuel"
  shows "\<exists>ks s'. tx_run fuel oid s = Some (map (\<lambda>(l, k). (l, of_nat k * tu_bit_time (tmcuart_of s oid))) ks, s') \<and>
    concat (map (\<lambda>(l, k). replicate k l) ks) =
      map (bit_at (tu_data (tmcuart_of s oid)))
        [unat (tu_pos (tmcuart_of s oid))..<unat (tu_write_count (tmcuart_of s oid))] \<and>
    timer_func s' (Obj_timer oid) = Some Tmcuart_send_finish_event"
  using assms
proof (induction fuel arbitrary: s)
  case (Suc fuel)
  let ?t = "tmcuart_of s oid" and ?tm = "Obj_timer oid"
  let ?p = "unat (tu_pos ?t)" and ?n = "unat (tu_write_count ?t)" and ?bt = "tu_bit_time ?t"
  let ?line = "\<not> tf_line_high ?t" and ?d = "tu_data ?t"
  have line: "?line = bit_at ?d ?p" using Suc.prems(3) by simp
  from next_toggle_spec [OF Suc.prems(1,2), of ?line ?bt ?bt]
  obtain j where j: "?p < j" "j \<le> ?n" "\<And>i. ?p < i \<Longrightarrow> i < j \<Longrightarrow> bit_at ?d i = ?line"
    "next_toggle ?d (tu_write_count ?t) ?line ?bt (tu_pos ?t) ?bt =
       Some (if j < ?n then Some (of_nat j) else None, ?bt + of_nat (j - ?p - 1) * ?bt)"
    "j < ?n \<Longrightarrow> bit_at ?d j \<noteq> ?line" by blast
  have time: "?bt + of_nat (j - ?p - 1) * ?bt = of_nat (j - ?p) * ?bt"
  proof -
    have "j - ?p = Suc (j - ?p - 1)" using j(1) by simp
    then show ?thesis by (metis (no_types, lifting) add.commute distrib_right mult_1 of_nat_Suc)
  qed
  have seg: "replicate (j - ?p) ?line = map (bit_at ?d) [?p..<j]"
  proof (rule nth_equalityI)
    fix i assume "i < length (replicate (j - ?p) ?line)"
    then show "replicate (j - ?p) ?line ! i = map (bit_at ?d) [?p..<j] ! i"
      using j(3) [of "?p + i"] line by (cases i) auto
  qed simp
  let ?u = "hw_do (Gpio_out_toggle (tu_tx_pin ?t)) s"
  let ?v = "upd_tu oid (\<lambda>t. t\<lparr>tf_line_high := \<not> tf_line_high t\<rparr>) ?u"
  show ?case
  proof (cases "j < ?n")
    case False
    then have "j = ?n" using j(2) by simp
    have "tmcuart_send_event oid s = Ret SF_RESCHEDULE
        (set_waketime ?tm (timer_waketime s ?tm + of_nat (j - ?p) * ?bt) (set_func ?tm Tmcuart_send_finish_event ?v))"
      using j(4) False time by (simp add: tmcuart_send_event_def Let_def)
    then show ?thesis using seg \<open>j = ?n\<close> by (intro exI [of _ "[(?line, j - ?p)]"]) simp
  next
    case True
    let ?w = "set_waketime ?tm (timer_waketime s ?tm + of_nat (j - ?p) * ?bt)
      (upd_tu oid (\<lambda>t. t\<lparr>tu_pos := of_nat j\<rparr>) ?v)"
    have e: "tmcuart_send_event oid s = Ret SF_RESCHEDULE ?w"
      using j(4) True time by (simp add: tmcuart_send_event_def Let_def)
    have "unat (tu_write_count ?t) < 2 ^ LENGTH(8)" by (rule unsigned_less)
    then have jw: "unat (of_nat j :: u8) = j" using True by (simp add: unat_of_nat take_bit_nat_eq_self)
    have f: "timer_func ?w ?tm = Some Tmcuart_send_event" using Suc.prems(4) by simp
    have "\<exists>ks s'. tx_run fuel oid ?w = Some (map (\<lambda>(l, k). (l, of_nat k * ?bt)) ks, s') \<and>
        concat (map (\<lambda>(l, k). replicate k l) ks) = map (bit_at ?d) [j..<?n] \<and>
        timer_func s' ?tm = Some Tmcuart_send_finish_event"
      using Suc.IH [of ?w] Suc.prems(2,5) j(1,5) True jw f by simp
    then obtain ks s' where ks: "tx_run fuel oid ?w = Some (map (\<lambda>(l, k). (l, of_nat k * ?bt)) ks, s')"
      "concat (map (\<lambda>(l, k). replicate k l) ks) = map (bit_at ?d) [j..<?n]"
      "timer_func s' ?tm = Some Tmcuart_send_finish_event" by blast
    have "tx_run (Suc fuel) oid s =
        Some ((?line, of_nat (j - ?p) * ?bt) # map (\<lambda>(l, k). (l, of_nat k * ?bt)) ks, s')"
      using e ks(1) f by simp
    moreover have "[?p..<?n] = [?p..<j] @ [j..<?n]" by (rule upt_split3) (use j in simp_all)
    ultimately show ?thesis
      using ks(2,3) seg by (intro exI [of _ "(?line, j - ?p) # ks"] exI [of _ s']) simp
  qed
qed simp

section \<open>Properties of the UART\<close>

text \<open>
  A transmission puts exactly the bits of the message on the wire. With the line idle (high) and a
  message whose first bit is a start bit, the toggles of \<open>tmcuart_send_event\<close>, each level held for as
  many bit times as the code schedules, are the run-length coding of the \<open>write_count\<close> bits of
  \<open>data\<close>, least significant first; the last toggle is followed by \<open>tmcuart_send_finish_event\<close>.
\<close>

theorem tmcuart_sends_bits:
  assumes "t = tmcuart_of s oid" "tu_pos t = 0" "0 < unat (tu_write_count t)"
    and "unat (tu_write_count t) \<le> 8 * length (tu_data t)"
    and "tf_line_high t" "\<not> data_bit (tu_data t) 0"
    and "timer_func s (Obj_timer oid) = Some Tmcuart_send_event"
  shows "\<exists>ks s'. tx_run (unat (tu_write_count t)) oid s = Some (map (\<lambda>(l, k). (l, of_nat k * tu_bit_time t)) ks, s') \<and>
    concat (map (\<lambda>(l, k). replicate k l) ks) = map (bit_at (tu_data t)) [0..<unat (tu_write_count t)] \<and>
    timer_func s' (Obj_timer oid) = Some Tmcuart_send_finish_event"
  using tx_run_bits [of s oid "unat (tu_write_count t)"] assms by simp

text \<open>
  An answer is received exactly: \<open>read_count\<close> samples of the pin become the first \<open>read_count\<close> bits
  of \<open>data\<close>, least significant first, and with the last one the line goes back to idle and the
  report for the host is marked.
\<close>

theorem tmcuart_reads_bits:
  assumes "t = tmcuart_of s oid" "tu_pos t = 0" "vs \<noteq> []" "length vs = unat (tu_read_count t)"
    and "unat (tu_read_count t) \<le> 8 * length (tu_data t)"
  shows "\<exists>s'. run_inputs (put_rx oid) (tmcuart_read_event oid) vs s = Ret SF_DONE s' \<and>
    tf_report (tmcuart_of s' oid) \<and> tu_read_count (tmcuart_of s' oid) = tu_read_count t \<and>
    map (bit_at (tu_data (tmcuart_of s' oid))) [0..<unat (tu_read_count t)] = vs"
proof -
  from read_run [OF assms(3), of s oid] assms
  obtain s' where r: "run_inputs (put_rx oid) (tmcuart_read_event oid) vs s = Ret SF_DONE s'"
    "tf_report (tmcuart_of s' oid)" "tu_read_count (tmcuart_of s' oid) = tu_read_count t"
    and b: "\<And>k. unat k < unat (tu_read_count t) \<Longrightarrow> data_bit (tu_data (tmcuart_of s' oid)) k = vs ! unat k"
    by auto
  have "map (bit_at (tu_data (tmcuart_of s' oid))) [0..<unat (tu_read_count t)] = vs"
  proof (rule nth_equalityI)
    fix i assume "i < length (map (bit_at (tu_data (tmcuart_of s' oid))) [0..<unat (tu_read_count t)])"
    then have i: "i < unat (tu_read_count t)" by simp
    have "unat (tu_read_count t) < 2 ^ LENGTH(8)" by (rule unsigned_less)
    then have "unat (of_nat i :: u8) = i" using i by (simp add: unat_of_nat take_bit_nat_eq_self)
    then show "map (bit_at (tu_data (tmcuart_of s' oid))) [0..<unat (tu_read_count t)] ! i = vs ! i"
      using b [of "of_nat i"] i by simp
  qed (use assms in simp)
  with r show ?thesis by blast
qed

text \<open>
  The bit time derived from the sync nibble is not the closest one when the measured difference is
  negative: a difference of four ticks over four bits changes nothing.
\<close>

lemma div_round_closest_negative: "div_round_closest (- 4) 4 = 0" "div_round_closest 4 4 = 1"
  by (simp_all add: div_round_closest_def c_div_def)

definition tmcuarts_init :: "kconfig \<Rightarrow> tmcuarts" where
  "tmcuarts_init k = counters.extend (buttonss.extend (buttonss_init k) \<lparr>counter_of = (\<lambda>_. counter_zero)\<rparr>)
     \<lparr>tmcuart_of = (\<lambda>_. tmcuart_zero)\<rparr>"

text \<open>One frame with the byte \<open>0x05\<close>: start bit, eight data bits, stop bit, then idle bits.\<close>

definition tmcuarts1 :: tmcuarts where
  "tmcuarts1 = (tmcuarts_init example_conf)\<lparr>timer_func := (\<lambda>_. Some Tmcuart_send_event),
     tmcuart_of := (\<lambda>_. tmcuart_zero\<lparr>tf_line_high := True, tu_write_count := 16, tu_read_count := 8,
       tu_bit_time := 100, tu_data := [0x0a, 0xfe, 0, 0, 0, 0, 0, 0, 0, 0]\<rparr>)\<rparr>"

theorem tmcuart_sends_bits_witness:
  "\<exists>ks s'. tx_run 16 2 tmcuarts1 = Some (map (\<lambda>(l, k). (l, of_nat k * 100)) ks, s') \<and>
     concat (map (\<lambda>(l, k). replicate k l) ks) =
       [False, True, False, True, False, False, False, False, False, True, True, True, True, True, True, True]"
proof -
  let ?t = "tmcuart_of tmcuarts1 2"
  have t: "tu_pos ?t = 0" "tu_write_count ?t = 16" "tu_data ?t = [0x0a, 0xfe, 0, 0, 0, 0, 0, 0, 0, 0]"
    "tf_line_high ?t" "tu_bit_time ?t = 100" "timer_func tmcuarts1 (Obj_timer 2) = Some Tmcuart_send_event"
    by (simp_all add: tmcuarts1_def tmcuart_zero_def)
  have u: "[0..<16::nat] = [0, 1, 2, 3, 4, 5, 6, 7, 8, 9, 10, 11, 12, 13, 14, 15]" by (simp add: upt_rec)
  show ?thesis
    using tmcuart_sends_bits [OF refl, of tmcuarts1 2] unfolding t(2,3,5)
    by (auto simp: t(1,4,6) u data_bit_alt bit_iff_odd simp del: tx_run.simps)
qed

theorem tmcuart_reads_bits_witness:
  "\<exists>s'. run_inputs (put_rx 2) (tmcuart_read_event 2) [True, False, True, True, False, False, False, True] tmcuarts1 =
     Ret SF_DONE s' \<and> map (bit_at (tu_data (tmcuart_of s' 2))) [0..<8] =
       [True, False, True, True, False, False, False, True]"
proof -
  let ?t = "tmcuart_of tmcuarts1 2"
  have t: "tu_pos ?t = 0" "tu_read_count ?t = 8" "length (tu_data ?t) = 10"
    by (simp_all add: tmcuarts1_def tmcuart_zero_def)
  show ?thesis
    using tmcuart_reads_bits [OF refl, of tmcuarts1 2 "[True, False, True, True, False, False, False, True]"]
    unfolding t by (auto simp: t(1) simp del: run_inputs.simps)
qed

end
