(* ===== verification/Spi_Device.thy ===== *)
theory Spi_Device
  imports Tmcuart
begin

text \<open>
  \<open>src/spicmds.c\<close>: devices on an SPI bus, their transfers, and the messages sent to them on an
  emergency stop. The bus is an input of the state: \<open>spi_miso past out k\<close> is byte \<open>k\<close> of what the
  device answers to the bytes \<open>out\<close> after the hardware operations \<open>past\<close>. Also the bit-banged bus of
  \<open>src/spi_software.c\<close>; there \<open>miso_level past\<close> is the level of the input pin after \<open>past\<close>.
\<close>

section \<open>State\<close>

text \<open>
  The union of \<open>spi_config\<close> (what \<open>spi_setup\<close> returned, here the bus it was asked for) and the
  address of the software bus is \<open>sp_bus\<close> and \<open>sp_software\<close>; the flags say which of the two holds.
\<close>

record spi_software =
  ss_miso :: u32
  ss_mosi :: u32
  ss_sclk :: u32
  ss_mode :: u8

record spidev_s =
  sp_bus :: u32
  sp_software :: nat
  sp_pin :: u32
  sf_have_pin :: bool
  sf_software :: bool
  sf_hardware :: bool

record spidev_shutdown_s =
  sd_spi :: u8
  sd_shutdown_msg :: "u8 list"

record spis = tmcuarts +
  spidev_of :: "u8 \<Rightarrow> spidev_s"
  spi_shutdown_of :: "u8 \<Rightarrow> spidev_shutdown_s"
  spi_software_of :: "nat \<Rightarrow> spi_software"
  miso_level :: "hw_op list \<Rightarrow> u32 \<Rightarrow> bool"
  spi_miso :: "hw_op list \<Rightarrow> u8 list \<Rightarrow> nat \<Rightarrow> u8"

definition upd_sp :: "u8 \<Rightarrow> (spidev_s \<Rightarrow> spidev_s) \<Rightarrow> 'z spis_scheme \<Rightarrow> 'z spis_scheme" where
  "upd_sp oid f s = s\<lparr>spidev_of := (spidev_of s)(oid := f (spidev_of s oid))\<rparr>"

definition spidev_zero :: spidev_s where
  "spidev_zero = \<lparr>sp_bus = 0, sp_software = 0, sp_pin = 0, sf_have_pin = False, sf_software = False, sf_hardware = False\<rparr>"

section \<open>Configuration\<close>

definition command_config_spi :: "nat \<Rightarrow> u32 list \<Rightarrow> 'z spis_scheme \<Rightarrow> (unit, 'z spis_scheme) outcome" where
  "command_config_spi sizeof_spidev args s =
     (let oid = arg_oid args 0 in
      andThen (oid_alloc oid Spi_type sizeof_spidev s) (\<lambda>_ s.
        let s = hw_do (Gpio_out_setup (args ! 1) True) (upd_sp oid (\<lambda>_. spidev_zero) s)
        in Ret () (upd_sp oid (\<lambda>p. p\<lparr>sp_pin := args ! 1, sf_have_pin := True\<rparr>) s)))"

definition command_config_spi_without_cs ::
    "nat \<Rightarrow> u32 list \<Rightarrow> 'z spis_scheme \<Rightarrow> (unit, 'z spis_scheme) outcome" where
  "command_config_spi_without_cs sizeof_spidev args s =
     (let oid = arg_oid args 0 in
      andThen (oid_alloc oid Spi_type sizeof_spidev s) (\<lambda>_ s. Ret () (upd_sp oid (\<lambda>_. spidev_zero) s)))"

definition spidev_oid_lookup :: "u8 \<Rightarrow> 'z spis_scheme \<Rightarrow> (u8, 'z spis_scheme) outcome" where
  "spidev_oid_lookup oid s = obj_lookup oid Spi_type s"

definition command_spi_set_bus :: "u32 list \<Rightarrow> 'z spis_scheme \<Rightarrow> (unit, 'z spis_scheme) outcome" where
  "command_spi_set_bus args s =
     andThen (spidev_oid_lookup (arg_oid args 0) s) (\<lambda>oid s.
       let mode = ucast (args ! 2) :: u8; p = spidev_of s oid in
       andThen (shutdown_if (mode > 3 \<or> sf_software p \<or> sf_hardware p) ''Invalid spi config'' s) (\<lambda>_ s.
         let s = hw_do (Spi_setup (args ! 1) mode (args ! 3)) s
         in Ret () (upd_sp oid (\<lambda>p. p\<lparr>sp_bus := args ! 1, sf_hardware := True\<rparr>) s)))"

definition spidev_set_software_bus :: "u8 \<Rightarrow> nat \<Rightarrow> 'z spis_scheme \<Rightarrow> (unit, 'z spis_scheme) outcome" where
  "spidev_set_software_bus oid ss s =
     (let p = spidev_of s oid in
      andThen (shutdown_if (sf_software p \<or> sf_hardware p) ''Invalid spi config'' s) (\<lambda>_ s.
        Ret () (upd_sp oid (\<lambda>p. p\<lparr>sp_software := ss, sf_software := True\<rparr>) s)))"

section \<open>Transfers\<close>

text \<open>
  \<open>spi_transfer\<close> of the board: the bytes go out, and with \<open>receive_data\<close> the answer overwrites them.
  The operations of the software bus have the same shape and come in as \<open>sw\<close>.
\<close>

definition spi_transfer :: "u32 \<Rightarrow> bool \<Rightarrow> u8 list \<Rightarrow> 'z spis_scheme \<Rightarrow> u8 list \<times> 'z spis_scheme" where
  "spi_transfer bus receive_data data s =
     ((if receive_data then map (spi_miso s (hw s) data) [0..<length data] else data),
      hw_do (Spi_transfer bus data) s)"

definition spi_prepare :: "u32 \<Rightarrow> 'z spis_scheme \<Rightarrow> 'z spis_scheme" where
  "spi_prepare bus s = hw_do (Spi_prepare bus) s"

definition command_spi_set_software_bus ::
    "nat \<Rightarrow> u32 list \<Rightarrow> 'z spis_scheme \<Rightarrow> (unit, 'z spis_scheme) outcome" where
  "command_spi_set_software_bus sizeof_spi_software args s =
     (let mode = ucast (args ! 4) :: u8 in
      andThen (shutdown_if (mode > 3) ''Invalid spi config'' s) (\<lambda>_ s.
      andThen (spidev_oid_lookup (arg_oid args 0) s) (\<lambda>spi s.
      andThen (alloc_chunk sizeof_spi_software s) (\<lambda>ss s.
        let s = hw_do (Gpio_in_setup (args ! 1) 1) s;
            s = hw_do (Gpio_out_setup (args ! 2) False) s;
            s = hw_do (Gpio_out_setup (args ! 3) False) s;
            s = s\<lparr>spi_software_of := (spi_software_of s)(ss :=
              \<lparr>ss_miso = args ! 1, ss_mosi = args ! 2, ss_sclk = args ! 3, ss_mode = mode\<rparr>)\<rparr>
        in spidev_set_software_bus spi ss s))))"

definition spi_software_prepare :: "spi_software \<Rightarrow> 'z spis_scheme \<Rightarrow> 'z spis_scheme" where
  "spi_software_prepare ss s = hw_do (Gpio_out_write (ss_sclk ss) (ss_mode ss AND 2 \<noteq> 0)) s"

text \<open>The loop over the bits of one byte; \<open>n\<close> are still to come.\<close>

fun spi_software_bits ::
    "nat \<Rightarrow> spi_software \<Rightarrow> u8 \<Rightarrow> u8 \<Rightarrow> 'z spis_scheme \<Rightarrow> u8 \<times> 'z spis_scheme" where
  "spi_software_bits 0 ss outbuf inbuf s = (inbuf, s)"
| "spi_software_bits (Suc n) ss outbuf inbuf s =
     (let clock = hw_do (Gpio_out_toggle (ss_sclk ss));
          out = hw_do (Gpio_out_write (ss_mosi ss) (outbuf AND 0x80 \<noteq> 0));
          sample = (\<lambda>s. push_bit 1 inbuf OR (if miso_level s (hw s) (ss_miso ss) then 1 else 0))
      in if ss_mode ss AND 1 \<noteq> 0 then
           let s = clock (out (clock s)) in spi_software_bits n ss (push_bit 1 outbuf) (sample s) s
         else
           let s = clock (out s) in spi_software_bits n ss (push_bit 1 outbuf) (sample s) (clock s))"

fun spi_software_transfer ::
    "spi_software \<Rightarrow> bool \<Rightarrow> u8 list \<Rightarrow> 'z spis_scheme \<Rightarrow> u8 list \<times> 'z spis_scheme" where
  "spi_software_transfer ss receive_data [] s = ([], s)"
| "spi_software_transfer ss receive_data (d # ds) s =
     (let (inbuf, s) = spi_software_bits 8 ss d 0 s;
          (ds', s) = spi_software_transfer ss receive_data ds s
      in ((if receive_data then inbuf else d) # ds', s))"

definition spidev_transfer ::
    "u8 \<Rightarrow> bool \<Rightarrow> u8 list \<Rightarrow> 'z spis_scheme \<Rightarrow> u8 list \<times> 'z spis_scheme" where
  "spidev_transfer oid receive_data data s =
     (let p = spidev_of s oid; ss = spi_software_of s (sp_software p) in
      if \<not> (sf_software p \<or> sf_hardware p) then (data, s)
      else
        let soft = CONFIG_HAVE_GPIO_BITBANGING (kconf s) \<and> sf_software p;
            s = (if soft then spi_software_prepare ss s else spi_prepare (sp_bus p) s);
            s = (if sf_have_pin p then hw_do (Gpio_out_write (sp_pin p) False) s else s);
            (data, s) = (if soft then spi_software_transfer ss receive_data data s
                         else spi_transfer (sp_bus p) receive_data data s);
            s = (if sf_have_pin p then hw_do (Gpio_out_write (sp_pin p) True) s else s)
        in (data, s))"

definition command_spi_transfer ::
    "(u32 \<Rightarrow> u8) \<Rightarrow> u32 list \<Rightarrow> 'z spis_scheme \<Rightarrow> (unit, 'z spis_scheme) outcome" where
  "command_spi_transfer mem args s =
     andThen (spidev_oid_lookup (arg_oid args 0) s) (\<lambda>oid s.
       let data_len = ucast (args ! 1) :: u8;
           (data, s) = spidev_transfer oid True (mem_bytes mem (args ! 2) (unat data_len)) s
       in Ret () (command_sendf (Response_data ''spi_transfer_response'' [ucast oid] data) s))"

definition command_spi_send ::
    "(u32 \<Rightarrow> u8) \<Rightarrow> u32 list \<Rightarrow> 'z spis_scheme \<Rightarrow> (unit, 'z spis_scheme) outcome" where
  "command_spi_send mem args s =
     andThen (spidev_oid_lookup (arg_oid args 0) s) (\<lambda>oid s.
       let data_len = ucast (args ! 1) :: u8;
           (_, s) = spidev_transfer oid False (mem_bytes mem (args ! 2) (unat data_len)) s
       in Ret () s)"

section \<open>Shutdown\<close>

definition command_config_spi_shutdown ::
    "nat \<Rightarrow> (u32 \<Rightarrow> u8) \<Rightarrow> u32 list \<Rightarrow> 'z spis_scheme \<Rightarrow> (unit, 'z spis_scheme) outcome" where
  "command_config_spi_shutdown sizeof_spidev_shutdown mem args s =
     andThen (spidev_oid_lookup (arg_oid args 1) s) (\<lambda>spi s.
       let shutdown_msg_len = ucast (args ! 2) :: u8; oid = arg_oid args 0 in
       andThen (oid_alloc oid Spi_shutdown_type (sizeof_spidev_shutdown + unat shutdown_msg_len) s) (\<lambda>_ s.
         Ret () (s\<lparr>spi_shutdown_of := (spi_shutdown_of s)(oid :=
           \<lparr>sd_spi = spi, sd_shutdown_msg = mem_bytes mem (args ! 3) (unat shutdown_msg_len)\<rparr>)\<rparr>)))"

definition spidev_release :: "u8 \<Rightarrow> 'z spis_scheme \<Rightarrow> (unit, 'z spis_scheme) outcome" where
  "spidev_release oid s =
     (let p = spidev_of s oid in
      Ret () (if sf_have_pin p then hw_do (Gpio_out_write (sp_pin p) True) s else s))"

definition spidev_send_shutdown :: "u8 \<Rightarrow> 'z spis_scheme \<Rightarrow> (unit, 'z spis_scheme) outcome" where
  "spidev_send_shutdown oid s =
     (let sd = spi_shutdown_of s oid in
      Ret () (snd (spidev_transfer (sd_spi sd) False (sd_shutdown_msg sd) s)))"

definition spidev_shutdown :: "'z spis_scheme \<Rightarrow> (unit, 'z spis_scheme) outcome" where
  "spidev_shutdown s =
     andThen (foreach_oid Spi_type spidev_release s) (\<lambda>_ s.
       foreach_oid Spi_shutdown_type spidev_send_shutdown s)"

section \<open>Fields\<close>

lemma sp_fields [simp]:
  "spidev_of (upd_sp oid f s) = (spidev_of s)(oid := f (spidev_of s oid))" "hw (upd_sp oid f s) = hw s"
  "spidev_of (hw_do h s) = spidev_of s" "miso_level (hw_do h s) = miso_level s"
  "spi_miso (hw_do h s) = spi_miso s" "oids (upd_sp oid f s) = oids s"
  "oid_count (upd_sp oid f s) = oid_count s"
  "spi_software_of (hw_do h s) = spi_software_of s" "spi_shutdown_of (hw_do h s) = spi_shutdown_of s"
  "kconf (hw_do h s) = kconf s" "sent (hw_do h s) = sent s" "in_sendf (hw_do h s) = in_sendf s"
  "shutdown_status (hw_do h s) = shutdown_status s"
  by (simp_all add: upd_sp_def hw_do_def)

section \<open>The bits on the software bus\<close>

text \<open>What was written to the output pin, and the eight bits of a byte, most significant first.\<close>

definition writes :: "u32 \<Rightarrow> hw_op list \<Rightarrow> bool list" where
  "writes pin ops = concat (map (\<lambda>h. case h of Gpio_out_write p b \<Rightarrow> (if p = pin then [b] else []) | _ \<Rightarrow> []) ops)"

lemma writes_simps [simp]:
  "writes pin [] = []" "writes pin (xs @ ys) = writes pin xs @ writes pin ys"
  "writes pin (Gpio_out_write pin b # ops) = b # writes pin ops"
  "writes pin (Gpio_out_toggle p # ops) = writes pin ops"
  by (simp_all add: writes_def)

definition msb_first :: "u8 \<Rightarrow> bool list" where
  "msb_first b = map (\<lambda>i. bit b (7 - i)) [0..<8]"

lemma top_bit_u8: "b AND 0x80 \<noteq> 0 \<longleftrightarrow> bit b 7" for b :: u8
proof -
  have "b AND 0x80 = (if bit b 7 then 0x80 else 0)"
    by (rule bit_word_eqI) (auto simp: bit_and_iff bit_numeral_word_iff bit_80)
  then show ?thesis by simp
qed

lemma bit_shift_up: "k < 7 \<Longrightarrow> bit (push_bit 1 b) (Suc k) = bit b k" for b :: u8
  by (subst bit_push_bit_iff) simp

lemma software_bits_writes:
  assumes "n \<le> 8" "spi_software_bits n ss outbuf inbuf s = (r, s')"
  shows "\<exists>ops. hw s' = hw s @ ops \<and> writes (ss_mosi ss) ops = map (\<lambda>i. bit outbuf (7 - i)) [0..<n]"
  using assms
proof (induction n arbitrary: outbuf inbuf s)
  case (Suc n)
  have up: "map (\<lambda>i. bit (push_bit 1 outbuf) (7 - i)) [0..<n] = map (\<lambda>i. bit outbuf (7 - Suc i)) [0..<n]"
  proof (rule map_cong [OF refl])
    fix i assume "i \<in> set [0..<n]"
    then have "7 - i = Suc (7 - Suc i)" "7 - Suc i < 7" using Suc.prems(1) by auto
    then show "bit (push_bit 1 outbuf) (7 - i) = bit outbuf (7 - Suc i)" by (metis bit_shift_up)
  qed
  have split: "map (\<lambda>i. bit outbuf (7 - i)) [0..<Suc n] = bit outbuf 7 # map (\<lambda>i. bit outbuf (7 - Suc i)) [0..<n]"
    by (simp add: upt_conv_Cons map_Suc_upt [symmetric] del: upt_Suc)
  show ?case
  proof (cases "ss_mode ss AND 1 = 0")
    case True
    let ?s = "hw_do (Gpio_out_toggle (ss_sclk ss)) (hw_do (Gpio_out_write (ss_mosi ss) (outbuf AND 0x80 \<noteq> 0)) s)"
    have "spi_software_bits n ss (push_bit 1 outbuf) (push_bit 1 inbuf OR
        (if miso_level ?s (hw ?s) (ss_miso ss) then 1 else 0)) (hw_do (Gpio_out_toggle (ss_sclk ss)) ?s) = (r, s')"
      using Suc.prems(2) True by (simp add: Let_def)
    from Suc.IH [OF _ this] Suc.prems(1) obtain ops where o: "hw s' = hw ?s @ Gpio_out_toggle (ss_sclk ss) # ops"
      "writes (ss_mosi ss) ops = map (\<lambda>i. bit (push_bit 1 outbuf) (7 - i)) [0..<n]" by auto
    show ?thesis unfolding split
      by (rule exI [of _ "Gpio_out_write (ss_mosi ss) (outbuf AND 0x80 \<noteq> 0) # Gpio_out_toggle (ss_sclk ss) #
          Gpio_out_toggle (ss_sclk ss) # ops"]) (simp add: o(1) o(2) [unfolded up] top_bit_u8)
  next
    case False
    let ?s = "hw_do (Gpio_out_toggle (ss_sclk ss)) (hw_do (Gpio_out_write (ss_mosi ss) (outbuf AND 0x80 \<noteq> 0))
      (hw_do (Gpio_out_toggle (ss_sclk ss)) s))"
    have "spi_software_bits n ss (push_bit 1 outbuf) (push_bit 1 inbuf OR
        (if miso_level ?s (hw ?s) (ss_miso ss) then 1 else 0)) ?s = (r, s')"
      using Suc.prems(2) False by (simp add: Let_def)
    from Suc.IH [OF _ this] Suc.prems(1) obtain ops where o: "hw s' = hw ?s @ ops"
      "writes (ss_mosi ss) ops = map (\<lambda>i. bit (push_bit 1 outbuf) (7 - i)) [0..<n]" by auto
    show ?thesis unfolding split
      by (rule exI [of _ "Gpio_out_toggle (ss_sclk ss) # Gpio_out_write (ss_mosi ss) (outbuf AND 0x80 \<noteq> 0) #
          Gpio_out_toggle (ss_sclk ss) # ops"]) (simp add: o(1) o(2) [unfolded up] top_bit_u8)
  qed
qed simp

lemma software_transfer_oids:
  "oids (snd (spi_software_bits n ss ob i s)) = oids s \<and> oid_count (snd (spi_software_bits n ss ob i s)) = oid_count s"
  "oids (snd (spi_software_transfer ss r data s)) = oids s \<and>
   oid_count (snd (spi_software_transfer ss r data s)) = oid_count s"
proof -
  show b: "oids (snd (spi_software_bits n ss ob i s)) = oids s \<and>
    oid_count (snd (spi_software_bits n ss ob i s)) = oid_count s" for n ob i s
    by (induction n arbitrary: ob i s) (simp_all add: Let_def)
  show "oids (snd (spi_software_transfer ss r data s)) = oids s \<and>
    oid_count (snd (spi_software_transfer ss r data s)) = oid_count s"
  proof (induction data arbitrary: s)
    case (Cons d ds)
    from Cons.IH [of "snd (spi_software_bits 8 ss d 0 s)"] b [of 8 d 0 s] show ?case
      by (auto split: prod.split simp del: spi_software_bits.simps)
  qed simp
qed

lemma transfer_oids:
  "oids (snd (spidev_transfer oid r data s)) = oids s" "oid_count (snd (spidev_transfer oid r data s)) = oid_count s"
  by (auto simp: spidev_transfer_def Let_def spi_transfer_def spi_prepare_def spi_software_prepare_def
      case_prod_beta software_transfer_oids(2))

section \<open>Properties of the SPI devices\<close>

text \<open>
  The bit-banged bus sends every byte of a message most significant bit first, eight writes of the
  data pin per byte and none besides, in all four SPI modes and whether or not the answer is kept.
\<close>

theorem spi_software_sends_msb_first:
  "\<exists>ops. hw (snd (spi_software_transfer ss receive_data data s)) = hw s @ ops \<and>
     writes (ss_mosi ss) ops = concat (map msb_first data) \<and>
     length (fst (spi_software_transfer ss receive_data data s)) = length data"
proof (induction data arbitrary: s)
  case (Cons d ds)
  obtain r u where b: "spi_software_bits 8 ss d 0 s = (r, u)" by (cases "spi_software_bits 8 ss d 0 s")
  from software_bits_writes [OF _ b] obtain ops1 where
    "hw u = hw s @ ops1" "writes (ss_mosi ss) ops1 = msb_first d" by (auto simp: msb_first_def)
  with Cons.IH [of u] show ?case by (auto simp: b split: prod.split simp del: spi_software_bits.simps)
qed simp

text \<open>
  On an emergency stop the chip select of every SPI device with one is released before any
  shutdown message is sent, and the shutdown messages then follow in the order of their ids.
\<close>

theorem spidev_shutdown_releases:
  assumes "oids s = Some os" "unat (oid_count s) = length os"
  shows "\<exists>u ops. hw u = hw s @ ops \<and> spidev_of u = spidev_of s \<and>
    ops = map (\<lambda>oid. Gpio_out_write (sp_pin (spidev_of s oid)) True)
      (filter (\<lambda>oid. sf_have_pin (spidev_of s oid)) (oids_from 0 Spi_type os)) \<and>
    spidev_shutdown s = each_oid spidev_send_shutdown (oids_from 0 Spi_shutdown_type os) u"
proof -
  let ?ids = "oids_from 0 Spi_type os"
  have run: "\<exists>u. each_oid spidev_release xs s = Ret () u \<and> hw u = hw s @
        map (\<lambda>oid. Gpio_out_write (sp_pin (spidev_of s oid)) True) (filter (\<lambda>oid. sf_have_pin (spidev_of s oid)) xs) \<and>
      spidev_of u = spidev_of s \<and> oids u = oids s \<and> oid_count u = oid_count s" for xs
  proof (induction xs arbitrary: s)
    case (Cons x xs)
    show ?case
      using Cons.IH [of "if sf_have_pin (spidev_of s x)
          then hw_do (Gpio_out_write (sp_pin (spidev_of s x)) True) s else s"]
      by (cases "sf_have_pin (spidev_of s x)") (auto simp: spidev_release_def Let_def)
  qed simp
  obtain u where u: "each_oid spidev_release ?ids s = Ret () u" "hw u = hw s @
      map (\<lambda>oid. Gpio_out_write (sp_pin (spidev_of s oid)) True) (filter (\<lambda>oid. sf_have_pin (spidev_of s oid)) ?ids)"
    "spidev_of u = spidev_of s" "oids u = oids s" "oid_count u = oid_count s" using run by blast
  have "foreach_oid Spi_type spidev_release s = each_oid spidev_release ?ids s"
    by (rule foreach_oid_each [OF assms]) (auto simp: spidev_release_def Let_def)
  moreover have "foreach_oid Spi_shutdown_type spidev_send_shutdown u =
      each_oid spidev_send_shutdown (oids_from 0 Spi_shutdown_type os) u"
    using assms u
    by (intro foreach_oid_each) (auto simp: spidev_send_shutdown_def Let_def transfer_oids)
  ultimately show ?thesis using u by (auto simp: spidev_shutdown_def)
qed

definition spis_init :: "kconfig \<Rightarrow> spis" where
  "spis_init k = tmcuarts.extend (tmcuarts_init k)
     \<lparr>spidev_of = (\<lambda>_. spidev_zero), spi_shutdown_of = (\<lambda>_. \<lparr>sd_spi = 0, sd_shutdown_msg = []\<rparr>),
      spi_software_of = (\<lambda>_. \<lparr>ss_miso = 0, ss_mosi = 0, ss_sclk = 0, ss_mode = 0\<rparr>),
      miso_level = (\<lambda>_ _. False), spi_miso = (\<lambda>_ _ _. 0)\<rparr>"

definition spis1 :: spis where
  "spis1 = (spis_init example_conf)\<lparr>
     spidev_of := (\<lambda>_. spidev_zero\<lparr>sp_pin := 9, sf_have_pin := True, sf_hardware := True\<rparr>),
     oids := Some [\<lparr>oid_type_of = Some Spi_type, oid_data = Some 0\<rparr>,
       \<lparr>oid_type_of = Some Spi_shutdown_type, oid_data = Some 8\<rparr>], oid_count := 2\<rparr>"

theorem spidev_shutdown_releases_witness:
  "\<exists>u. hw u = hw spis1 @ [Gpio_out_write 9 True] \<and>
     spidev_shutdown spis1 = each_oid spidev_send_shutdown [1] u"
proof -
  let ?os = "[\<lparr>oid_type_of = Some Spi_type, oid_data = Some 0\<rparr>,
     \<lparr>oid_type_of = Some Spi_shutdown_type, oid_data = Some 8\<rparr>]"
  have "oids spis1 = Some ?os" "unat (oid_count spis1) = length ?os" "sf_have_pin (spidev_of spis1 0)"
    "sp_pin (spidev_of spis1 0) = 9"
    by (simp_all add: spis1_def)
  moreover have "oids_from 0 Spi_type ?os = [0]" "oids_from 0 Spi_shutdown_type ?os = [1]"
    by (simp_all add: oids_from_def upt_rec)
  ultimately show ?thesis using spidev_shutdown_releases [of spis1 ?os] by auto
qed

end
