(* ===== verification/Thermocouple.thy ===== *)
theory Thermocouple
  imports Spi_Device
begin

text \<open>
  \<open>src/thermocouple.c\<close>: thermocouple converters on the SPI bus, read periodically by a task that
  reports each value and stops the firmware when it is out of range or the chip signals a fault.
\<close>

section \<open>State\<close>

datatype thermocouple_type = MAX31855 | MAX31856 | MAX31865 | MAX6675

record thermocouple_spi =
  th_rest_time :: u32
  th_min_value :: u32
  th_max_value :: u32
  th_spi :: u8
  th_chip_type :: thermocouple_type
  th_pending :: bool          \<comment> \<open>\<open>TS_PENDING\<close> of \<open>flags\<close>\<close>

record thermocouples = spis +
  thermocouple_of :: "u8 \<Rightarrow> thermocouple_spi"

definition upd_th :: "u8 \<Rightarrow> (thermocouple_spi \<Rightarrow> thermocouple_spi) \<Rightarrow>
    'z thermocouples_scheme \<Rightarrow> 'z thermocouples_scheme" where
  "upd_th oid f s = s\<lparr>thermocouple_of := (thermocouple_of s)(oid := f (thermocouple_of s oid))\<rparr>"

definition thermocouple_wake :: string where "thermocouple_wake = ''thermocouple_wake''"

text \<open>The enumeration the host sees.\<close>

definition chip_of :: "u8 \<Rightarrow> thermocouple_type" where
  "chip_of v = (if v = 0 then MAX31855 else if v = 1 then MAX31856 else if v = 2 then MAX31865 else MAX6675)"

section \<open>Event and commands\<close>

definition thermocouple_event ::
    "u8 \<Rightarrow> 'z thermocouples_scheme \<Rightarrow> (sf_result, 'z thermocouples_scheme) outcome" where
  "thermocouple_event oid s =
     (let s = sched_wake_task thermocouple_wake s;
          s = upd_th oid (\<lambda>t. t\<lparr>th_pending := True\<rparr>) s
      in Ret SF_RESCHEDULE (set_waketime (Obj_timer oid)
           (timer_waketime s (Obj_timer oid) + th_rest_time (thermocouple_of s oid)) s))"

definition thermocouple_zero :: thermocouple_spi where
  "thermocouple_zero = \<lparr>th_rest_time = 0, th_min_value = 0, th_max_value = 0, th_spi = 0,
     th_chip_type = MAX31855, th_pending = False\<rparr>"

definition command_config_thermocouple ::
    "nat \<Rightarrow> u32 list \<Rightarrow> 'z thermocouples_scheme \<Rightarrow> (unit, 'z thermocouples_scheme) outcome" where
  "command_config_thermocouple sizeof_thermocouple args s =
     (let chip_type = ucast (args ! 2) :: u8; oid = arg_oid args 0 in
      andThen (shutdown_if (chip_type > 3) ''Invalid thermocouple chip type'' s) (\<lambda>_ s.
      andThen (oid_alloc oid Thermocouple_type sizeof_thermocouple s) (\<lambda>_ s.
        let s = upd_th oid (\<lambda>_. thermocouple_zero) (clear_timer (Obj_timer oid) s);
            s = set_func (Obj_timer oid) Thermocouple_event s
        in andThen (spidev_oid_lookup (arg_oid args 1) s) (\<lambda>spi s.
             Ret () (upd_th oid (\<lambda>t. t\<lparr>th_spi := spi, th_chip_type := chip_of chip_type\<rparr>) s)))))"

definition command_query_thermocouple ::
    "u32 list \<Rightarrow> 'z thermocouples_scheme \<Rightarrow> (unit, 'z thermocouples_scheme) outcome" where
  "command_query_thermocouple args s =
     andThen (obj_lookup (arg_oid args 0) Thermocouple_type s) (\<lambda>oid s.
     andThen (sched_del_timer (Obj_timer oid) s) (\<lambda>_ s.
       let s = set_waketime (Obj_timer oid) (args ! 1) s;
           s = upd_th oid (\<lambda>t. t\<lparr>th_rest_time := args ! 2\<rparr>) s
       in if th_rest_time (thermocouple_of s oid) = 0 then Ret () s
          else sched_add_timer (Obj_timer oid)
            (upd_th oid (\<lambda>t. t\<lparr>th_min_value := args ! 3, th_max_value := args ! 4\<rparr>) s)))"

section \<open>Reading the converters\<close>

text \<open>The byte order helpers on the bytes of a message: most significant first.\<close>

definition be_bytes :: "u8 list \<Rightarrow> u32" where
  "be_bytes bs = fold (\<lambda>b v. push_bit 8 v OR ucast b) bs 0"

definition thermocouple_respond ::
    "u8 \<Rightarrow> u32 \<Rightarrow> u32 \<Rightarrow> u8 \<Rightarrow> 'z thermocouples_scheme \<Rightarrow> (unit, 'z thermocouples_scheme) outcome" where
  "thermocouple_respond oid next_begin_time value fault s =
     (let s = command_sendf (Response ''thermocouple_result'' [ucast oid, next_begin_time, value, ucast fault]) s;
          t = thermocouple_of s oid
      in if value < th_min_value t \<or> value > th_max_value t
         then sched_try_shutdown ''Thermocouple ADC out of range'' s else Ret () s)"

text \<open>The fault bit of the value itself, checked after the report.\<close>

definition thermocouple_fault :: "bool \<Rightarrow> 'z thermocouples_scheme \<Rightarrow> (unit, 'z thermocouples_scheme) outcome" where
  "thermocouple_fault bad s = (if bad then sched_try_shutdown ''Thermocouple reader fault'' s else Ret () s)"

definition thermocouple_handle_max31855 ::
    "u8 \<Rightarrow> u32 \<Rightarrow> 'z thermocouples_scheme \<Rightarrow> (unit, 'z thermocouples_scheme) outcome" where
  "thermocouple_handle_max31855 oid next_begin_time s =
     (let (msg, s) = spidev_transfer (th_spi (thermocouple_of s oid)) True [0, 0, 0, 0] s;
          value = be_bytes msg
      in andThen (thermocouple_respond oid next_begin_time value 0 s) (\<lambda>_ s.
           thermocouple_fault (value AND 4 \<noteq> 0) s))"

definition thermocouple_handle_max31856 ::
    "u8 \<Rightarrow> u32 \<Rightarrow> 'z thermocouples_scheme \<Rightarrow> (unit, 'z thermocouples_scheme) outcome" where
  "thermocouple_handle_max31856 oid next_begin_time s =
     (let (msg, s) = spidev_transfer (th_spi (thermocouple_of s oid)) True [0x0c, 0, 0, 0] s;
          value = be_bytes msg AND 0x00ffffff;
          (msg2, s) = spidev_transfer (th_spi (thermocouple_of s oid)) True [0x0f, 0] s
      in thermocouple_respond oid next_begin_time value (msg2 ! 1) s)"

text \<open>Three of the four bytes of the message are transferred; the last stays 0.\<close>

definition thermocouple_handle_max31865 ::
    "u8 \<Rightarrow> u32 \<Rightarrow> 'z thermocouples_scheme \<Rightarrow> (unit, 'z thermocouples_scheme) outcome" where
  "thermocouple_handle_max31865 oid next_begin_time s =
     (let (msg, s) = spidev_transfer (th_spi (thermocouple_of s oid)) True [0x01, 0, 0] s;
          value = drop_bit 8 (be_bytes (msg @ [0])) AND 0xffff;
          (msg2, s) = spidev_transfer (th_spi (thermocouple_of s oid)) True [0x07, 0] s
      in andThen (thermocouple_respond oid next_begin_time value (msg2 ! 1) s) (\<lambda>_ s.
           thermocouple_fault (value AND 1 \<noteq> 0) s))"

definition thermocouple_handle_max6675 ::
    "u8 \<Rightarrow> u32 \<Rightarrow> 'z thermocouples_scheme \<Rightarrow> (unit, 'z thermocouples_scheme) outcome" where
  "thermocouple_handle_max6675 oid next_begin_time s =
     (let (msg, s) = spidev_transfer (th_spi (thermocouple_of s oid)) True [0, 0] s;
          value = be_bytes msg
      in andThen (thermocouple_respond oid next_begin_time value 0 s) (\<lambda>_ s.
           thermocouple_fault (value AND 4 \<noteq> 0) s))"

definition thermocouple_read :: "u8 \<Rightarrow> 'z thermocouples_scheme \<Rightarrow> (unit, 'z thermocouples_scheme) outcome" where
  "thermocouple_read oid s =
     (if \<not> th_pending (thermocouple_of s oid) then Ret () s
      else
        let next_begin_time = timer_waketime s (Obj_timer oid);
            s = upd_th oid (\<lambda>t. t\<lparr>th_pending := False\<rparr>) s
        in case th_chip_type (thermocouple_of s oid) of
             MAX31855 \<Rightarrow> thermocouple_handle_max31855 oid next_begin_time s
           | MAX31856 \<Rightarrow> thermocouple_handle_max31856 oid next_begin_time s
           | MAX31865 \<Rightarrow> thermocouple_handle_max31865 oid next_begin_time s
           | MAX6675 \<Rightarrow> thermocouple_handle_max6675 oid next_begin_time s)"

definition thermocouple_task :: "'z thermocouples_scheme \<Rightarrow> (unit, 'z thermocouples_scheme) outcome" where
  "thermocouple_task s =
     (let (w, s) = sched_check_wake thermocouple_wake s in
      if \<not> w then Ret () s else foreach_oid Thermocouple_type thermocouple_read s)"

section \<open>Fields\<close>

lemma th_fields [simp]:
  "thermocouple_of (upd_th oid f s) = (thermocouple_of s)(oid := f (thermocouple_of s oid))"
  "timer_waketime (upd_th oid f s) = timer_waketime s" "timer_next (upd_th oid f s) = timer_next s"
  "timer_list (upd_th oid f s) = timer_list s" "last_insert (upd_th oid f s) = last_insert s"
  "shutdown_status (upd_th oid f s) = shutdown_status s" "sent (upd_th oid f s) = sent s"
  "in_sendf (upd_th oid f s) = in_sendf s"
  "thermocouple_of (set_waketime t w s) = thermocouple_of s"
  "thermocouple_of (sched_wake_task k s) = thermocouple_of s"
  "thermocouple_of (hw_do h s) = thermocouple_of s" "thermocouple_of (command_sendf m s) = thermocouple_of s"
  "shutdown_status (command_sendf m s) = shutdown_status s"
  by (simp_all add: upd_th_def set_waketime_def sched_wake_task_def sched_wake_tasks_def hw_do_def command_sendf_def)

interpretation thermocouple_timer: timer_component thermocouple_event Obj_timer "\<lambda>_ _. True"
  by unfold_locales (auto simp: thermocouple_event_def own_timer_only_def Let_def)

text \<open>A transfer changes nothing but the hardware.\<close>

definition bus_only :: "'z thermocouples_scheme \<Rightarrow> 'z thermocouples_scheme \<Rightarrow> bool" where
  "bus_only s s' \<longleftrightarrow> thermocouple_of s' = thermocouple_of s \<and> shutdown_status s' = shutdown_status s \<and>
     sent s' = sent s \<and> in_sendf s' = in_sendf s"

lemma bus_only_refl [simp]: "bus_only s s"
  by (simp add: bus_only_def)

lemma bus_only_hw_do [simp]: "bus_only s (hw_do h s') = bus_only s s'"
  by (simp add: bus_only_def)

lemma software_bus_only:
  "bus_only s (snd (spi_software_bits n ss ob i s))"
  "bus_only s (snd (spi_software_transfer ss r data s))"
proof -
  have b: "bus_only s (snd (spi_software_bits n ss ob i u))" if "bus_only s u" for n ob i and s u :: "'a thermocouples_scheme"
    using that by (induction n arbitrary: ob i u) (simp_all add: Let_def)
  show "bus_only s (snd (spi_software_bits n ss ob i s))" by (rule b) simp
  have "bus_only s (snd (spi_software_transfer ss r data u))" if "bus_only s u" for s u :: "'a thermocouples_scheme"
    using that
    by (induction data arbitrary: u) (simp_all add: case_prod_beta b del: spi_software_bits.simps)
  then show "bus_only s (snd (spi_software_transfer ss r data s))" by simp
qed

lemma transfer_bus_only: "bus_only s (snd (spidev_transfer oid r data s))"
proof -
  have tr: "bus_only s u \<Longrightarrow> bus_only s (snd (spi_software_transfer ss r data u))" for u ss
    using software_bus_only(2) [of u ss r data] by (simp add: bus_only_def)
  show ?thesis
    by (auto simp: spidev_transfer_def Let_def spi_transfer_def spi_prepare_def spi_software_prepare_def
      case_prod_beta tr)
qed

section \<open>Every reading is checked\<close>

text \<open>The fault bit of a value, where the chip has one.\<close>

definition chip_fault :: "thermocouple_type \<Rightarrow> u32 \<Rightarrow> bool" where
  "chip_fault c value \<longleftrightarrow>
     (case c of MAX31855 \<Rightarrow> value AND 4 \<noteq> 0 | MAX31856 \<Rightarrow> False | MAX31865 \<Rightarrow> value AND 1 \<noteq> 0
      | MAX6675 \<Rightarrow> value AND 4 \<noteq> 0)"

lemma andThen_unit: "andThen m Ret = m"
  by (cases m) simp_all

lemma read_shape:
  assumes "th_pending (thermocouple_of s oid)"
  shows "\<exists>value fault u. bus_only (upd_th oid (\<lambda>t. t\<lparr>th_pending := False\<rparr>) s) u \<and>
    thermocouple_read oid s =
      andThen (thermocouple_respond oid (timer_waketime s (Obj_timer oid)) value fault u)
        (\<lambda>_ s'. thermocouple_fault (chip_fault (th_chip_type (thermocouple_of s oid)) value) s')"
proof -
  let ?s = "upd_th oid (\<lambda>t. t\<lparr>th_pending := False\<rparr>) s"
  have two: "bus_only ?s (snd (spidev_transfer p2 True d2 (snd (spidev_transfer p1 True d1 ?s))))" for p1 d1 p2 d2
    using transfer_bus_only [of ?s p1 True d1]
      transfer_bus_only [of "snd (spidev_transfer p1 True d1 ?s)" p2 True d2] by (simp add: bus_only_def)
  have th_keep: "th_spi (thermocouple_of (snd (spidev_transfer p True d ?s)) oid) = th_spi (thermocouple_of s oid)" for p d
    using transfer_bus_only [of ?s p True d] by (simp add: bus_only_def)
  show ?thesis
  proof (cases "th_chip_type (thermocouple_of s oid)")
    case MAX31855
    let ?r = "spidev_transfer (th_spi (thermocouple_of s oid)) True [0, 0, 0, 0] ?s"
    show ?thesis
      by (rule exI [of _ "be_bytes (fst ?r)"], rule exI [of _ "0"], rule exI [of _ "snd ?r"])
        (use assms MAX31855 transfer_bus_only in \<open>simp add: thermocouple_read_def thermocouple_handle_max31855_def
          Let_def case_prod_beta chip_fault_def thermocouple_fault_def andThen_unit th_keep cong del: andThen_cong\<close>)
  next
    case MAX31856
    let ?r = "spidev_transfer (th_spi (thermocouple_of s oid)) True [0x0c, 0, 0, 0] ?s"
    let ?q = "spidev_transfer (th_spi (thermocouple_of s oid)) True [0x0f, 0] (snd ?r)"
    show ?thesis
      by (rule exI [of _ "be_bytes (fst ?r) AND 0x00ffffff"], rule exI [of _ "fst ?q ! 1"], rule exI [of _ "snd ?q"])
        (use assms MAX31856 two in \<open>simp add: thermocouple_read_def thermocouple_handle_max31856_def
          Let_def case_prod_beta chip_fault_def thermocouple_fault_def andThen_unit th_keep cong del: andThen_cong\<close>)
  next
    case MAX31865
    let ?r = "spidev_transfer (th_spi (thermocouple_of s oid)) True [0x01, 0, 0] ?s"
    let ?q = "spidev_transfer (th_spi (thermocouple_of s oid)) True [0x07, 0] (snd ?r)"
    show ?thesis
      by (rule exI [of _ "drop_bit 8 (be_bytes (fst ?r @ [0])) AND 0xffff"], rule exI [of _ "fst ?q ! 1"], rule exI [of _ "snd ?q"])
        (use assms MAX31865 two in \<open>simp add: thermocouple_read_def thermocouple_handle_max31865_def
          Let_def case_prod_beta chip_fault_def thermocouple_fault_def andThen_unit th_keep cong del: andThen_cong\<close>)
  next
    case MAX6675
    let ?r = "spidev_transfer (th_spi (thermocouple_of s oid)) True [0, 0] ?s"
    show ?thesis
      by (rule exI [of _ "be_bytes (fst ?r)"], rule exI [of _ "0"], rule exI [of _ "snd ?r"])
        (use assms MAX6675 transfer_bus_only in \<open>simp add: thermocouple_read_def thermocouple_handle_max6675_def
          Let_def case_prod_beta chip_fault_def thermocouple_fault_def andThen_unit th_keep cong del: andThen_cong\<close>)
  qed
qed

lemma respond_then_fault:
  assumes "\<not> in_sendf u" "shutdown_status u = 0"
  shows "andThen (thermocouple_respond oid w value fault u) (\<lambda>_ s'. thermocouple_fault bad s') =
    (let s' = command_sendf (Response ''thermocouple_result'' [ucast oid, w, value, ucast fault]) u in
     if value < th_min_value (thermocouple_of u oid) \<or> th_max_value (thermocouple_of u oid) < value
     then Shutdown ''Thermocouple ADC out of range'' s'
     else if bad then Shutdown ''Thermocouple reader fault'' s' else Ret () s')"
  using assms by (simp add: thermocouple_respond_def thermocouple_fault_def sched_try_shutdown_def
    sched_shutdown_def Let_def)

text \<open>
  Every pending reading of a thermocouple is reported to the host and checked, whatever the chip
  type: the task goes on only when the value it reported lies within the permitted range and carries
  no fault bit; otherwise the firmware stops, after the report was sent.
\<close>

theorem thermocouple_read_checked:
  assumes "th_pending (thermocouple_of s oid)" "shutdown_status s = 0" "\<not> in_sendf s"
  shows "\<exists>value fault s'. sent s' = sent s @
      [Response ''thermocouple_result'' [ucast oid, timer_waketime s (Obj_timer oid), value, fault]] \<and>
    (if th_min_value (thermocouple_of s oid) \<le> value \<and> value \<le> th_max_value (thermocouple_of s oid) \<and>
        \<not> chip_fault (th_chip_type (thermocouple_of s oid)) value
     then thermocouple_read oid s = Ret () s' \<and> \<not> th_pending (thermocouple_of s' oid)
     else \<exists>reason. thermocouple_read oid s = Shutdown reason s')"
proof -
  from read_shape [OF assms(1)] obtain v fault u where
    u: "bus_only (upd_th oid (\<lambda>t. t\<lparr>th_pending := False\<rparr>) s) u"
    and r: "thermocouple_read oid s =
      andThen (thermocouple_respond oid (timer_waketime s (Obj_timer oid)) v fault u)
        (\<lambda>_ s'. thermocouple_fault (chip_fault (th_chip_type (thermocouple_of s oid)) v) s')" by blast
  let ?s' = "command_sendf (Response ''thermocouple_result''
    [ucast oid, timer_waketime s (Obj_timer oid), v, ucast fault]) u"
  have f: "\<not> in_sendf u" "shutdown_status u = 0" "thermocouple_of u oid = (thermocouple_of s oid)\<lparr>th_pending := False\<rparr>"
    "sent u = sent s" using u assms by (simp_all add: bus_only_def)
  have "sent ?s' = sent s @ [Response ''thermocouple_result''
      [ucast oid, timer_waketime s (Obj_timer oid), v, ucast fault]]"
    using f by (simp add: command_sendf_def Let_def)
  then show ?thesis unfolding r respond_then_fault [OF f(1,2)]
    by (intro exI [of _ v] exI [of _ "ucast fault"] exI [of _ ?s'])
      (auto simp: Let_def f(3) not_less)
qed

definition thermocouples1 :: thermocouples where
  "thermocouples1 = (spis.extend (spis_init example_conf) \<lparr>thermocouple_of = (\<lambda>_. thermocouple_zero)\<rparr>)
     \<lparr>thermocouple_of := (\<lambda>_. thermocouple_zero\<lparr>th_pending := True, th_max_value := 100\<rparr>),
      timer_waketime := (\<lambda>_. 77)\<rparr>"

theorem thermocouple_read_checked_witness:
  "\<exists>value fault s'. sent s' = [Response ''thermocouple_result'' [4, 77, value, fault]] \<and>
     (thermocouple_read 4 thermocouples1 = Ret () s' \<or> (\<exists>reason. thermocouple_read 4 thermocouples1 = Shutdown reason s'))"
proof -
  have "th_pending (thermocouple_of thermocouples1 4)" "shutdown_status thermocouples1 = 0" "\<not> in_sendf thermocouples1"
    "sent thermocouples1 = []" "timer_waketime thermocouples1 (Obj_timer 4) = 77"
    by (simp_all add: thermocouples1_def thermocouple_zero_def spis.defs spis_init_def tmcuarts_init_def
      tmcuarts.defs counters.defs buttonss1_defs)
  with thermocouple_read_checked [of thermocouples1 4] show ?thesis by (auto split: if_splits)
qed

end
