(* ===== verification/Accel.thy ===== *)
theory Accel
  imports Thermocouple
begin

text \<open>
  \<open>src/sensor_adxl345.c\<close>: an accelerometer on the SPI bus. Its task reads the measurements, packs
  each of them into five bytes and reports them to the host when the buffer is full.
\<close>

section \<open>State\<close>

record adxl345 =
  ax_rest_ticks :: u32
  ax_spi :: u8
  ax_sequence :: "16 word"
  ax_limit_count :: "16 word"
  ax_flags :: u8
  ax_data_count :: u8
  ax_data :: "u8 list"

text \<open>\<open>ax_clock past\<close> is the clock after the hardware operations \<open>past\<close>.\<close>

record adxls = thermocouples +
  adxl_of :: "u8 \<Rightarrow> adxl345"
  ax_clock :: "hw_op list \<Rightarrow> u32"

definition upd_ax :: "u8 \<Rightarrow> (adxl345 \<Rightarrow> adxl345) \<Rightarrow> 'z adxls_scheme \<Rightarrow> 'z adxls_scheme" where
  "upd_ax oid f s = s\<lparr>adxl_of := (adxl_of s)(oid := f (adxl_of s oid))\<rparr>"

definition AX_HAVE_START :: u8 where "AX_HAVE_START = 1"
definition AX_RUNNING :: u8 where "AX_RUNNING = 2"
definition AX_PENDING :: u8 where "AX_PENDING = 4"

definition AR_POWER_CTL :: u8 where "AR_POWER_CTL = 0x2D"
definition AR_DATAX0 :: u8 where "AR_DATAX0 = 0x32"
definition AR_FIFO_STATUS :: u8 where "AR_FIFO_STATUS = 0x39"
definition AM_READ :: u8 where "AM_READ = 0x80"
definition AM_MULTI :: u8 where "AM_MULTI = 0x40"
definition SET_FIFO_CTL :: u8 where "SET_FIFO_CTL = 0x90"
definition AX_DATA_SIZE :: nat where "AX_DATA_SIZE = 50"

definition adxl345_wake :: string where "adxl345_wake = ''adxl345_wake''"

definition adxl_zero :: adxl345 where
  "adxl_zero = \<lparr>ax_rest_ticks = 0, ax_spi = 0, ax_sequence = 0, ax_limit_count = 0, ax_flags = 0,
     ax_data_count = 0, ax_data = replicate AX_DATA_SIZE 0\<rparr>"

section \<open>Events and reports\<close>

definition adxl345_event :: "u8 \<Rightarrow> 'z adxls_scheme \<Rightarrow> (sf_result, 'z adxls_scheme) outcome" where
  "adxl345_event oid s =
     Ret SF_DONE (sched_wake_task adxl345_wake (upd_ax oid (\<lambda>a. a\<lparr>ax_flags := ax_flags a OR AX_PENDING\<rparr>) s))"

definition command_config_adxl345 :: "nat \<Rightarrow> u32 list \<Rightarrow> 'z adxls_scheme \<Rightarrow> (unit, 'z adxls_scheme) outcome" where
  "command_config_adxl345 sizeof_adxl345 args s =
     (let oid = arg_oid args 0 in
      andThen (oid_alloc oid Adxl345_type sizeof_adxl345 s) (\<lambda>_ s.
        let s = upd_ax oid (\<lambda>_. adxl_zero) (clear_timer (Obj_timer oid) s);
            s = set_func (Obj_timer oid) Adxl345_event s
        in andThen (spidev_oid_lookup (arg_oid args 1) s) (\<lambda>spi s.
             Ret () (upd_ax oid (\<lambda>a. a\<lparr>ax_spi := spi\<rparr>) s))))"

definition adxl_report :: "u8 \<Rightarrow> 'z adxls_scheme \<Rightarrow> 'z adxls_scheme" where
  "adxl_report oid s =
     (let a = adxl_of s oid;
          s = command_sendf (Response_data ''adxl345_data'' [ucast oid, ucast (ax_sequence a)]
                (take (unat (ax_data_count a)) (ax_data a))) s
      in upd_ax oid (\<lambda>a. a\<lparr>ax_data_count := 0, ax_sequence := ax_sequence a + 1\<rparr>) s)"

definition adxl_status :: "u8 \<Rightarrow> u32 \<Rightarrow> u32 \<Rightarrow> u8 \<Rightarrow> 'z adxls_scheme \<Rightarrow> 'z adxls_scheme" where
  "adxl_status oid time1 time2 fifo_st s =
     (let a = adxl_of s oid in
      command_sendf (Response ''adxl345_status''
        [ucast oid, time1, time2 - time1, ucast (ax_sequence a), ucast (ax_data_count a), ucast fifo_st,
         ucast (ax_limit_count a)]) s)"

definition adxl_reschedule_timer :: "u8 \<Rightarrow> 'z adxls_scheme \<Rightarrow> (unit, 'z adxls_scheme) outcome" where
  "adxl_reschedule_timer oid s =
     sched_add_timer (Obj_timer oid)
       (set_waketime (Obj_timer oid) (timer_read_time s + ax_rest_ticks (adxl_of s oid)) s)"

section \<open>Measurements\<close>

text \<open>The check of an answer of the chip, and the five bytes made of it.\<close>

definition high_byte_bad :: "u8 \<Rightarrow> bool" where
  "high_byte_bad b \<longleftrightarrow> b AND 0xf0 \<noteq> 0 \<and> b AND 0xf0 \<noteq> 0xf0"

definition sample_bad :: "u8 list \<Rightarrow> bool" where
  "sample_bad msg \<longleftrightarrow> high_byte_bad (msg ! 2) \<or> high_byte_bad (msg ! 4) \<or> high_byte_bad (msg ! 6) \<or>
     msg ! 7 \<noteq> SET_FIFO_CTL \<or> msg ! 8 AND 0x7f > 32"

definition sample_bytes :: "u8 list \<Rightarrow> u8 list" where
  "sample_bytes msg =
     (if sample_bad msg then [0xff, 0xff, 0xff, 0xff, 0xff]
      else [msg ! 1, msg ! 3, msg ! 5, (msg ! 2 AND 0x1f) OR push_bit 5 (msg ! 6),
            (msg ! 4 AND 0x1f) OR (push_bit 2 (msg ! 6) AND 0x60)])"

text \<open>The sample goes into the buffer, which is reported when there is no room for another one.\<close>

definition adxl_store :: "u8 \<Rightarrow> u8 list \<Rightarrow> 'z adxls_scheme \<Rightarrow> (unit, 'z adxls_scheme) outcome" where
  "adxl_store oid d s =
     (let a = adxl_of s oid; k = unat (ax_data_count a) in
      if k + 5 > length (ax_data a) then Fault
      else
        let s = upd_ax oid (\<lambda>a. a\<lparr>ax_data := take k (ax_data a) @ d @ drop (k + 5) (ax_data a),
                  ax_data_count := ax_data_count a + 5\<rparr>) s
        in Ret () (if unat (ax_data_count (adxl_of s oid)) + 5 > AX_DATA_SIZE then adxl_report oid s else s))"

definition adxl_query :: "u8 \<Rightarrow> 'z adxls_scheme \<Rightarrow> (unit, 'z adxls_scheme) outcome" where
  "adxl_query oid s =
     (let (msg, s) = spidev_transfer (ax_spi (adxl_of s oid)) True
            [AR_DATAX0 OR AM_READ OR AM_MULTI, 0, 0, 0, 0, 0, 0, 0, 0] s;
          fifo_status = (if sample_bad msg then 0 else msg ! 8 AND 0x7f)
      in andThen (adxl_store oid (sample_bytes msg) s) (\<lambda>_ s.
        let s = (if fifo_status \<ge> 31 then upd_ax oid (\<lambda>a. a\<lparr>ax_limit_count := ax_limit_count a + 1\<rparr>) s else s) in
        if fifo_status > 1 \<and> fifo_status \<le> 32 then Ret () (sched_wake_task adxl345_wake s)
        else if ax_flags (adxl_of s oid) AND AX_RUNNING \<noteq> 0 then
          andThen (sched_del_timer (Obj_timer oid) s) (\<lambda>_ s.
            adxl_reschedule_timer oid (upd_ax oid (\<lambda>a. a\<lparr>ax_flags := ax_flags a AND NOT AX_PENDING\<rparr>) s))
        else Ret () s))"

definition adxl_start :: "u8 \<Rightarrow> 'z adxls_scheme \<Rightarrow> (unit, 'z adxls_scheme) outcome" where
  "adxl_start oid s =
     andThen (sched_del_timer (Obj_timer oid) s) (\<lambda>_ s.
       let s = upd_ax oid (\<lambda>a. a\<lparr>ax_flags := AX_RUNNING\<rparr>) s;
           (_, s) = spidev_transfer (ax_spi (adxl_of s oid)) False [AR_POWER_CTL, 0x08] s
       in adxl_reschedule_timer oid s)"

text \<open>\<open>Drain any measurements still in fifo\<close>: \<open>n\<close> rounds at most; the result is the last answer.\<close>

fun adxl_drain :: "nat \<Rightarrow> u8 \<Rightarrow> u8 list \<Rightarrow> 'z adxls_scheme \<Rightarrow> (u8 list, 'z adxls_scheme) outcome" where
  "adxl_drain 0 oid msg s = Ret msg s"
| "adxl_drain (Suc n) oid msg s =
     (let (msg, s) = spidev_transfer (ax_spi (adxl_of s oid)) True [AR_FIFO_STATUS OR AM_READ, 0] s;
          fifo_status = msg ! 1 AND 0x7f
      in if fifo_status = 0 then Ret msg s
         else andThen (if fifo_status \<le> 32 then adxl_query oid s else Ret () s) (\<lambda>_ s. adxl_drain n oid msg s))"

text \<open>The clock is read behind the transfer, too.\<close>

definition adxl_stop :: "u8 \<Rightarrow> 'z adxls_scheme \<Rightarrow> (unit, 'z adxls_scheme) outcome" where
  "adxl_stop oid s =
     andThen (sched_del_timer (Obj_timer oid) s) (\<lambda>_ s.
       let s = upd_ax oid (\<lambda>a. a\<lparr>ax_flags := 0\<rparr>) s;
           end1_time = timer_read_time s;
           (msg, s) = spidev_transfer (ax_spi (adxl_of s oid)) False [AR_POWER_CTL, 0] s;
           s = s\<lparr>timer_read_time := ax_clock s (hw s)\<rparr>;
           end2_time = timer_read_time s
       in andThen (adxl_drain 33 oid msg s) (\<lambda>msg s.
            let s = (if ax_data_count (adxl_of s oid) \<noteq> 0 then adxl_report oid s else s)
            in Ret () (adxl_status oid end1_time end2_time (msg ! 1) s)))"

definition command_query_adxl345 :: "u32 list \<Rightarrow> 'z adxls_scheme \<Rightarrow> (unit, 'z adxls_scheme) outcome" where
  "command_query_adxl345 args s =
     andThen (obj_lookup (arg_oid args 0) Adxl345_type s) (\<lambda>oid s.
       if args ! 2 = 0 then adxl_stop oid s
       else
         andThen (sched_del_timer (Obj_timer oid) s) (\<lambda>_ s.
           let s = set_waketime (Obj_timer oid) (args ! 1) s;
               s = upd_ax oid (\<lambda>a. a\<lparr>ax_rest_ticks := args ! 2, ax_flags := AX_HAVE_START, ax_sequence := 0,
                     ax_limit_count := 0, ax_data_count := 0\<rparr>) s
           in sched_add_timer (Obj_timer oid) s))"

definition command_query_adxl345_status :: "u32 list \<Rightarrow> 'z adxls_scheme \<Rightarrow> (unit, 'z adxls_scheme) outcome" where
  "command_query_adxl345_status args s =
     andThen (obj_lookup (arg_oid args 0) Adxl345_type s) (\<lambda>oid s.
       let time1 = timer_read_time s;
           (msg, s) = spidev_transfer (ax_spi (adxl_of s oid)) True [AR_FIFO_STATUS OR AM_READ, 0] s;
           s = s\<lparr>timer_read_time := ax_clock s (hw s)\<rparr>
       in Ret () (adxl_status oid time1 (timer_read_time s) (msg ! 1) s))"

definition adxl_poll :: "u8 \<Rightarrow> 'z adxls_scheme \<Rightarrow> (unit, 'z adxls_scheme) outcome" where
  "adxl_poll oid s =
     (let flags = ax_flags (adxl_of s oid) in
      if flags AND AX_PENDING = 0 then Ret () s
      else if flags AND AX_HAVE_START \<noteq> 0 then adxl_start oid s
      else adxl_query oid s)"

definition adxl345_task :: "'z adxls_scheme \<Rightarrow> (unit, 'z adxls_scheme) outcome" where
  "adxl345_task s =
     (let (w, s) = sched_check_wake adxl345_wake s in
      if \<not> w then Ret () s else foreach_oid Adxl345_type adxl_poll s)"

section \<open>Samples\<close>

text \<open>What the host makes of five bytes, \<open>None\<close> for a mark of an error, and what the chip measured.\<close>

definition host_sample :: "u8 list \<Rightarrow> (int \<times> int \<times> int) option" where
  "host_sample d =
     (if d ! 4 AND 0x80 \<noteq> 0 then None
      else Some
        (uint (d ! 0) + 256 * uint (d ! 3 AND 0x1f) - 512 * uint (d ! 3 AND 0x10),
         uint (d ! 1) + 256 * uint (d ! 4 AND 0x1f) - 512 * uint (d ! 4 AND 0x10),
         uint (d ! 2) + 8 * uint (d ! 3 AND 0xe0) + 64 * uint (d ! 4 AND 0xe0) - 128 * uint (d ! 4 AND 0x40)))"

definition chip_value :: "u8 \<Rightarrow> u8 \<Rightarrow> int" where
  "chip_value low high = 256 * sint high + uint low"

text \<open>Facts on single bytes, by trying all of them.\<close>

lemma all_u8:
  assumes "list_all P (map of_nat [0..<256])"
  shows "P (b :: u8)"
proof -
  have "unat b \<in> set [0..<256]" using unsigned_less [of b, where ?'a = nat] by simp
  then have "of_nat (unat b) \<in> set (map of_nat [0..<256] :: u8 list)" unfolding set_map by (rule imageI)
  moreover have "of_nat (unat b) = b" by simp
  ultimately have "b \<in> set (map of_nat [0..<256])" by (simp only:)
  then show "P b" using assms by (simp only: list_all_iff)
qed

lemma high_byte:
  "\<not> high_byte_bad b \<longrightarrow> 256 * uint (b AND 0x1f) - 512 * uint (b AND 0x10) = 256 * sint b"
  by (rule all_u8 [of "\<lambda>b. \<not> high_byte_bad b \<longrightarrow> 256 * uint (b AND 0x1f) - 512 * uint (b AND 0x10) = 256 * sint b"])
    code_simp

lemma spread_byte:
  "\<not> high_byte_bad b \<longrightarrow>
     8 * uint (push_bit 5 b) + 64 * uint (push_bit 2 b AND 0x60) - 128 * uint (push_bit 2 b AND 0x40) = 256 * sint b"
  by (rule all_u8 [of "\<lambda>b. \<not> high_byte_bad b \<longrightarrow>
     8 * uint (push_bit 5 b) + 64 * uint (push_bit 2 b AND 0x60) - 128 * uint (push_bit 2 b AND 0x40) = 256 * sint b"])
    code_simp

lemma masks:
  fixes b c :: u8
  shows "((b AND 0x1f) OR push_bit 5 c) AND 0x1f = b AND 0x1f" "((b AND 0x1f) OR push_bit 5 c) AND 0x10 = b AND 0x10"
    "((b AND 0x1f) OR push_bit 5 c) AND 0xe0 = push_bit 5 c"
    "((b AND 0x1f) OR (c AND 0x60)) AND 0x1f = b AND 0x1f" "((b AND 0x1f) OR (c AND 0x60)) AND 0x10 = b AND 0x10"
    "((b AND 0x1f) OR (c AND 0x60)) AND 0xe0 = c AND 0x60" "((b AND 0x1f) OR (c AND 0x60)) AND 0x40 = c AND 0x40"
    "((b AND 0x1f) OR (c AND 0x60)) AND 0x80 = 0"
proof -
  have p: "push_bit 5 c AND 0x1f = 0 \<and> push_bit 5 c AND 0x10 = 0 \<and> push_bit 5 c AND 0xe0 = push_bit 5 c"
    by (rule all_u8 [of "\<lambda>c. push_bit 5 c AND 0x1f = 0 \<and> push_bit 5 c AND 0x10 = 0 \<and> push_bit 5 c AND 0xe0 = push_bit 5 c"])
      code_simp
  show "((b AND 0x1f) OR push_bit 5 c) AND 0x1f = b AND 0x1f" "((b AND 0x1f) OR push_bit 5 c) AND 0x10 = b AND 0x10"
    "((b AND 0x1f) OR push_bit 5 c) AND 0xe0 = push_bit 5 c"
    "((b AND 0x1f) OR (c AND 0x60)) AND 0x1f = b AND 0x1f" "((b AND 0x1f) OR (c AND 0x60)) AND 0x10 = b AND 0x10"
    "((b AND 0x1f) OR (c AND 0x60)) AND 0xe0 = c AND 0x60" "((b AND 0x1f) OR (c AND 0x60)) AND 0x40 = c AND 0x40"
    "((b AND 0x1f) OR (c AND 0x60)) AND 0x80 = 0"
    using p by (simp_all add: bit.conj_disj_distrib2 and.assoc)
qed

lemma sample_bytes_length: "length (sample_bytes msg) = 5"
  by (simp add: sample_bytes_def)

lemma host_sample_bytes:
  "host_sample (sample_bytes msg) =
     (if sample_bad msg then None
      else Some (chip_value (msg ! 1) (msg ! 2), chip_value (msg ! 3) (msg ! 4), chip_value (msg ! 5) (msg ! 6)))"
proof (cases "sample_bad msg")
  case True
  moreover have "(0xff :: u8) AND 0x80 \<noteq> 0" by code_simp
  ultimately show ?thesis by (simp add: host_sample_def sample_bytes_def)
next
  case False
  then have "\<not> high_byte_bad (msg ! 2)" "\<not> high_byte_bad (msg ! 4)" "\<not> high_byte_bad (msg ! 6)"
    by (simp_all add: sample_bad_def)
  then show ?thesis
    using False high_byte [of "msg ! 2"] high_byte [of "msg ! 4"] spread_byte [of "msg ! 6"]
    by (simp add: host_sample_def sample_bytes_def masks chip_value_def)
qed

text \<open>
  C9: The packing of a measurement loses nothing: from the five bytes of a good answer the host reads
  the three values that the chip measured, and a bad answer is marked so that the host drops it.
\<close>

theorem sample_roundtrip:
  "host_sample (sample_bytes msg) =
     (if sample_bad msg then None
      else Some (chip_value (msg ! 1) (msg ! 2), chip_value (msg ! 3) (msg ! 4), chip_value (msg ! 5) (msg ! 6)))"
  by (rule host_sample_bytes)

section \<open>The stream of samples\<close>

text \<open>The bytes of an object that were reported, and those that wait.\<close>

definition reported :: "u8 \<Rightarrow> response list \<Rightarrow> u8 list" where
  "reported oid rs = concat (map (\<lambda>r. case r of
     Response_data name args d \<Rightarrow> if name = ''adxl345_data'' \<and> hd args = ucast oid then d else [] | _ \<Rightarrow> []) rs)"

definition waiting :: "u8 \<Rightarrow> 'z adxls_scheme \<Rightarrow> u8 list" where
  "waiting oid s = take (unat (ax_data_count (adxl_of s oid))) (ax_data (adxl_of s oid))"

text \<open>The buffer always has room for one more sample.\<close>

definition buffer_ok :: "u8 \<Rightarrow> 'z adxls_scheme \<Rightarrow> bool" where
  "buffer_ok oid s \<longleftrightarrow> length (ax_data (adxl_of s oid)) = AX_DATA_SIZE \<and>
     unat (ax_data_count (adxl_of s oid)) + 5 \<le> AX_DATA_SIZE \<and> \<not> in_sendf s"

text \<open>\<open>d\<close> was added to the bytes of the object, and no byte of it lost.\<close>

definition stream_grows :: "u8 \<Rightarrow> u8 list \<Rightarrow> 'z adxls_scheme \<Rightarrow> 'z adxls_scheme \<Rightarrow> bool" where
  "stream_grows oid d s s' \<longleftrightarrow> buffer_ok oid s' \<and>
     reported oid (sent s') @ waiting oid s' = reported oid (sent s) @ waiting oid s @ d"

lemma ax_fields [simp]:
  "adxl_of (upd_ax oid f s) = (adxl_of s)(oid := f (adxl_of s oid))" "sent (upd_ax oid f s) = sent s"
  "in_sendf (upd_ax oid f s) = in_sendf s" "adxl_of (command_sendf r s) = adxl_of s"
  "adxl_of (sched_wake_task k s) = adxl_of s" "adxl_of (set_waketime t w s) = adxl_of s" "adxl_of (hw_do h s) = adxl_of s"
  "in_sendf (sched_wake_task k s) = in_sendf s" "in_sendf (set_waketime t w s) = in_sendf s"
  "sent (set_waketime t w s) = sent s"
  by (simp_all add: upd_ax_def command_sendf_def sched_wake_task_def sched_wake_tasks_def set_waketime_def hw_do_def)

text \<open>The same wiring of the bus and the same lines.\<close>

definition wired_like :: "'z adxls_scheme \<Rightarrow> 'z adxls_scheme \<Rightarrow> bool" where
  "wired_like s u \<longleftrightarrow> kconf u = kconf s \<and> spidev_of u = spidev_of s \<and> spi_software_of u = spi_software_of s \<and>
     miso_level u = miso_level s \<and> spi_miso u = spi_miso s"

lemma store_grows:
  assumes "buffer_ok oid s" "length d = 5"
  shows "\<exists>s'. adxl_store oid d s = Ret () s' \<and> stream_grows oid d s s' \<and> hw s' = hw s \<and> wired_like s s' \<and>
    ax_flags (adxl_of s' oid) = ax_flags (adxl_of s oid) \<and> ax_spi (adxl_of s' oid) = ax_spi (adxl_of s oid)"
proof -
  let ?a = "adxl_of s oid" and ?k = "unat (ax_data_count (adxl_of s oid))"
  have k: "?k + 5 \<le> 50" "length (ax_data ?a) = 50" "\<not> in_sendf s" using assms(1) by (simp_all add: buffer_ok_def AX_DATA_SIZE_def)
  have c: "unat (ax_data_count ?a + 5) = ?k + 5" using k(1) by (subst unat_plus_if') simp
  have t: "take (?k + 5) (take ?k (ax_data ?a) @ d @ drop (?k + 5) (ax_data ?a)) = take ?k (ax_data ?a) @ d"
    using k assms(2) by simp
  show ?thesis
    using k assms(2) by (auto simp: adxl_store_def Let_def c t adxl_report_def stream_grows_def buffer_ok_def AX_DATA_SIZE_def
        waiting_def reported_def command_sendf_def wired_like_def upd_ax_def)
qed

text \<open>A transfer adds to the hardware operations only, and its answer has the length of what was sent.\<close>

definition hw_only :: "'z sched_scheme \<Rightarrow> 'z sched_scheme \<Rightarrow> bool" where
  "hw_only s s' \<longleftrightarrow> (\<exists>h. s' = s\<lparr>hw := hw s @ h\<rparr>)"

lemma hw_only_steps [simp]: "hw_only s s" "hw_only s u \<Longrightarrow> hw_only s (hw_do h u)"
  by (auto simp: hw_only_def hw_do_def intro: exI [of _ "[]"])

lemma software_transfer_hw_only:
  "hw_only s u \<Longrightarrow> hw_only s (snd (spi_software_bits n ss ob i u))"
  "hw_only s u \<Longrightarrow> hw_only s (snd (spi_software_transfer ss r data u))"
  "length (fst (spi_software_transfer ss r data u)) = length data"
proof -
  show b: "hw_only s u \<Longrightarrow> hw_only s (snd (spi_software_bits n ss ob i u))" for n ob i u
    by (induction n arbitrary: ob i u) (simp_all add: Let_def)
  show "hw_only s u \<Longrightarrow> hw_only s (snd (spi_software_transfer ss r data u))"
    by (induction data arbitrary: u) (simp_all add: case_prod_beta b del: spi_software_bits.simps)
  show "length (fst (spi_software_transfer ss r data u)) = length data"
    by (induction data arbitrary: u) (simp_all add: case_prod_beta del: spi_software_bits.simps)
qed

lemma transfer_hw_only:
  "hw_only s (snd (spidev_transfer oid r data s))" "length (fst (spidev_transfer oid r data s)) = length data"
  by (auto simp: spidev_transfer_def Let_def spi_transfer_def spi_prepare_def spi_software_prepare_def
      case_prod_beta software_transfer_hw_only)

text \<open>The same view of an object: what the scheduler and the bus leave alone.\<close>

definition same_stream :: "'z adxls_scheme \<Rightarrow> 'z adxls_scheme \<Rightarrow> bool" where
  "same_stream s s' \<longleftrightarrow> adxl_of s' = adxl_of s \<and> sent s' = sent s \<and> in_sendf s' = in_sendf s"

lemma same_stream_hw: "hw_only s s' \<Longrightarrow> same_stream s s'"
  by (auto simp: hw_only_def same_stream_def)

lemma same_stream_sched:
  assumes "sched_only s s'"
  shows "same_stream s s'"
proof -
  have "adxl_of s' = adxl_of s" by (subst assms [unfolded sched_only_def]) simp
  then show ?thesis using sched_only_fields [OF assms] by (simp add: same_stream_def)
qed

lemma wired_like_sched:
  assumes "sched_only s s'"
  shows "wired_like s s'"
  unfolding wired_like_def by (intro conjI; subst assms [unfolded sched_only_def]; simp)

lemma del_timer_hw: "sched_del_timer t s = Ret () s' \<Longrightarrow> hw s' = hw s"
proof (cases "timer_list s = t")
  case False
  assume r: "sched_del_timer t s = Ret () s'"
  show ?thesis using r False by (auto simp: sched_del_timer_def set_next_def split: option.splits)
qed (auto simp: sched_del_timer_def Let_def set_waketime_def set_next_def)

lemma stream_grows_cong:
  assumes "same_stream s u" "same_stream v s'"
  shows "stream_grows oid d s s' = stream_grows oid d u v"
  using assms by (simp add: same_stream_def stream_grows_def buffer_ok_def waiting_def)

lemma buffer_ok_same: "same_stream s u \<Longrightarrow> buffer_ok oid u = buffer_ok oid s"
  by (simp add: same_stream_def buffer_ok_def)

text \<open>A change of the flags or the counters does not touch the stream.\<close>

lemma stream_grows_upd:
  "(\<And>a. ax_data (f a) = ax_data a \<and> ax_data_count (f a) = ax_data_count a) \<Longrightarrow>
    stream_grows oid d s (upd_ax oid f s') = stream_grows oid d s s'"
  "stream_grows oid d s (sched_wake_task k s') = stream_grows oid d s s'"
  "stream_grows oid d s (set_waketime t w s') = stream_grows oid d s s'"
  by (simp_all add: stream_grows_def buffer_ok_def waiting_def)

text \<open>The answer depends on the wiring and on the hardware operations so far only.\<close>

definition bus_like :: "'z adxls_scheme \<Rightarrow> 'z adxls_scheme \<Rightarrow> bool" where
  "bus_like s u \<longleftrightarrow> wired_like s u \<and> hw u = hw s"

lemma bus_like_hw_do: "bus_like s u \<Longrightarrow> bus_like (hw_do h s) (hw_do h u)"
  by (simp add: bus_like_def wired_like_def hw_do_def)

lemma software_like:
  "bus_like s u \<Longrightarrow> fst (spi_software_bits n ss ob i u) = fst (spi_software_bits n ss ob i s) \<and>
     bus_like (snd (spi_software_bits n ss ob i s)) (snd (spi_software_bits n ss ob i u))"
proof (induction n arbitrary: ob i s u)
  case (Suc n)
  then have "miso_level u = miso_level s" "hw u = hw s" by (simp_all add: bus_like_def wired_like_def)
  then show ?case using Suc by (simp add: Let_def bus_like_hw_do)
qed simp

lemma software_transfer_like:
  "bus_like s u \<Longrightarrow> fst (spi_software_transfer ss r data u) = fst (spi_software_transfer ss r data s) \<and>
     bus_like (snd (spi_software_transfer ss r data s)) (snd (spi_software_transfer ss r data u))"
proof (induction data arbitrary: s u)
  case (Cons d ds)
  note b = software_like [OF Cons.prems, of 8 ss d 0]
  show ?case using b Cons.IH [OF b [THEN conjunct2]] by (simp add: case_prod_beta del: spi_software_bits.simps)
qed simp

lemma transfer_like:
  assumes "bus_like s u"
  shows "fst (spidev_transfer sp r data u) = fst (spidev_transfer sp r data s)"
    and "bus_like (snd (spidev_transfer sp r data s)) (snd (spidev_transfer sp r data u))"
proof -
  have w: "spidev_of u = spidev_of s" "spi_software_of u = spi_software_of s" "kconf u = kconf s"
    "spi_miso u = spi_miso s" "hw u = hw s"
    using assms by (simp_all add: bus_like_def wired_like_def)
  show "fst (spidev_transfer sp r data u) = fst (spidev_transfer sp r data s)"
    and "bus_like (snd (spidev_transfer sp r data s)) (snd (spidev_transfer sp r data u))"
    using assms by (auto simp: spidev_transfer_def Let_def w spi_transfer_def spi_prepare_def spi_software_prepare_def
        case_prod_beta bus_like_hw_do software_transfer_like)
qed

section \<open>The queue of the chip\<close>

text \<open>
  What the chip holds, \<open>held h\<close> after the hardware operations \<open>h\<close>, is an input of the model: a list of
  measurements of six bytes each. This is what its data sheet promises from the moment \<open>off\<close> at which it
  was told to stop measuring: the status register shows how many there are, and every read of
  the data takes the first one, which arrives undisturbed.
\<close>

definition status_read :: "u8 list" where "status_read = [AR_FIFO_STATUS OR AM_READ, 0]"

definition data_read :: "u8 list" where "data_read = [AR_DATAX0 OR AM_READ OR AM_MULTI, 0, 0, 0, 0, 0, 0, 0, 0]"

definition fifo_chip :: "'z adxls_scheme \<Rightarrow> u8 \<Rightarrow> (hw_op list \<Rightarrow> u8 list list) \<Rightarrow> hw_op list \<Rightarrow> bool" where
  "fifo_chip s sp held off \<longleftrightarrow> (\<forall>h.
     (let (msg, u) = spidev_transfer sp True status_read (s\<lparr>hw := off @ h\<rparr>)
      in msg ! 1 AND 0x7f = of_nat (length (held (off @ h))) \<and> held (hw u) = held (off @ h)) \<and>
     (\<forall>d ds. held (off @ h) = d # ds \<longrightarrow>
        (let (msg, u) = spidev_transfer sp True data_read (s\<lparr>hw := off @ h\<rparr>)
         in \<not> sample_bad msg \<and> take 6 (tl msg) = d \<and> held (hw u) = ds)))"

definition measured :: "u8 list \<Rightarrow> int \<times> int \<times> int" where
  "measured d = (chip_value (d ! 0) (d ! 1), chip_value (d ! 2) (d ! 3), chip_value (d ! 4) (d ! 5))"

text \<open>The state while the chip is read out: it is switched off, and nothing else uses the bus.\<close>

definition reading :: "'z adxls_scheme \<Rightarrow> u8 \<Rightarrow> hw_op list \<Rightarrow> u8 \<Rightarrow> 'z adxls_scheme \<Rightarrow> bool" where
  "reading s sp off oid u \<longleftrightarrow> wired_like s u \<and> ax_spi (adxl_of u oid) = sp \<and> ax_flags (adxl_of u oid) = 0 \<and>
     buffer_ok oid u \<and> (\<exists>h. hw u = off @ h)"

lemma reading_transfer:
  assumes "reading s sp off oid u" "spidev_transfer sp True data u = (msg, v)"
  obtains h where "hw u = off @ h" "reading s sp off oid v" "length msg = length data" "same_stream u v"
    "fst (spidev_transfer sp True data (s\<lparr>hw := off @ h\<rparr>)) = msg"
    "hw (snd (spidev_transfer sp True data (s\<lparr>hw := off @ h\<rparr>))) = hw v"
proof -
  obtain h where h: "hw u = off @ h" using assms(1) by (auto simp: reading_def)
  have "bus_like (s\<lparr>hw := off @ h\<rparr>) u" using assms(1) h by (simp add: reading_def bus_like_def wired_like_def)
  note like = transfer_like [OF this, of sp True data, unfolded assms(2) fst_conv snd_conv]
  have "hw_only u v" and l: "length msg = length data"
    using transfer_hw_only(1) [of u sp True data] transfer_hw_only(2) [of sp True data u] by (simp_all add: assms(2))
  then obtain k where k: "v = u\<lparr>hw := hw u @ k\<rparr>" by (auto simp: hw_only_def)
  have rv: "reading s sp off oid v" using assms(1) h by (simp add: k reading_def wired_like_def buffer_ok_def)
  have sv: "same_stream u v" by (simp add: k same_stream_def)
  show ?thesis by (rule that [OF h rv l sv]) (use like in \<open>simp_all add: bus_like_def\<close>)
qed

lemma query_takes_first:
  assumes "fifo_chip s sp held off" "reading s sp off oid u" "held (hw u) = d # ds"
  shows "\<exists>u' b. adxl_query oid u = Ret () u' \<and> reading s sp off oid u' \<and> held (hw u') = ds \<and>
    stream_grows oid b u u' \<and> length b = 5 \<and> host_sample b = Some (measured d)"
proof -
  obtain msg v where t: "spidev_transfer sp True data_read u = (msg, v)"
    by (cases "spidev_transfer sp True data_read u")
  obtain h where v: "hw u = off @ h" "reading s sp off oid v" "length msg = length data_read" "same_stream u v"
    and a: "fst (spidev_transfer sp True data_read (s\<lparr>hw := off @ h\<rparr>)) = msg"
      "hw (snd (spidev_transfer sp True data_read (s\<lparr>hw := off @ h\<rparr>))) = hw v"
    by (rule reading_transfer [OF assms(2) t])
  have l: "length msg = 9" using v(3) by (simp add: data_read_def)
  have c: "\<not> sample_bad msg" "take 6 (tl msg) = d" "held (hw v) = ds"
    using assms(1) [unfolded fifo_chip_def, THEN spec, of h] assms(3) a unfolding v(1)
    by (simp_all add: case_prod_beta)
  let ?b = "sample_bytes msg"
  have b: "host_sample ?b = Some (measured d)"
    using c(1) l unfolding host_sample_bytes by (simp add: measured_def c(2) [symmetric] nth_tl eval_nat_numeral)
  obtain w where w: "adxl_store oid ?b v = Ret () w" "stream_grows oid ?b v w" "hw w = hw v" "wired_like v w"
    "ax_flags (adxl_of w oid) = ax_flags (adxl_of v oid)" "ax_spi (adxl_of w oid) = ax_spi (adxl_of v oid)"
    using store_grows [of oid v ?b] v(2) sample_bytes_length by (auto simp: reading_def)
  define f where "f = (if sample_bad msg then 0 else msg ! 8 AND 0x7f)"
  define x where "x = (if f \<ge> 31 then upd_ax oid (\<lambda>a. a\<lparr>ax_limit_count := ax_limit_count a + 1\<rparr>) w else w)"
  define y where "y = (if f > 1 \<and> f \<le> 32 then sched_wake_task adxl345_wake x else x)"
  have fl: "ax_flags (adxl_of x oid) = 0" using v(2) w(5) by (simp add: x_def reading_def)
  have sp: "ax_spi (adxl_of u oid) = sp" using assms(2) by (simp add: reading_def)
  have "adxl_query oid u = (if f > 1 \<and> f \<le> 32 then Ret () (sched_wake_task adxl345_wake x)
        else if ax_flags (adxl_of x oid) AND AX_RUNNING \<noteq> 0 then
          andThen (sched_del_timer (Obj_timer oid) x) (\<lambda>_ s.
            adxl_reschedule_timer oid (upd_ax oid (\<lambda>a. a\<lparr>ax_flags := ax_flags a AND NOT AX_PENDING\<rparr>) s))
        else Ret () x)"
    by (simp only: adxl_query_def sp t [unfolded data_read_def] Let_def prod.case w(1) andThen.simps f_def x_def)
  then have "adxl_query oid u = Ret () y" by (simp add: y_def fl)
  moreover have "stream_grows oid ?b u y"
    using w(2) stream_grows_cong [OF v(4), of y y] by (simp add: same_stream_def y_def x_def stream_grows_upd)
  moreover have "reading s sp off oid y" "held (hw y) = ds"
    using v(2) w c(3) by (auto simp: reading_def y_def x_def wired_like_def stream_grows_def sched_wake_task_def
        sched_wake_tasks_def upd_ax_def buffer_ok_def)
  ultimately show ?thesis using b sample_bytes_length by blast
qed

lemma grows_trans:
  assumes "stream_grows oid d s u" "stream_grows oid e u s'"
  shows "stream_grows oid (d @ e) s s'"
  using assms by (auto simp: stream_grows_def)

text \<open>Draining takes one measurement in each round, until the status shows that none is left.\<close>

lemma drain_takes_all:
  assumes "fifo_chip s sp held off"
  shows "reading s sp off oid u \<Longrightarrow> length (held (hw u)) \<le> 32 \<Longrightarrow> length (held (hw u)) < n \<Longrightarrow>
    \<exists>u' r bs. adxl_drain n oid msg u = Ret r u' \<and> reading s sp off oid u' \<and> held (hw u') = [] \<and>
      stream_grows oid (concat bs) u u' \<and> (\<forall>b \<in> set bs. length b = 5) \<and>
      map host_sample bs = map (Some \<circ> measured) (held (hw u))"
proof (induction n arbitrary: msg u)
  case (Suc n)
  obtain m v where t: "spidev_transfer sp True status_read u = (m, v)"
    by (cases "spidev_transfer sp True status_read u")
  obtain h where v: "hw u = off @ h" "reading s sp off oid v" "same_stream u v"
    and a: "fst (spidev_transfer sp True status_read (s\<lparr>hw := off @ h\<rparr>)) = m"
      "hw (snd (spidev_transfer sp True status_read (s\<lparr>hw := off @ h\<rparr>))) = hw v"
    by (rule reading_transfer [OF Suc.prems(1) t])
  have c: "m ! 1 AND 0x7f = of_nat (length (held (hw u)))" "held (hw v) = held (hw u)"
    using assms [unfolded fifo_chip_def, THEN spec, of h] a unfolding v(1) by (simp_all add: case_prod_beta)
  have k: "unat (of_nat (length (held (hw u))) :: u8) = length (held (hw u))"
    using Suc.prems(2) by (simp add: unat_of_nat)
  have sp: "ax_spi (adxl_of u oid) = sp" using Suc.prems(1) by (simp add: reading_def)
  note step = sp t [unfolded status_read_def] c(1) [unfolded One_nat_def]
  show ?case
  proof (cases "held (hw u)")
    case Nil
    have "adxl_drain (Suc n) oid msg u = Ret m v" using Nil by (simp add: step)
    moreover have "stream_grows oid [] v v" using v(2) by (simp add: stream_grows_def reading_def)
    then have "stream_grows oid [] u v" using stream_grows_cong [OF v(3), of v v] by (simp add: same_stream_def)
    ultimately show ?thesis
      using v(2) c(2) Nil by (intro exI [of _ v] exI [of _ m] exI [of _ "[]"]) simp
  next
    case (Cons d ds)
    obtain w b where w: "adxl_query oid v = Ret () w" "reading s sp off oid w" "held (hw w) = ds"
      "stream_grows oid b v w" "length b = 5" "host_sample b = Some (measured d)"
      using query_takes_first [OF assms v(2)] c(2) Cons by metis
    have "(of_nat (length (held (hw u))) :: u8) \<noteq> 0" "(of_nat (length (held (hw u))) :: u8) \<le> 32"
      using k Suc.prems(2) Cons by (auto simp: word_le_nat_alt simp flip: unat_eq_zero)
    then have "adxl_drain (Suc n) oid msg u = adxl_drain n oid m w" by (simp add: step w(1) del: of_nat_Suc)
    moreover have "\<exists>u' r bs. adxl_drain n oid m w = Ret r u' \<and> reading s sp off oid u' \<and> held (hw u') = [] \<and>
        stream_grows oid (concat bs) w u' \<and> (\<forall>b \<in> set bs. length b = 5) \<and>
        map host_sample bs = map (Some \<circ> measured) (held (hw w))"
      using Suc.prems(2,3) Cons by (intro Suc.IH w(2)) (simp_all add: w(3))
    then obtain u' r bs where u': "adxl_drain n oid m w = Ret r u'" "reading s sp off oid u'" "held (hw u') = []"
        "stream_grows oid (concat bs) w u'" "\<forall>b \<in> set bs. length b = 5"
        "map host_sample bs = map (Some \<circ> measured) ds"
      unfolding w(3) by blast
    moreover have "stream_grows oid (concat (b # bs)) u u'"
      using grows_trans [OF w(4) u'(4)] stream_grows_cong [OF v(3), of u' u'] by (simp add: same_stream_def)
    ultimately show ?thesis using w(5,6) Cons by (intro exI [of _ u'] exI [of _ r] exI [of _ "b # bs"]) simp
  qed
qed simp

text \<open>
  C8: No measurement is lost or reported twice: stopping the measurements always ends, and the bytes
  reported to the host are those that were reported before, then those that waited in the buffer,
  then for every measurement that the chip holds at the moment it is switched off, at most 32 and in
  their order, five bytes that the host decodes to exactly the measured values. Nothing is left in the
  chip or in the buffer.
\<close>

theorem adxl_stop_reports_all:
  assumes "timer_inv s xs" "timers_sorted s xs" "buffer_ok oid s"
    and "off = hw (snd (spidev_transfer (ax_spi (adxl_of s oid)) False [AR_POWER_CTL, 0] s))"
    and "fifo_chip s (ax_spi (adxl_of s oid)) held off" "length (held off) \<le> 32"
  shows "\<exists>s' bs. adxl_stop oid s = Ret () s' \<and>
    reported oid (sent s') = reported oid (sent s) @ waiting oid s @ concat bs \<and>
    (\<forall>b \<in> set bs. length b = 5) \<and> map host_sample bs = map (Some \<circ> measured) (held off) \<and>
    held (hw s') = [] \<and> waiting oid s' = [] \<and> buffer_ok oid s'"
proof -
  let ?sp = "ax_spi (adxl_of s oid)"
  obtain u where u: "sched_del_timer (Obj_timer oid) s = Ret () u"
    using del_timer_removes [OF assms(1,2), of "Obj_timer oid"] by auto
  define v where "v = upd_ax oid (\<lambda>a. a\<lparr>ax_flags := 0\<rparr>) u"
  have sv: "adxl_of u = adxl_of s" "sent v = sent s" "in_sendf v = in_sendf s" "bus_like s v"
    using same_stream_sched [OF sched_del_timer_only [OF u]] wired_like_sched [OF sched_del_timer_only [OF u]]
      del_timer_hw [OF u]
    by (simp_all add: v_def upd_ax_def same_stream_def bus_like_def wired_like_def)
  obtain m w where t: "spidev_transfer ?sp False [AR_POWER_CTL, 0] v = (m, w)"
    by (cases "spidev_transfer ?sp False [AR_POWER_CTL, 0] v")
  obtain h where h: "w = v\<lparr>hw := hw v @ h\<rparr>"
    using transfer_hw_only(1) [of v ?sp False "[AR_POWER_CTL, 0]"] by (auto simp: t hw_only_def)
  have hw: "hw w = off"
    using transfer_like(2) [OF sv(4), of ?sp False "[AR_POWER_CTL, 0]"] by (simp add: t assms(4) bus_like_def)
  define w' where "w' = w\<lparr>timer_read_time := ax_clock w (hw w)\<rparr>"
  have rd: "reading s ?sp off oid w'" "hw w' = off" "sent w' = sent s" "waiting oid w' = waiting oid s"
    using assms(3) sv hw by (auto simp: w'_def h reading_def bus_like_def wired_like_def v_def buffer_ok_def waiting_def)
  obtain x r bs where x: "adxl_drain 33 oid m w' = Ret r x" "reading s ?sp off oid x" "held (hw x) = []"
    "stream_grows oid (concat bs) w' x" "\<forall>b \<in> set bs. length b = 5"
    "map host_sample bs = map (Some \<circ> measured) (held off)"
    using drain_takes_all [OF assms(5) rd(1), of 33 m] assms(6) rd(2) by auto
  let ?s' = "adxl_status oid (timer_read_time v) (timer_read_time w') (r ! 1)
      (if ax_data_count (adxl_of x oid) \<noteq> 0 then adxl_report oid x else x)"
  have "ax_spi (adxl_of v oid) = ?sp" by (simp add: v_def sv(1))
  moreover have "timer_read_time w' = ax_clock w (hw w)" by (simp add: w'_def)
  ultimately have "adxl_stop oid s = Ret () ?s'"
    by (simp add: adxl_stop_def u Let_def sv(1) t x(1) flip: v_def w'_def)
  moreover have "reported oid (sent ?s') = reported oid (sent x) @ waiting oid x" "waiting oid ?s' = []" "buffer_ok oid ?s'"
      "hw ?s' = hw x"
    using x(2) by (auto simp: adxl_status_def adxl_report_def Let_def command_sendf_def reported_def waiting_def
        buffer_ok_def reading_def AX_DATA_SIZE_def upd_ax_def)
  ultimately show ?thesis
    using x(3-6) rd(3,4) by (intro exI [of _ ?s'] exI [of _ bs]) (simp add: stream_grows_def)
qed

text \<open>A chip on a hardware bus that holds two measurements when it is switched off.\<close>

definition two_held :: "hw_op list \<Rightarrow> u8 list list" where
  "two_held h = drop (length (filter (\<lambda>op. op = Spi_transfer 1 data_read) h)) [[1, 0, 2, 0, 3, 0], [0xff, 0xff, 5, 0, 6, 1]]"

definition chip_answer :: "hw_op list \<Rightarrow> u8 list \<Rightarrow> nat \<Rightarrow> u8" where
  "chip_answer h data i =
     (let k = of_nat (length (two_held h)) in
      (if data = data_read then [0] @ hd (two_held h) @ [SET_FIFO_CTL, k] else [0, k]) ! i)"

definition adxls1 :: adxls where
  "adxls1 = (thermocouples.extend (spis.extend (spis_init example_conf) \<lparr>thermocouple_of = (\<lambda>_. thermocouple_zero)\<rparr>)
       \<lparr>adxl_of = (\<lambda>_. adxl_zero), ax_clock = (\<lambda>_. 0)\<rparr>)
     \<lparr>spidev_of := (\<lambda>_. spidev_zero\<lparr>sp_bus := 1, sf_hardware := True\<rparr>), spi_miso := chip_answer,
      adxl_of := (\<lambda>_. adxl_zero\<lparr>ax_flags := AX_RUNNING, ax_data_count := 5, ax_data := [1, 2, 3, 4, 5] @ replicate 45 0\<rparr>)\<rparr>"

lemma adxls1_fields:
  "in_sendf adxls1 = False" "sent adxls1 = []" "hw adxls1 = []" "spi_miso adxls1 = chip_answer"
  "spidev_of adxls1 = (\<lambda>_. spidev_zero\<lparr>sp_bus := 1, sf_hardware := True\<rparr>)"
  "adxl_of adxls1 = (\<lambda>_. adxl_zero\<lparr>ax_flags := AX_RUNNING, ax_data_count := 5, ax_data := [1, 2, 3, 4, 5] @ replicate 45 0\<rparr>)"
  by (simp_all add: adxls1_def thermocouples.defs spis.defs spis_init_def tmcuarts_init_def tmcuarts.defs counters.defs buttonss1_defs)

lemma adxls1_timers:
  "timer_list adxls1 = Periodic_timer" "last_insert adxls1 = Periodic_timer"
  "timer_next adxls1 = (\<lambda>_. None)(Periodic_timer := Some Sentinel_timer)"
  "timer_waketime adxls1 = (\<lambda>_. 0)(Sentinel_timer := 0x80000000)"
  by (simp_all add: adxls1_def thermocouples.defs spis.defs spis_init_def tmcuarts_init_def tmcuarts.defs counters.defs buttonss1_defs)

lemma adxls1_transfer:
  "spidev_transfer sp r data (adxls1\<lparr>hw := h\<rparr>) =
     ((if r then map (chip_answer (h @ [Spi_prepare 1]) data) [0..<length data] else data),
      adxls1\<lparr>hw := h @ [Spi_prepare 1, Spi_transfer 1 data]\<rparr>)"
  by (simp add: spidev_transfer_def Let_def adxls1_fields spidev_zero_def spi_prepare_def spi_transfer_def hw_do_def)

lemma adxls1_chip: "fifo_chip adxls1 0 two_held off"
  unfolding fifo_chip_def
proof (intro allI conjI impI)
  have ne: "status_read \<noteq> data_read" by (simp add: status_read_def data_read_def)
  have l: "length (two_held h) \<le> 2" for h by (simp add: two_held_def)
  have same: "two_held (h @ [Spi_prepare 1]) = two_held h" for h by (simp add: two_held_def)
  fix h
  have "(of_nat (length (two_held (off @ h))) :: u8) AND 0x7f = of_nat (length (two_held (off @ h)))"
    using l [of "off @ h"] by (auto simp: numeral_2_eq_2 le_Suc_eq)
  moreover have "two_held (off @ h @ [Spi_prepare 1, Spi_transfer 1 status_read]) = two_held (off @ h)"
    using ne by (simp add: two_held_def)
  ultimately show "let (msg, u) = spidev_transfer 0 True status_read (adxls1\<lparr>hw := off @ h\<rparr>)
      in msg ! 1 AND 0x7f = of_nat (length (two_held (off @ h))) \<and> two_held (hw u) = two_held (off @ h)"
    using ne same [of "off @ h"] by (simp add: adxls1_transfer chip_answer_def Let_def status_read_def)
  fix d ds assume d: "two_held (off @ h) = d # ds"
  have "two_held (off @ h @ [Spi_prepare 1, Spi_transfer 1 data_read]) = tl (two_held (off @ h))"
    by (simp add: two_held_def tl_drop)
  then have "two_held (off @ h @ [Spi_prepare 1, Spi_transfer 1 data_read]) = ds" "two_held (off @ h @ [Spi_prepare 1]) = d # ds"
    using d same [of "off @ h"] by simp_all
  moreover have "length ds = 0 \<or> length ds = 1" using d l [of "off @ h"] by (simp add: le_Suc_eq numeral_2_eq_2)
  moreover have "d \<in> set [[1, 0, 2, 0, 3, 0], [0xff, 0xff, 5, 0, 6, 1]]"
    using d in_set_dropD [of d _ "[[1, 0, 2, 0, 3, 0], [0xff, 0xff, 5, 0, 6, 1]]"] unfolding two_held_def
    by (metis list.set_intros(1))
  ultimately show "let (msg, u) = spidev_transfer 0 True data_read (adxls1\<lparr>hw := off @ h\<rparr>)
      in \<not> sample_bad msg \<and> take 6 (tl msg) = d \<and> two_held (hw u) = ds"
    using ne by (auto simp: adxls1_transfer chip_answer_def Let_def data_read_def upt_rec sample_bad_def high_byte_bad_def)
qed

theorem adxl_stop_reports_all_witness:
  "\<exists>s' bs. adxl_stop 3 adxls1 = Ret () s' \<and> reported 3 (sent s') = [1, 2, 3, 4, 5] @ concat bs \<and>
     map host_sample bs = [Some (1, 2, 3), Some (-1, 5, 262)] \<and> waiting 3 s' = []"
proof -
  have b: "buffer_ok 3 adxls1" "waiting 3 adxls1 = [1, 2, 3, 4, 5]" "reported 3 (sent adxls1) = []" "ax_spi (adxl_of adxls1 3) = 0"
    by (simp_all add: buffer_ok_def waiting_def reported_def adxls1_fields AX_DATA_SIZE_def adxl_zero_def)
  have i: "timer_inv adxls1 [Periodic_timer, Sentinel_timer]" "timers_sorted adxls1 [Periodic_timer, Sentinel_timer]"
    by (simp_all add: timer_inv_def timers_sorted_def timer_key_def rel_time_def from_base_def adxls1_timers)
  have c: "fifo_chip adxls1 (ax_spi (adxl_of adxls1 3)) two_held off" for off unfolding b(4) by (rule adxls1_chip)
  have start: "adxls1\<lparr>hw := []\<rparr> = adxls1" by (simp flip: adxls1_fields(3))
  have o: "two_held (hw (snd (spidev_transfer (ax_spi (adxl_of adxls1 3)) False [AR_POWER_CTL, 0] adxls1))) =
      [[1, 0, 2, 0, 3, 0], [0xff, 0xff, 5, 0, 6, 1]]"
    using adxls1_transfer [of 0 False "[AR_POWER_CTL, 0]" "[]"] unfolding start b(4)
    by (simp add: two_held_def data_read_def)
  have m: "measured [1, 0, 2, 0, 3, 0] = (1, 2, 3)" "measured [0xff, 0xff, 5, 0, 6, 1] = (-1, 5, 262)"
    by (simp_all add: measured_def chip_value_def)
  show ?thesis
    using adxl_stop_reports_all [OF i b(1) refl c] unfolding o b(2,3)
    by (simp add: m) (elim exE conjE, intro exI conjI; assumption)
qed

end
