(* ===== verification/I2c_Device.thy ===== *)
theory I2c_Device
  imports Accel
begin

text \<open>
  \<open>src/i2ccmds.c\<close>: devices on an I2C bus. The bus of the board is an input of the state:
  \<open>i2c_answer past reg k\<close> is byte \<open>k\<close> of what a device answers to a read that begins with the bytes
  \<open>reg\<close>, after the hardware operations \<open>past\<close>.
\<close>

text \<open>\<open>struct i2c_config\<close>, here what \<open>i2c_setup\<close> was asked for.\<close>

record i2c_config =
  ic_bus :: u32
  ic_rate :: u32
  ic_addr :: u8

record i2cs = adxls +
  i2c_of :: "u8 \<Rightarrow> i2c_config"
  i2c_answer :: "hw_op list \<Rightarrow> u8 list \<Rightarrow> nat \<Rightarrow> u8"

definition i2c_write :: "i2c_config \<Rightarrow> u8 \<Rightarrow> u8 list \<Rightarrow> 'z i2cs_scheme \<Rightarrow> 'z i2cs_scheme" where
  "i2c_write c write_len data s = hw_do (I2c_write (ic_bus c) (ic_addr c) (take (unat write_len) data)) s"

definition i2c_read :: "i2c_config \<Rightarrow> u8 list \<Rightarrow> u8 \<Rightarrow> 'z i2cs_scheme \<Rightarrow> u8 list \<times> 'z i2cs_scheme" where
  "i2c_read c reg read_len s =
     (map (i2c_answer s (hw s) reg) [0..<unat read_len], hw_do (I2c_read (ic_bus c) (ic_addr c) reg (unat read_len)) s)"

definition command_config_i2c :: "nat \<Rightarrow> u32 list \<Rightarrow> 'z i2cs_scheme \<Rightarrow> (unit, 'z i2cs_scheme) outcome" where
  "command_config_i2c sizeof_i2cdev args s =
     (let addr = ucast (args ! 3 AND 0x7f) :: u8; oid = arg_oid args 0 in
      andThen (oid_alloc oid I2c_type sizeof_i2cdev s) (\<lambda>_ s.
        let s = hw_do (I2c_setup (args ! 1) (args ! 2) addr) s
        in Ret () (s\<lparr>i2c_of := (i2c_of s)(oid := \<lparr>ic_bus = args ! 1, ic_rate = args ! 2, ic_addr = addr\<rparr>)\<rparr>)))"

definition command_i2c_write :: "(u32 \<Rightarrow> u8) \<Rightarrow> u32 list \<Rightarrow> 'z i2cs_scheme \<Rightarrow> (unit, 'z i2cs_scheme) outcome" where
  "command_i2c_write mem args s =
     andThen (obj_lookup (arg_oid args 0) I2c_type s) (\<lambda>oid s.
       let data_len = ucast (args ! 1) :: u8
       in Ret () (i2c_write (i2c_of s oid) data_len (mem_bytes mem (args ! 2) (unat data_len)) s))"

definition command_i2c_read :: "(u32 \<Rightarrow> u8) \<Rightarrow> u32 list \<Rightarrow> 'z i2cs_scheme \<Rightarrow> (unit, 'z i2cs_scheme) outcome" where
  "command_i2c_read mem args s =
     andThen (obj_lookup (arg_oid args 0) I2c_type s) (\<lambda>oid s.
       let reg_len = ucast (args ! 1) :: u8; data_len = ucast (args ! 3) :: u8;
           (data, s) = i2c_read (i2c_of s oid) (mem_bytes mem (args ! 2) (unat reg_len)) data_len s
       in Ret () (command_sendf (Response_data ''i2c_read_response'' [ucast oid] data) s))"

text \<open>The length of the write is the sum of two lengths, in a byte.\<close>

definition command_i2c_modify_bits :: "(u32 \<Rightarrow> u8) \<Rightarrow> u32 list \<Rightarrow> 'z i2cs_scheme \<Rightarrow> (unit, 'z i2cs_scheme) outcome" where
  "command_i2c_modify_bits mem args s =
     andThen (obj_lookup (arg_oid args 0) I2c_type s) (\<lambda>oid s.
       let reg_len = ucast (args ! 1) :: u8;
           reg = mem_bytes mem (args ! 2) (unat reg_len);
           clear_set_len = args ! 3
       in andThen (shutdown_if (clear_set_len mod 2 \<noteq> 0) ''i2c_modify_bits: Odd number of bits!'' s) (\<lambda>_ s.
         let data_len = ucast (clear_set_len div 2) :: u8; n = unat data_len;
             clear_set = mem_bytes mem (args ! 4) (2 * n);
             (data, s) = i2c_read (i2c_of s oid) reg data_len s;
             data = map (\<lambda>i. (data ! i AND NOT (clear_set ! i)) OR clear_set ! (n + i)) [0..<n]
         in Ret () (i2c_write (i2c_of s oid) (reg_len + data_len) (reg @ data) s)))"

section \<open>Properties\<close>

lemma mem_bytes_nth: "i < n \<Longrightarrow> mem_bytes mem p n ! i = mem (p + of_nat i)"
  by (simp add: mem_bytes_def)

text \<open>
  C10: A change of bits writes back to the register exactly what the device answered, but with the
  bits to be set set, and those to be cleared and not set cleared, and no other bit changed; an odd
  number of bytes of masks is refused before the device is touched.
\<close>

theorem modify_bits_changes_named:
  assumes "obj_lookup (arg_oid args 0) I2c_type s = Ret oid s" "c = i2c_of s oid"
    and "reg_len = (ucast (args ! 1) :: u8)" "data_len = (ucast (args ! 3 div 2) :: u8)" "unat reg_len + unat data_len < 256"
    and "reg = mem_bytes mem (args ! 2) (unat reg_len)"
  shows "if args ! 3 mod 2 \<noteq> 0 then command_i2c_modify_bits mem args s = Shutdown ''i2c_modify_bits: Odd number of bits!'' s
    else \<exists>out s'. command_i2c_modify_bits mem args s = Ret () s' \<and>
      hw s' = hw s @ [I2c_read (ic_bus c) (ic_addr c) reg (unat data_len), I2c_write (ic_bus c) (ic_addr c) (reg @ out)] \<and>
      length out = unat data_len \<and>
      (\<forall>i < unat data_len. \<forall>b < 8.
         bit (out ! i) b = (bit (mem (args ! 4 + of_nat (unat data_len + i))) b \<or>
           bit (i2c_answer s (hw s) reg i) b \<and> \<not> bit (mem (args ! 4 + of_nat i)) b))"
proof (cases "args ! 3 mod 2 = 0")
  case False
  then show ?thesis by (simp add: command_i2c_modify_bits_def assms(1) Let_def shutdown_if_def sched_shutdown_def)
next
  case True
  define out where "out = map (\<lambda>i. (i2c_answer s (hw s) reg i AND NOT (mem (args ! 4 + of_nat i)))
      OR mem (args ! 4 + of_nat (unat data_len + i))) [0..<unat data_len]"
  have n: "unat (reg_len + data_len) = unat reg_len + unat data_len" using assms(5) by (subst unat_plus_if') simp
  have o: "map (\<lambda>i. (map (i2c_answer s (hw s) reg) [0..<unat data_len] ! i AND NOT (mem_bytes mem (args ! 4) (2 * unat data_len) ! i))
      OR mem_bytes mem (args ! 4) (2 * unat data_len) ! (unat data_len + i)) [0..<unat data_len] = out"
    unfolding out_def by (rule map_cong) (simp_all add: mem_bytes_nth)
  have "command_i2c_modify_bits mem args s =
      Ret () (i2c_write c (reg_len + data_len) (reg @ out) (hw_do (I2c_read (ic_bus c) (ic_addr c) reg (unat data_len)) s))"
  proof -
    have "\<not> args ! 3 mod 2 \<noteq> 0" "i2c_of (hw_do h s) = i2c_of s" for h using True by (simp_all add: hw_do_def)
    then show ?thesis
      by (simp only: command_i2c_modify_bits_def assms(1) andThen.simps Let_def shutdown_if_def if_False i2c_read_def prod.case
          assms(2-4) [symmetric] assms(6) [symmetric] o)
  qed
  moreover have "take (unat (reg_len + data_len)) (reg @ out) = reg @ out" by (simp add: n assms(6) out_def)
  ultimately have "\<exists>s'. command_i2c_modify_bits mem args s = Ret () s' \<and>
      hw s' = hw s @ [I2c_read (ic_bus c) (ic_addr c) reg (unat data_len), I2c_write (ic_bus c) (ic_addr c) (reg @ out)]"
    by (simp add: i2c_write_def)
  moreover have "length out = unat data_len" by (simp add: out_def)
  moreover have "bit (out ! i) b = (bit (mem (args ! 4 + of_nat (unat data_len + i))) b \<or>
           bit (i2c_answer s (hw s) reg i) b \<and> \<not> bit (mem (args ! 4 + of_nat i)) b)"
    if "i < unat data_len" "b < 8" for i b
    using that by (auto simp: out_def bit_or_iff bit_and_iff bit_not_iff)
  ultimately show ?thesis using True by auto
qed

definition i2cs1 :: i2cs where
  "i2cs1 = (adxls.extend adxls1
       \<lparr>i2c_of = (\<lambda>_. \<lparr>ic_bus = 1, ic_rate = 100000, ic_addr = 0x50\<rparr>), i2c_answer = (\<lambda>_ _ _. 0xff)\<rparr>)
     \<lparr>oids := Some [\<lparr>oid_type_of = Some I2c_type, oid_data = Some 0\<rparr>], oid_count := 1, hw := []\<rparr>"

definition mem1 :: "u32 \<Rightarrow> u8" where
  "mem1 p = (if p = 16 then 0x0f else if p = 17 then 0x08 else 0x05)"

theorem modify_bits_changes_named_witness:
  "\<exists>s' out. command_i2c_modify_bits mem1 [0, 1, 0, 2, 16] i2cs1 = Ret () s' \<and>
    hw s' = [I2c_read 1 0x50 [5] 1, I2c_write 1 0x50 (5 # out)] \<and> length out = 1 \<and>
    bit (out ! 0) 3 \<and> \<not> bit (out ! 0) 0"
proof -
  have l: "obj_lookup (arg_oid [0, 1, 0, 2, 16] 0) I2c_type i2cs1 = Ret 0 i2cs1"
    by (simp add: i2cs1_def obj_lookup_def oid_lookup_def oid_at_def arg_oid_def)
  have f: "hw i2cs1 = []" "i2c_of i2cs1 = (\<lambda>_. \<lparr>ic_bus = 1, ic_rate = 100000, ic_addr = 0x50\<rparr>)"
    by (simp_all add: i2cs1_def adxls.defs)
  have m: "mem_bytes mem1 0 (Suc 0) = [5]" "mem1 17 = 0x08" "mem1 16 = 0x0f" by (simp_all add: mem_bytes_def mem1_def)
  have b: "bit (0x08 :: u8) 3" "\<not> bit (0x08 :: u8) 0" "bit (0x0f :: u8) 0" by code_simp+
  show ?thesis
    using modify_bits_changes_named [OF l refl refl refl _ refl, of mem1] by (auto simp: f m b)
qed

end
