(* ===== verification/Canbus.thy ===== *)
theory Canbus
  imports I2c_Device
begin

text \<open>
  \<open>src/generic/canbus.c\<close>: the console over a CAN bus instead of a serial line, and the protocol by which
  the host gives every micro-controller an id of its own. The buffers are those of Console.
\<close>

section \<open>State\<close>

definition CANBUS_ID_ADMIN :: u32 where "CANBUS_ID_ADMIN = 0x3f0"
definition CANBUS_ID_ADMIN_RESP :: u32 where "CANBUS_ID_ADMIN_RESP = 0x3f1"
definition CANBUS_UUID_LEN :: nat where "CANBUS_UUID_LEN = 6"
definition CANBUS_CMD_QUERY_UNASSIGNED :: u8 where "CANBUS_CMD_QUERY_UNASSIGNED = 0"
definition CANBUS_CMD_SET_NODEID :: u8 where "CANBUS_CMD_SET_NODEID = 1"
definition CANBUS_RESP_NEED_NODEID :: u8 where "CANBUS_RESP_NEED_NODEID = 0x20"

text \<open>
  The board's \<open>canbus_send\<close> is an input: \<open>can_accepts k\<close> says whether call number \<open>k\<close> finds a free
  mailbox, and \<open>can_calls\<close> counts the calls. What was accepted is in \<open>hw\<close>.
\<close>

record canbus = i2cs +
  canbus_assigned_id :: u32
  canbus_uuid :: "u8 list"
  can_accepts :: "nat \<Rightarrow> bool"
  can_calls :: nat

definition canbus_tx_wake :: string where "canbus_tx_wake = ''canbus_tx_wake''"
definition canbus_rx_wake :: string where "canbus_rx_wake = ''canbus_rx_wake''"

definition canbus_send :: "u32 \<Rightarrow> u8 list \<Rightarrow> 'z canbus_scheme \<Rightarrow> int \<times> 'z canbus_scheme" where
  "canbus_send cid data s =
     (let free = can_accepts s (can_calls s); s = s\<lparr>can_calls := can_calls s + 1\<rparr> in
      if free then (int (length data), hw_do (Can_send cid data) s) else (-1, s))"

definition canbus_set_filter :: "u32 \<Rightarrow> 'z canbus_scheme \<Rightarrow> 'z canbus_scheme" where
  "canbus_set_filter cid s = hw_do (Can_set_filter cid) s"

section \<open>Transmission\<close>

definition canbus_notify_tx :: "'z canbus_scheme \<Rightarrow> 'z canbus_scheme" where
  "canbus_notify_tx s = sched_wake_task canbus_tx_wake s"

function can_tx_loop :: "u32 \<Rightarrow> nat \<Rightarrow> nat \<Rightarrow> 'z canbus_scheme \<Rightarrow> nat \<times> 'z canbus_scheme" where
  "can_tx_loop cid tpos tmax s =
     (let avail = int tmax - int tpos; now = (if avail > 8 then 8 else nat avail) in
      if avail \<le> 0 then (tpos, s)
      else
        let (ret, s) = canbus_send (cid + 1) (take now (drop tpos (transmit_buf s))) s in
        if ret \<le> 0 then (tpos, s) else can_tx_loop cid (tpos + now) tmax s)"
  by pat_completeness auto
termination by (relation "measure (\<lambda>(cid, tpos, tmax, s). tmax - tpos)") auto

declare can_tx_loop.simps [simp del]

definition canbus_tx_task :: "'z canbus_scheme \<Rightarrow> 'z canbus_scheme" where
  "canbus_tx_task s =
     (let (w, s) = sched_check_wake canbus_tx_wake s; cid = canbus_assigned_id s in
      if \<not> w then s
      else if cid = 0 then s\<lparr>transmit_pos := 0, transmit_max := 0\<rparr>
      else let (tpos, s) = can_tx_loop cid (transmit_pos s) (transmit_max s) s in s\<lparr>transmit_pos := tpos\<rparr>)"

definition can_console_sendf ::
    "nat \<Rightarrow> command_encoder \<Rightarrow> send_arg list \<Rightarrow> 'z canbus_scheme \<Rightarrow> (unit, 'z canbus_scheme) outcome" where
  "can_console_sendf sizeof_int ce args s =
     (let s = (if transmit_pos s \<ge> transmit_max s then s\<lparr>transmit_pos := 0, transmit_max := 0\<rparr> else s);
          tpos = transmit_pos s; tmax = transmit_max s; max_size = ce_max_size ce
      in if tmax + max_size > TX_BUFFER_SIZE \<and> tmax + max_size - tpos > TX_BUFFER_SIZE then Ret () s
         else
           let s = (if tmax + max_size > TX_BUFFER_SIZE
                    then s\<lparr>transmit_buf := memmove 0 tpos (tmax - tpos) (transmit_buf s),
                           transmit_pos := 0, transmit_max := tmax - tpos\<rparr>
                    else s);
               tmax = transmit_max s
           in andThen (command_encode_and_frame sizeof_int ce args s)
                (\<lambda>b s.
                   if tmax + length b > TX_BUFFER_SIZE then Fault
                   else Ret () (canbus_notify_tx
                     (s\<lparr>transmit_buf := take tmax (transmit_buf s) @ b @ drop (tmax + length b) (transmit_buf s),
                        transmit_max := tmax + length b\<rparr>))))"

section \<open>The ids of the nodes\<close>

definition can_check_uuid :: "u8 list \<Rightarrow> 'z canbus_scheme \<Rightarrow> bool" where
  "can_check_uuid data s \<longleftrightarrow> length data \<ge> 7 \<and> take CANBUS_UUID_LEN (drop 1 data) = canbus_uuid s"

definition can_get_nodeid :: "'z canbus_scheme \<Rightarrow> u32" where
  "can_get_nodeid s = (if canbus_assigned_id s = 0 then 0 else drop_bit 1 (canbus_assigned_id s - 0x100))"

definition can_decode_nodeid :: "u8 \<Rightarrow> u32" where
  "can_decode_nodeid nodeid = push_bit 1 (ucast nodeid) + 0x100"

text \<open>\<open>Send with retry\<close>; a bus that is never free never returns.\<close>

partial_function (option) can_send_retry ::
    "u32 \<Rightarrow> u8 list \<Rightarrow> 'z canbus_scheme \<Rightarrow> (unit, 'z canbus_scheme) outcome option" where
  "can_send_retry cid data s =
     (case canbus_send cid data s of (ret, s) \<Rightarrow> if ret \<ge> 0 then Some (Ret () s) else can_send_retry cid data s)"

definition can_process_query_unassigned ::
    "'z canbus_scheme \<Rightarrow> (unit, 'z canbus_scheme) outcome option" where
  "can_process_query_unassigned s =
     (if canbus_assigned_id s \<noteq> 0 then Some (Ret () s)
      else can_send_retry CANBUS_ID_ADMIN_RESP (CANBUS_RESP_NEED_NODEID # canbus_uuid s) s)"

definition can_id_conflict :: "'z canbus_scheme \<Rightarrow> (unit, 'z canbus_scheme) outcome" where
  "can_id_conflict s =
     (let s = canbus_set_filter 0 (s\<lparr>canbus_assigned_id := 0\<rparr>)
      in sched_shutdown ''Another CAN node assigned this ID'' s)"

definition can_process_set_nodeid :: "u8 list \<Rightarrow> 'z canbus_scheme \<Rightarrow> (unit, 'z canbus_scheme) outcome" where
  "can_process_set_nodeid data s =
     (if length data < 8 then Ret () s
      else
        let newid = can_decode_nodeid (data ! 7) in
        if can_check_uuid data s then
          Ret () (if newid \<noteq> canbus_assigned_id s then canbus_set_filter newid (s\<lparr>canbus_assigned_id := newid\<rparr>) else s)
        else if newid = canbus_assigned_id s then can_id_conflict s
        else Ret () s)"

definition can_process :: "u8 list \<Rightarrow> 'z canbus_scheme \<Rightarrow> (unit, 'z canbus_scheme) outcome option" where
  "can_process data s =
     (if data = [] then Some (Ret () s)
      else if data ! 0 = CANBUS_CMD_QUERY_UNASSIGNED then can_process_query_unassigned s
      else if data ! 0 = CANBUS_CMD_SET_NODEID then Some (can_process_set_nodeid data s)
      else Some (Ret () s))"

section \<open>Reception\<close>

definition canbus_notify_rx :: "'z canbus_scheme \<Rightarrow> 'z canbus_scheme" where
  "canbus_notify_rx s = sched_wake_task canbus_rx_wake s"

text \<open>Called from the interrupt.\<close>

definition canbus_process_data :: "u32 \<times> u8 list \<Rightarrow> 'z canbus_scheme \<Rightarrow> 'z canbus_scheme" where
  "canbus_process_data frame s =
     (case frame of (cid, data) \<Rightarrow>
        if cid = 0 \<or> cid \<noteq> canbus_assigned_id s then s
        else
          let rpos = receive_pos s; data = take (RX_BUFFER_SIZE - rpos) data in
          canbus_notify_rx
            (s\<lparr>receive_buf := take rpos (receive_buf s) @ data @ drop (rpos + length data) (receive_buf s),
               receive_pos := rpos + length data\<rparr>))"

text \<open>
  \<open>console_pop_input\<close> with the frames that the interrupt receives in each round of its loop; a round in
  which nothing is stored is the last.
\<close>

fun can_pop_loop :: "nat \<Rightarrow> nat \<Rightarrow> (u32 \<times> u8 list) list list \<Rightarrow> 'z canbus_scheme \<Rightarrow> 'z canbus_scheme" where
  "can_pop_loop len copied irqs s =
     (let rpos = receive_pos s; needcopy = rpos - len;
          (s, copied) =
            (if needcopy \<noteq> 0 then
               (canbus_notify_rx
                  (s\<lparr>receive_buf := memmove copied (copied + len) (needcopy - copied) (receive_buf s)\<rparr>), needcopy)
             else (s, copied))
      in case irqs of
           [] \<Rightarrow> s\<lparr>receive_pos := needcopy\<rparr>
         | fs # irqs' \<Rightarrow>
             let s = foldl (\<lambda>s f. canbus_process_data f s) s fs in
             if rpos \<noteq> receive_pos s then can_pop_loop len copied irqs' s else s\<lparr>receive_pos := needcopy\<rparr>)"

declare can_pop_loop.simps [simp del]

definition can_console_pop_input :: "nat \<Rightarrow> (u32 \<times> u8 list) list list \<Rightarrow> 'z canbus_scheme \<Rightarrow> 'z canbus_scheme" where
  "can_console_pop_input len irqs s = can_pop_loop len 0 irqs s"

text \<open>The loop over what \<open>canbus_read\<close> returns.\<close>

fun can_read_loop :: "(u32 \<times> u8 list) list \<Rightarrow> 'z canbus_scheme \<Rightarrow> (unit, 'z canbus_scheme) outcome option" where
  "can_read_loop [] s = Some (Ret () s)"
| "can_read_loop ((cid, data) # fs) s =
     (case (if cid \<noteq> 0 \<and> cid = canbus_assigned_id s + 1 then Some (can_id_conflict s)
            else if cid = CANBUS_ID_ADMIN then can_process data s else Some (Ret () s)) of
        None \<Rightarrow> None
      | Some (Ret _ s) \<Rightarrow> can_read_loop fs s
      | Some (Shutdown r s) \<Rightarrow> Some (Shutdown r s)
      | Some Fault \<Rightarrow> Some Fault)"

definition canbus_rx_task ::
    "(nat \<Rightarrow> u32) \<Rightarrow> 'z canbus_scheme command_parser list \<Rightarrow> (u32 \<times> u8 list) list \<Rightarrow> (u32 \<times> u8 list) list list
       \<Rightarrow> 'z canbus_scheme \<Rightarrow> (unit, 'z canbus_scheme) outcome option" where
  "canbus_rx_task enc_ptr command_index frames irqs s =
     (let (w, s) = sched_check_wake canbus_rx_wake s in
      if \<not> w then Some (Ret () s)
      else map_option (\<lambda>m. andThen m (\<lambda>_ s.
        let buf = receive_buf s;
            (ret, pop_count, s) = command_find_block (take (receive_pos s) buf) s
        in andThen (if ret > 0 then command_dispatch enc_ptr command_index buf pop_count s else Ret () s)
             (\<lambda>_ s.
                if ret \<noteq> 0 then
                  let s = can_console_pop_input pop_count irqs s
                  in Ret () (if ret > 0 then command_send_ack s else s)
                else Ret () s)))
        (can_read_loop frames s))"

section \<open>Setup and shutdown\<close>

text \<open>The uuid is the data of the report, the id its number.\<close>

definition command_get_canbus_id :: "u32 list \<Rightarrow> 'z canbus_scheme \<Rightarrow> (unit, 'z canbus_scheme) outcome" where
  "command_get_canbus_id args s =
     Ret () (command_sendf (Response_data ''canbus_id'' [can_get_nodeid s] (canbus_uuid s)) s)"

definition canbus_set_uuid :: "u8 list \<Rightarrow> 'z canbus_scheme \<Rightarrow> 'z canbus_scheme" where
  "canbus_set_uuid uuid s = canbus_notify_rx (s\<lparr>canbus_uuid := take CANBUS_UUID_LEN uuid\<rparr>)"

definition canbus_shutdown :: "'z canbus_scheme \<Rightarrow> (unit, 'z canbus_scheme) outcome" where
  "canbus_shutdown s = Ret () (canbus_notify_rx (canbus_notify_tx s))"

section \<open>Properties\<close>

lemma can_fields [simp]:
  "canbus_assigned_id (hw_do h s) = canbus_assigned_id s" "canbus_uuid (hw_do h s) = canbus_uuid s"
  "transmit_buf (hw_do h s) = transmit_buf s" "transmit_pos (hw_do h s) = transmit_pos s" "transmit_max (hw_do h s) = transmit_max s"
  "can_accepts (hw_do h s) = can_accepts s" "can_calls (hw_do h s) = can_calls s"
  by (simp_all add: hw_do_def)

text \<open>The frames that \<open>can_tx_loop\<close> sends: all of eight bytes but the last.\<close>

definition full_frames :: "u8 list list \<Rightarrow> bool" where
  "full_frames fs \<longleftrightarrow> (\<forall>f \<in> set fs. f \<noteq> [] \<and> length f \<le> 8) \<and> (\<forall>f \<in> set (butlast fs). length f = 8)"

lemma tx_loop_sends:
  assumes "tpos \<le> tmax" "tmax \<le> length (transmit_buf s)" "can_tx_loop cid tpos tmax s = (tpos', s')"
  shows "\<exists>fs. hw s' = hw s @ map (Can_send (cid + 1)) fs \<and> full_frames fs \<and> tpos \<le> tpos' \<and> tpos' \<le> tmax \<and>
    concat fs = take (tpos' - tpos) (drop tpos (transmit_buf s)) \<and>
    transmit_buf s' = transmit_buf s \<and> transmit_max s' = transmit_max s \<and>
    ((\<forall>k. can_accepts s k) \<longrightarrow> tpos' = tmax)"
  using assms
proof (induction cid tpos tmax s arbitrary: tpos' s' rule: can_tx_loop.induct)
  case (1 cid tpos tmax s)
  let ?now = "if int tmax - int tpos > 8 then 8 else nat (int tmax - int tpos)"
  let ?f = "take ?now (drop tpos (transmit_buf s))"
  show ?case
  proof (cases "tpos < tmax")
    case False
    then have "(tpos', s') = (tpos, s)" using 1(4) by (subst (asm) can_tx_loop.simps) simp
    then show ?thesis using False 1(2) by (intro exI [of _ "[]"]) (auto simp: full_frames_def)
  next
    case t: True
    have now: "0 < ?now" "?now \<le> 8" "tpos + ?now \<le> tmax" "?now = 8 \<or> tpos + ?now = tmax" using t by auto
    show ?thesis
    proof (cases "can_accepts s (can_calls s)")
      case False
      then have "tpos' = tpos" "hw s' = hw s" "transmit_buf s' = transmit_buf s" "transmit_max s' = transmit_max s"
        using 1(4) t by (subst (asm) can_tx_loop.simps, auto simp: canbus_send_def Let_def)+
      then show ?thesis using False 1(2) by (intro exI [of _ "[]"]) (auto simp: full_frames_def)
    next
      case True
      define u where "u = hw_do (Can_send (cid + 1) ?f) (s\<lparr>can_calls := can_calls s + 1\<rparr>)"
      have len: "length ?f = ?now" using now 1(3) by simp
      have send: "canbus_send (cid + 1) ?f s = (int ?now, u)" using True len by (simp add: canbus_send_def Let_def u_def)
      have loop: "can_tx_loop cid tpos tmax s = can_tx_loop cid (tpos + ?now) tmax u"
        using t now(1) send by (subst can_tx_loop.simps) (simp add: Let_def del: of_nat_add)
      obtain fs where fs: "hw s' = hw u @ map (Can_send (cid + 1)) fs" "full_frames fs" "tpos + ?now \<le> tpos'" "tpos' \<le> tmax"
        "concat fs = take (tpos' - (tpos + ?now)) (drop (tpos + ?now) (transmit_buf u))"
        "transmit_buf s' = transmit_buf u" "transmit_max s' = transmit_max u" "(\<forall>k. can_accepts u k) \<longrightarrow> tpos' = tmax"
        using 1(1) [OF refl refl _ send [symmetric] refl _ _ _ 1(4) [unfolded loop]] t now 1(3) by (auto simp: u_def)
      have "concat (?f # fs) = take (tpos' - tpos) (drop tpos (transmit_buf s))"
      proof -
        have "take (tpos' - tpos) (drop tpos (transmit_buf s)) =
            take ?now (drop tpos (transmit_buf s)) @ take (tpos' - (tpos + ?now)) (drop (tpos + ?now) (transmit_buf s))"
          using fs(3) take_add [of ?now "tpos' - (tpos + ?now)" "drop tpos (transmit_buf s)"] by (simp add: add.commute)
        then show ?thesis using fs(5) by (simp add: u_def)
      qed
      moreover have "full_frames (?f # fs)"
      proof -
        have "fs = [] \<or> length ?f = 8" using now(4) len fs(3-5) fs(2)
          by (cases fs) (auto simp: full_frames_def)
        then show ?thesis using fs(2) len now by (auto simp: full_frames_def)
      qed
      ultimately show ?thesis using fs now by (intro exI [of _ "?f # fs"]) (simp add: u_def hw_do_def)
    qed
  qed
qed

text \<open>
  C7: Responses leave over the bus in order and without loss: a run of the task sends a prefix of the
  bytes that wait, in frames of eight bytes but for the last, under the id next to the one assigned,
  and keeps the rest; while the bus accepts every frame, nothing is left.
\<close>

theorem canbus_tx_task_sends:
  assumes "task_wake s canbus_tx_wake" "canbus_assigned_id s \<noteq> 0" "console_ok s"
  shows "\<exists>fs. hw (canbus_tx_task s) = hw s @ map (Can_send (canbus_assigned_id s + 1)) fs \<and> full_frames fs \<and>
    queued s = concat fs @ queued (canbus_tx_task s) \<and>
    ((\<forall>k. can_accepts s k) \<longrightarrow> queued (canbus_tx_task s) = [])"
proof -
  obtain u where w: "sched_check_wake canbus_tx_wake s = (True, u)"
    and u: "transmit_pos u = transmit_pos s" "transmit_max u = transmit_max s" "transmit_buf u = transmit_buf s" "hw u = hw s"
      "canbus_assigned_id u = canbus_assigned_id s" "can_accepts u = can_accepts s"
    using assms(1) by (simp add: sched_check_wake_def Let_def)
  obtain tpos v where l: "can_tx_loop (canbus_assigned_id s) (transmit_pos s) (transmit_max s) u = (tpos, v)"
    by (cases "can_tx_loop (canbus_assigned_id s) (transmit_pos s) (transmit_max s) u")
  have b: "transmit_pos s \<le> transmit_max s" "transmit_max s \<le> length (transmit_buf u)"
    using assms(3) by (simp_all add: console_ok_def u)
  obtain fs where fs: "hw v = hw u @ map (Can_send (canbus_assigned_id s + 1)) fs" "full_frames fs" "transmit_pos s \<le> tpos"
    "tpos \<le> transmit_max s" "concat fs = take (tpos - transmit_pos s) (drop (transmit_pos s) (transmit_buf u))"
    "transmit_buf v = transmit_buf u" "transmit_max v = transmit_max u" "(\<forall>k. can_accepts u k) \<longrightarrow> tpos = transmit_max s"
    using tx_loop_sends [OF b l] by auto
  have t: "canbus_tx_task s = v\<lparr>transmit_pos := tpos\<rparr>"
    using assms(2) by (simp add: canbus_tx_task_def w Let_def u l)
  have "queued s = concat fs @ queued (canbus_tx_task s)"
    using fs(3,4) take_add [of "tpos - transmit_pos s" "transmit_max s - tpos" "drop (transmit_pos s) (transmit_buf s)"]
    by (simp add: queued_def t fs(5-7) u)
  then show ?thesis using fs(1,2,8) by (intro exI [of _ fs]) (auto simp: t u queued_def fs(7))
qed

text \<open>The state of a node behind an assignment that all nodes on the bus receive.\<close>

definition node_after :: "u8 list \<Rightarrow> 'z canbus_scheme \<Rightarrow> 'z canbus_scheme" where
  "node_after data s =
     (case can_process_set_nodeid data s of Ret _ u \<Rightarrow> u | Shutdown _ u \<Rightarrow> u | Fault \<Rightarrow> s)"

definition bus_after :: "u8 list list \<Rightarrow> 'z canbus_scheme list \<Rightarrow> 'z canbus_scheme list" where
  "bus_after msgs ns = foldl (\<lambda>ns data. map (node_after data) ns) ns msgs"

definition ids_unique :: "'z canbus_scheme list \<Rightarrow> bool" where
  "ids_unique ns \<longleftrightarrow> distinct (filter (\<lambda>i. i \<noteq> 0) (map canbus_assigned_id ns))"

lemma node_after_fields:
  "canbus_uuid (node_after data s) = canbus_uuid s"
  "canbus_assigned_id (node_after data s) =
     (if length data < 8 then canbus_assigned_id s
      else if can_check_uuid data s then can_decode_nodeid (data ! 7)
      else if can_decode_nodeid (data ! 7) = canbus_assigned_id s then 0 else canbus_assigned_id s)"
  by (simp_all add: node_after_def can_process_set_nodeid_def can_id_conflict_def sched_shutdown_def canbus_set_filter_def Let_def)

lemma nobody_takes:
  assumes "\<forall>s \<in> set ns. \<not> can_check_uuid data s" "8 \<le> length data" "can_decode_nodeid (data ! 7) \<noteq> 0"
  shows "can_decode_nodeid (data ! 7) \<notin> set (map canbus_assigned_id (map (node_after data) ns))"
  using assms by (auto simp: node_after_fields)

lemma decoded_id_not_0: "can_decode_nodeid n \<noteq> 0"
  by (rule all_u8 [of "\<lambda>n. can_decode_nodeid n \<noteq> 0"]) code_simp

lemma assignment_keeps_unique:
  assumes "distinct (map canbus_uuid ns)" "ids_unique ns"
  shows "ids_unique (map (node_after data) ns)"
proof (cases "length data < 8")
  case True
  then show ?thesis using assms(2) by (simp add: ids_unique_def node_after_fields comp_def)
next
  case False
  let ?new = "can_decode_nodeid (data ! 7)"
  show ?thesis using assms
  proof (induction ns)
    case (Cons s ns)
    let ?rest = "map canbus_assigned_id (map (node_after data) ns)"
    have IH: "distinct (filter (\<lambda>i. i \<noteq> 0) ?rest)"
      using Cons.IH Cons.prems by (simp add: ids_unique_def split: if_splits)
    have sub: "set ?rest \<subseteq> insert 0 (insert ?new (set (map canbus_assigned_id ns)))"
      by (auto simp: node_after_fields)
    show ?case
    proof (cases "can_check_uuid data s")
      case True
      then have "\<forall>t \<in> set ns. \<not> can_check_uuid data t"
        using Cons.prems(1) by (auto simp: can_check_uuid_def)
      then have "?new \<notin> set ?rest" using nobody_takes False decoded_id_not_0 by (metis not_less)
      then show ?thesis using IH True False by (simp add: ids_unique_def node_after_fields)
    next
      case nc: False
      show ?thesis
      proof (cases "?new = canbus_assigned_id s \<or> canbus_assigned_id s = 0")
        case True
        then show ?thesis using IH nc False by (auto simp: ids_unique_def node_after_fields)
      next
        case keep: False
        then have "canbus_assigned_id s \<notin> set (map canbus_assigned_id ns)"
          using Cons.prems(2) by (auto simp: ids_unique_def)
        then have "canbus_assigned_id s \<notin> set ?rest" using sub keep by auto
        then show ?thesis using IH nc False keep by (simp add: ids_unique_def node_after_fields)
      qed
    qed
  qed (simp add: ids_unique_def)
qed

text \<open>
  C6: No two nodes on the bus ever own the same id: whatever assignments the host sends, in whatever
  order, the ids of all nodes, other than 0 for none, stay distinct, since a node that sees its id given
  to another one gives it up and shuts down. The nodes have different uuids, and each assignment is
  received by all of them.
\<close>

theorem can_ids_stay_unique:
  assumes "distinct (map canbus_uuid ns)" "ids_unique ns"
  shows "ids_unique (bus_after msgs ns)"
  using assms
proof (induction msgs arbitrary: ns)
  case (Cons data msgs)
  have "map canbus_uuid (map (node_after data) ns) = map canbus_uuid ns" by (simp add: node_after_fields)
  moreover have "bus_after (data # msgs) ns = bus_after msgs (map (node_after data) ns)" by (simp add: bus_after_def)
  ultimately show ?case using Cons.IH [of "map (node_after data) ns"] assignment_keeps_unique [OF Cons.prems] Cons.prems(1)
    by (simp only:)
qed (simp add: bus_after_def)

lemma i2cs1_start:
  "transmit_buf i2cs1 = replicate TX_BUFFER_SIZE 0" "transmit_pos i2cs1 = 0" "transmit_max i2cs1 = 0" "hw i2cs1 = []"
  "receive_buf i2cs1 = replicate RX_BUFFER_SIZE 0" "receive_pos i2cs1 = 0"
  by (simp_all add: i2cs1_def adxls.defs adxls1_def thermocouples.defs spis.defs spis_init_def tmcuarts_init_def
      tmcuarts.defs counters.defs buttonss1_defs)

definition can_node :: "u8 \<Rightarrow> u32 \<Rightarrow> canbus" where
  "can_node k cid = i2cs.extend i2cs1
     \<lparr>canbus_assigned_id = cid, canbus_uuid = replicate 6 k, can_accepts = (\<lambda>_. True), can_calls = 0\<rparr>"

lemma can_node_fields:
  "canbus_assigned_id (can_node k cid) = cid" "canbus_uuid (can_node k cid) = replicate 6 k"
  "transmit_buf (can_node k cid) = replicate TX_BUFFER_SIZE 0" "hw (can_node k cid) = []" "can_accepts (can_node k cid) = (\<lambda>_. True)"
  "console_ok (can_node k cid)"
  by (simp_all add: can_node_def i2cs1_start i2cs.defs console_ok_def)

theorem can_ids_stay_unique_witness:
  "ids_unique (bus_after [[1, 2, 2, 2, 2, 2, 2, 5]] [can_node 1 266, can_node 2 0])"
  by (rule can_ids_stay_unique) (simp_all add: can_node_fields ids_unique_def numeral_eq_Suc)

theorem canbus_tx_task_sends_witness:
  "\<exists>fs. hw (canbus_tx_task ((can_node 1 266)\<lparr>task_wake := (\<lambda>_. True), transmit_max := 10\<rparr>)) = map (Can_send 267) fs \<and>
    concat fs = replicate 10 0"
proof -
  let ?s = "(can_node 1 266)\<lparr>task_wake := (\<lambda>_. True), transmit_max := 10\<rparr>"
  have "transmit_pos (can_node 1 266) = 0" by (simp add: can_node_def i2cs1_start i2cs.defs)
  then have "console_ok ?s" "queued ?s = replicate 10 0"
    using can_node_fields(6) [of 1 266] by (simp_all add: console_ok_def TX_BUFFER_SIZE_def queued_def can_node_fields)
  then show ?thesis
    using canbus_tx_task_sends [of ?s] by (auto simp: can_node_fields)
qed

end
