(* ===== verification/Main_Loop.thy ===== *)
theory Main_Loop
  imports Canbus
begin

text \<open>
  What runs on the processor: the timer interrupt of \<open>generic/timer_irq.c\<close> around
  \<open>sched_timer_dispatch\<close>, and the loop \<open>run_tasks\<close> of \<open>sched.c\<close> with its sleep and the tasks of the
  components. Two questions are answered here: whether a task that was woken can be forgotten, and
  whether the timer interrupt can keep the tasks from running.
\<close>

section \<open>The timer interrupt\<close>

definition TIMER_IDLE_REPEAT_TICKS :: "'z sched_scheme \<Rightarrow> u32" where
  "TIMER_IDLE_REPEAT_TICKS s = timer_from_us s 500"
definition TIMER_REPEAT_TICKS :: "'z sched_scheme \<Rightarrow> u32" where
  "TIMER_REPEAT_TICKS s = timer_from_us s 100"
definition TIMER_MIN_TRY_TICKS :: "'z sched_scheme \<Rightarrow> u32" where
  "TIMER_MIN_TRY_TICKS s = timer_from_us s 2"
definition TIMER_DEFER_REPEAT_TICKS :: "'z sched_scheme \<Rightarrow> u32" where
  "TIMER_DEFER_REPEAT_TICKS s = timer_from_us s 5"

text \<open>
  The clock is the sequence of its readings; \<open>i\<close> is the number of the next one. The loop that waits
  for a timer returns the number of the reading behind it. The other interrupts that it lets in are not
  modelled.
\<close>

partial_function (option) wait_for :: "(nat \<Rightarrow> u32) \<Rightarrow> u32 \<Rightarrow> int \<Rightarrow> nat \<Rightarrow> nat option" where
  "wait_for clk next_time diff i =
     (if diff > 0 then wait_for clk next_time (sint (next_time - clk i)) (i + 1) else Some i)"

text \<open>
  \<open>timer_dispatch_many\<close>; \<open>dispatch\<close> is \<open>sched_timer_dispatch\<close>, which sees the reading before it. \<open>None\<close>
  is a loop that does not end.
\<close>

partial_function (option) timer_dispatch_loop ::
    "('z sched_scheme \<Rightarrow> (u32, 'z sched_scheme) outcome) \<Rightarrow> (nat \<Rightarrow> u32) \<Rightarrow> u32 \<Rightarrow> nat
       \<Rightarrow> 'z sched_scheme \<Rightarrow> (u32, 'z sched_scheme) outcome option" where
  "timer_dispatch_loop dispatch clk tru i s =
     (case dispatch (s\<lparr>timer_read_time := clk i\<rparr>) of
        Shutdown r s \<Rightarrow> Some (Shutdown r s)
      | Fault \<Rightarrow> Some Fault
      | Ret next_time s \<Rightarrow>
          (let now = clk (i + 1); diff = sint (next_time - now) in
           if diff > sint (TIMER_MIN_TRY_TICKS s) then Some (Ret next_time s)
           else if timer_is_before tru now then
             (case (if diff < sint (- timer_from_us s 1000)
                    then sched_try_shutdown ''Rescheduled timer in the past'' s else Ret () s) of
                Shutdown r s \<Rightarrow> Some (Shutdown r s)
              | Fault \<Rightarrow> Some Fault
              | Ret _ s \<Rightarrow>
                  if sched_tasks_busy s then
                    Some (Ret (now + TIMER_DEFER_REPEAT_TICKS s)
                      (s\<lparr>timer_repeat_until := now + TIMER_REPEAT_TICKS s\<rparr>))
                  else
                    (let tru = now + TIMER_IDLE_REPEAT_TICKS s; s = s\<lparr>timer_repeat_until := tru\<rparr> in
                     Option.bind (wait_for clk next_time diff (i + 2))
                       (\<lambda>i. timer_dispatch_loop dispatch clk tru i s)))
           else Option.bind (wait_for clk next_time diff (i + 2))
                  (\<lambda>i. timer_dispatch_loop dispatch clk tru i s)))"

definition timer_dispatch_many ::
    "('z sched_scheme \<Rightarrow> (u32, 'z sched_scheme) outcome) \<Rightarrow> (nat \<Rightarrow> u32) \<Rightarrow> nat
       \<Rightarrow> 'z sched_scheme \<Rightarrow> (u32, 'z sched_scheme) outcome option" where
  "timer_dispatch_many dispatch clk i s = timer_dispatch_loop dispatch clk (timer_repeat_until s) i s"


section \<open>The main loop\<close>

text \<open>
  \<open>irq k\<close> is what the interrupts do at the \<open>k\<close>th place where they are let in, which includes the
  passing of time. \<open>sleep\<close> is the loop around \<open>irq_wait\<close>; it returns the number of the next place.
\<close>

type_synonym 's interrupts = "nat \<Rightarrow> 's \<Rightarrow> (unit, 's) outcome"

partial_function (option) sleep ::
    "'z sched_scheme interrupts \<Rightarrow> nat \<Rightarrow> 'z sched_scheme \<Rightarrow> (nat, 'z sched_scheme) outcome option" where
  "sleep irq k s =
     (case irq k s of
        Shutdown r s \<Rightarrow> Some (Shutdown r s)
      | Fault \<Rightarrow> Some Fault
      | Ret _ s \<Rightarrow> if tasks_status s \<noteq> TS_REQUESTED then sleep irq (k + 1) s else Some (Ret (k + 1) s))"


text \<open>
  \<open>Check if can sleep\<close>: the value is the new \<open>start\<close> and the number of the next place. Interrupts
  also come between the check and \<open>irq_disable\<close>.
\<close>

definition check_sleep ::
    "'z sched_scheme interrupts \<Rightarrow> u32 \<Rightarrow> nat \<Rightarrow> 'z sched_scheme \<Rightarrow> (u32 \<times> nat, 'z sched_scheme) outcome option" where
  "check_sleep irq start k s =
     (if tasks_status s = TS_REQUESTED then Some (Ret (start, k) s)
      else let start = start - timer_read_time s in
        case irq k s of
          Shutdown r s \<Rightarrow> Some (Shutdown r s)
        | Fault \<Rightarrow> Some Fault
        | Ret _ s \<Rightarrow>
            map_option (\<lambda>m. andThen m (\<lambda>k s. Ret (start + timer_read_time s, k) s))
              (if tasks_status s \<noteq> TS_REQUESTED then sleep irq (k + 1) (s\<lparr>tasks_status := TS_IDLE\<rparr>)
               else Some (Ret (k + 1) s)))"








section \<open>Tasks\<close>

text \<open>
  What a task, a handler or an interrupt may do: nothing to the flags, or wake tasks and with them the
  main loop.
\<close>

definition wakes_kept :: "'z sched_scheme \<Rightarrow> 'z sched_scheme \<Rightarrow> bool" where
  "wakes_kept s s' \<longleftrightarrow>
     tasks_status s' = TS_REQUESTED \<or> (tasks_status s' = tasks_status s \<and> (\<forall>w. task_wake s' w \<longrightarrow> task_wake s w))"

lemma wakes_kept_refl [simp]: "wakes_kept s s"
  by (simp add: wakes_kept_def)


lemma wakes_kept_requested [simp]:
  "wakes_kept s (sched_wake_task w u)" "wakes_kept s (sched_wake_tasks u)"
  by (simp_all add: wakes_kept_def sched_wake_task_def sched_wake_tasks_def)

text \<open>The flags and the status.\<close>

definition wake_view :: "'z sched_scheme \<Rightarrow> (string \<Rightarrow> bool) \<times> int" where
  "wake_view s = (task_wake s, tasks_status s)"



lemma wake_view_frame [simp]:
  "wake_view (command_sendf r s) = wake_view s"
  "wake_view (hw_do h s) = wake_view s"
  "wake_view (upd_ts oid f1 s1) = wake_view s1"
  "wake_view (upd_ai oid f2 s2) = wake_view s2"
  "wake_view (upd_bu oid f3 s3) = wake_view s3"
  "wake_view (upd_co oid f4 s4) = wake_view s4"
  "wake_view (upd_tu oid f5 s5) = wake_view s5"
  "wake_view (upd_th oid f6 s6) = wake_view s6"
  "wake_view (upd_ax oid f7 s7) = wake_view s7"
  "wake_view (set_waketime t w s) = wake_view s"
  by (simp_all add: wake_view_def command_sendf_def hw_do_def upd_ts_def upd_ai_def upd_bu_def upd_co_def
      upd_tu_def upd_th_def upd_ax_def set_waketime_def)






















subsection \<open>The consoles\<close>




lemma wake_view_bufs [simp]:
  "wake_view (s1\<lparr>receive_buf := b\<rparr>) = wake_view s1" "wake_view (s1\<lparr>receive_pos := p\<rparr>) = wake_view s1"
  "wake_view (s1\<lparr>transmit_pos := p\<rparr>) = wake_view s1" "wake_view (s1\<lparr>transmit_max := p\<rparr>) = wake_view s1"
  by (simp_all add: wake_view_def)


















section \<open>No task is forgotten\<close>

definition only_wakes :: "'z sched_scheme interrupts \<Rightarrow> bool" where
  "only_wakes irq \<longleftrightarrow> (\<forall>k s s'. irq k s = Ret () s' \<longrightarrow> wakes_kept s s')"



lemma sleep_requested: "sleep irq k s = Some m \<Longrightarrow> \<forall>k' s'. m = Ret k' s' \<longrightarrow> tasks_status s' = TS_REQUESTED"
  by (erule sleep.raw_induct [rotated]) (auto split: outcome.splits if_splits)


lemma check_sleep_awake:
  assumes "only_wakes irq" "check_sleep irq start k s = Some (Ret r s')"
  shows "tasks_status s' = TS_REQUESTED"
proof (cases "tasks_status s = TS_REQUESTED")
  case True
  then show ?thesis using assms(2) by (simp add: check_sleep_def)
next
  case False
  then obtain s1 where s1: "irq k s = Ret () s1"
    using assms(2) by (auto simp: check_sleep_def Let_def split: outcome.splits)
  show ?thesis using assms(2) False s1
    by (auto simp: check_sleep_def Let_def dest!: sleep_requested split: if_splits)
qed














section \<open>Timers do not keep the tasks from running\<close>

lemma sint_of_nat_diff:
  assumes "\<bar>int a - int b\<bar> < 2 ^ 31"
  shows "sint (of_nat a - of_nat b :: u32) = int a - int b"
proof -
  have "(of_nat a - of_nat b :: u32) = of_int (int a - int b)" by simp
  then have "sint (of_nat a - of_nat b :: u32) = signed_take_bit 31 (int a - int b)"
    by (simp only: signed_of_int) simp
  moreover have "- (2 ^ 31) \<le> int a - int b" "int a - int b < 2 ^ 31" using assms by linarith+
  ultimately show ?thesis by (simp only: signed_take_bit_int_eq_self)
qed

text \<open>
  A clock that never stands still and is read often enough; \<open>T\<close> is the true number of ticks at each
  reading.
\<close>

definition steady :: "(nat \<Rightarrow> u32) \<Rightarrow> (nat \<Rightarrow> nat) \<Rightarrow> bool" where
  "steady clk T \<longleftrightarrow> (\<forall>i. clk i = of_nat (T i) \<and> T i < T (i + 1) \<and> T (i + 1) \<le> T i + 2 ^ 20)"

lemma steadyD: "steady clk T \<Longrightarrow> clk i = of_nat (T i)" "steady clk T \<Longrightarrow> T i < T (i + 1)"
  "steady clk T \<Longrightarrow> T (i + 1) \<le> T i + 2 ^ 20"
  by (auto simp: steady_def)

lemma wait_for_returns:
  assumes "steady clk T"
  shows "t < T i \<Longrightarrow> T i \<le> t + 2 ^ 20 \<Longrightarrow> int N - int t \<le> 2 ^ 22 \<Longrightarrow>
    \<exists>j \<ge> i. wait_for clk (of_nat N) (int N - int t) i = Some j \<and> T i \<le> T j \<and> int (T j) \<le> max (int t) (int N) + 2 * 2 ^ 20"
proof (induction "nat (int N - int t)" arbitrary: t i rule: less_induct)
  case less
  show ?case
  proof (cases "int N - int t > 0")
    case False
    then show ?thesis using less.prems by (intro exI [of _ i]) (auto simp: wait_for.simps)
  next
    case True
    have d: "sint (of_nat N - clk i) = int N - int (T i)"
      unfolding steadyD(1) [OF assms] by (rule sint_of_nat_diff) (use less.prems True in simp)
    have w: "wait_for clk (of_nat N) (int N - int t) i = wait_for clk (of_nat N) (int N - int (T i)) (i + 1)"
      using True by (subst wait_for.simps) (simp add: d)
    obtain j where j: "i + 1 \<le> j" "wait_for clk (of_nat N) (int N - int (T i)) (i + 1) = Some j" "T (i + 1) \<le> T j"
      "int (T j) \<le> max (int (T i)) (int N) + 2 * 2 ^ 20"
      using less.hyps [of "T i" "i + 1"] less.prems True steadyD(2,3) [OF assms, of i] by auto
    show ?thesis
    proof (intro exI conjI)
      show "i \<le> j" using j(1) by simp
      show "wait_for clk (of_nat N) (int N - int t) i = Some j" using w j(2) by simp
      show "T i \<le> T j" using j(3) steadyD(2) [OF assms, of i] by simp
      show "int (T j) \<le> max (int t) (int N) + 2 * 2 ^ 20" using wait_for.simps
      proof (cases "T i < N")
        case True
        then show ?thesis using j(4) by simp
      next
        case False
        then have "wait_for clk (of_nat N) (int N - int (T i)) (i + 1) = Some (i + 1)" by (subst wait_for.simps) simp
        then have "j = i + 1" using j(2) by simp
        then show ?thesis using steadyD(3) [OF assms, of i] less.prems(2) by simp
      qed
    qed
  qed
qed

text \<open>
  What the dispatch of one timer promises while tasks wait, at any time of the clock: no undefined
  behaviour, its invariant again, and the tasks still wait.
\<close>

definition keeps_busy ::
    "('z sched_scheme \<Rightarrow> bool) \<Rightarrow> ('z sched_scheme \<Rightarrow> (u32, 'z sched_scheme) outcome) \<Rightarrow> bool" where
  "keeps_busy I dispatch \<longleftrightarrow> (\<forall>s now. I s \<and> sched_tasks_busy s \<longrightarrow>
     (case dispatch (s\<lparr>timer_read_time := now\<rparr>) of
        Ret next_time s' \<Rightarrow> I s' \<and> sched_tasks_busy s' \<and> kconf s' = kconf s
      | Shutdown r s' \<Rightarrow> True
      | Fault \<Rightarrow> False))"

lemma keeps_busyD:
  assumes "keeps_busy I dispatch" "I s" "sched_tasks_busy s"
  shows "dispatch (s\<lparr>timer_read_time := now\<rparr>) \<noteq> Fault"
    "dispatch (s\<lparr>timer_read_time := now\<rparr>) = Ret next_time s' \<Longrightarrow> I s' \<and> sched_tasks_busy s' \<and> kconf s' = kconf s"
proof -
  have "case dispatch (s\<lparr>timer_read_time := now\<rparr>) of
        Ret next_time s' \<Rightarrow> I s' \<and> sched_tasks_busy s' \<and> kconf s' = kconf s
      | Shutdown r s' \<Rightarrow> True
      | Fault \<Rightarrow> False" using assms unfolding keeps_busy_def by blast
  then show "dispatch (s\<lparr>timer_read_time := now\<rparr>) \<noteq> Fault"
    "dispatch (s\<lparr>timer_read_time := now\<rparr>) = Ret next_time s' \<Longrightarrow> I s' \<and> sched_tasks_busy s' \<and> kconf s' = kconf s"
    by auto
qed

lemma timer_dispatch_loop_returns:
  assumes "steady clk T" "keeps_busy I dispatch"
  shows "I s \<Longrightarrow> sched_tasks_busy s \<Longrightarrow> unat (ticks_per_us (kconf s)) \<le> 2 ^ 20 \<Longrightarrow>
    T i \<le> U + 2 ^ 30 \<Longrightarrow> U \<le> T i + 2 ^ 30 \<Longrightarrow>
    \<exists>m. timer_dispatch_loop dispatch clk (of_nat U) i s = Some m \<and> m \<noteq> Fault"
proof (induction "U + 2 ^ 30 - T i" arbitrary: i s rule: less_induct)
  case less
  let ?s = "s\<lparr>timer_read_time := clk i\<rparr>"
  show ?case
  proof (cases "dispatch ?s")
    case (Shutdown r s1)
    then show ?thesis by (subst timer_dispatch_loop.simps) simp
  next
    case Fault
    then show ?thesis using keeps_busyD(1) [OF assms(2) less.prems(1,2)] by simp
  next
    case (Ret next_time s1)
    then have s1: "sched_tasks_busy s1" "kconf s1 = kconf s" "I s1"
      using keeps_busyD(2) [OF assms(2) less.prems(1,2)] by auto
    define now where "now = T (i + 1)"
    define diff where "diff = sint (next_time - clk (i + 1))"
    have n: "T i < now" "now \<le> T i + 2 ^ 20" using steadyD(2,3) [OF assms(1), of i] by (simp_all add: now_def)
    have late: "timer_is_before (of_nat U) (clk (i + 1)) \<longleftrightarrow> U < now"
    proof -
      have "sint (of_nat U - of_nat now :: u32) = int U - int now"
        by (rule sint_of_nat_diff) (use less.prems(4,5) n in simp)
      then show ?thesis by (simp add: timer_is_before_def steadyD(1) [OF assms(1)] now_def)
    qed
    have two: "sint (TIMER_MIN_TRY_TICKS s1) \<le> 2 ^ 21"
    proof -
      obtain k where k: "unat (ticks_per_us (kconf s)) = k" by blast
      have "TIMER_MIN_TRY_TICKS s1 = of_nat (2 * k) - of_nat 0"
        by (simp add: TIMER_MIN_TRY_TICKS_def timer_from_us_def s1(2) k [symmetric])
      moreover have "sint (of_nat (2 * k) - of_nat 0 :: u32) = int (2 * k) - int 0"
        by (rule sint_of_nat_diff) (use less.prems(3) k in simp)
      ultimately show ?thesis using less.prems(3) k by (simp del: diff_0_right)
    qed
    show ?thesis
    proof (cases "diff > sint (TIMER_MIN_TRY_TICKS s1)")
      case True
      then show ?thesis using Ret by (subst timer_dispatch_loop.simps) (simp add: diff_def Let_def)
    next
      case near: False
      show ?thesis
      proof (cases "U < now")
        case True
        then show ?thesis using Ret near late s1(1)
          by (subst timer_dispatch_loop.simps) (simp add: diff_def Let_def sched_try_shutdown_def sched_shutdown_def)
      next
        case False
        have l: "timer_dispatch_loop dispatch clk (of_nat U) i s =
            Option.bind (wait_for clk next_time diff (i + 2)) (\<lambda>i. timer_dispatch_loop dispatch clk (of_nat U) i s1)"
          using Ret near late False by (subst timer_dispatch_loop.simps) (simp add: diff_def Let_def)
        have i2: "now < T (i + 2)" "T (i + 2) \<le> now + 2 ^ 20"
          using steadyD(2,3) [OF assms(1), of "i + 1"] by (simp_all add: now_def)
        have "\<exists>j \<ge> i + 2. wait_for clk next_time diff (i + 2) = Some j \<and> T (i + 2) \<le> T j \<and> T j \<le> now + 2 ^ 22 + 2 ^ 21"
        proof (cases "diff > 0")
          case True
          define N where "N = now + nat diff"
          have N: "next_time = of_nat N"
          proof -
            have "of_nat N = (of_nat now :: u32) + of_int diff" using True by (simp add: N_def)
            also have "\<dots> = next_time" by (simp add: diff_def steadyD(1) [OF assms(1)] now_def)
            finally show ?thesis by simp
          qed
          have "diff = int N - int now" using True by (simp add: N_def)
          moreover have "int N - int now \<le> 2 ^ 22" using near two True by (simp add: N_def)
          ultimately show ?thesis using wait_for_returns [OF assms(1) i2, of N] near two
            by (auto simp: N max_def split: if_splits)
        next
          case False
          then show ?thesis using i2 by (intro exI [of _ "i + 2"]) (auto simp: wait_for.simps)
        qed
        then obtain j where j: "wait_for clk next_time diff (i + 2) = Some j" "T (i + 2) \<le> T j" "T j \<le> now + 2 ^ 22 + 2 ^ 21"
          by blast
        have "\<exists>m. timer_dispatch_loop dispatch clk (of_nat U) j s1 = Some m \<and> m \<noteq> Fault"
          by (rule less.hyps) (use less.prems s1 n i2 j(2,3) False in auto)
        then show ?thesis using l j(1) by simp
      qed
    qed
  qed
qed

text \<open>
  C31: The timer interrupt never keeps the tasks from running: with tasks waiting, event functions that
  keep the timer list, a clock that does not stand still, and the repeat window within a quarter turn
  of the clock, which \<open>timer_task\<close> sees to, \<open>timer_dispatch_many\<close> returns, even if the timers are
  always due at once.
\<close>

theorem timer_dispatch_many_returns:
  assumes "steady clk T" "keeps_busy I (sched_timer_dispatch inline_stepper call)" "I s"
    and "sched_tasks_busy s" "unat (ticks_per_us (kconf s)) \<le> 2 ^ 20"
    and "timer_repeat_until s = of_nat U" "T i \<le> U + 2 ^ 30" "U \<le> T i + 2 ^ 30"
  shows "\<exists>m. timer_dispatch_many (sched_timer_dispatch inline_stepper call) clk i s = Some m \<and> m \<noteq> Fault"
  unfolding timer_dispatch_many_def assms(6)
  by (rule timer_dispatch_loop_returns [OF assms(1-5,7,8)])

text \<open>The scheduler's own timers alone keep this contract.\<close>

definition alone :: "'z sched_scheme \<Rightarrow> bool" where
  "alone s \<longleftrightarrow> timer_list s = Periodic_timer \<and> timer_next s Periodic_timer = Some Sentinel_timer \<and>
     timer_func s Periodic_timer = Some Periodic_event"

lemma alone_keeps_busy:
  "keeps_busy alone (sched_timer_dispatch inline_stepper (own_events other))"
proof -
  have p: "timer_is_before p (p + 0x80000000)" for p :: u32
    by (simp add: timer_is_before_def)
  show ?thesis
    by (simp add: keeps_busy_def alone_def sched_timer_dispatch_def own_events_def periodic_event_def
        sched_wake_tasks_def set_waketime_def dispatch_update_def p sched_tasks_busy_def Let_def)
qed

theorem timer_dispatch_many_returns_witness:
  "\<exists>m. timer_dispatch_many (sched_timer_dispatch (\<lambda>_ _. Fault) (own_events (\<lambda>_ _ _. Fault))) of_nat 5
     (sched_wake_tasks sched0) = Some m \<and> m \<noteq> Fault"
proof -
  have "steady of_nat (\<lambda>i. i)" by (simp add: steady_def)
  then show ?thesis
    by (rule timer_dispatch_many_returns [where U = 0, OF _ alone_keeps_busy])
      (simp_all add: sched_wake_tasks_def sched_tasks_busy_def sched_init_def example_conf_def alone_def)
qed

end
