(* ===== verification/Msgblock.thy ===== *)
theory Msgblock
  imports Comm
begin

text \<open>
  The host's half of the wire protocol, \<open>klippy/chelper/msgblock.c\<close>: recognising blocks in the
  bytes read from the serial port, encoding commands and decoding responses, and the extension of
  the 32 bit clocks that the micro-controller reports. \<open>buf_len\<close> and \<open>msg_len\<close> are the lengths of
  the lists. The conversions between clocks and times are floating point and not part of the model.
\<close>

section \<open>Translation\<close>

subsection \<open>Checksum and blocks\<close>

text \<open>The loop of \<open>msgblock_crc16_ccitt\<close> over the \<open>len\<close> bytes left.\<close>

fun msgblock_crc16_loop :: "u16 \<Rightarrow> u8 list \<Rightarrow> u16" where
  "msgblock_crc16_loop crc [] = crc"
| "msgblock_crc16_loop crc (d # buf) =
     (let data = d XOR ucast (crc AND 0xff);
          data = data XOR push_bit 4 data;
          crc = (push_bit 8 (ucast data) OR drop_bit 8 crc)
                  XOR ucast (drop_bit 4 data) XOR push_bit 3 (ucast data)
      in msgblock_crc16_loop crc buf)"

definition msgblock_crc16_ccitt :: "u8 list \<Rightarrow> u16" where
  "msgblock_crc16_ccitt buf = msgblock_crc16_loop 0xffff buf"

text \<open>The label \<open>error\<close> of \<open>msgblock_check\<close>: discard bytes until after the next SYNC.\<close>

definition msgblock_error :: "u8 list \<Rightarrow> int \<times> bool" where
  "msgblock_error buf =
     (case memchr MESSAGE_SYNC buf of
        Some next_sync \<Rightarrow> (- (int next_sync + 1), False)
      | None \<Rightarrow> (- int (length buf), True))"

definition msgblock_check :: "bool \<Rightarrow> u8 list \<Rightarrow> int \<times> bool" where
  "msgblock_check nsync buf =
     (if length buf < MESSAGE_MIN then (0, nsync)
      else if nsync then msgblock_error buf
      else let msglen = unat (buf ! MESSAGE_POS_LEN) in
        if msglen < MESSAGE_MIN \<or> msglen > MESSAGE_MAX then msgblock_error buf
        else let msgseq = buf ! MESSAGE_POS_SEQ in
          if msgseq AND NOT MESSAGE_SEQ_MASK \<noteq> MESSAGE_DEST then msgblock_error buf
          else if length buf < msglen then (0, nsync)
          else if buf ! (msglen - MESSAGE_TRAILER_SYNC) \<noteq> MESSAGE_SYNC then msgblock_error buf
          else let msgcrc = push_bit 8 (ucast (buf ! (msglen - MESSAGE_TRAILER_CRC)))
                              OR ucast (buf ! (msglen - MESSAGE_TRAILER_CRC + 1));
                   crc = msgblock_crc16_ccitt (take (msglen - MESSAGE_TRAILER_SIZE) buf)
               in if crc \<noteq> msgcrc then msgblock_error buf
                  else (int msglen, nsync))"

subsection \<open>Numbers\<close>

text \<open>
  The host's \<open>encode_int\<close>: how many of the five \<open>*p++\<close> are executed depends on the label the
  comparisons jump to, and the byte for shift \<open>k\<close> has the continuation bit unless it is the last.
\<close>

definition host_vlq_byte :: "u32 \<Rightarrow> nat \<Rightarrow> u8" where
  "host_vlq_byte v k =
     (if k = 28 then ucast (drop_bit 28 v OR 0x80)
      else if k = 0 then ucast (v AND 0x7f)
      else ucast ((drop_bit k v AND 0x7f) OR 0x80))"

definition host_encode_int :: "u32 \<Rightarrow> u8 list" where
  "host_encode_int v =
     (let sv = sint v in
      map (host_vlq_byte v)
        (if sv < 3 * 2 ^ 5 \<and> sv \<ge> - (2 ^ 5) then [0]
         else if sv < 3 * 2 ^ 12 \<and> sv \<ge> - (2 ^ 12) then [7, 0]
         else if sv < 3 * 2 ^ 19 \<and> sv \<ge> - (2 ^ 19) then [14, 7, 0]
         else if sv < 3 * 2 ^ 26 \<and> sv \<ge> - (2 ^ 26) then [21, 14, 7, 0]
         else [28, 21, 14, 7, 0]))"

text \<open>The loop \<open>while (c & 0x80)\<close>; \<open>None\<close> is a read past the end of the buffer.\<close>

fun host_parse_more :: "bool \<Rightarrow> u32 \<Rightarrow> u8 list \<Rightarrow> (u32 \<times> u8 list) option" where
  "host_parse_more False v p = Some (v, p)"
| "host_parse_more True v [] = None"
| "host_parse_more True v (c # p) =
     host_parse_more (c AND 0x80 \<noteq> 0) (push_bit 7 v OR (ucast c AND 0x7f)) p"

definition host_parse_int :: "u8 list \<Rightarrow> (u32 \<times> u8 list) option" where
  "host_parse_int pp =
     (case pp of
        [] \<Rightarrow> None
      | c # p \<Rightarrow>
          let v = ucast c AND 0x7f;
              v = (if c AND 0x60 = 0x60 then v OR - 0x20 else v)
          in host_parse_more (c AND 0x80 \<noteq> 0) v p)"

text \<open>
  The loop of \<open>msgblock_decode\<close>: \<open>p\<close> and \<open>end\<close> are offsets into \<open>msg\<close>, \<open>data\<close> what has been stored.
\<close>

fun msgblock_decode_loop ::
    "nat \<Rightarrow> u8 list \<Rightarrow> nat \<Rightarrow> nat \<Rightarrow> u32 list \<Rightarrow> (int \<times> u32 list) option" where
  "msgblock_decode_loop 0 msg p e data = Some (if p \<noteq> e then -1 else 0, data)"
| "msgblock_decode_loop (Suc data_len) msg p e data =
     (if p \<ge> e then Some (-1, data)
      else (case host_parse_int (drop p msg) of
              None \<Rightarrow> None
            | Some (v, r) \<Rightarrow>
                msgblock_decode_loop data_len msg (length msg - length r) e (data @ [v])))"

definition msgblock_decode :: "nat \<Rightarrow> u8 list \<Rightarrow> nat \<Rightarrow> (int \<times> u32 list) option" where
  "msgblock_decode data_len msg msg_len =
     msgblock_decode_loop data_len msg MESSAGE_HEADER_SIZE (msg_len - MESSAGE_TRAILER_SIZE) []"

subsection \<open>Queued messages\<close>

text \<open>\<open>struct queue_message\<close> with the members a message on a command queue has.\<close>

record queue_message =
  qm_len :: int
  qm_msg :: "u8 list"
  min_clock :: u64
  req_clock :: u64
  notify_id :: u64

definition message_alloc :: queue_message where
  "message_alloc =
     \<lparr>qm_len = 0, qm_msg = replicate MESSAGE_MAX 0, min_clock = 0, req_clock = 0, notify_id = 0\<rparr>"

text \<open>\<open>memcpy\<close> to the start of \<open>qm->msg\<close>; \<open>None\<close> is a copy past its end.\<close>

definition message_fill :: "u8 list \<Rightarrow> queue_message option" where
  "message_fill data =
     (let qm = message_alloc in
      if length data > length (qm_msg qm) then None
      else Some (qm\<lparr>qm_msg := data @ drop (length data) (qm_msg qm), qm_len := int (length data)\<rparr>))"

text \<open>
  The loop of \<open>message_alloc_and_encode\<close>: \<open>out\<close> is what lies between \<open>qm->msg\<close> and \<open>p\<close>; the flag
  tells whether the loop was left for the label \<open>fail\<close>.
\<close>

fun message_encode_loop :: "u8 list \<Rightarrow> u32 list \<Rightarrow> u8 list \<times> bool" where
  "message_encode_loop out [] = (out, False)"
| "message_encode_loop out (d # data) =
     (let out = out @ host_encode_int d in
      if length out > MESSAGE_PAYLOAD_MAX then (out, True)
      else message_encode_loop out data)"

definition message_alloc_and_encode :: "u32 list \<Rightarrow> queue_message" where
  "message_alloc_and_encode data =
     (let qm = message_alloc; (out, fail) = message_encode_loop [] data;
          qm = qm\<lparr>qm_msg := out @ drop (length out) (qm_msg qm)\<rparr>
      in if fail then qm\<lparr>qm_len := 0\<rparr> else qm\<lparr>qm_len := int (length out)\<rparr>)"

subsection \<open>Clock estimation\<close>

text \<open>The argument is \<open>ce->last_clock\<close>, the only member the function reads.\<close>

definition clock_from_clock32 :: "u64 \<Rightarrow> u32 \<Rightarrow> u64" where
  "clock_from_clock32 last_clock clock32 =
     last_clock + scast (ucast (ucast clock32 - last_clock) :: u32)"

section \<open>Words\<close>

lemma mod_64_32: "(a :: int) mod 18446744073709551616 mod 4294967296 = a mod 4294967296"
  by (rule mod_mod_cancel) simp

lemma ucast_u32_diff: "(ucast (a - b :: u64) :: u32) = ucast a - ucast b"
proof -
  have "(a - b) mod 18446744073709551616 mod 4294967296 =
           (a mod 18446744073709551616 - b mod 18446744073709551616) mod 4294967296" for a b :: int
    unfolding mod_64_32 by (subst (2) mod_diff_eq [symmetric]) (simp only: mod_64_32 mod_diff_eq)
  then show ?thesis by transfer (simp add: take_bit_eq_mod mod_diff_eq)
qed

lemma ucast_u32_add_diff: "(ucast (a + b :: u64) :: u32) - ucast a = ucast b"
  by (simp flip: ucast_u32_diff)

lemma ucast_u32_of_int: "(ucast (of_int d :: u64) :: u32) = of_int d"
  by transfer simp

lemma ucast_u64_u32: "(ucast (ucast x :: u64) :: u32) = x" for x :: u32
  by transfer simp

lemma scast_of_int_u32: "- (2 ^ 31) \<le> d \<Longrightarrow> d < 2 ^ 31 \<Longrightarrow> (scast (of_int d :: u32) :: u64) = of_int d"
  by transfer (simp add: signed_take_bit_int_eq_self)

section \<open>The host and the micro-controller use the same code\<close>

lemma crc16_loop_is_fold: "msgblock_crc16_loop crc buf = foldl crc16_step crc buf"
  by (induction buf arbitrary: crc) (simp_all add: crc16_step_def Let_def)

lemma host_crc: "msgblock_crc16_ccitt buf = crc16_ccitt buf"
  by (simp add: msgblock_crc16_ccitt_def crc16_ccitt_def crc16_loop_is_fold)

lemma host_encode: "host_encode_int v = encode_int v"
  by (simp add: host_encode_int_def encode_int_def Let_def host_vlq_byte_def vlq_defs)

lemma ucast_and_7f: "(ucast c AND 0x7f :: u32) = ucast (c AND 0x7f)" for c :: u8
  by (rule bit_word_eqI) (auto simp: byte_bits bit_numeral_word_iff)

lemma host_parse_more_eq:
  "host_parse_more (c AND 0x80 \<noteq> 0) v p = parse_int_more c v p"
proof (induction p arbitrary: c v)
  case Nil
  show ?case by (cases "c AND 0x80 = 0") (simp_all add: parse_int_more.simps)
next
  case (Cons c' p)
  show ?case
    by (cases "c AND 0x80 = 0")
      (use Cons in \<open>simp_all add: parse_int_more.simps [of c] ucast_and_7f\<close>)
qed

lemma host_parse: "host_parse_int p = parse_int p"
  by (cases p)
    (simp_all add: host_parse_int_def parse_int_first_def host_parse_more_eq ucast_and_7f Let_def)

section \<open>Receiving\<close>

text \<open>What both ends of the line take for a complete block with a valid checksum.\<close>

definition is_block :: "u8 list \<Rightarrow> bool" where
  "is_block b \<longleftrightarrow> (\<exists>seq payload. b = frame_block seq payload \<and>
     seq AND NOT MESSAGE_SEQ_MASK = MESSAGE_DEST \<and> length payload + MESSAGE_MIN \<le> MESSAGE_MAX)"

lemma is_block_length: "is_block b \<Longrightarrow> MESSAGE_MIN \<le> length b \<and> length b \<le> MESSAGE_MAX"
  by (auto simp: is_block_def length_frame_block)

lemma msgblock_error_discards:
  "buf \<noteq> [] \<Longrightarrow> msgblock_error buf = (r, ns) \<Longrightarrow> r < 0 \<and> - r \<le> int (length buf)"
  by (auto simp: msgblock_error_def split: option.splits dest!: memchr_Some)

lemma msgblock_error_neg: "MESSAGE_MIN \<le> length buf \<Longrightarrow> fst (msgblock_error buf) < 0"
  by (cases "buf = []") (auto simp: message_consts dest: msgblock_error_discards [of _ "fst (msgblock_error buf)" "snd (msgblock_error buf)"])

lemma msgblock_check_block:
  assumes "is_block b"
  shows "msgblock_check False (b @ rest) = (int (length b), False)"
proof -
  from assms obtain seq payload where b: "b = frame_block seq payload"
    and dest: "seq AND NOT MESSAGE_SEQ_MASK = MESSAGE_DEST"
    and m: "length payload + MESSAGE_MIN \<le> MESSAGE_MAX" by (auto simp: is_block_def)
  let ?m = "length payload + MESSAGE_MIN"
  note n = frame_block_nth [OF m, of seq rest]
  have len: "\<not> length (frame_block seq payload @ rest) < MESSAGE_MIN"
    "\<not> length (frame_block seq payload @ rest) < ?m" "\<not> ?m < MESSAGE_MIN" "\<not> ?m > MESSAGE_MAX"
    using m by (simp_all add: length_frame_block)
  have crc: "push_bit 8 (ucast ((frame_block seq payload @ rest) ! (?m - MESSAGE_TRAILER_CRC)))
      OR ucast ((frame_block seq payload @ rest) ! (?m - MESSAGE_TRAILER_CRC + 1)) =
      crc16_ccitt ([of_nat ?m, seq] @ payload)"
    using n(5) unfolding block_crc_def .
  show ?thesis
    unfolding b msgblock_check_def Let_def n crc host_crc using dest len
    by (simp add: length_frame_block)
qed

lemma msgblock_check_pos:
  assumes "msgblock_check nsync buf = (r, ns)" "0 < r"
  shows "\<not> nsync \<and> \<not> ns \<and> nat r \<le> length buf \<and> is_block (take (nat r) buf)"
proof -
  let ?m = "unat (buf ! MESSAGE_POS_LEN)"
  have l: "MESSAGE_MIN \<le> length buf" using assms by (auto simp: msgblock_check_def split: if_splits)
  have e: "msgblock_error buf \<noteq> (r, ns)" using msgblock_error_neg [OF l] assms(2) by auto
  have c: "\<not> nsync" "MESSAGE_MIN \<le> ?m" "?m \<le> MESSAGE_MAX" "?m \<le> length buf"
    "buf ! MESSAGE_POS_SEQ AND NOT MESSAGE_SEQ_MASK = MESSAGE_DEST"
    "buf ! (?m - MESSAGE_TRAILER_SYNC) = MESSAGE_SYNC" "r = int ?m" "ns = nsync"
    "crc16_ccitt (take (?m - MESSAGE_TRAILER_SIZE) buf) = block_crc buf ?m"
    using assms e l
    by (auto simp: msgblock_check_def Let_def host_crc block_crc_def not_less split: if_splits)
  have "take ?m buf = frame_block (buf ! 1) (take (?m - 5) (drop 2 buf))"
    by (rule frame_block_intro)
      (use c in \<open>simp_all add: MESSAGE_POS_LEN_def MESSAGE_TRAILER_SYNC_def MESSAGE_TRAILER_SIZE_def\<close>)
  then show ?thesis using c
    by (auto simp: is_block_def message_consts intro!: exI [of _ "buf ! 1"]
        exI [of _ "take (?m - 5) (drop 2 buf)"])
qed

lemma msgblock_check_neg:
  "msgblock_check nsync buf = (r, ns) \<Longrightarrow> r < 0 \<Longrightarrow> - r \<le> int (length buf)"
  by (cases "buf = []")
    (auto simp: msgblock_check_def Let_def message_consts split: if_splits
      dest: msgblock_error_discards)

lemma msgblock_check_zero:
  assumes "msgblock_check nsync buf = (0, ns)"
  shows "ns = nsync \<and> length buf < MESSAGE_MAX"
proof (cases "length buf < MESSAGE_MIN")
  case True
  with assms show ?thesis by (simp add: msgblock_check_def message_consts)
next
  case False
  then have "msgblock_error buf \<noteq> (0, ns)" using msgblock_error_neg [of buf] by auto
  with assms False show ?thesis
    by (auto simp: msgblock_check_def Let_def MESSAGE_MIN_def uint_0_iff split: if_splits)
qed

section \<open>Decoding\<close>

lemma decode_loop_ints:
  assumes "length us = p"
  shows "msgblock_decode_loop (length vs) (us @ concat (map encode_int vs) @ rest) p
      (p + length (concat (map encode_int vs))) data = Some (0, data @ vs)"
  using assms
proof (induction vs arbitrary: us p data)
  case Nil
  then show ?case by simp
next
  case (Cons v vs)
  have d: "drop p (us @ concat (map encode_int (v # vs)) @ rest) =
      encode_int v @ concat (map encode_int vs) @ rest" using Cons.prems by simp
  have ih: "msgblock_decode_loop (length vs)
      ((us @ encode_int v) @ concat (map encode_int vs) @ rest) (p + length (encode_int v))
      ((p + length (encode_int v)) + length (concat (map encode_int vs))) (data @ [v]) =
      Some (0, (data @ [v]) @ vs)"
    by (rule Cons.IH) (use Cons.prems in simp)
  have nz: "encode_int v \<noteq> []" using length_encode_int(1) [of v] by auto
  show ?case
    using ih Cons.prems nz d
    by (simp add: host_parse parse_int_encode_int add.assoc)
qed

lemma decode_frame:
  "msgblock_decode (length vs) (frame_block seq (concat (map encode_int vs)) @ rest)
     (length (frame_block seq (concat (map encode_int vs)))) = Some (0, vs)"
proof -
  let ?p = "concat (map encode_int vs)"
  let ?h = "[of_nat (length ?p + MESSAGE_MIN), seq]"
  let ?c = "crc16_ccitt (?h @ ?p)"
  have f: "frame_block seq ?p @ rest =
      ?h @ ?p @ ([ucast (drop_bit 8 ?c), ucast ?c, MESSAGE_SYNC] @ rest)"
    by (simp add: frame_block_def Let_def)
  have e: "length (frame_block seq ?p) - MESSAGE_TRAILER_SIZE = 2 + length ?p"
    by (simp add: length_frame_block message_consts)
  show ?thesis
    unfolding msgblock_decode_def e f MESSAGE_HEADER_SIZE_def
    using decode_loop_ints [where us = ?h and p = 2 and vs = vs and data = "[]"] by simp
qed

lemma decode_loop_stops:
  assumes "e < length msg" "msg ! (length msg - 1) AND 0x80 = 0"
  shows "p \<le> length msg \<Longrightarrow> msgblock_decode_loop n msg p e data \<noteq> None"
proof (induction n arbitrary: p data)
  case 0
  show ?case by simp
next
  case (Suc n)
  show ?case
  proof (cases "p \<ge> e")
    case True
    then show ?thesis by simp
  next
    case False
    then have p: "p < length msg" using assms(1) by simp
    have msg: "drop p msg = take (length msg - 1 - p) (drop p msg) @ msg ! (length msg - 1) # []"
      using p Cons_nth_drop_Suc [of "length msg - 1" msg]
        append_take_drop_id [of "length msg - 1 - p" "drop p msg"] by simp
    obtain v us where "parse_int (drop p msg) = Some (v, us)"
      using parse_int_stops [OF assms(2), of "take (length msg - 1 - p) (drop p msg)" "[]"] msg
      by metis
    then show ?thesis using False Suc.IH [of "length msg - length us"] by (simp add: host_parse)
  qed
qed

section \<open>Encoding\<close>

lemma encode_loop_spec:
  assumes "length out \<le> MESSAGE_PAYLOAD_MAX" "message_encode_loop out data = (out', fail)"
  shows "length out' \<le> MESSAGE_PAYLOAD_MAX + 5 \<and>
    (fail \<longleftrightarrow> length (out @ concat (map encode_int data)) > MESSAGE_PAYLOAD_MAX) \<and>
    (\<not> fail \<longrightarrow> out' = out @ concat (map encode_int data))"
  using assms
proof (induction data arbitrary: out)
  case Nil
  then show ?case by auto
next
  case (Cons d data)
  show ?case
  proof (cases "length (out @ encode_int d) > MESSAGE_PAYLOAD_MAX")
    case True
    with Cons.prems length_encode_int(2) [of d] show ?thesis by (auto simp: host_encode)
  next
    case False
    with Cons.prems have "message_encode_loop (out @ encode_int d) data = (out', fail)"
      by (simp add: host_encode)
    with Cons.IH [OF _ this] False show ?thesis by simp
  qed
qed

section \<open>Properties\<close>

text \<open>
  C21: \<open>msgblock_check\<close> accepts exactly the well formed blocks: it returns \<open>n > 0\<close> if and only if no
  resynchronisation is pending and the first \<open>n\<close> bytes are a block with a valid header, checksum and
  SYNC, whatever the following bytes are.
\<close>

theorem msgblock_check_exact:
  "0 < n \<and> fst (msgblock_check nsync buf) = int n \<and> take n buf = b \<longleftrightarrow>
     \<not> nsync \<and> is_block b \<and> n = length b \<and> (\<exists>rest. buf = b @ rest)"
proof
  assume a: "0 < n \<and> fst (msgblock_check nsync buf) = int n \<and> take n buf = b"
  have "\<not> nsync \<and> \<not> snd (msgblock_check nsync buf) \<and> n \<le> length buf \<and> is_block (take n buf)"
    using msgblock_check_pos [of nsync buf "int n" "snd (msgblock_check nsync buf)"] a
    by (cases "msgblock_check nsync buf") simp
  then show "\<not> nsync \<and> is_block b \<and> n = length b \<and> (\<exists>rest. buf = b @ rest)"
    using a append_take_drop_id [of n buf] by (auto intro: exI [of _ "drop n buf"])
next
  assume "\<not> nsync \<and> is_block b \<and> n = length b \<and> (\<exists>rest. buf = b @ rest)"
  then show "0 < n \<and> fst (msgblock_check nsync buf) = int n \<and> take n buf = b"
    using is_block_length [of b] by (auto simp: msgblock_check_block MESSAGE_MIN_def)
qed

text \<open>
  C22: The host's receiver and the micro-controller's decide alike: on the same bytes (at least a
  minimal block) and with the same pending resynchronisation, \<open>msgblock_check\<close> and
  \<open>command_find_block\<close> consume the same number of bytes and leave the same need to resynchronise, and
  the micro-controller dispatches exactly the blocks the check accepts that carry the expected
  sequence number.
\<close>

theorem host_mcu_agree:
  assumes "command_find_block buf s = (p, n, s')" "MESSAGE_MIN \<le> length buf"
  shows "\<exists>r. msgblock_check (need_sync s) buf = (r, need_sync s') \<and> nat \<bar>r\<bar> = n \<and>
     (p = 1 \<longleftrightarrow> 0 < r \<and> buf ! MESSAGE_POS_SEQ = next_sequence s)"
proof -
  have nz: "buf \<noteq> []" "length buf \<noteq> 0" "\<not> length buf < MESSAGE_MIN"
    using assms(2) by (auto simp: message_consts)
  have e1: "msgblock_error buf = (- int n, need_sync s') \<and> p \<noteq> 1"
    if "find_block_need_sync buf s0 = (p, n, s')" "need_sync s0" for s0 :: "'a comm_scheme"
    using that by (auto simp: find_block_need_sync_def find_block_nak_def msgblock_error_def frame
        split: if_splits option.splits)
  have hd: "buf ! 0 = MESSAGE_SYNC \<Longrightarrow> memchr MESSAGE_SYNC buf = Some 0" using nz by (cases buf) auto
  have e2: "msgblock_error buf = (- int n, need_sync s') \<and> p \<noteq> 1"
    if "find_block_error buf s = (p, n, s')" "\<not> need_sync s"
    using that e1 [of "s\<lparr>need_sync := True\<rparr>"] hd
    by (auto simp: find_block_error_def msgblock_error_def split: if_splits)
  have pos: "0 < uint x" if "\<not> unat x < MESSAGE_MIN" for x :: u8
  proof -
    have "0 < unat x" using that by (simp add: MESSAGE_MIN_def)
    then show ?thesis by (simp add: unat_gt_0 word_neq_0_conv word_less_def)
  qed
  show ?thesis
  proof (cases "need_sync s")
    case True
    then have "find_block_need_sync buf s = (p, n, s')"
      using assms(1) nz by (simp add: command_find_block_def)
    from e1 [OF this True] show ?thesis using True nz(3) by (simp add: msgblock_check_def)
  next
    case False
    then show ?thesis
      using assms(1) nz e2 pos
      by (auto simp: command_find_block_def msgblock_check_def Let_def block_crc_def host_crc
          find_block_nak_def frame split: if_splits)
  qed
qed

theorem host_mcu_agree_witness:
  "msgblock_check False (frame_block 0x10 [5, 7] @ [0x7E]) = (7, False)"
proof -
  have "command_find_block (frame_block 0x10 [5, 7] @ [0x7E]) comm0 =
      (1, 7, comm0\<lparr>need_valid := False, next_sequence := 0x11\<rparr>)"
    using find_block_frame [of "[5, 7]" "0x10" comm0 "[0x7E]"]
    by (simp add: comm0_def message_consts next_seq_def)
  from host_mcu_agree [OF this] show ?thesis
    by (auto simp: length_frame_block message_consts comm0_def)
qed

text \<open>
  C29: Responses survive the trip to the host: decoding a block framed by the micro-controller around
  the numbers \<open>vs\<close> succeeds and stores exactly those numbers, whatever lies behind the block.
\<close>

theorem msgblock_decode_roundtrip:
  "msgblock_decode (length vs) (frame_block seq (concat (map encode_int vs)) @ rest)
     (length (frame_block seq (concat (map encode_int vs)))) = Some (0, vs)"
  by (rule decode_frame)

text \<open>
  No response can make the decoder read outside its block: on any block the check has accepted,
  however many numbers are asked for, \<open>msgblock_decode\<close> returns.
\<close>

theorem msgblock_decode_in_bounds:
  assumes "is_block b"
  shows "msgblock_decode n b (length b) \<noteq> None"
proof -
  obtain seq payload where b: "b = frame_block seq payload" using assms by (auto simp: is_block_def)
  have last: "b ! (length b - 1) = MESSAGE_SYNC"
    by (simp add: b frame_block_def Let_def message_consts nth_append)
  have l: "MESSAGE_MIN \<le> length b" using is_block_length [OF assms] by simp
  show ?thesis
    unfolding msgblock_decode_def
    by (rule decode_loop_stops) (use last l in \<open>auto simp: message_consts\<close>)
qed

theorem msgblock_decode_in_bounds_witness:
  "msgblock_decode 3 (frame_block 0x10 [0xff, 0xff]) 7 \<noteq> None"
proof -
  have "is_block (frame_block 0x10 [0xff, 0xff])"
    unfolding is_block_def
    by (rule exI [of _ "0x10"], rule exI [of _ "[0xff, 0xff]"]) (simp add: message_consts)
  from msgblock_decode_in_bounds [OF this, of 3] show ?thesis
    by (simp add: length_frame_block message_consts)
qed

text \<open>
  Encoding a command never writes outside the 64 bytes of \<open>qm->msg\<close>; when the numbers fit a
  payload the message holds their encodings and its length, and otherwise it has length 0.
\<close>

theorem message_alloc_and_encode_fits:
  "length (qm_msg (message_alloc_and_encode data)) = MESSAGE_MAX \<and>
   qm_len (message_alloc_and_encode data) =
     (if length (concat (map encode_int data)) \<le> MESSAGE_PAYLOAD_MAX
      then int (length (concat (map encode_int data))) else 0) \<and>
   take (nat (qm_len (message_alloc_and_encode data))) (qm_msg (message_alloc_and_encode data)) =
     (if length (concat (map encode_int data)) \<le> MESSAGE_PAYLOAD_MAX
      then concat (map encode_int data) else [])"
proof -
  obtain out fail where o: "message_encode_loop [] data = (out, fail)" by (cases "message_encode_loop [] data")
  from encode_loop_spec [OF _ this] show ?thesis
    by (auto simp: message_alloc_and_encode_def o message_alloc_def MESSAGE_PAYLOAD_MAX_def
        MESSAGE_MAX_def MESSAGE_MIN_def)
qed

text \<open>
  A 32 bit clock is extended to the right 64 bit clock whenever the true clock is within
  \<open>2 ^ 31\<close> ticks of the last known one, in either direction.
\<close>

theorem clock_from_clock32_exact:
  assumes "- (2 ^ 31) \<le> d" "d < 2 ^ 31"
  shows "clock_from_clock32 last_clock (ucast (last_clock + of_int d)) = last_clock + of_int d"
proof -
  have "(ucast (ucast (ucast (last_clock + of_int d) :: u32) - last_clock) :: u32) = of_int d"
    by (simp add: ucast_u32_diff ucast_u64_u32 ucast_u32_add_diff ucast_u32_of_int)
  then show ?thesis by (simp add: clock_from_clock32_def scast_of_int_u32 [OF assms])
qed

theorem clock_from_clock32_exact_witness:
  "clock_from_clock32 0x1FFFFFFFF (ucast (0x1FFFFFFFF + of_int 3 :: u64)) = 0x200000002"
  using clock_from_clock32_exact [of "3" "0x1FFFFFFFF"] by simp

end
