(* ===== verification/Poll_Reactor.thy ===== *)
theory Poll_Reactor
  imports Msgblock
begin

text \<open>
  The event loop of the host's background threads, \<open>klippy/chelper/pollreactor.c\<close>: timers and file
  descriptors with callbacks. The times are \<open>double\<close> values; the arithmetic of the machine on them is
  an argument, the record \<open>double_ops\<close>, so that what is proved holds for every rounding.
\<close>

section \<open>Floating point\<close>

text \<open>\<open>d_lit d m k\<close> is the literal with the decimal digits \<open>m\<close>, \<open>k\<close> of them behind the point.\<close>

record 'd double_ops =
  d_lit :: "int \<Rightarrow> nat \<Rightarrow> 'd"
  d_of_int :: "int \<Rightarrow> 'd"
  d_to_int :: "'d \<Rightarrow> int"
  d_ceil :: "'d \<Rightarrow> 'd"
  d_add :: "'d \<Rightarrow> 'd \<Rightarrow> 'd"
  d_sub :: "'d \<Rightarrow> 'd \<Rightarrow> 'd"
  d_mul :: "'d \<Rightarrow> 'd \<Rightarrow> 'd"
  d_div :: "'d \<Rightarrow> 'd \<Rightarrow> 'd"
  d_abs :: "'d \<Rightarrow> 'd"
  d_less :: "'d \<Rightarrow> 'd \<Rightarrow> bool"
  d_le :: "'d \<Rightarrow> 'd \<Rightarrow> bool"
  d_eq :: "'d \<Rightarrow> 'd \<Rightarrow> bool"

definition d_zero :: "'d double_ops \<Rightarrow> 'd" where
  "d_zero d = d_lit d 0 0"

text \<open>A \<open>double\<close> used as a condition.\<close>

definition d_true :: "'d double_ops \<Rightarrow> 'd \<Rightarrow> bool" where
  "d_true d x \<longleftrightarrow> \<not> d_eq d x (d_zero d)"

text \<open>Fixed point arithmetic with six places, for examples.\<close>

definition fixed_point :: "int double_ops" where
  "fixed_point =
     \<lparr>d_lit = (\<lambda>m k. m * 10 ^ 6 div 10 ^ k), d_of_int = (\<lambda>i. i * 10 ^ 6), d_to_int = (\<lambda>x. c_div x (10 ^ 6)),
      d_ceil = (\<lambda>x. - (- x div 10 ^ 6) * 10 ^ 6), d_add = (+), d_sub = (-), d_mul = (\<lambda>x y. x * y div 10 ^ 6),
      d_div = (\<lambda>x y. x * 10 ^ 6 div y), d_abs = abs, d_less = (<), d_le = (\<le>), d_eq = (=)\<rparr>"

section \<open>The reactor\<close>

definition PR_NOW :: "'d double_ops \<Rightarrow> 'd" where "PR_NOW d = d_lit d 0 0"
definition PR_NEVER :: "'d double_ops \<Rightarrow> 'd" where "PR_NEVER d = d_lit d 9999999999999999 0"

record 'd pollreactor =
  waketimes :: "'d list"     \<comment> \<open>\<open>timers[i].waketime\<close>\<close>
  next_timer :: 'd
  must_exit :: bool

definition pollreactor_alloc :: "'d double_ops \<Rightarrow> nat \<Rightarrow> 'd pollreactor" where
  "pollreactor_alloc d num_timers =
     \<lparr>waketimes = replicate num_timers (PR_NEVER d), next_timer = PR_NEVER d, must_exit = False\<rparr>"

definition pollreactor_add_timer ::
    "'d double_ops \<Rightarrow> nat \<Rightarrow> ('d, 'z) pollreactor_scheme \<Rightarrow> ('d, 'z) pollreactor_scheme" where
  "pollreactor_add_timer d i pr = pr\<lparr>waketimes := (waketimes pr)[i := PR_NEVER d]\<rparr>"

definition pollreactor_get_timer :: "nat \<Rightarrow> ('d, 'z) pollreactor_scheme \<Rightarrow> 'd" where
  "pollreactor_get_timer i pr = waketimes pr ! i"

definition pollreactor_update_timer ::
    "'d double_ops \<Rightarrow> nat \<Rightarrow> 'd \<Rightarrow> ('d, 'z) pollreactor_scheme \<Rightarrow> ('d, 'z) pollreactor_scheme" where
  "pollreactor_update_timer d i waketime pr =
     (let pr = pr\<lparr>waketimes := (waketimes pr)[i := waketime]\<rparr> in
      if d_less d waketime (next_timer pr) then pr\<lparr>next_timer := waketime\<rparr> else pr)"

definition pollreactor_do_exit :: "('d, 'z) pollreactor_scheme \<Rightarrow> ('d, 'z) pollreactor_scheme" where
  "pollreactor_do_exit pr = pr\<lparr>must_exit := True\<rparr>"

definition pollreactor_is_exit :: "('d, 'z) pollreactor_scheme \<Rightarrow> bool" where
  "pollreactor_is_exit pr = must_exit pr"

text \<open>
  A callback of a timer gets the time of the event and returns the next wake time. \<open>check_each\<close> is
  the loop over the timers, from \<open>i\<close> on; it returns \<open>busy\<close>.
\<close>

type_synonym ('d, 's) timer_callback = "'d \<Rightarrow> 's \<Rightarrow> ('d, 's) outcome"

fun check_each ::
    "'d double_ops \<Rightarrow> 'd \<Rightarrow> nat \<Rightarrow> ('d, ('d, 'z) pollreactor_scheme) timer_callback list \<Rightarrow> bool
       \<Rightarrow> ('d, 'z) pollreactor_scheme \<Rightarrow> (bool, ('d, 'z) pollreactor_scheme) outcome" where
  "check_each d eventtime i [] busy pr = Ret busy pr"
| "check_each d eventtime i (cb # cbs) busy pr =
     (let t = waketimes pr ! i;
          lower = (\<lambda>t pr. if d_less d t (next_timer pr) then pr\<lparr>next_timer := t\<rparr> else pr) in
      if d_le d t eventtime then
        andThen (cb eventtime pr) (\<lambda>t pr.
          check_each d eventtime (i + 1) cbs True (lower t (pr\<lparr>waketimes := (waketimes pr)[i := t]\<rparr>)))
      else check_each d eventtime (i + 1) cbs busy (lower t pr))"

definition pollreactor_check_timers ::
    "'d double_ops \<Rightarrow> ('d, ('d, 'z) pollreactor_scheme) timer_callback list \<Rightarrow> 'd \<Rightarrow> bool
       \<Rightarrow> ('d, 'z) pollreactor_scheme \<Rightarrow> (int, ('d, 'z) pollreactor_scheme) outcome" where
  "pollreactor_check_timers d cbs eventtime busy pr =
     andThen (if d_le d (next_timer pr) eventtime
              then check_each d eventtime 0 cbs busy (pr\<lparr>next_timer := PR_NEVER d\<rparr>)
              else Ret busy pr)
       (\<lambda>busy pr.
          if busy then Ret 0 pr
          else let timeout = d_ceil d (d_mul d (d_sub d (next_timer pr) eventtime) (d_lit d 1000 0)) in
            Ret (if d_less d timeout (d_lit d 1 0) then 1
                 else if d_less d (d_lit d 1000 0) timeout then 1000 else d_to_int d timeout) pr)"

text \<open>
  What \<open>poll\<close> returns: an error, or for each file descriptor whether it has events. The times are the
  readings of \<open>get_monotonic\<close> behind each \<open>poll\<close>. \<open>pollreactor_run\<close> is followed along a list of these
  answers; the timeouts handed to \<open>poll\<close> are returned.
\<close>

datatype poll_result = Poll_error | Poll "bool list"

fun run_fds ::
    "'d \<Rightarrow> ('d \<Rightarrow> 's \<Rightarrow> (unit, 's) outcome) list \<Rightarrow> bool list \<Rightarrow> 's \<Rightarrow> (unit, 's) outcome" where
  "run_fds eventtime (cb # cbs) (r # rs) s =
     andThen (if r then cb eventtime s else Ret () s) (\<lambda>_ s. run_fds eventtime cbs rs s)"
| "run_fds eventtime _ _ s = Ret () s"

primrec pollreactor_run ::
    "'d double_ops \<Rightarrow> ('d, ('d, 'z) pollreactor_scheme) timer_callback list
       \<Rightarrow> ('d \<Rightarrow> ('d, 'z) pollreactor_scheme \<Rightarrow> (unit, ('d, 'z) pollreactor_scheme) outcome) list
       \<Rightarrow> (poll_result \<times> 'd) list \<Rightarrow> 'd \<Rightarrow> bool \<Rightarrow> int list \<Rightarrow> ('d, 'z) pollreactor_scheme
       \<Rightarrow> (int list, ('d, 'z) pollreactor_scheme) outcome" where
  "pollreactor_run d cbs fds [] eventtime busy ts pr = Ret ts pr"
| "pollreactor_run d cbs fds (answer # rest) eventtime busy ts pr =
     (if must_exit pr then Ret ts pr
      else andThen (pollreactor_check_timers d cbs eventtime busy pr) (\<lambda>timeout pr.
        let ts = ts @ [timeout]; (ret, now) = answer in
        case ret of
          Poll_error \<Rightarrow> pollreactor_run d cbs fds rest now False ts (pr\<lparr>must_exit := True\<rparr>)
        | Poll ready \<Rightarrow>
            if \<exists>r \<in> set ready. r then
              andThen (run_fds now fds ready pr) (\<lambda>_ pr. pollreactor_run d cbs fds rest now True ts pr)
            else pollreactor_run d cbs fds rest now False ts pr))"

end
