(* ===== verification/Host_List.thy ===== *)
theory Host_List
  imports Msgblock Fifo_Contract
begin

text \<open>
  The circular, doubly linked lists of \<open>klippy/chelper/list.h\<close>, which hold every queue of the host's
  C code. The store maps each \<open>struct list_node\<close> to its two pointers; the \<open>root\<close> of a list head is
  a node like the others, so nodes and heads have one type of addresses.
\<close>

section \<open>Translation\<close>

record 'n links =
  nxt :: "'n \<Rightarrow> 'n"
  prv :: "'n \<Rightarrow> 'n"

definition set_nxt :: "'n \<Rightarrow> 'n \<Rightarrow> 'n links \<Rightarrow> 'n links" where
  "set_nxt a b m = m\<lparr>nxt := (nxt m)(a := b)\<rparr>"

definition set_prv :: "'n \<Rightarrow> 'n \<Rightarrow> 'n links \<Rightarrow> 'n links" where
  "set_prv a b m = m\<lparr>prv := (prv m)(a := b)\<rparr>"

definition list_init :: "'n \<Rightarrow> 'n links \<Rightarrow> 'n links" where
  "list_init h m = set_prv h h (set_nxt h h m)"

definition list_empty :: "'n \<Rightarrow> 'n links \<Rightarrow> bool" where
  "list_empty h m = (nxt m h = h)"

definition list_is_first :: "'n \<Rightarrow> 'n \<Rightarrow> 'n links \<Rightarrow> bool" where
  "list_is_first n h m = (prv m n = h)"

definition list_is_last :: "'n \<Rightarrow> 'n \<Rightarrow> 'n links \<Rightarrow> bool" where
  "list_is_last n h m = (nxt m n = h)"

definition list_del :: "'n \<Rightarrow> 'n links \<Rightarrow> 'n links" where
  "list_del n m =
     (let p = prv m n; q = nxt m n; m = set_prv q p m in set_nxt p q m)"

text \<open>\<open>__list_add\<close>, whose second and third arguments are called \<open>prev\<close> and \<open>next\<close>.\<close>

definition list_add :: "'n \<Rightarrow> 'n \<Rightarrow> 'n \<Rightarrow> 'n links \<Rightarrow> 'n links" where
  "list_add n p q m =
     (let m = set_prv q n m; m = set_nxt n q m; m = set_prv n p m in set_nxt p n m)"

definition list_add_after :: "'n \<Rightarrow> 'n \<Rightarrow> 'n links \<Rightarrow> 'n links" where
  "list_add_after n p m = list_add n p (nxt m p) m"

definition list_add_before :: "'n \<Rightarrow> 'n \<Rightarrow> 'n links \<Rightarrow> 'n links" where
  "list_add_before n q m = list_add n (prv m q) q m"

definition list_add_head :: "'n \<Rightarrow> 'n \<Rightarrow> 'n links \<Rightarrow> 'n links" where
  "list_add_head n h m = list_add_after n h m"

definition list_add_tail :: "'n \<Rightarrow> 'n \<Rightarrow> 'n links \<Rightarrow> 'n links" where
  "list_add_tail n h m = list_add_before n h m"

text \<open>\<open>list_join_tail\<close> does not touch the head \<open>a\<close> of the list it appends.\<close>

definition list_join_tail :: "'n \<Rightarrow> 'n \<Rightarrow> 'n links \<Rightarrow> 'n links" where
  "list_join_tail a h m =
     (if list_empty a m then m
      else let p = prv m h; q = h; first = nxt m a; last = prv m a;
               m = set_prv first p m;
               m = set_nxt p first m;
               m = set_nxt last q m
           in set_prv q last m)"

text \<open>\<open>list_first_entry\<close> and \<open>list_last_entry\<close>.\<close>

definition list_first :: "'n \<Rightarrow> 'n links \<Rightarrow> 'n" where
  "list_first h m = nxt m h"

definition list_last :: "'n \<Rightarrow> 'n links \<Rightarrow> 'n" where
  "list_last h m = prv m h"

text \<open>
  The nodes \<open>list_for_each_entry\<close> visits from \<open>pos\<close>; \<open>None\<close> when they are more than \<open>fuel\<close>.
\<close>

fun list_for_each :: "nat \<Rightarrow> 'n \<Rightarrow> 'n \<Rightarrow> 'n links \<Rightarrow> 'n list option" where
  "list_for_each fuel pos h m =
     (if pos = h then Some []
      else (case fuel of
              0 \<Rightarrow> None
            | Suc f \<Rightarrow> map_option (\<lambda>xs. pos # xs) (list_for_each f (nxt m pos) h m)))"

declare list_for_each.simps [simp del]

text \<open>
  The loop of \<open>message_queue_free\<close>, for a list of at most \<open>fuel\<close> messages: the freed messages, in
  order, and the list that remains.
\<close>

fun message_queue_free :: "nat \<Rightarrow> 'n \<Rightarrow> 'n links \<Rightarrow> ('n list \<times> 'n links) option" where
  "message_queue_free fuel root m =
     (if list_empty root m then Some ([], m)
      else (case fuel of
              0 \<Rightarrow> None
            | Suc f \<Rightarrow>
                let qm = list_first root m; m = list_del qm m in
                map_option (map_prod (\<lambda>xs. qm # xs) (\<lambda>m. m)) (message_queue_free f root m)))"

declare message_queue_free.simps [simp del]

section \<open>The lists a store holds\<close>

text \<open>
  \<open>path m a xs b\<close>: the nodes \<open>a\<close>, \<open>xs\<close>, \<open>b\<close> are linked in both directions. A list with head \<open>h\<close> is a
  path from \<open>h\<close> back to \<open>h\<close> through distinct nodes.
\<close>

fun path :: "'n links \<Rightarrow> 'n \<Rightarrow> 'n list \<Rightarrow> 'n \<Rightarrow> bool" where
  "path m a [] b \<longleftrightarrow> nxt m a = b \<and> prv m b = a"
| "path m a (x # xs) b \<longleftrightarrow> nxt m a = x \<and> prv m x = a \<and> path m x xs b"

definition dlist :: "'n links \<Rightarrow> 'n \<Rightarrow> 'n list \<Rightarrow> bool" where
  "dlist m h xs \<longleftrightarrow> distinct (h # xs) \<and> path m h xs h"

lemma links_sel [simp]:
  "nxt (set_nxt a b m) = (nxt m)(a := b)" "prv (set_nxt a b m) = prv m"
  "prv (set_prv a b m) = (prv m)(a := b)" "nxt (set_prv a b m) = nxt m"
  by (simp_all add: set_nxt_def set_prv_def)

lemma path_append [simp]:
  "path m a (xs @ y # ys) b \<longleftrightarrow> path m a xs y \<and> path m y ys b"
  by (induction xs arbitrary: a) auto

lemma path_last: "path m a xs b \<Longrightarrow> prv m b = last (a # xs)"
  by (induction xs arbitrary: a) auto

lemma path_snoc: "path m a (xs @ [y]) b \<longleftrightarrow> path m a xs y \<and> nxt m y = b \<and> prv m b = y"
  by simp

lemma path_cong:
  "path m a xs b \<Longrightarrow> (\<And>x. x \<in> set (a # xs) \<Longrightarrow> nxt m' x = nxt m x) \<Longrightarrow>
     (\<And>x. x \<in> set (xs @ [b]) \<Longrightarrow> prv m' x = prv m x) \<Longrightarrow> path m' a xs b"
  by (induction xs arbitrary: a) auto

lemma dlist_init: "dlist (list_init h m) h []"
  by (simp add: dlist_def list_init_def)

lemma dlist_empty: "dlist m h xs \<Longrightarrow> list_empty h m \<longleftrightarrow> xs = []"
  by (cases xs) (auto simp: dlist_def list_empty_def)

lemma dlist_first: "dlist m h (x # xs) \<Longrightarrow> list_first h m = x"
  by (simp add: dlist_def list_first_def)

lemma dlist_last: "dlist m h (xs @ [x]) \<Longrightarrow> list_last h m = x"
  by (simp add: dlist_def list_last_def)

lemma dlist_functional: "dlist m h xs \<Longrightarrow> dlist m h ys \<Longrightarrow> xs = ys"
proof -
  have "path m a xs h \<Longrightarrow> path m a ys h \<Longrightarrow> h \<notin> set xs \<Longrightarrow> h \<notin> set ys \<Longrightarrow> xs = ys" for a
  proof (induction xs arbitrary: a ys)
    case Nil
    then show ?case by (cases ys) auto
  next
    case (Cons x xs)
    then show ?case by (cases ys) auto
  qed
  then show "dlist m h xs \<Longrightarrow> dlist m h ys \<Longrightarrow> xs = ys" by (auto simp: dlist_def)
qed

text \<open>
  Cutting and splicing: a path is a front part up to the first node of the rest, and the rest from
  the last node of the front part. Either part survives a change of the links outside it.
\<close>

lemma path_cut:
  "path m a (us @ vs) b \<longleftrightarrow> path m a us (hd (vs @ [b])) \<and> path m (last (a # us)) vs b"
  by (induction us arbitrary: a; cases vs) auto

lemma path_front:
  assumes "path m a xs b" "distinct (a # xs)"
    and "\<And>x. x \<in> set (a # xs) \<Longrightarrow> x \<noteq> last (a # xs) \<Longrightarrow> nxt m' x = nxt m x"
    and "\<And>x. x \<in> set xs \<Longrightarrow> prv m' x = prv m x"
    and "nxt m' (last (a # xs)) = c" "prv m' c = last (a # xs)"
  shows "path m' a xs c"
  using assms
proof (induction xs arbitrary: a)
  case Nil
  then show ?case by simp
next
  case (Cons x xs)
  have "last (x # xs) \<in> set (x # xs)" by (rule last_in_set) simp
  then have "a \<noteq> last (x # xs)" using Cons.prems(2) by auto
  moreover from Cons.prems have "path m' x xs c" by (intro Cons.IH) auto
  ultimately show ?case using Cons.prems by auto
qed

lemma path_back:
  assumes "path m a xs b" "distinct (xs @ [b])"
    and "\<And>x. x \<in> set xs \<Longrightarrow> nxt m' x = nxt m x"
    and "\<And>x. x \<in> set (xs @ [b]) \<Longrightarrow> x \<noteq> hd (xs @ [b]) \<Longrightarrow> prv m' x = prv m x"
    and "nxt m' c = hd (xs @ [b])" "prv m' (hd (xs @ [b])) = c"
  shows "path m' c xs b"
proof (cases xs)
  case Nil
  with assms show ?thesis by simp
next
  case (Cons x ys)
  have "path m' x ys b"
    by (rule path_cong [of m]) (use assms Cons in auto)
  with assms Cons show ?thesis by simp
qed

lemma dlist_insert:
  assumes d: "dlist m h (us @ vs)" and n: "n \<noteq> h" "n \<notin> set us" "n \<notin> set vs"
  shows "dlist (list_add n (last (h # us)) (hd (vs @ [h])) m) h (us @ n # vs)"
proof -
  define p where "p = last (h # us)"
  define q where "q = hd (vs @ [h])"
  let ?m = "list_add n p q m"
  have p: "p \<in> set (h # us)" unfolding p_def by (rule last_in_set) simp
  have q: "q \<in> set (vs @ [h])" unfolding q_def by (rule hd_in_set) simp
  have dis: "distinct (h # us)" "distinct (vs @ [h])" "set us \<inter> set vs = {}" "h \<notin> set us" "h \<notin> set vs"
    using d by (auto simp: dlist_def)
  have c: "path m h us q" "path m p vs h" using d by (simp_all add: dlist_def path_cut p_def q_def)
  have np: "n \<noteq> p" "n \<noteq> q" using p q n by auto
  have links: "nxt ?m = (nxt m)(n := q, p := n)" "prv ?m = (prv m)(q := n, n := p)"
    by (simp_all add: list_add_def Let_def)
  have "path ?m h us n"
    by (rule path_front [OF c(1) dis(1), folded p_def]) (use np q n dis in \<open>auto simp: links\<close>)
  moreover have "path ?m n vs h"
    by (rule path_back [OF c(2) dis(2), folded q_def]) (use np p q n dis in \<open>auto simp: links split: if_splits\<close>)
  ultimately show ?thesis using d n unfolding p_def [symmetric] q_def [symmetric]
    by (auto simp: dlist_def)
qed

lemma dlist_delete:
  assumes d: "dlist m h (us @ n # vs)"
  shows "dlist (list_del n m) h (us @ vs)"
proof -
  define p where "p = last (h # us)"
  define q where "q = hd (vs @ [h])"
  let ?m = "list_del n m"
  have p: "p \<in> set (h # us)" unfolding p_def by (rule last_in_set) simp
  have q: "q \<in> set (vs @ [h])" unfolding q_def by (rule hd_in_set) simp
  have dis: "distinct (h # us)" "distinct (vs @ [h])" "set us \<inter> set vs = {}" "h \<notin> set us" "h \<notin> set vs"
    using d by (auto simp: dlist_def)
  have c: "path m h us n" "path m n vs h" using d by (simp_all add: dlist_def)
  have nq: "prv m n = p" "nxt m n = q"
    using path_last [OF c(1)] c(2) by (simp_all add: p_def q_def) (cases vs; simp)
  have links: "nxt ?m = (nxt m)(p := q)" "prv ?m = (prv m)(q := p)"
    by (simp_all add: list_del_def Let_def nq)
  have "path ?m h us q"
    by (rule path_front [OF c(1) dis(1), folded p_def]) (use q dis in \<open>auto simp: links\<close>)
  moreover have "path ?m p vs h"
    by (rule path_back [OF c(2) dis(2), folded q_def]) (use p q dis in \<open>auto simp: links split: if_splits\<close>)
  ultimately show ?thesis using d by (simp add: dlist_def path_cut p_def q_def)
qed

lemma dlist_ends: "dlist m h xs \<Longrightarrow> nxt m h = hd (xs @ [h]) \<and> prv m h = last (h # xs)"
  by (cases xs) (auto simp: dlist_def dest: path_last)

lemma dlist_add_tail:
  "dlist m h xs \<Longrightarrow> n \<notin> set (h # xs) \<Longrightarrow> dlist (list_add_tail n h m) h (xs @ [n])"
  using dlist_insert [of m h xs "[]" n] dlist_ends [of m h xs]
  by (simp add: list_add_tail_def list_add_before_def)

lemma dlist_add_head:
  "dlist m h xs \<Longrightarrow> n \<notin> set (h # xs) \<Longrightarrow> dlist (list_add_head n h m) h (n # xs)"
  using dlist_insert [of m h "[]" xs n] dlist_ends [of m h xs]
  by (simp add: list_add_head_def list_add_after_def)

lemma dlist_join_tail:
  assumes a: "dlist m a ys" and h: "dlist m h xs" and dis: "set (a # ys) \<inter> set (h # xs) = {}"
  shows "dlist (list_join_tail a h m) h (xs @ ys)"
proof (cases ys)
  case Nil
  then show ?thesis using dlist_empty [OF a] h by (simp add: list_join_tail_def)
next
  case (Cons y zs)
  let ?m = "list_join_tail a h m" and ?p = "last (h # xs)" and ?l = "last ys"
  have e: "\<not> list_empty a m" using dlist_empty [OF a] Cons by simp
  have ends: "nxt m a = y" "prv m a = ?l" "prv m h = ?p"
    using dlist_ends [OF a] dlist_ends [OF h] Cons by auto
  have l: "?l \<in> set ys" using Cons by simp
  have p: "?p \<in> set (h # xs)" by (rule last_in_set) simp
  have ph: "path m h xs h" "distinct (h # xs)" using h by (simp_all add: dlist_def)
  have py: "path m y zs a" "distinct (y # zs)" using a Cons by (auto simp: dlist_def)
  have lz: "last (y # zs) = ?l" by (simp add: Cons)
  have links: "nxt ?m = (nxt m)(?p := y, ?l := h)" "prv ?m = (prv m)(y := ?p, h := ?l)"
    using e by (simp_all add: list_join_tail_def Let_def ends)
  have d: "?p \<noteq> ?l" "y \<noteq> h" "y \<notin> set xs" "?p \<notin> set ys" "?l \<notin> set (h # xs)" "h \<notin> set ys" "h \<notin> set zs"
    using dis l p Cons by auto
  have "path ?m h xs y"
    by (rule path_front [OF ph]) (use d ph in \<open>auto simp: links\<close>)
  moreover have "path ?m y zs h"
    by (rule path_front [OF py]) (use d py in \<open>auto simp: links lz Cons\<close>)
  ultimately show ?thesis using h a dis Cons by (auto simp: dlist_def)
qed

section \<open>Loops over a list\<close>

lemma for_each_path:
  "path m a xs h \<Longrightarrow> h \<notin> set xs \<Longrightarrow> length xs \<le> fuel \<Longrightarrow> list_for_each fuel (nxt m a) h m = Some xs"
proof (induction xs arbitrary: a fuel)
  case Nil
  then show ?case by (simp add: list_for_each.simps)
next
  case (Cons x xs)
  then obtain f where f: "fuel = Suc f" "length xs \<le> f" by (cases fuel) auto
  have a: "nxt m a = x" "x \<noteq> h" "path m x xs h" using Cons.prems by auto
  show ?case unfolding a(1)
    by (subst list_for_each.simps) (use Cons.IH [OF a(3)] Cons.prems f a in simp)
qed

lemma queue_free_all:
  "dlist m h xs \<Longrightarrow> length xs \<le> fuel \<Longrightarrow>
     \<exists>m'. message_queue_free fuel h m = Some (xs, m') \<and> dlist m' h []"
proof (induction xs arbitrary: m fuel)
  case Nil
  then show ?case using dlist_empty [of m h "[]"] by (subst message_queue_free.simps) simp
next
  case (Cons x xs)
  then obtain f where f: "fuel = Suc f" "length xs \<le> f" by (cases fuel) auto
  have "dlist (list_del x m) h xs" using dlist_delete [of m h "[]" x xs] Cons.prems by simp
  from Cons.IH [OF this f(2)] show ?case
    using dlist_empty [OF Cons.prems(1)] dlist_first [OF Cons.prems(1)]
    by (subst message_queue_free.simps) (auto simp: f Let_def)
qed

section \<open>A list is a queue\<close>

definition list_fresh :: "'n \<Rightarrow> 'n \<Rightarrow> 'n links \<Rightarrow> bool" where
  "list_fresh h n m \<longleftrightarrow> (\<forall>xs. dlist m h xs \<longrightarrow> n \<notin> set (h # xs))"

text \<open>How the program takes the first entry of a queue: \<open>list_first_entry\<close> and \<open>list_del\<close>.\<close>

definition list_pop :: "'n \<Rightarrow> 'n links \<Rightarrow> ('n \<times> 'n links) option" where
  "list_pop h m =
     (if list_empty h m then None else let n = list_first h m in Some (n, list_del n m))"

interpretation list_queue: fifo "\<lambda>m xs. dlist m h xs" "list_fresh h" "\<lambda>n m. Some (list_add_tail n h m)" "list_pop h" for h
proof
  fix m xs x m'
  assume "dlist m h xs" "list_fresh h x m" "Some (list_add_tail x h m) = Some m'"
  then show "dlist m' h (xs @ [x])" using dlist_add_tail [of m h xs x] by (auto simp: list_fresh_def)
next
  fix m xs x m'
  assume m: "dlist m h xs" and p: "list_pop h m = Some (x, m')"
  then obtain ys where "xs = x # ys"
    using dlist_empty [OF m] by (cases xs) (auto simp: list_pop_def Let_def dlist_first)
  then show "\<exists>ys. xs = x # ys \<and> dlist m' h ys"
    using m p dlist_empty [OF m] dlist_delete [of m h "[]" x ys] by (auto simp: list_pop_def Let_def dlist_first)
next
  fix m xs
  assume "dlist m h xs"
  then show "list_pop h m = None \<longleftrightarrow> xs = []" using dlist_empty [of m h xs] by (auto simp: list_pop_def Let_def)
qed

lemma list_freshI: "dlist m h xs \<Longrightarrow> n \<notin> set (h # xs) \<Longrightarrow> list_fresh h n m"
  unfolding list_fresh_def by (metis dlist_functional)

section \<open>Properties\<close>

text \<open>
  C24: The host's linked lists are queues: over any sequence of \<open>list_add_tail\<close> of nodes that are not
  in the list and of taking and deleting the first entry, the entries come out in the order they
  went in, none lost and none twice, and the list that remains is exactly the rest.
\<close>

theorem list_queue_order:
  assumes "dlist m h xs"
    and "queue_run (list_fresh h) (\<lambda>n m. Some (list_add_tail n h m)) (list_pop h) m i d m'"
  shows "\<exists>ys. dlist m' h ys \<and> xs @ i = d @ ys"
  using list_queue.run_order [OF assms(2,1)] .

theorem list_queue_order_witness:
  "\<exists>m' ys. dlist m' (0::nat) ys \<and> [1, 2] = [1] @ ys"
proof -
  let ?m = "list_init (0::nat) \<lparr>nxt = \<lambda>n. n, prv = \<lambda>n. n\<rparr>"
  let ?m1 = "list_add_tail 1 0 ?m" and ?m2 = "list_add_tail 2 0 (list_add_tail 1 0 ?m)"
  have d: "dlist ?m 0 []" by (rule dlist_init)
  have d1: "dlist ?m1 0 [1]" using dlist_add_tail [OF d, of 1] by simp
  have d2: "dlist ?m2 0 [1, 2]" using dlist_add_tail [OF d1, of 2] by simp
  have p: "list_pop 0 ?m2 = Some (1, list_del 1 ?m2)"
    using dlist_empty [OF d2] dlist_first [OF d2] by (simp add: list_pop_def Let_def)
  have f: "list_fresh 0 1 ?m" "list_fresh 0 2 ?m1"
    by (rule list_freshI [OF d], simp) (rule list_freshI [OF d1], simp)
  have "queue_run (list_fresh 0) (\<lambda>n m. Some (list_add_tail n 0 m)) (list_pop 0) ?m [1, 2] [1]
      (list_del 1 ?m2)"
    by (rule run_push [where x = 1], rule f, rule refl, rule run_push [where x = 2], rule f, rule refl,
        rule run_pop, rule p, rule run_done)
  from list_queue_order [OF d this] show ?thesis by auto
qed

text \<open>
  \<open>list_join_tail\<close> moves a whole batch in constant time: two disjoint lists become one, in order,
  and every later deletion from any position of the joined list leaves the others in order.
\<close>

theorem list_join_tail_appends:
  assumes "dlist m a ys" "dlist m h xs" "set (a # ys) \<inter> set (h # xs) = {}" "xs @ ys = us @ n # vs"
  shows "dlist (list_join_tail a h m) h (xs @ ys) \<and>
    dlist (list_del n (list_join_tail a h m)) h (us @ vs)"
  using dlist_join_tail [OF assms(1-3)] dlist_delete [of "list_join_tail a h m" h us n vs] assms(4)
  by simp

theorem list_join_tail_appends_witness:
  "dlist (list_del 1 (list_join_tail (0::nat) 2
     \<lparr>nxt = id(0 := 1, 1 := 0, 2 := 3, 3 := 2), prv = id(0 := 1, 1 := 0, 2 := 3, 3 := 2)\<rparr>)) 2 [3]"
proof -
  let ?m = "\<lparr>nxt = id(0 := 1, 1 := 0, 2 := 3, 3 := 2), prv = id(0 := 1, 1 := 0, 2 := 3, 3 := 2)\<rparr> :: nat links"
  have "dlist ?m 0 [1]" "dlist ?m 2 [3]" "set [0, 1] \<inter> set [2, 3 :: nat] = {}" "[3, 1] = [3] @ (1 :: nat) # []"
    by (simp_all add: dlist_def)
  then show ?thesis using list_join_tail_appends [of ?m 0 "[1]" 2 "[3]" "[3]" 1 "[]"] by simp
qed

text \<open>
  \<open>message_queue_free\<close> ends, frees every message of the queue exactly once, in order, and leaves
  the queue empty.
\<close>

theorem message_queue_free_all:
  assumes "dlist m h xs"
  shows "\<exists>m'. message_queue_free (length xs) h m = Some (xs, m') \<and> dlist m' h []"
  using queue_free_all [OF assms order_refl] .

theorem message_queue_free_all_witness:
  "\<exists>m'. message_queue_free 1 (0::nat)
      \<lparr>nxt = id(0 := 1, 1 := 0), prv = id(0 := 1, 1 := 0)\<rparr> = Some ([1], m') \<and> dlist m' 0 []"
proof -
  have "dlist (\<lparr>nxt = id(0 := 1, 1 := 0), prv = id(0 := 1, 1 := 0)\<rparr> :: nat links) 0 [1]"
    by (simp add: dlist_def)
  from message_queue_free_all [OF this] show ?thesis by simp
qed

end
