(* ===== verification/Step_Compress.thy ===== *)
theory Step_Compress
  imports Host_List
begin

text \<open>
  Step compression, the arithmetic half of \<open>klippy/chelper/stepcompress.c\<close>: finding the longest
  \<open>interval, count, add\<close> sequence that meets a list of step times within their error bounds, and the
  check of such a sequence. The \<open>int32_t\<close> locals are integers; a result outside 32 bits is undefined
  in C and ends a function with \<open>None\<close>.
\<close>

section \<open>Translation\<close>

subsection \<open>Signed 32 bit arithmetic\<close>

definition fits :: "int list \<Rightarrow> bool" where
  "fits xs = list_all (\<lambda>x. - (2 ^ 31) \<le> x \<and> x < 2 ^ 31) xs"

definition idiv_up :: "int \<Rightarrow> int \<Rightarrow> int option" where
  "idiv_up n d =
     (if n \<ge> 0 then (if fits [n + d] then Some (c_div (n + d - 1) d) else None)
      else Some (c_div n d))"

definition idiv_down :: "int \<Rightarrow> int \<Rightarrow> int option" where
  "idiv_down n d =
     (if n \<ge> 0 then Some (c_div n d)
      else if fits [n - d] then Some (c_div (n - d + 1) d) else None)"

subsection \<open>The steps to cover\<close>

record points =
  minp :: int
  maxp :: int

text \<open>\<open>struct stepcompress\<close>, as far as the search reads it.\<close>

record step_queue =
  queue :: "u32 list"       \<comment> \<open>the cells from \<open>queue\<close> to \<open>queue_end\<close>\<close>
  queue_pos :: nat          \<comment> \<open>\<open>queue_pos - queue\<close>\<close>
  queue_next :: nat         \<comment> \<open>\<open>queue_next - queue\<close>\<close>
  max_error :: u32
  last_step_clock :: u64

text \<open>\<open>minmax_point(sc, sc->queue_pos + i)\<close>\<close>

definition minmax_point :: "'z step_queue_scheme \<Rightarrow> nat \<Rightarrow> points" where
  "minmax_point sc i =
     (let lsc = ucast (last_step_clock sc);
          point = queue sc ! (queue_pos sc + i) - lsc;
          prevpoint = (if i > 0 then queue sc ! (queue_pos sc + i - 1) - lsc else 0);
          max_err = (point - prevpoint) div 2;
          max_err = (if max_err > max_error sc then max_error sc else max_err)
      in \<lparr>minp = sint (point - max_err), maxp = sint point\<rparr>)"

record step_move =
  sm_interval :: u32
  sm_count :: u16
  sm_add :: u16

definition mk_move :: "int \<Rightarrow> int \<Rightarrow> int \<Rightarrow> step_move" where
  "mk_move interval count add =
     \<lparr>sm_interval = of_int interval, sm_count = of_int count, sm_add = of_int add\<rparr>"

subsection \<open>The search\<close>

text \<open>\<open>if (m * n < lo) m = idiv_up(lo, n)\<close> and \<open>if (m * n > hi) m = idiv_down(hi, n)\<close>\<close>

definition raise_min :: "int \<Rightarrow> int \<Rightarrow> int \<Rightarrow> int option" where
  "raise_min m n lo =
     (if \<not> fits [m * n, lo] then None else if m * n < lo then idiv_up lo n else Some m)"

definition lower_max :: "int \<Rightarrow> int \<Rightarrow> int \<Rightarrow> int option" where
  "lower_max m n hi =
     (if \<not> fits [m * n, hi] then None else if m * n > hi then idiv_down hi n else Some m)"

text \<open>
  The inner loop: how many of the \<open>n\<close> points a sequence with the given \<open>add\<close> reaches. It returns
  with a sequence that covers all points (\<open>Covers\<close>, with interval and count), or is left at the
  point \<open>nextcount\<close> that no interval reaches (\<open>Fails_at\<close>).
\<close>

datatype extension =
    Covers int nat
  | Fails_at nat int int int   \<comment> \<open>\<open>nextcount, nextmininterval, nextmaxinterval, interval\<close>\<close>

function bisect_extend ::
    "(nat \<Rightarrow> points) \<Rightarrow> nat \<Rightarrow> int \<Rightarrow> nat \<Rightarrow> int \<Rightarrow> int \<Rightarrow> int \<Rightarrow> extension option" where
  "bisect_extend pt n add count nextmin nextmax interval =
     (let nextcount = count + 1 in
      if nextcount - 1 \<ge> n then Some (Covers interval (nextcount - 1))
      else
        let nextpoint = pt (nextcount - 1); nc = int nextcount;
            nextaddfactor = nc * (nc - 1) div 2; c = add * nextaddfactor in
        if \<not> fits [nc * (nc - 1), c] then None
        else case raise_min nextmin nc (minp nextpoint - c) of
          None \<Rightarrow> None
        | Some nextmin \<Rightarrow>
            (case lower_max nextmax nc (maxp nextpoint - c) of
               None \<Rightarrow> None
             | Some nextmax \<Rightarrow>
                 if nextmin > nextmax then Some (Fails_at nextcount nextmin nextmax interval)
                 else bisect_extend pt n add nextcount nextmin nextmax nextmax))"
  by pat_completeness auto
termination bisect_extend
  by (relation "measure (\<lambda>(pt, n, add, count, nextmin, nextmax, interval). n - count)") auto

declare bisect_extend.simps [simp del]

text \<open>The variables of the outer loop.\<close>

record bisect =
  outer_mininterval :: int
  outer_maxinterval :: int
  b_add :: int
  minadd :: int
  maxadd :: int
  bestinterval :: int
  bestcount :: int
  bestadd :: int
  bestreach :: int
  zerointerval :: int
  zerocount :: int

definition bisect_start :: "points \<Rightarrow> bisect" where
  "bisect_start point =
     \<lparr>outer_mininterval = minp point, outer_maxinterval = maxp point,
      b_add = 0, minadd = -0x8000, maxadd = 0x7fff,
      bestinterval = 0, bestcount = 1, bestadd = 1, bestreach = - (2 ^ 31),
      zerointerval = 0, zerocount = 0\<rparr>"

text \<open>Behind the outer loop: prefer \<open>add = 0\<close> if it is similar to the best sequence.\<close>

definition bisect_finish :: "bisect \<Rightarrow> step_move" where
  "bisect_finish b =
     (if zerocount b + c_div (zerocount b) 16 \<ge> bestcount b
      then mk_move (zerointerval b) (zerocount b) 0
      else mk_move (bestinterval b) (bestcount b) (bestadd b))"

text \<open>\<open>Check if this is the best sequence found so far\<close>\<close>

definition is_better :: "int \<Rightarrow> int \<Rightarrow> bisect \<Rightarrow> bool" where
  "is_better reach interval b \<longleftrightarrow>
     reach > bestreach b \<or> (reach = bestreach b \<and> interval > bestinterval b)"

definition record_best :: "int \<Rightarrow> int \<Rightarrow> int \<Rightarrow> bisect \<Rightarrow> bisect" where
  "record_best reach interval count b =
     (let b = b\<lparr>bestinterval := interval, bestcount := count, bestadd := b_add b, bestreach := reach\<rparr>
      in if b_add b = 0 then b\<lparr>zerointerval := interval, zerocount := count\<rparr> else b)"

text \<open>The maximum valid deviation between two sequences limits the range of \<open>add\<close>.\<close>

definition errdelta :: "u32 \<Rightarrow> int \<Rightarrow> int" where
  "errdelta max_err count = sint (max_err * 11 div of_int (count * count))"

definition limit_deviation :: "u32 \<Rightarrow> int \<Rightarrow> bisect \<Rightarrow> bisect option" where
  "limit_deviation max_err count b =
     (if count > 1 then
        let e = errdelta max_err count; lo = b_add b - e; hi = b_add b + e in
        if \<not> fits [count * count, lo, hi] then None
        else let b = (if minadd b < lo then b\<lparr>minadd := lo\<rparr> else b)
             in Some (if maxadd b > hi then b\<lparr>maxadd := hi\<rparr> else b)
      else Some b)"

text \<open>The last part of the loop body, from \<open>Check if a greater or lesser add\<close> on.\<close>

definition bisect_narrow ::
    "points \<Rightarrow> u32 \<Rightarrow> nat \<Rightarrow> int \<Rightarrow> int \<Rightarrow> int \<Rightarrow> bisect \<Rightarrow> (bisect + step_move) option" where
  "bisect_narrow nextpoint max_err nextcount nextmin nextmax interval b =
     (let nc = int nextcount; add = b_add b; nextaddfactor = nc * (nc - 1) div 2;
          nextreach = add * nextaddfactor + interval * nc in
      if \<not> fits [nc * (nc - 1), add * nextaddfactor, interval * nc, nextreach] then None
      else
        let b = (if nextreach < minp nextpoint
                 then b\<lparr>minadd := add + 1, outer_maxinterval := nextmax\<rparr>
                 else b\<lparr>maxadd := add - 1, outer_mininterval := nextmin\<rparr>) in
        case limit_deviation max_err (nc - 1) b of
          None \<Rightarrow> None
        | Some b \<Rightarrow>
            let c = outer_maxinterval b * nc in
            if \<not> fits [c] then None
            else case raise_min (minadd b) nextaddfactor (minp nextpoint - c) of
              None \<Rightarrow> None
            | Some lo \<Rightarrow>
                let c = outer_mininterval b * nc in
                if \<not> fits [c] then None
                else case lower_max (maxadd b) nextaddfactor (maxp nextpoint - c) of
                  None \<Rightarrow> None
                | Some hi \<Rightarrow>
                    let b = b\<lparr>minadd := lo, maxadd := hi\<rparr> in
                    Some (if lo > hi then Inr (bisect_finish b)
                          else Inl (b\<lparr>b_add := hi - c_div (hi - lo) 4\<rparr>)))"

definition bisect_step :: "(nat \<Rightarrow> points) \<Rightarrow> nat \<Rightarrow> u32 \<Rightarrow> bisect \<Rightarrow> (bisect + step_move) option" where
  "bisect_step pt n max_err b =
     (case bisect_extend pt n (b_add b) 1 (outer_mininterval b) (outer_maxinterval b)
             (outer_maxinterval b) of
        None \<Rightarrow> None
      | Some (Covers interval count) \<Rightarrow> Some (Inr (mk_move interval (int count) (b_add b)))
      | Some (Fails_at nextcount nextmin nextmax interval) \<Rightarrow>
          let count = int nextcount - 1; addfactor = count * (count - 1) div 2;
              reach = b_add b * addfactor + interval * count in
          if \<not> fits [count * (count - 1), b_add b * addfactor, interval * count, reach] then None
          else
            let better = is_better reach interval b;
                b = (if better then record_best reach interval count b else b) in
            if better \<and> count > 0x200 then Some (Inr (bisect_finish b))
            else bisect_narrow (pt (nextcount - 1)) max_err nextcount nextmin nextmax interval b)"

text \<open>
  The outer loop: \<open>None\<close> would be not returning, \<open>Some None\<close> is undefined behaviour,
  \<open>Some (Some m)\<close> the move.
\<close>

partial_function (option) bisect_loop ::
    "(nat \<Rightarrow> points) \<Rightarrow> nat \<Rightarrow> u32 \<Rightarrow> bisect \<Rightarrow> step_move option option" where
  "bisect_loop pt n max_err b =
     (case bisect_step pt n max_err b of
        None \<Rightarrow> Some None
      | Some (Inr m) \<Rightarrow> Some (Some m)
      | Some (Inl b) \<Rightarrow> bisect_loop pt n max_err b)"

declare bisect_loop.simps [code]

definition compress_bisect_add :: "'z step_queue_scheme \<Rightarrow> step_move option option" where
  "compress_bisect_add sc =
     (let qlast = queue_next sc;
          qlast = (if qlast > queue_pos sc + 65535 then queue_pos sc + 65535 else qlast)
      in bisect_loop (minmax_point sc) (qlast - queue_pos sc) (max_error sc)
           (bisect_start (minmax_point sc 0)))"

subsection \<open>The check\<close>

definition ERROR_RET :: int where "ERROR_RET = -989898989"

text \<open>The loop of \<open>check_line\<close> over the \<open>n\<close> steps from \<open>i\<close> on.\<close>

fun check_points :: "(nat \<Rightarrow> points) \<Rightarrow> u16 \<Rightarrow> nat \<Rightarrow> nat \<Rightarrow> u32 \<Rightarrow> u32 \<Rightarrow> int" where
  "check_points pt add i 0 interval p = 0"
| "check_points pt add i (Suc n) interval p =
     (let point = pt i; p = p + interval in
      if p < of_int (minp point) \<or> p > of_int (maxp point) then ERROR_RET
      else if interval \<ge> 0x80000000 then ERROR_RET
      else check_points pt add (i + 1) n (interval + scast add) p)"

definition check_line :: "'z step_queue_scheme \<Rightarrow> step_move \<Rightarrow> int" where
  "check_line sc move =
     (if sm_count move = 0 \<or> (sm_interval move = 0 \<and> sm_add move = 0 \<and> sm_count move > 1)
           \<or> sm_interval move \<ge> 0x80000000
      then ERROR_RET
      else check_points (minmax_point sc) (sm_add move) 0 (unat (sm_count move)) (sm_interval move) 0)"

section \<open>Division\<close>

lemma fits_Nil [simp]: "fits []"
  by (simp add: fits_def)

lemma fits_Cons [simp]: "fits (x # xs) \<longleftrightarrow> - (2 ^ 31) \<le> x \<and> x < 2 ^ 31 \<and> fits xs"
  by (simp add: fits_def)

lemma div_bounds: "0 < d \<Longrightarrow> (n div d) * d \<le> n \<and> n < (n div d + 1) * d" for n d :: int
proof -
  assume d: "0 < d"
  have "n = (n div d) * d + n mod d" by simp
  moreover have "(n div d + 1) * d = (n div d) * d + d" by (simp add: algebra_simps)
  ultimately show ?thesis using pos_mod_bound [OF d, of n] pos_mod_sign [OF d, of n] by linarith
qed

lemma idiv_up_ceiling:
  assumes "idiv_up n d = Some q" "0 < d"
  shows "(q - 1) * d < n \<and> n \<le> q * d"
proof (cases "0 \<le> n")
  case True
  then have "q = (n + d - 1) div d" using assms by (auto simp: idiv_up_def c_div_nonneg split: if_splits)
  then show ?thesis using div_bounds [OF assms(2), of "n + d - 1"] by (simp add: algebra_simps)
next
  case False
  then have "q = - (- n div d)" using assms by (simp add: idiv_up_def c_div_neg)
  then show ?thesis using div_bounds [OF assms(2), of "- n"] by (simp add: algebra_simps)
qed

lemma idiv_down_floor:
  assumes "idiv_down n d = Some q" "0 < d"
  shows "q * d \<le> n \<and> n < (q + 1) * d"
proof (cases "0 \<le> n")
  case True
  then have "q = n div d" using assms by (simp add: idiv_down_def c_div_nonneg)
  then show ?thesis using div_bounds [OF assms(2), of n] by simp
next
  case False
  then have "q = - (- (n - d + 1) div d)"
    using assms c_div_neg [of "n - d + 1" d] by (auto simp: idiv_down_def split: if_splits)
  then show ?thesis using div_bounds [OF assms(2), of "- (n - d + 1)"] by (simp add: algebra_simps)
qed

lemma raise_min_spec:
  assumes "raise_min m n lo = Some m'" "0 < n"
  shows "m \<le> m' \<and> lo \<le> m' * n \<and> (m' = m \<or> (m' - 1) * n < lo)"
proof (cases "m * n < lo")
  case True
  then have i: "idiv_up lo n = Some m'" using assms(1) by (auto simp: raise_min_def split: if_splits)
  have "m * n < m' * n" using True idiv_up_ceiling [OF i assms(2)] by linarith
  then show ?thesis using idiv_up_ceiling [OF i assms(2)] assms(2) by (simp add: mult_less_cancel_right)
next
  case False
  then show ?thesis using assms(1) by (auto simp: raise_min_def split: if_splits)
qed

lemma lower_max_spec:
  assumes "lower_max m n hi = Some m'" "0 < n"
  shows "m' \<le> m \<and> m' * n \<le> hi \<and> (m' = m \<or> hi < (m' + 1) * n)"
proof (cases "m * n > hi")
  case True
  then have i: "idiv_down hi n = Some m'" using assms(1) by (auto simp: lower_max_def split: if_splits)
  have "m' * n < m * n" using True idiv_down_floor [OF i assms(2)] by linarith
  then show ?thesis using idiv_down_floor [OF i assms(2)] assms(2) by (simp add: mult_less_cancel_right)
next
  case False
  then show ?thesis using assms(1) by (auto simp: lower_max_def split: if_splits)
qed

section \<open>Sequences\<close>

text \<open>
  The time of step \<open>k\<close> (from 1) of a sequence, relative to the end of the last move, and what it
  means that the first \<open>k\<close> steps meet their points.
\<close>

definition step_offset :: "int \<Rightarrow> int \<Rightarrow> nat \<Rightarrow> int" where
  "step_offset interval add k = interval * int k + add * (int k * (int k - 1) div 2)"

definition meets :: "(nat \<Rightarrow> points) \<Rightarrow> int \<Rightarrow> int \<Rightarrow> nat \<Rightarrow> bool" where
  "meets pt interval add k \<longleftrightarrow>
     (\<forall>j < k. minp (pt j) \<le> step_offset interval add (j + 1) \<and> step_offset interval add (j + 1) \<le> maxp (pt j))"

lemma meets_Suc:
  "meets pt i a (Suc k) \<longleftrightarrow> meets pt i a k \<and>
     minp (pt k) \<le> step_offset i a (k + 1) \<and> step_offset i a (k + 1) \<le> maxp (pt k)"
  by (auto simp: meets_def less_Suc_eq)

lemma meets_1: "meets pt i a 1 \<longleftrightarrow> minp (pt 0) \<le> i \<and> i \<le> maxp (pt 0)"
  by (simp add: meets_def step_offset_def)

lemma meets_le: "meets pt i a k \<Longrightarrow> j \<le> k \<Longrightarrow> meets pt i a j"
  by (auto simp: meets_def)

lemma extend_spec:
  assumes "bisect_extend pt n add count lo hi i = Some r"
    and "1 \<le> count" "lo \<le> i" "i = hi" "\<forall>x. lo \<le> x \<and> x \<le> hi \<longrightarrow> meets pt x add count"
    and "\<And>k. k < n \<Longrightarrow> minp (pt k) \<le> maxp (pt k)"
  shows "case r of
      Covers j c \<Rightarrow> lo \<le> j \<and> j \<le> hi \<and> meets pt j add c \<and> c = max count n
    | Fails_at c lo' hi' j \<Rightarrow> count < c \<and> c \<le> n \<and> lo \<le> j \<and> j \<le> hi \<and> meets pt j add (c - 1) \<and>
        lo \<le> lo' \<and> hi' \<le> hi \<and>
        (if step_offset j add c < minp (pt (c - 1)) then hi' = j else lo' \<le> j)"
  using assms
proof (induction pt n add count lo hi i rule: bisect_extend.induct)
  case (1 pt n add count lo hi i)
  let ?c = "count + 1" and ?p = "pt count"
  let ?d = "add * (int ?c * (int ?c - 1) div 2)"
  show ?case
  proof (cases "count \<ge> n")
    case True
    with "1.prems" show ?thesis by (auto simp: bisect_extend.simps)
  next
    case False
    have nc: "0 < int ?c" by simp
    from "1.prems"(1) False obtain lo' hi' where
      f: "fits [int ?c * (int ?c - 1), ?d]" and
      lo: "raise_min lo (int ?c) (minp ?p - ?d) = Some lo'" and
      hi: "lower_max hi (int ?c) (maxp ?p - ?d) = Some hi'" and
      r: "(if lo' > hi' then Some (Fails_at ?c lo' hi' i)
           else bisect_extend pt n add ?c lo' hi' hi') = Some r"
      by (subst (asm) bisect_extend.simps) (auto simp: Let_def split: if_splits option.splits)
    note ls = raise_min_spec [OF lo nc] and hs = lower_max_spec [OF hi nc]
    have off: "step_offset x add ?c = x * int ?c + ?d" for x by (simp add: step_offset_def)
    show ?thesis
    proof (cases "lo' > hi'")
      case True
      have pp: "minp ?p \<le> maxp ?p" by (rule "1.prems"(6)) (use False in simp)
      have "if step_offset i add ?c < minp ?p then hi' = i else lo' \<le> i"
      proof (cases "step_offset i add ?c < minp ?p")
        case c: True
        then have "\<not> maxp ?p - ?d < hi * int ?c" using pp off [of i] "1.prems"(4) by simp
        then have "hi' = hi" using hi by (auto simp: lower_max_def split: if_splits)
        with c "1.prems"(4) show ?thesis by simp
      next
        case c: False
        then have "minp ?p - ?d \<le> i * int ?c" using off [of i] by simp
        then have "lo' = lo \<or> (lo' - 1) * int ?c < i * int ?c" using ls by linarith
        then have "lo' \<le> i" using "1.prems"(3) nc by (auto simp: mult_less_cancel_right)
        with c show ?thesis by simp
      qed
      then show ?thesis using True r "1.prems" False ls hs by auto
    next
      case lh: False
      have m: "\<forall>x. lo' \<le> x \<and> x \<le> hi' \<longrightarrow> meets pt x add ?c"
      proof (intro allI impI)
        fix x assume x: "lo' \<le> x \<and> x \<le> hi'"
        have "lo' * int ?c \<le> x * int ?c" "x * int ?c \<le> hi' * int ?c"
          using x by (simp_all add: mult_right_mono)
        then have "minp ?p \<le> step_offset x add ?c" "step_offset x add ?c \<le> maxp ?p"
          using ls hs off [of x] by linarith+
        moreover have "meets pt x add count" using x ls hs "1.prems"(5) by auto
        ultimately show "meets pt x add ?c" using meets_Suc [of pt x add count] by simp
      qed
      have "bisect_extend pt n add ?c lo' hi' hi' = Some r" using r lh by simp
      moreover have "raise_min lo (int ?c) (minp (pt (?c - 1)) - ?d) = Some lo'"
        "lower_max hi (int ?c) (maxp (pt (?c - 1)) - ?d) = Some hi'" using lo hi by simp_all
      ultimately have "case r of
          Covers j c \<Rightarrow> lo' \<le> j \<and> j \<le> hi' \<and> meets pt j add c \<and> c = max ?c n
        | Fails_at c l h j \<Rightarrow> ?c < c \<and> c \<le> n \<and> lo' \<le> j \<and> j \<le> hi' \<and> meets pt j add (c - 1) \<and>
            lo' \<le> l \<and> h \<le> hi' \<and>
            (if step_offset j add c < minp (pt (c - 1)) then h = j else l \<le> j)"
        using f False lh m "1.prems"(6)
        by (intro "1.IH" [OF refl _ refl refl refl refl]) auto
      then show ?thesis using ls hs False by (auto split: extension.splits)
    qed
  qed
qed

section \<open>The search\<close>

text \<open>\<open>same_best\<close>: the best sequences found so far are the same.\<close>

definition same_best :: "bisect \<Rightarrow> bisect \<Rightarrow> bool" where
  "same_best b b' \<longleftrightarrow> bestinterval b' = bestinterval b \<and> bestcount b' = bestcount b \<and>
     bestadd b' = bestadd b \<and> bestreach b' = bestreach b \<and>
     zerointerval b' = zerointerval b \<and> zerocount b' = zerocount b"

lemma finish_cong: "same_best b b' \<Longrightarrow> bisect_finish b' = bisect_finish b"
  by (simp add: same_best_def bisect_finish_def)

lemma limit_spec:
  assumes "limit_deviation m c b = Some b'"
  shows "minadd b \<le> minadd b' \<and> maxadd b' \<le> maxadd b \<and> same_best b b' \<and> b_add b' = b_add b \<and>
    outer_mininterval b' = outer_mininterval b \<and> outer_maxinterval b' = outer_maxinterval b"
  using assms by (auto simp: limit_deviation_def same_best_def Let_def split: if_splits)

lemma c_div_quarter: "0 \<le> x \<Longrightarrow> 0 \<le> c_div x 4 \<and> c_div x 4 \<le> x"
  by (simp add: c_div_nonneg) linarith

text \<open>
  Narrowing moves one end of the range of \<open>add\<close> past the value just tried, and one bound of the
  first interval.
\<close>

lemma narrow_spec:
  assumes "bisect_narrow p m c lo hi i b = Some r" "2 \<le> c"
    and range: "minadd b \<le> b_add b" "b_add b \<le> maxadd b"
  shows "case r of
      Inr mv \<Rightarrow> mv = bisect_finish b
    | Inl b' \<Rightarrow> same_best b b' \<and> minadd b \<le> minadd b' \<and> maxadd b' \<le> maxadd b \<and>
        minadd b' \<le> b_add b' \<and> b_add b' \<le> maxadd b' \<and>
        (if step_offset i (b_add b) c < minp p
         then b_add b < minadd b' \<and> outer_maxinterval b' = hi \<and>
           outer_mininterval b' = outer_mininterval b
         else maxadd b' < b_add b \<and> outer_mininterval b' = lo \<and>
           outer_maxinterval b' = outer_maxinterval b)"
proof -
  let ?n = "int c * (int c - 1) div 2"
  define b1 where "b1 = (if b_add b * ?n + i * int c < minp p
      then b\<lparr>minadd := b_add b + 1, outer_maxinterval := hi\<rparr>
      else b\<lparr>maxadd := b_add b - 1, outer_mininterval := lo\<rparr>)"
  have n: "0 < ?n"
  proof -
    have "2 * 1 \<le> int c * (int c - 1)" by (rule mult_mono) (use assms(2) in auto)
    then show ?thesis by (simp add: zdiv_mono1 [of 2 _ 2, simplified] pos_imp_zdiv_pos_iff)
  qed
  from assms(1) obtain b2 l h where
    b2: "limit_deviation m (int c - 1) b1 = Some b2" and
    l: "raise_min (minadd b2) ?n (minp p - outer_maxinterval b2 * int c) = Some l" and
    h: "lower_max (maxadd b2) ?n (maxp p - outer_mininterval b2 * int c) = Some h" and
    r: "r = (if l > h then Inr (bisect_finish (b2\<lparr>minadd := l, maxadd := h\<rparr>))
       else Inl (b2\<lparr>minadd := l, maxadd := h, b_add := h - c_div (h - l) 4\<rparr>))"
    by (auto simp: bisect_narrow_def Let_def b1_def split: if_splits option.splits)
  have off: "step_offset i (b_add b) c = b_add b * ?n + i * int c"
    by (simp add: step_offset_def)
  have b1: "same_best b b1" by (simp add: b1_def same_best_def)
  have sb: "same_best b b2" using limit_spec [OF b2] b1 by (simp add: same_best_def)
  note ls = raise_min_spec [OF l n] and hs = lower_max_spec [OF h n] and bs = limit_spec [OF b2]
  show ?thesis
  proof (cases "l > h")
    case True
    then show ?thesis using r sb finish_cong [of b "b2\<lparr>minadd := l, maxadd := h\<rparr>"]
      by (auto simp: same_best_def)
  next
    case False
    then have q: "l \<le> h - c_div (h - l) 4" "h - c_div (h - l) 4 \<le> h"
      using c_div_quarter [of "h - l"] by auto
    define b' where "b' = b2\<lparr>minadd := l, maxadd := h, b_add := h - c_div (h - l) 4\<rparr>"
    have f: "minadd b' = l" "maxadd b' = h" "b_add b' = h - c_div (h - l) 4" "same_best b b'"
      "outer_mininterval b' = outer_mininterval b1" "outer_maxinterval b' = outer_maxinterval b1"
      using sb bs by (simp_all add: b'_def same_best_def)
    have le: "minadd b1 \<le> l" "h \<le> maxadd b1" using ls hs bs by auto
    have r': "r = Inl b'" using r False by (simp add: b'_def)
    show ?thesis
    proof (cases "b_add b * ?n + i * int c < minp p")
      case True
      then have "minadd b1 = b_add b + 1" "maxadd b1 = maxadd b" "outer_maxinterval b1 = hi"
        "outer_mininterval b1 = outer_mininterval b" by (simp_all add: b1_def)
      then show ?thesis unfolding off r' using True f le q range by simp
    next
      case nb: False
      then have "minadd b1 = minadd b" "maxadd b1 = b_add b - 1" "outer_mininterval b1 = lo"
        "outer_maxinterval b1 = outer_maxinterval b" by (simp_all add: b1_def)
      then show ?thesis unfolding off r' using nb f le q range by simp
    qed
  qed
qed

text \<open>
  A sequence the search may return; and the invariant of the outer loop. Until the first iteration
  has recorded one there is no best sequence, but then \<open>add\<close> is 0 and any sequence is better.
\<close>

definition found :: "(nat \<Rightarrow> points) \<Rightarrow> nat \<Rightarrow> int \<Rightarrow> int \<Rightarrow> int \<Rightarrow> bool" where
  "found pt n interval count add \<longleftrightarrow>
     (\<exists>k. count = int k \<and> 1 \<le> k \<and> k \<le> n \<and> meets pt interval add k \<and> -0x8000 \<le> add \<and> add \<le> 0x7fff)"

definition has_best :: "(nat \<Rightarrow> points) \<Rightarrow> nat \<Rightarrow> bisect \<Rightarrow> bool" where
  "has_best pt n b \<longleftrightarrow> found pt n (bestinterval b) (bestcount b) (bestadd b) \<and>
     found pt n (zerointerval b) (zerocount b) 0"

definition bisect_inv :: "(nat \<Rightarrow> points) \<Rightarrow> nat \<Rightarrow> bisect \<Rightarrow> bool" where
  "bisect_inv pt n b \<longleftrightarrow>
     minp (pt 0) \<le> outer_mininterval b \<and> outer_mininterval b \<le> outer_maxinterval b \<and>
     outer_maxinterval b \<le> maxp (pt 0) \<and>
     -0x8000 \<le> minadd b \<and> minadd b \<le> b_add b \<and> b_add b \<le> maxadd b \<and> maxadd b \<le> 0x7fff \<and>
     (has_best pt n b \<or> b_add b = 0 \<and> bestreach b = - (2 ^ 31))"

definition move_found :: "(nat \<Rightarrow> points) \<Rightarrow> nat \<Rightarrow> step_move \<Rightarrow> bool" where
  "move_found pt n m \<longleftrightarrow> (\<exists>i c a. m = mk_move i c a \<and> found pt n i c a)"

lemma finish_found: "has_best pt n b \<Longrightarrow> move_found pt n (bisect_finish b)"
  by (auto simp: bisect_finish_def move_found_def has_best_def)

lemma has_best_cong: "same_best b b' \<Longrightarrow> has_best pt n b' = has_best pt n b"
  by (simp add: same_best_def has_best_def)

lemma step_inv:
  assumes "bisect_step pt n me b = Some r" "bisect_inv pt n b" "1 \<le> n"
    and "\<And>k. k < n \<Longrightarrow> minp (pt k) \<le> maxp (pt k)" "0 \<le> minp (pt 0)"
  shows "case r of Inl b' \<Rightarrow> bisect_inv pt n b' | Inr m \<Rightarrow> move_found pt n m"
proof -
  note inv = assms(2)[unfolded bisect_inv_def]
  let ?lo = "outer_mininterval b" and ?hi = "outer_maxinterval b"
  from assms(1) obtain e where e: "bisect_extend pt n (b_add b) 1 ?lo ?hi ?hi = Some e"
    by (auto simp: bisect_step_def split: option.splits)
  have m1: "\<forall>x. ?lo \<le> x \<and> x \<le> ?hi \<longrightarrow> meets pt x (b_add b) 1"
    using inv unfolding meets_1 by auto
  note es = extend_spec [OF e le_refl _ refl m1 assms(4)]
  show ?thesis
  proof (cases e)
    case (Covers j c)
    with es inv assms(3) have "found pt n j (int c) (b_add b)" by (auto simp: found_def)
    then have "move_found pt n (mk_move j (int c) (b_add b))" unfolding move_found_def by blast
    then show ?thesis using assms(1) e Covers by (auto simp: bisect_step_def)
  next
    case (Fails_at c lo hi j)
    with es inv have c: "2 \<le> c" "c \<le> n" "?lo \<le> j" "j \<le> ?hi" "meets pt j (b_add b) (c - 1)" "?lo \<le> lo" "hi \<le> ?hi"
      "if step_offset j (b_add b) c < minp (pt (c - 1)) then hi = j else lo \<le> j" by auto
    let ?cnt = "int c - 1"
    let ?reach = "b_add b * (?cnt * (?cnt - 1) div 2) + j * ?cnt"
    define b1 where "b1 = (if is_better ?reach j b then record_best ?reach j ?cnt b else b)"
    have f: "found pt n j ?cnt (b_add b)"
      using c inv by (auto simp: found_def intro!: exI [of _ "c - 1"])
    have b1: "has_best pt n b1"
    proof (cases "has_best pt n b")
      case True
      then show ?thesis using f by (auto simp: b1_def record_best_def Let_def has_best_def)
    next
      case False
      then have z: "b_add b = 0" "bestreach b = - (2 ^ 31)" using inv by auto
      have "0 \<le> j * ?cnt" using c inv assms(5) by (intro mult_nonneg_nonneg) auto
      then have "is_better ?reach j b" using z by (simp add: is_better_def)
      then show ?thesis using f z by (simp add: b1_def record_best_def Let_def has_best_def)
    qed
    have same: "minadd b1 = minadd b" "maxadd b1 = maxadd b" "b_add b1 = b_add b"
      "outer_mininterval b1 = ?lo" "outer_maxinterval b1 = ?hi"
      by (simp_all add: b1_def record_best_def Let_def)
    from assms(1) e Fails_at have
      r: "r = Inr (bisect_finish b1) \<or> bisect_narrow (pt (c - 1)) me c lo hi j b1 = Some r"
      by (auto simp: bisect_step_def Let_def b1_def split: if_splits)
    show ?thesis
    proof (cases "r = Inr (bisect_finish b1)")
      case True
      with finish_found [OF b1] show ?thesis by simp
    next
      case False
      with r have n: "bisect_narrow (pt (c - 1)) me c lo hi j b1 = Some r" by simp
      have ns: "case r of
          Inr mv \<Rightarrow> mv = bisect_finish b1
        | Inl b' \<Rightarrow> same_best b1 b' \<and> minadd b \<le> minadd b' \<and> maxadd b' \<le> maxadd b \<and>
            minadd b' \<le> b_add b' \<and> b_add b' \<le> maxadd b' \<and>
            (if step_offset j (b_add b) c < minp (pt (c - 1))
             then b_add b < minadd b' \<and> outer_maxinterval b' = hi \<and> outer_mininterval b' = ?lo
             else maxadd b' < b_add b \<and> outer_mininterval b' = lo \<and> outer_maxinterval b' = ?hi)"
        using narrow_spec [OF n c(1)] inv unfolding same by simp
      show ?thesis
      proof (cases r)
        case (Inr mv)
        with ns finish_found [OF b1] show ?thesis by simp
      next
        case (Inl b')
        then have "has_best pt n b'" using ns b1 has_best_cong [of b1 b' pt n] by simp
        then show ?thesis using Inl ns c inv by (auto simp: bisect_inv_def split: if_splits)
      qed
    qed
  qed
qed

lemma extend_forward:
  "bisect_extend pt n add count lo hi i = Some (Fails_at c lo' hi' j) \<Longrightarrow> count < c"
proof (induction pt n add count lo hi i rule: bisect_extend.induct)
  case (1 pt n add count lo hi i)
  show ?case
  proof (cases "count \<ge> n")
    case True
    with "1.prems" show ?thesis by (simp add: bisect_extend.simps)
  next
    case False
    let ?c = "count + 1"
    let ?d = "add * (int ?c * (int ?c - 1) div 2)"
    from "1.prems" False obtain l h where f: "fits [int ?c * (int ?c - 1), ?d]"
      and l: "raise_min lo (int ?c) (minp (pt (?c - 1)) - ?d) = Some l"
      and h: "lower_max hi (int ?c) (maxp (pt (?c - 1)) - ?d) = Some h"
      and r: "(if l > h then Some (Fails_at ?c l h i) else bisect_extend pt n add ?c l h h) =
        Some (Fails_at c lo' hi' j)"
      by (subst (asm) bisect_extend.simps) (auto simp: Let_def split: if_splits option.splits)
    show ?thesis
    proof (cases "l > h")
      case True
      then show ?thesis using r by simp
    next
      case lh: False
      have "?c < c"
        by (rule "1.IH" [OF refl _ refl refl refl refl _ l h lh]) (use False f lh r in auto)
      then show ?thesis by simp
    qed
  qed
qed

text \<open>Every iteration of the outer loop that does not end it shrinks the range of \<open>add\<close>.\<close>

lemma step_shrinks:
  assumes "bisect_step pt n me b = Some (Inl b')" "minadd b \<le> b_add b" "b_add b \<le> maxadd b"
  shows "minadd b' \<le> b_add b' \<and> b_add b' \<le> maxadd b' \<and>
    nat (maxadd b' - minadd b') < nat (maxadd b - minadd b)"
proof -
  from assms(1) obtain c lo hi j b1 where
    e: "bisect_extend pt n (b_add b) 1 (outer_mininterval b) (outer_maxinterval b) (outer_maxinterval b) =
      Some (Fails_at c lo hi j)" and
    n: "bisect_narrow (pt (c - 1)) me c lo hi j b1 = Some (Inl b')" and
    b1: "minadd b1 = minadd b" "maxadd b1 = maxadd b" "b_add b1 = b_add b"
    by (auto simp: bisect_step_def Let_def record_best_def split: option.splits extension.splits if_splits)
  have c: "2 \<le> c" using extend_forward [OF e] by simp
  from narrow_spec [OF n c] assms(2,3) show ?thesis unfolding b1 by (auto split: if_splits)
qed

lemma loop_returns:
  "minadd b \<le> b_add b \<Longrightarrow> b_add b \<le> maxadd b \<Longrightarrow> \<exists>r. bisect_loop pt n me b = Some r"
proof (induction "nat (maxadd b - minadd b)" arbitrary: b rule: less_induct)
  case less
  show ?case
  proof (cases "bisect_step pt n me b")
    case None
    then show ?thesis by (subst bisect_loop.simps) simp
  next
    case (Some r)
    show ?thesis
    proof (cases r)
      case (Inl b')
      with Some have st: "bisect_step pt n me b = Some (Inl b')" by simp
      from step_shrinks [OF this less.prems] less.hyps [of b'] show ?thesis
        by (subst bisect_loop.simps) (simp add: st)
    next
      case (Inr m)
      with Some show ?thesis by (subst bisect_loop.simps) simp
    qed
  qed
qed

lemma loop_found:
  assumes "bisect_loop pt n me b = Some r" "r = Some m" "bisect_inv pt n b" "1 \<le> n"
    and "\<And>k. k < n \<Longrightarrow> minp (pt k) \<le> maxp (pt k)" "0 \<le> minp (pt 0)"
  shows "move_found pt n m"
  using assms
proof (induction rule: bisect_loop.raw_induct [rotated, consumes 1, case_names step])
  case (step loop pt n me b r)
  from step.prems step.hyps step.IH step_inv [of pt n me b] show ?case
    by (fastforce split: option.splits sum.splits)
qed

section \<open>The step times of a queue\<close>

text \<open>The time of pending step \<open>k\<close> relative to the last step sent.\<close>

definition due_time :: "'z step_queue_scheme \<Rightarrow> nat \<Rightarrow> int" where
  "due_time sc k = uint (queue sc ! (queue_pos sc + k) - ucast (last_step_clock sc))"

text \<open>
  What \<open>stepcompress_append\<close> is called with: step times that increase and lie less than \<open>2 ^ 31\<close>
  ticks behind the last step sent (further steps take the path of \<open>queue_append_far\<close>).
\<close>

definition times_ok :: "'z step_queue_scheme \<Rightarrow> nat \<Rightarrow> bool" where
  "times_ok sc n \<longleftrightarrow> (\<forall>k < n. due_time sc k < 2 ^ 31) \<and>
     (\<forall>k. k + 1 < n \<longrightarrow> due_time sc k < due_time sc (k + 1))"

lemma due_time_nonneg: "0 \<le> due_time sc k"
  by (simp add: due_time_def)

lemma sint_small: "uint w < 2 ^ 31 \<Longrightarrow> sint w = uint w" for w :: u32
proof -
  assume l: "uint w < 2 ^ 31"
  have "- (2 ^ 31) \<le> uint w" by (rule order_trans [OF _ uint_ge_0]) simp
  with l have "signed_take_bit 31 (uint w) = uint w" by (intro signed_take_bit_int_eq_self)
  then show ?thesis by (simp add: sint_uint)
qed

lemma uint_minus: "b \<le> a \<Longrightarrow> uint (a - b) = uint a - uint b" for a b :: "'a::len word"
  by (simp add: uint_sub_if' word_le_def)

lemma minmax_point_times:
  assumes "times_ok sc n" "k < n"
  defines "prev \<equiv> (if k > 0 then due_time sc (k - 1) else 0)"
  shows "maxp (minmax_point sc k) = due_time sc k \<and>
    minp (minmax_point sc k) =
      due_time sc k - min ((due_time sc k - prev) div 2) (uint (max_error sc)) \<and>
    prev \<le> due_time sc k \<and> (k > 0 \<longrightarrow> prev < due_time sc k)"
proof -
  define pt where "pt = queue sc ! (queue_pos sc + k) - ucast (last_step_clock sc)"
  define pv where "pv = (if k > 0 then queue sc ! (queue_pos sc + k - 1) - ucast (last_step_clock sc) else 0)"
  define e where "e = (if (pt - pv) div 2 > max_error sc then max_error sc else (pt - pv) div 2)"
  have u: "uint pt = due_time sc k" "uint pv = prev"
    by (auto simp: pt_def pv_def due_time_def prev_def)
  have lt: "k > 0 \<longrightarrow> prev < due_time sc k"
    using assms(1,2) by (auto simp: times_ok_def prev_def dest: spec [of _ "k - 1"])
  then have le: "prev \<le> due_time sc k" using due_time_nonneg by (cases "k = 0") (auto simp: prev_def)
  have b: "due_time sc k < 2 ^ 31" using assms(1,2) by (simp add: times_ok_def)
  have pp: "0 \<le> prev" using u(2) by (metis uint_ge_0)
  have "pv \<le> pt" using le by (simp add: word_le_def u)
  then have d: "uint ((pt - pv) div 2) = (due_time sc k - prev) div 2"
    by (simp add: uint_div uint_minus u)
  then have e: "uint e = min ((due_time sc k - prev) div 2) (uint (max_error sc))"
    by (simp add: e_def word_less_def)
  have "(due_time sc k - prev) div 2 \<le> due_time sc k - prev"
    using le div_bounds [of 2 "due_time sc k - prev"] by linarith
  then have em: "uint e \<le> due_time sc k" using e pp by linarith
  then have "e \<le> pt" by (simp add: word_le_def u)
  then have "uint (pt - e) = due_time sc k - uint e" by (simp add: uint_minus u)
  moreover have "0 \<le> uint e" by simp
  ultimately have s: "sint (pt - e) = due_time sc k - uint e" "sint pt = due_time sc k"
    using sint_small [of "pt - e"] sint_small [of pt] b u by linarith+
  have m: "minmax_point sc k = \<lparr>minp = sint (pt - e), maxp = sint pt\<rparr>"
    unfolding minmax_point_def Let_def pt_def pv_def e_def by simp
  show ?thesis using s e le lt by (simp add: m)
qed

lemma points_of_times:
  assumes "times_ok sc n"
  shows "k < n \<Longrightarrow> 0 \<le> minp (minmax_point sc k) \<and> minp (minmax_point sc k) \<le> maxp (minmax_point sc k)
      \<and> maxp (minmax_point sc k) < 2 ^ 31"
    and "k + 1 < n \<Longrightarrow> maxp (minmax_point sc k) < minp (minmax_point sc (k + 1))"
proof -
  show "0 \<le> minp (minmax_point sc k) \<and> minp (minmax_point sc k) \<le> maxp (minmax_point sc k)
      \<and> maxp (minmax_point sc k) < 2 ^ 31" if "k < n"
  proof -
    define prev where "prev = (if k > 0 then due_time sc (k - 1) else 0)"
    note p = minmax_point_times [OF assms that, folded prev_def]
    have "0 \<le> prev" by (simp add: prev_def due_time_nonneg)
    moreover have "due_time sc k < 2 ^ 31" using assms that by (simp add: times_ok_def)
    moreover have "0 \<le> uint (max_error sc)" by simp
    ultimately show ?thesis using p div_bounds [of 2 "due_time sc k - prev"] by linarith
  qed
  show "maxp (minmax_point sc k) < minp (minmax_point sc (k + 1))" if "k + 1 < n"
    using minmax_point_times [OF assms that] minmax_point_times [OF assms, of k] that
      div_bounds [of 2 "due_time sc (k + 1) - due_time sc k"] by simp linarith
qed

section \<open>The check accepts what the search finds\<close>

lemma step_offset_Suc: "step_offset i a (j + 1) = step_offset i a j + (i + a * int j)"
proof -
  have "(int j + 1) * int j = int j * (int j - 1) + int j * 2" by (simp add: algebra_simps)
  then have "(int j + 1) * int j div 2 = int j * (int j - 1) div 2 + int j" by simp
  then show ?thesis by (simp add: step_offset_def algebra_simps)
qed

lemma of_int_less: "0 \<le> x \<Longrightarrow> x < 2 ^ 32 \<Longrightarrow> 0 \<le> y \<Longrightarrow> y < 2 ^ 32 \<Longrightarrow>
    (of_int x :: u32) < of_int y \<longleftrightarrow> x < y"
  by (simp add: word_less_def uint_word_of_int)

lemma scast_add: "-0x8000 \<le> a \<Longrightarrow> a \<le> 0x7fff \<Longrightarrow> (scast (of_int a :: u16) :: u32) = of_int a"
  by transfer (simp add: signed_take_bit_int_eq_self)

lemma sint_16: "-0x8000 \<le> a \<Longrightarrow> a \<le> 0x7fff \<Longrightarrow> sint (of_int a :: u16) = a"
  by transfer (simp add: signed_take_bit_int_eq_self)

lemma check_points_accepts:
  assumes "meets pt i a c" "-0x8000 \<le> a" "a \<le> 0x7fff"
    and "\<And>k. k < c \<Longrightarrow> 0 \<le> minp (pt k) \<and> maxp (pt k) < 2 ^ 31"
    and "\<And>k. k + 1 < c \<Longrightarrow> maxp (pt k) < minp (pt (k + 1))"
  shows "j + n \<le> c \<Longrightarrow>
    check_points pt (of_int a) j n (of_int (i + a * int j)) (of_int (step_offset i a j)) = 0"
proof (induction n arbitrary: j)
  case 0
  show ?case by simp
next
  case (Suc n)
  let ?p = "step_offset i a (j + 1)"
  have j: "j < c" using Suc.prems by simp
  have m: "minp (pt j) \<le> ?p" "?p \<le> maxp (pt j)" using assms(1) j by (auto simp: meets_def)
  have r: "0 \<le> minp (pt j)" "maxp (pt j) < 2 ^ 31" using assms(4) [OF j] by auto
  have prev: "0 \<le> step_offset i a j \<and> step_offset i a j \<le> ?p"
  proof (cases j)
    case 0
    then show ?thesis using m r by (simp add: step_offset_def)
  next
    case (Suc k)
    then have "minp (pt k) \<le> step_offset i a j" "step_offset i a j \<le> maxp (pt k)"
      using assms(1) j by (auto simp: meets_def dest: spec [of _ k])
    then show ?thesis using assms(4) [of k] assms(5) [of k] Suc j m by simp
  qed
  have iv: "i + a * int j = ?p - step_offset i a j" unfolding step_offset_Suc by simp
  have p: "of_int (step_offset i a j) + of_int (i + a * int j) = (of_int ?p :: u32)"
    unfolding step_offset_Suc by simp
  have c1: "\<not> (of_int ?p :: u32) < of_int (minp (pt j))" "\<not> (of_int (maxp (pt j)) :: u32) < of_int ?p"
    using m r by (subst of_int_less; simp)+
  have "\<not> (of_int (i + a * int j) :: u32) \<ge> of_int (2 ^ 31)"
    unfolding not_le by (subst of_int_less) (use iv prev m r in simp_all)
  then have c2: "\<not> (of_int (i + a * int j) :: u32) \<ge> 0x80000000" by simp
  have nx: "of_int (i + a * int j) + scast (of_int a :: u16) = (of_int (i + a * int (j + 1)) :: u32)"
    unfolding scast_add [OF assms(2,3)] by (simp add: algebra_simps)
  have "check_points pt (of_int a) (j + 1) n (of_int (i + a * int (j + 1))) (of_int ?p) = 0"
    by (rule Suc.IH) (use Suc.prems in simp)
  then show ?case unfolding check_points.simps Let_def p nx using c1 c2 by simp
qed

lemma found_fields:
  assumes "found pt n i c a" "0 \<le> minp (pt 0)" "maxp (pt 0) < 2 ^ 31" "n \<le> 65535"
  shows "sm_interval (mk_move i c a) = of_int i" "sm_add (mk_move i c a) = of_int a"
    "int (unat (sm_count (mk_move i c a))) = c" "0 \<le> i" "i < 2 ^ 31"
proof -
  from assms(1) obtain k where k: "c = int k" "1 \<le> k" "k \<le> n" "meets pt i a k" by (auto simp: found_def)
  have "minp (pt 0) \<le> i \<and> i \<le> maxp (pt 0)"
    using meets_le [OF k(4,2)] unfolding meets_1 .
  then show "0 \<le> i" "i < 2 ^ 31" using assms(2,3) by auto
  show "int (unat (sm_count (mk_move i c a))) = c"
    using k assms(4) by (simp add: mk_move_def unat_of_nat)
qed (simp_all add: mk_move_def)

lemma check_accepts_found:
  assumes "move_found (minmax_point sc) n m" "times_ok sc n" "n \<le> 65535"
  shows "check_line sc m = 0 \<and> 1 \<le> unat (sm_count m) \<and> unat (sm_count m) \<le> n"
proof -
  let ?pt = "minmax_point sc"
  from assms(1) obtain i c a where m: "m = mk_move i c a" and f: "found ?pt n i c a"
    by (auto simp: move_found_def)
  then obtain k where k: "c = int k" "1 \<le> k" "k \<le> n" "meets ?pt i a k" "-0x8000 \<le> a" "a \<le> 0x7fff"
    by (auto simp: found_def)
  note pts = points_of_times [OF assms(2)]
  have p0: "0 \<le> minp (?pt 0)" "maxp (?pt 0) < 2 ^ 31" using pts(1) [of 0] k by auto
  note ff = found_fields [OF f p0 assms(3), folded m]
  have cnt: "unat (sm_count m) = k" using ff(3) k(1) by (simp only: of_nat_eq_iff)
  have "check_points ?pt (of_int a) 0 k (of_int (i + a * int 0)) (of_int (step_offset i a 0)) = 0"
    by (rule check_points_accepts [OF k(4-6)]) (use pts k in auto)
  then have cp: "check_points ?pt (sm_add m) 0 (unat (sm_count m)) (sm_interval m) 0 = 0"
    unfolding cnt ff by (simp add: step_offset_def)
  have c0: "sm_count m \<noteq> 0" using cnt k(2) by auto
  have big: "\<not> sm_interval m \<ge> 0x80000000"
  proof -
    have "(of_int i :: u32) < of_int (2 ^ 31)" by (subst of_int_less) (use ff(4,5) in simp_all)
    then show ?thesis unfolding ff by simp
  qed
  have moving: "\<not> (sm_interval m = 0 \<and> sm_add m = 0 \<and> sm_count m > 1)"
  proof
    assume z: "sm_interval m = 0 \<and> sm_add m = 0 \<and> sm_count m > 1"
    have "uint (of_int i :: u32) = i" using ff(4,5) by (simp add: uint_word_of_int)
    then have i: "i = 0" using z unfolding ff by simp
    have a: "a = 0"
    proof -
      have "sint (of_int a :: u16) = a" using k(5,6) by (rule sint_16)
      then show ?thesis using z unfolding ff by simp
    qed
    have "unat (1 :: u16) < unat (sm_count m)" using z by (simp only: word_less_nat_alt)
    then have "1 < k" using cnt by simp
    then have "minp (?pt 1) \<le> step_offset i a 2" using k(4) by (auto simp: meets_def dest: spec [of _ 1] simp: numeral_2_eq_2)
    then have "minp (?pt 1) \<le> 0" by (simp add: i a step_offset_def)
    then show False using pts(2) [of 0] pts(1) [of 0] \<open>1 < k\<close> k(3) by simp
  qed
  have "\<not> (sm_count m = 0 \<or> (sm_interval m = 0 \<and> sm_add m = 0 \<and> sm_count m > 1) \<or>
      sm_interval m \<ge> 0x80000000)" using c0 big moving by blast
  then show ?thesis using cp cnt k unfolding check_line_def by (simp only: if_False)
qed

section \<open>What the check guarantees\<close>

text \<open>The time of step \<open>k + 1\<close> as the micro-controller computes it, in 32 bit arithmetic.\<close>

definition mcu_step_time :: "step_move \<Rightarrow> nat \<Rightarrow> u32" where
  "mcu_step_time m k = of_nat (k + 1) * sm_interval m + of_nat (k * (k + 1) div 2) * scast (sm_add m)"

lemma check_points_bounds:
  assumes "check_points pt add j n (iv + of_nat j * scast add)
      (of_nat j * iv + of_nat (j * (j - 1) div 2) * scast add) = 0" "j \<le> k" "k < j + n"
  shows "of_int (minp (pt k)) \<le> of_nat (k + 1) * iv + of_nat (k * (k + 1) div 2) * (scast add :: u32) \<and>
    of_nat (k + 1) * iv + of_nat (k * (k + 1) div 2) * scast add \<le> of_int (maxp (pt k))"
  using assms
proof (induction n arbitrary: j)
  case 0
  then show ?case by simp
next
  case (Suc n)
  have tri: "(j + 1) * (j + 1 - 1) div 2 = j * (j - 1) div 2 + j"
    by (cases j) (simp_all add: algebra_simps)
  have p: "of_nat j * iv + of_nat (j * (j - 1) div 2) * scast add + (iv + of_nat j * scast add) =
      of_nat (j + 1) * iv + of_nat ((j + 1) * (j + 1 - 1) div 2) * (scast add :: u32)"
    unfolding tri by (simp add: algebra_simps)
  have i: "iv + of_nat j * scast add + scast add = iv + of_nat (j + 1) * (scast add :: u32)"
    by (simp add: algebra_simps)
  from Suc.prems(1) have c: "of_int (minp (pt j)) \<le> of_nat (j + 1) * iv + of_nat ((j + 1) * (j + 1 - 1) div 2) * (scast add :: u32)"
    "of_nat (j + 1) * iv + of_nat ((j + 1) * (j + 1 - 1) div 2) * scast add \<le> of_int (maxp (pt j))"
    "check_points pt add (j + 1) n (iv + of_nat (j + 1) * scast add)
      (of_nat (j + 1) * iv + of_nat ((j + 1) * (j + 1 - 1) div 2) * scast add) = 0"
    unfolding check_points.simps Let_def p i by (auto simp: ERROR_RET_def split: if_splits)
  show ?case
  proof (cases "k = j")
    case True
    then show ?thesis using c by (simp add: mult.commute)
  next
    case False
    then show ?thesis using Suc.IH [OF c(3)] Suc.prems by simp
  qed
qed

section \<open>Overflow\<close>

text \<open>
  Evenly spaced steps are extended with \<open>add = 0\<close> one by one, until \<open>nextcount * (nextcount - 1)\<close>
  leaves 32 bits at \<open>nextcount = 46342\<close>.
\<close>

lemma extend_overflows:
  assumes "46342 \<le> n" "0 \<le> iv" "iv \<le> 46339"
    and "\<And>k. k < n \<Longrightarrow> maxp (pt k) = iv * (int k + 1) \<and> 0 \<le> minp (pt k) \<and> minp (pt k) \<le> maxp (pt k)"
  shows "1 \<le> count \<Longrightarrow> count \<le> 46341 \<Longrightarrow> 0 \<le> lo \<Longrightarrow> lo \<le> iv \<Longrightarrow>
    bisect_extend pt n 0 count lo iv iv = None"
proof (induction "46341 - count" arbitrary: count lo)
  case 0
  then have c: "count = 46341" by simp
  show ?case using assms(1) by (subst bisect_extend.simps) (simp add: c Let_def)
next
  case (Suc x)
  let ?c = "int (count + 1)"
  have c: "count < 46341" "count < n" using Suc assms(1) by auto
  have p: "maxp (pt count) = iv * ?c" "0 \<le> minp (pt count)" "minp (pt count) \<le> iv * ?c"
    using assms(4) [OF c(2)] by (auto simp: add.commute)
  have pos: "0 < ?c" by simp
  have b: "iv * ?c \<le> 46339 * 46341" by (rule mult_mono) (use assms Suc.prems c in auto)
  have b2: "?c * (?c - 1) \<le> 46341 * 46340" by (rule mult_mono) (use c in auto)
  have b3: "lo * ?c \<le> iv * ?c" "0 \<le> lo * ?c" using Suc.prems by (simp_all add: mult_right_mono)
  have b4: "0 \<le> ?c * (?c - 1)" "0 \<le> iv * ?c" using assms(2) by simp_all
  have hi: "lower_max iv ?c (maxp (pt count) - 0) = Some iv"
    using b b4 by (simp add: lower_max_def p(1))
  obtain l where lo: "raise_min lo ?c (minp (pt count) - 0) = Some l"
  proof -
    have "-2147483648 \<le> lo * ?c" "lo * ?c < 2147483648" "minp (pt count) + ?c < 2147483648"
      using b b3 p c by linarith+
    then have "raise_min lo ?c (minp (pt count) - 0) \<noteq> None"
      using p(2) by (simp add: raise_min_def idiv_up_def)
    then show thesis using that by blast
  qed
  have "lo \<le> l" "l = lo \<or> (l - 1) * ?c < iv * ?c"
    using raise_min_spec [OF lo pos] p(3) by linarith+
  then have l: "0 \<le> l" "l \<le> iv" using Suc.prems pos by (auto simp: mult_less_cancel_right)
  have "bisect_extend pt n 0 (count + 1) l iv iv = None"
    by (rule Suc.hyps(1)) (use Suc l c in auto)
  then show ?case
    using c hi lo l b2 b4
    by (subst bisect_extend.simps) (simp add: Let_def)
qed

lemma compress_move_ok:
  assumes "queue_pos sc < queue_next sc" "times_ok sc (queue_next sc - queue_pos sc)"
    and "compress_bisect_add sc = Some (Some m)"
  shows "check_line sc m = 0 \<and> 1 \<le> unat (sm_count m) \<and>
    unat (sm_count m) \<le> queue_next sc - queue_pos sc"
proof -
  define n where "n = min (queue_next sc - queue_pos sc) 65535"
  have n: "1 \<le> n" "n \<le> 65535" "n \<le> queue_next sc - queue_pos sc" using assms(1) by (auto simp: n_def)
  have t: "times_ok sc n" using assms(2) n(3) by (auto simp: times_ok_def)
  note pts = points_of_times(1) [OF t]
  have l: "bisect_loop (minmax_point sc) n (max_error sc) (bisect_start (minmax_point sc 0)) = Some (Some m)"
    using assms(1,3) by (auto simp: compress_bisect_add_def Let_def n_def min_def split: if_splits)
  have inv: "bisect_inv (minmax_point sc) n (bisect_start (minmax_point sc 0))"
    using pts [of 0] n by (simp add: bisect_inv_def bisect_start_def)
  have "move_found (minmax_point sc) n m"
    by (rule loop_found [OF l refl inv n(1)]) (use pts n in auto)
  from check_accepts_found [OF this t n(2)] n(3) show ?thesis by simp
qed

lemma check_line_bounds:
  assumes "check_line sc m = 0" "k < unat (sm_count m)"
  shows "of_int (minp (minmax_point sc k)) \<le> mcu_step_time m k \<and>
    mcu_step_time m k \<le> of_int (maxp (minmax_point sc k))"
proof -
  have "check_points (minmax_point sc) (sm_add m) 0 (unat (sm_count m)) (sm_interval m) 0 = 0"
    using assms(1) by (simp add: check_line_def ERROR_RET_def split: if_splits)
  then show ?thesis
    using check_points_bounds [of "minmax_point sc" "sm_add m" 0 "unat (sm_count m)" "sm_interval m" k]
      assms(2) by (simp add: mcu_step_time_def)
qed

section \<open>A queue of three steps\<close>

definition steps3 :: step_queue where
  "steps3 = \<lparr>queue = [1000, 2000, 3010, 0], queue_pos = 0, queue_next = 3, max_error = 25,
             last_step_clock = 0\<rparr>"

lemma steps3_points:
  "minmax_point steps3 0 = \<lparr>minp = 975, maxp = 1000\<rparr>"
  "minmax_point steps3 (Suc 0) = \<lparr>minp = 1975, maxp = 2000\<rparr>"
  "minmax_point steps3 (Suc (Suc 0)) = \<lparr>minp = 2985, maxp = 3010\<rparr>"
  by (simp_all add: minmax_point_def steps3_def Let_def)

lemma steps3_times: "times_ok steps3 3"
proof -
  have "due_time steps3 0 = 1000" "due_time steps3 (Suc 0) = 2000" "due_time steps3 2 = 3010"
    by (simp_all add: due_time_def steps3_def)
  then show ?thesis
    by (simp add: times_ok_def less_Suc_eq numeral_eq_Suc)
qed

lemma steps3_move: "compress_bisect_add steps3 = Some (Some \<lparr>sm_interval = 1000, sm_count = 3, sm_add = 0\<rparr>)"
proof -
  have e: "bisect_extend (minmax_point steps3) 3 0 (Suc 0) 975 1000 1000 = Some (Covers 1000 3)"
    by (simp add: bisect_extend.simps steps3_points raise_min_def lower_max_def Let_def idiv_up_def
        idiv_down_def c_div_def)
  have "compress_bisect_add steps3 =
      bisect_loop (minmax_point steps3) 3 25 (bisect_start (minmax_point steps3 0))"
    by (simp add: compress_bisect_add_def Let_def) (simp add: steps3_def)
  then show ?thesis
    by (subst (asm) bisect_loop.simps)
      (simp add: bisect_step_def bisect_start_def steps3_points e mk_move_def)
qed

section \<open>Properties\<close>

text \<open>
  C23: The bisection always ends: whatever is queued, \<open>compress_bisect_add\<close> returns (or meets an
  overflow), because every iteration shrinks the range of \<open>add\<close>.
\<close>

theorem compress_bisect_returns:
  "\<exists>r. compress_bisect_add sc = Some r"
  unfolding compress_bisect_add_def Let_def
  by (rule loop_returns) (simp_all add: bisect_start_def)

text \<open>
  C19: What the search finds, the check accepts: for queued step times that increase and lie within
  \<open>2 ^ 31\<close> ticks, a sequence returned by \<open>compress_bisect_add\<close> passes \<open>check_line\<close> and covers at least
  one and at most all of the queued steps.
\<close>

theorem compress_passes_check:
  assumes "queue_pos sc < queue_next sc" "times_ok sc (queue_next sc - queue_pos sc)"
    and "compress_bisect_add sc = Some (Some m)"
  shows "check_line sc m = 0 \<and> 1 \<le> unat (sm_count m) \<and>
    unat (sm_count m) \<le> queue_next sc - queue_pos sc"
  using compress_move_ok [OF assms] .

theorem compress_passes_check_witness:
  "check_line steps3 \<lparr>sm_interval = 1000, sm_count = 3, sm_add = 0\<rparr> = 0"
  using compress_passes_check [OF _ _ steps3_move] steps3_times by (simp add: steps3_def)

text \<open>
  C20: A checked sequence makes the micro-controller step on time: if \<open>check_line\<close> accepts a move, each
  step time that the micro-controller derives from it in 32 bit arithmetic lies between the least and
  the greatest acceptable time of the queued step.
\<close>

theorem check_line_sound:
  assumes "check_line sc m = 0" "k < unat (sm_count m)"
  shows "of_int (minp (minmax_point sc k)) \<le> mcu_step_time m k \<and>
    mcu_step_time m k \<le> of_int (maxp (minmax_point sc k))"
  using check_line_bounds [OF assms] .

theorem check_line_sound_witness:
  "mcu_step_time \<lparr>sm_interval = 1000, sm_count = 3, sm_add = 0\<rparr> 2 \<le> 3010"
proof -
  have "check_line steps3 \<lparr>sm_interval = 1000, sm_count = 3, sm_add = 0\<rparr> = 0"
    by (simp add: check_line_def) (simp add: numeral_3_eq_3 steps3_points Let_def)
  from check_line_sound [OF this, of "Suc (Suc 0)"] show ?thesis
    by (simp add: steps3_points) (simp add: numeral_2_eq_2)
qed

text \<open>
  C25: Long queues overflow: with 46342 or more evenly spaced steps pending (the queue holds up to
  65535), the product \<open>nextcount * (nextcount - 1)\<close> of the search leaves the 32 bits of its type.
\<close>

theorem compress_overflows:
  assumes "46342 \<le> queue_next sc - queue_pos sc" "iv \<le> 46339"
    and "\<And>k. k < queue_next sc - queue_pos sc \<Longrightarrow> due_time sc k = iv * (int k + 1)"
    and "times_ok sc (queue_next sc - queue_pos sc)"
  shows "compress_bisect_add sc = Some None"
proof -
  define n where "n = min (queue_next sc - queue_pos sc) 65535"
  have n: "46342 \<le> n" "n \<le> queue_next sc - queue_pos sc" using assms(1) by (auto simp: n_def)
  have t: "times_ok sc n" using assms(4) n(2) by (auto simp: times_ok_def)
  note pts = points_of_times(1) [OF t]
  have mx: "maxp (minmax_point sc k) = iv * (int k + 1)" if "k < n" for k
    using minmax_point_times [OF t that] assms(3) [of k] that n(2) by simp
  have iv: "0 \<le> iv" using pts [of 0] mx [of 0] n by simp
  have "bisect_extend (minmax_point sc) n 0 1 (minp (minmax_point sc 0)) iv iv = None"
    by (rule extend_overflows [OF n(1) iv assms(2)]) (use pts pts [of 0] mx mx [of 0] n in auto)
  moreover have "maxp (minmax_point sc 0) = iv" using mx [of 0] n by simp
  ultimately have "bisect_step (minmax_point sc) n (max_error sc) (bisect_start (minmax_point sc 0)) = None"
    by (simp add: bisect_step_def bisect_start_def)
  then have "bisect_loop (minmax_point sc) n (max_error sc) (bisect_start (minmax_point sc 0)) = Some None"
    by (subst bisect_loop.simps) simp
  moreover have "queue_pos sc < queue_next sc" using assms(1) by simp
  ultimately show ?thesis
    by (auto simp: compress_bisect_add_def Let_def n_def min_def split: if_splits)
qed

theorem compress_overflows_witness:
  "compress_bisect_add \<lparr>queue = map (\<lambda>k. of_nat (1000 * (k + 1))) [0..<50000], queue_pos = 0,
     queue_next = 50000, max_error = 25, last_step_clock = 0\<rparr> = Some None"
  (is "compress_bisect_add ?sc = _")
proof -
  have r: "due_time ?sc k = 1000 * (int k + 1)" if "k < 50000" for k
  proof -
    have "queue ?sc ! k = of_int (1000 * (int k + 1))" using that by simp
    moreover have "uint (of_int (1000 * (int k + 1)) :: u32) = 1000 * (int k + 1)"
      using that by (simp add: uint_word_of_int del: of_int_mult of_int_add)
    ultimately show ?thesis by (simp add: due_time_def del: of_int_mult of_int_add)
  qed
  have "times_ok ?sc 50000" using r by (simp add: times_ok_def)
  with compress_overflows [of ?sc 1000] r show ?thesis by simp
qed

end
