(* ===== verification/Step_Queue.thy ===== *)
theory Step_Queue
  imports Step_Compress
begin

text \<open>
  The interface of \<open>klippy/chelper/stepcompress.c\<close>: the queue of step times of one stepper, the
  messages generated from it and the history of its moves. A result \<open>Ret r sc\<close> is a return of \<open>r\<close>;
  \<open>Fault\<close> is a write past the end of the queue or an overflow of a signed integer. Times in seconds
  are floating point in the code and enter as the clocks and tests computed from them.
\<close>

section \<open>Translation\<close>

record history_steps =
  first_clock :: u64
  last_clock :: u64
  start_position :: int
  step_count :: int
  hs_interval :: int
  hs_add :: int

text \<open>
  The rest of \<open>struct stepcompress\<close>. \<open>history_list\<close> has the newest move first. \<open>mcu_freq\<close> is
  represented by what it is used for: \<open>expire_clock\<close>, from \<open>last_step_clock\<close> to the clock
  \<open>HISTORY_EXPIRE\<close> seconds earlier (\<open>None\<close> before that time), and \<open>sds_filter\<close>, whether a number of
  ticks is less than \<open>SDS_FILTER_TIME\<close>.
\<close>

record stepcompress = step_queue +
  msg_queue :: "queue_message list"
  sc_oid :: u32
  queue_step_msgtag :: u32
  set_next_step_dir_msgtag :: u32
  sdir :: int
  invert_sdir :: int
  next_step_clock :: u64
  next_step_dir :: int
  last_position :: int
  history_list :: "history_steps list"
  expire_clock :: "u64 \<Rightarrow> u64 option"
  sds_filter :: "int \<Rightarrow> bool"

definition CLOCK_DIFF_MAX :: u64 where "CLOCK_DIFF_MAX = push_bit 28 3"
definition QUEUE_START_SIZE :: nat where "QUEUE_START_SIZE = 1024"
definition UINT64_MAX :: u64 where "UINT64_MAX = 0xFFFFFFFFFFFFFFFF"

subsection \<open>Life cycle\<close>

text \<open>All members are zero; with \<open>mcu_freq\<close> 0 every clock but 0 expires the history up to itself.\<close>

definition stepcompress_alloc :: "u32 \<Rightarrow> stepcompress" where
  "stepcompress_alloc oid =
     \<lparr>queue = [], queue_pos = 0, queue_next = 0, max_error = 0, last_step_clock = 0,
      msg_queue = [], sc_oid = oid, queue_step_msgtag = 0, set_next_step_dir_msgtag = 0,
      sdir = -1, invert_sdir = 0, next_step_clock = 0, next_step_dir = 0,
      last_position = 0, history_list = [],
      expire_clock = (\<lambda>c. if c > 0 then Some c else None), sds_filter = (\<lambda>d. d < 0)\<rparr>"

definition stepcompress_fill ::
    "u32 \<Rightarrow> u32 \<Rightarrow> u32 \<Rightarrow> u32 \<Rightarrow> stepcompress \<Rightarrow> stepcompress" where
  "stepcompress_fill max_err invert queue_step_tag set_dir_tag sc =
     sc\<lparr>max_error := max_err, invert_sdir := (if invert \<noteq> 0 then 1 else 0),
        queue_step_msgtag := queue_step_tag, set_next_step_dir_msgtag := set_dir_tag\<rparr>"

text \<open>\<open>free_history\<close> removes entries from the end of the list, where the oldest are.\<close>

definition free_history :: "u64 \<Rightarrow> stepcompress \<Rightarrow> stepcompress" where
  "free_history end_clock sc =
     sc\<lparr>history_list :=
          rev (dropWhile (\<lambda>hs. \<not> last_clock hs > end_clock) (rev (history_list sc)))\<rparr>"

definition stepcompress_free :: "stepcompress \<Rightarrow> stepcompress" where
  "stepcompress_free sc = free_history UINT64_MAX (sc\<lparr>queue := [], msg_queue := []\<rparr>)"

definition stepcompress_get_oid :: "stepcompress \<Rightarrow> u32" where
  "stepcompress_get_oid sc = sc_oid sc"

definition stepcompress_get_step_dir :: "stepcompress \<Rightarrow> int" where
  "stepcompress_get_step_dir sc = next_step_dir sc"

definition calc_last_step_print_time :: "stepcompress \<Rightarrow> stepcompress" where
  "calc_last_step_print_time sc =
     (case expire_clock sc (last_step_clock sc) of
        None \<Rightarrow> sc
      | Some end_clock \<Rightarrow> free_history end_clock sc)"

definition stepcompress_set_time ::
    "(u64 \<Rightarrow> u64 option) \<Rightarrow> (int \<Rightarrow> bool) \<Rightarrow> stepcompress \<Rightarrow> stepcompress" where
  "stepcompress_set_time expire filt sc =
     calc_last_step_print_time (sc\<lparr>expire_clock := expire, sds_filter := filt\<rparr>)"

subsection \<open>Generating messages\<close>

text \<open>\<open>list_add_tail(&qm->node, &sc->msg_queue)\<close>\<close>

definition add_msg :: "queue_message \<Rightarrow> stepcompress \<Rightarrow> stepcompress" where
  "add_msg qm sc = sc\<lparr>msg_queue := msg_queue sc @ [qm]\<rparr>"

definition queue_step_msg :: "u64 \<Rightarrow> step_move \<Rightarrow> stepcompress \<Rightarrow> queue_message" where
  "queue_step_msg first move sc =
     (let qm = message_alloc_and_encode
                 [queue_step_msgtag sc, sc_oid sc, sm_interval move, ucast (sm_count move),
                  scast (sm_add move)];
          qm = qm\<lparr>min_clock := last_step_clock sc, req_clock := last_step_clock sc\<rparr>
      in if sm_count move = 1 \<and> first \<ge> last_step_clock sc + CLOCK_DIFF_MAX
         then qm\<lparr>req_clock := first\<rparr> else qm)"

definition add_move :: "u64 \<Rightarrow> step_move \<Rightarrow> stepcompress \<Rightarrow> (unit, stepcompress) outcome" where
  "add_move first move sc =
     (let count = uint (sm_count move); addfactor = count * (count - 1) div 2 in
      if \<not> fits [count * (count - 1), sint (sm_add move) * addfactor] then Fault
      else
        let ticks = of_int (sint (sm_add move) * addfactor) + sm_interval move * of_int (count - 1);
            last = first + ucast (ticks :: u32);
            sc = (add_msg (queue_step_msg first move sc) sc)\<lparr>last_step_clock := last\<rparr>;
            hs = \<lparr>first_clock = first, last_clock = last, start_position = last_position sc,
                  step_count = (if sdir sc \<noteq> 0 then count else - count),
                  hs_interval = sint (sm_interval move), hs_add = sint (sm_add move)\<rparr>
        in Ret () (sc\<lparr>last_position := last_position sc + step_count hs,
                      history_list := hs # history_list sc\<rparr>))"

lemma add_move_fields:
  "add_move first move sc = Ret u sc' \<Longrightarrow>
     queue sc' = queue sc \<and> queue_pos sc' = queue_pos sc \<and> queue_next sc' = queue_next sc \<and>
     max_error sc' = max_error sc \<and> sdir sc' = sdir sc \<and> next_step_clock sc' = next_step_clock sc \<and>
     next_step_dir sc' = next_step_dir sc \<and> expire_clock sc' = expire_clock sc \<and>
     sds_filter sc' = sds_filter sc \<and> sc_oid sc' = sc_oid sc \<and> invert_sdir sc' = invert_sdir sc"
  by (auto simp: add_move_def add_msg_def Let_def split: if_splits)

lemma check_line_count: "check_line sc move = 0 \<Longrightarrow> 0 < unat (sm_count move)"
  by (auto simp: check_line_def ERROR_RET_def unat_gt_0 split: if_splits)

text \<open>The loop of \<open>queue_flush\<close>; every accepted move takes at least one step off the queue.\<close>

function flush_loop :: "u64 \<Rightarrow> stepcompress \<Rightarrow> (int, stepcompress) outcome" where
  "flush_loop move_clock sc =
     (if \<not> last_step_clock sc < move_clock then Ret 0 sc
      else case compress_bisect_add sc of
        Some (Some move) \<Rightarrow>
          (let ret = check_line sc move in
           if ret \<noteq> 0 then Ret ret sc
           else andThen (add_move (last_step_clock sc + ucast (sm_interval move)) move sc)
             (\<lambda>_ sc.
                if queue_pos sc + unat (sm_count move) \<ge> queue_next sc
                then Ret 0 (sc\<lparr>queue_pos := 0, queue_next := 0\<rparr>)
                else flush_loop move_clock
                       (sc\<lparr>queue_pos := queue_pos sc + unat (sm_count move)\<rparr>)))
      | _ \<Rightarrow> Fault)"
  by pat_completeness auto
termination flush_loop
proof (relation "measure (\<lambda>(mc, sc). queue_next sc - queue_pos sc)")
  fix mc :: u64 and sc s :: stepcompress and mo move ret u
  assume "ret = check_line sc move" "\<not> ret \<noteq> 0"
    and m: "add_move (last_step_clock sc + ucast (sm_interval move)) move sc = Ret u s"
    and "\<not> queue_next s \<le> queue_pos s + unat (sm_count move)"
  then have "0 < unat (sm_count move)" "queue_pos s + unat (sm_count move) < queue_next s"
    using check_line_count [of sc move] by auto
  then show "((mc, s\<lparr>queue_pos := queue_pos s + unat (sm_count move)\<rparr>), mc, sc)
      \<in> measure (\<lambda>(mc, sc). queue_next sc - queue_pos sc)"
    using add_move_fields [OF m] by (simp del: unat_gt_0)
qed simp

declare flush_loop.simps [simp del]

definition queue_flush :: "u64 \<Rightarrow> stepcompress \<Rightarrow> (int, stepcompress) outcome" where
  "queue_flush move_clock sc =
     (if queue_pos sc \<ge> queue_next sc then Ret 0 sc
      else andThen (flush_loop move_clock sc)
        (\<lambda>ret sc. if ret \<noteq> 0 then Ret ret sc else Ret 0 (calc_last_step_print_time sc)))"

definition stepcompress_flush_far :: "u64 \<Rightarrow> stepcompress \<Rightarrow> (int, stepcompress) outcome" where
  "stepcompress_flush_far abs_step_clock sc =
     (let move = \<lparr>sm_interval = ucast (abs_step_clock - last_step_clock sc), sm_count = 1, sm_add = 0\<rparr> in
      andThen (add_move abs_step_clock move sc)
        (\<lambda>_ sc. Ret 0 (calc_last_step_print_time sc)))"

text \<open>An operation after which the code does \<open>if (ret) return ret;\<close>.\<close>

definition unless_error ::
    "(int, 's) outcome \<Rightarrow> ('s \<Rightarrow> (int, 's) outcome) \<Rightarrow> (int, 's) outcome" where
  "unless_error m f = andThen m (\<lambda>ret sc. if ret \<noteq> 0 then Ret ret sc else f sc)"

definition set_next_step_dir :: "int \<Rightarrow> stepcompress \<Rightarrow> (int, stepcompress) outcome" where
  "set_next_step_dir dir sc =
     (if sdir sc = dir then Ret 0 sc
      else unless_error (queue_flush UINT64_MAX sc)
        (\<lambda>sc.
           let sc = sc\<lparr>sdir := dir\<rparr>;
               qm = message_alloc_and_encode
                      [set_next_step_dir_msgtag sc, sc_oid sc, of_int (dir XOR invert_sdir sc)]
           in Ret 0 (add_msg (qm\<lparr>req_clock := last_step_clock sc\<rparr>) sc)))"

subsection \<open>Adding steps\<close>

text \<open>\<open>*sc->queue_next++ = v\<close>\<close>

definition queue_put :: "u64 \<Rightarrow> stepcompress \<Rightarrow> (int, stepcompress) outcome" where
  "queue_put v sc =
     (if queue_next sc < length (queue sc)
      then Ret 0 (sc\<lparr>queue := (queue sc)[queue_next sc := ucast v], queue_next := queue_next sc + 1\<rparr>)
      else Fault)"

definition queue_append_far :: "stepcompress \<Rightarrow> (int, stepcompress) outcome" where
  "queue_append_far sc =
     (let step_clock = next_step_clock sc; sc = sc\<lparr>next_step_clock := 0\<rparr> in
      unless_error (queue_flush (step_clock - CLOCK_DIFF_MAX + 1) sc)
        (\<lambda>sc.
           if step_clock \<ge> last_step_clock sc + CLOCK_DIFF_MAX
           then stepcompress_flush_far step_clock sc
           else queue_put step_clock sc))"

text \<open>\<open>while (in_use >= alloc) alloc *= 2;\<close>\<close>

function double_alloc :: "nat \<Rightarrow> nat \<Rightarrow> nat" where
  "double_alloc in_use alloc =
     (if in_use \<ge> alloc \<and> alloc \<noteq> 0 then double_alloc in_use (alloc * 2) else alloc)"
  by pat_completeness auto
termination double_alloc
  by (relation "measure (\<lambda>(in_use, alloc). Suc in_use - alloc)") auto

declare double_alloc.simps [simp del]

text \<open>Making room; the new cells of a \<open>realloc\<close> are written before they are read.\<close>

definition queue_make_room :: "stepcompress \<Rightarrow> stepcompress" where
  "queue_make_room sc =
     (if queue_next sc \<ge> length (queue sc) then
        let in_use = queue_next sc - queue_pos sc;
            sc = (if queue_pos sc > 0
                  then sc\<lparr>queue := take in_use (drop (queue_pos sc) (queue sc)) @ drop in_use (queue sc)\<rparr>
                  else
                    let alloc = length (queue sc);
                        alloc = (if alloc = 0 then QUEUE_START_SIZE else alloc);
                        alloc = double_alloc in_use alloc
                    in sc\<lparr>queue := queue sc @ replicate (alloc - length (queue sc)) 0\<rparr>)
        in sc\<lparr>queue_pos := 0, queue_next := in_use\<rparr>
      else sc)"

definition queue_append_extend :: "stepcompress \<Rightarrow> (int, stepcompress) outcome" where
  "queue_append_extend sc =
     unless_error
       (if queue_next sc - queue_pos sc > 65535 + 2000 then
          let flush = queue sc ! (queue_next sc - 65535) - ucast (last_step_clock sc)
          in queue_flush (last_step_clock sc + ucast flush) sc
        else Ret 0 sc)
       (\<lambda>sc.
          let sc = queue_make_room sc in
          unless_error (queue_put (next_step_clock sc) sc)
            (\<lambda>sc. Ret 0 (sc\<lparr>next_step_clock := 0\<rparr>)))"

definition queue_append :: "stepcompress \<Rightarrow> (int, stepcompress) outcome" where
  "queue_append sc =
     unless_error
       (if next_step_dir sc \<noteq> sdir sc then set_next_step_dir (next_step_dir sc) sc else Ret 0 sc)
       (\<lambda>sc.
          if next_step_clock sc \<ge> last_step_clock sc + CLOCK_DIFF_MAX then queue_append_far sc
          else if queue_next sc \<ge> length (queue sc) then queue_append_extend sc
          else unless_error (queue_put (next_step_clock sc) sc)
                 (\<lambda>sc. Ret 0 (sc\<lparr>next_step_clock := 0\<rparr>)))"

text \<open>
  \<open>stepcompress_append\<close>; \<open>rel_sc\<close> is the time of the step in ticks after \<open>last_step_clock\<close>.
\<close>

definition stepcompress_append :: "int \<Rightarrow> u64 \<Rightarrow> stepcompress \<Rightarrow> (int, stepcompress) outcome" where
  "stepcompress_append dir rel_sc sc =
     (let step_clock = last_step_clock sc + rel_sc in
      if next_step_clock sc \<noteq> 0 \<and> dir \<noteq> next_step_dir sc \<and>
         sds_filter sc (sint (step_clock - next_step_clock sc))
      then Ret 0 (sc\<lparr>next_step_clock := 0, next_step_dir := dir\<rparr>)
      else unless_error (if next_step_clock sc \<noteq> 0 then queue_append sc else Ret 0 sc)
        (\<lambda>sc. Ret 0 (sc\<lparr>next_step_clock := step_clock, next_step_dir := dir\<rparr>)))"

definition stepcompress_commit :: "stepcompress \<Rightarrow> (int, stepcompress) outcome" where
  "stepcompress_commit sc = (if next_step_clock sc \<noteq> 0 then queue_append sc else Ret 0 sc)"

definition stepcompress_flush :: "u64 \<Rightarrow> stepcompress \<Rightarrow> (int, stepcompress) outcome" where
  "stepcompress_flush move_clock sc =
     unless_error
       (if next_step_clock sc \<noteq> 0 \<and> move_clock \<ge> next_step_clock sc then queue_append sc else Ret 0 sc)
       (queue_flush move_clock)"

definition stepcompress_reset :: "u64 \<Rightarrow> stepcompress \<Rightarrow> (int, stepcompress) outcome" where
  "stepcompress_reset clock sc =
     unless_error (stepcompress_flush UINT64_MAX sc)
       (\<lambda>sc. Ret 0 (calc_last_step_print_time (sc\<lparr>last_step_clock := clock, sdir := -1\<rparr>)))"

definition stepcompress_set_last_position ::
    "u64 \<Rightarrow> int \<Rightarrow> stepcompress \<Rightarrow> (int, stepcompress) outcome" where
  "stepcompress_set_last_position clock pos sc =
     unless_error (stepcompress_flush UINT64_MAX sc)
       (\<lambda>sc.
          let hs = \<lparr>first_clock = clock, last_clock = clock, start_position = pos,
                    step_count = 0, hs_interval = 0, hs_add = 0\<rparr>
          in Ret 0 (sc\<lparr>last_position := pos, history_list := hs # history_list sc\<rparr>))"

definition stepcompress_queue_msg :: "u32 list \<Rightarrow> stepcompress \<Rightarrow> (int, stepcompress) outcome" where
  "stepcompress_queue_msg data sc =
     unless_error (stepcompress_flush UINT64_MAX sc)
       (\<lambda>sc. let qm = message_alloc_and_encode data
             in Ret 0 (add_msg (qm\<lparr>req_clock := last_step_clock sc\<rparr>) sc))"

subsection \<open>Reading the history\<close>

text \<open>
  The loop of \<open>stepcompress_find_past_position\<close>; \<open>quadratic add interval ticks\<close> stands for the
  floating point solution of the quadratic formula. \<open>None\<close> is an overflow or a division by zero.
\<close>

fun find_position ::
    "(int \<Rightarrow> int \<Rightarrow> int \<Rightarrow> int) \<Rightarrow> u64 \<Rightarrow> int \<Rightarrow> history_steps list \<Rightarrow> int option" where
  "find_position quadratic clock pos [] = Some pos"
| "find_position quadratic clock pos (hs # rest) =
     (if clock < first_clock hs then find_position quadratic clock (start_position hs) rest
      else if clock \<ge> last_clock hs then Some (start_position hs + step_count hs)
      else
        let interval = hs_interval hs; add = hs_add hs;
            elapsed = sint (ucast (clock - first_clock hs) :: u32); ticks = elapsed + interval in
        if \<not> fits [ticks] \<or> (add = 0 \<and> interval = 0) then None
        else
          let offset = (if add = 0 then c_div ticks interval else quadratic add interval ticks) in
          Some (if step_count hs < 0 then start_position hs - offset else start_position hs + offset))"

definition stepcompress_find_past_position ::
    "(int \<Rightarrow> int \<Rightarrow> int \<Rightarrow> int) \<Rightarrow> u64 \<Rightarrow> stepcompress \<Rightarrow> int option" where
  "stepcompress_find_past_position quadratic clock sc =
     find_position quadratic clock (last_position sc) (history_list sc)"

text \<open>The loop of \<open>stepcompress_extract_old\<close>: the entries copied to \<open>p\<close>.\<close>

fun extract_old :: "int \<Rightarrow> u64 \<Rightarrow> u64 \<Rightarrow> int \<Rightarrow> history_steps list \<Rightarrow> history_steps list" where
  "extract_old limit start_clock end_clock res [] = []"
| "extract_old limit start_clock end_clock res (hs # rest) =
     (if start_clock \<ge> last_clock hs \<or> res \<ge> limit then []
      else if end_clock \<le> first_clock hs then extract_old limit start_clock end_clock res rest
      else hs # extract_old limit start_clock end_clock (res + 1) rest)"

definition stepcompress_extract_old ::
    "int \<Rightarrow> u64 \<Rightarrow> u64 \<Rightarrow> stepcompress \<Rightarrow> history_steps list" where
  "stepcompress_extract_old limit start_clock end_clock sc =
     extract_old limit start_clock end_clock 0 (history_list sc)"

section \<open>The queue\<close>

definition pending :: "'z step_queue_scheme \<Rightarrow> u32 list" where
  "pending sc = take (queue_next sc - queue_pos sc) (drop (queue_pos sc) (queue sc))"

definition queue_ok :: "'z step_queue_scheme \<Rightarrow> bool" where
  "queue_ok sc \<longleftrightarrow> queue_pos sc \<le> queue_next sc \<and> queue_next sc \<le> length (queue sc)"

lemma length_steps_pending: "queue_ok sc \<Longrightarrow> length (pending sc) = queue_next sc - queue_pos sc"
  by (auto simp: pending_def queue_ok_def)

lemma pending_Nil: "queue_ok sc \<Longrightarrow> pending sc = [] \<longleftrightarrow> queue_next sc \<le> queue_pos sc"
  by (auto simp: pending_def queue_ok_def)

lemma calc_fields [frame]:
  "queue (calc_last_step_print_time sc) = queue sc"
  "queue_pos (calc_last_step_print_time sc) = queue_pos sc"
  "queue_next (calc_last_step_print_time sc) = queue_next sc"
  "last_step_clock (calc_last_step_print_time sc) = last_step_clock sc"
  "last_position (calc_last_step_print_time sc) = last_position sc"
  "msg_queue (calc_last_step_print_time sc) = msg_queue sc"
  "sdir (calc_last_step_print_time sc) = sdir sc"
  by (simp_all add: calc_last_step_print_time_def free_history_def split: option.splits)

lemma calc_pending [frame]: "pending (calc_last_step_print_time sc) = pending sc"
  by (simp add: pending_def frame)

lemma queue_ok_calc [frame]: "queue_ok (calc_last_step_print_time sc) = queue_ok sc"
  by (simp add: queue_ok_def frame)

text \<open>\<open>k\<close> steps in the direction of the stepper.\<close>

definition toward :: "int \<Rightarrow> nat \<Rightarrow> int" where
  "toward dir k = (if dir \<noteq> 0 then int k else - int k)"

lemma toward_add: "toward dir (j + k) = toward dir j + toward dir k"
  by (simp add: toward_def)

lemma toward_0 [simp]: "toward dir 0 = 0"
  by (simp add: toward_def)

lemma add_move_position:
  "add_move first move sc = Ret u sc' \<Longrightarrow>
     last_position sc' = last_position sc + toward (sdir sc) (unat (sm_count move))"
  by (auto simp: add_move_def add_msg_def Let_def toward_def split: if_splits)

lemma add_move_pending:
  "add_move first move sc = Ret u sc' \<Longrightarrow> queue_pos sc' = queue_pos sc \<and> queue_next sc' = queue_next sc \<and>
     queue sc' = queue sc \<and> sdir sc' = sdir sc \<and> max_error sc' = max_error sc"
  using add_move_fields by blast

text \<open>One iteration of the loop.\<close>

lemma flush_loop_cases:
  assumes "flush_loop mc sc = Ret r sc'"
  obtains (stop) "mc \<le> last_step_clock sc" "r = 0" "sc' = sc"
    | (bad) move where "last_step_clock sc < mc" "compress_bisect_add sc = Some (Some move)"
        "check_line sc move = r" "r \<noteq> 0" "sc' = sc"
    | (last) move s where "last_step_clock sc < mc" "compress_bisect_add sc = Some (Some move)"
        "check_line sc move = 0"
        "add_move (last_step_clock sc + ucast (sm_interval move)) move sc = Ret () s"
        "queue_next sc \<le> queue_pos sc + unat (sm_count move)"
        "r = 0" "sc' = s\<lparr>queue_pos := 0, queue_next := 0\<rparr>"
    | (more) move s where "last_step_clock sc < mc" "compress_bisect_add sc = Some (Some move)"
        "check_line sc move = 0"
        "add_move (last_step_clock sc + ucast (sm_interval move)) move sc = Ret () s"
        "queue_pos sc + unat (sm_count move) < queue_next sc"
        "flush_loop mc (s\<lparr>queue_pos := queue_pos sc + unat (sm_count move)\<rparr>) = Ret r sc'"
proof (cases "last_step_clock sc < mc")
  case False
  then have "flush_loop mc sc = Ret 0 sc" by (subst flush_loop.simps) simp
  with assms have "r = 0" "sc' = sc" by simp_all
  then show thesis using stop False by (simp only: not_less)
next
  case True
  with assms obtain move where c: "compress_bisect_add sc = Some (Some move)"
    by (subst (asm) flush_loop.simps) (auto split: option.splits)
  show thesis
  proof (cases "check_line sc move = 0")
    case False
    with True c have "flush_loop mc sc = Ret (check_line sc move) sc"
      by (subst flush_loop.simps) (simp add: Let_def)
    with assms have "Ret (check_line sc move) sc = Ret r sc'" by (simp only:)
    then have r: "check_line sc move = r" "sc' = sc" by blast+
    from r(1) False have "r \<noteq> 0" by blast
    from bad [OF True c r(1) this r(2)] show thesis .
  next
    case ok: True
    from assms True c ok obtain s where
      m: "add_move (last_step_clock sc + ucast (sm_interval move)) move sc = Ret () s" and
      r: "(if queue_pos s + unat (sm_count move) \<ge> queue_next s
           then Ret 0 (s\<lparr>queue_pos := 0, queue_next := 0\<rparr>)
           else flush_loop mc (s\<lparr>queue_pos := queue_pos s + unat (sm_count move)\<rparr>)) = Ret r sc'"
      by (subst (asm) flush_loop.simps) (auto simp: Let_def)
    have p: "queue_pos s = queue_pos sc" "queue_next s = queue_next sc"
      using add_move_pending [OF m] by auto
    show thesis
      using r last [OF True c ok m] more [OF True c ok m] unfolding p
      by (cases "queue_pos sc + unat (sm_count move) \<ge> queue_next sc") auto
  qed
qed

lemma pending_advance:
  assumes "queue_ok sc" "queue s = queue sc" "queue_next s = queue_next sc"
    and "queue_pos s = queue_pos sc + c" "queue_pos sc + c \<le> queue_next sc"
  shows "queue_ok s \<and> pending s = drop c (pending sc)"
  using assms by (auto simp: queue_ok_def pending_def drop_take add.commute intro: arg_cong2 [where f = take])

section \<open>Flushing\<close>

text \<open>
  The clock after a checked move is the time of its last step, which is not after the last queued
  step it covers; the following steps are still in order behind it.
\<close>

lemma uint_between:
  "of_int a \<le> w \<Longrightarrow> w \<le> of_int b \<Longrightarrow> 0 \<le> a \<Longrightarrow> a < 2 ^ 32 \<Longrightarrow> 0 \<le> b \<Longrightarrow> b < 2 ^ 32 \<Longrightarrow>
     a \<le> uint w \<and> uint w \<le> b" for w :: u32
  by (simp add: word_le_def uint_word_of_int)

lemma ucast_sum: "uint a + uint b = uint c \<Longrightarrow> (ucast a :: u64) + ucast b = ucast c" for a b c :: u32
proof -
  assume "uint a + uint b = uint c"
  then have "(of_int (uint a + uint b) :: u64) = of_int (uint c)" by (simp only:)
  then show ?thesis unfolding of_int_add ucast_eq .
qed
lemma checked_step_times:
  assumes "times_ok sc n" "check_line sc m = 0" "unat (sm_count m) \<le> n" "k < unat (sm_count m)"
  shows "minp (minmax_point sc k) \<le> uint (mcu_step_time m k) \<and> uint (mcu_step_time m k) \<le> due_time sc k"
proof -
  have k: "k < n" using assms(3,4) by simp
  note p = points_of_times(1) [OF assms(1) k] and t = minmax_point_times [OF assms(1) k]
  have "check_points (minmax_point sc) (sm_add m) 0 (unat (sm_count m)) (sm_interval m) 0 = 0"
    using assms(2) by (simp add: check_line_def ERROR_RET_def split: if_splits)
  then have "of_int (minp (minmax_point sc k)) \<le> mcu_step_time m k \<and>
      mcu_step_time m k \<le> of_int (maxp (minmax_point sc k))"
    using check_points_bounds [of "minmax_point sc" "sm_add m" 0 "unat (sm_count m)" "sm_interval m" k]
      assms(4) by (simp add: mcu_step_time_def)
  then have "minp (minmax_point sc k) \<le> uint (mcu_step_time m k) \<and>
      uint (mcu_step_time m k) \<le> maxp (minmax_point sc k)"
    by (elim conjE, intro uint_between) (use p in auto)
  then show ?thesis using t by simp
qed

lemma checked_step_mono:
  assumes "times_ok sc n" "check_line sc m = 0" "unat (sm_count m) \<le> n" "j \<le> k" "k < unat (sm_count m)"
  shows "uint (mcu_step_time m j) \<le> uint (mcu_step_time m k)"
  using assms(4,5)
proof (induction rule: dec_induct)
  case base
  show ?case by simp
next
  case (step i)
  then have i: "i + 1 < n" "Suc i < unat (sm_count m)" using assms(3) by auto
  note a = checked_step_times [OF assms(1-3)]
  have "uint (mcu_step_time m i) \<le> maxp (minmax_point sc i)"
    using a [of i] minmax_point_times [OF assms(1), of i] i by (auto dest: Suc_lessD)
  also have "\<dots> < minp (minmax_point sc (i + 1))" by (rule points_of_times(2) [OF assms(1) i(1)])
  also have "\<dots> \<le> uint (mcu_step_time m (Suc i))" using a [of "Suc i"] i by simp
  finally show ?case using step.IH i by simp
qed

lemma add_move_clock:
  assumes "times_ok sc n" "check_line sc m = 0" "unat (sm_count m) \<le> n"
    and "add_move (last_step_clock sc + ucast (sm_interval m)) m sc = Ret u sc'"
  shows "last_step_clock sc' = last_step_clock sc + ucast (mcu_step_time m (unat (sm_count m) - 1))"
proof -
  let ?c = "unat (sm_count m)"
  obtain l where l: "?c = Suc l" using check_line_count [OF assms(2)] by (cases ?c) auto
  have ci: "uint (sm_count m) = int l + 1" using l by (metis of_nat_Suc uint_nat add.commute)
  let ?ticks = "of_int (sint (sm_add m) * (uint (sm_count m) * (uint (sm_count m) - 1) div 2)) +
      sm_interval m * of_int (uint (sm_count m) - 1) :: u32"
  have lc: "last_step_clock sc' = last_step_clock sc + ucast (sm_interval m) + ucast ?ticks"
    using assms(4) by (auto simp: add_move_def add_msg_def Let_def split: if_splits)
  have tri: "uint (sm_count m) * (uint (sm_count m) - 1) div 2 = int (l * (l + 1) div 2)"
    by (simp add: ci zdiv_int algebra_simps)
  have t: "?ticks = mcu_step_time m l - sm_interval m"
  proof -
    have "of_int (sint (sm_add m) * int q) + iv * of_int (int l + 1 - 1) =
        of_nat (l + 1) * iv + of_nat q * (of_int (sint (sm_add m)) :: u32) - iv" for q iv
      by (simp only: of_int_mult of_int_of_nat_eq of_nat_add of_nat_1 algebra_simps) simp
    then show ?thesis unfolding ci tri [unfolded ci] mcu_step_time_def scast_eq [of "sm_add m"] .
  qed
  have z: "mcu_step_time m 0 = sm_interval m" by (simp add: mcu_step_time_def)
  have "uint (mcu_step_time m 0) \<le> uint (mcu_step_time m l)"
    by (rule checked_step_mono [OF assms(1-3)]) (use l in auto)
  then have "sm_interval m \<le> mcu_step_time m l" unfolding z word_le_def .
  then have u: "uint (sm_interval m) + uint ?ticks = uint (mcu_step_time m l)"
    unfolding t by (simp add: uint_minus)
  have l1: "unat (sm_count m) - 1 = l" using l by simp
  show ?thesis unfolding lc add.assoc ucast_sum [OF u] l1 ..
qed

lemma due_time_mono: "times_ok sc n \<Longrightarrow> i < j \<Longrightarrow> j < n \<Longrightarrow> due_time sc i < due_time sc j"
proof (induction j)
  case 0
  then show ?case by simp
next
  case (Suc j)
  then have "due_time sc j < due_time sc (Suc j)" by (simp add: times_ok_def)
  with Suc show ?case by (cases "i = j") auto
qed

lemma ucast_u32_sum: "(ucast (a + ucast (p :: u32) :: u64) :: u32) = ucast a + p"
  using ucast_u32_add_diff [of a "ucast p"] by (simp add: ucast_u64_u32 algebra_simps)

lemma times_ok_advance:
  assumes "times_ok sc n" "check_line sc m = 0" "unat (sm_count m) \<le> n"
    and "queue s = queue sc" "queue_pos s = queue_pos sc + unat (sm_count m)"
    and "last_step_clock s = last_step_clock sc + ucast (mcu_step_time m (unat (sm_count m) - 1))"
  shows "times_ok s (n - unat (sm_count m))"
proof -
  let ?c = "unat (sm_count m)" and ?p = "mcu_step_time m (unat (sm_count m) - 1)"
  have c: "0 < ?c" by (rule check_line_count [OF assms(2)])
  have p: "uint ?p \<le> due_time sc (?c - 1)"
    using checked_step_times [OF assms(1-3), of "?c - 1"] c by simp
  have r: "due_time s j = due_time sc (?c + j) - uint ?p" if "?c + j < n" for j
  proof -
    have "uint ?p < due_time sc (?c + j)"
      using p due_time_mono [OF assms(1), of "?c - 1" "?c + j"] c that by linarith
    moreover have "queue s ! (queue_pos s + j) - ucast (last_step_clock s) =
        (queue sc ! (queue_pos sc + (?c + j)) - ucast (last_step_clock sc)) - ?p"
      by (simp add: assms(4-6) ucast_u32_sum add.assoc)
    ultimately show ?thesis unfolding due_time_def by (simp add: uint_minus word_le_def)
  qed
  show ?thesis unfolding times_ok_def
  proof (intro conjI allI impI)
    fix k assume "k < n - ?c"
    then have k: "?c + k < n" by simp
    then have "due_time sc (?c + k) < 2 ^ 31" using assms(1) by (simp add: times_ok_def)
    then show "due_time s k < 2 ^ 31" using r [OF k] uint_ge_0 [of ?p] by linarith
  next
    fix k assume "k + 1 < n - ?c"
    then have k: "?c + (k + 1) < n" "?c + k < n" by simp_all
    then have "due_time sc (?c + k) < due_time sc (?c + (k + 1))" using assms(1) by (simp add: times_ok_def)
    then show "due_time s k < due_time s (k + 1)" using r [OF k(1)] r [OF k(2)] by linarith
  qed
qed

text \<open>
  The state behind \<open>queue_flush\<close>: \<open>k\<close> steps have left the front of the queue, and the position has
  moved by them.
\<close>

definition flushed :: "nat \<Rightarrow> stepcompress \<Rightarrow> stepcompress \<Rightarrow> bool" where
  "flushed k sc sc' \<longleftrightarrow> queue_ok sc' \<and> pending sc' = drop k (pending sc) \<and>
     k \<le> length (pending sc) \<and> sdir sc' = sdir sc \<and> queue sc' = queue sc \<and>
     last_position sc' = last_position sc + toward (sdir sc) k \<and>
     times_ok sc' (queue_next sc' - queue_pos sc')"

lemma flush_loop_spec:
  "flush_loop mc sc = Ret r sc' \<Longrightarrow> queue_ok sc \<Longrightarrow> queue_pos sc < queue_next sc \<Longrightarrow>
     times_ok sc (queue_next sc - queue_pos sc) \<Longrightarrow>
     r = 0 \<and> (\<exists>k. flushed k sc sc') \<and> (pending sc' = [] \<or> mc \<le> last_step_clock sc')"
proof (induction "queue_next sc - queue_pos sc" arbitrary: sc rule: less_induct)
  case less
  let ?n = "queue_next sc - queue_pos sc"
  note len = length_steps_pending [OF less.prems(2)]
  from less.prems(1) show ?case
  proof (cases rule: flush_loop_cases)
    case stop
    then have "flushed 0 sc sc'" using less.prems by (simp add: flushed_def)
    with stop show ?thesis by blast
  next
    case (bad move)
    then show ?thesis
      using compress_move_ok [OF less.prems(3,4) bad(2)] by simp
  next
    case (last move s)
    have c: "unat (sm_count move) = ?n"
      using last(5) compress_move_ok [OF less.prems(3,4) last(2)] by linarith
    have "flushed ?n sc sc'"
      using add_move_pending [OF last(4)] add_move_position [OF last(4)] c last(7) len
      by (simp add: flushed_def queue_ok_def pending_def times_ok_def)
    moreover have "pending sc' = []" using last(7) by (simp add: pending_def)
    ultimately show ?thesis using last(6) by blast
  next
    case (more move s)
    let ?c = "unat (sm_count move)"
    let ?s = "s\<lparr>queue_pos := queue_pos sc + ?c\<rparr>"
    note cm = compress_move_ok [OF less.prems(3,4) more(2)]
    have f: "queue ?s = queue sc" "queue_next ?s = queue_next sc" "queue_pos ?s = queue_pos sc + ?c"
      "sdir ?s = sdir sc" "last_position ?s = last_position sc + toward (sdir sc) ?c"
      using add_move_pending [OF more(4)] add_move_position [OF more(4)] by simp_all
    have clk: "last_step_clock ?s = last_step_clock sc + ucast (mcu_step_time move (?c - 1))"
      using add_move_clock [OF less.prems(4) more(3) _ more(4)] cm by simp
    have ok: "queue_ok ?s" "pending ?s = drop ?c (pending sc)"
      using pending_advance [OF less.prems(2) f(1-3)] more(5) by auto
    have t: "times_ok ?s (?n - ?c)"
      by (rule times_ok_advance [OF less.prems(4) more(3) _ f(1,3) clk]) (use cm in simp)
    have n': "queue_next ?s - queue_pos ?s = ?n - ?c" unfolding f by simp
    have "r = 0 \<and> (\<exists>k. flushed k ?s sc') \<and> (pending sc' = [] \<or> mc \<le> last_step_clock sc')"
    proof (rule less.hyps [OF _ more(6) ok(1)])
      show "queue_next ?s - queue_pos ?s < ?n" unfolding n' using cm more(5) by linarith
      show "queue_pos ?s < queue_next ?s" unfolding f using more(5) .
      show "times_ok ?s (queue_next ?s - queue_pos ?s)" unfolding n' by (rule t)
    qed
    then obtain k where k: "r = 0" "flushed k ?s sc'" "pending sc' = [] \<or> mc \<le> last_step_clock sc'"
      by blast
    have "k \<le> length (pending ?s)" using k(2) unfolding flushed_def by blast
    then have "k \<le> length (pending sc) - ?c" by (simp only: ok(2) length_drop)
    then have kl: "?c + k \<le> length (pending sc)" using more(5) len by linarith
    have "flushed (?c + k) sc sc'"
      using k(2) kl ok(2) f unfolding flushed_def by (simp add: toward_add add.commute)
    with k show ?thesis by blast
  qed
qed

lemma flushed_calc: "flushed k sc (calc_last_step_print_time s) = flushed k sc s"
  by (simp add: flushed_def frame times_ok_def due_time_def)

lemma queue_flush_spec:
  assumes "queue_flush mc sc = Ret r sc'" "queue_ok sc"
    and "times_ok sc (queue_next sc - queue_pos sc)"
  shows "r = 0 \<and> (\<exists>k. flushed k sc sc') \<and> (pending sc' = [] \<or> mc \<le> last_step_clock sc')"
proof (cases "queue_next sc \<le> queue_pos sc")
  case True
  then have "r = 0" "sc' = sc" "pending sc = []" using assms pending_Nil by (auto simp: queue_flush_def)
  moreover have "flushed 0 sc sc" using assms by (simp add: flushed_def)
  ultimately show ?thesis by auto
next
  case False
  then obtain r1 s1 where l: "flush_loop mc sc = Ret r1 s1"
    and r: "(if r1 \<noteq> 0 then Ret r1 s1 else Ret 0 (calc_last_step_print_time s1)) = Ret r sc'"
    using assms(1) by (auto simp: queue_flush_def)
  from flush_loop_spec [OF l assms(2) _ assms(3)] False r show ?thesis
    by (auto simp: flushed_calc frame)
qed

section \<open>Room for a step\<close>

lemma double_alloc_room: "0 < alloc \<Longrightarrow> in_use < double_alloc in_use alloc \<and> alloc \<le> double_alloc in_use alloc"
proof (induction in_use alloc rule: double_alloc.induct)
  case (1 in_use alloc)
  then show ?case by (subst (1 2) double_alloc.simps) auto
qed

lemma make_room:
  assumes "queue_ok sc"
  shows "queue_ok (queue_make_room sc) \<and> pending (queue_make_room sc) = pending sc \<and>
    queue_next (queue_make_room sc) < length (queue (queue_make_room sc)) \<and>
    next_step_clock (queue_make_room sc) = next_step_clock sc \<and>
    last_step_clock (queue_make_room sc) = last_step_clock sc"
proof (cases "queue_next sc \<ge> length (queue sc)")
  case False
  then show ?thesis using assms by (simp add: queue_make_room_def)
next
  case True
  with assms have n: "queue_next sc = length (queue sc)" by (simp add: queue_ok_def)
  show ?thesis
  proof (cases "queue_pos sc > 0")
    case p: True
    then show ?thesis using assms n by (auto simp: queue_make_room_def queue_ok_def pending_def Let_def)
  next
    case p: False
    let ?a = "double_alloc (length (queue sc)) (if length (queue sc) = 0 then QUEUE_START_SIZE else length (queue sc))"
    have "length (queue sc) < ?a" using double_alloc_room by (simp add: QUEUE_START_SIZE_def)
    then show ?thesis using p n by (simp add: queue_make_room_def queue_ok_def pending_def Let_def)
  qed
qed

lemma put_spec:
  assumes "queue_ok sc" "queue_next sc < length (queue sc)"
  shows "\<exists>sc'. queue_put v sc = Ret 0 sc' \<and> queue_ok sc' \<and> pending sc' = pending sc @ [ucast v] \<and>
    last_position sc' = last_position sc \<and> last_step_clock sc' = last_step_clock sc \<and>
    msg_queue sc' = msg_queue sc"
proof -
  let ?n = "queue_next sc" and ?p = "queue_pos sc"
  have "take (Suc ?n - ?p) (drop ?p ((queue sc)[?n := ucast v])) =
      take (?n - ?p) (drop ?p (queue sc)) @ [ucast v]"
    using assms by (simp add: queue_ok_def drop_update_swap Suc_diff_le take_Suc_conv_app_nth)
  then show ?thesis using assms by (simp add: queue_put_def pending_def queue_ok_def)
qed

section \<open>Reading the history\<close>

lemma extract_old_take:
  "extract_old limit st en res hs =
     take (nat (limit - res)) (filter (\<lambda>h. first_clock h < en) (takeWhile (\<lambda>h. st < last_clock h) hs))"
proof (induction hs arbitrary: res)
  case Nil
  show ?case by simp
next
  case (Cons h hs)
  have "limit > res \<Longrightarrow> nat (limit - res) = Suc (nat (limit - (res + 1)))" by simp
  with Cons show ?case by (auto simp: not_le not_less)
qed

text \<open>How many of the steps of a move with constant interval are due at \<open>clock\<close>.\<close>

definition steps_due :: "nat \<Rightarrow> nat \<Rightarrow> nat \<Rightarrow> nat \<Rightarrow> nat" where
  "steps_due first iv count clock = card {k. k < count \<and> first + k * iv \<le> clock}"

lemma steps_due_div:
  assumes "0 < iv" "first \<le> clock" "clock < first + (count - 1) * iv"
  shows "steps_due first iv count clock = (clock - first) div iv + 1"
proof -
  let ?q = "(clock - first) div iv"
  have "clock - first < (count - 1) * iv" using assms(2,3) by simp
  then have q: "?q < count - 1" using assms(1) by (simp add: div_less_iff_less_mult)
  have "{k. k < count \<and> first + k * iv \<le> clock} = {k. k < ?q + 1}"
  proof (intro set_eqI)
    fix k
    have "first + k * iv \<le> clock \<longleftrightarrow> k * iv \<le> clock - first" using assms(2) by auto
    also have "\<dots> \<longleftrightarrow> k \<le> ?q" using assms(1) by (simp add: less_eq_div_iff_mult_less_eq)
    finally show "k \<in> {k. k < count \<and> first + k * iv \<le> clock} \<longleftrightarrow> k \<in> {k. k < ?q + 1}"
      using q by auto
  qed
  then show ?thesis by (simp add: steps_due_def)
qed

lemma steps_due_all:
  "first + (count - 1) * iv \<le> clock \<Longrightarrow> steps_due first iv count clock = count"
proof -
  assume l: "first + (count - 1) * iv \<le> clock"
  have "first + k * iv \<le> clock" if "k < count" for k
  proof -
    have "k * iv \<le> (count - 1) * iv" using that by (intro mult_right_mono) auto
    then show ?thesis using l by linarith
  qed
  then have "{k. k < count \<and> first + k * iv \<le> clock} = {k. k < count}" by auto
  then show ?thesis by (simp add: steps_due_def)
qed

lemma sint_elapsed:
  assumes "first \<le> clock" "unat clock - unat first < 2 ^ 31"
  shows "sint (ucast (clock - first :: u64) :: u32) = int (unat clock - unat first)"
proof -
  let ?d = "unat clock - unat first"
  have "of_nat (unat (clock - first)) = clock - first" by simp
  then have c: "clock - first = of_nat ?d" using unat_sub [OF assms(1)] by simp
  have w: "uint (of_nat ?d :: u32) = int ?d"
    using assms(2) by (simp add: unsigned_of_nat take_bit_nat_eq_self)
  have "(ucast (of_nat ?d :: u64) :: u32) = of_nat ?d" using ucast_u32_of_int [of "int ?d"] by simp
  with sint_small [of "of_nat ?d"] w assms(2) show ?thesis unfolding c by simp
qed

lemma c_div_next: "0 < iv \<Longrightarrow> c_div (int d + int iv) (int iv) = int (d div iv + 1)"
  using div_add_self2 [of "int iv" "int d"] by (simp add: c_div_nonneg zdiv_int)

lemma past_position_newer:
  "(\<And>h. h \<in> set newer \<Longrightarrow> clock < first_clock h) \<Longrightarrow>
     \<exists>p. find_position q clock pos (newer @ hs) = find_position q clock p hs"
proof (induction newer arbitrary: pos)
  case Nil
  show ?case by auto
next
  case (Cons h newer)
  then show ?case by simp
qed

lemma flush_loop_last:
  assumes "last_step_clock sc < mc" "compress_bisect_add sc = Some (Some move)" "check_line sc move = 0"
    and "add_move (last_step_clock sc + ucast (sm_interval move)) move sc = Ret () s"
    and "queue_next sc \<le> queue_pos sc + unat (sm_count move)"
  shows "flush_loop mc sc = Ret 0 (s\<lparr>queue_pos := 0, queue_next := 0\<rparr>)"
  using assms(1-3,5) add_move_pending [OF assms(4)]
  by (subst flush_loop.simps) (simp add: Let_def assms(4))

lemma flush_loop_more:
  assumes "last_step_clock sc < mc" "compress_bisect_add sc = Some (Some move)" "check_line sc move = 0"
    and "add_move (last_step_clock sc + ucast (sm_interval move)) move sc = Ret () s"
    and "queue_pos sc + unat (sm_count move) < queue_next sc"
  shows "flush_loop mc sc = flush_loop mc (s\<lparr>queue_pos := queue_pos sc + unat (sm_count move)\<rparr>)"
  using assms(1-3,5) add_move_pending [OF assms(4)]
  by (subst flush_loop.simps) (simp add: Let_def assms(4))

section \<open>Example states\<close>

definition one_step :: stepcompress where
  "one_step = (stepcompress_alloc 4)
     \<lparr>queue := [1000, 0], queue_next := 1, max_error := 25, sdir := 1, expire_clock := (\<lambda>c. None)\<rparr>"

lemma one_step_fields:
  "queue one_step = [1000, 0]" "queue_pos one_step = 0" "queue_next one_step = 1" "max_error one_step = 25"
  "last_step_clock one_step = 0" "sdir one_step = 1" "expire_clock one_step = (\<lambda>c. None)"
  "last_position one_step = 0"
  by (simp_all add: one_step_def stepcompress_alloc_def)

lemma one_step_point: "minmax_point one_step 0 = \<lparr>minp = 975, maxp = 1000\<rparr>"
  by (simp add: minmax_point_def one_step_fields)

lemma one_step_flush:
  obtains sc where "queue_flush UINT64_MAX one_step = Ret 0 sc" "last_step_clock sc = 1000"
proof -
  have e: "bisect_extend (minmax_point one_step) 1 0 1 975 1000 1000 = Some (Covers 1000 1)"
    by (subst bisect_extend.simps) simp
  have c: "compress_bisect_add one_step = Some (Some \<lparr>sm_interval = 1000, sm_count = 1, sm_add = 0\<rparr>)"
    unfolding compress_bisect_add_def
    by (subst bisect_loop.simps)
      (use e in \<open>simp add: one_step_fields one_step_point bisect_step_def bisect_start_def mk_move_def\<close>)
  have k: "check_line one_step \<lparr>sm_interval = 1000, sm_count = 1, sm_add = 0\<rparr> = 0"
    by (simp add: check_line_def one_step_point)
  obtain s where m: "add_move (last_step_clock one_step + ucast (1000 :: u32))
      \<lparr>sm_interval = 1000, sm_count = 1, sm_add = 0\<rparr> one_step = Ret () s"
    and s: "last_step_clock s = 1000" "expire_clock s = (\<lambda>c. None)"
    by (simp add: add_move_def add_msg_def Let_def one_step_fields)
  have "flush_loop UINT64_MAX one_step = Ret 0 (s\<lparr>queue_pos := 0, queue_next := 0\<rparr>)"
    by (rule flush_loop_last [OF _ c k]) (use m in \<open>simp_all add: one_step_fields UINT64_MAX_def\<close>)
  then have "queue_flush UINT64_MAX one_step = Ret 0 (s\<lparr>queue_pos := 0, queue_next := 0\<rparr>)"
    by (simp add: queue_flush_def one_step_fields calc_last_step_print_time_def s)
  from that [OF this] s show ?thesis by simp
qed

text \<open>A queue that is full: the first step after ten million ticks, the others every thousand.\<close>

definition full_queue :: stepcompress where
  "full_queue = (stepcompress_alloc 4)
     \<lparr>queue := 10000000 # map (\<lambda>k. 10001000 + 1000 * of_nat k) [0..<1023], queue_next := 1024,
      max_error := 25, sdir := 1, expire_clock := (\<lambda>c. None),
      next_step_clock := CLOCK_DIFF_MAX + 1, next_step_dir := 1\<rparr>"

lemma full_queue_fields:
  "queue full_queue = 10000000 # map (\<lambda>k. 10001000 + 1000 * of_nat k) [0..<1023]"
  "queue_pos full_queue = 0" "queue_next full_queue = 1024" "max_error full_queue = 25"
  "last_step_clock full_queue = 0" "sdir full_queue = 1" "expire_clock full_queue = (\<lambda>c. None)"
  "next_step_clock full_queue = CLOCK_DIFF_MAX + 1" "next_step_dir full_queue = 1"
  by (simp_all add: full_queue_def stepcompress_alloc_def)

lemma full_queue_points:
  "minmax_point (full_queue\<lparr>next_step_clock := c\<rparr>) 0 = \<lparr>minp = 9999975, maxp = 10000000\<rparr>"
  "minmax_point (full_queue\<lparr>next_step_clock := c\<rparr>) (Suc 0) = \<lparr>minp = 10000975, maxp = 10001000\<rparr>"
  by (simp_all add: minmax_point_def full_queue_fields Let_def)

lemma full_queue_move:
  "compress_bisect_add (full_queue\<lparr>next_step_clock := c\<rparr>) =
     Some (Some \<lparr>sm_interval = 10000000, sm_count = 1, sm_add = 0\<rparr>)"
proof -
  let ?pt = "minmax_point (full_queue\<lparr>next_step_clock := c\<rparr>)"
  have e: "bisect_extend ?pt 1024 0 (Suc 0) 9999975 10000000 10000000 =
      Some (Fails_at 2 9999975 5000500 10000000)"
    by (subst bisect_extend.simps)
      (simp add: full_queue_points raise_min_def lower_max_def idiv_down_def c_div_def Let_def)
  show ?thesis
    unfolding compress_bisect_add_def
    by (subst bisect_loop.simps)
      (simp add: full_queue_fields full_queue_points bisect_step_def bisect_start_def e Let_def is_better_def
        record_best_def bisect_narrow_def limit_deviation_def raise_min_def lower_max_def idiv_down_def
        idiv_up_def c_div_def bisect_finish_def mk_move_def)
qed

lemma full_queue_times: "times_ok full_queue 1024"
proof -
  have r: "due_time full_queue k = 10000000 + 1000 * int k" if "k < 1024" for k
  proof (cases k)
    case 0
    then show ?thesis by (simp add: due_time_def full_queue_fields)
  next
    case (Suc j)
    then have "queue full_queue ! k = of_int (10000000 + 1000 * int k)" using that
      by (simp add: full_queue_fields)
    moreover have "uint (of_int (10000000 + 1000 * int k) :: u32) = 10000000 + 1000 * int k"
      using that by (simp add: uint_word_of_int del: of_int_mult of_int_add)
    ultimately show ?thesis by (simp add: due_time_def full_queue_fields del: of_int_mult of_int_add)
  qed
  then show ?thesis by (simp add: times_ok_def)
qed

lemma full_queue_flush:
  obtains sc where "queue_flush (CLOCK_DIFF_MAX + 1 - CLOCK_DIFF_MAX + 1) (full_queue\<lparr>next_step_clock := 0\<rparr>) = Ret 0 sc"
    "last_step_clock sc = 10000000" "queue_next sc = 1024" "length (queue sc) = 1024"
proof -
  let ?f = "full_queue\<lparr>next_step_clock := 0\<rparr>"
  let ?m = "\<lparr>sm_interval = 10000000, sm_count = 1, sm_add = 0\<rparr>"
  have k: "check_line ?f ?m = 0" by (simp add: check_line_def full_queue_points)
  obtain s where m: "add_move (last_step_clock ?f + ucast (sm_interval ?m)) ?m ?f = Ret () s"
    and s: "last_step_clock s = 10000000" "expire_clock s = (\<lambda>c. None)" "queue_next s = 1024"
      "length (queue s) = 1024"
    by (simp add: add_move_def add_msg_def Let_def full_queue_fields)
  have "flush_loop 2 ?f = flush_loop 2 (s\<lparr>queue_pos := queue_pos ?f + unat (sm_count ?m)\<rparr>)"
    by (rule flush_loop_more [OF _ full_queue_move k m]) (simp_all add: full_queue_fields)
  also have "\<dots> = Ret 0 (s\<lparr>queue_pos := 1\<rparr>)"
    by (subst flush_loop.simps) (simp add: s full_queue_fields)
  finally have "queue_flush 2 ?f = Ret 0 (s\<lparr>queue_pos := 1\<rparr>)"
    by (simp add: queue_flush_def full_queue_fields calc_last_step_print_time_def s)
  then show ?thesis using that [of "s\<lparr>queue_pos := 1\<rparr>"] s by simp
qed

section \<open>Properties\<close>

text \<open>
  C18: Flushing never fails its own check and never loses or invents a step: on a queue of increasing
  step times, \<open>queue_flush\<close> returns 0 whenever it does not overflow, the steps still pending are the
  old ones less a prefix of \<open>k\<close>, the recorded position has moved by exactly \<open>k\<close> in the direction of
  the stepper, and either nothing is pending or the stepper has been driven up to \<open>move_clock\<close>.
\<close>

theorem queue_flush_steps:
  assumes "queue_flush move_clock sc = Ret r sc'" "queue_ok sc"
    and "times_ok sc (queue_next sc - queue_pos sc)"
  shows "r = 0 \<and> queue_ok sc' \<and> (\<exists>k \<le> length (pending sc). pending sc' = drop k (pending sc) \<and>
      last_position sc' = last_position sc + toward (sdir sc) k) \<and>
    (pending sc' = [] \<or> move_clock \<le> last_step_clock sc')"
  using queue_flush_spec [OF assms] by (auto simp: flushed_def)

theorem queue_flush_steps_witness:
  "\<exists>sc'. queue_flush UINT64_MAX one_step = Ret 0 sc' \<and> last_step_clock sc' = 1000 \<and> queue_ok sc'"
proof -
  obtain sc where q: "queue_flush UINT64_MAX one_step = Ret 0 sc" "last_step_clock sc = 1000"
    by (rule one_step_flush)
  have "queue_ok one_step" "times_ok one_step (queue_next one_step - queue_pos one_step)"
    by (simp_all add: queue_ok_def times_ok_def one_step_fields due_time_def)
  from queue_flush_steps [OF q(1) this] q show ?thesis by blast
qed

text \<open>
  The slow path of \<open>queue_append\<close> always finds room: unless more than 67535 steps are pending it
  appends the next step behind the pending ones, without a write past the end, and changes nothing
  else.
\<close>

theorem queue_append_extend_appends:
  assumes "queue_ok sc" "queue_next sc - queue_pos sc \<le> 65535 + 2000"
  shows "\<exists>sc'. queue_append_extend sc = Ret 0 sc' \<and> queue_ok sc' \<and>
     pending sc' = pending sc @ [ucast (next_step_clock sc)] \<and> next_step_clock sc' = 0 \<and>
     last_step_clock sc' = last_step_clock sc"
proof -
  let ?s = "queue_make_room sc"
  note m = make_room [OF assms(1)]
  then obtain s where "queue_put (next_step_clock ?s) ?s = Ret 0 s" "queue_ok s"
    "pending s = pending ?s @ [ucast (next_step_clock ?s)]" "last_step_clock s = last_step_clock ?s"
    using put_spec [of ?s "next_step_clock ?s"] by blast
  then show ?thesis using m assms(2)
    by (simp add: queue_append_extend_def unless_error_def queue_ok_def pending_def Let_def)
qed

theorem queue_append_extend_appends_witness:
  "\<exists>sc'. queue_append_extend (stepcompress_alloc 4\<lparr>next_step_clock := 77\<rparr>) = Ret 0 sc' \<and>
     pending sc' = [77]"
  using queue_append_extend_appends [of "stepcompress_alloc 4\<lparr>next_step_clock := 77\<rparr>"]
  by (auto simp: queue_ok_def pending_def stepcompress_alloc_def)

text \<open>
  C26: The path for far steps does not look at the end of the queue: in a full queue of 1024 steps
  whose pending steps \<open>queue_flush\<close> need not all send, a step \<open>CLOCK_DIFF_MAX\<close> ticks away is written
  behind the allocated array, although the flush itself succeeds.
\<close>

theorem queue_append_far_overruns:
  "\<exists>sc s. queue_ok sc \<and> length (queue sc) = QUEUE_START_SIZE \<and> times_ok sc (length (pending sc)) \<and>
     next_step_dir sc = sdir sc \<and> next_step_clock sc \<ge> last_step_clock sc + CLOCK_DIFF_MAX \<and>
     queue_flush (next_step_clock sc - CLOCK_DIFF_MAX + 1) (sc\<lparr>next_step_clock := 0\<rparr>) = Ret 0 s \<and>
     queue_append sc = Fault"
proof -
  obtain s where s: "queue_flush (CLOCK_DIFF_MAX + 1 - CLOCK_DIFF_MAX + 1) (full_queue\<lparr>next_step_clock := 0\<rparr>) = Ret 0 s"
    "last_step_clock s = 10000000" "queue_next s = 1024" "length (queue s) = 1024"
    by (rule full_queue_flush)
  have d: "CLOCK_DIFF_MAX + 1 \<ge> (0 :: u64) + CLOCK_DIFF_MAX" "\<not> CLOCK_DIFF_MAX + 1 \<ge> (10000000 :: u64) + CLOCK_DIFF_MAX"
    by (simp_all add: CLOCK_DIFF_MAX_def)
  have "queue_append_far full_queue = Fault"
    using s d by (simp add: queue_append_far_def unless_error_def full_queue_fields queue_put_def del: add_diff_cancel_left')
  then have "queue_append full_queue = Fault"
    using d by (simp add: queue_append_def unless_error_def full_queue_fields)
  moreover have "length (pending full_queue) = 1024" by (simp add: pending_def full_queue_fields)
  ultimately show ?thesis using s d full_queue_times
    by (intro exI [of _ full_queue] exI [of _ s])
      (simp add: queue_ok_def full_queue_fields QUEUE_START_SIZE_def)
qed

text \<open>
  The past position of a stepper is exact for moves of constant speed: at a clock behind the start
  of such a move and before every newer one, \<open>stepcompress_find_past_position\<close> returns the position
  at the start of the move plus (or minus) the number of its steps due by then.
\<close>

theorem find_past_position_exact:
  assumes "history_list sc = newer @ hs # older" "\<forall>h \<in> set newer. clock < first_clock h"
    and "hs_add hs = 0" "hs_interval hs = int iv" "0 < iv" "\<bar>step_count hs\<bar> = int count" "0 < count"
    and "unat (last_clock hs) = unat (first_clock hs) + (count - 1) * iv" "count * iv < 2 ^ 31"
    and "first_clock hs \<le> clock"
  shows "stepcompress_find_past_position quadratic clock sc =
    Some (start_position hs + (if step_count hs < 0 then -1 else 1) *
      int (steps_due (unat (first_clock hs)) iv count (unat clock)))"
proof -
  obtain p where p: "find_position quadratic clock (last_position sc) (newer @ hs # older) =
      find_position quadratic clock p (hs # older)"
    using past_position_newer [of newer clock] assms(2) by blast
  have f: "unat (first_clock hs) \<le> unat clock" using assms(10) by (simp add: word_le_nat_alt)
  let ?due = "steps_due (unat (first_clock hs)) iv count (unat clock)"
  have "find_position quadratic clock p (hs # older) =
      Some (start_position hs + (if step_count hs < 0 then -1 else 1) * int ?due)"
  proof (cases "last_clock hs \<le> clock")
    case True
    then have "unat (first_clock hs) + (count - 1) * iv \<le> unat clock"
      using assms(8) by (simp only: word_le_nat_alt)
    with steps_due_all have "?due = count" by blast
    then show ?thesis using True assms(6,10) by auto
  next
    case False
    then have l: "unat clock < unat (first_clock hs) + (count - 1) * iv"
      using assms(8) by (simp only: word_le_nat_alt not_le)
    define d where "d = unat clock - unat (first_clock hs)"
    have "(count - 1) * iv + iv = count * iv" using assms(7) by (cases count) auto
    then have d: "d + iv < 2 ^ 31" using l f assms(9) unfolding d_def by linarith
    have e: "sint (ucast (clock - first_clock hs) :: u32) = int d"
      unfolding d_def by (rule sint_elapsed [OF assms(10)]) (use d in \<open>simp add: d_def\<close>)
    have q: "c_div (int d + int iv) (int iv) = int ?due"
      using c_div_next [OF assms(5)] steps_due_div [OF assms(5) f l] by (simp add: d_def)
    have n: "\<not> clock < first_clock hs" using assms(10) by simp
    have "fits [int d + int iv]" using d by simp
    then show ?thesis
      unfolding find_position.simps if_not_P [OF n] if_not_P [OF False] Let_def
      using assms(3-5) e q by simp
  qed
  then show ?thesis unfolding stepcompress_find_past_position_def assms(1) p .
qed

theorem find_past_position_exact_witness:
  "stepcompress_find_past_position (\<lambda>a i t. 0) 2500
     (stepcompress_alloc 4\<lparr>history_list := [\<lparr>first_clock = 1000, last_clock = 4000, start_position = 10,
        step_count = -4, hs_interval = 1000, hs_add = 0\<rparr>]\<rparr>) = Some 8"
proof -
  have s: "steps_due 1000 1000 4 2500 = 2" by (subst steps_due_div) simp_all
  show ?thesis
    using find_past_position_exact [of _ "[]" "\<lparr>first_clock = 1000, last_clock = 4000, start_position = 10,
        step_count = -4, hs_interval = 1000, hs_add = 0\<rparr>" "[]" 2500 1000 4] s
    by simp
qed

text \<open>
  \<open>stepcompress_extract_old\<close> returns, newest first, exactly the first \<open>limit\<close> of the moves that
  begin before \<open>end_clock\<close> among those up to the first one that has ended by \<open>start_clock\<close>.
\<close>

theorem extract_old_exact:
  "stepcompress_extract_old limit start_clock end_clock sc =
     take (nat limit) (filter (\<lambda>h. first_clock h < end_clock)
       (takeWhile (\<lambda>h. start_clock < last_clock h) (history_list sc)))"
  by (simp add: stepcompress_extract_old_def extract_old_take)

end
