(* ===== verification/Stepper_Sync.thy ===== *)
theory Stepper_Sync
  imports Step_Queue "HOL-Library.Multiset"
begin

text \<open>
  Synchronisation of the steppers of one micro-controller, the \<open>steppersync\<close> object of
  \<open>klippy/chelper/stepcompress.c\<close>: the messages of all steppers are merged by their required clock,
  and a binary heap keeps track of when the places of the micro-controller's move queue become free.
  The serial queue that transmits the batch is not part of the model; the batch is returned.
\<close>

section \<open>Translation\<close>

definition MAX_CLOCK :: u64 where "MAX_CLOCK = 0x7fffffffffffffff"

record steppersync =
  sc_list :: "stepcompress list"
  move_clocks :: "u64 list"

definition steppersync_alloc :: "stepcompress list \<Rightarrow> nat \<Rightarrow> steppersync" where
  "steppersync_alloc scs move_num = \<lparr>sc_list = scs, move_clocks = replicate move_num 0\<rparr>"

definition steppersync_set_time ::
    "(u64 \<Rightarrow> u64 option) \<Rightarrow> (int \<Rightarrow> bool) \<Rightarrow> steppersync \<Rightarrow> steppersync" where
  "steppersync_set_time expire filt ss =
     ss\<lparr>sc_list := map (stepcompress_set_time expire filt) (sc_list ss)\<rparr>"

text \<open>The loop of \<open>heap_replace\<close> from \<open>pos\<close> on.\<close>

function heap_sift :: "u64 list \<Rightarrow> nat \<Rightarrow> u64 \<Rightarrow> u64 list" where
  "heap_sift mc pos req =
     (let nmc = length mc; child1_pos = 2 * pos + 1; child2_pos = 2 * pos + 2;
          child2 = (if child2_pos < nmc then mc ! child2_pos else UINT64_MAX);
          child1 = (if child1_pos < nmc then mc ! child1_pos else UINT64_MAX) in
      if req \<le> child1 \<and> req \<le> child2 then mc[pos := req]
      else if child1 < child2 then heap_sift (mc[pos := child1]) child1_pos req
      else heap_sift (mc[pos := child2]) child2_pos req)"
  by pat_completeness auto

lemma UINT64_MAX_greatest [simp]: "w \<le> UINT64_MAX"
proof -
  have "uint w < 2 ^ 64" using unsigned_less [of w] by simp
  then show ?thesis by (simp add: word_le_def UINT64_MAX_def)
qed

lemma not_UINT64_MAX_less [simp]: "\<not> UINT64_MAX < w"
  by (simp add: not_less)

termination heap_sift
  by (relation "measure (\<lambda>(mc, pos, req). length mc - pos)") (auto split: if_splits)

declare heap_sift.simps [simp del]

definition heap_replace :: "u64 \<Rightarrow> steppersync \<Rightarrow> steppersync" where
  "heap_replace req ss = ss\<lparr>move_clocks := heap_sift (move_clocks ss) 0 req\<rparr>"

text \<open>The loop \<open>for (i=0; i<ss->sc_num; i++)\<close> that flushes each stepper.\<close>

fun flush_each :: "u64 \<Rightarrow> stepcompress list \<Rightarrow> stepcompress list \<Rightarrow> (int, stepcompress list) outcome" where
  "flush_each move_clock ys [] = Ret 0 ys"
| "flush_each move_clock ys (sc # scs) =
     (case stepcompress_flush move_clock sc of
        Ret ret sc \<Rightarrow> if ret \<noteq> 0 then Ret ret (ys @ sc # scs)
                      else flush_each move_clock (ys @ [sc]) scs
      | _ \<Rightarrow> Fault)"

text \<open>\<open>Find message with lowest reqclock\<close>: the stepper and the message.\<close>

fun lowest :: "nat \<Rightarrow> stepcompress list \<Rightarrow> u64 \<Rightarrow> (nat \<times> queue_message) option \<Rightarrow> (nat \<times> queue_message) option" where
  "lowest i [] req qm = qm"
| "lowest i (sc # scs) req qm =
     (case msg_queue sc of
        [] \<Rightarrow> lowest (i + 1) scs req qm
      | m # ms \<Rightarrow>
          if req_clock m < req then lowest (i + 1) scs (req_clock m) (Some (i, m))
          else lowest (i + 1) scs req qm)"

definition queued_messages :: "steppersync \<Rightarrow> nat" where
  "queued_messages ss = sum_list (map (\<lambda>sc. length (msg_queue sc)) (sc_list ss))"

text \<open>Taking the message off its queue and batching it.\<close>

definition take_message :: "nat \<Rightarrow> queue_message \<Rightarrow> steppersync \<Rightarrow> queue_message \<times> steppersync" where
  "take_message i qm ss =
     (let next_avail = move_clocks ss ! 0;
          ss = (if min_clock qm \<noteq> 0 then heap_replace (min_clock qm) ss else ss);
          qm = qm\<lparr>min_clock := next_avail\<rparr>;
          sc = sc_list ss ! i
      in (qm, ss\<lparr>sc_list := (sc_list ss)[i := sc\<lparr>msg_queue := tl (msg_queue sc)\<rparr>]\<rparr>))"

lemma lowest_some:
  "lowest i scs req qm = Some (j, m) \<Longrightarrow>
     qm = Some (j, m) \<or> (i \<le> j \<and> j < i + length scs \<and> (\<exists>ms. msg_queue (scs ! (j - i)) = m # ms) \<and> req_clock m < req)"
proof (induction i scs req qm rule: lowest.induct)
  case (1 i req qm)
  then show ?case by simp
next
  case (2 i sc scs req qm)
  show ?case
  proof (cases "msg_queue sc")
    case Nil
    then have "qm = Some (j, m) \<or> (i + 1 \<le> j \<and> j < i + 1 + length scs \<and>
        (\<exists>ms. msg_queue (scs ! (j - (i + 1))) = m # ms) \<and> req_clock m < req)"
      using 2 by simp
    then show ?thesis by (auto simp: nth_Cons')
  next
    case (Cons h ms)
    show ?thesis
    proof (cases "req_clock h < req")
      case True
      then have "(i = j \<and> h = m) \<or> (i + 1 \<le> j \<and> j < i + 1 + length scs \<and>
          (\<exists>ms. msg_queue (scs ! (j - (i + 1))) = m # ms) \<and> req_clock m < req_clock h)"
        using "2.IH"(2) [OF Cons True] "2.prems" Cons by simp
      then show ?thesis using Cons True by (auto simp: nth_Cons')
    next
      case False
      then have "qm = Some (j, m) \<or> (i + 1 \<le> j \<and> j < i + 1 + length scs \<and>
          (\<exists>ms. msg_queue (scs ! (j - (i + 1))) = m # ms) \<and> req_clock m < req)"
        using "2.IH"(3) [OF Cons False] "2.prems" Cons by simp
      then show ?thesis by (auto simp: nth_Cons')
    qed
  qed
qed

lemma lowest_found:
  assumes "lowest 0 scs req None = Some (i, m)"
  obtains ms where "i < length scs" "msg_queue (scs ! i) = m # ms" "req_clock m < req"
  using lowest_some [OF assms] by auto

lemma take_message_sc_list:
  "sc_list (snd (take_message i qm ss)) =
     (sc_list ss)[i := (sc_list ss ! i)\<lparr>msg_queue := tl (msg_queue (sc_list ss ! i))\<rparr>]"
  by (simp add: take_message_def Let_def heap_replace_def)

lemma take_message_fewer:
  assumes "lowest 0 (sc_list ss) MAX_CLOCK None = Some (i, m)"
  shows "queued_messages (snd (take_message i m ss)) < queued_messages ss"
proof -
  let ?f = "\<lambda>sc. length (msg_queue sc)"
  obtain ms where i: "i < length (sc_list ss)" "msg_queue (sc_list ss ! i) = m # ms"
    by (rule lowest_found [OF assms])
  have "map ?f (sc_list ss) ! i \<le> sum_list (map ?f (sc_list ss))"
    using i(1) by (intro elem_le_sum_list) simp
  with i show ?thesis
    unfolding queued_messages_def take_message_sc_list by (simp add: map_update sum_list_update)
qed

function merge_loop :: "u64 \<Rightarrow> steppersync \<Rightarrow> queue_message list \<Rightarrow> steppersync \<times> queue_message list" where
  "merge_loop move_clock ss msgs =
     (case lowest 0 (sc_list ss) MAX_CLOCK None of
        None \<Rightarrow> (ss, msgs)
      | Some (i, qm) \<Rightarrow>
          if min_clock qm \<noteq> 0 \<and> req_clock qm > move_clock then (ss, msgs)
          else let (qm, ss) = take_message i qm ss in merge_loop move_clock ss (msgs @ [qm]))"
  by pat_completeness auto
termination merge_loop
proof (relation "measure (\<lambda>(mc, ss, msgs). queued_messages ss)")
  fix mc :: u64 and ss :: steppersync and msgs p i qm qm1 ss1 q
  assume l: "lowest 0 (sc_list ss) MAX_CLOCK None = Some p" "(i, qm) = p"
    and t: "q = take_message i qm ss" "(qm1, ss1) = q"
  have "ss1 = snd (take_message i qm ss)" using t by (metis snd_conv)
  then show "((mc, ss1, msgs @ [qm1]), mc, ss, msgs) \<in> measure (\<lambda>(mc, ss, msgs). queued_messages ss)"
    using take_message_fewer [of ss i qm] l by simp
qed simp

declare merge_loop.simps [simp del]

definition steppersync_flush ::
    "u64 \<Rightarrow> steppersync \<Rightarrow> (int \<times> queue_message list, steppersync) outcome" where
  "steppersync_flush move_clock ss =
     (case flush_each move_clock [] (sc_list ss) of
        Ret ret scs \<Rightarrow>
          if ret \<noteq> 0 then Ret (ret, []) (ss\<lparr>sc_list := scs\<rparr>)
          else let (ss, msgs) = merge_loop move_clock (ss\<lparr>sc_list := scs\<rparr>) [] in Ret (0, msgs) ss
      | _ \<Rightarrow> Fault)"

section \<open>The heap of free places\<close>

definition is_heap :: "u64 list \<Rightarrow> bool" where
  "is_heap mc \<longleftrightarrow> (\<forall>j. 0 < j \<and> j < length mc \<longrightarrow> mc ! ((j - 1) div 2) \<le> mc ! j)"

lemma is_heapD: "is_heap mc \<Longrightarrow> 0 < j \<Longrightarrow> j < length mc \<Longrightarrow> mc ! ((j - 1) div 2) \<le> mc ! j"
  by (simp add: is_heap_def)

lemma heap_min: "is_heap mc \<Longrightarrow> j < length mc \<Longrightarrow> mc ! 0 \<le> mc ! j"
proof (induction j rule: less_induct)
  case (less j)
  show ?case
  proof (cases "j = 0")
    case False
    then have "(j - 1) div 2 < j" by simp
    then have "mc ! 0 \<le> mc ! ((j - 1) div 2)" using less by simp
    also have "\<dots> \<le> mc ! j" using less.prems False by (intro is_heapD) auto
    finally show ?thesis .
  qed simp
qed

lemma heap_Min: "is_heap mc \<Longrightarrow> mc \<noteq> [] \<Longrightarrow> x \<in># mset mc \<Longrightarrow> mc ! 0 \<le> x"
  using heap_min by (auto simp: in_set_conv_nth)

lemma parent_cases: "(j - 1) div 2 = (pos :: nat) \<Longrightarrow> 0 < j \<Longrightarrow> j = 2 * pos + 1 \<or> j = 2 * pos + 2"
  by presburger

text \<open>Overwriting a place keeps the heap when its parent is not greater and its children are not less.\<close>

lemma heap_update:
  assumes "is_heap mc" "pos < length mc" "0 < pos \<Longrightarrow> mc ! ((pos - 1) div 2) \<le> v"
    and "2 * pos + 1 < length mc \<Longrightarrow> v \<le> mc ! (2 * pos + 1)"
    and "2 * pos + 2 < length mc \<Longrightarrow> v \<le> mc ! (2 * pos + 2)"
  shows "is_heap (mc[pos := v])"
  unfolding is_heap_def
proof (intro allI impI)
  fix j assume j: "0 < j \<and> j < length (mc[pos := v])"
  then have jl: "j < length mc" and p: "(j - 1) div 2 < j" by auto
  show "mc[pos := v] ! ((j - 1) div 2) \<le> mc[pos := v] ! j"
  proof (cases "(j - 1) div 2 = pos")
    case True
    then have "v \<le> mc ! j" using parent_cases [OF True] j jl assms(4,5) by auto
    then show ?thesis using True p jl by (simp add: nth_list_update)
  next
    case False
    then show ?thesis
      using j jl p assms(2,3) is_heapD [OF assms(1), of j] by (cases "j = pos") auto
  qed
qed

lemma heap_sift_spec:
  "is_heap mc \<Longrightarrow> pos < length mc \<Longrightarrow> (0 < pos \<Longrightarrow> mc ! ((pos - 1) div 2) \<le> req) \<Longrightarrow>
     is_heap (heap_sift mc pos req) \<and> length (heap_sift mc pos req) = length mc \<and>
     mset (heap_sift mc pos req) = add_mset req (mset mc - {#mc ! pos#})"
proof (induction mc pos req rule: heap_sift.induct)
  case (1 mc pos req)
  define c1 where "c1 = (if 2 * pos + 1 < length mc then mc ! (2 * pos + 1) else UINT64_MAX)"
  define c2 where "c2 = (if 2 * pos + 2 < length mc then mc ! (2 * pos + 2) else UINT64_MAX)"
  note defs = c1_def c2_def
  have eq: "heap_sift mc pos req = (if req \<le> c1 \<and> req \<le> c2 then mc[pos := req]
      else if c1 < c2 then heap_sift (mc[pos := c1]) (2 * pos + 1) req
      else heap_sift (mc[pos := c2]) (2 * pos + 2) req)"
    unfolding defs by (subst heap_sift.simps) (simp only: Let_def)
  have par: "0 < pos \<Longrightarrow> mc ! ((pos - 1) div 2) \<le> mc ! pos" using "1.prems" is_heapD by blast
  show ?case
  proof (cases "req \<le> c1 \<and> req \<le> c2")
    case True
    have "is_heap (mc[pos := req])"
      by (rule heap_update) (use "1.prems" True in \<open>auto simp: defs\<close>)
    then show ?thesis using True "1.prems"(2) by (simp add: eq mset_update)
  next
    case stop: False
    show ?thesis
    proof (cases "c1 < c2")
      case True
      then have l: "2 * pos + 1 < length mc" "c1 = mc ! (2 * pos + 1)" by (auto simp: c1_def split: if_splits)
      have up: "mc ! pos \<le> c1" using is_heapD [OF "1.prems"(1), of "2 * pos + 1"] l by simp
      have h: "is_heap (mc[pos := c1])"
        by (rule heap_update)
          (use "1.prems" True l up par in \<open>auto simp: c2_def intro: order_trans less_imp_le split: if_splits\<close>)
      have cr: "c1 \<le> req" using stop True by auto
      have "is_heap (heap_sift (mc[pos := c1]) (2 * pos + 1) req) \<and>
          length (heap_sift (mc[pos := c1]) (2 * pos + 1) req) = length (mc[pos := c1]) \<and>
          mset (heap_sift (mc[pos := c1]) (2 * pos + 1) req) =
            add_mset req (mset (mc[pos := c1]) - {#mc[pos := c1] ! (2 * pos + 1)#})"
        by (rule "1.IH"(1) [OF refl refl refl refl refl, folded defs, OF stop True h])
          (use l cr "1.prems"(2) in auto)
      moreover have "heap_sift mc pos req = heap_sift (mc[pos := c1]) (2 * pos + 1) req"
        unfolding eq using stop True by (simp only: if_False if_True)
      ultimately show ?thesis using l "1.prems"(2) by (simp add: mset_update)
    next
      case False
      then have "c2 < req" using stop by auto
      then have l: "2 * pos + 2 < length mc" "c2 = mc ! (2 * pos + 2)"
        by (auto simp: c2_def not_le split: if_splits)
      have up: "mc ! pos \<le> c2" using is_heapD [OF "1.prems"(1), of "2 * pos + 2"] l by simp
      have h: "is_heap (mc[pos := c2])"
        by (rule heap_update)
          (use "1.prems" False l up par in \<open>auto simp: c1_def not_less intro: order_trans split: if_splits\<close>)
      have "is_heap (heap_sift (mc[pos := c2]) (2 * pos + 2) req) \<and>
          length (heap_sift (mc[pos := c2]) (2 * pos + 2) req) = length (mc[pos := c2]) \<and>
          mset (heap_sift (mc[pos := c2]) (2 * pos + 2) req) =
            add_mset req (mset (mc[pos := c2]) - {#mc[pos := c2] ! (2 * pos + 2)#})"
        by (rule "1.IH"(2) [OF refl refl refl refl refl, folded defs, OF stop False h])
          (use l \<open>c2 < req\<close> "1.prems"(2) in auto)
      moreover have "heap_sift mc pos req = heap_sift (mc[pos := c2]) (2 * pos + 2) req"
        unfolding eq using stop False by (simp only: if_False)
      ultimately show ?thesis using l "1.prems"(2) by (simp add: mset_update)
    qed
  qed
qed

lemmas heap_siftD = heap_sift_spec [THEN conjunct1] heap_sift_spec [THEN conjunct2, THEN conjunct1]
  heap_sift_spec [THEN conjunct2, THEN conjunct2]

subsection \<open>A pool of places\<close>

text \<open>
  What the flush relies on: a place that is free from \<open>earliest p\<close> on is booked, and becomes free
  again at the clock it is booked to.  \<open>busy t p\<close> counts the places still taken at clock \<open>t\<close>.
\<close>

locale slot_pool =
  fixes earliest :: "'p \<Rightarrow> u64" and book :: "u64 \<Rightarrow> 'p \<Rightarrow> 'p"
    and slots :: "'p \<Rightarrow> u64 multiset" and wf :: "'p \<Rightarrow> bool"
  assumes earliest_slot: "wf p \<Longrightarrow> earliest p \<in># slots p"
    and earliest_least: "wf p \<Longrightarrow> x \<in># slots p \<Longrightarrow> earliest p \<le> x"
    and book_wf: "wf p \<Longrightarrow> wf (book c p)"
    and book_slots: "wf p \<Longrightarrow> slots (book c p) = add_mset c (slots p - {#earliest p#})"
begin

definition busy :: "u64 \<Rightarrow> 'p \<Rightarrow> nat" where
  "busy t p = size (filter_mset (\<lambda>x. t < x) (slots p))"

lemma busy_le: "busy t p \<le> size (slots p)"
  by (simp add: busy_def size_filter_mset_lesseq)

lemma book_size: "wf p \<Longrightarrow> size (slots (book c p)) = size (slots p)"
proof -
  assume p: "wf p"
  have "size (add_mset c (slots p - {#earliest p#})) = size (add_mset (earliest p) (slots p - {#earliest p#}))"
    by simp
  then show ?thesis using p earliest_slot [OF p] by (simp only: book_slots insert_DiffM)
qed

lemma book_busy:
  assumes "wf p" "earliest p \<le> c"
  shows "busy t (book c p) = busy t p + of_bool (earliest p \<le> t \<and> t < c)"
proof -
  define R where "R = slots p - {#earliest p#}"
  have s: "slots p = add_mset (earliest p) R" "slots (book c p) = add_mset c R"
    using assms(1) earliest_slot by (simp_all add: R_def book_slots)
  show ?thesis using assms(2) unfolding busy_def s by (auto simp: not_less)
qed

end

definition move_heap :: "u64 list \<Rightarrow> bool" where
  "move_heap mc \<longleftrightarrow> is_heap mc \<and> mc \<noteq> []"

lemma move_heapD: "move_heap mc \<Longrightarrow> is_heap mc" "move_heap mc \<Longrightarrow> 0 < length mc"
  by (simp_all add: move_heap_def)

interpretation move_pool: slot_pool "\<lambda>mc. mc ! 0" "\<lambda>c mc. heap_sift mc 0 c" mset move_heap
proof unfold_locales
  fix p :: "u64 list" and x c
  assume p: "move_heap p"
  show "p ! 0 \<in># mset p" using move_heapD [OF p] by simp
  show "x \<in># mset p \<Longrightarrow> p ! 0 \<le> x" using p by (auto simp: move_heap_def intro: heap_Min)
  show "move_heap (heap_sift p 0 c)"
    using heap_siftD(1,2) [OF move_heapD(1) [OF p] move_heapD(2) [OF p], of c] p by (auto simp: move_heap_def)
  show "mset (heap_sift p 0 c) = add_mset c (mset p - {#p ! 0#})"
    by (rule heap_siftD(3)) (use move_heapD [OF p] in auto)
qed

lemma replicate_heap [simp]: "is_heap (replicate n c)"
  by (auto simp: is_heap_def)

section \<open>The batch\<close>

text \<open>
  \<open>stamp\<close> is what the flush does to the messages it takes, in the order it takes them: each is
  stamped with the earliest clock at which a place is free, and a message that uses the move queue
  books that place until its own \<open>min_clock\<close>.
\<close>

fun booked :: "u64 list \<Rightarrow> queue_message \<Rightarrow> u64 list" where
  "booked mc m = (if min_clock m \<noteq> 0 then heap_sift mc 0 (min_clock m) else mc)"

fun stamp :: "u64 list \<Rightarrow> queue_message list \<Rightarrow> queue_message list" where
  "stamp mc [] = []"
| "stamp mc (m # ms) = m\<lparr>min_clock := mc ! 0\<rparr> # stamp (booked mc m) ms"

lemma length_stamp [simp]: "length (stamp mc ms) = length ms"
  by (induction mc ms rule: stamp.induct) auto

lemma booked_heap: "move_heap mc \<Longrightarrow> move_heap (booked mc m)"
  by (simp add: move_pool.book_wf)

lemma booked_size: "move_heap mc \<Longrightarrow> length (booked mc m) = length mc"
  using move_pool.book_size [of mc "min_clock m"] by simp

lemma heap_first: "move_heap mc \<Longrightarrow> mc ! 0 = Min_mset (mset mc)"
  using move_pool.earliest_least [of mc] move_pool.earliest_slot [of mc]
  by (intro sym [OF Min_eqI]) (simp_all del: set_mset_mset)

text \<open>
  The same without the heap: the clocks at which the places become free are a multiset. A message gets
  the least of them, and puts its own \<open>min_clock\<close> in its stead if it uses a place.
\<close>

definition next_places :: "u64 multiset \<Rightarrow> queue_message \<Rightarrow> u64 multiset" where
  "next_places places m =
     (if min_clock m = 0 then places else add_mset (min_clock m) (places - {#Min_mset places#}))"

fun stamped :: "u64 multiset \<Rightarrow> queue_message list \<Rightarrow> queue_message list" where
  "stamped places [] = []"
| "stamped places (m # ms) = m\<lparr>min_clock := Min_mset places\<rparr> # stamped (next_places places m) ms"

lemma booked_places: "move_heap mc \<Longrightarrow> mset (booked mc m) = next_places (mset mc) m"
  by (simp add: next_places_def move_pool.book_slots heap_first)

lemma stamp_places:
  "move_heap mc \<Longrightarrow> stamp mc ms = stamped (mset mc) ms \<and>
     mset (foldl booked mc ms) = foldl next_places (mset mc) ms"
proof (induction ms arbitrary: mc)
  case (Cons m ms)
  then show ?case using Cons.IH [OF booked_heap [OF Cons.prems, of m]] booked_places [OF Cons.prems, of m]
    by (simp add: heap_first del: booked.simps)
qed simp

text \<open>The messages of a batch that occupy a place at clock \<open>t\<close>.\<close>

definition occupies :: "u64 \<Rightarrow> queue_message \<Rightarrow> queue_message \<Rightarrow> bool" where
  "occupies t m q \<longleftrightarrow> min_clock m \<noteq> 0 \<and> min_clock q \<le> t \<and> t < min_clock m"

lemma stamp_busy:
  assumes "move_heap mc" "list_all2 (\<lambda>m q. min_clock m \<noteq> 0 \<longrightarrow> min_clock q \<le> min_clock m) ms (stamp mc ms)"
  shows "length (filter (\<lambda>(m, q). occupies t m q) (zip ms (stamp mc ms))) + move_pool.busy t mc =
           move_pool.busy t (foldl booked mc ms)"
  using assms
proof (induction ms arbitrary: mc)
  case (Cons m ms)
  have "length (filter (\<lambda>(m, q). occupies t m q) (zip ms (stamp (booked mc m) ms))) +
      move_pool.busy t (booked mc m) = move_pool.busy t (foldl booked (booked mc m) ms)"
    by (rule Cons.IH) (use Cons.prems booked_heap [OF Cons.prems(1)] in auto)
  moreover have "move_pool.busy t (booked mc m) = move_pool.busy t mc + of_bool (occupies t m (m\<lparr>min_clock := mc ! 0\<rparr>))"
    using Cons.prems move_pool.book_busy [of mc "min_clock m" t] by (auto simp: occupies_def)
  ultimately show ?case by (auto simp del: booked.simps)
qed simp

lemma foldl_booked: "move_heap mc \<Longrightarrow> move_heap (foldl booked mc ms) \<and> length (foldl booked mc ms) = length mc"
proof (induction ms arbitrary: mc)
  case (Cons m ms)
  then show ?case using booked_heap [of mc m] booked_size [of mc m] by (simp del: booked.simps)
qed simp

lemma stamp_capacity:
  assumes "move_heap mc" "list_all2 (\<lambda>m q. min_clock m \<noteq> 0 \<longrightarrow> min_clock q \<le> min_clock m) ms (stamp mc ms)"
  shows "length (filter (\<lambda>x. t < x) mc) + length (filter (\<lambda>(m, q). occupies t m q) (zip ms (stamp mc ms))) \<le> length mc"
proof -
  have "move_pool.busy t mc = length (filter (\<lambda>x. t < x) mc)"
    by (simp add: move_pool.busy_def flip: size_mset mset_filter)
  then have "length (filter (\<lambda>x. t < x) mc) + length (filter (\<lambda>(m, q). occupies t m q) (zip ms (stamp mc ms))) =
      move_pool.busy t (foldl booked mc ms)"
    using stamp_busy [OF assms, of t] by linarith
  also have "\<dots> \<le> length mc"
    using move_pool.busy_le [of t "foldl booked mc ms"] foldl_booked [OF assms(1), of ms] by simp
  finally show ?thesis .
qed

section \<open>The merge of the queues\<close>

definition queues_sorted :: "stepcompress list \<Rightarrow> bool" where
  "queues_sorted scs \<longleftrightarrow> (\<forall>sc \<in> set scs. sorted_wrt (\<le>) (map req_clock (msg_queue sc)))"

lemma lowest_least:
  "lowest i scs req qm = Some (j, m) \<Longrightarrow> (\<And>n q. qm = Some (n, q) \<Longrightarrow> req_clock q = req) \<Longrightarrow>
     req_clock m \<le> req \<and> (\<forall>sc \<in> set scs. \<forall>h hs. msg_queue sc = h # hs \<longrightarrow> req_clock m \<le> req_clock h)"
proof (induction i scs req qm rule: lowest.induct)
  case (2 i sc scs req qm)
  show ?case
  proof (cases "msg_queue sc")
    case Nil
    then have "lowest (i + 1) scs req qm = Some (j, m)" using "2.prems"(1) by simp
    from "2.IH"(1) [OF Nil this "2.prems"(2)] show ?thesis using Nil by simp
  next
    case (Cons h ms)
    show ?thesis
    proof (cases "req_clock h < req")
      case True
      then have "lowest (i + 1) scs (req_clock h) (Some (i, h)) = Some (j, m)" using "2.prems"(1) Cons by simp
      from "2.IH"(2) [OF Cons True this] have "req_clock m \<le> req_clock h"
          "\<forall>sc \<in> set scs. \<forall>h hs. msg_queue sc = h # hs \<longrightarrow> req_clock m \<le> req_clock h" by simp_all
      then show ?thesis using True Cons by (auto dest: less_imp_le order_trans)
    next
      case False
      then have "lowest (i + 1) scs req qm = Some (j, m)" using "2.prems"(1) Cons by simp
      from "2.IH"(3) [OF Cons False this "2.prems"(2)] have "req_clock m \<le> req"
          "\<forall>sc \<in> set scs. \<forall>h hs. msg_queue sc = h # hs \<longrightarrow> req_clock m \<le> req_clock h" by simp_all
      then show ?thesis using False Cons by (auto simp: not_less intro: order_trans)
    qed
  qed
qed simp

lemma lowest_none:
  "lowest i scs req None = None \<Longrightarrow> \<forall>sc \<in> set scs. \<forall>h hs. msg_queue sc = h # hs \<longrightarrow> req \<le> req_clock h"
proof -
  have some: "lowest i scs req (Some q) \<noteq> None" for i scs req q
    by (induction i scs req "Some q" arbitrary: q rule: lowest.induct) (auto split: list.splits)
  show "lowest i scs req None = None \<Longrightarrow> ?thesis"
    by (induction i scs req "None :: (nat \<times> queue_message) option" rule: lowest.induct)
      (auto split: list.splits if_splits simp: some)
qed

text \<open>The messages a trace of the merge takes from stepper \<open>i\<close>.\<close>

definition taken_from :: "nat \<Rightarrow> (nat \<times> queue_message) list \<Rightarrow> queue_message list" where
  "taken_from i tr = map snd (filter (\<lambda>x. fst x = i) tr)"

lemma taken_from_simps [simp]:
  "taken_from i [] = []"
  "taken_from i (x # tr) = (if fst x = i then [snd x] else []) @ taken_from i tr"
  by (simp_all add: taken_from_def)

text \<open>
  \<open>merged ss tr ss'\<close>: \<open>tr\<close> takes the messages of each stepper from the front of its queue, in order,
  and leaves the rest in \<open>ss'\<close>.
\<close>

definition merged :: "steppersync \<Rightarrow> (nat \<times> queue_message) list \<Rightarrow> steppersync \<Rightarrow> bool" where
  "merged ss tr ss' \<longleftrightarrow> length (sc_list ss') = length (sc_list ss) \<and> (\<forall>x \<in> set tr. fst x < length (sc_list ss)) \<and>
     (\<forall>i < length (sc_list ss). msg_queue (sc_list ss ! i) = taken_from i tr @ msg_queue (sc_list ss' ! i))"

lemma merged_nil: "merged ss [] ss"
  by (simp add: merged_def)

lemma merged_take:
  assumes "lowest 0 (sc_list ss) MAX_CLOCK None = Some (i, m)" "merged (snd (take_message i m ss)) tr ss'"
  shows "merged ss ((i, m) # tr) ss'"
proof -
  obtain ms where i: "i < length (sc_list ss)" "msg_queue (sc_list ss ! i) = m # ms"
    by (rule lowest_found [OF assms(1)])
  have "msg_queue (sc_list ss ! j) = taken_from j ((i, m) # tr) @ msg_queue (sc_list ss' ! j)"
    if "j < length (sc_list ss)" for j
  proof -
    have "msg_queue (sc_list (snd (take_message i m ss)) ! j) = taken_from j tr @ msg_queue (sc_list ss' ! j)"
      using assms(2) that by (simp add: merged_def take_message_sc_list)
    then show ?thesis using i that by (cases "i = j") (auto simp: take_message_sc_list)
  qed
  then show ?thesis using assms(2) i by (auto simp: merged_def take_message_sc_list)
qed

lemma merged_in_queue:
  assumes "merged ss tr ss'" "x \<in> set tr"
  shows "\<exists>sc \<in> set (sc_list ss). snd x \<in> set (msg_queue sc)"
proof -
  have i: "fst x < length (sc_list ss)" using assms by (simp add: merged_def)
  have "snd x \<in> set (taken_from (fst x) tr)" using assms(2) by (auto simp: taken_from_def)
  then have "snd x \<in> set (msg_queue (sc_list ss ! fst x))" using assms(1) i by (simp add: merged_def)
  then show ?thesis using i by auto
qed

lemma take_message_stepper:
  assumes "sc \<in> set (sc_list (snd (take_message i m ss)))"
  obtains sc' where "sc' \<in> set (sc_list ss)" "msg_queue sc = msg_queue sc' \<or> msg_queue sc = tl (msg_queue sc')"
proof (cases "i < length (sc_list ss)")
  case True
  then have "sc_list ss ! i \<in> set (sc_list ss)" by simp
  then show ?thesis
    using that assms set_update_subset_insert [of "sc_list ss" i] unfolding take_message_sc_list by force
next
  case False
  then have "sc \<in> set (sc_list ss)" using assms by (simp add: take_message_sc_list list_update_beyond)
  then show ?thesis using that by blast
qed

lemma take_message_sorted:
  assumes "queues_sorted (sc_list ss)"
  shows "queues_sorted (sc_list (snd (take_message i m ss)))"
  unfolding queues_sorted_def
proof
  fix sc assume "sc \<in> set (sc_list (snd (take_message i m ss)))"
  then obtain sc' where "sc' \<in> set (sc_list ss)" "msg_queue sc = msg_queue sc' \<or> msg_queue sc = tl (msg_queue sc')"
    by (rule take_message_stepper)
  then show "sorted_wrt (\<le>) (map req_clock (msg_queue sc))"
    using assms by (cases "msg_queue sc'") (auto simp: queues_sorted_def)
qed

lemma lowest_of_all:
  assumes "lowest 0 (sc_list ss) MAX_CLOCK None = Some (i, m)" "queues_sorted (sc_list ss)"
    and "sc \<in> set (sc_list ss)" "x \<in> set (msg_queue sc)"
  shows "req_clock m \<le> req_clock x"
proof -
  obtain h hs where q: "msg_queue sc = h # hs" using assms(4) by (cases "msg_queue sc") auto
  have "req_clock m \<le> req_clock h" using lowest_least [OF assms(1)] assms(3) q by auto
  moreover have "req_clock h \<le> req_clock x"
    using assms(2,3,4) q by (auto simp: queues_sorted_def)
  ultimately show ?thesis by (rule order_trans)
qed

lemma take_message_clocks: "move_clocks (snd (take_message i m ss)) = booked (move_clocks ss) m"
  by (simp add: take_message_def Let_def heap_replace_def)

lemma take_message_fst: "fst (take_message i m ss) = m\<lparr>min_clock := move_clocks ss ! 0\<rparr>"
  by (simp add: take_message_def Let_def)

lemma take_message_queue_subset:
  assumes "sc \<in> set (sc_list (snd (take_message i m ss)))" "x \<in> set (msg_queue sc)"
  shows "\<exists>sc' \<in> set (sc_list ss). x \<in> set (msg_queue sc')"
proof -
  obtain sc' where "sc' \<in> set (sc_list ss)" "msg_queue sc = msg_queue sc' \<or> msg_queue sc = tl (msg_queue sc')"
    using assms(1) by (rule take_message_stepper)
  moreover from this(2) have "x \<in> set (msg_queue sc')" using assms(2) by (cases "msg_queue sc'") auto
  ultimately show ?thesis by blast
qed

text \<open>\<open>due\<close>: the queues still hold a message that the flush to \<open>move_clock\<close> has to take.\<close>

definition due_message :: "u64 \<Rightarrow> steppersync \<Rightarrow> bool" where
  "due_message move_clock ss \<longleftrightarrow>
     (case lowest 0 (sc_list ss) MAX_CLOCK None of
        None \<Rightarrow> False
      | Some (i, m) \<Rightarrow> min_clock m = 0 \<or> req_clock m \<le> move_clock)"

lemma not_due_heads:
  assumes "\<not> due_message move_clock ss" "move_clock < MAX_CLOCK"
    and "sc \<in> set (sc_list ss)" "msg_queue sc = m # ms"
  shows "move_clock < req_clock m"
proof (cases "lowest 0 (sc_list ss) MAX_CLOCK None")
  case None
  then show ?thesis using lowest_none [OF None] assms(2-4) by (auto intro: less_le_trans)
next
  case (Some p)
  obtain i h where p: "p = (i, h)" by fastforce
  have "req_clock h \<le> req_clock m" using lowest_least [OF Some [unfolded p]] assms(3,4) by auto
  then show ?thesis using assms(1) Some p by (auto simp: due_message_def not_le intro: less_le_trans)
qed

lemma merge_loop_stop: "\<not> due_message mc ss \<Longrightarrow> merge_loop mc ss acc = (ss, acc)"
  by (subst merge_loop.simps) (auto simp: due_message_def not_le split: option.splits)

lemma merge_loop_step:
  assumes "due_message mc ss"
  obtains i m where "lowest 0 (sc_list ss) MAX_CLOCK None = Some (i, m)" "min_clock m = 0 \<or> req_clock m \<le> mc"
    "merge_loop mc ss acc = merge_loop mc (snd (take_message i m ss)) (acc @ [m\<lparr>min_clock := move_clocks ss ! 0\<rparr>])"
proof (cases "lowest 0 (sc_list ss) MAX_CLOCK None")
  case None
  then show ?thesis using assms by (simp add: due_message_def)
next
  case (Some p)
  obtain i m where p: "p = (i, m)" by fastforce
  have due: "\<not> (min_clock m \<noteq> 0 \<and> mc < req_clock m)"
    using assms Some p by (auto simp: due_message_def)
  then have "merge_loop mc ss acc =
      (let (qm, ss1) = take_message i m ss in merge_loop mc ss1 (acc @ [qm]))"
    by (subst merge_loop.simps) (simp only: Some p option.case prod.case if_False)
  then show ?thesis using that Some p due take_message_fst [of i m ss] by (auto simp: split_beta not_less)
qed

lemma merge_loop_trace:
  "merge_loop mc ss acc = (ss', out) \<Longrightarrow>
     \<exists>tr. merged ss tr ss' \<and> out = acc @ stamp (move_clocks ss) (map snd tr) \<and>
       (queues_sorted (sc_list ss) \<longrightarrow> sorted_wrt (\<le>) (map (req_clock \<circ> snd) tr)) \<and> \<not> due_message mc ss' \<and>
       move_clocks ss' = foldl booked (move_clocks ss) (map snd tr) \<and>
       (\<forall>x \<in> set tr. min_clock (snd x) = 0 \<or> req_clock (snd x) \<le> mc) \<and>
       (queues_sorted (sc_list ss) \<longrightarrow> queues_sorted (sc_list ss'))"
proof (induction "queued_messages ss" arbitrary: ss acc rule: less_induct)
  case less
  show ?case
  proof (cases "due_message mc ss")
    case False
    then show ?thesis using less.prems by (intro exI [of _ "[]"]) (simp add: merge_loop_stop merged_nil)
  next
    case True
    then obtain i m where l: "lowest 0 (sc_list ss) MAX_CLOCK None = Some (i, m)"
      and d: "min_clock m = 0 \<or> req_clock m \<le> mc" and s: "merge_loop mc ss acc =
        merge_loop mc (snd (take_message i m ss)) (acc @ [m\<lparr>min_clock := move_clocks ss ! 0\<rparr>])"
      by (rule merge_loop_step)
    obtain tr where t: "merged (snd (take_message i m ss)) tr ss'"
        "out = (acc @ [m\<lparr>min_clock := move_clocks ss ! 0\<rparr>]) @ stamp (booked (move_clocks ss) m) (map snd tr)"
        "queues_sorted (sc_list (snd (take_message i m ss))) \<longrightarrow> sorted_wrt (\<le>) (map (req_clock \<circ> snd) tr)"
        "\<not> due_message mc ss'" "move_clocks ss' = foldl booked (booked (move_clocks ss) m) (map snd tr)"
        "\<forall>x \<in> set tr. min_clock (snd x) = 0 \<or> req_clock (snd x) \<le> mc"
        "queues_sorted (sc_list (snd (take_message i m ss))) \<longrightarrow> queues_sorted (sc_list ss')"
      using less.hyps [OF take_message_fewer [OF l] less.prems [unfolded s]] take_message_clocks by metis
    have "req_clock m \<le> req_clock (snd x)" if "queues_sorted (sc_list ss)" "x \<in> set tr" for x
      using merged_in_queue [OF t(1) that(2)] take_message_queue_subset lowest_of_all [OF l that(1)] by blast
    then show ?thesis
      using t d merged_take [OF l t(1)] take_message_sorted by (intro exI [of _ "(i, m) # tr"]) (auto simp del: booked.simps)
  qed
qed

text \<open>
  C27: \<open>steppersync_flush\<close> merges the messages of its steppers: each stepper's messages are taken in
  the order it queued them, none is lost or sent twice, and the batch is in the order of the required
  clocks when every queue is. Every message goes out with the least clock of the multiset of the clocks at
  which the places of the move queue become free, and a message that uses a place replaces
  that clock by its own. Only messages that are due or need no place are taken, and no due message
  stays: what is left at the front of a queue, or anywhere in sorted queues, is required after \<open>move_clock\<close>.
\<close>

theorem steppersync_flush_merges:
  assumes "flush_each move_clock [] (sc_list ss) = Ret 0 scs"
    and "is_heap (move_clocks ss)" "move_clocks ss \<noteq> []" "move_clock < MAX_CLOCK"
  shows "\<exists>ss' tr. steppersync_flush move_clock ss = Ret (0, stamped (mset (move_clocks ss)) (map snd tr)) ss' \<and>
           (\<forall>i < length scs. msg_queue (scs ! i) = taken_from i tr @ msg_queue (sc_list ss' ! i)) \<and>
           (\<forall>x \<in> set tr. fst x < length scs \<and> (min_clock (snd x) = 0 \<or> req_clock (snd x) \<le> move_clock)) \<and>
           (\<forall>sc \<in> set (sc_list ss'). \<forall>m ms. msg_queue sc = m # ms \<longrightarrow> move_clock < req_clock m) \<and>
           (queues_sorted scs \<longrightarrow> sorted_wrt (\<le>) (map (req_clock \<circ> snd) tr) \<and>
              (\<forall>sc \<in> set (sc_list ss'). \<forall>m \<in> set (msg_queue sc). move_clock < req_clock m)) \<and>
           is_heap (move_clocks ss') \<and>
           mset (move_clocks ss') = foldl next_places (mset (move_clocks ss)) (map snd tr)"
proof -
  define s1 where "s1 = ss\<lparr>sc_list := scs\<rparr>"
  have h: "move_heap (move_clocks ss)" using assms(2,3) by (simp add: move_heap_def)
  obtain ss' out where m: "merge_loop move_clock s1 [] = (ss', out)" by fastforce
  then obtain tr where t: "merged s1 tr ss'" "out = stamp (move_clocks ss) (map snd tr)"
      "queues_sorted scs \<longrightarrow> sorted_wrt (\<le>) (map (req_clock \<circ> snd) tr)" "\<not> due_message move_clock ss'"
      "move_clocks ss' = foldl booked (move_clocks ss) (map snd tr)"
      "\<forall>x \<in> set tr. min_clock (snd x) = 0 \<or> req_clock (snd x) \<le> move_clock"
      "queues_sorted scs \<longrightarrow> queues_sorted (sc_list ss')"
    using merge_loop_trace [OF m] by (auto simp: s1_def)
  have f: "steppersync_flush move_clock ss = Ret (0, out) ss'"
    using assms(1) m by (simp add: steppersync_flush_def s1_def)
  have front: "move_clock < req_clock h" if "sc \<in> set (sc_list ss')" "msg_queue sc = h # hs" for sc h hs
    by (rule not_due_heads [OF t(4) assms(4) that])
  have all: "move_clock < req_clock x" if sorted: "queues_sorted scs" and sc: "sc \<in> set (sc_list ss')" and x: "x \<in> set (msg_queue sc)" for sc x
  proof -
    obtain h hs where q: "msg_queue sc = h # hs" using x by (cases "msg_queue sc") auto
    have "req_clock h \<le> req_clock x" using t(7) sorted sc x q by (auto simp: queues_sorted_def)
    then show ?thesis using front [OF sc q] by simp
  qed
  show ?thesis
    using t(1,3,5,6) front all f stamp_places [OF h, of "map snd tr"] foldl_booked [OF h, of "map snd tr"]
    unfolding t(2) merged_def s1_def move_heap_def by (intro exI [of _ ss'] exI [of _ tr]) auto
qed

text \<open>
  C28: The micro-controller's move queue is never overcommitted: at every clock, the
  messages of the batch that occupy a place and the places booked by earlier batches are together at
  most as many as the queue has places, provided no message is needed
  before its place is free.
\<close>

theorem move_queue_not_overcommitted:
  assumes "move_heap (move_clocks ss)" "merge_loop move_clock ss [] = (ss', out)"
  shows "\<exists>tr. merged ss tr ss' \<and> out = stamp (move_clocks ss) (map snd tr) \<and>
     (list_all2 (\<lambda>m q. min_clock m \<noteq> 0 \<longrightarrow> min_clock q \<le> min_clock m) (map snd tr) out \<longrightarrow>
        length (filter (\<lambda>x. t < x) (move_clocks ss)) +
          length (filter (\<lambda>(m, q). occupies t m q) (zip (map snd tr) out)) \<le> length (move_clocks ss))"
proof -
  obtain tr where tr: "merged ss tr ss'" "out = stamp (move_clocks ss) (map snd tr)"
    using merge_loop_trace [OF assms(2)] by auto
  then show ?thesis using stamp_capacity [OF assms(1), of "map snd tr" t] by blast
qed

text \<open>
  \<open>heap_replace\<close> keeps the binary heap and exchanges its minimum for the new clock.
\<close>

theorem heap_replace_spec:
  assumes "is_heap (move_clocks ss)" "move_clocks ss \<noteq> []"
  shows "is_heap (move_clocks (heap_replace c ss)) \<and>
    mset (move_clocks (heap_replace c ss)) = add_mset c (mset (move_clocks ss) - {#Min_mset (mset (move_clocks ss))#}) \<and>
    move_clocks (heap_replace c ss) ! 0 = Min_mset (mset (move_clocks (heap_replace c ss)))"
proof -
  have h: "move_heap (move_clocks ss)" using assms unfolding move_heap_def by (rule conjI)
  have r: "move_clocks (heap_replace c ss) = heap_sift (move_clocks ss) 0 c" by (simp add: heap_replace_def)
  have h': "move_heap (heap_sift (move_clocks ss) 0 c)" by (rule move_pool.book_wf [OF h])
  show ?thesis
    unfolding r heap_first [OF h, symmetric]
    using h' [unfolded move_heap_def] move_pool.book_slots [OF h] heap_first [OF h'] by blast
qed

text \<open>Two messages of two steppers for a move queue with two places, one of them still taken.\<close>

definition two_queues :: steppersync where
  "two_queues = \<lparr>sc_list = [stepcompress_alloc 1\<lparr>msg_queue := [message_alloc\<lparr>min_clock := 50, req_clock := 50\<rparr>]\<rparr>,
       stepcompress_alloc 2\<lparr>msg_queue := [message_alloc\<lparr>min_clock := 40, req_clock := 40\<rparr>]\<rparr>],
     move_clocks = [0, 30]\<rparr>"

lemma message_fields [simp]: "min_clock message_alloc = 0" "req_clock message_alloc = 0"
  by (simp_all add: message_alloc_def)

lemma alloc_msg_queue [simp]: "msg_queue (stepcompress_alloc n) = []"
  by (simp add: stepcompress_alloc_def)

lemma two_queues_heap: "move_heap (move_clocks two_queues)"
  by (auto simp: move_heap_def is_heap_def two_queues_def less_Suc_eq)

lemma two_queues_merge:
  "map (\<lambda>q. (min_clock q, req_clock q)) (snd (merge_loop 100 two_queues [])) = [(0, 40), (30, 50)]"
  apply (subst merge_loop.simps, simp add: two_queues_def MAX_CLOCK_def take_message_def heap_replace_def)
  apply (subst heap_sift.simps, simp add: Let_def)
  apply (subst heap_sift.simps, simp add: Let_def UINT64_MAX_def)
  apply (subst merge_loop.simps, simp add: MAX_CLOCK_def take_message_def heap_replace_def)
  apply (subst heap_sift.simps, simp add: Let_def)
  apply (subst heap_sift.simps, simp add: Let_def UINT64_MAX_def)
  apply (subst merge_loop.simps, simp add: MAX_CLOCK_def)
  done

lemma flush_each_idle:
  "\<forall>sc \<in> set scs. queue_pos sc = queue_next sc \<and> next_step_clock sc = 0 \<Longrightarrow>
     flush_each move_clock ys scs = Ret 0 (ys @ scs)"
  by (induction scs arbitrary: ys) (simp_all add: stepcompress_flush_def queue_flush_def unless_error_def)

lemma two_queues_flush: "flush_each 100 [] (sc_list two_queues) = Ret 0 (sc_list two_queues)"
  using flush_each_idle [of "sc_list two_queues" 100 "[]"]
  by (simp add: two_queues_def stepcompress_alloc_def)

theorem steppersync_flush_merges_witness:
  "\<exists>ss'. \<exists>tr :: (nat \<times> queue_message) list. steppersync_flush 100 two_queues = Ret (0, stamped {#0, 30#} (map snd tr)) ss' \<and>
     map (\<lambda>q. (min_clock q, req_clock q)) (stamped {#0, 30#} (map snd tr)) = [(0, 40), (30, 50)]"
proof -
  have h: "is_heap (move_clocks two_queues)" "move_clocks two_queues \<noteq> []"
    using two_queues_heap by (simp_all add: move_heap_def)
  have p: "mset (move_clocks two_queues) = {#0, 30#}" by (simp add: two_queues_def)
  obtain ss' and tr :: "(nat \<times> queue_message) list" where
    r: "steppersync_flush 100 two_queues = Ret (0, stamped {#0, 30#} (map snd tr)) ss'"
    using steppersync_flush_merges [OF two_queues_flush h] unfolding p by (auto simp: MAX_CLOCK_def)
  obtain s2 out where m: "merge_loop 100 two_queues [] = (s2, out)" by fastforce
  then have "steppersync_flush 100 two_queues = Ret (0, out) s2"
    by (simp add: steppersync_flush_def two_queues_flush)
  then have "snd (merge_loop 100 two_queues []) = stamped {#0, 30#} (map snd tr)" using r m by simp
  then have "map (\<lambda>q. (min_clock q, req_clock q)) (stamped {#0, 30#} (map snd tr)) = [(0, 40), (30, 50)]"
    using two_queues_merge by (simp only:)
  then show ?thesis using r by (intro exI [of _ ss'] exI [of _ tr] conjI) assumption+
qed

theorem move_queue_not_overcommitted_witness:
  "\<exists>tr ss' out. merge_loop 100 two_queues [] = (ss', out) \<and> merged two_queues tr ss' \<and> length out = 2"
proof -
  obtain ss' out where m: "merge_loop 100 two_queues [] = (ss', out)" by fastforce
  then have "map (\<lambda>q. (min_clock q, req_clock q)) out = [(0, 40), (30, 50)]" using two_queues_merge by simp
  then have "length out = 2" by (simp add: map_eq_Cons_conv) auto
  then show ?thesis using m move_queue_not_overcommitted [OF two_queues_heap m] by blast
qed

theorem heap_replace_spec_witness:
  "move_clocks (heap_replace 20 two_queues) ! 0 = 20 \<and> is_heap (move_clocks (heap_replace 20 two_queues))"
proof -
  have "is_heap (move_clocks two_queues)" "move_clocks two_queues \<noteq> []"
    using two_queues_heap by (simp_all add: move_heap_def)
  note h = heap_replace_spec [OF this, of 20]
  have "mset (move_clocks (heap_replace 20 two_queues)) = {#20, 30#}"
    using h by (simp add: two_queues_def)
  then have "set (move_clocks (heap_replace 20 two_queues)) = {20, 30}"
    by (metis set_mset_mset set_mset_add_mset_insert set_mset_single)
  then show ?thesis using h by (simp only: set_mset_mset) simp
qed

end
