(* ===== verification/Serial_Queue.thy ===== *)
theory Serial_Queue
  imports Poll_Reactor Stepper_Sync
begin

text \<open>
  The host's end of the serial line, \<open>klippy/chelper/serialqueue.c\<close>: command queues with messages that
  wait for their clocks, blocks with sequence numbers, a window of blocks in flight, acknowledgement,
  retransmission and the estimate of the round trip. Each operation that the code runs with the lock
  held is one step. The lists are HOL lists; the pointers to command queues are numbers. What goes to
  the operating system is recorded in \<open>io\<close>. The \<open>int\<close> byte counts are unbounded: they stay below the
  memory used by the messages.
\<close>

section \<open>State\<close>

definition BACKGROUND_PRIORITY_CLOCK :: u64 where "BACKGROUND_PRIORITY_CLOCK = 0x7fffffff00000000"
definition SQPT_RETRANSMIT :: nat where "SQPT_RETRANSMIT = 0"
definition SQPT_COMMAND :: nat where "SQPT_COMMAND = 1"
definition SQPT_NUM :: nat where "SQPT_NUM = 2"
definition MIN_RTO :: "'d double_ops \<Rightarrow> 'd" where "MIN_RTO d = d_lit d 25 3"
definition MAX_RTO :: "'d double_ops \<Rightarrow> 'd" where "MAX_RTO d = d_lit d 5 0"
definition MAX_PENDING_BLOCKS :: nat where "MAX_PENDING_BLOCKS = 12"
definition MIN_REQTIME_DELTA :: "'d double_ops \<Rightarrow> 'd" where "MIN_REQTIME_DELTA d = d_lit d 250 3"
definition MIN_BACKGROUND_DELTA :: "'d double_ops \<Rightarrow> 'd" where "MIN_BACKGROUND_DELTA d = d_lit d 5 3"
definition DEBUG_QUEUE_SENT :: nat where "DEBUG_QUEUE_SENT = 100"
definition DEBUG_QUEUE_RECEIVE :: nat where "DEBUG_QUEUE_RECEIVE = 100"

datatype serial_type = SQT_UART | SQT_CAN | SQT_DEBUGFILE

text \<open>A message with the members that it has on a sent or receive queue.\<close>

record 'd timed_message = queue_message +
  sent_time :: 'd
  receive_time :: 'd

definition timed :: "'d double_ops \<Rightarrow> queue_message \<Rightarrow> 'd timed_message" where
  "timed d qm = queue_message.extend qm \<lparr>sent_time = d_zero d, receive_time = d_zero d\<rparr>"

definition msg_bytes :: "'z queue_message_scheme \<Rightarrow> u8 list" where
  "msg_bytes qm = take (nat (qm_len qm)) (qm_msg qm)"

record 'd command_queue =
  stalled_queue :: "'d timed_message list"
  ready_queue :: "'d timed_message list"

record fastreader =
  fr_func :: nat
  fr_prefix :: "u8 list"

record 'd clock_estimate =
  last_clock :: u64
  conv_clock :: u64
  conv_time :: 'd
  est_freq :: 'd

datatype host_io =
    Serial_write "u8 list"
  | Can_write u32 "u8 list"
  | Flush_output
  | Kick_bg_thread
  | Wake_receiver
  | Call_fast_reader nat "u8 list"

record 'd serialqueue = "'d pollreactor" +
  serial_fd_type :: serial_type
  client_id :: u32
  input_buf :: "u8 list"            \<comment> \<open>the first \<open>input_pos\<close> bytes\<close>
  sq_need_sync :: bool
  receive_waiting :: bool
  receive_window :: int
  baud_adjust :: 'd
  idle_time :: 'd
  ce :: "'d clock_estimate"
  last_receive_sent_time :: 'd
  send_seq :: u64
  receive_seq :: u64
  ignore_nak_seq :: u64
  last_ack_seq :: u64
  retransmit_seq :: u64
  rtt_sample_seq :: u64
  sent_queue :: "'d timed_message list"
  srtt :: 'd
  rttvar :: 'd
  rto :: 'd
  command_queues :: "nat \<Rightarrow> 'd command_queue"
  pending_queues :: "nat list"
  ready_bytes :: int
  stalled_bytes :: int
  need_ack_bytes :: int
  last_ack_bytes :: int
  need_kick_clock :: u64
  notify_queue :: "'d timed_message list"
  receive_queue :: "'d timed_message list"
  fast_readers :: "fastreader list"
  old_sent :: "'d timed_message list"
  old_receive :: "'d timed_message list"
  bytes_write :: u32
  bytes_read :: u32
  bytes_retransmit :: u32
  bytes_invalid :: u32
  monotonic :: "nat \<Rightarrow> 'd"         \<comment> \<open>the readings of \<open>get_monotonic\<close>\<close>
  monotonic_reads :: nat
  io :: "host_io list"

definition do_io :: "host_io \<Rightarrow> 'd serialqueue \<Rightarrow> 'd serialqueue" where
  "do_io x sq = sq\<lparr>io := io sq @ [x]\<rparr>"

section \<open>Translation\<close>

text \<open>\<open>clock_from_time\<close> of \<open>msgblock.c\<close>\<close>

definition clock_from_time :: "'d double_ops \<Rightarrow> 'd clock_estimate \<Rightarrow> 'd \<Rightarrow> u64" where
  "clock_from_time d est time =
     of_int (d_to_int d (d_add d (d_mul d (d_sub d time (conv_time est)) (est_freq est)) (d_lit d 5 1)))
       + conv_clock est"

definition debug_queue_alloc :: "'d double_ops \<Rightarrow> nat \<Rightarrow> 'd timed_message list" where
  "debug_queue_alloc d n = replicate n (timed d message_alloc)"

definition debug_queue_add :: "'d timed_message \<Rightarrow> 'd timed_message list \<Rightarrow> 'd timed_message list" where
  "debug_queue_add qm root = tl (root @ [qm])"

definition check_wake_receive :: "'d serialqueue \<Rightarrow> 'd serialqueue" where
  "check_wake_receive sq =
     (if receive_waiting sq then do_io Wake_receiver (sq\<lparr>receive_waiting := False\<rparr>) else sq)"

definition kick_bg_thread :: "'d serialqueue \<Rightarrow> 'd serialqueue" where
  "kick_bg_thread sq = do_io Kick_bg_thread sq"

subsection \<open>Receiving\<close>

text \<open>\<open>Remove from sent queue\<close>: the loop of \<open>update_receive_seq\<close>.\<close>

fun ack_sent :: "'d double_ops \<Rightarrow> u64 \<Rightarrow> u64 \<Rightarrow> 'd timed_message list \<Rightarrow> 'd serialqueue \<Rightarrow> 'd serialqueue" where
  "ack_sent d rseq sent_seq [] sq =
     sq\<lparr>sent_queue := [], send_seq := rseq, last_receive_sent_time := d_zero d\<rparr>"
| "ack_sent d rseq sent_seq (qm # qms) sq =
     (let sq = sq\<lparr>need_ack_bytes := need_ack_bytes sq - qm_len qm, sent_queue := qms,
                  old_sent := debug_queue_add qm (old_sent sq)\<rparr>;
          sent_seq = sent_seq + 1
      in if rseq = sent_seq
         then sq\<lparr>last_receive_sent_time := receive_time qm, last_ack_bytes := qm_len qm\<rparr>
         else ack_sent d rseq sent_seq qms sq)"

text \<open>\<open>RFC6298 rtt calculations\<close>\<close>

definition clamp_rto :: "'d double_ops \<Rightarrow> 'd \<Rightarrow> 'd" where
  "clamp_rto d r =
     (if d_less d r (MIN_RTO d) then MIN_RTO d else if d_less d (MAX_RTO d) r then MAX_RTO d else r)"

definition update_rtt :: "'d double_ops \<Rightarrow> 'd \<Rightarrow> 'd serialqueue \<Rightarrow> 'd serialqueue" where
  "update_rtt d eventtime sq =
     (let delta = d_sub d eventtime (last_receive_sent_time sq);
          sq = (if \<not> d_true d (srtt sq)
                then sq\<lparr>rttvar := d_div d delta (d_lit d 2 0), srtt := d_mul d delta (d_lit d 10 0)\<rparr>
                else let sq = sq\<lparr>rttvar := d_div d (d_add d (d_mul d (d_lit d 3 0) (rttvar sq))
                                   (d_abs d (d_sub d (srtt sq) delta))) (d_lit d 4 0)\<rparr>
                     in sq\<lparr>srtt := d_div d (d_add d (d_mul d (d_lit d 7 0) (srtt sq)) delta) (d_lit d 8 0)\<rparr>);
          rttvar4 = d_mul d (rttvar sq) (d_lit d 4 0);
          rttvar4 = (if d_less d rttvar4 (d_lit d 1 3) then d_lit d 1 3 else rttvar4)
      in sq\<lparr>rto := clamp_rto d (d_add d (srtt sq) rttvar4), rtt_sample_seq := 0\<rparr>)"

definition update_receive_seq :: "'d double_ops \<Rightarrow> 'd \<Rightarrow> u64 \<Rightarrow> 'd serialqueue \<Rightarrow> 'd serialqueue" where
  "update_receive_seq d eventtime rseq sq =
     (let sq = ack_sent d rseq (receive_seq sq) (sent_queue sq) sq;
          sq = sq\<lparr>receive_seq := rseq\<rparr>;
          sq = pollreactor_update_timer d SQPT_COMMAND (PR_NOW d) sq;
          sq = (if rtt_sample_seq sq \<noteq> 0 \<and> rseq > rtt_sample_seq sq \<and> d_true d (last_receive_sent_time sq)
                then update_rtt d eventtime sq else sq)
      in case sent_queue sq of
           [] \<Rightarrow> pollreactor_update_timer d SQPT_RETRANSMIT (PR_NEVER d) sq
         | qm # qms \<Rightarrow>
             let nr = d_add d (d_add d eventtime (rto sq)) (d_mul d (d_of_int d (qm_len qm)) (baud_adjust sq))
             in pollreactor_update_timer d SQPT_RETRANSMIT nr sq)"

text \<open>\<open>Check for pending messages on notify_queue\<close>; the flag is \<open>must_wake\<close>.\<close>

fun notify_loop :: "u64 \<Rightarrow> 'd \<Rightarrow> 'd timed_message list \<Rightarrow> bool \<Rightarrow> 'd serialqueue \<Rightarrow> bool \<times> 'd serialqueue" where
  "notify_loop wake_seq eventtime [] must_wake sq = (must_wake, sq\<lparr>notify_queue := []\<rparr>)"
| "notify_loop wake_seq eventtime (qm # qms) must_wake sq =
     (if req_clock qm > wake_seq then (must_wake, sq\<lparr>notify_queue := qm # qms\<rparr>)
      else notify_loop wake_seq eventtime qms True
             (sq\<lparr>receive_queue := receive_queue sq @
                   [qm\<lparr>qm_len := 0, sent_time := last_receive_sent_time sq, receive_time := eventtime\<rparr>]\<rparr>))"

definition get_monotonic :: "'d serialqueue \<Rightarrow> 'd \<times> 'd serialqueue" where
  "get_monotonic sq = (monotonic sq (monotonic_reads sq), sq\<lparr>monotonic_reads := monotonic_reads sq + 1\<rparr>)"

definition receive_ack :: "'d double_ops \<Rightarrow> u64 \<Rightarrow> 'd serialqueue \<Rightarrow> 'd serialqueue" where
  "receive_ack d rseq sq =
     (if last_ack_seq sq < rseq then sq\<lparr>last_ack_seq := rseq\<rparr>
      else if rseq > ignore_nak_seq sq \<and> sent_queue sq \<noteq> []
      then pollreactor_update_timer d SQPT_RETRANSMIT (PR_NOW d) sq
      else sq)"

definition receive_data ::
    "'d double_ops \<Rightarrow> u64 \<Rightarrow> u8 list \<Rightarrow> 'd serialqueue \<Rightarrow> (unit, 'd serialqueue) outcome" where
  "receive_data d rseq block sq =
     (case message_fill block of
        None \<Rightarrow> Fault
      | Some qm \<Rightarrow>
          let qm = timed d qm;
              qm = qm\<lparr>sent_time := (if rseq > retransmit_seq sq then last_receive_sent_time sq else d_zero d)\<rparr>;
              (now, sq) = get_monotonic sq;
              qm = qm\<lparr>receive_time :=
                     d_sub d now (d_mul d (baud_adjust sq) (d_of_int d (int (length block))))\<rparr>
          in Ret () (sq\<lparr>receive_queue := receive_queue sq @ [qm]\<rparr>))"

text \<open>\<open>Check fast readers\<close>: the first one whose prefix matches gets the block.\<close>

fun find_fast_reader :: "u8 list \<Rightarrow> fastreader list \<Rightarrow> fastreader option" where
  "find_fast_reader block [] = None"
| "find_fast_reader block (fr # frs) =
     (if length block < length (fr_prefix fr) + MESSAGE_MIN
         \<or> take (length (fr_prefix fr)) (drop MESSAGE_HEADER_SIZE block) \<noteq> fr_prefix fr
      then find_fast_reader block frs else Some fr)"

text \<open>\<open>rseq\<close>: the sequence number of the block, extended to 64 bits.\<close>

definition block_rseq :: "u8 \<Rightarrow> u64 \<Rightarrow> u64" where
  "block_rseq seq rs =
     (let rseq = (rs AND NOT (ucast MESSAGE_SEQ_MASK)) OR ucast (seq AND MESSAGE_SEQ_MASK)
      in if rseq \<noteq> rs \<and> rseq < rs then rseq + (ucast MESSAGE_SEQ_MASK + 1) else rseq)"

definition handle_message ::
    "'d double_ops \<Rightarrow> 'd \<Rightarrow> u8 list \<Rightarrow> 'd serialqueue \<Rightarrow> (unit, 'd serialqueue) outcome" where
  "handle_message d eventtime block sq =
     (let len = length block; rseq = block_rseq (block ! MESSAGE_POS_SEQ) (receive_seq sq) in
      if rseq \<noteq> receive_seq sq \<and> rseq > send_seq sq \<and> receive_seq sq \<noteq> 1
      then Ret () (sq\<lparr>bytes_invalid := bytes_invalid sq + of_nat len\<rparr>)
      else let sq = (if rseq \<noteq> receive_seq sq then update_receive_seq d eventtime rseq sq else sq);
               sq = sq\<lparr>bytes_read := bytes_read sq + of_nat len\<rparr>;
               (must_wake, sq) = notify_loop (rseq - 1 - (if len > MESSAGE_MIN then 1 else 0)) eventtime
                                   (notify_queue sq) False sq
           in andThen (if len = MESSAGE_MIN then Ret must_wake (receive_ack d rseq sq)
                       else andThen (receive_data d rseq block sq) (\<lambda>_ sq. Ret True sq))
                (\<lambda>must_wake sq.
                   let sq' = (if must_wake then check_wake_receive sq else sq) in
                   case find_fast_reader block (fast_readers sq) of
                     Some fr \<Rightarrow> Ret () (do_io (Call_fast_reader (fr_func fr) block) sq')
                   | None \<Rightarrow> Ret () sq'))"

lemma notify_loop_frame:
  "notify_loop w t qms mw sq = (mw', sq') \<Longrightarrow> input_buf sq' = input_buf sq"
  by (induction w t qms mw sq rule: notify_loop.induct) (auto split: if_splits)

lemma ack_sent_frame: "input_buf (ack_sent d rseq s qms sq) = input_buf sq"
  by (induction d rseq s qms sq rule: ack_sent.induct) (simp_all add: Let_def)

lemma update_receive_seq_frame: "input_buf (update_receive_seq d t rseq sq) = input_buf sq"
  by (simp add: update_receive_seq_def Let_def update_rtt_def pollreactor_update_timer_def ack_sent_frame
      split: list.split)

lemma check_wake_frame: "input_buf (check_wake_receive sq) = input_buf sq"
  by (simp add: check_wake_receive_def do_io_def)

lemma handle_message_frame:
  assumes "handle_message d t block sq = Ret u sq'"
  shows "input_buf sq' = input_buf sq"
  using assms
  by (auto simp: handle_message_def Let_def receive_data_def get_monotonic_def receive_ack_def do_io_def
      pollreactor_update_timer_def update_receive_seq_frame check_wake_frame
      dest!: notify_loop_frame split: if_splits option.splits prod.splits)

lemma msgblock_check_empty: "msgblock_check ns [] = (0, ns)"
  by (simp add: msgblock_check_def message_consts)

text \<open>The loop of \<open>input_event\<close>.\<close>

function input_loop :: "'d double_ops \<Rightarrow> 'd \<Rightarrow> 'd serialqueue \<Rightarrow> (unit, 'd serialqueue) outcome" where
  "input_loop d eventtime sq =
     (let (len, ns) = msgblock_check (sq_need_sync sq) (input_buf sq); sq = sq\<lparr>sq_need_sync := ns\<rparr> in
      if len = 0 then Ret () sq
      else andThen (if len > 0 then handle_message d eventtime (take (nat len) (input_buf sq)) sq
                    else Ret () (sq\<lparr>bytes_invalid := bytes_invalid sq + of_int (- len)\<rparr>))
             (\<lambda>_ sq. input_loop d eventtime (sq\<lparr>input_buf := drop (nat \<bar>len\<bar>) (input_buf sq)\<rparr>)))"
  by pat_completeness auto
termination input_loop
proof (relation "measure (\<lambda>(d, t, sq). length (input_buf sq))", goal_cases)
  case (2 d t sq p len ns sq1 u sq2)
  then have "input_buf sq \<noteq> []" "input_buf sq2 = input_buf sq"
    by (auto simp: msgblock_check_empty dest!: handle_message_frame split: if_splits)
  then show ?case using 2 by (cases "input_buf sq") auto
qed simp

declare input_loop.simps [simp del]

text \<open>
  The answer of \<open>read\<close> on the serial device, or of one CAN frame with its identifier. A read of more
  than the free part of the 4096 byte buffer is a \<open>Fault\<close>.
\<close>

datatype read_result = Read_error | Read_eof | Read_bytes "u8 list" | Read_can u32 "u8 list"

definition INPUT_BUF_SIZE :: nat where "INPUT_BUF_SIZE = 4096"

definition input_event ::
    "'d double_ops \<Rightarrow> read_result \<Rightarrow> 'd \<Rightarrow> 'd serialqueue \<Rightarrow> (unit, 'd serialqueue) outcome" where
  "input_event d r eventtime sq =
     (let add = (\<lambda>data. if length (input_buf sq @ data) > INPUT_BUF_SIZE then Fault
                       else input_loop d eventtime (sq\<lparr>input_buf := input_buf sq @ data\<rparr>)) in
      case r of
        Read_error \<Rightarrow> Ret () (pollreactor_do_exit sq)
      | Read_eof \<Rightarrow> Ret () (pollreactor_do_exit sq)
      | Read_bytes data \<Rightarrow> add data
      | Read_can can_id data \<Rightarrow> if can_id \<noteq> client_id sq + 1 then Ret () sq else add data)"

definition kick_event :: "'d double_ops \<Rightarrow> 'd \<Rightarrow> 'd serialqueue \<Rightarrow> (unit, 'd serialqueue) outcome" where
  "kick_event d eventtime sq = Ret () (pollreactor_update_timer d SQPT_COMMAND (PR_NOW d) sq)"

subsection \<open>Sending\<close>

fun can_frames :: "u32 \<Rightarrow> u8 list \<Rightarrow> host_io list" where
  "can_frames cid [] = []"
| "can_frames cid (b # buf) = Can_write cid (b # take 7 buf) # can_frames cid (drop 7 buf)"

definition do_write :: "u8 list \<Rightarrow> 'd serialqueue \<Rightarrow> 'd serialqueue" where
  "do_write buf sq =
     (if serial_fd_type sq \<noteq> SQT_CAN then do_io (Serial_write buf) sq
      else sq\<lparr>io := io sq @ can_frames (client_id sq) buf\<rparr>)"

definition retransmit_event ::
    "'d double_ops \<Rightarrow> 'd \<Rightarrow> 'd serialqueue \<Rightarrow> ('d, 'd serialqueue) outcome" where
  "retransmit_event d eventtime sq =
     (let sq = (if serial_fd_type sq = SQT_UART then do_io Flush_output sq else sq);
          buf = MESSAGE_SYNC # concat (map msg_bytes (sent_queue sq));
          buflen = int (length buf);
          first_buflen = (case sent_queue sq of [] \<Rightarrow> 0 | qm # _ \<Rightarrow> qm_len qm + 1) in
      if length buf > MESSAGE_MAX * MAX_PENDING_BLOCKS + 1 then Fault
      else
        let sq = do_write buf sq;
            sq = sq\<lparr>bytes_retransmit := bytes_retransmit sq + of_int buflen\<rparr>;
            sq = (if d_eq d (pollreactor_get_timer SQPT_RETRANSMIT sq) (PR_NOW d)
                  then let sq = sq\<lparr>ignore_nak_seq := receive_seq sq\<rparr> in
                       (if receive_seq sq < retransmit_seq sq
                        then sq\<lparr>ignore_nak_seq := retransmit_seq sq\<rparr> else sq)
                  else let r = d_mul d (rto sq) (d_lit d 2 0);
                           r = (if d_less d (MAX_RTO d) r then MAX_RTO d else r)
                       in sq\<lparr>rto := r, ignore_nak_seq := send_seq sq\<rparr>);
            sq = sq\<lparr>retransmit_seq := send_seq sq, rtt_sample_seq := 0,
                    idle_time := d_add d eventtime (d_mul d (d_of_int d buflen) (baud_adjust sq))\<rparr>
        in Ret (d_add d (d_add d eventtime (d_mul d (d_of_int d first_buflen) (baud_adjust sq))) (rto sq)) sq)"

text \<open>\<open>Find highest priority message\<close>: the command queue and the message.\<close>

fun highest :: "(nat \<Rightarrow> 'd command_queue) \<Rightarrow> nat list \<Rightarrow> u64 \<Rightarrow> (nat \<times> 'd timed_message) option
    \<Rightarrow> (nat \<times> 'd timed_message) option" where
  "highest cqs [] minc qm = qm"
| "highest cqs (q # qs) minc qm =
     (case ready_queue (cqs q) of
        [] \<Rightarrow> highest cqs qs minc qm
      | m # ms \<Rightarrow> if req_clock m < minc then highest cqs qs (req_clock m) (Some (q, m))
                 else highest cqs qs minc qm)"

definition pending_ready :: "'d serialqueue \<Rightarrow> nat" where
  "pending_ready sq = sum_list (map (\<lambda>q. length (ready_queue (command_queues sq q))) (pending_queues sq))"

text \<open>Taking the message \<open>qm\<close> off the ready queue of \<open>cq\<close>.\<close>

definition take_ready :: "nat \<Rightarrow> 'd timed_message \<Rightarrow> 'd serialqueue \<Rightarrow> 'd serialqueue" where
  "take_ready cq qm sq =
     (let c = command_queues sq cq; c = c\<lparr>ready_queue := tl (ready_queue c)\<rparr>;
          sq = sq\<lparr>command_queues := (command_queues sq)(cq := c)\<rparr>;
          sq = (if ready_queue c = [] \<and> stalled_queue c = []
                then sq\<lparr>pending_queues := remove1 cq (pending_queues sq)\<rparr> else sq);
          sq = sq\<lparr>ready_bytes := ready_bytes sq - qm_len qm\<rparr>
      in if notify_id qm \<noteq> 0
         then sq\<lparr>notify_queue := notify_queue sq @ [qm\<lparr>req_clock := send_seq sq\<rparr>]\<rparr>
         else sq)"

lemma highest_some:
  "highest cqs qs minc qm = Some (q, m) \<Longrightarrow>
     qm = Some (q, m) \<or> (q \<in> set qs \<and> (\<exists>ms. ready_queue (cqs q) = m # ms) \<and> req_clock m < minc)"
proof (induction cqs qs minc qm rule: highest.induct)
  case (2 cqs x qs minc qm)
  show ?case
  proof (cases "ready_queue (cqs x)")
    case Nil
    then show ?thesis using "2.IH"(1) [OF Nil] "2.prems" by auto
  next
    case (Cons h ms)
    then show ?thesis
      using "2.IH"(2) [OF Cons] "2.IH"(3) [OF Cons] "2.prems" by (cases "req_clock h < minc") auto
  qed
qed simp

lemma sum_list_remove1: "x \<in> set xs \<Longrightarrow> sum_list (map f (remove1 x xs)) \<le> sum_list (map (f :: 'a \<Rightarrow> nat) xs)"
  by (simp add: sum_list_map_remove1 [of x xs f])

lemma take_ready_fewer:
  assumes "highest (command_queues sq) (pending_queues sq) MAX_CLOCK None = Some (cq, qm)"
  shows "pending_ready (take_ready cq qm sq) < pending_ready sq"
proof -
  obtain ms where q: "cq \<in> set (pending_queues sq)" "ready_queue (command_queues sq cq) = qm # ms"
    using highest_some [OF assms] by auto
  define f where "f = (\<lambda>q. length (ready_queue (command_queues sq q)))"
  define g where "g = (\<lambda>q. length (ready_queue (command_queues (take_ready cq qm sq) q)))"
  have g: "g q = (if q = cq then length ms else f q)" for q
    using q(2) by (simp add: g_def f_def take_ready_def Let_def)
  have fc: "f cq = Suc (length ms)" using q(2) by (simp add: f_def)
  have le: "sum_list (map g xs) \<le> sum_list (map f xs)" for xs
    by (induction xs) (auto simp: g fc intro: add_mono)
  have lt: "sum_list (map g xs) < sum_list (map f xs)" if "cq \<in> set xs" for xs
    using that le by (induction xs) (auto simp: g fc intro: add_less_le_mono add_le_less_mono le_imp_less_Suc)
  have "pending_queues (take_ready cq qm sq) = pending_queues sq \<or>
      pending_queues (take_ready cq qm sq) = remove1 cq (pending_queues sq)"
    by (simp add: take_ready_def Let_def)
  then have "pending_ready (take_ready cq qm sq) \<le> sum_list (map g (pending_queues sq))"
    unfolding pending_ready_def g_def [symmetric]
    using sum_list_remove1 [OF q(1), of g] by (elim disjE) (simp_all only: order_refl)
  also have "\<dots> < pending_ready sq" using lt [OF q(1)] by (simp add: pending_ready_def f_def)
  finally show ?thesis .
qed

text \<open>
  The loop of \<open>build_and_send_command\<close>; \<open>out\<close> is what lies between the header and \<open>buf + len\<close>. When no
  queue has a message the code follows a \<open>NULL\<close> pointer.
\<close>

function fill_block :: "u8 list \<Rightarrow> 'd serialqueue \<Rightarrow> (u8 list, 'd serialqueue) outcome" where
  "fill_block out sq =
     (if ready_bytes sq = 0 then Ret out sq
      else case highest (command_queues sq) (pending_queues sq) MAX_CLOCK None of
             None \<Rightarrow> Fault
           | Some (cq, qm) \<Rightarrow>
               if int (MESSAGE_HEADER_SIZE + length out) + qm_len qm > int (MESSAGE_MAX - MESSAGE_TRAILER_SIZE)
               then Ret out sq
               else fill_block (out @ msg_bytes qm) (take_ready cq qm sq))"
  by pat_completeness auto
termination fill_block
  by (relation "measure (\<lambda>(out, sq). pending_ready sq)") (auto dest: take_ready_fewer)

declare fill_block.simps [simp del]

definition finish_block :: "u8 list \<Rightarrow> u64 \<Rightarrow> u8 list" where
  "finish_block out seq =
     (let len = MESSAGE_HEADER_SIZE + length out + MESSAGE_TRAILER_SIZE;
          body = [of_nat len, MESSAGE_DEST OR (ucast seq AND MESSAGE_SEQ_MASK)] @ out;
          crc = msgblock_crc16_ccitt body
      in body @ [ucast (drop_bit 8 crc), ucast (crc AND 0xff), MESSAGE_SYNC])"

definition build_and_send_command ::
    "'d double_ops \<Rightarrow> 'd \<Rightarrow> 'd serialqueue \<Rightarrow> (u8 list, 'd serialqueue) outcome" where
  "build_and_send_command d eventtime sq =
     andThen (fill_block [] sq) (\<lambda>out sq.
       let buf = finish_block out (send_seq sq); len = int (length buf);
           sq = (if d_less d (idle_time sq) eventtime then sq\<lparr>idle_time := eventtime\<rparr> else sq);
           sq = sq\<lparr>idle_time := d_add d (idle_time sq) (d_mul d (d_of_int d len) (baud_adjust sq))\<rparr>
       in case message_fill buf of
            None \<Rightarrow> Fault
          | Some qm \<Rightarrow>
              let qm = (timed d qm)\<lparr>sent_time := eventtime, receive_time := idle_time sq\<rparr>;
                  sq = (if sent_queue sq = []
                        then pollreactor_update_timer d SQPT_RETRANSMIT (d_add d (idle_time sq) (rto sq)) sq
                        else sq);
                  sq = (if rtt_sample_seq sq = 0 then sq\<lparr>rtt_sample_seq := send_seq sq\<rparr> else sq)
              in Ret buf (sq\<lparr>send_seq := send_seq sq + 1, need_ack_bytes := need_ack_bytes sq + len,
                            sent_queue := sent_queue sq @ [qm]\<rparr>))"

text \<open>\<open>Move messages from the stalled_queue to the ready_queue\<close>, counting their bytes.\<close>

fun unstall :: "u64 \<Rightarrow> 'd command_queue \<Rightarrow> 'd timed_message list \<Rightarrow> int \<Rightarrow> u64
    \<Rightarrow> 'd command_queue \<times> int \<times> u64" where
  "unstall ack_clock cq [] bytes min_stalled = (cq\<lparr>stalled_queue := []\<rparr>, bytes, min_stalled)"
| "unstall ack_clock cq (qm # qms) bytes min_stalled =
     (if ack_clock < min_clock qm
      then (cq\<lparr>stalled_queue := qm # qms\<rparr>, bytes,
            if min_clock qm < min_stalled then min_clock qm else min_stalled)
      else unstall ack_clock (cq\<lparr>ready_queue := ready_queue cq @ [qm]\<rparr>) qms (bytes + qm_len qm) min_stalled)"

text \<open>The loop over the pending queues: \<open>min_stalled_clock\<close> and \<open>min_ready_clock\<close>.\<close>

fun scan_pending ::
    "'d double_ops \<Rightarrow> u64 \<Rightarrow> nat list \<Rightarrow> u64 \<Rightarrow> u64 \<Rightarrow> 'd serialqueue \<Rightarrow> u64 \<times> u64 \<times> 'd serialqueue" where
  "scan_pending d ack_clock [] min_stalled min_ready sq = (min_stalled, min_ready, sq)"
| "scan_pending d ack_clock (q # qs) min_stalled min_ready sq =
     (let (cq, bytes, min_stalled) =
            unstall ack_clock (command_queues sq q) (stalled_queue (command_queues sq q)) 0 min_stalled;
          sq = sq\<lparr>command_queues := (command_queues sq)(q := cq),
                  stalled_bytes := stalled_bytes sq - bytes, ready_bytes := ready_bytes sq + bytes\<rparr>;
          min_ready =
            (case ready_queue cq of
               [] \<Rightarrow> min_ready
             | qm # _ \<Rightarrow>
                 let bgoffset = d_add d (MIN_REQTIME_DELTA d) (MIN_BACKGROUND_DELTA d);
                     req = (if req_clock qm = BACKGROUND_PRIORITY_CLOCK
                            then clock_from_time d (ce sq) (d_add d (idle_time sq) bgoffset)
                            else req_clock qm)
                 in if req < min_ready then req else min_ready)
      in scan_pending d ack_clock qs min_stalled min_ready sq)"

definition must_wait_for_ack :: "'d serialqueue \<Rightarrow> bool" where
  "must_wait_for_ack sq \<longleftrightarrow>
     (send_seq sq - receive_seq sq \<ge> of_nat MAX_PENDING_BLOCKS \<and> receive_seq sq \<noteq> -1) \<or>
     (send_seq sq > receive_seq sq \<and> receive_window sq \<noteq> 0 \<and>
      need_ack_bytes sq + int MESSAGE_MAX +
        (if last_ack_seq sq < receive_seq sq then last_ack_bytes sq else 0) > receive_window sq)"

definition check_send_command ::
    "'d double_ops \<Rightarrow> 'd \<Rightarrow> 'd serialqueue \<Rightarrow> 'd \<times> 'd serialqueue" where
  "check_send_command d eventtime sq =
     (if must_wait_for_ack sq then (PR_NEVER d, sq)
      else let idletime = (if d_less d (idle_time sq) eventtime then eventtime else idle_time sq);
               idletime = d_add d idletime (d_mul d (d_of_int d (int MESSAGE_MIN)) (baud_adjust sq));
               ack_clock = clock_from_time d (ce sq) idletime;
               (min_stalled, min_ready, sq) =
                 scan_pending d ack_clock (pending_queues sq) MAX_CLOCK MAX_CLOCK sq
           in if ready_bytes sq \<ge> int MESSAGE_PAYLOAD_MAX then (PR_NOW d, sq)
              else if \<not> d_true d (est_freq (ce sq)) then
                if ready_bytes sq \<noteq> 0 then (PR_NOW d, sq)
                else (PR_NEVER d, sq\<lparr>need_kick_clock := MAX_CLOCK\<rparr>)
              else let reqclock_delta = of_int (d_to_int d (d_mul d (MIN_REQTIME_DELTA d) (est_freq (ce sq)))) in
                if min_ready \<le> ack_clock + reqclock_delta then (PR_NOW d, sq)
                else let wantclock = min_ready - reqclock_delta;
                         wantclock = (if min_stalled < wantclock then min_stalled else wantclock)
                     in (d_add d idletime (d_div d (d_of_int d (uint (wantclock - ack_clock))) (est_freq (ce sq))),
                         sq\<lparr>need_kick_clock := wantclock\<rparr>))"

text \<open>
  The loop of \<open>command_event\<close>; \<open>buf\<close> holds the blocks not yet written. The fuel bounds the number of
  iterations; a loop that does not end within it is a \<open>Fault\<close>.
\<close>

definition write_blocks :: "u8 list \<Rightarrow> 'd serialqueue \<Rightarrow> 'd serialqueue" where
  "write_blocks buf sq =
     (if buf = [] then sq
      else (do_write buf sq)\<lparr>bytes_write := bytes_write sq + of_nat (length buf)\<rparr>)"

primrec command_loop ::
    "nat \<Rightarrow> 'd double_ops \<Rightarrow> 'd \<Rightarrow> u8 list \<Rightarrow> 'd serialqueue \<Rightarrow> ('d, 'd serialqueue) outcome" where
  "command_loop 0 d eventtime buf sq = Fault"
| "command_loop (Suc fuel) d eventtime buf sq =
     (let (waketime, sq) = check_send_command d eventtime sq in
      if \<not> d_eq d waketime (PR_NOW d) then Ret waketime (write_blocks buf sq)
      else let (buf, sq) = (if length buf + MESSAGE_MAX > MESSAGE_MAX * MAX_PENDING_BLOCKS
                            then ([], write_blocks buf sq) else (buf, sq))
           in andThen (build_and_send_command d eventtime sq)
                (\<lambda>block sq. command_loop fuel d eventtime (buf @ block) sq))"

definition queued_on :: "'d serialqueue \<Rightarrow> nat" where
  "queued_on sq = sum_list (map (\<lambda>q. length (ready_queue (command_queues sq q)) +
     length (stalled_queue (command_queues sq q))) (pending_queues sq))"

definition command_event :: "'d double_ops \<Rightarrow> 'd \<Rightarrow> 'd serialqueue \<Rightarrow> ('d, 'd serialqueue) outcome" where
  "command_event d eventtime sq =
     command_loop (MAX_PENDING_BLOCKS + 1 + queued_on sq) d eventtime [] sq"

text \<open>
  The two timers and the two file descriptors of the background thread. Each event that reads the
  serial device is given with the answer of \<open>read\<close>.
\<close>

definition timer_events ::
    "'d double_ops \<Rightarrow> ('d \<Rightarrow> 'd serialqueue \<Rightarrow> ('d, 'd serialqueue) outcome) list" where
  "timer_events d = [retransmit_event d, command_event d]"

fun background_loop ::
    "'d double_ops \<Rightarrow> (read_result option \<times> bool \<times> 'd) list \<Rightarrow> 'd \<Rightarrow> bool \<Rightarrow> 'd serialqueue
       \<Rightarrow> (unit, 'd serialqueue) outcome" where
  "background_loop d [] eventtime busy sq = Ret () sq"
| "background_loop d ((r, kick, now) # rest) eventtime busy sq =
     andThen (pollreactor_run d (timer_events d)
         [\<lambda>t sq. (case r of Some x \<Rightarrow> input_event d x t sq | None \<Rightarrow> Ret () sq), kick_event d]
         [(Poll [r \<noteq> None, kick], now)] eventtime busy [] sq)
       (\<lambda>_ sq. background_loop d rest now (r \<noteq> None \<or> kick) sq)"

definition background_thread ::
    "'d double_ops \<Rightarrow> (read_result option \<times> bool \<times> 'd) list \<Rightarrow> 'd \<Rightarrow> 'd serialqueue
       \<Rightarrow> (unit, 'd serialqueue) outcome" where
  "background_thread d answers start sq =
     andThen (background_loop d answers start True sq) (\<lambda>_ sq. Ret () (check_wake_receive sq))"

subsection \<open>The interface\<close>

definition empty_queue :: "'d command_queue" where
  "empty_queue = \<lparr>stalled_queue = [], ready_queue = []\<rparr>"

definition serialqueue_alloc ::
    "'d double_ops \<Rightarrow> (nat \<Rightarrow> 'd) \<Rightarrow> serial_type \<Rightarrow> u32 \<Rightarrow> 'd serialqueue" where
  "serialqueue_alloc d clock fd_type client =
     pollreactor.extend (pollreactor_alloc d SQPT_NUM)
       \<lparr>serial_fd_type = fd_type, client_id = client, input_buf = [], sq_need_sync = False,
        receive_waiting = False, receive_window = 0, baud_adjust = d_zero d, idle_time = d_zero d,
        ce = \<lparr>last_clock = 0, conv_clock = 0, conv_time = d_zero d, est_freq = d_zero d\<rparr>,
        last_receive_sent_time = d_zero d, send_seq = 1,
        receive_seq = (if fd_type = SQT_DEBUGFILE then -1 else 1), ignore_nak_seq = 0, last_ack_seq = 0,
        retransmit_seq = 0, rtt_sample_seq = 0, sent_queue = [], srtt = d_zero d, rttvar = d_zero d,
        rto = (if fd_type = SQT_DEBUGFILE then PR_NEVER d else MIN_RTO d),
        command_queues = (\<lambda>_. empty_queue), pending_queues = [], ready_bytes = 0, stalled_bytes = 0,
        need_ack_bytes = 0, last_ack_bytes = 0, need_kick_clock = MAX_CLOCK, notify_queue = [],
        receive_queue = [], fast_readers = [], old_sent = debug_queue_alloc d DEBUG_QUEUE_SENT,
        old_receive = debug_queue_alloc d DEBUG_QUEUE_RECEIVE, bytes_write = 0, bytes_read = 0,
        bytes_retransmit = 0, bytes_invalid = 0, monotonic = clock, monotonic_reads = 0, io = []\<rparr>"

definition serialqueue_exit :: "'d serialqueue \<Rightarrow> 'd serialqueue" where
  "serialqueue_exit sq = kick_bg_thread (pollreactor_do_exit sq)"

text \<open>A fresh command queue is a number that is not in use; a queue in use is not freed.\<close>

definition serialqueue_alloc_commandqueue :: "nat \<Rightarrow> 'd serialqueue \<Rightarrow> 'd serialqueue" where
  "serialqueue_alloc_commandqueue q sq = sq\<lparr>command_queues := (command_queues sq)(q := empty_queue)\<rparr>"

definition serialqueue_free_commandqueue :: "'d command_queue \<Rightarrow> bool" where
  "serialqueue_free_commandqueue cq \<longleftrightarrow> ready_queue cq = [] \<and> stalled_queue cq = []"

definition serialqueue_add_fastreader :: "fastreader \<Rightarrow> 'd serialqueue \<Rightarrow> 'd serialqueue" where
  "serialqueue_add_fastreader fr sq = sq\<lparr>fast_readers := fast_readers sq @ [fr]\<rparr>"

definition serialqueue_rm_fastreader :: "fastreader \<Rightarrow> 'd serialqueue \<Rightarrow> 'd serialqueue" where
  "serialqueue_rm_fastreader fr sq = sq\<lparr>fast_readers := remove1 fr (fast_readers sq)\<rparr>"

definition raise_min_clock :: "'d timed_message \<Rightarrow> 'd timed_message" where
  "raise_min_clock qm =
     (if min_clock qm + push_bit 31 1 < req_clock qm \<and> req_clock qm \<noteq> BACKGROUND_PRIORITY_CLOCK
      then qm\<lparr>min_clock := req_clock qm - push_bit 31 1\<rparr> else qm)"

definition serialqueue_send_batch ::
    "nat \<Rightarrow> 'd timed_message list \<Rightarrow> 'd serialqueue \<Rightarrow> 'd serialqueue" where
  "serialqueue_send_batch q msgs sq =
     (let msgs = map raise_min_clock msgs; len = sum_list (map qm_len msgs) in
      if len = 0 then sq
      else let cq = command_queues sq q;
               sq = (if ready_queue cq = [] \<and> stalled_queue cq = []
                     then sq\<lparr>pending_queues := pending_queues sq @ [q]\<rparr> else sq);
               sq = sq\<lparr>command_queues := (command_queues sq)(q := cq\<lparr>stalled_queue := stalled_queue cq @ msgs\<rparr>),
                       stalled_bytes := stalled_bytes sq + len\<rparr>
           in if min_clock (hd msgs) < need_kick_clock sq
              then kick_bg_thread (sq\<lparr>need_kick_clock := 0\<rparr>) else sq)"

definition serialqueue_send_one :: "nat \<Rightarrow> 'd timed_message \<Rightarrow> 'd serialqueue \<Rightarrow> 'd serialqueue" where
  "serialqueue_send_one q qm sq = serialqueue_send_batch q [qm] sq"

definition serialqueue_send ::
    "'d double_ops \<Rightarrow> nat \<Rightarrow> u8 list \<Rightarrow> u64 \<Rightarrow> u64 \<Rightarrow> u64 \<Rightarrow> 'd serialqueue \<Rightarrow> (unit, 'd serialqueue) outcome" where
  "serialqueue_send d q msg minc reqc notify sq =
     (case message_fill msg of
        None \<Rightarrow> Fault
      | Some qm \<Rightarrow>
          Ret () (serialqueue_send_one q
            ((timed d qm)\<lparr>min_clock := minc, req_clock := reqc, notify_id := notify\<rparr>) sq))"

text \<open>\<open>struct pull_queue_message\<close>\<close>

record 'd pull_queue_message =
  pq_msg :: "u8 list"
  pq_len :: int
  pq_sent_time :: 'd
  pq_receive_time :: 'd
  pq_notify_id :: u64

definition pull_message :: "'d timed_message \<Rightarrow> 'd pull_queue_message" where
  "pull_message qm =
     \<lparr>pq_msg = msg_bytes qm, pq_len = qm_len qm, pq_sent_time = sent_time qm,
      pq_receive_time = receive_time qm, pq_notify_id = notify_id qm\<rparr>"

text \<open>
  \<open>serialqueue_pull\<close> until it returns or waits: \<open>Waits\<close> for the background thread, \<open>Exited\<close> with
  length -1, or \<open>Pulled\<close> with a message.
\<close>

datatype 'd pull_result = Waits | Exited | Pulled "'d pull_queue_message"

definition serialqueue_pull :: "'d serialqueue \<Rightarrow> 'd pull_result \<times> 'd serialqueue" where
  "serialqueue_pull sq =
     (case receive_queue sq of
        [] \<Rightarrow> if pollreactor_is_exit sq then (Exited, sq) else (Waits, sq\<lparr>receive_waiting := True\<rparr>)
      | qm # qms \<Rightarrow>
          let sq = sq\<lparr>receive_queue := qms\<rparr> in
          (Pulled (pull_message qm),
           if qm_len qm \<noteq> 0 then sq\<lparr>old_receive := debug_queue_add qm (old_receive sq)\<rparr> else sq))"

definition serialqueue_set_baud_adjust :: "'d \<Rightarrow> 'd serialqueue \<Rightarrow> 'd serialqueue" where
  "serialqueue_set_baud_adjust b sq = sq\<lparr>baud_adjust := b\<rparr>"

definition serialqueue_set_receive_window :: "int \<Rightarrow> 'd serialqueue \<Rightarrow> 'd serialqueue" where
  "serialqueue_set_receive_window w sq = sq\<lparr>receive_window := w\<rparr>"

definition serialqueue_set_clock_est ::
    "'d \<Rightarrow> 'd \<Rightarrow> u64 \<Rightarrow> u64 \<Rightarrow> 'd serialqueue \<Rightarrow> 'd serialqueue" where
  "serialqueue_set_clock_est freq time clock lastc sq =
     sq\<lparr>ce := \<lparr>last_clock = lastc, conv_clock = clock, conv_time = time, est_freq = freq\<rparr>\<rparr>"

definition serialqueue_get_clock_est :: "'d serialqueue \<Rightarrow> 'd clock_estimate" where
  "serialqueue_get_clock_est sq = ce sq"

text \<open>
  The array \<open>q\<close> of \<open>max\<close> entries is returned with the entries written so far; \<open>notify_id\<close> is not written.
  The debug list is replaced by a fresh one.
\<close>

definition store_old :: "'d pull_queue_message \<Rightarrow> 'd timed_message \<Rightarrow> 'd pull_queue_message" where
  "store_old pqm qm =
     pqm\<lparr>pq_msg := msg_bytes qm, pq_len := qm_len qm, pq_sent_time := sent_time qm,
         pq_receive_time := receive_time qm\<rparr>"

definition serialqueue_extract_old ::
    "'d double_ops \<Rightarrow> bool \<Rightarrow> 'd pull_queue_message list \<Rightarrow> 'd serialqueue
       \<Rightarrow> (nat \<times> 'd pull_queue_message list) \<times> 'd serialqueue" where
  "serialqueue_extract_old d sentq q sq =
     (let current = (if sentq then old_sent sq else old_receive sq);
          found = take (length q) (filter (\<lambda>qm. qm_len qm \<noteq> 0) current)
      in ((length found, map2 store_old q found @ drop (length found) q),
          if sentq then sq\<lparr>old_sent := debug_queue_alloc d DEBUG_QUEUE_SENT\<rparr>
          else sq\<lparr>old_receive := debug_queue_alloc d DEBUG_QUEUE_RECEIVE\<rparr>))"

text \<open>\<open>serialqueue_free\<close> up to the release of the memory.\<close>

definition serialqueue_free :: "'d serialqueue \<Rightarrow> 'd serialqueue" where
  "serialqueue_free sq =
     (let sq = (if pollreactor_is_exit sq then sq else serialqueue_exit sq) in
      sq\<lparr>sent_queue := [], receive_queue := [], notify_queue := [], old_sent := [], old_receive := [],
         command_queues := (\<lambda>q. if q \<in> set (pending_queues sq) then empty_queue else command_queues sq q),
         pending_queues := []\<rparr>)"

section \<open>Sequence numbers\<close>

text \<open>The part of the state that the protocol with the micro-controller is about.\<close>

definition window :: "'d serialqueue \<Rightarrow> u64 \<times> u64 \<times> u8 list list" where
  "window sq = (receive_seq sq, send_seq sq, map msg_bytes (sent_queue sq))"

definition wire_seq :: "u64 \<Rightarrow> u8" where
  "wire_seq n = MESSAGE_DEST OR (ucast n AND MESSAGE_SEQ_MASK)"

lemma ucast_crc_low: "(ucast (crc AND 0xff) :: u8) = ucast (crc :: u16)"
proof -
  have "(0xff :: u16) = mask 8" by (simp add: mask_eq_exp_minus_1)
  then have "crc AND 0xff = take_bit 8 crc" by (simp only: take_bit_eq_mask)
  then show ?thesis by (simp only:) (rule bit_word_eqI, simp add: bit_simps)
qed

lemma seq_mask: "(MESSAGE_SEQ_MASK :: u8) = mask 4" "(ucast (MESSAGE_SEQ_MASK :: u8) :: u64) = mask 4"
  by (simp_all add: message_consts mask_eq_exp_minus_1)

lemma wire_seq_low: "wire_seq n AND MESSAGE_SEQ_MASK = take_bit 4 (ucast n)"
proof (rule bit_word_eqI)
  fix i assume "i < LENGTH(8)"
  have "bit (0x10 :: u8) i \<longleftrightarrow> i = 4" 
    using bit_exp_iff [where ?'a = u8, of 4 i] \<open>i < LENGTH(8)\<close> by (simp add: exp_eq_zero_iff) 
  then show "bit (wire_seq n AND MESSAGE_SEQ_MASK) i = bit (take_bit 4 (ucast n :: u8)) i"
    by (auto simp: wire_seq_def seq_mask(1) bit_simps MESSAGE_DEST_def)
qed

lemma block_rseq_eq:
  "(rs AND NOT (ucast (MESSAGE_SEQ_MASK :: u8))) OR ucast (wire_seq n AND MESSAGE_SEQ_MASK) =
     push_bit 4 (drop_bit 4 rs) + take_bit 4 (n :: u64)"
proof -
  have "push_bit 4 (drop_bit 4 rs) + take_bit 4 n = push_bit 4 (drop_bit 4 rs) OR take_bit 4 n"
    by (rule disjunctive_add) (auto simp: bit_simps)
  moreover have "rs AND NOT (mask 4) = push_bit 4 (drop_bit 4 rs)"
    by (rule bit_word_eqI) (auto simp: bit_simps)
  moreover have "(ucast (take_bit 4 (ucast n :: u8)) :: u64) = take_bit 4 n"
    by (rule bit_word_eqI) (auto simp: bit_simps)
  ultimately show ?thesis by (simp add: wire_seq_low seq_mask(2))
qed

lemma low_bits_step:
  fixes r n :: nat
  assumes "r \<le> n" "n < r + 16"
  defines "x \<equiv> 16 * (r div 16) + n mod 16"
  shows "if x < r then n = x + 16 else n = x"
proof -
  have "r div 16 \<le> n div 16" using assms(1) by (rule div_le_mono)
  moreover have "n div 16 \<le> (r + 16) div 16" using assms(2) by (intro div_le_mono) simp
  ultimately have "n div 16 = r div 16 \<or> n div 16 = r div 16 + 1" by simp linarith
  then have "n = x \<or> n = x + 16"
    using mult_div_mod_eq [of 16 n] unfolding x_def by linarith
  then show ?thesis using assms(1,2) by auto
qed

lemma block_rseq_exact:
  assumes "r \<le> n" "n < r + 16" "n < 2 ^ 64 - 16"
  shows "block_rseq (wire_seq (of_nat n)) (of_nat r) = of_nat n"
proof -
  define x where "x = 16 * (r div 16) + n mod 16"
  have b: "r < 18446744073709551616" "n < 18446744073709551616" using assms by simp_all
  then have "(of_nat r :: u64) div 16 = of_nat (r div 16)" "(of_nat n :: u64) mod 16 = of_nat (n mod 16)"
    by (simp_all add: word_arith_nat_div word_arith_nat_mod unat_of_nat)
  then have eq: "push_bit 4 (drop_bit 4 (of_nat r)) + take_bit 4 (of_nat n) = (of_nat x :: u64)"
    by (simp add: x_def push_bit_eq_mult drop_bit_eq_div take_bit_eq_mod)
  have x: "if x < r then n = x + 16 else n = x" using low_bits_step [OF assms(1,2)] by (simp only: x_def)
  then have xb: "x < 18446744073709551616" using b by (cases "x < r") auto
  have m: "ucast (MESSAGE_SEQ_MASK :: u8) + 1 = (16 :: u64)" by (simp add: message_consts)
  have lt: "(of_nat x :: u64) < of_nat r \<longleftrightarrow> x < r"
    using b xb by (simp add: word_less_nat_alt unat_of_nat)
  have e: "block_rseq (wire_seq (of_nat n)) (of_nat r) =
      (if (of_nat x :: u64) \<noteq> of_nat r \<and> (of_nat x :: u64) < of_nat r then of_nat x + 16 else of_nat x)"
    unfolding block_rseq_def block_rseq_eq eq m Let_def ..
  show ?thesis
  proof (cases "x < r")
    case True
    then have "(of_nat x :: u64) < of_nat r" "(of_nat x :: u64) \<noteq> of_nat r" using lt by auto
    then show ?thesis using x True unfolding e by simp
  next
    case False
    then show ?thesis using lt x unfolding e by simp
  qed
qed

lemma finish_block_frame: "finish_block out n = frame_block (wire_seq n) out"
  by (simp add: finish_block_def frame_block_def wire_seq_def host_crc Let_def message_consts ucast_crc_low
      add.commute)

lemma u64_nat: "n < 2 ^ 64 \<Longrightarrow> unat (of_nat n :: u64) = n"
  by (simp add: unat_of_nat)

lemma u64_eq: "n < 2 ^ 64 \<Longrightarrow> m < 2 ^ 64 \<Longrightarrow> (of_nat n :: u64) = of_nat m \<longleftrightarrow> n = m"
  by (simp add: word_unat_eq_iff unat_of_nat)

text \<open>\<open>handle_message\<close> behind the update of the sequence numbers.\<close>

definition deliver :: "'d double_ops \<Rightarrow> u64 \<Rightarrow> u8 list \<Rightarrow> bool \<Rightarrow> 'd serialqueue \<Rightarrow> (unit, 'd serialqueue) outcome" where
  "deliver d rseq block mw sq =
     andThen (if length block = MESSAGE_MIN then Ret mw (receive_ack d rseq sq)
              else andThen (receive_data d rseq block sq) (\<lambda>_ sq. Ret True sq))
       (\<lambda>must_wake sq.
          let sq' = (if must_wake then check_wake_receive sq else sq) in
          case find_fast_reader block (fast_readers sq) of
            Some fr \<Rightarrow> Ret () (do_io (Call_fast_reader (fr_func fr) block) sq')
          | None \<Rightarrow> Ret () sq')"

lemma handle_message_split:
  fixes d :: "'d double_ops" and sq :: "'d serialqueue" and t :: 'd and block :: "u8 list"
  defines "rseq \<equiv> block_rseq (block ! MESSAGE_POS_SEQ) (receive_seq sq)"
  defines "s1 \<equiv> (if rseq \<noteq> receive_seq sq then update_receive_seq d t rseq sq else sq)"
  shows "rseq \<noteq> receive_seq sq \<and> rseq > send_seq sq \<and> receive_seq sq \<noteq> 1 \<and>
      handle_message d t block sq = Ret () (sq\<lparr>bytes_invalid := bytes_invalid sq + of_nat (length block)\<rparr>)
    \<or> \<not> (rseq \<noteq> receive_seq sq \<and> rseq > send_seq sq \<and> receive_seq sq \<noteq> 1) \<and>
      (\<exists>w mw s3. notify_loop w t (notify_queue s1) False (s1\<lparr>bytes_read := bytes_read s1 + of_nat (length block)\<rparr>) = (mw, s3) \<and>
        handle_message d t block sq = deliver d rseq block mw s3)"
proof (cases "rseq \<noteq> receive_seq sq \<and> rseq > send_seq sq \<and> receive_seq sq \<noteq> 1")
  case True
  then show ?thesis by (simp add: handle_message_def rseq_def [symmetric] Let_def)
next
  case False
  define w where "w = rseq - 1 - (if length block > MESSAGE_MIN then 1 else 0)"
  obtain mw s3 where n: "notify_loop w t (notify_queue s1) False
      (s1\<lparr>bytes_read := bytes_read s1 + of_nat (length block)\<rparr>) = (mw, s3)" by fastforce
  have nq: "notify_queue (s1\<lparr>bytes_read := b\<rparr>) = notify_queue s1" for b by simp
  have "handle_message d t block sq = deliver d rseq block mw s3"
    unfolding handle_message_def Let_def rseq_def [symmetric] s1_def [symmetric] nq w_def [symmetric] n
      prod.case if_not_P [OF False] deliver_def ..
  then show ?thesis using False n by blast
qed

lemma receive_data_returns:
  assumes "length block \<le> MESSAGE_MAX"
  obtains sq' where "receive_data d r block sq = Ret () sq'"
proof -
  obtain qm where "message_fill block = Some qm"
    using assms by (simp add: message_fill_def message_alloc_def Let_def)
  then show ?thesis using that by (simp add: receive_data_def get_monotonic_def Let_def)
qed

lemma deliver_returns:
  assumes "length block \<le> MESSAGE_MAX"
  shows "\<exists>sq'. deliver d r block mw sq = Ret () sq'"
proof -
  obtain s1 where "receive_data d r block sq = Ret () s1" using receive_data_returns [OF assms] .
  then show ?thesis by (auto simp: deliver_def Let_def split: option.split)
qed

definition core :: "'d serialqueue \<Rightarrow> u64 \<times> u64 \<times> 'd timed_message list" where
  "core sq = (receive_seq sq, send_seq sq, sent_queue sq)"

lemma coreI: "receive_seq sq = r \<Longrightarrow> send_seq sq = s \<Longrightarrow> sent_queue sq = q \<Longrightarrow> core sq = (r, s, q)"
  by (simp add: core_def)

lemma core_frame:
  "core (check_wake_receive sq) = core sq"
  "core (do_io x sq) = core sq"
  "core (pollreactor_update_timer d i t sq) = core sq"
  "core (receive_ack d rseq sq) = core sq"
  "core (update_rtt d t sq) = core sq"
  "core (snd (get_monotonic sq)) = core sq"
  by (simp_all add: core_def check_wake_receive_def do_io_def pollreactor_update_timer_def Let_def
      receive_ack_def update_rtt_def get_monotonic_def)

lemma core_notify: "notify_loop w t qms mw sq = (mw', sq') \<Longrightarrow> core sq' = core sq"
  by (induction w t qms mw sq rule: notify_loop.induct) (auto simp: core_def split: if_splits)

lemma core_receive_data: "receive_data d rseq block sq = Ret u sq' \<Longrightarrow> core sq' = core sq"
  by (auto simp: receive_data_def get_monotonic_def core_def Let_def split: option.splits)

lemma deliver_core: "deliver d rseq block mw sq = Ret u sq' \<Longrightarrow> core sq' = core sq"
  by (auto simp: deliver_def Let_def core_frame dest!: core_receive_data split: if_splits option.splits)

lemma ack_sent_core:
  assumes "0 < k" "k \<le> length qms" "k < 2 ^ 64"
  shows "core (ack_sent d (n + of_nat k) n qms sq) = (receive_seq sq, send_seq sq, drop k qms)"
  using assms
proof (induction qms arbitrary: k n sq)
  case (Cons qm qms)
  show ?case
  proof (cases "k = 1")
    case True
    then show ?thesis by (simp add: Let_def core_def)
  next
    case False
    define j where "j = k - 1"
    have k: "k = Suc j" "0 < j" "j \<le> length qms" "j < 2 ^ 64" using False Cons.prems by (auto simp: j_def)
    have "(of_nat j :: u64) \<noteq> 0" using k(2,4) by (simp add: word_of_nat_eq_0_iff nat_dvd_not_less)
    then have "n + of_nat k \<noteq> n + 1" by (simp add: k(1))
    moreover have "n + of_nat k = (n + 1) + of_nat j" by (simp add: k(1))
    ultimately show ?thesis using Cons.IH [OF k(2-4), of "n + 1"] by (simp add: Let_def k(1) add.assoc)
  qed
qed simp

lemma update_receive_seq_core:
  assumes "0 < k" "k \<le> length (sent_queue sq)" "k < 2 ^ 64"
  shows "core (update_receive_seq d t (receive_seq sq + of_nat k) sq) =
    (receive_seq sq + of_nat k, send_seq sq, drop k (sent_queue sq))"
proof -
  define s1 where "s1 = ack_sent d (receive_seq sq + of_nat k) (receive_seq sq) (sent_queue sq) sq"
  have c: "core (s1\<lparr>receive_seq := receive_seq sq + of_nat k\<rparr>) =
      (receive_seq sq + of_nat k, send_seq sq, drop k (sent_queue sq))"
    using ack_sent_core [OF assms, of d "receive_seq sq" sq] by (simp add: s1_def core_def)
  show ?thesis
    unfolding update_receive_seq_def s1_def [symmetric] Let_def
    by (split list.split) (simp add: core_frame c)
qed

text \<open>A block with the sequence number \<open>n\<close> acknowledges all blocks before \<open>n\<close>.\<close>

lemma handle_message_core:
  assumes "core sq = (of_nat r, of_nat s, q)" "length q = s - r" "r \<le> n" "n \<le> s" "s < r + 16"
    and "s < 2 ^ 64 - 16" "block ! MESSAGE_POS_SEQ = wire_seq (of_nat n)"
    and "handle_message d t block sq = Ret u sq'"
  shows "core sq' = (of_nat n, of_nat s, drop (n - r) q)"
proof -
  note c = assms(1) [unfolded core_def, simplified]
  have rseq: "block_rseq (block ! MESSAGE_POS_SEQ) (receive_seq sq) = of_nat n"
    using block_rseq_exact [of r n] assms c by simp
  have ns: "\<not> (of_nat s :: u64) < of_nat n"
    using assms(4,6) by (simp add: word_less_nat_alt unat_of_nat)
  define s1 where "s1 = (if of_nat n \<noteq> receive_seq sq then update_receive_seq d t (of_nat n) sq else sq)"
  have s1: "core s1 = (of_nat n, of_nat s, drop (n - r) q)"
  proof (cases "n = r")
    case True
    then show ?thesis using c by (simp add: s1_def core_def)
  next
    case False
    have b: "n < 2 ^ 64" "r < 2 ^ 64" using assms(3-6) by simp_all
    then have "(of_nat n :: u64) \<noteq> of_nat r" using False u64_eq by blast
    moreover have "(of_nat n :: u64) = of_nat r + of_nat (n - r)" using assms(3) by (simp flip: of_nat_add)
    moreover have "0 < n - r" "n - r \<le> length q" "n - r < 2 ^ 64" using False assms(2-4) b by auto
    ultimately have "core (update_receive_seq d t (of_nat n) sq) = (of_nat n, of_nat s, drop (n - r) q)"
      using update_receive_seq_core [of "n - r" sq d t] c by metis
    then show ?thesis using \<open>of_nat n \<noteq> of_nat r\<close> c(1) by (simp only: s1_def if_True not_False_eq_True)
  qed
  have nr: "\<not> (of_nat n \<noteq> receive_seq sq \<and> of_nat n > send_seq sq \<and> receive_seq sq \<noteq> 1)"
    using ns c by simp
  obtain w mw s3 where s3: "notify_loop w t (notify_queue s1) False
      (s1\<lparr>bytes_read := bytes_read s1 + of_nat (length block)\<rparr>) = (mw, s3)"
    "handle_message d t block sq = deliver d (of_nat n) block mw s3"
    using handle_message_split [of block sq d t] nr unfolding rseq s1_def by blast
  have "core (s1\<lparr>bytes_read := b\<rparr>) = core s1" for b by (simp add: core_def)
  then have "core s3 = (of_nat n, of_nat s, drop (n - r) q)" using core_notify [OF s3(1)] s1 by simp
  then show ?thesis using assms(8) deliver_core unfolding s3(2) by metis
qed

text \<open>A block of a legal length never overruns \<open>qm->msg\<close>.\<close>

lemma handle_message_returns:
  assumes "length block \<le> MESSAGE_MAX"
  shows "\<exists>sq'. handle_message d t block sq = Ret () sq'"
  using handle_message_split [of block sq d t] deliver_returns [OF assms] by metis

lemma msg_bytes_fill:
  assumes "message_fill buf = Some qm"
  shows "msg_bytes qm = buf" "qm_len qm = int (length buf)" "length (qm_msg qm) = MESSAGE_MAX" "length buf \<le> MESSAGE_MAX"
  using assms by (auto simp: message_fill_def message_alloc_def msg_bytes_def Let_def split: if_splits)

lemma fill_block_core: "fill_block out sq = Ret out' sq' \<Longrightarrow> core sq' = core sq"
proof (induction out sq rule: fill_block.induct)
  case (1 out sq)
  have t: "core (take_ready cq qm sq) = core sq" for cq qm
    by (simp add: take_ready_def core_def Let_def)
  from 1 show ?case
    by (subst (asm) (2) fill_block.simps) (auto simp: t split: if_splits option.splits)
qed

lemma fill_block_length:
  "fill_block out sq = Ret out' sq' \<Longrightarrow> length out \<le> MESSAGE_PAYLOAD_MAX \<Longrightarrow> length out' \<le> MESSAGE_PAYLOAD_MAX"
proof (induction out sq rule: fill_block.induct)
  case (1 out sq)
  show ?case
  proof (cases "ready_bytes sq = 0")
    case True
    then show ?thesis using "1.prems" by (simp add: fill_block.simps [of out sq])
  next
    case rb: False
    show ?thesis
    proof (cases "highest (command_queues sq) (pending_queues sq) MAX_CLOCK None")
      case None
      then show ?thesis using "1.prems"(1) rb by (simp add: fill_block.simps [of out sq])
    next
      case (Some p)
      obtain cq qm where p: "p = (cq, qm)" by fastforce
      show ?thesis
      proof (cases "int (MESSAGE_HEADER_SIZE + length out) + qm_len qm > int (MESSAGE_MAX - MESSAGE_TRAILER_SIZE)")
        case True
        then show ?thesis using "1.prems" rb Some p by (simp add: fill_block.simps [of out sq])
      next
        case False
        then have "length (out @ msg_bytes qm) \<le> MESSAGE_PAYLOAD_MAX"
          using "1.prems"(2) by (simp add: msg_bytes_def message_consts min_def) linarith
        moreover have "fill_block (out @ msg_bytes qm) (take_ready cq qm sq) = Ret out' sq'"
          using "1.prems"(1) rb Some p False by (simp add: fill_block.simps [of out sq])
        ultimately show ?thesis using "1.IH" [OF rb Some p [symmetric] False] by blast
      qed
    qed
  qed
qed

lemma build_and_send_core:
  assumes "build_and_send_command d t sq = Ret block sq'"
  shows "\<exists>payload qm. length payload \<le> MESSAGE_PAYLOAD_MAX \<and> block = frame_block (wire_seq (send_seq sq)) payload \<and>
    msg_bytes qm = block \<and> qm_len qm = int (length block) \<and>
    core sq' = (receive_seq sq, send_seq sq + 1, sent_queue sq @ [qm])"
proof -
  obtain out s1 where f: "fill_block [] sq = Ret out s1"
    using assms by (auto simp: build_and_send_command_def)
  have c: "receive_seq s1 = receive_seq sq" "send_seq s1 = send_seq sq" "sent_queue s1 = sent_queue sq"
    using fill_block_core [OF f] by (simp_all add: core_def)
  have l: "length out \<le> MESSAGE_PAYLOAD_MAX" using fill_block_length [OF f] by simp
  obtain qm where m: "message_fill (finish_block out (send_seq sq)) = Some qm"
    using assms by (auto simp: build_and_send_command_def f Let_def c split: option.splits)
  note mb = msg_bytes_fill [OF m]
  have td: "msg_bytes ((timed d qm)\<lparr>sent_time := x, receive_time := y\<rparr>) = msg_bytes qm"
    "qm_len ((timed d qm)\<lparr>sent_time := x, receive_time := y\<rparr>) = qm_len qm" for x y
    by (simp_all add: timed_def queue_message.extend_def msg_bytes_def)
  have "block = finish_block out (send_seq sq)"
    using assms m by (simp add: build_and_send_command_def f Let_def c)
  moreover have "core sq' = (receive_seq sq, send_seq sq + 1,
      sent_queue sq @ [(timed d qm)\<lparr>sent_time := t, receive_time := idle_time sq'\<rparr>])"
    using assms m by (auto simp: build_and_send_command_def f Let_def c core_def pollreactor_update_timer_def
        split: if_splits)
  ultimately show ?thesis using l mb(1,2) td finish_block_frame by metis
qed

lemma retransmit_event_core:
  assumes "retransmit_event d t sq = Ret w sq'"
  shows "core sq' = core sq"
  using assms by (auto simp: retransmit_event_def Let_def core_def do_write_def do_io_def split: if_splits)

lemma do_write_core: "core (do_write buf sq) = core sq" "core (write_blocks buf sq) = core sq"
  by (simp_all add: write_blocks_def do_write_def do_io_def core_def)

lemma scan_pending_core: "scan_pending d a qs ms mr sq = (ms', mr', sq') \<Longrightarrow> core sq' = core sq"
proof (induction d a qs ms mr sq rule: scan_pending.induct)
  case (2 d a q qs ms mr sq)
  obtain cq bytes ms1 where u: "unstall a (command_queues sq q) (stalled_queue (command_queues sq q)) 0 ms = (cq, bytes, ms1)"
    by (metis prod_cases3)
  have "core (sq\<lparr>command_queues := c, stalled_bytes := x, ready_bytes := y\<rparr>) = core sq" for c x y
    by (simp add: core_def)
  with 2 show ?case by (auto simp: u Let_def)
qed simp

lemma check_send_core: "core (snd (check_send_command d t sq)) = core sq"
proof -
  have "core (snd (snd (scan_pending d a (pending_queues sq) m1 m2 sq))) = core sq" for a m1 m2
    using scan_pending_core by (metis prod.collapse)
  moreover have "core (s\<lparr>need_kick_clock := k\<rparr>) = core s" for s :: "'a serialqueue" and k by (simp add: core_def)
  ultimately show ?thesis by (simp add: check_send_command_def Let_def split_beta)
qed

end
