(* ===== verification/Serial_Link.thy ===== *)
theory Serial_Link
  imports Serial_Queue
begin

text \<open>
  The serial line between the host's \<open>serialqueue.c\<close> and the micro-controller's \<open>command_find_block\<close>:
  two channels that keep the order of the blocks but may lose any of them, the host's window of
  blocks in flight with its retransmission, and the acknowledgements. Blocks that are damaged on the
  way count as lost; that the checksum catches the damage is what this rests on.
\<close>

section \<open>What the host sends\<close>

fun blocks_from :: "u64 \<Rightarrow> u8 list list \<Rightarrow> u8 list list" where
  "blocks_from n [] = []"
| "blocks_from n (p # ps) = frame_block (wire_seq n) p # blocks_from (n + 1) ps"

lemma length_blocks_from [simp]: "length (blocks_from n ps) = length ps"
  by (induction n ps rule: blocks_from.induct) auto

lemma nth_blocks_from: "i < length ps \<Longrightarrow> blocks_from n ps ! i = frame_block (wire_seq (n + of_nat i)) (ps ! i)"
  by (induction n ps arbitrary: i rule: blocks_from.induct) (auto simp: nth_Cons' add.assoc)

lemma blocks_from_append: "blocks_from n (ps @ qs) = blocks_from n ps @ blocks_from (n + of_nat (length ps)) qs"
  by (induction n ps rule: blocks_from.induct) (auto simp: add.assoc)

text \<open>What is needed of the arithmetic: \<open>PR_NEVER\<close> and \<open>PR_NOW\<close> are different numbers.\<close>

definition never_is_not_now :: "'d double_ops \<Rightarrow> bool" where
  "never_is_not_now d \<longleftrightarrow> \<not> d_eq d (PR_NEVER d) (PR_NOW d)"

lemma check_send_not_waiting:
  assumes "never_is_not_now d" "check_send_command d t sq = (w, sq')" "d_eq d w (PR_NOW d)"
  shows "\<not> must_wait_for_ack sq"
  using assms by (auto simp: check_send_command_def never_is_not_now_def)

lemma command_loop_core:
  assumes "never_is_not_now d" "command_loop fuel d t buf sq = Ret w sq'"
    and "core sq = (r, r + of_nat (length q), q)" "r \<noteq> - 1" "length q \<le> MAX_PENDING_BLOCKS"
  shows "\<exists>ps qs. core sq' = (r, r + of_nat (length (q @ qs)), q @ qs) \<and> list_all (\<lambda>p. length p \<le> MESSAGE_PAYLOAD_MAX) ps \<and>
    map msg_bytes qs = blocks_from (r + of_nat (length q)) ps \<and> length (q @ qs) \<le> MAX_PENDING_BLOCKS"
  using assms(2,3,5)
proof (induction fuel arbitrary: buf sq q)
  case (Suc fuel)
  obtain w1 s1 where c: "check_send_command d t sq = (w1, s1)" by fastforce
  then have s1: "core s1 = core sq" using check_send_core [of d t sq] by simp
  show ?case
  proof (cases "d_eq d w1 (PR_NOW d)")
    case False
    then have "core sq' = core sq" using Suc.prems(1) c s1 by (auto simp: do_write_core)
    then show ?thesis using Suc.prems by (intro exI [of _ "[]"]) simp
  next
    case True
    have "\<not> must_wait_for_ack sq" using check_send_not_waiting [OF assms(1) c True] .
    then have "(of_nat (length q) :: u64) < 12"
      using Suc.prems(2) assms(4) by (auto simp: must_wait_for_ack_def core_def MAX_PENDING_BLOCKS_def not_le)
    then have l: "length q < MAX_PENDING_BLOCKS"
      using Suc.prems(3) by (auto simp: MAX_PENDING_BLOCKS_def word_less_nat_alt unat_of_nat)
    obtain buf2 s2 where b: "(if length buf + MESSAGE_MAX > MESSAGE_MAX * MAX_PENDING_BLOCKS
        then ([], write_blocks buf s1) else (buf, s1)) = (buf2, s2)" by fastforce
    then have s2: "core s2 = core sq" using s1 by (auto simp: do_write_core split: if_splits)
    obtain block s3 where bs: "build_and_send_command d t s2 = Ret block s3"
      "command_loop fuel d t (buf2 @ block) s3 = Ret w sq'"
      using Suc.prems(1) c True b by (auto simp: Let_def split: prod.splits)
    obtain p qm where p: "length p \<le> MESSAGE_PAYLOAD_MAX" "block = frame_block (wire_seq (send_seq s2)) p"
      "msg_bytes qm = block" "core s3 = (receive_seq s2, send_seq s2 + 1, sent_queue s2 @ [qm])"
      using build_and_send_core [OF bs(1)] by blast
    have c3: "core s3 = (r, r + of_nat (length (q @ [qm])), q @ [qm])"
      using p(4) s2 Suc.prems(2) by (simp add: core_def add.commute add.left_commute)
    from Suc.IH [OF bs(2) c3] l obtain ps qs where i: "core sq' = (r, r + of_nat (length ((q @ [qm]) @ qs)), (q @ [qm]) @ qs)"
      "list_all (\<lambda>p. length p \<le> MESSAGE_PAYLOAD_MAX) ps" "map msg_bytes qs = blocks_from (r + of_nat (length (q @ [qm]))) ps"
      "length ((q @ [qm]) @ qs) \<le> MAX_PENDING_BLOCKS" by auto
    show ?thesis
    proof (intro exI conjI)
      show "core sq' = (r, r + of_nat (length (q @ qm # qs)), q @ qm # qs)" using i(1) by simp
      show "list_all (\<lambda>p. length p \<le> MESSAGE_PAYLOAD_MAX) (p # ps)" using i(2) p(1) by simp
      show "map msg_bytes (qm # qs) = blocks_from (r + of_nat (length q)) (p # ps)"
        using i(3) p(2,3) s2 Suc.prems(2) by (simp add: core_def add.commute add.left_commute)
      show "length (q @ qm # qs) \<le> MAX_PENDING_BLOCKS" using i(4) by simp
    qed
  qed
qed simp

section \<open>Sequence numbers on the wire\<close>

lemma wire_seq_dest: "wire_seq n AND NOT MESSAGE_SEQ_MASK = MESSAGE_DEST"
proof (rule bit_word_eqI)
  fix i assume i: "i < LENGTH(8)"
  have "bit (MESSAGE_DEST :: u8) i \<longleftrightarrow> i = 4"
    using bit_exp_iff [where ?'a = u8, of 4 i] i by (simp add: exp_eq_zero_iff MESSAGE_DEST_def)
  then show "bit (wire_seq n AND NOT MESSAGE_SEQ_MASK) i = bit (MESSAGE_DEST :: u8) i"
    using i by (auto simp: wire_seq_def seq_mask(1) bit_simps)
qed

lemma ucast_nat_u8: "(ucast (of_nat m :: u64) :: u8) = of_nat m"
  by (rule bit_word_eqI) (simp add: bit_simps)

lemma wire_seq_nat: "unat (wire_seq (of_nat n)) = 16 + n mod 16"
proof -
  have "wire_seq (of_nat n) = MESSAGE_DEST + take_bit 4 (ucast (of_nat n :: u64))"
  proof -
    have "bit (MESSAGE_DEST :: u8) i \<longleftrightarrow> i = 4" if "i < LENGTH(8)" for i
      using bit_exp_iff [where ?'a = u8, of 4 i] that by (simp add: exp_eq_zero_iff MESSAGE_DEST_def)
    then have "MESSAGE_DEST + take_bit 4 (ucast (of_nat n :: u64)) = MESSAGE_DEST OR (take_bit 4 (ucast (of_nat n :: u64)) :: u8)"
      by (intro disjunctive_add) (auto simp: bit_simps dest: bit_imp_le_length)
    then show ?thesis by (simp add: wire_seq_def seq_mask(1) take_bit_eq_mask)
  qed
  moreover note ucast_nat_u8 [of n]
  moreover have "take_bit 4 (of_nat n :: u8) = of_nat (n mod 16)"
  proof -
    have "take_bit 4 (of_nat n :: u8) = of_nat (take_bit 4 n)" by (rule take_bit_of_nat)
    moreover have "take_bit 4 n = n mod 16" by (simp add: take_bit_eq_mod)
    ultimately show ?thesis by (simp only:)
  qed
  moreover have "MESSAGE_DEST + of_nat (n mod 16) = (of_nat (16 + n mod 16) :: u8)"
    by (simp add: MESSAGE_DEST_def)
  ultimately have w: "wire_seq (of_nat n) = of_nat (16 + n mod 16)" by simp
  have "16 + n mod 16 < 2 ^ LENGTH(8)" using mod_less_divisor [of 16 n] by simp
  then have "take_bit LENGTH(8) (16 + n mod 16) = 16 + n mod 16" by (rule take_bit_nat_eq_self)
  then show ?thesis unfolding w unsigned_of_nat by (simp only: of_nat_id)
qed

lemma low_bits_nat: "(of_nat n :: u8) AND MESSAGE_SEQ_MASK = of_nat (n mod 16)"
proof -
  have "take_bit 4 (of_nat n :: u8) = of_nat (take_bit 4 n)" by (rule take_bit_of_nat)
  moreover have "take_bit 4 n = n mod 16" by (simp add: take_bit_eq_mod)
  ultimately show ?thesis by (simp only: seq_mask(1) take_bit_eq_mask)
qed

lemma wire_seq_eq_iff: "wire_seq (of_nat n) = wire_seq (of_nat m) \<longleftrightarrow> n mod 16 = m mod 16"
  by (simp add: word_unat_eq_iff wire_seq_nat)

lemma wire_seq_close:
  assumes "wire_seq (of_nat n) = wire_seq (of_nat m)" "n < m + 16" "m < n + 16"
  shows "n = m"
proof -
  have m: "n mod 16 = m mod 16" using assms(1) unfolding wire_seq_eq_iff .
  show ?thesis
  proof (cases "m \<le> n")
    case True
    then have "16 dvd (n - m)" using m by (simp add: mod_eq_dvd_iff_nat)
    then show ?thesis using True assms(2) nat_dvd_not_less [of "n - m" 16] by fastforce
  next
    case False
    then have "16 dvd (m - n)" using m by (simp add: mod_eq_dvd_iff_nat [symmetric])
    then show ?thesis using False assms(3) nat_dvd_not_less [of "m - n" 16] by fastforce
  qed
qed

lemma next_wire_seq: "next_seq (wire_seq (of_nat n)) = wire_seq (of_nat (n + 1))"
proof -
  note u = ucast_nat_u8 [of "n + 1"]
  have "wire_seq (of_nat n) = of_nat (unat (wire_seq (of_nat n)))" by simp
  then have "wire_seq (of_nat n) + 1 = of_nat (16 + n mod 16 + 1)" unfolding wire_seq_nat by simp
  then have "(wire_seq (of_nat n) + 1) AND MESSAGE_SEQ_MASK = of_nat ((16 + n mod 16 + 1) mod 16)"
    by (simp only: low_bits_nat)
  moreover have "(16 + n mod 16 + 1) mod 16 = (n + 1) mod 16"
    using mod_add_left_eq [of n 16 1] mod_add_self1 [of 16 "n mod 16 + 1"] by (simp only: add.assoc)
  ultimately have "(wire_seq (of_nat n) + 1) AND MESSAGE_SEQ_MASK = ucast (of_nat (n + 1) :: u64) AND MESSAGE_SEQ_MASK"
    unfolding u low_bits_nat by (simp only:)
  then show ?thesis unfolding next_seq_def wire_seq_def by (simp only: or.commute)
qed

section \<open>The line\<close>

record 'd line =
  host :: "'d serialqueue"
  device :: comm
  down :: "u8 list list"
  up :: "u8 list list"
  built :: "u8 list list"       \<comment> \<open>the contents of the blocks the host built\<close>
  accepted :: "u8 list list"    \<comment> \<open>the contents of the blocks the micro-controller dispatched\<close>

definition block_payload :: "u8 list \<Rightarrow> u8 list" where
  "block_payload b = drop MESSAGE_HEADER_SIZE (take (length b - MESSAGE_TRAILER_SIZE) b)"

lemma block_payload_frame [simp]: "block_payload (frame_block sq p) = p"
  by (simp add: block_payload_def frame_block_def Let_def message_consts)

lemma block_payload_blocks [simp]: "map block_payload (blocks_from n ps) = ps"
  by (induction n ps rule: blocks_from.induct) auto

text \<open>
  A block at the micro-controller is dispatched, with responses and an acknowledgement, or answered by
  a nak. A block at the host is given to \<open>handle_message\<close>.
\<close>

inductive device_step :: "'d line \<Rightarrow> 'd line \<Rightarrow> bool" where
  dispatch:
    "down l = b # bs \<Longrightarrow> command_find_block b (device l) = (1, n, c) \<Longrightarrow>
     list_all (\<lambda>p. length p \<le> MESSAGE_PAYLOAD_MAX) ps \<Longrightarrow>
     device_step l (l\<lparr>device := c, down := bs, accepted := accepted l @ [block_payload b],
                      up := up l @ map (frame_block (next_sequence c)) (ps @ [[]])\<rparr>)"
| refuse:
    "down l = b # bs \<Longrightarrow> command_find_block b (device l) = (-1, n, c) \<Longrightarrow>
     device_step l (l\<lparr>device := c, down := bs, up := up l @ [frame_block (next_sequence c) []]\<rparr>)"

inductive receive_step :: "'d double_ops \<Rightarrow> 'd line \<Rightarrow> 'd line \<Rightarrow> bool" for d where
  get:
    "up l = b # bs \<Longrightarrow> handle_message d t b (host l) = Ret () sq \<Longrightarrow>
     receive_step d l (l\<lparr>host := sq, up := bs\<rparr>)"


text \<open>
  One step of the whole: the host sends, retransmits, gets a block or runs an operation that only touches
  its queues, the micro-controller handles a block or sends a response of its own, a block is lost.
\<close>

inductive line_step :: "'d double_ops \<Rightarrow> 'd line \<Rightarrow> 'd line \<Rightarrow> bool" for d where
  send:
    "command_event d t (host l) = Ret w sq \<Longrightarrow>
     new = map msg_bytes (drop (length (sent_queue (host l))) (sent_queue sq)) \<Longrightarrow>
     line_step d l (l\<lparr>host := sq, down := down l @ new, built := built l @ map block_payload new\<rparr>)"
| resend:
    "retransmit_event d t (host l) = Ret w sq \<Longrightarrow>
     line_step d l (l\<lparr>host := sq, down := down l @ map msg_bytes (sent_queue (host l))\<rparr>)"
| receive: "receive_step d l l' \<Longrightarrow> line_step d l l'"
| enqueue: "core sq = core (host l) \<Longrightarrow> line_step d l (l\<lparr>host := sq\<rparr>)"
| work: "device_step l l' \<Longrightarrow> line_step d l l'"
| respond:
    "length p \<le> MESSAGE_PAYLOAD_MAX \<Longrightarrow>
     line_step d l (l\<lparr>up := up l @ [frame_block (next_sequence (device l)) p]\<rparr>)"
| lose_down: "down l = xs @ b # ys \<Longrightarrow> line_step d l (l\<lparr>down := xs @ ys\<rparr>)"
| lose_up: "up l = xs @ b # ys \<Longrightarrow> line_step d l (l\<lparr>up := xs @ ys\<rparr>)"

text \<open>The line once the connection is established, with \<open>n\<close> the next sequence number on both ends.\<close>

definition line_start :: "nat \<Rightarrow> 'd line \<Rightarrow> bool" where
  "line_start n l \<longleftrightarrow> 1 < n \<and> core (host l) = (of_nat n, of_nat n, []) \<and>
     next_sequence (device l) = wire_seq (of_nat n) \<and> \<not> need_sync (device l) \<and>
     down l = [] \<and> up l = [] \<and> built l = [] \<and> accepted l = []"

section \<open>The invariant\<close>

text \<open>
  A block in flight is described by its number and the number of the block that was to be built next
  when it was written; a response by the number the micro-controller expected when it was written.
\<close>

definition flight :: "nat \<Rightarrow> nat \<Rightarrow> nat \<Rightarrow> (nat \<times> nat) list \<Rightarrow> bool" where
  "flight n0 N S fl \<longleftrightarrow> sorted (map snd fl) \<and>
     (\<forall>x \<in> set fl. n0 \<le> fst x \<and> fst x < snd x \<and> snd x \<le> fst x + 12 \<and> N \<le> snd x \<and> snd x \<le> S)"

definition answers :: "nat \<Rightarrow> nat \<Rightarrow> (nat \<times> u8 list) list \<Rightarrow> bool" where
  "answers R N us \<longleftrightarrow> sorted (map fst us) \<and>
     (\<forall>x \<in> set us. R \<le> fst x \<and> fst x \<le> N \<and> length (snd x) \<le> MESSAGE_PAYLOAD_MAX)"

definition numbered :: "nat \<Rightarrow> u8 list list \<Rightarrow> nat \<Rightarrow> u8 list" where
  "numbered n0 bs i = frame_block (wire_seq (of_nat i)) (bs ! (i - n0))"

definition line_inv :: "nat \<Rightarrow> nat \<Rightarrow> nat \<Rightarrow> 'd line \<Rightarrow> bool" where
  "line_inv n0 R N l \<longleftrightarrow>
     (let S = n0 + length (built l) in
      1 < n0 \<and> n0 \<le> R \<and> R \<le> N \<and> N \<le> S \<and> S \<le> R + 12 \<and>
      list_all (\<lambda>p. length p \<le> MESSAGE_PAYLOAD_MAX) (built l) \<and>
      (\<exists>q. core (host l) = (of_nat R, of_nat S, q) \<and>
           map msg_bytes q = blocks_from (of_nat R) (drop (R - n0) (built l))) \<and>
      next_sequence (device l) = wire_seq (of_nat N) \<and> \<not> need_sync (device l) \<and>
      accepted l = take (N - n0) (built l) \<and>
      (\<exists>fl. down l = map (\<lambda>x. numbered n0 (built l) (fst x)) fl \<and> flight n0 N S fl) \<and>
      (\<exists>us. up l = map (\<lambda>x. frame_block (wire_seq (of_nat (fst x))) (snd x)) us \<and> answers R N us))"

lemma line_start_inv: "line_start n l \<Longrightarrow> line_inv n n n l"
  by (simp add: line_start_def line_inv_def flight_def answers_def)

lemma line_invE:
  assumes "line_inv n0 R N l"
  obtains S q fl us where "S = n0 + length (built l)" "1 < n0" "n0 \<le> R" "R \<le> N" "N \<le> S" "S \<le> R + 12"
    "list_all (\<lambda>p. length p \<le> MESSAGE_PAYLOAD_MAX) (built l)"
    "core (host l) = (of_nat R, of_nat S, q)" "map msg_bytes q = blocks_from (of_nat R) (drop (R - n0) (built l))"
    "length q = S - R"
    "next_sequence (device l) = wire_seq (of_nat N)" "\<not> need_sync (device l)" "accepted l = take (N - n0) (built l)"
    "down l = map (\<lambda>x. numbered n0 (built l) (fst x)) fl" "flight n0 N S fl"
    "up l = map (\<lambda>x. frame_block (wire_seq (of_nat (fst x))) (snd x)) us" "answers R N us"
proof -
  obtain q fl us where q: "core (host l) = (of_nat R, of_nat (n0 + length (built l)), q)"
    "map msg_bytes q = blocks_from (of_nat R) (drop (R - n0) (built l))"
    "down l = map (\<lambda>x. numbered n0 (built l) (fst x)) fl" "flight n0 N (n0 + length (built l)) fl"
    "up l = map (\<lambda>x. frame_block (wire_seq (of_nat (fst x))) (snd x)) us" "answers R N us"
    using assms by (auto simp: line_inv_def Let_def)
  have "length q = length (drop (R - n0) (built l))" using arg_cong [OF q(2), of length] by simp
  then have "length q = n0 + length (built l) - R" using assms by (auto simp: line_inv_def Let_def)
  then show ?thesis using that [OF refl _ _ _ _ _ _ q(1,2)] q assms by (auto simp: line_inv_def Let_def)
qed

lemma line_invI:
  assumes "S = n0 + length (built l)" "1 < n0" "n0 \<le> R" "R \<le> N" "N \<le> S" "S \<le> R + 12"
    "list_all (\<lambda>p. length p \<le> MESSAGE_PAYLOAD_MAX) (built l)"
    "core (host l) = (of_nat R, of_nat S, q)" "map msg_bytes q = blocks_from (of_nat R) (drop (R - n0) (built l))"
    "next_sequence (device l) = wire_seq (of_nat N)" "\<not> need_sync (device l)" "accepted l = take (N - n0) (built l)"
    "down l = map (\<lambda>x. numbered n0 (built l) (fst x)) fl" "flight n0 N S fl"
    "up l = map (\<lambda>x. frame_block (wire_seq (of_nat (fst x))) (snd x)) us" "answers R N us"
  shows "line_inv n0 R N l"
  unfolding line_inv_def Let_def using assms by blast

lemma flight_later: "flight n0 N S fl \<Longrightarrow> S \<le> S' \<Longrightarrow> flight n0 N S' fl"
  by (auto simp: flight_def)

lemma flight_add:
  assumes "flight n0 N S fl" "S \<le> S'" "N \<le> S'" "\<And>i. i \<in> set is \<Longrightarrow> n0 \<le> i \<and> i < S' \<and> S' \<le> i + 12"
  shows "flight n0 N S' (fl @ map (\<lambda>i. (i, S')) is)"
proof -
  have "sorted (map snd (map (\<lambda>i. (i, S')) is))" by (induction "is") auto
  then show ?thesis using assms by (fastforce simp: flight_def sorted_append)
qed

lemma flight_sublist:
  assumes "flight n0 N S (xs @ x # ys)"
  shows "flight n0 N S (xs @ ys)"
  using assms by (auto simp: flight_def sorted_append)

lemma flight_next:
  assumes "flight n0 N S ((N, s) # fl)"
  shows "flight n0 (N + 1) S fl"
  using assms by (fastforce simp: flight_def)

lemma answers_add:
  assumes "answers R N us" "R \<le> N" "N \<le> N'" "list_all (\<lambda>p. length p \<le> MESSAGE_PAYLOAD_MAX) ps"
  shows "answers R N' (us @ map (Pair N') ps)"
proof -
  have "sorted (map fst (map (Pair N') ps))" by (induction ps) auto
  then show ?thesis using assms by (fastforce simp: answers_def sorted_append list_all_iff)
qed

lemma answers_sublist: "answers R N (xs @ x # ys) \<Longrightarrow> answers R N (xs @ ys)"
  by (auto simp: answers_def sorted_append)

lemma numbered_append: "i - n0 < length bs \<Longrightarrow> numbered n0 (bs @ ps) i = numbered n0 bs i"
  by (simp add: numbered_def nth_append)

lemma blocks_numbered:
  assumes "n0 \<le> m" "m - n0 \<le> length bs"
  shows "blocks_from (of_nat m) (drop (m - n0) bs) = map (numbered n0 bs) [m..<n0 + length bs]"
proof (rule nth_equalityI)
  fix i assume i: "i < length (blocks_from (of_nat m) (drop (m - n0) bs))"
  then have "m + i - n0 = m - n0 + i" using assms(1) by simp
  then show "blocks_from (of_nat m) (drop (m - n0) bs) ! i = map (numbered n0 bs) [m..<n0 + length bs] ! i"
    using i assms by (simp add: nth_blocks_from numbered_def)
qed (use assms in simp)

lemma drop_blocks_from: "k \<le> length ps \<Longrightarrow> drop k (blocks_from (of_nat r) ps) = blocks_from (of_nat (r + k)) (drop k ps)"
proof (induction ps arbitrary: k r)
  case (Cons p ps)
  then show ?case using Cons.IH [of "k - 1" "r + 1"] by (cases k) (simp_all add: add.commute)
qed simp

lemma send_inv:
  assumes "never_is_not_now d" "line_inv n0 R N l" "n0 + length (built l) < 2 ^ 64 - 16"
    and "command_event d t (host l) = Ret w sq"
    and "new = map msg_bytes (drop (length (sent_queue (host l))) (sent_queue sq))"
  shows "line_inv n0 R N (l\<lparr>host := sq, down := down l @ new, built := built l @ map block_payload new\<rparr>)"
  using assms(2)
proof (rule line_invE)
  fix S q fl us
  assume S: "S = n0 + length (built l)" and n: "1 < n0" "n0 \<le> R" "R \<le> N" "N \<le> S" "S \<le> R + 12"
    and bl: "list_all (\<lambda>p. length p \<le> MESSAGE_PAYLOAD_MAX) (built l)"
    and c: "core (host l) = (of_nat R, of_nat S, q)" "map msg_bytes q = blocks_from (of_nat R) (drop (R - n0) (built l))"
      "length q = S - R"
    and dv: "next_sequence (device l) = wire_seq (of_nat N)" "\<not> need_sync (device l)" "accepted l = take (N - n0) (built l)"
    and dn: "down l = map (\<lambda>x. numbered n0 (built l) (fst x)) fl" "flight n0 N S fl"
    and u: "up l = map (\<lambda>x. frame_block (wire_seq (of_nat (fst x))) (snd x)) us" "answers R N us"
  have Sr: "(of_nat S :: u64) = of_nat R + of_nat (length q)" using c(3) n(3,4) by (simp flip: of_nat_add)
  have b: "R < 2 ^ 64 - 16" using S n assms(3) by simp
  then have "(of_nat (R + 1) :: u64) \<noteq> of_nat 0" using u64_eq [of "R + 1" 0] by simp
  then have r1: "(of_nat R :: u64) \<noteq> - 1" by auto
  have "length q \<le> MAX_PENDING_BLOCKS" using c(3) n(5) by (simp add: MAX_PENDING_BLOCKS_def)
  then obtain ps qs where k: "core sq = (of_nat R, of_nat R + of_nat (length (q @ qs)), q @ qs)"
    "list_all (\<lambda>p. length p \<le> MESSAGE_PAYLOAD_MAX) ps" "map msg_bytes qs = blocks_from (of_nat R + of_nat (length q)) ps"
    "length (q @ qs) \<le> MAX_PENDING_BLOCKS"
    using command_loop_core [OF assms(1) assms(4) [unfolded command_event_def] _ r1] c(1) Sr by (metis (no_types, lifting))
  have qn: "new = blocks_from (of_nat S) ps" using k(1,3) c(1) assms(5) Sr by (simp add: core_def)
  define S' where "S' = S + length ps"
  have lq: "length qs = length ps" using arg_cong [OF k(3), of length] by simp
  have bn: "blocks_from (of_nat S) ps = map (numbered n0 (built l @ ps)) [S..<S']"
    using blocks_numbered [of n0 S "built l @ ps"] S by (simp add: S'_def add.assoc)
  have S'R: "S' \<le> R + 12" using k(4) c(3) lq n(3,4) by (simp add: S'_def MAX_PENDING_BLOCKS_def)
  have fl: "flight n0 N S' (fl @ map (\<lambda>i. (i, S')) [S..<S'])"
    by (rule flight_add [OF dn(2)]) (use n S'R in \<open>auto simp: S'_def\<close>)
  have old: "numbered n0 (built l @ ps) (fst x) = numbered n0 (built l) (fst x)" if "x \<in> set fl" for x
  proof (rule numbered_append)
    have "n0 \<le> fst x \<and> fst x < snd x \<and> snd x \<le> S" using that dn(2) by (simp add: flight_def)
    then show "fst x - n0 < length (built l)" using S by linarith
  qed
  have dn': "down l @ new = map (\<lambda>x. numbered n0 (built l @ ps) (fst x)) (fl @ map (\<lambda>i. (i, S')) [S..<S'])"
    using old by (simp add: dn(1) qn bn)
  have cq: "map msg_bytes (q @ qs) = blocks_from (of_nat R) (drop (R - n0) (built l @ ps))"
  proof -
    have "length (drop (R - n0) (built l)) = length q" using c(3) n S by simp
    moreover have "drop (R - n0) (built l @ ps) = drop (R - n0) (built l) @ ps" using n S by simp
    ultimately show ?thesis using k(3) c(2) by (simp only: blocks_from_append map_append)
  qed
  have bp: "built l @ map block_payload new = built l @ ps" by (simp add: qn)
  show ?thesis
  proof (rule line_invI)
    show "S' = n0 + length (built (l\<lparr>host := sq, down := down l @ new, built := built l @ map block_payload new\<rparr>))"
      by (simp add: S'_def S bp)
    show "core (host (l\<lparr>host := sq, down := down l @ new, built := built l @ map block_payload new\<rparr>)) =
        (of_nat R, of_nat S', q @ qs)"
      using k(1) Sr by (simp add: S'_def lq add.assoc)
  qed (use n bl k(2) dv dn' fl u cq S'R S in \<open>simp_all add: bp S'_def del: map_append\<close>)
qed

lemma resend_inv:
  assumes "line_inv n0 R N l" "retransmit_event d t (host l) = Ret w sq"
  shows "line_inv n0 R N (l\<lparr>host := sq, down := down l @ map msg_bytes (sent_queue (host l))\<rparr>)"
  using assms(1)
proof (rule line_invE)
  fix S q fl us
  assume S: "S = n0 + length (built l)" and n: "1 < n0" "n0 \<le> R" "R \<le> N" "N \<le> S" "S \<le> R + 12"
    and c: "core (host l) = (of_nat R, of_nat S, q)" "map msg_bytes q = blocks_from (of_nat R) (drop (R - n0) (built l))"
    and dn: "down l = map (\<lambda>x. numbered n0 (built l) (fst x)) fl" "flight n0 N S fl"
    and rest: "list_all (\<lambda>p. length p \<le> MESSAGE_PAYLOAD_MAX) (built l)"
      "next_sequence (device l) = wire_seq (of_nat N)" "\<not> need_sync (device l)" "accepted l = take (N - n0) (built l)"
      "up l = map (\<lambda>x. frame_block (wire_seq (of_nat (fst x))) (snd x)) us" "answers R N us"
  have q: "sent_queue (host l) = q" using c(1) by (simp add: core_def)
  have "R - n0 \<le> length (built l)" using S n by simp
  then have b: "map msg_bytes q = map (numbered n0 (built l)) [R..<S]"
    using blocks_numbered [OF n(2)] c(2) S by simp
  have fl: "flight n0 N S (fl @ map (\<lambda>i. (i, S)) [R..<S])"
    by (rule flight_add [OF dn(2)]) (use n in auto)
  have d: "down l @ map msg_bytes q = map (\<lambda>x. numbered n0 (built l) (fst x)) (fl @ map (\<lambda>i. (i, S)) [R..<S])"
    by (simp add: dn(1) b)
  show ?thesis
    by (rule line_invI [where S = S and q = q and us = us, OF _ n _ _ _ _ _ _ _ fl])
      (use S c rest d retransmit_event_core [OF assms(2)] in \<open>simp_all add: q del: map_append\<close>)
qed

lemma get_inv:
  assumes "line_inv n0 R N l" "n0 + length (built l) < 2 ^ 64 - 16"
    and "up l = b # bs" "handle_message d t b (host l) = Ret () sq"
  shows "\<exists>R' p. R \<le> R' \<and> b = frame_block (wire_seq (of_nat R')) p \<and> line_inv n0 R' N (l\<lparr>host := sq, up := bs\<rparr>)"
  using assms(1)
proof (rule line_invE)
  fix S q fl us
  assume S: "S = n0 + length (built l)" and n: "1 < n0" "n0 \<le> R" "R \<le> N" "N \<le> S" "S \<le> R + 12"
    and c: "core (host l) = (of_nat R, of_nat S, q)" "map msg_bytes q = blocks_from (of_nat R) (drop (R - n0) (built l))"
      "length q = S - R"
    and u: "up l = map (\<lambda>x. frame_block (wire_seq (of_nat (fst x))) (snd x)) us" "answers R N us"
    and rest: "list_all (\<lambda>p. length p \<le> MESSAGE_PAYLOAD_MAX) (built l)"
      "next_sequence (device l) = wire_seq (of_nat N)" "\<not> need_sync (device l)" "accepted l = take (N - n0) (built l)"
      "down l = map (\<lambda>x. numbered n0 (built l) (fst x)) fl" "flight n0 N S fl"
  obtain m p us' where us: "us = (m, p) # us'" "b = frame_block (wire_seq (of_nat m)) p"
    "bs = map (\<lambda>x. frame_block (wire_seq (of_nat (fst x))) (snd x)) us'"
    using assms(3) u(1) by (cases us) auto
  have m: "R \<le> m" "m \<le> N" and us': "answers m N us'" using u(2) us(1) by (auto simp: answers_def)
  have "b ! MESSAGE_POS_SEQ = wire_seq (of_nat m)"
    by (simp add: us(2) frame_block_def Let_def message_consts)
  from handle_message_core [OF c(1,3) m(1) _ _ _ this assms(4)] n m S assms(2)
  have k: "core sq = (of_nat m, of_nat S, drop (m - R) q)" by simp
  have "map msg_bytes (drop (m - R) q) = drop (m - R) (blocks_from (of_nat R) (drop (R - n0) (built l)))"
    using c(2) by (simp add: drop_map [symmetric])
  also have "\<dots> = blocks_from (of_nat m) (drop (m - n0) (built l))"
    using drop_blocks_from [of "m - R" "drop (R - n0) (built l)" R] m n S by simp
  finally have mq: "map msg_bytes (drop (m - R) q) = blocks_from (of_nat m) (drop (m - n0) (built l))" .
  have "line_inv n0 m N (l\<lparr>host := sq, up := bs\<rparr>)"
    by (rule line_invI [where S = S and q = "drop (m - R) q" and us = us' and fl = fl])
      (use S n m k mq us us' rest in simp_all)
  then show ?thesis using m(1) us(2) by blast
qed

text \<open>The head of the line to the micro-controller is the block it expects, or has another number.\<close>

lemma head_block:
  assumes "line_inv n0 R N l" "down l = b # bs"
  obtains e fl where "b = frame_block (wire_seq (of_nat e)) (built l ! (e - n0))" "e - n0 < length (built l)" "n0 \<le> e"
    "command_find_block b (device l) =
       (if e = N then (1, length b, (device l)\<lparr>need_valid := False, next_sequence := wire_seq (of_nat (N + 1))\<rparr>)
        else find_block_nak (length b) ((device l)\<lparr>need_valid := False\<rparr>))"
    "bs = map (\<lambda>x. numbered n0 (built l) (fst x)) fl"
    "flight n0 (if e = N then N + 1 else N) (n0 + length (built l)) fl"
  using assms(1)
proof (rule line_invE)
  fix S q fl us
  assume S: "S = n0 + length (built l)" and n: "R \<le> N" "N \<le> S" "S \<le> R + 12"
    and bl: "list_all (\<lambda>p. length p \<le> MESSAGE_PAYLOAD_MAX) (built l)"
    and dv: "next_sequence (device l) = wire_seq (of_nat N)" "\<not> need_sync (device l)"
    and dn: "down l = map (\<lambda>x. numbered n0 (built l) (fst x)) fl" "flight n0 N S fl"
  obtain e s fl' where fl: "fl = (e, s) # fl'" "b = numbered n0 (built l) e"
    "bs = map (\<lambda>x. numbered n0 (built l) (fst x)) fl'"
    using assms(2) dn(1) by (cases fl) auto
  have e: "n0 \<le> e" "e < s" "s \<le> e + 12" "N \<le> s" "s \<le> S" using dn(2) fl(1) by (auto simp: flight_def)
  then have i: "e - n0 < length (built l)" using S by linarith
  then have "length (built l ! (e - n0)) + MESSAGE_MIN \<le> MESSAGE_MAX"
    using bl by (auto simp: list_all_length message_consts)
  from find_block_frame [OF this wire_seq_dest dv(2), of "of_nat e" "[]"]
  have "command_find_block b (device l) =
      (if wire_seq (of_nat e) = wire_seq (of_nat N)
       then (1, length b, (device l)\<lparr>need_valid := False, next_sequence := wire_seq (of_nat (e + 1))\<rparr>)
       else find_block_nak (length b) ((device l)\<lparr>need_valid := False\<rparr>))"
    unfolding fl(2) numbered_def dv(1) next_wire_seq length_frame_block append_Nil2 .
  moreover have "wire_seq (of_nat e) = wire_seq (of_nat N) \<longleftrightarrow> e = N"
    using wire_seq_close [of e N] e n by auto
  moreover have "flight n0 N S fl'" using dn(2) flight_sublist [of n0 N S "[]" "(e, s)" fl'] fl(1) by simp
  moreover have "flight n0 (N + 1) S fl'" if "e = N" using dn(2) fl(1) that flight_next by simp
  ultimately show ?thesis using that [OF _ i e(1) _ fl(3)] fl(2) S by (auto simp: numbered_def)
qed

lemma find_block_nak_fields:
  "find_block_nak n c = (r, m, c') \<Longrightarrow> r = - 1 \<and> next_sequence c' = next_sequence c \<and> need_sync c' = need_sync c"
  by (cases "in_sendf c") (auto simp: find_block_nak_def command_sendf_def Let_def)

lemma dispatch_inv:
  assumes "line_inv n0 R N l" "down l = b # bs" "command_find_block b (device l) = (1, n, c)"
    and "list_all (\<lambda>p. length p \<le> MESSAGE_PAYLOAD_MAX) ps"
  shows "line_inv n0 R (N + 1) (l\<lparr>device := c, down := bs, accepted := accepted l @ [block_payload b],
      up := up l @ map (frame_block (next_sequence c)) (ps @ [[]])\<rparr>)"
proof (rule head_block [OF assms(1,2)])
  fix e fl
  assume b: "b = frame_block (wire_seq (of_nat e)) (built l ! (e - n0))" "e - n0 < length (built l)" "n0 \<le> e"
    and f: "command_find_block b (device l) =
       (if e = N then (1, length b, (device l)\<lparr>need_valid := False, next_sequence := wire_seq (of_nat (N + 1))\<rparr>)
        else find_block_nak (length b) ((device l)\<lparr>need_valid := False\<rparr>))"
    and bs: "bs = map (\<lambda>x. numbered n0 (built l) (fst x)) fl"
      "flight n0 (if e = N then N + 1 else N) (n0 + length (built l)) fl"
  have e: "e = N"
  proof (rule ccontr)
    assume "e \<noteq> N"
    then have "find_block_nak (length b) ((device l)\<lparr>need_valid := False\<rparr>) = (1, n, c)"
      using f assms(3) by (simp only: if_False)
    from find_block_nak_fields [OF this] show False by simp
  qed
  then have c: "c = (device l)\<lparr>need_valid := False, next_sequence := wire_seq (of_nat (N + 1))\<rparr>"
    using f assms(3) by simp
  from assms(1) show ?thesis
  proof (rule line_invE)
    fix S q fl' us
    assume S: "S = n0 + length (built l)" and n: "1 < n0" "n0 \<le> R" "R \<le> N" "N \<le> S" "S \<le> R + 12"
      and h: "list_all (\<lambda>p. length p \<le> MESSAGE_PAYLOAD_MAX) (built l)"
        "core (host l) = (of_nat R, of_nat S, q)" "map msg_bytes q = blocks_from (of_nat R) (drop (R - n0) (built l))"
      and dv: "\<not> need_sync (device l)" "accepted l = take (N - n0) (built l)"
      and u: "up l = map (\<lambda>x. frame_block (wire_seq (of_nat (fst x))) (snd x)) us" "answers R N us"
    have us: "answers R (N + 1) (us @ map (Pair (N + 1)) (ps @ [[]]))"
      by (rule answers_add [OF u(2) n(3)]) (use assms(4) in auto)
    have "N + 1 - n0 = Suc (N - n0)" using n by simp
    then have "take (N - n0) (built l) @ [built l ! (N - n0)] = take (N + 1 - n0) (built l)"
      using b(2) e by (simp add: take_Suc_conv_app_nth)
    then have ac: "accepted l @ [block_payload b] = take (N + 1 - n0) (built l)" using dv(2) b(1) e by simp
    have up': "up l @ map (frame_block (next_sequence c)) (ps @ [[]]) =
        map (\<lambda>x. frame_block (wire_seq (of_nat (fst x))) (snd x)) (us @ map (Pair (N + 1)) (ps @ [[]]))"
      by (simp add: u(1) c)
    have fl: "flight n0 (N + 1) S fl" using bs(2) e S by simp
    have N: "R \<le> N + 1" "N + 1 \<le> S" using n b(2) e S by simp_all
    show ?thesis
      by (rule line_invI [where S = S and q = q, OF _ n(1,2) N n(5) _ _ _ _ _ _ _ fl _ us])
        (use S h dv(1) ac up' bs(1) in \<open>simp_all add: c del: map_append\<close>)
  qed
qed

lemma refuse_inv:
  assumes "line_inv n0 R N l" "down l = b # bs" "command_find_block b (device l) = (-1, n, c)"
  shows "line_inv n0 R N (l\<lparr>device := c, down := bs, up := up l @ [frame_block (next_sequence c) []]\<rparr>)"
proof (rule head_block [OF assms(1,2)])
  fix e fl
  assume f: "command_find_block b (device l) =
       (if e = N then (1, length b, (device l)\<lparr>need_valid := False, next_sequence := wire_seq (of_nat (N + 1))\<rparr>)
        else find_block_nak (length b) ((device l)\<lparr>need_valid := False\<rparr>))"
    and bs: "bs = map (\<lambda>x. numbered n0 (built l) (fst x)) fl"
      "flight n0 (if e = N then N + 1 else N) (n0 + length (built l)) fl"
  have e: "e \<noteq> N" using f assms(3) by auto
  then have k: "find_block_nak (length b) ((device l)\<lparr>need_valid := False\<rparr>) = (-1, n, c)"
    using f assms(3) by (simp only: if_False)
  have c: "next_sequence c = next_sequence (device l)" "need_sync c = need_sync (device l)"
    using find_block_nak_fields [OF k] by simp_all
  from assms(1) show ?thesis
  proof (rule line_invE)
    fix S q fl' us
    assume S: "S = n0 + length (built l)" and n: "1 < n0" "n0 \<le> R" "R \<le> N" "N \<le> S" "S \<le> R + 12"
      and h: "list_all (\<lambda>p. length p \<le> MESSAGE_PAYLOAD_MAX) (built l)"
        "core (host l) = (of_nat R, of_nat S, q)" "map msg_bytes q = blocks_from (of_nat R) (drop (R - n0) (built l))"
      and dv: "next_sequence (device l) = wire_seq (of_nat N)" "\<not> need_sync (device l)" "accepted l = take (N - n0) (built l)"
      and u: "up l = map (\<lambda>x. frame_block (wire_seq (of_nat (fst x))) (snd x)) us" "answers R N us"
    have us: "answers R N (us @ map (Pair N) [[]])" by (rule answers_add [OF u(2) n(3)]) auto
    have fl: "flight n0 N S fl" using bs(2) e S by simp
    show ?thesis
      by (rule line_invI [where S = S and q = q, OF _ n _ _ _ _ _ _ _ fl _ us])
        (use S h dv u(1) bs(1) in \<open>simp_all add: c\<close>)
  qed
qed

lemma respond_inv:
  assumes "line_inv n0 R N l" "length p \<le> MESSAGE_PAYLOAD_MAX"
  shows "line_inv n0 R N (l\<lparr>up := up l @ [frame_block (next_sequence (device l)) p]\<rparr>)"
  using assms(1)
proof (rule line_invE)
  fix S q fl us
  assume S: "S = n0 + length (built l)" and n: "1 < n0" "n0 \<le> R" "R \<le> N" "N \<le> S" "S \<le> R + 12"
    and h: "list_all (\<lambda>p. length p \<le> MESSAGE_PAYLOAD_MAX) (built l)"
      "core (host l) = (of_nat R, of_nat S, q)" "map msg_bytes q = blocks_from (of_nat R) (drop (R - n0) (built l))"
    and dv: "next_sequence (device l) = wire_seq (of_nat N)" "\<not> need_sync (device l)" "accepted l = take (N - n0) (built l)"
    and dn: "down l = map (\<lambda>x. numbered n0 (built l) (fst x)) fl" "flight n0 N S fl"
    and u: "up l = map (\<lambda>x. frame_block (wire_seq (of_nat (fst x))) (snd x)) us" "answers R N us"
  have us: "answers R N (us @ map (Pair N) [p])" by (rule answers_add [OF u(2) n(3)]) (use assms(2) in auto)
  show ?thesis
    by (rule line_invI [where S = S and q = q, OF _ n _ _ _ _ _ _ _ dn(2) _ us])
      (use S h dv u(1) dn(1) in simp_all)
qed

lemma split_map:
  assumes "map f zs = xs @ b # ys"
  obtains f1 x f2 where "zs = f1 @ x # f2" "xs = map f f1" "ys = map f f2"
  using assms that unfolding map_eq_append_conv map_eq_Cons_conv by blast

lemma lose_down_inv:
  assumes "line_inv n0 R N l" "down l = xs @ b # ys"
  shows "line_inv n0 R N (l\<lparr>down := xs @ ys\<rparr>)"
  using assms(1)
proof (rule line_invE)
  fix S q fl us
  assume S: "S = n0 + length (built l)" and n: "1 < n0" "n0 \<le> R" "R \<le> N" "N \<le> S" "S \<le> R + 12"
    and h: "list_all (\<lambda>p. length p \<le> MESSAGE_PAYLOAD_MAX) (built l)"
      "core (host l) = (of_nat R, of_nat S, q)" "map msg_bytes q = blocks_from (of_nat R) (drop (R - n0) (built l))"
    and dv: "next_sequence (device l) = wire_seq (of_nat N)" "\<not> need_sync (device l)" "accepted l = take (N - n0) (built l)"
    and dn: "down l = map (\<lambda>x. numbered n0 (built l) (fst x)) fl" "flight n0 N S fl"
    and u: "up l = map (\<lambda>x. frame_block (wire_seq (of_nat (fst x))) (snd x)) us" "answers R N us"
  obtain f1 x f2 where f: "fl = f1 @ x # f2" "xs = map (\<lambda>x. numbered n0 (built l) (fst x)) f1"
    "ys = map (\<lambda>x. numbered n0 (built l) (fst x)) f2"
    by (rule split_map [OF trans [OF dn(1) [symmetric] assms(2)]])
  show ?thesis
    by (rule line_invI [where S = S and q = q, OF _ n _ _ _ _ _ _ _ flight_sublist [OF dn(2) [unfolded f(1)]] _ u(2)])
      (use S h dv u(1) f(2,3) in simp_all)
qed

lemma lose_up_inv:
  assumes "line_inv n0 R N l" "up l = xs @ b # ys"
  shows "line_inv n0 R N (l\<lparr>up := xs @ ys\<rparr>)"
  using assms(1)
proof (rule line_invE)
  fix S q fl us
  assume S: "S = n0 + length (built l)" and n: "1 < n0" "n0 \<le> R" "R \<le> N" "N \<le> S" "S \<le> R + 12"
    and h: "list_all (\<lambda>p. length p \<le> MESSAGE_PAYLOAD_MAX) (built l)"
      "core (host l) = (of_nat R, of_nat S, q)" "map msg_bytes q = blocks_from (of_nat R) (drop (R - n0) (built l))"
    and dv: "next_sequence (device l) = wire_seq (of_nat N)" "\<not> need_sync (device l)" "accepted l = take (N - n0) (built l)"
    and dn: "down l = map (\<lambda>x. numbered n0 (built l) (fst x)) fl" "flight n0 N S fl"
    and u: "up l = map (\<lambda>x. frame_block (wire_seq (of_nat (fst x))) (snd x)) us" "answers R N us"
  obtain f1 x f2 where f: "us = f1 @ x # f2" "xs = map (\<lambda>x. frame_block (wire_seq (of_nat (fst x))) (snd x)) f1"
    "ys = map (\<lambda>x. frame_block (wire_seq (of_nat (fst x))) (snd x)) f2"
    by (rule split_map [OF trans [OF u(1) [symmetric] assms(2)]])
  show ?thesis
    by (rule line_invI [where S = S and q = q, OF _ n _ _ _ _ _ _ _ dn(2) _ answers_sublist [OF u(2) [unfolded f(1)]]])
      (use S h dv dn(1) f(2,3) in simp_all)
qed

lemma device_step_inv:
  assumes "device_step l l'" "line_inv n0 R N l"
  shows "\<exists>N'. N \<le> N' \<and> line_inv n0 R N' l'"
  using assms(1)
proof cases
  case (dispatch b bs n c ps)
  then show ?thesis using dispatch_inv [OF assms(2) dispatch(2-4)] by (intro exI [of _ "N + 1"]) simp
next
  case (refuse b bs n c)
  then show ?thesis using refuse_inv [OF assms(2) refuse(2,3)] by (intro exI [of _ N]) simp
qed

lemma device_step_frame: "device_step l l' \<Longrightarrow> built l' = built l \<and> host l' = host l"
  by (auto elim: device_step.cases)

lemma receive_step_inv:
  assumes "receive_step d l l'" "line_inv n0 R N l" "n0 + length (built l) < 2 ^ 64 - 16"
  shows "\<exists>R'. line_inv n0 R' N l'"
  using assms(1)
proof cases
  case (get b bs t sq)
  then show ?thesis using get_inv [OF assms(2,3) get(2,3)] by auto
qed

lemma receive_step_frame: "receive_step d l l' \<Longrightarrow> built l' = built l"
  by (auto elim: receive_step.cases)

lemma line_step_inv:
  assumes "never_is_not_now d" "line_step d l l'" "line_inv n0 R N l" "n0 + length (built l') < 2 ^ 64 - 16"
  shows "\<exists>R' N'. line_inv n0 R' N' l'"
  using assms(2)
proof cases
  case (send t w sq new)
  then show ?thesis using send_inv [OF assms(1,3) _ send(2,3)] assms(4) by auto
next
  case (resend t w sq)
  then show ?thesis using resend_inv [OF assms(3) resend(2)] by blast
next
  case receive
  then show ?thesis using receive_step_inv [OF receive assms(3)] receive_step_frame [OF receive] assms(4) by metis
next
  case (enqueue sq)
  then show ?thesis using assms(3) by (auto simp: line_inv_def Let_def)
next
  case work
  then show ?thesis using device_step_inv [OF work assms(3)] by blast
next
  case (respond p)
  then show ?thesis using respond_inv [OF assms(3) respond(2)] by blast
next
  case (lose_down xs b ys)
  then show ?thesis using lose_down_inv [OF assms(3)] by blast
next
  case (lose_up xs b ys)
  then show ?thesis using lose_up_inv [OF assms(3)] by blast
qed

lemma line_step_built: "line_step d l l' \<Longrightarrow> length (built l) \<le> length (built l')"
  by (induction rule: line_step.induct) (auto dest: receive_step_frame device_step_frame)

lemma line_steps_inv:
  assumes "never_is_not_now d" "(line_step d)\<^sup>*\<^sup>* l l'" "line_start n0 l" "n0 + length (built l') < 2 ^ 64 - 16"
  shows "\<exists>R N. line_inv n0 R N l'"
  using assms(2,4)
proof (induction rule: rtranclp_induct)
  case base
  then show ?case using line_start_inv [OF assms(3)] by blast
next
  case (step l1 l2)
  then have "n0 + length (built l1) < 2 ^ 64 - 16" using line_step_built [OF step.hyps(2)] by simp
  then show ?case using step line_step_inv [OF assms(1) step.hyps(2)] by blast
qed

text \<open>
  C14: Over a line that keeps the order of blocks but may lose any of them, with any interleaving of
  sending, retransmission, acknowledgement and responses, the micro-controller dispatches the contents
  of the blocks that the host built exactly once and in order; whatever it has not dispatched is still
  in the host's queue of at most 12 blocks.
\<close>

theorem line_delivers_in_order:
  assumes "never_is_not_now d" "line_start n l" "(line_step d)\<^sup>*\<^sup>* l l'" "n + length (built l') < 2 ^ 64 - 16"
  shows "accepted l' = take (length (accepted l')) (built l') \<and>
    length (built l') \<le> length (accepted l') + length (sent_queue (host l')) \<and>
    map (block_payload \<circ> msg_bytes) (sent_queue (host l')) =
      drop (length (built l') - length (sent_queue (host l'))) (built l') \<and>
    length (sent_queue (host l')) \<le> MAX_PENDING_BLOCKS"
proof -
  obtain R N where "line_inv n R N l'" using line_steps_inv [OF assms(1,3,2,4)] by blast
  then show ?thesis
  proof (rule line_invE)
    fix S q fl us
    assume S: "S = n + length (built l')" and n: "n \<le> R" "R \<le> N" "N \<le> S" "S \<le> R + 12"
      and q: "core (host l') = (of_nat R, of_nat S, q)" "length q = S - R"
        "map msg_bytes q = blocks_from (of_nat R) (drop (R - n) (built l'))"
      and a: "accepted l' = take (N - n) (built l')"
    have "sent_queue (host l') = q" using q(1) by (simp add: core_def)
    moreover have "map (block_payload \<circ> msg_bytes) q = drop (R - n) (built l')"
      using q(3) by (simp flip: map_map)
    moreover have "length (built l') - length q = R - n" "length (accepted l') = N - n" using S n q(2) a by simp_all
    moreover have "length (built l') \<le> N - n + (S - R)" "S - R \<le> 12" using S n by linarith+
    ultimately show ?thesis using a q(2) by (simp add: MAX_PENDING_BLOCKS_def)
  qed
qed

section \<open>Recovery\<close>

lemma line_inv_queue:
  assumes "line_inv n0 R N l"
  shows "map msg_bytes (sent_queue (host l)) = map (numbered n0 (built l)) [R..<n0 + length (built l)]"
    "n0 \<le> R" "R \<le> N" "length (sent_queue (host l)) = n0 + length (built l) - R"
proof -
  obtain q where q: "core (host l) = (of_nat R, of_nat (n0 + length (built l)), q)"
    "map msg_bytes q = blocks_from (of_nat R) (drop (R - n0) (built l))" "n0 \<le> R" "R \<le> N" "R - n0 \<le> length (built l)"
    using assms by (auto simp: line_inv_def Let_def)
  then show "map msg_bytes (sent_queue (host l)) = map (numbered n0 (built l)) [R..<n0 + length (built l)]"
    "n0 \<le> R" "R \<le> N"
    using blocks_numbered [OF q(3,5)] by (simp_all add: core_def)
  then show "length (sent_queue (host l)) = n0 + length (built l) - R"
    by (metis length_map length_upt)
qed

lemma retransmit_returns:
  assumes "line_inv n0 R N l"
  shows "\<exists>w sq. retransmit_event d t (host l) = Ret w sq"
  using assms
proof (rule line_invE)
  fix S q fl us
  assume n: "R \<le> N" "N \<le> S" "S \<le> R + 12" and h: "list_all (\<lambda>p. length p \<le> MESSAGE_PAYLOAD_MAX) (built l)"
    "core (host l) = (of_nat R, of_nat S, q)" "map msg_bytes q = blocks_from (of_nat R) (drop (R - n0) (built l))"
    "length q = S - R"
  have q: "sent_queue (host l) = q" using h(2) by (simp add: core_def)
  have b: "length b \<le> MESSAGE_MAX" if "b \<in> set (blocks_from k ps)" "list_all (\<lambda>p. length p \<le> MESSAGE_PAYLOAD_MAX) ps" for k b ps
    using that by (induction k ps rule: blocks_from.induct) (auto simp: length_frame_block message_consts)
  have "list_all (\<lambda>p. length p \<le> MESSAGE_PAYLOAD_MAX) (drop (R - n0) (built l))"
    using h(1) by (auto simp: list_all_iff dest: in_set_dropD)
  then have "\<forall>b \<in> set (map msg_bytes q). length b \<le> MESSAGE_MAX" using b unfolding h(3) by blast
  then have "length (concat (map msg_bytes q)) \<le> MESSAGE_MAX * length q"
    by (induction q) auto
  also have "\<dots> \<le> MESSAGE_MAX * MAX_PENDING_BLOCKS" using h(4) n by (intro mult_le_mono) (simp_all add: MAX_PENDING_BLOCKS_def)
  finally show ?thesis by (simp add: retransmit_event_def q Let_def do_io_def)
qed

lemma device_can_step:
  assumes "line_inv n0 R N l" "down l \<noteq> []"
  shows "\<exists>l'. device_step l l'"
proof -
  obtain b bs where d: "down l = b # bs" using assms(2) by (cases "down l") auto
  show ?thesis
  proof (rule head_block [OF assms(1) d])
    fix e fl
    assume f: "command_find_block b (device l) =
       (if e = N then (1, length b, (device l)\<lparr>need_valid := False, next_sequence := wire_seq (of_nat (N + 1))\<rparr>)
        else find_block_nak (length b) ((device l)\<lparr>need_valid := False\<rparr>))"
    show ?thesis
    proof (cases "e = N")
      case True
      then show ?thesis using device_step.dispatch [OF d, of _ _ "[]"] f by auto
    next
      case False
      then show ?thesis using device_step.refuse [OF d] f by (auto simp: find_block_nak_def)
    qed
  qed
qed

lemma device_step_down: "device_step l l' \<Longrightarrow> down l' = tl (down l) \<and> down l \<noteq> []"
  by (auto elim: device_step.cases)

lemma device_can_finish: "line_inv n0 R N l \<Longrightarrow> \<exists>l'. device_step\<^sup>*\<^sup>* l l' \<and> down l' = []"
proof (induction "length (down l)" arbitrary: N l)
  case (Suc k)
  then obtain l1 where l1: "device_step l l1" using device_can_step by fastforce
  then obtain N' where "line_inv n0 R N' l1" using device_step_inv Suc.prems by blast
  moreover have "k = length (down l1)" using device_step_down [OF l1] Suc.hyps(2) by (cases "down l") auto
  ultimately obtain l' where "device_step\<^sup>*\<^sup>* l1 l'" "down l' = []" using Suc.hyps(1) by blast
  then show ?case using l1 converse_rtranclp_into_rtranclp by metis
qed auto

text \<open>
  After a retransmission what is on its way ends with all blocks from some \<open>m\<close> on that the
  micro-controller does not expect any more, or expects next.
\<close>

definition covered :: "nat \<Rightarrow> nat \<Rightarrow> 'd line \<Rightarrow> bool" where
  "covered n0 N l \<longleftrightarrow> (\<exists>m xs. n0 \<le> m \<and> m \<le> N \<and> down l = xs @ map (numbered n0 (built l)) [m..<n0 + length (built l)])"

definition answered :: "nat \<Rightarrow> 'd line \<Rightarrow> bool" where
  "answered N l \<longleftrightarrow> up l \<noteq> [] \<and> last (up l) = frame_block (wire_seq (of_nat N)) []"

lemma answered_step: "device_step l l' \<Longrightarrow> line_inv n0 R N l' \<Longrightarrow> answered N l'"
proof -
  assume a: "device_step l l'" "line_inv n0 R N l'"
  from a(2) have "next_sequence (device l') = wire_seq (of_nat N)" by (simp add: line_inv_def Let_def)
  with a(1) show ?thesis by (cases rule: device_step.cases) (simp_all add: answered_def)
qed

lemma expected_accepted:
  assumes "line_inv n0 R N l" "down l = numbered n0 (built l) N # bs" "N < n0 + length (built l)"
  shows "fst (command_find_block (numbered n0 (built l) N) (device l)) = 1"
  using assms(1)
proof (rule line_invE)
  fix S q fl us
  assume n: "n0 \<le> R" "R \<le> N" and bl: "list_all (\<lambda>p. length p \<le> MESSAGE_PAYLOAD_MAX) (built l)"
    and dv: "next_sequence (device l) = wire_seq (of_nat N)" "\<not> need_sync (device l)"
  have "N - n0 < length (built l)" using n assms(3) by simp
  then have "length (built l ! (N - n0)) + MESSAGE_MIN \<le> MESSAGE_MAX"
    using bl by (auto simp: list_all_length message_consts)
  from find_block_frame [OF this wire_seq_dest dv(2), of "of_nat N" "[]"]
  show ?thesis unfolding numbered_def dv(1) append_Nil2 by simp
qed

lemma covered_step:
  assumes "line_inv n0 R N l" "covered n0 N l" "device_step l l'"
  shows "\<exists>N'. line_inv n0 R N' l' \<and> covered n0 N' l' \<and> answered N' l'"
proof -
  let ?S = "n0 + length (built l)"
  obtain m xs where m: "n0 \<le> m" "m \<le> N" "down l = xs @ map (numbered n0 (built l)) [m..<?S]"
    using assms(2) by (auto simp: covered_def)
  have fr: "built l' = built l" "down l' = tl (down l)" "down l \<noteq> []"
    using device_step_frame [OF assms(3)] device_step_down [OF assms(3)] by auto
  show ?thesis
  proof (cases xs)
    case (Cons x ys)
    then have "down l' = ys @ map (numbered n0 (built l)) [m..<?S]" using m(3) fr(2) by simp
    then show ?thesis using device_step_inv [OF assms(3,1)] m(1,2) fr(1) le_trans answered_step [OF assms(3)]
      unfolding covered_def by metis
  next
    case Nil
    then have ms: "m < ?S" using m(3) fr(3) by auto
    then have d: "down l = numbered n0 (built l) m # map (numbered n0 (built l)) [m + 1..<?S]"
      using m(3) Nil by (simp add: upt_conv_Cons)
    have c: "covered n0 N' l'" if "m + 1 \<le> N'" for N'
      unfolding covered_def using m(1) that d fr by (intro exI [of _ "m + 1"] exI [of _ "[]"]) simp
    show ?thesis using assms(3)
    proof cases
      case (dispatch b bs n c ps)
      then show ?thesis using dispatch_inv [OF assms(1) dispatch(2-4)] c m(2) dispatch(1) answered_step [OF assms(3)]
        by (intro exI [of _ "N + 1"]) simp
    next
      case (refuse b bs n c)
      then have "m \<noteq> N" using expected_accepted [OF assms(1)] d ms by auto
      then show ?thesis using refuse_inv [OF assms(1) refuse(2,3)] c m(2) refuse(1) answered_step [OF assms(3)]
        by (intro exI [of _ N]) simp
    qed
  qed
qed

lemma frame_block_seq: "frame_block a p = frame_block b q \<Longrightarrow> a = b"
  by (simp add: frame_block_def Let_def)

lemma device_run:
  assumes "device_step\<^sup>*\<^sup>* l l'" "line_inv n0 R N l" "covered n0 N l"
  shows "built l' = built l \<and>
    (\<exists>N'. line_inv n0 R N' l' \<and> covered n0 N' l' \<and> (l' = l \<or> answered N' l'))"
  using assms(1)
proof (induction rule: rtranclp_induct)
  case base
  then show ?case using assms(2,3) by blast
next
  case (step l1 l2)
  then show ?case using covered_step [OF _ _ step.hyps(2)] device_step_frame [OF step.hyps(2)] by metis
qed

lemma covered_done:
  assumes "line_inv n0 R N l" "covered n0 N l" "down l = []"
  shows "N = n0 + length (built l) \<and> accepted l = built l"
proof -
  obtain m where "n0 \<le> m" "m \<le> N" "[m..<n0 + length (built l)] = []" using assms(2,3) by (auto simp: covered_def)
  then have "n0 + length (built l) \<le> N" by auto
  then show ?thesis using assms(1) by (simp add: line_inv_def Let_def)
qed

lemma receive_step_answered:
  assumes "receive_step d l l'" "line_inv n0 R N l" "n0 + length (built l) < 2 ^ 64 - 16" "R = N \<or> answered N l"
  shows "\<exists>R'. line_inv n0 R' N l' \<and> (R' = N \<or> answered N l')"
  using assms(1)
proof cases
  case (get b bs t sq)
  then obtain R' p where i: "R \<le> R'" "b = frame_block (wire_seq (of_nat R')) p" "line_inv n0 R' N l'"
    using get_inv [OF assms(2,3) get(2,3)] by auto
  have b: "R' \<le> N" "N \<le> R' + 12" using i(3) by (auto simp: line_inv_def Let_def)
  show ?thesis
  proof (cases "R = N")
    case True
    then show ?thesis using i b by auto
  next
    case False
    then have a: "last (b # bs) = frame_block (wire_seq (of_nat N)) []" using assms(4) get(2) by (simp add: answered_def)
    show ?thesis
    proof (cases bs)
      case Nil
      then have "wire_seq (of_nat R') = wire_seq (of_nat N)" using a i(2) frame_block_seq by auto
      then have "R' = N" using wire_seq_close [of R' N] b by simp
      then show ?thesis using i(3) by blast
    next
      case Cons
      then show ?thesis using a i(3) get(1) by (auto simp: answered_def)
    qed
  qed
qed

lemma receive_run:
  assumes "(receive_step d)\<^sup>*\<^sup>* l l'" "line_inv n0 R N l" "n0 + length (built l) < 2 ^ 64 - 16" "R = N \<or> answered N l"
  shows "built l' = built l \<and> (\<exists>R'. line_inv n0 R' N l' \<and> (R' = N \<or> answered N l'))"
  using assms(1)
proof (induction rule: rtranclp_induct)
  case base
  then show ?case using assms(2,4) by blast
next
  case (step l1 l2)
  then show ?case using receive_step_answered [OF step.hyps(2)] receive_step_frame [OF step.hyps(2)] assms(3) by metis
qed

lemma receive_can_finish:
  assumes "line_inv n0 R N l" "n0 + length (built l) < 2 ^ 64 - 16"
  shows "\<exists>l'. (receive_step d)\<^sup>*\<^sup>* l l' \<and> up l' = []"
  using assms
proof (induction "length (up l)" arbitrary: R l)
  case (Suc k)
  then obtain b bs where u: "up l = b # bs" by (cases "up l") auto
  obtain m p where "b = frame_block (wire_seq (of_nat m)) p" "length p \<le> MESSAGE_PAYLOAD_MAX"
    using Suc.prems(1)
  proof (rule line_invE)
    fix us
    assume "up l = map (\<lambda>x. frame_block (wire_seq (of_nat (fst x))) (snd x)) us" "answers R N us"
    then show ?thesis using that u by (cases us) (auto simp: answers_def)
  qed
  then have "length b \<le> MESSAGE_MAX" by (simp add: length_frame_block message_consts)
  then obtain sq where "handle_message d (d_zero d) b (host l) = Ret () sq"
    using handle_message_returns [of b d "d_zero d" "host l"] by blast
  then have r: "receive_step d l (l\<lparr>host := sq, up := bs\<rparr>)" using receive_step.get [OF u] by blast
  then obtain R' where "line_inv n0 R' N (l\<lparr>host := sq, up := bs\<rparr>)" using receive_step_inv Suc.prems by blast
  then obtain l' where "(receive_step d)\<^sup>*\<^sup>* (l\<lparr>host := sq, up := bs\<rparr>) l'" "up l' = []"
    using Suc.hyps(1) [of "l\<lparr>host := sq, up := bs\<rparr>"] Suc.hyps(2) Suc.prems(2) u by auto
  then show ?case using r converse_rtranclp_into_rtranclp by metis
qed auto

text \<open>
  C15: From every state that the line can reach, whatever was lost, \<open>retransmit_event\<close> succeeds and
  one retransmission that is not lost suffices: however the micro-controller then works through the
  blocks, it has dispatched everything the host built, and once the host has received the answers its
  window is empty.
\<close>

theorem line_recovers:
  assumes "never_is_not_now d" "line_start n l0" "(line_step d)\<^sup>*\<^sup>* l0 l" "n + length (built l) < 2 ^ 64 - 16"
  shows "\<exists>w sq. retransmit_event d t (host l) = Ret w sq \<and>
    (let l1 = l\<lparr>host := sq, down := down l @ map msg_bytes (sent_queue (host l))\<rparr> in
      (\<exists>l2 l3. device_step\<^sup>*\<^sup>* l1 l2 \<and> down l2 = [] \<and> (receive_step d)\<^sup>*\<^sup>* l2 l3 \<and> up l3 = []) \<and>
      (\<forall>l2. device_step\<^sup>*\<^sup>* l1 l2 \<and> down l2 = [] \<longrightarrow> accepted l2 = built l \<and>
        (\<forall>l3. (receive_step d)\<^sup>*\<^sup>* l2 l3 \<and> up l3 = [] \<longrightarrow> sent_queue (host l3) = [])))"
proof -
  obtain R N where i: "line_inv n R N l" using line_steps_inv [OF assms(1,3,2,4)] by blast
  obtain w sq where r: "retransmit_event d t (host l) = Ret w sq" using retransmit_returns [OF i] by blast
  define l1 where "l1 = l\<lparr>host := sq, down := down l @ map msg_bytes (sent_queue (host l))\<rparr>"
  have i1: "line_inv n R N l1" unfolding l1_def by (rule resend_inv [OF i r])
  have d1: "down l1 = down l @ map (numbered n (built l)) [R..<n + length (built l)]" "n \<le> R" "R \<le> N"
    using line_inv_queue [OF i] by (simp_all add: l1_def)
  then have c1: "covered n N l1" unfolding covered_def by (intro exI [of _ R] exI [of _ "down l"]) (simp add: l1_def)
  have main: "accepted l2 = built l \<and> (\<exists>l3. (receive_step d)\<^sup>*\<^sup>* l2 l3 \<and> up l3 = []) \<and>
      (\<forall>l3. (receive_step d)\<^sup>*\<^sup>* l2 l3 \<and> up l3 = [] \<longrightarrow> sent_queue (host l3) = [])"
    if l2: "device_step\<^sup>*\<^sup>* l1 l2" "down l2 = []" for l2
  proof -
    obtain N' where N': "built l2 = built l" "line_inv n R N' l2" "covered n N' l2" "l2 = l1 \<or> answered N' l2"
      using device_run [OF l2(1) i1 c1] by (auto simp: l1_def)
    note e = covered_done [OF N'(2,3) l2(2)]
    have "R = N' \<or> answered N' l2"
    proof (cases "l2 = l1")
      case True
      then have "[R..<n + length (built l)] = []" using d1(1) l2(2) by simp
      then show ?thesis using N'(1,2) e by (auto simp: line_inv_def Let_def)
    qed (use N'(4) in blast)
    note run = receive_run [OF _ N'(2) _ this]
    have "sent_queue (host l3) = []" if l3: "(receive_step d)\<^sup>*\<^sup>* l2 l3" "up l3 = []" for l3
    proof -
      obtain R' where "built l3 = built l2" "line_inv n R' N' l3" "R' = N'"
        using run [OF l3(1)] l3(2) assms(4) N'(1) by (auto simp: answered_def)
      then show ?thesis using line_inv_queue(4) [of n R' N' l3] e by simp
    qed
    then show ?thesis using e N'(1) receive_can_finish [OF N'(2)] assms(4) by auto
  qed
  then show ?thesis using r device_can_finish [OF i1] unfolding l1_def [symmetric] Let_def by (metis l1_def)
qed

section \<open>An example\<close>

text \<open>A connection at sequence number 17, with one command of two bytes queued by the host.\<close>

definition link_host :: "int serialqueue" where
  "link_host =
     serialqueue_send_one 0 (timed fixed_point (message_alloc\<lparr>qm_len := 2, qm_msg := [7, 1] @ replicate 62 0\<rparr>))
       ((serialqueue_alloc fixed_point (\<lambda>_. 0) SQT_UART 0)\<lparr>receive_seq := 17, send_seq := 17\<rparr>)"

definition link_example :: "int line" where
  "link_example =
     \<lparr>host = link_host, device = comm0\<lparr>next_sequence := 0x11\<rparr>, down = [], up = [], built = [], accepted = []\<rparr>"

lemmas link_eval = link_host_def serialqueue_send_one_def queue_message.extend_def
      serialqueue_send_batch_def serialqueue_alloc_def pollreactor.extend_def Let_def kick_bg_thread_def do_io_def
      PR_NEVER_def PR_NOW_def fixed_point_def message_consts timed_def msg_bytes_def
      raise_min_clock_def message_alloc_def empty_queue_def check_send_command_def must_wait_for_ack_def d_true_def d_zero_def
      clock_from_time_def MAX_CLOCK_def c_div_def BACKGROUND_PRIORITY_CLOCK_def MAX_PENDING_BLOCKS_def

lemma link_example_start: "line_start 17 link_example" "never_is_not_now fixed_point"
  by (simp_all add: line_start_def link_example_def link_eval core_def comm0_def never_is_not_now_def wire_seq_def)

lemma link_host_loop: "command_event fixed_point 0 link_host = command_loop (Suc (Suc 12)) fixed_point 0 [] link_host"
proof -
  have "queued_on link_host = 1" by (simp add: queued_on_def link_eval)
  then show ?thesis by (simp add: command_event_def MAX_PENDING_BLOCKS_def del: command_loop.simps)
qed

lemma fill_block_one:
  assumes "pending_queues sq = [q]" "ready_queue (command_queues sq q) = [qm]" "ready_bytes sq = qm_len qm"
    and "0 < qm_len qm" "qm_len qm \<le> int MESSAGE_PAYLOAD_MAX" "req_clock qm < MAX_CLOCK"
  shows "fill_block [] sq = Ret (msg_bytes qm) (take_ready q qm sq)"
proof -
  have "ready_bytes (take_ready q qm sq) = 0" using assms(3) by (simp add: take_ready_def Let_def)
  then show ?thesis using assms by (simp add: fill_block.simps [of "[]" sq] fill_block.simps [of _ "take_ready q qm sq"] message_consts)
qed

lemma link_host_ready:
  "\<exists>sq qm. check_send_command fixed_point 0 link_host = (0, sq) \<and> ready_bytes sq = 2 \<and> pending_queues sq = [0] \<and>
     ready_queue (command_queues sq 0) = [qm] \<and> msg_bytes qm = [7, 1] \<and> qm_len qm = 2 \<and> req_clock qm = 0 \<and>
     notify_id qm = 0 \<and> stalled_queue (command_queues sq 0) = [] \<and> est_freq (ce sq) = 0 \<and> receive_window sq = 0 \<and>
     core sq = (17, 17, [])"
  by (simp add: link_eval core_def)

lemma link_host_block:
  assumes "ready_bytes sq = 2" "pending_queues sq = [0]" "ready_queue (command_queues sq 0) = [qm]" "msg_bytes qm = [7, 1]"
    "qm_len qm = 2" "req_clock qm = 0" "notify_id qm = 0" "stalled_queue (command_queues sq 0) = []" "est_freq (ce sq) = 0"
    "receive_window sq = 0" "core sq = (17, 17, [])"
  shows "\<exists>sq' q. build_and_send_command fixed_point 0 sq = Ret (finish_block [7, 1] 17) sq' \<and> ready_bytes sq' = 0 \<and>
     pending_queues sq' = [] \<and> est_freq (ce sq') = 0 \<and> receive_window sq' = 0 \<and>
     core sq' = (17, 18, [q]) \<and> msg_bytes q = finish_block [7, 1] 17"
proof -
  have f: "fill_block [] sq = Ret [7, 1] (take_ready 0 qm sq)"
    using fill_block_one [of sq 0 qm] assms by (simp add: MAX_CLOCK_def message_consts)
  obtain q where q: "message_fill (finish_block [7, 1] 17) = Some q"
    by (simp add: message_fill_def message_alloc_def finish_block_frame length_frame_block message_consts Let_def)
  show ?thesis
    using assms f q msg_bytes_fill(1) [OF q]
    by (simp add: build_and_send_command_def take_ready_def Let_def core_def pollreactor_update_timer_def
        timed_def queue_message.extend_def msg_bytes_def)
qed

lemma link_host_idle:
  assumes "ready_bytes sq = 0" "pending_queues sq = []" "est_freq (ce sq) = 0" "receive_window sq = 0" "core sq = (17, 18, [q])"
  shows "\<exists>sq'. check_send_command fixed_point 0 sq = (PR_NEVER fixed_point, sq') \<and> core sq' = core sq"
  using assms
  by (simp add: check_send_command_def must_wait_for_ack_def core_def Let_def d_true_def d_zero_def fixed_point_def
     MAX_PENDING_BLOCKS_def message_consts)

lemma link_example_sends:
  "\<exists>w sq. command_event fixed_point 0 link_host = Ret w sq \<and> map msg_bytes (sent_queue sq) = [finish_block [7, 1] 17]"
proof -
  obtain s1 qm where s1: "check_send_command fixed_point 0 link_host = (0, s1)" "ready_bytes s1 = 2" "pending_queues s1 = [0]"
     "ready_queue (command_queues s1 0) = [qm]" "msg_bytes qm = [7, 1]" "qm_len qm = 2" "req_clock qm = 0"
     "notify_id qm = 0" "stalled_queue (command_queues s1 0) = []" "est_freq (ce s1) = 0" "receive_window s1 = 0"
     "core s1 = (17, 17, [])" using link_host_ready by blast
  obtain s2 q where s2: "build_and_send_command fixed_point 0 s1 = Ret (finish_block [7, 1] 17) s2" "ready_bytes s2 = 0"
    "pending_queues s2 = []" "est_freq (ce s2) = 0" "receive_window s2 = 0"
    "core s2 = (17, 18, [q])" "msg_bytes q = finish_block [7, 1] 17" using link_host_block [OF s1(2-12)] by blast
  obtain s3 where s3: "check_send_command fixed_point 0 s2 = (PR_NEVER fixed_point, s3)" "core s3 = core s2"
    using link_host_idle [OF s2(2-6)] by blast
  have n: "\<not> d_eq fixed_point (PR_NEVER fixed_point) (PR_NOW fixed_point)" "d_eq fixed_point 0 (PR_NOW fixed_point)"
    by (simp_all add: PR_NEVER_def PR_NOW_def fixed_point_def)
  have "command_event fixed_point 0 link_host = Ret (PR_NEVER fixed_point) (write_blocks (finish_block [7, 1] 17) s3)"
    unfolding link_host_loop command_loop.simps(2) Let_def s1(1) prod.case
    using n s2(1) s3 by (simp add: message_consts MAX_PENDING_BLOCKS_def)
  moreover have "sent_queue (write_blocks (finish_block [7, 1] 17) s3) = [q]"
    using do_write_core(2) [of "finish_block [7, 1] 17" s3] s3(2) s2(6) by (simp add: core_def)
  ultimately show ?thesis using s2(7) by simp
qed

lemma link_example_step:
  "\<exists>l. (line_step fixed_point)\<^sup>*\<^sup>* link_example l \<and> built l = [[7, 1]] \<and> down l = [frame_block (wire_seq 17) [7, 1]]"
proof -
  obtain w sq where e: "command_event fixed_point 0 link_host = Ret w sq"
    "map msg_bytes (sent_queue sq) = [finish_block [7, 1] 17]"
    using link_example_sends by (elim exE conjE) (rule that)
  define new where "new = map msg_bytes (drop (length (sent_queue (host link_example))) (sent_queue sq))"
  have "sent_queue link_host = []" by (simp add: link_eval)
  then have n: "new = [frame_block (wire_seq 17) [7, 1]]" using e(2) by (simp add: new_def link_example_def finish_block_frame)
  have "command_event fixed_point 0 (host link_example) = Ret w sq" using e(1) by (simp add: link_example_def)
  then have "(line_step fixed_point)\<^sup>*\<^sup>* link_example (link_example\<lparr>host := sq, down := down link_example @ new,
      built := built link_example @ map block_payload new\<rparr>)" using line_step.send [OF _ new_def] by blast
  then show ?thesis using n by (auto simp: link_example_def)
qed

theorem line_delivers_in_order_witness:
  "\<exists>l :: int line. built l = [[7, 1]] \<and> accepted l = take (length (accepted l)) (built l) \<and>
     length (built l) \<le> length (accepted l) + length (sent_queue (host l))"
proof -
  obtain l where l: "(line_step fixed_point)\<^sup>*\<^sup>* link_example l" "built l = [[7, 1]]" using link_example_step by blast
  have "17 + length (built l) < 2 ^ 64 - 16" using l(2) by simp
  from line_delivers_in_order [OF link_example_start(2,1) l(1) this] show ?thesis using l(2) by blast
qed

theorem line_recovers_witness:
  "\<exists>l w sq. built l = [[7, 1]] \<and> retransmit_event fixed_point 0 (host l) = Ret w sq \<and>
     (\<exists>l2. device_step\<^sup>*\<^sup>* (l\<lparr>host := sq, down := down l @ map msg_bytes (sent_queue (host l))\<rparr>) l2 \<and> accepted l2 = [[7, 1]])"
proof -
  obtain l where l: "(line_step fixed_point)\<^sup>*\<^sup>* link_example l" "built l = [[7, 1]]" using link_example_step by blast
  have "17 + length (built l) < 2 ^ 64 - 16" using l(2) by simp
  from line_recovers [OF link_example_start(2,1) l(1) this, of 0] show ?thesis using l(2) unfolding Let_def by metis
qed

end
