(* ===== verification/Serial_Flow.thy ===== *)
theory Serial_Flow
  imports Serial_Link
begin

text \<open>
  The queues of \<open>serialqueue.c\<close>: the byte counts and the list of pending queues agree with the command
  queues, so that \<open>command_event\<close> always finds a message where it looks for one and comes to an end, and
  the messages of each command queue are sent in their order. On the receiving side: the input buffer
  never fills up, and the blocks in it are handled one by one.
\<close>

section \<open>The command queues\<close>

definition queue_content :: "'d serialqueue \<Rightarrow> nat \<Rightarrow> 'd timed_message list" where
  "queue_content sq q = ready_queue (command_queues sq q) @ stalled_queue (command_queues sq q)"

definition bytes_of :: "'d timed_message list \<Rightarrow> int" where
  "bytes_of ms = sum_list (map qm_len ms)"

definition sendable :: "'d timed_message \<Rightarrow> bool" where
  "sendable qm \<longleftrightarrow> 0 < qm_len qm \<and> qm_len qm \<le> int MESSAGE_PAYLOAD_MAX \<and> req_clock qm < MAX_CLOCK"

definition queues_ok :: "'d serialqueue \<Rightarrow> bool" where
  "queues_ok sq \<longleftrightarrow> distinct (pending_queues sq) \<and>
     (\<forall>q. queue_content sq q \<noteq> [] \<longleftrightarrow> q \<in> set (pending_queues sq)) \<and>
     (\<forall>q. \<forall>qm \<in> set (queue_content sq q). sendable qm) \<and>
     ready_bytes sq = (\<Sum>q \<in> set (pending_queues sq). bytes_of (ready_queue (command_queues sq q))) \<and>
     stalled_bytes sq = (\<Sum>q \<in> set (pending_queues sq). bytes_of (stalled_queue (command_queues sq q)))"

lemma bytes_of_simps [simp]: "bytes_of [] = 0" "bytes_of (m # ms) = qm_len m + bytes_of ms"
  "bytes_of (ms @ ns) = bytes_of ms + bytes_of ns"
  by (simp_all add: bytes_of_def)

lemma bytes_of_pos: "list_all sendable ms \<Longrightarrow> 0 \<le> bytes_of ms \<and> (ms \<noteq> [] \<longrightarrow> 0 < bytes_of ms)"
  by (induction ms) (auto simp: sendable_def)

lemma queues_okD:
  assumes "queues_ok sq"
  shows "distinct (pending_queues sq)" "q \<in> set (pending_queues sq) \<longleftrightarrow> queue_content sq q \<noteq> []"
    "list_all sendable (ready_queue (command_queues sq q))" "list_all sendable (stalled_queue (command_queues sq q))"
    "ready_bytes sq = (\<Sum>q \<in> set (pending_queues sq). bytes_of (ready_queue (command_queues sq q)))"
    "stalled_bytes sq = (\<Sum>q \<in> set (pending_queues sq). bytes_of (stalled_queue (command_queues sq q)))"
  using assms by (auto simp: queues_ok_def queue_content_def list_all_iff)

text \<open>What the invariant is about; the other members may change.\<close>

definition queue_view :: "'d serialqueue \<Rightarrow> (nat \<Rightarrow> 'd command_queue) \<times> nat list \<times> int \<times> int" where
  "queue_view sq = (command_queues sq, pending_queues sq, ready_bytes sq, stalled_bytes sq)"

lemma queues_ok_cong: "queue_view sq' = queue_view sq \<Longrightarrow> queues_ok sq \<Longrightarrow> queues_ok sq'"
  by (simp add: queue_view_def queues_ok_def queue_content_def)

lemma highest_kept: "qm \<noteq> None \<Longrightarrow> highest cqs qs minc qm \<noteq> None"
  by (induction cqs qs minc qm rule: highest.induct) (auto split: list.splits if_splits)

lemma highest_found:
  "q \<in> set qs \<Longrightarrow> ready_queue (cqs q) = m # ms \<Longrightarrow> req_clock m < minc \<Longrightarrow> highest cqs qs minc qm \<noteq> None"
proof (induction cqs qs minc qm rule: highest.induct)
  case (2 cqs x qs minc qm)
  show ?case
  proof (cases "ready_queue (cqs x)")
    case Nil
    then show ?thesis using "2.IH"(1) [OF Nil] "2.prems" by auto
  next
    case (Cons h hs)
    show ?thesis
    proof (cases "req_clock h < minc")
      case True
      then show ?thesis using Cons highest_kept [of "Some (x, h)"] by auto
    next
      case False
      then show ?thesis using Cons "2.IH"(3) [OF Cons False] "2.prems" by auto
    qed
  qed
qed simp

lemma ready_found:
  assumes "queues_ok sq" "ready_bytes sq \<noteq> 0"
  shows "highest (command_queues sq) (pending_queues sq) MAX_CLOCK None \<noteq> None"
proof -
  have "\<exists>q \<in> set (pending_queues sq). bytes_of (ready_queue (command_queues sq q)) \<noteq> 0"
    using queues_okD(5) [OF assms(1)] assms(2) by (metis sum.neutral)
  then obtain q where q: "q \<in> set (pending_queues sq)" "ready_queue (command_queues sq q) \<noteq> []" by fastforce
  then obtain m ms where m: "ready_queue (command_queues sq q) = m # ms" by (cases "ready_queue (command_queues sq q)") auto
  then have "req_clock m < MAX_CLOCK" using queues_okD(3) [OF assms(1), of q] by (simp add: sendable_def)
  then show ?thesis using highest_found [where cqs = "command_queues sq", OF q(1) m] by blast
qed

lemma sum_upd: "finite A \<Longrightarrow> q \<in> A \<Longrightarrow> (\<Sum>x \<in> A. (f (q := v)) x) = (\<Sum>x \<in> A. f x) - f q + (v :: int)"
proof -
  assume A: "finite A" "q \<in> A"
  have "(\<Sum>x \<in> A - {q}. (f (q := v)) x) = (\<Sum>x \<in> A - {q}. f x)" by (rule sum.cong) auto
  then show ?thesis using sum.remove [OF A, of f] sum.remove [OF A, of "f (q := v)"] by simp
qed

text \<open>Changing one pending queue, with the byte counts following it.\<close>

lemma queues_ok_update:
  assumes "queues_ok sq" "q \<in> set (pending_queues sq)"
    and "ready_queue cq @ stalled_queue cq \<noteq> []" "list_all sendable (ready_queue cq @ stalled_queue cq)"
    and "queue_view sq' = ((command_queues sq)(q := cq), pending_queues sq,
      ready_bytes sq - bytes_of (ready_queue (command_queues sq q)) + bytes_of (ready_queue cq),
      stalled_bytes sq - bytes_of (stalled_queue (command_queues sq q)) + bytes_of (stalled_queue cq))"
  shows "queues_ok sq'"
proof -
  let ?r = "\<lambda>x. bytes_of (ready_queue (command_queues sq x))"
  let ?s = "\<lambda>x. bytes_of (stalled_queue (command_queues sq x))"
  have v: "command_queues sq' = (command_queues sq)(q := cq)" "pending_queues sq' = pending_queues sq"
    "ready_bytes sq' = ready_bytes sq - ?r q + bytes_of (ready_queue cq)"
    "stalled_bytes sq' = stalled_bytes sq - ?s q + bytes_of (stalled_queue cq)"
    using assms(5) by (simp_all add: queue_view_def)
  have f: "(\<lambda>x. bytes_of (ready_queue (command_queues sq' x))) = ?r(q := bytes_of (ready_queue cq))"
    "(\<lambda>x. bytes_of (stalled_queue (command_queues sq' x))) = ?s(q := bytes_of (stalled_queue cq))"
    by (auto simp: v(1))
  have "(\<Sum>x \<in> set (pending_queues sq). bytes_of (ready_queue (command_queues sq' x))) = ready_bytes sq'"
    unfolding f(1) sum_upd [OF finite_set assms(2), of ?r] v(3) queues_okD(5) [OF assms(1)] ..
  moreover have "(\<Sum>x \<in> set (pending_queues sq). bytes_of (stalled_queue (command_queues sq' x))) = stalled_bytes sq'"
    unfolding f(2) sum_upd [OF finite_set assms(2), of ?s] v(4) queues_okD(6) [OF assms(1)] ..
  moreover have "\<And>x. queue_content sq' x = (if x = q then ready_queue cq @ stalled_queue cq else queue_content sq x)"
    by (simp add: queue_content_def v(1))
  ultimately show ?thesis using assms(1-4) by (simp add: queues_ok_def v(2) list_all_iff)
qed

lemma queue_content_view: "queue_view sq' = queue_view sq \<Longrightarrow> queue_content sq' = queue_content sq"
  by (simp add: queue_view_def queue_content_def fun_eq_iff)

lemma empty_queue_simps [simp]: "ready_queue empty_queue = []" "stalled_queue empty_queue = []"
  by (simp_all add: empty_queue_def)

text \<open>The last message of a queue: the queue is not pending any more.\<close>

lemma queues_ok_drop:
  assumes "queues_ok sq" "q \<in> set (pending_queues sq)"
    and "queue_view sq' = ((command_queues sq)(q := empty_queue), remove1 q (pending_queues sq),
      ready_bytes sq - bytes_of (ready_queue (command_queues sq q)), stalled_bytes sq)"
    and "stalled_queue (command_queues sq q) = []"
  shows "queues_ok sq'"
proof -
  let ?P = "set (pending_queues sq)"
  have d: "distinct (pending_queues sq)" using assms(1) by (simp add: queues_ok_def)
  have v: "command_queues sq' = (command_queues sq)(q := empty_queue)" "pending_queues sq' = remove1 q (pending_queues sq)"
    "ready_bytes sq' = ready_bytes sq - bytes_of (ready_queue (command_queues sq q))" "stalled_bytes sq' = stalled_bytes sq"
    using assms(3) by (simp_all add: queue_view_def)
  have p: "set (pending_queues sq') = ?P - {q}" using d by (simp add: v(2))
  have c: "queue_content sq' x = (if x = q then [] else queue_content sq x)" for x
    by (simp add: queue_content_def v(1) empty_queue_def)
  have "(\<Sum>x \<in> ?P - {q}. bytes_of (ready_queue (command_queues sq' x))) = (\<Sum>x \<in> ?P - {q}. bytes_of (ready_queue (command_queues sq x)))"
    "(\<Sum>x \<in> ?P - {q}. bytes_of (stalled_queue (command_queues sq' x))) = (\<Sum>x \<in> ?P - {q}. bytes_of (stalled_queue (command_queues sq x)))"
    by (auto intro!: sum.cong simp: v(1))
  then have "(\<Sum>x \<in> ?P - {q}. bytes_of (ready_queue (command_queues sq' x))) = ready_bytes sq'"
    "(\<Sum>x \<in> ?P - {q}. bytes_of (stalled_queue (command_queues sq' x))) = stalled_bytes sq'"
    using queues_okD(5,6) [OF assms(1)] assms(4)
      sum.remove [OF finite_set assms(2), of "\<lambda>x. bytes_of (ready_queue (command_queues sq x))"]
      sum.remove [OF finite_set assms(2), of "\<lambda>x. bytes_of (stalled_queue (command_queues sq x))"]
    by (simp_all add: v(3,4))
  then show ?thesis using assms(1) d c by (auto simp: queues_ok_def p v(2))
qed

lemma take_ready_view:
  assumes "ready_queue (command_queues sq cq) = qm # ms"
  shows "queue_view (take_ready cq qm sq) =
    (let c = (command_queues sq cq)\<lparr>ready_queue := ms\<rparr> in
     ((command_queues sq)(cq := c),
      if ready_queue c = [] \<and> stalled_queue c = [] then remove1 cq (pending_queues sq) else pending_queues sq,
      ready_bytes sq - qm_len qm, stalled_bytes sq))"
  using assms by (simp add: take_ready_def queue_view_def Let_def)

lemma take_ready_ok:
  assumes "queues_ok sq" "highest (command_queues sq) (pending_queues sq) MAX_CLOCK None = Some (cq, qm)"
  shows "queues_ok (take_ready cq qm sq)"
proof -
  obtain ms where q: "cq \<in> set (pending_queues sq)" "ready_queue (command_queues sq cq) = qm # ms"
    using highest_some [OF assms(2)] by auto
  let ?c = "(command_queues sq cq)\<lparr>ready_queue := ms\<rparr>"
  note v = take_ready_view [OF q(2)]
  show ?thesis
  proof (cases "ready_queue ?c = [] \<and> stalled_queue ?c = []")
    case True
    then have e: "ms = []" "stalled_queue (command_queues sq cq) = []" by simp_all
    then have c: "?c = empty_queue" by (cases "command_queues sq cq") (simp add: empty_queue_def)
    have "queue_view (take_ready cq qm sq) = ((command_queues sq)(cq := empty_queue), remove1 cq (pending_queues sq),
        ready_bytes sq - qm_len qm, stalled_bytes sq)" using v unfolding Let_def c by simp
    then show ?thesis by (intro queues_ok_drop [OF assms(1) q(1) _ e(2)]) (simp add: q(2) e(1))
  next
    case False
    have "list_all sendable (queue_content sq cq)" using assms(1) by (auto simp: queues_ok_def list_all_iff)
    then have "list_all sendable (ms @ stalled_queue (command_queues sq cq))" using q(2) by (simp add: queue_content_def)
    with False q(2) show ?thesis
      by (intro queues_ok_update [OF assms(1) q(1), of ?c]) (auto simp: v Let_def)
  qed
qed

lemma fill_block_returns:
  "queues_ok sq \<Longrightarrow> \<exists>out' sq'. fill_block out sq = Ret out' sq' \<and> queues_ok sq'"
proof (induction out sq rule: fill_block.induct)
  case (1 out sq)
  show ?case
  proof (cases "ready_bytes sq = 0")
    case True
    then show ?thesis using "1.prems" by (simp add: fill_block.simps [of out sq])
  next
    case rb: False
    then obtain cq qm where h: "highest (command_queues sq) (pending_queues sq) MAX_CLOCK None = Some (cq, qm)"
      using ready_found [OF "1.prems"] by auto
    show ?thesis
    proof (cases "int (MESSAGE_HEADER_SIZE + length out) + qm_len qm > int (MESSAGE_MAX - MESSAGE_TRAILER_SIZE)")
      case True
      then show ?thesis using "1.prems" rb h by (simp add: fill_block.simps [of out sq])
    next
      case False
      from "1.IH" [OF rb h refl False take_ready_ok [OF "1.prems" h]] rb h False show ?thesis
        by (simp add: fill_block.simps [of out sq])
    qed
  qed
qed

text \<open>What a block takes from the queues, and that nothing else is taken.\<close>

lemma fill_block_takes:
  "fill_block out sq = Ret out' sq' \<Longrightarrow>
     \<exists>ts. out' = out @ concat (map (\<lambda>t. msg_bytes (snd t)) ts) \<and>
       (\<forall>q. queue_content sq q = map snd (filter (\<lambda>t. fst t = q) ts) @ queue_content sq' q)"
proof (induction out sq rule: fill_block.induct)
  case (1 out sq)
  show ?case
  proof (cases "ready_bytes sq = 0")
    case True
    then show ?thesis using "1.prems" by (intro exI [of _ "[]"]) (simp add: fill_block.simps [of out sq])
  next
    case rb: False
    obtain cq qm where h: "highest (command_queues sq) (pending_queues sq) MAX_CLOCK None = Some (cq, qm)"
      using "1.prems" rb by (auto simp: fill_block.simps [of out sq] split: option.splits)
    obtain ms where q: "ready_queue (command_queues sq cq) = qm # ms" using highest_some [OF h] by auto
    show ?thesis
    proof (cases "int (MESSAGE_HEADER_SIZE + length out) + qm_len qm > int (MESSAGE_MAX - MESSAGE_TRAILER_SIZE)")
      case True
      then show ?thesis using "1.prems" rb h by (intro exI [of _ "[]"]) (simp add: fill_block.simps [of out sq])
    next
      case False
      then have f: "fill_block (out @ msg_bytes qm) (take_ready cq qm sq) = Ret out' sq'"
        using "1.prems" rb h by (simp add: fill_block.simps [of out sq])
      obtain ts where ts: "out' = (out @ msg_bytes qm) @ concat (map (\<lambda>t. msg_bytes (snd t)) ts)"
        "\<forall>q. queue_content (take_ready cq qm sq) q = map snd (filter (\<lambda>t. fst t = q) ts) @ queue_content sq' q"
        using "1.IH" [OF rb h refl False f] by blast
      have "queue_content sq q = (if q = cq then [qm] else []) @ queue_content (take_ready cq qm sq) q" for q
        using take_ready_view [OF q] q by (simp add: queue_content_def queue_view_def Let_def)
      then show ?thesis using ts by (intro exI [of _ "(cq, qm) # ts"]) simp
    qed
  qed
qed

section \<open>Sending\<close>

lemma unstall_moves:
  "unstall a cq st b ms = (cq', b', ms') \<Longrightarrow>
     ready_queue cq' @ stalled_queue cq' = ready_queue cq @ st \<and>
     bytes_of (ready_queue cq') = bytes_of (ready_queue cq) + (b' - b) \<and>
     bytes_of (stalled_queue cq') = bytes_of st - (b' - b)"
  by (induction a cq st b ms rule: unstall.induct) (auto split: if_splits)

lemma scan_pending_moves:
  "scan_pending d a qs ms mr sq = (ms', mr', sq') \<Longrightarrow> queues_ok sq \<Longrightarrow> set qs \<subseteq> set (pending_queues sq) \<Longrightarrow>
     queues_ok sq' \<and> queue_content sq' = queue_content sq"
proof (induction d a qs ms mr sq rule: scan_pending.induct)
  case (2 d a q qs ms mr sq)
  obtain cq bytes ms1 where u: "unstall a (command_queues sq q) (stalled_queue (command_queues sq q)) 0 ms = (cq, bytes, ms1)"
    by (metis prod_cases3)
  define s1 where "s1 = sq\<lparr>command_queues := (command_queues sq)(q := cq),
      stalled_bytes := stalled_bytes sq - bytes, ready_bytes := ready_bytes sq + bytes\<rparr>"
  note m = unstall_moves [OF u]
  then have c: "ready_queue cq @ stalled_queue cq = queue_content sq q" by (simp add: queue_content_def)
  have "list_all sendable (queue_content sq q)" "queue_content sq q \<noteq> []"
    using "2.prems"(2,3) by (auto simp: queues_ok_def list_all_iff)
  then have ok: "queues_ok s1" using m "2.prems"(3)
    by (intro queues_ok_update [OF "2.prems"(2), of q cq]) (auto simp: c queue_view_def s1_def)
  have eq: "queue_content s1 = queue_content sq"
    using c by (auto simp: queue_content_def s1_def fun_eq_iff)
  have p: "pending_queues s1 = pending_queues sq" by (simp add: s1_def)
  from "2.prems"(1) have "scan_pending d a qs ms1
      (case ready_queue cq of [] \<Rightarrow> mr | qm # _ \<Rightarrow>
         let bgoffset = d_add d (MIN_REQTIME_DELTA d) (MIN_BACKGROUND_DELTA d);
             req = (if req_clock qm = BACKGROUND_PRIORITY_CLOCK
                    then clock_from_time d (ce s1) (d_add d (idle_time s1) bgoffset) else req_clock qm)
         in if req < mr then req else mr) s1 = (ms', mr', sq')"
    unfolding scan_pending.simps u Let_def prod.case s1_def .
  from "2.IH" [OF refl u [symmetric] refl s1_def refl this ok] show ?case using "2.prems"(3) eq p by simp
qed simp

lemma check_send_moves:
  assumes "check_send_command d t sq = (w, sq')" "queues_ok sq"
  shows "queues_ok sq' \<and> queue_content sq' = queue_content sq"
proof (cases "must_wait_for_ack sq")
  case True
  then show ?thesis using assms by (auto simp: check_send_command_def)
next
  case False
  define a where "a = clock_from_time d (ce sq) (d_add d (if d_less d (idle_time sq) t then t else idle_time sq)
    (d_mul d (d_of_int d (int MESSAGE_MIN)) (baud_adjust sq)))"
  obtain m1 m2 s1 where s1: "scan_pending d a (pending_queues sq) MAX_CLOCK MAX_CLOCK sq = (m1, m2, s1)" by (metis prod_cases3)
  have "sq' = s1 \<or> (\<exists>k. sq' = s1\<lparr>need_kick_clock := k\<rparr>)"
    using assms(1) False s1 by (auto simp: check_send_command_def Let_def a_def split: if_splits)
  then have "queue_view sq' = queue_view s1" by (auto simp: queue_view_def)
  then show ?thesis
    using scan_pending_moves [OF s1 assms(2)] queues_ok_cong queue_content_view by (metis order_refl)
qed

lemma write_blocks_view: "queue_view (write_blocks buf sq) = queue_view sq"
  by (simp add: write_blocks_def do_write_def do_io_def queue_view_def)

text \<open>\<open>fill_block\<close> and the rest of \<open>build_and_send_command\<close>\<close>

lemma build_and_send_takes:
  assumes "queues_ok sq"
  shows "\<exists>sq' ts. build_and_send_command d t sq =
      Ret (frame_block (wire_seq (send_seq sq)) (concat (map (\<lambda>t. msg_bytes (snd t)) ts))) sq' \<and>
    queues_ok sq' \<and> (\<forall>q. queue_content sq q = map snd (filter (\<lambda>t. fst t = q) ts) @ queue_content sq' q)"
proof -
  obtain out s1 where f: "fill_block [] sq = Ret out s1" "queues_ok s1" using fill_block_returns [OF assms] by blast
  obtain ts where ts: "out = concat (map (\<lambda>t. msg_bytes (snd t)) ts)"
    "\<forall>q. queue_content sq q = map snd (filter (\<lambda>t. fst t = q) ts) @ queue_content s1 q"
    using fill_block_takes [OF f(1)] by auto
  have s: "send_seq s1 = send_seq sq" using fill_block_core [OF f(1)] by (simp add: core_def)
  have "length out \<le> MESSAGE_PAYLOAD_MAX" using fill_block_length [OF f(1)] by simp
  then obtain qm where q: "message_fill (finish_block out (send_seq sq)) = Some qm"
    by (simp add: message_fill_def message_alloc_def finish_block_frame length_frame_block message_consts Let_def)
  obtain sq' where b: "build_and_send_command d t sq = Ret (finish_block out (send_seq sq)) sq'" "queue_view sq' = queue_view s1"
    using f q s by (simp add: build_and_send_command_def Let_def queue_view_def pollreactor_update_timer_def)
  show ?thesis
    using b ts queues_ok_cong [OF b(2) f(2)] queue_content_view [OF b(2)] by (auto simp: finish_block_frame)
qed

lemma write_blocks_keeps:
  "queue_content (write_blocks buf sq) = queue_content sq" "queues_ok sq \<Longrightarrow> queues_ok (write_blocks buf sq)"
  using queue_content_view [OF write_blocks_view] queues_ok_cong [OF write_blocks_view] by auto

text \<open>
  The loop ends: each turn adds a block to the window. The lists of messages that the blocks carry, with the
  queues they come from, are \<open>tss\<close>.
\<close>

definition carries :: "(nat \<times> 'd timed_message) list list \<Rightarrow> 'd serialqueue \<Rightarrow> 'd serialqueue \<Rightarrow> bool" where
  "carries tss sq sq' \<longleftrightarrow>
     map (block_payload \<circ> msg_bytes) (drop (length (sent_queue sq)) (sent_queue sq')) =
       map (\<lambda>ts. concat (map (\<lambda>t. msg_bytes (snd t)) ts)) tss \<and>
     (\<forall>q. queue_content sq q = map snd (filter (\<lambda>t. fst t = q) (concat tss)) @ queue_content sq' q)"

lemma command_loop_sends:
  assumes "never_is_not_now d" "r \<noteq> - 1"
  shows "queues_ok sq \<Longrightarrow> core sq = (r, r + of_nat (length q), q) \<Longrightarrow> length q \<le> MAX_PENDING_BLOCKS \<Longrightarrow>
      MAX_PENDING_BLOCKS - length q < fuel \<Longrightarrow>
    \<exists>w sq' q' tss. command_loop fuel d t buf sq = Ret w sq' \<and> queues_ok sq' \<and>
      core sq' = (r, r + of_nat (length (q @ q')), q @ q') \<and> length (q @ q') \<le> MAX_PENDING_BLOCKS \<and> carries tss sq sq'"
proof (induction fuel arbitrary: buf sq q)
  case (Suc fuel)
  obtain w1 s1 where c: "check_send_command d t sq = (w1, s1)" by fastforce
  note m = check_send_moves [OF c Suc.prems(1)]
  have s1: "core s1 = core sq" using c check_send_core [of d t sq] by simp
  show ?case
  proof (cases "d_eq d w1 (PR_NOW d)")
    case False
    have v: "queues_ok (write_blocks buf s1)" "queue_content (write_blocks buf s1) = queue_content sq"
      "core (write_blocks buf s1) = core sq"
      using m s1 by (simp_all add: do_write_core write_blocks_keeps)
    then have "carries [] sq (write_blocks buf s1)" by (simp add: carries_def core_def)
    then show ?thesis using False c v Suc.prems(2,3)
      by (intro exI [of _ w1] exI [of _ "write_blocks buf s1"] exI [of _ "[]"]) simp
  next
    case True
    have "\<not> must_wait_for_ack sq" using check_send_not_waiting [OF assms(1) c True] .
    then have "(of_nat (length q) :: u64) < 12"
      using Suc.prems(2) assms(2) by (auto simp: must_wait_for_ack_def core_def MAX_PENDING_BLOCKS_def not_le)
    then have l: "length q < MAX_PENDING_BLOCKS"
      using Suc.prems(3) by (auto simp: MAX_PENDING_BLOCKS_def word_less_nat_alt unat_of_nat)
    obtain buf2 s2 where b: "(if length buf + MESSAGE_MAX > MESSAGE_MAX * MAX_PENDING_BLOCKS
        then ([], write_blocks buf s1) else (buf, s1)) = (buf2, s2)" by fastforce
    then have s2: "queues_ok s2" "queue_content s2 = queue_content sq" "core s2 = core sq"
      using m s1 by (auto simp: do_write_core write_blocks_keeps split: if_splits)
    obtain s3 ts where bs: "build_and_send_command d t s2 =
        Ret (frame_block (wire_seq (send_seq s2)) (concat (map (\<lambda>t. msg_bytes (snd t)) ts))) s3" "queues_ok s3"
      "\<forall>q. queue_content s2 q = map snd (filter (\<lambda>t. fst t = q) ts) @ queue_content s3 q"
      using build_and_send_takes [OF s2(1)] by blast
    obtain p qm where p: "msg_bytes qm = frame_block (wire_seq (send_seq s2)) (concat (map (\<lambda>t. msg_bytes (snd t)) ts))"
      "core s3 = (receive_seq s2, send_seq s2 + 1, sent_queue s2 @ [qm])"
      using build_and_send_core [OF bs(1)] by auto
    have c3: "core s3 = (r, r + of_nat (length (q @ [qm])), q @ [qm])"
      using p(2) s2(3) Suc.prems(2) by (simp add: core_def add.commute add.left_commute)
    have f: "length (q @ [qm]) \<le> MAX_PENDING_BLOCKS" "MAX_PENDING_BLOCKS - length (q @ [qm]) < fuel"
      using l Suc.prems(4) by simp_all
    obtain w sq' q' tss where i: "command_loop fuel d t (buf2 @ frame_block (wire_seq (send_seq s2))
          (concat (map (\<lambda>t. msg_bytes (snd t)) ts))) s3 = Ret w sq'" "queues_ok sq'"
      "core sq' = (r, r + of_nat (length ((q @ [qm]) @ q')), (q @ [qm]) @ q')"
      "length ((q @ [qm]) @ q') \<le> MAX_PENDING_BLOCKS" "carries tss s3 sq'"
      using Suc.IH [OF bs(2) c3 f] by blast
    have q: "sent_queue sq = q" "sent_queue s3 = q @ [qm]" "sent_queue sq' = q @ qm # q'"
      using Suc.prems(2) c3 i(3) by (simp_all add: core_def)
    have "carries (ts # tss) sq sq'"
      using i(5) bs(3) s2(2) p(1) by (simp add: carries_def q)
    then show ?thesis using i b c True bs(1)
      by (intro exI [of _ w] exI [of _ sq'] exI [of _ "qm # q'"] exI [of _ "ts # tss"]) (simp add: Let_def)
  qed
qed simp

text \<open>
  C16: \<open>command_event\<close> always comes to an end and never finds a queue without the message that
  the byte counts promise: with well formed queues and an open window it returns with well formed
  queues and at most 12 blocks in the window, the new blocks carry whole messages, and from each
  command queue exactly the messages at its front were taken, in their order.
\<close>

theorem command_event_sends_in_order:
  assumes "never_is_not_now d" "queues_ok sq" "core sq = (r, r + of_nat (length q), q)" "r \<noteq> - 1"
    and "length q \<le> MAX_PENDING_BLOCKS"
  shows "\<exists>w sq' q' tss. command_event d t sq = Ret w sq' \<and> queues_ok sq' \<and>
    core sq' = (r, r + of_nat (length (q @ q')), q @ q') \<and> length (q @ q') \<le> MAX_PENDING_BLOCKS \<and>
    map (block_payload \<circ> msg_bytes) q' = map (\<lambda>ts. concat (map (\<lambda>t. msg_bytes (snd t)) ts)) tss \<and>
    (\<forall>k. queue_content sq k = map snd (filter (\<lambda>t. fst t = k) (concat tss)) @ queue_content sq' k)"
proof -
  have "MAX_PENDING_BLOCKS - length q < MAX_PENDING_BLOCKS + 1 + queued_on sq" by simp
  from command_loop_sends [OF assms(1,4,2,3,5) this, of t "[]"] obtain w sq' q' tss
    where i: "command_event d t sq = Ret w sq'" "queues_ok sq'"
    "core sq' = (r, r + of_nat (length (q @ q')), q @ q')" "length (q @ q') \<le> MAX_PENDING_BLOCKS" "carries tss sq sq'"
    unfolding command_event_def by blast
  moreover have "drop (length (sent_queue sq)) (sent_queue sq') = q'" using assms(3) i(3) by (simp add: core_def)
  ultimately show ?thesis by (simp add: carries_def) blast
qed

section \<open>Queueing\<close>

lemma raise_min_clock_fields:
  "qm_len (raise_min_clock qm) = qm_len qm" "req_clock (raise_min_clock qm) = req_clock qm"
  "msg_bytes (raise_min_clock qm) = msg_bytes qm" "sendable (raise_min_clock qm) = sendable qm"
  by (simp_all add: raise_min_clock_def msg_bytes_def sendable_def)

lemma queues_ok_alloc: "queues_ok (serialqueue_alloc d clock fd_type client)"
  by (simp add: queues_ok_def queue_content_def serialqueue_alloc_def pollreactor.extend_def pollreactor_alloc_def)

lemma queues_ok_append:
  assumes "queues_ok sq" "list_all sendable ms" "ms \<noteq> []"
    and "queue_view sq' = ((command_queues sq)(q := (command_queues sq q)\<lparr>stalled_queue := stalled_queue (command_queues sq q) @ ms\<rparr>),
      if queue_content sq q = [] then pending_queues sq @ [q] else pending_queues sq, ready_bytes sq, stalled_bytes sq + bytes_of ms)"
  shows "queues_ok sq'" "queue_content sq' q = queue_content sq q @ ms"
    "x \<noteq> q \<Longrightarrow> queue_content sq' x = queue_content sq x"
proof -
  have v: "command_queues sq' = (command_queues sq)(q := (command_queues sq q)\<lparr>stalled_queue := stalled_queue (command_queues sq q) @ ms\<rparr>)"
    "pending_queues sq' = (if queue_content sq q = [] then pending_queues sq @ [q] else pending_queues sq)"
    "ready_bytes sq' = ready_bytes sq" "stalled_bytes sq' = stalled_bytes sq + bytes_of ms"
    using assms(4) by (simp_all add: queue_view_def)
  have c: "queue_content sq' x = (if x = q then queue_content sq q @ ms else queue_content sq x)" for x
    by (simp add: queue_content_def v(1))
  then show "queue_content sq' q = queue_content sq q @ ms" "x \<noteq> q \<Longrightarrow> queue_content sq' x = queue_content sq x" by simp_all
  let ?P = "set (pending_queues sq)"
  have p: "set (pending_queues sq') = insert q ?P" "distinct (pending_queues sq')"
    using queues_okD(1,2) [OF assms(1)] by (auto simp: v(2))
  have n: "q \<notin> ?P \<Longrightarrow> ready_queue (command_queues sq q) = [] \<and> stalled_queue (command_queues sq q) = []"
    using queues_okD(2) [OF assms(1)] by (simp add: queue_content_def)
  have f: "(\<lambda>x. bytes_of (stalled_queue (command_queues sq' x))) =
      (\<lambda>x. bytes_of (stalled_queue (command_queues sq x))) (q := bytes_of (stalled_queue (command_queues sq q)) + bytes_of ms)"
    "(\<lambda>x. bytes_of (ready_queue (command_queues sq' x))) = (\<lambda>x. bytes_of (ready_queue (command_queues sq x)))"
    by (auto simp: v(1))
  have ins: "(\<Sum>x \<in> insert q ?P. bytes_of (ready_queue (command_queues sq x))) = ready_bytes sq"
    "(\<Sum>x \<in> insert q ?P. bytes_of (stalled_queue (command_queues sq x))) = stalled_bytes sq"
    using queues_okD(5,6) [OF assms(1)] n by (cases "q \<in> ?P"; simp add: insert_absorb)+
  have "(\<Sum>x \<in> insert q ?P. bytes_of (stalled_queue (command_queues sq' x))) = stalled_bytes sq'"
    unfolding f(1) v(4) by (subst sum_upd) (simp_all add: ins)
  moreover have "(\<Sum>x \<in> insert q ?P. bytes_of (ready_queue (command_queues sq' x))) = ready_bytes sq'"
    unfolding f(2) v(3) by (rule ins)
  moreover have "(queue_content sq' x \<noteq> []) = (x \<in> insert q ?P)" for x
    using queues_okD(2) [OF assms(1)] assms(3) by (simp add: c)
  moreover have "\<forall>m \<in> set (queue_content sq' x). sendable m" for x
    using assms(1,2) by (auto simp: c queues_ok_def list_all_iff)
  ultimately show "queues_ok sq'" using p by (simp add: queues_ok_def)
qed

text \<open>
  \<open>serialqueue_send_batch\<close> keeps the byte counts and the list of pending queues in step with
  the command queues, appends the messages to their queue, and touches neither another queue nor the
  window of blocks.
\<close>

theorem send_batch_appends:
  assumes "queues_ok sq" "list_all sendable msgs"
  shows "queues_ok (serialqueue_send_batch q msgs sq) \<and> core (serialqueue_send_batch q msgs sq) = core sq \<and>
    (\<forall>k. map msg_bytes (queue_content (serialqueue_send_batch q msgs sq) k) =
      map msg_bytes (queue_content sq k) @ (if k = q then map msg_bytes msgs else []))"
proof -
  let ?m = "map raise_min_clock msgs"
  have c: "core (serialqueue_send_batch q msgs sq) = core sq"
    by (simp add: serialqueue_send_batch_def Let_def kick_bg_thread_def do_io_def core_def)
  have len: "sum_list (map qm_len ?m) = bytes_of msgs" by (simp add: bytes_of_def raise_min_clock_fields comp_def)
  have s: "list_all sendable ?m" using assms(2) by (simp add: list_all_iff raise_min_clock_fields)
  have mb: "map msg_bytes ?m = map msg_bytes msgs" by (simp add: raise_min_clock_fields comp_def)
  show ?thesis
  proof (cases "msgs = []")
    case True
    then show ?thesis using assms(1) c by (simp add: serialqueue_send_batch_def Let_def)
  next
    case False
    then have "bytes_of msgs \<noteq> 0" using bytes_of_pos [OF assms(2)] by auto
    then have "queue_view (serialqueue_send_batch q msgs sq) =
      ((command_queues sq)(q := (command_queues sq q)\<lparr>stalled_queue := stalled_queue (command_queues sq q) @ ?m\<rparr>),
      if queue_content sq q = [] then pending_queues sq @ [q] else pending_queues sq, ready_bytes sq, stalled_bytes sq + bytes_of ?m)"
      using len by (simp add: serialqueue_send_batch_def Let_def queue_view_def kick_bg_thread_def do_io_def queue_content_def bytes_of_def)
    from queues_ok_append [OF assms(1) s _ this] False mb c show ?thesis by simp
  qed
qed

section \<open>Receiving\<close>

lemma input_loop_returns: "\<exists>sq'. input_loop d t sq = Ret () sq' \<and> length (input_buf sq') < MESSAGE_MAX"
proof (induction d t sq rule: input_loop.induct)
  case (1 d t sq)
  obtain r ns where c: "msgblock_check (sq_need_sync sq) (input_buf sq) = (r, ns)" by fastforce
  define s1 where "s1 = sq\<lparr>sq_need_sync := ns\<rparr>"
  show ?case
  proof (cases "r = 0")
    case True
    then show ?thesis using c msgblock_check_zero [of "sq_need_sync sq" "input_buf sq" ns]
      by (subst input_loop.simps) (simp add: Let_def)
  next
    case False
    have "\<exists>s2. (if r > 0 then handle_message d t (take (nat r) (input_buf sq)) s1
        else Ret () (s1\<lparr>bytes_invalid := bytes_invalid s1 + of_int (- r)\<rparr>)) = Ret () s2"
    proof (cases "r > 0")
      case True
      then have "length (take (nat r) (input_buf sq)) \<le> MESSAGE_MAX"
        using msgblock_check_pos [OF c] is_block_length by blast
      then show ?thesis using handle_message_returns True by (simp only: if_True)
    qed simp
    then obtain s2 where s2: "(if r > 0 then handle_message d t (take (nat r) (input_buf sq)) s1
        else Ret () (s1\<lparr>bytes_invalid := bytes_invalid s1 + of_int (- r)\<rparr>)) = Ret () s2" ..
    have ib: "input_buf s1 = input_buf sq" by (simp add: s1_def)
    have "\<exists>sq'. input_loop d t (s2\<lparr>input_buf := drop (nat \<bar>r\<bar>) (input_buf s2)\<rparr>) = Ret () sq' \<and>
        length (input_buf sq') < MESSAGE_MAX"
      by (rule "1.IH" [OF c [symmetric] refl s1_def False]) (use s2 in \<open>simp only: ib\<close>)
    moreover have "input_loop d t sq = andThen (if r > 0 then handle_message d t (take (nat r) (input_buf sq)) s1
        else Ret () (s1\<lparr>bytes_invalid := bytes_invalid s1 + of_int (- r)\<rparr>))
      (\<lambda>_ sq. input_loop d t (sq\<lparr>input_buf := drop (nat \<bar>r\<bar>) (input_buf sq)\<rparr>))"
      by (subst input_loop.simps) (simp only: c Let_def prod.case False if_False s1_def [symmetric] ib)
    ultimately show ?thesis by (simp only: s2 andThen.simps)
  qed
qed

definition read_fits :: "read_result \<Rightarrow> 'd serialqueue \<Rightarrow> bool" where
  "read_fits r sq \<longleftrightarrow>
     (case r of Read_bytes data \<Rightarrow> length data \<le> INPUT_BUF_SIZE - length (input_buf sq)
              | Read_can can_id data \<Rightarrow> length data \<le> 8 | _ \<Rightarrow> True)"

text \<open>
  C17: \<open>input_event\<close> returns for every content of a read, without overrunning a message or the
  input buffer, and leaves less than one block in it, so that the next read always has room.
\<close>

theorem input_event_returns:
  assumes "length (input_buf sq) < MESSAGE_MAX" "read_fits r sq"
  shows "\<exists>sq'. input_event d r t sq = Ret () sq' \<and> length (input_buf sq') < MESSAGE_MAX"
proof -
  have "\<exists>sq'. input_loop d t (sq\<lparr>input_buf := buf\<rparr>) = Ret () sq' \<and> length (input_buf sq') < MESSAGE_MAX" for buf
    by (rule input_loop_returns)
  then show ?thesis
    using assms by (cases r) (auto simp: input_event_def Let_def read_fits_def INPUT_BUF_SIZE_def message_consts pollreactor_do_exit_def)
qed

section \<open>Examples\<close>

lemma link_host_queues: "queues_ok link_host" "core link_host = (17, 17, [])"
  by (auto simp: queues_ok_def queue_content_def link_eval sendable_def pollreactor_alloc_def bytes_of_def core_def)

theorem command_event_sends_in_order_witness:
  "\<exists>w sq' tss. command_event fixed_point 0 link_host = Ret w sq' \<and>
     map msg_bytes (queue_content link_host 0) =
       map msg_bytes (map snd (filter (\<lambda>t. fst t = (0 :: nat)) (concat tss)) @ queue_content sq' 0)"
proof -
  have c: "core link_host = (17, 17 + of_nat (length []), [])" using link_host_queues(2) by simp
  have b: "(17 :: u64) \<noteq> - 1" "length ([] :: int timed_message list) \<le> MAX_PENDING_BLOCKS" by simp_all
  from command_event_sends_in_order [OF link_example_start(2) link_host_queues(1) c b, of 0]
  show ?thesis
  proof (elim exE conjE)
    fix w sq' q' tss
    assume "command_event fixed_point 0 link_host = Ret w sq'"
      "\<forall>k. queue_content link_host k = map snd (filter (\<lambda>t. fst t = k) (concat tss)) @ queue_content sq' k"
    then show ?thesis by (intro exI [of _ w] exI [of _ sq'] exI [of _ tss]) simp
  qed
qed

theorem send_batch_appends_witness:
  "\<exists>sq :: int serialqueue. queues_ok sq \<and> map msg_bytes (queue_content sq 3) = [[7, 1]]"
proof -
  let ?m = "timed fixed_point (message_alloc\<lparr>qm_len := 2, qm_msg := [7, 1] @ replicate 62 0\<rparr>)"
  have "list_all sendable [?m]" "msg_bytes ?m = [7, 1]"
    by (simp_all add: sendable_def timed_def queue_message.extend_def message_alloc_def message_consts MAX_CLOCK_def msg_bytes_def)
  then show ?thesis
    using send_batch_appends [OF queues_ok_alloc [of fixed_point "\<lambda>_. 0" SQT_UART 0], of "[?m]" 3]
    by (auto simp: queue_content_def serialqueue_alloc_def pollreactor.extend_def)
qed

theorem input_event_returns_witness:
  "\<exists>sq'. input_event fixed_point (Read_bytes [5, 0x12, 0x5d, 0x3e, 0x7e]) 0 link_host = Ret () sq' \<and>
     length (input_buf sq') < MESSAGE_MAX"
proof -
  have e: "input_buf link_host = []" by (simp add: link_eval)
  show ?thesis by (rule input_event_returns) (simp_all add: e read_fits_def INPUT_BUF_SIZE_def message_consts)
qed

end
