(* ===== verification/Trdispatch.thy ===== *)
theory Trdispatch
  imports Serial_Flow
begin

text \<open>
  \<open>klippy/chelper/trdispatch.c\<close>: homing with several micro-controllers. Each of them has a trigger
  object (\<open>trsync\<close>) and reports to the host that it still waits; the host moves the timeouts of all
  the others forward, and as soon as one reports its trigger it makes all of them trigger. The state
  is one \<open>struct trdispatch\<close> with its micro-controllers and the serial queues they are reached by.
  A call is one step: it runs with \<open>td->lock\<close> held.
\<close>

section \<open>Data\<close>

text \<open>
  \<open>tm_sq\<close> and \<open>tm_cq\<close> are the numbers of the serial queue and of a command queue of it; the fast
  reader with \<open>fr_func = i\<close> is \<open>handle_trsync_state\<close> of the \<open>i\<close>th \<open>struct trdispatch_mcu\<close>.
\<close>

record 'd trdispatch_mcu =
  tm_fr :: fastreader
  tm_sq :: nat
  tm_cq :: nat
  tm_trsync_oid :: u32
  set_timeout_msgtag :: u32
  trigger_msgtag :: u32
  last_status_clock :: u64
  expire_clock :: u64
  expire_ticks :: u64
  min_extend_ticks :: u64
  tm_ce :: "'d clock_estimate"

record 'd trdispatch =
  tdm_list :: "nat list"
  td_is_active :: bool
  td_can_trigger :: bool
  dispatch_reason :: u32
  tdm :: "nat \<Rightarrow> 'd trdispatch_mcu"
  sqs :: "nat \<Rightarrow> 'd serialqueue"

definition upd_tdm :: "nat \<Rightarrow> ('d trdispatch_mcu \<Rightarrow> 'd trdispatch_mcu) \<Rightarrow> 'd trdispatch \<Rightarrow> 'd trdispatch" where
  "upd_tdm i f td = td\<lparr>tdm := (tdm td)(i := f (tdm td i))\<rparr>"

definition upd_sq :: "nat \<Rightarrow> ('d serialqueue \<Rightarrow> 'd serialqueue) \<Rightarrow> 'd trdispatch \<Rightarrow> 'd trdispatch" where
  "upd_sq q f td = td\<lparr>sqs := (sqs td)(q := f (sqs td q))\<rparr>"

section \<open>Translation\<close>

text \<open>\<open>clock_to_time\<close> of \<open>msgblock.c\<close>\<close>

definition clock_to_time :: "'d double_ops \<Rightarrow> 'd clock_estimate \<Rightarrow> u64 \<Rightarrow> 'd" where
  "clock_to_time d est clock =
     d_add d (conv_time est) (d_div d (d_of_int d (sint (clock - conv_clock est))) (est_freq est))"

definition trsync_trigger_msg :: "'d double_ops \<Rightarrow> 'd trdispatch_mcu \<Rightarrow> u32 \<Rightarrow> 'd timed_message" where
  "trsync_trigger_msg d m reason =
     timed d (message_alloc_and_encode [trigger_msgtag m, tm_trsync_oid m, reason])"

definition send_trsync_trigger :: "'d double_ops \<Rightarrow> nat \<Rightarrow> 'd trdispatch \<Rightarrow> 'd trdispatch" where
  "send_trsync_trigger d i td =
     (let m = tdm td i
      in upd_sq (tm_sq m) (serialqueue_send_one (tm_cq m) (trsync_trigger_msg d m (dispatch_reason td))) td)"

definition set_timeout_msg :: "'d double_ops \<Rightarrow> 'd trdispatch_mcu \<Rightarrow> 'd timed_message" where
  "set_timeout_msg d m =
     (timed d (message_alloc_and_encode [set_timeout_msgtag m, tm_trsync_oid m, ucast (expire_clock m)]))
       \<lparr>req_clock := expire_clock m\<rparr>"

definition send_trsync_set_timeout :: "'d double_ops \<Rightarrow> nat \<Rightarrow> 'd trdispatch \<Rightarrow> 'd trdispatch" where
  "send_trsync_set_timeout d i td =
     (let m = tdm td i
      in upd_sq (tm_sq m) (serialqueue_send_one (tm_cq m) (set_timeout_msg d m)) td)"

text \<open>\<open>Determine minimum acknowledged time\<close>: the least time, the least but one, and whose the least is.\<close>

fun min_times :: "'d double_ops \<Rightarrow> (nat \<Rightarrow> 'd) \<Rightarrow> nat list \<Rightarrow> 'd \<Rightarrow> 'd \<Rightarrow> nat option \<Rightarrow> 'd \<times> 'd \<times> nat option" where
  "min_times d st [] min_time next_min_time min_tdm = (min_time, next_min_time, min_tdm)"
| "min_times d st (m # ms) min_time next_min_time min_tdm =
     (if d_less d (st m) next_min_time then
        if d_less d (st m) min_time then min_times d st ms (st m) min_time (Some m)
        else min_times d st ms min_time (st m) min_tdm
      else min_times d st ms min_time next_min_time min_tdm)"

text \<open>
  The loop that sends the timeouts. In C the \<open>int64_t\<close> difference is converted to the type of
  \<open>min_extend_ticks\<close>, so the comparison is unsigned.
\<close>

primrec extend_timeouts ::
    "'d double_ops \<Rightarrow> 'd \<Rightarrow> 'd \<Rightarrow> nat option \<Rightarrow> nat list \<Rightarrow> 'd trdispatch \<Rightarrow> 'd trdispatch" where
  "extend_timeouts d min_time next_min_time min_tdm [] td = td"
| "extend_timeouts d min_time next_min_time min_tdm (i # ms) td =
     (let m = tdm td i;
          time = (if Some i = min_tdm then next_min_time else min_time);
          expire = clock_from_time d (tm_ce m) time + expire_ticks m;
          td = (if expire - expire_clock m \<ge> min_extend_ticks m
                then send_trsync_set_timeout d i (upd_tdm i (\<lambda>m. m\<lparr>expire_clock := expire\<rparr>) td)
                else td)
      in extend_timeouts d min_time next_min_time min_tdm ms td)"

text \<open>\<open>update last_status_clock\<close>\<close>

definition update_status :: "nat \<Rightarrow> u32 \<Rightarrow> 'd trdispatch \<Rightarrow> 'd trdispatch" where
  "update_status i clock td =
     (let td = upd_tdm i (\<lambda>m. m\<lparr>tm_ce := serialqueue_get_clock_est (sqs td (tm_sq m))\<rparr>) td
      in upd_tdm i (\<lambda>m. m\<lparr>last_status_clock := clock_from_clock32 (last_clock (tm_ce m)) clock\<rparr>) td)"

definition status_time :: "'d double_ops \<Rightarrow> 'd trdispatch \<Rightarrow> nat \<Rightarrow> 'd" where
  "status_time d td m = clock_to_time d (tm_ce (tdm td m)) (last_status_clock (tdm td m))"

definition handle_trsync_state ::
    "'d double_ops \<Rightarrow> nat \<Rightarrow> u8 list \<Rightarrow> 'd trdispatch \<Rightarrow> (unit, 'd trdispatch) outcome" where
  "handle_trsync_state d i block td =
     (case msgblock_decode 5 block (length block) of
        None \<Rightarrow> Fault
      | Some (ret, fs) \<Rightarrow>
          if ret \<noteq> 0 \<or> fs ! 1 \<noteq> tm_trsync_oid (tdm td i) then Ret () td
          else
            let can_trigger = fs ! 2; clock = fs ! 4 in
            if \<not> td_can_trigger td then Ret () td
            else if can_trigger = 0 then
              Ret () (foldl (\<lambda>td m. send_trsync_trigger d m td) (td\<lparr>td_can_trigger := False\<rparr>) (tdm_list td))
            else
              let td = update_status i clock td;
                  (min_time, next_min_time, min_tdm) =
                    min_times d (status_time d td) (tdm_list td) (PR_NEVER d) (PR_NEVER d) None;
                  next_min_time = (if d_eq d next_min_time (PR_NEVER d) then min_time else next_min_time)
              in Ret () (extend_timeouts d min_time next_min_time min_tdm (tdm_list td) td))"

definition trdispatch_start :: "u32 \<Rightarrow> 'd trdispatch \<Rightarrow> 'd trdispatch" where
  "trdispatch_start reason td =
     (if td_is_active td \<or> tdm_list td = [] then td
      else
        let td = td\<lparr>dispatch_reason := reason, td_is_active := True, td_can_trigger := True\<rparr>
        in foldl (\<lambda>td i. upd_sq (tm_sq (tdm td i)) (serialqueue_add_fastreader (tm_fr (tdm td i))) td) td (tdm_list td))"

definition trdispatch_stop :: "'d trdispatch \<Rightarrow> 'd trdispatch" where
  "trdispatch_stop td =
     (if \<not> td_is_active td then td
      else
        let td = td\<lparr>td_is_active := False\<rparr>
        in foldl (\<lambda>td i. upd_sq (tm_sq (tdm td i)) (serialqueue_rm_fastreader (tm_fr (tdm td i))) td) td (tdm_list td))"

text \<open>The memory of a new object is given: a fresh one, or the number of a micro-controller not in use.\<close>

definition trdispatch_alloc :: "(nat \<Rightarrow> 'd trdispatch_mcu) \<Rightarrow> (nat \<Rightarrow> 'd serialqueue) \<Rightarrow> 'd trdispatch" where
  "trdispatch_alloc mem queues =
     \<lparr>tdm_list = [], td_is_active = False, td_can_trigger = False, dispatch_reason = 0, tdm = mem, sqs = queues\<rparr>"

definition tdm_zero :: "'d double_ops \<Rightarrow> 'd trdispatch_mcu" where
  "tdm_zero d =
     \<lparr>tm_fr = \<lparr>fr_func = 0, fr_prefix = []\<rparr>, tm_sq = 0, tm_cq = 0, tm_trsync_oid = 0, set_timeout_msgtag = 0,
      trigger_msgtag = 0, last_status_clock = 0, expire_clock = 0, expire_ticks = 0, min_extend_ticks = 0,
      tm_ce = \<lparr>last_clock = 0, conv_clock = 0, conv_time = d_zero d, est_freq = d_zero d\<rparr>\<rparr>"

definition trdispatch_mcu_alloc ::
    "'d double_ops \<Rightarrow> nat \<Rightarrow> nat \<Rightarrow> nat \<Rightarrow> u32 \<Rightarrow> u32 \<Rightarrow> u32 \<Rightarrow> u32 \<Rightarrow> 'd trdispatch \<Rightarrow> 'd trdispatch" where
  "trdispatch_mcu_alloc d i sq cq trsync_oid set_timeout_tag trigger_tag state_tag td =
     (let dummy = message_alloc_and_encode [state_tag, trsync_oid];
          m = (tdm_zero d)\<lparr>tm_sq := sq, tm_cq := cq, tm_trsync_oid := trsync_oid,
                set_timeout_msgtag := set_timeout_tag, trigger_msgtag := trigger_tag,
                tm_fr := \<lparr>fr_func = i, fr_prefix = msg_bytes dummy\<rparr>\<rparr>
      in td\<lparr>tdm := (tdm td)(i := m), tdm_list := tdm_list td @ [i]\<rparr>)"

definition trdispatch_mcu_setup ::
    "nat \<Rightarrow> u64 \<Rightarrow> u64 \<Rightarrow> u64 \<Rightarrow> u64 \<Rightarrow> 'd trdispatch \<Rightarrow> 'd trdispatch" where
  "trdispatch_mcu_setup i status_clock expire ticks min_extend td =
     upd_tdm i (\<lambda>m. m\<lparr>last_status_clock := status_clock, expire_clock := expire, expire_ticks := ticks,
       min_extend_ticks := min_extend, tm_ce := serialqueue_get_clock_est (sqs td (tm_sq m))\<rparr>) td"

section \<open>What is sent\<close>

text \<open>All the messages on a command queue of a serial queue, in the order they will be sent.\<close>

definition queued_for :: "'d trdispatch \<Rightarrow> nat \<Rightarrow> nat \<Rightarrow> 'd timed_message list" where
  "queued_for td q cq = queue_content (sqs td q) cq"

lemma encode_int_ne: "encode_int v \<noteq> []"
  using length_encode_int(1) [of v] by auto

lemma encoded_len_pos:
  assumes "data \<noteq> []" "length (concat (map encode_int data)) \<le> MESSAGE_PAYLOAD_MAX"
  shows "0 < qm_len (message_alloc_and_encode data)"
proof -
  obtain out fail where o: "message_encode_loop [] data = (out, fail)" by (cases "message_encode_loop [] data")
  have "concat (map encode_int data) \<noteq> []" using assms(1) by (cases data) (auto simp: encode_int_ne)
  with encode_loop_spec [OF _ o] assms(2) show ?thesis
    by (auto simp: message_alloc_and_encode_def o message_alloc_def)
qed

lemma three_fit: "length (concat (map encode_int [a, b, c])) \<le> MESSAGE_PAYLOAD_MAX"
  using length_encode_ints [of "[a, b, c]"] by (simp add: MESSAGE_PAYLOAD_MAX_def MESSAGE_MAX_def MESSAGE_MIN_def)

lemma trigger_msg_len: "0 < qm_len (trsync_trigger_msg d m r)" "0 < qm_len (set_timeout_msg d m)"
  using encoded_len_pos [OF _ three_fit]
  by (simp_all add: trsync_trigger_msg_def set_timeout_msg_def timed_def queue_message.extend_def)

lemma send_one_content:
  assumes "0 < qm_len qm"
  shows "queue_content (serialqueue_send_one q qm sq) k =
    queue_content sq k @ (if k = q then [raise_min_clock qm] else [])"
proof -
  have "qm_len (raise_min_clock qm) \<noteq> 0" using assms by (simp add: raise_min_clock_fields)
  then show ?thesis
    by (simp add: serialqueue_send_one_def serialqueue_send_batch_def Let_def queue_content_def
        kick_bg_thread_def do_io_def)
qed


lemma send_frame:
  "tdm_list (upd_sq q f td) = tdm_list td" "tdm (upd_sq q f td) = tdm td"
  "td_can_trigger (upd_sq q f td) = td_can_trigger td" "dispatch_reason (upd_sq q f td) = dispatch_reason td"
  by (simp_all add: upd_sq_def)

lemma queued_for_send:
  assumes "0 < qm_len qm"
  shows "queued_for (upd_sq q (serialqueue_send_one c qm) td) k l =
    queued_for td k l @ (if k = q \<and> l = c then [raise_min_clock qm] else [])"
  using send_one_content [OF assms] by (simp add: queued_for_def upd_sq_def)

text \<open>The messages for the micro-controllers of a list that are reached by one command queue.\<close>

definition trigger_msgs :: "'d double_ops \<Rightarrow> 'd trdispatch \<Rightarrow> nat list \<Rightarrow> nat \<Rightarrow> nat \<Rightarrow> 'd timed_message list" where
  "trigger_msgs d td ms q c =
     map (\<lambda>j. trsync_trigger_msg d (tdm td j) (dispatch_reason td))
       (filter (\<lambda>j. tm_sq (tdm td j) = q \<and> tm_cq (tdm td j) = c) ms)"

lemma raise_trigger_msg: "raise_min_clock (trsync_trigger_msg d m r) = trsync_trigger_msg d m r"
proof -
  have "req_clock (trsync_trigger_msg d m r) = 0"
    by (simp add: trsync_trigger_msg_def timed_def queue_message.extend_def message_alloc_and_encode_def
        message_alloc_def Let_def split: prod.split)
  then show ?thesis by (simp add: raise_min_clock_def)
qed

lemma trigger_all:
  "queued_for (foldl (\<lambda>td m. send_trsync_trigger d m td) td ms) q c = queued_for td q c @ trigger_msgs d td ms q c \<and>
   td_can_trigger (foldl (\<lambda>td m. send_trsync_trigger d m td) td ms) = td_can_trigger td"
proof (induction ms arbitrary: td)
  case Nil
  then show ?case by (simp add: trigger_msgs_def)
next
  case (Cons m ms)
  let ?td = "send_trsync_trigger d m td"
  have "trigger_msgs d ?td ms q c = trigger_msgs d td ms q c"
    by (simp add: trigger_msgs_def send_trsync_trigger_def Let_def send_frame)
  moreover have "queued_for ?td q c = queued_for td q c @ trigger_msgs d td [m] q c"
    by (simp add: send_trsync_trigger_def Let_def queued_for_send trigger_msg_len raise_trigger_msg trigger_msgs_def)
  moreover have "trigger_msgs d td (m # ms) q c = trigger_msgs d td [m] q c @ trigger_msgs d td ms q c"
    by (simp add: trigger_msgs_def)
  moreover have "td_can_trigger ?td = td_can_trigger td"
    by (simp add: send_trsync_trigger_def Let_def send_frame)
  ultimately show ?case using Cons.IH [of ?td] by simp
qed

lemma report_triggers_all:
  assumes "td_can_trigger td" "msgblock_decode 5 block (length block) = Some (0, [tag, tm_trsync_oid (tdm td i), 0, r, clock])"
  shows "\<exists>td'. handle_trsync_state d i block td = Ret () td' \<and>
    (\<forall>q c. queued_for td' q c = queued_for td q c @ trigger_msgs d td (tdm_list td) q c) \<and>
    (\<forall>j b. is_block b \<longrightarrow> handle_trsync_state d j b td' = Ret () td')"
proof -
  let ?td = "foldl (\<lambda>td m. send_trsync_trigger d m td) (td\<lparr>td_can_trigger := False\<rparr>) (tdm_list td)"
  have t: "trigger_msgs d (td\<lparr>td_can_trigger := False\<rparr>) = trigger_msgs d td"
    "queued_for (td\<lparr>td_can_trigger := False\<rparr>) = queued_for td"
    by (simp_all add: trigger_msgs_def queued_for_def fun_eq_iff)
  have "handle_trsync_state d i block td = Ret () ?td"
    using assms by (simp add: handle_trsync_state_def Let_def numeral_nat)
  moreover have "queued_for ?td q c = queued_for td q c @ trigger_msgs d td (tdm_list td) q c" for q c
    using trigger_all [of d "td\<lparr>td_can_trigger := False\<rparr>" "tdm_list td" q c] by (simp add: t)
  moreover have "handle_trsync_state d j b ?td = Ret () ?td" if b: "is_block b" for j b
  proof -
    obtain ret fs where "msgblock_decode 5 b (length b) = Some (ret, fs)"
      using msgblock_decode_in_bounds [OF b, of 5] by auto
    moreover have "\<not> td_can_trigger ?td"
      using trigger_all [of d "td\<lparr>td_can_trigger := False\<rparr>" "tdm_list td" 0 0] by simp
    ultimately show ?thesis by (simp add: handle_trsync_state_def Let_def)
  qed
  ultimately show ?thesis by blast
qed

text \<open>
  When one micro-controller reports that it can trigger no more, because it triggered or because
  its timeout ran out, every micro-controller of the group gets exactly one message to trigger, with the
  reason of the group, behind what its queue holds, the reporting one included; and no later report
  sends anything until the group is started again.
\<close>

theorem trigger_reaches_all:
  assumes "td_can_trigger td" "msgblock_decode 5 block (length block) = Some (0, [tag, tm_trsync_oid (tdm td i), 0, r, clock])"
  shows "\<exists>td'. handle_trsync_state d i block td = Ret () td' \<and>
    (\<forall>q c. queued_for td' q c = queued_for td q c @ trigger_msgs d td (tdm_list td) q c) \<and>
    (\<forall>j b. is_block b \<longrightarrow> handle_trsync_state d j b td' = Ret () td')"
  using assms by (rule report_triggers_all)

section \<open>The timeouts\<close>

text \<open>
  What is used of the order of \<open>double\<close> values: it is a linear order of values, of which two
  representations may be equal. Comparison does behave like this as long as no value is a NaN.
\<close>

definition d_ordered :: "'d double_ops \<Rightarrow> bool" where
  "d_ordered d \<longleftrightarrow> (\<forall>x. \<not> d_less d x x) \<and> (\<forall>x y z. d_less d x y \<longrightarrow> d_less d y z \<longrightarrow> d_less d x z) \<and>
     (\<forall>x y z. d_less d x z \<longrightarrow> d_less d x y \<or> d_less d y z) \<and>
     (\<forall>x y. d_eq d x y \<longleftrightarrow> \<not> d_less d x y \<and> \<not> d_less d y x)"

lemma d_orderedD:
  assumes "d_ordered d"
  shows "\<not> d_less d x x" "d_less d x y \<Longrightarrow> d_less d y z \<Longrightarrow> d_less d x z" "d_less d x z \<Longrightarrow> d_less d x y \<or> d_less d y z"
    "d_eq d x y \<longleftrightarrow> \<not> d_less d x y \<and> \<not> d_less d y x"
  using assms unfolding d_ordered_def by blast+

text \<open>\<open>t\<close> is the least of the times of \<open>ms\<close>.\<close>

definition least_time :: "'d double_ops \<Rightarrow> (nat \<Rightarrow> 'd) \<Rightarrow> nat set \<Rightarrow> 'd \<Rightarrow> bool" where
  "least_time d st ms t \<longleftrightarrow> (\<exists>m \<in> ms. t = st m) \<and> (\<forall>m \<in> ms. \<not> d_less d (st m) t)"

text \<open>What \<open>min_times\<close> knows when it has seen the micro-controllers \<open>ps\<close>.\<close>

definition seen :: "'d double_ops \<Rightarrow> (nat \<Rightarrow> 'd) \<Rightarrow> nat set \<Rightarrow> 'd \<Rightarrow> 'd \<Rightarrow> nat option \<Rightarrow> bool" where
  "seen d st ps min_time next_min_time min_tdm \<longleftrightarrow>
     (case min_tdm of
        None \<Rightarrow> ps = {} \<and> min_time = PR_NEVER d \<and> next_min_time = PR_NEVER d
      | Some k \<Rightarrow> k \<in> ps \<and> min_time = st k \<and> (\<forall>m \<in> ps. \<not> d_less d (st m) min_time) \<and>
          (if ps = {k} then next_min_time = PR_NEVER d else least_time d st (ps - {k}) next_min_time))"

lemma min_times_seen:
  assumes o: "d_ordered d"
  shows "seen d st ps a b m \<Longrightarrow> distinct ms \<Longrightarrow> ps \<inter> set ms = {} \<Longrightarrow> \<forall>x \<in> ps \<union> set ms. d_less d (st x) (PR_NEVER d) \<Longrightarrow>
    min_times d st ms a b m = (a', b', m') \<Longrightarrow> seen d st (ps \<union> set ms) a' b' m'"
proof (induction ms arbitrary: ps a b m)
  case (Cons j ms)
  note od = d_orderedD [OF o]
  have j: "j \<notin> ps" "d_less d (st j) (PR_NEVER d)" using Cons.prems(3,4) by auto
  have u: "ps \<union> set (j # ms) = insert j ps \<union> set ms" by auto
  have step: ?case if "seen d st (insert j ps) a2 b2 m2" "min_times d st ms a2 b2 m2 = (a', b', m')" for a2 b2 m2
    unfolding u by (rule Cons.IH [OF that(1) _ _ _ that(2)]) (use Cons.prems in auto)
  show ?case
  proof (cases m)
    case None
    then have s: "ps = {}" "a = PR_NEVER d" "b = PR_NEVER d" using Cons.prems(1) by (simp_all add: seen_def)
    show ?thesis
      by (rule step [of "st j" a "Some j"]) (use Cons.prems(5) s j od(1) in \<open>simp_all add: seen_def Let_def\<close>)
  next
    case (Some k)
    then have s: "k \<in> ps" "a = st k" "\<forall>x \<in> ps. \<not> d_less d (st x) a"
      "if ps = {k} then b = PR_NEVER d else least_time d st (ps - {k}) b"
      using Cons.prems(1) unfolding seen_def by auto
    have kj: "k \<noteq> j" "insert j ps - {j} = ps" using s(1) j(1) by auto
    have ab: "\<not> d_less d b a"
      using s(2-4) od(2) [of "PR_NEVER d" a "PR_NEVER d"] od(1) Cons.prems(4) s(1)
      by (auto simp: least_time_def split: if_splits)
    show ?thesis
    proof (cases "d_less d (st j) b")
      case True
      show ?thesis
      proof (cases "d_less d (st j) a")
        case new: True
        have "seen d st (insert j ps) (st j) a (Some j)"
          using s j(1) new od(1) od(2) kj by (auto simp: seen_def least_time_def)
        then show ?thesis using Cons.prems(5) True new by (intro step) (simp_all add: Let_def)
      next
        case False
        have "least_time d st (insert j ps - {k}) (st j)"
          unfolding least_time_def
        proof (intro conjI bexI ballI)
          fix x assume x: "x \<in> insert j ps - {k}"
          show "\<not> d_less d (st x) (st j)"
          proof (cases "x = j")
            case xj: False
            then have "ps \<noteq> {k}" using x by auto
            then have "\<not> d_less d (st x) b" using s(4) x xj by (simp add: least_time_def)
            then show ?thesis using od(2) [of "st x" "st j" b] True by blast
          qed (use od(1) in simp)
        qed (use kj(1) in auto)
        then have "seen d st (insert j ps) a (st j) (Some k)"
          using s j(1) False kj(1) by (auto simp: seen_def)
        then show ?thesis using Cons.prems(5) True False Some by (intro step) (simp_all add: Let_def)
      qed
    next
      case False
      then have n: "ps \<noteq> {k}" using s(4) j(2) by auto
      then have l: "least_time d st (ps - {k}) b" using s(4) by simp
      have "least_time d st (insert j ps - {k}) b" using l False by (auto simp: least_time_def)
      moreover have "\<not> d_less d (st j) a" using False ab od(3) by blast
      ultimately have "seen d st (insert j ps) a b (Some k)"
        using s j(1) n kj(1) by (auto simp: seen_def)
      then show ?thesis using Cons.prems(5) False Some by (intro step) (simp_all add: Let_def)
    qed
  qed
qed simp

text \<open>The timeout that the time \<open>t\<close> allows a micro-controller, and whether it is sent.\<close>

definition expire_for :: "'d double_ops \<Rightarrow> 'd trdispatch_mcu \<Rightarrow> 'd \<Rightarrow> u64" where
  "expire_for d m t = clock_from_time d (tm_ce m) t + expire_ticks m"

definition extends :: "'d double_ops \<Rightarrow> 'd trdispatch_mcu \<Rightarrow> 'd \<Rightarrow> bool" where
  "extends d m t \<longleftrightarrow> min_extend_ticks m \<le> expire_for d m t - expire_clock m"

lemma word_le_signed:
  fixes x y :: u64
  assumes "x < 2 ^ 63"
  shows "x \<le> y \<longleftrightarrow> sint y < 0 \<or> uint x \<le> sint y"
proof -
  have x: "uint x < 2 ^ 63" using assms by (simp add: word_less_def)
  have y: "0 \<le> uint y" "uint y < 2 ^ 64" using unsigned_less [of y] by simp_all
  have "sint y = (if uint y < 2 ^ 63 then uint y else uint y - 2 ^ 64)"
  proof (cases "uint y < 2 ^ 63")
    case True
    then have "signed_take_bit 63 (uint y) = uint y"
      using y(1) by (intro signed_take_bit_int_eq_self) linarith+
    then show ?thesis using True by (simp add: sint_uint)
  next
    case False
    have "signed_take_bit 63 (uint y - 2 ^ 64) = signed_take_bit 63 (uint y)"
      by (simp add: signed_take_bit_eq_iff_take_bit_eq take_bit_eq_mod)
    moreover have "signed_take_bit 63 (uint y - 2 ^ 64) = uint y - 2 ^ 64"
      by (rule signed_take_bit_int_eq_self) (use False y in simp_all)
    ultimately have "signed_take_bit 63 (uint y) = uint y - 2 ^ 64" by simp
    then show ?thesis using False by (simp add: sint_uint)
  qed
  then show ?thesis using x y by (auto simp: word_le_def)
qed

lemma extends_iff:
  "min_extend_ticks m < 2 ^ 63 \<Longrightarrow> extends d m t \<longleftrightarrow>
     sint (expire_for d m t - expire_clock m) < 0 \<or>
     uint (min_extend_ticks m) \<le> sint (expire_for d m t - expire_clock m)"
  unfolding extends_def by (rule word_le_signed)

definition extended :: "'d double_ops \<Rightarrow> 'd trdispatch_mcu \<Rightarrow> 'd \<Rightarrow> 'd trdispatch_mcu" where
  "extended d m t = (if extends d m t then m\<lparr>expire_clock := expire_for d m t\<rparr> else m)"

definition timeout_msgs :: "'d double_ops \<Rightarrow> 'd trdispatch \<Rightarrow> (nat \<Rightarrow> 'd) \<Rightarrow> nat list \<Rightarrow> nat \<Rightarrow> nat \<Rightarrow> 'd timed_message list" where
  "timeout_msgs d td T ms q c =
     map (\<lambda>j. raise_min_clock (set_timeout_msg d (extended d (tdm td j) (T j))))
       (filter (\<lambda>j. tm_sq (tdm td j) = q \<and> tm_cq (tdm td j) = c \<and> extends d (tdm td j) (T j)) ms)"

lemma upd_tdm_frame:
  "tdm_list (upd_tdm i f td) = tdm_list td" "sqs (upd_tdm i f td) = sqs td"
  "tdm (upd_tdm i f td) j = (if j = i then f (tdm td i) else tdm td j)"
  "td_can_trigger (upd_tdm i f td) = td_can_trigger td" "queued_for (upd_tdm i f td) = queued_for td"
  by (auto simp: upd_tdm_def queued_for_def fun_eq_iff)

lemma extend_timeouts_spec:
  assumes "\<And>j. T j = (if Some j = k then b else a)"
  shows "distinct ms \<Longrightarrow>
    (\<forall>j. tdm (extend_timeouts d a b k ms td) j = (if j \<in> set ms then extended d (tdm td j) (T j) else tdm td j)) \<and>
    queued_for (extend_timeouts d a b k ms td) q c = queued_for td q c @ timeout_msgs d td T ms q c"
proof (induction ms arbitrary: td)
  case Nil
  then show ?case by (simp add: timeout_msgs_def)
next
  case (Cons i ms)
  let ?m = "extended d (tdm td i) (T i)"
  let ?td = "if extends d (tdm td i) (T i)
    then send_trsync_set_timeout d i (upd_tdm i (\<lambda>m. m\<lparr>expire_clock := expire_for d (tdm td i) (T i)\<rparr>) td) else td"
  have e: "extend_timeouts d a b k (i # ms) td = extend_timeouts d a b k ms ?td"
    by (simp add: Let_def assms expire_for_def extends_def)
  have m: "tdm ?td j = (if j = i then ?m else tdm td j)" for j
    by (simp add: send_trsync_set_timeout_def Let_def send_frame upd_tdm_frame extended_def)
  have "timeout_msgs d ?td T ms q c = timeout_msgs d td T ms q c"
  proof -
    have "tdm ?td j = tdm td j" if "j \<in> set ms" for j using m [of j] that Cons.prems by auto
    then show ?thesis unfolding timeout_msgs_def by (intro map_cong filter_cong refl) simp_all
  qed
  moreover have "queued_for ?td q c = queued_for td q c @ timeout_msgs d td T [i] q c"
    by (simp add: send_trsync_set_timeout_def Let_def queued_for_send trigger_msg_len timeout_msgs_def upd_tdm_frame extended_def)
  moreover have "timeout_msgs d td T (i # ms) q c = timeout_msgs d td T [i] q c @ timeout_msgs d td T ms q c"
    by (simp add: timeout_msgs_def)
  ultimately show ?case using Cons.IH [of ?td] Cons.prems unfolding e by (simp add: m)
qed

text \<open>
  C13: While all wait, a report moves the timeout of every micro-controller to \<open>expire_ticks\<close> behind the
  earliest time at which any other one was known to be waiting (its own, if it is alone), and sends
  each timeout that it moves once. It moves a timeout exactly when the new one is at least
  \<open>min_extend_ticks\<close> further or lies before the old one: the difference is compared as an unsigned
  number, so a timeout is also moved back. One micro-controller that falls silent holds back the
  timeouts of all the others, but not its own.
\<close>

theorem timeouts_follow_the_others:
  assumes td1: "td1 = update_status i clock td"
    and "d_ordered d" "td_can_trigger td" "can_trigger \<noteq> 0" "distinct (tdm_list td)"
    and "msgblock_decode 5 block (length block) = Some (0, [tag, tm_trsync_oid (tdm td i), can_trigger, r, clock])"
    and "\<forall>j \<in> set (tdm_list td). d_less d (status_time d td1 j) (PR_NEVER d)"
  shows "\<exists>td' T. handle_trsync_state d i block td = Ret () td' \<and>
    (\<forall>j \<in> set (tdm_list td).
       (if tdm_list td = [j] then T j = status_time d td1 j
        else least_time d (status_time d td1) (set (tdm_list td) - {j}) (T j)) \<and>
       tdm td' j = extended d (tdm td1 j) (T j) \<and>
       (min_extend_ticks (tdm td1 j) < 2 ^ 63 \<longrightarrow>
          extends d (tdm td1 j) (T j) =
            (let moved = sint (expire_for d (tdm td1 j) (T j) - expire_clock (tdm td1 j))
             in moved < 0 \<or> uint (min_extend_ticks (tdm td1 j)) \<le> moved))) \<and>
    (\<forall>q c. queued_for td' q c = queued_for td q c @ timeout_msgs d td1 T (tdm_list td) q c)"
proof -
  let ?st = "status_time d td1" and ?ms = "tdm_list td"
  have f: "tdm_list td1 = ?ms" "queued_for td1 = queued_for td"
    by (simp_all add: td1 update_status_def Let_def upd_tdm_frame)
  obtain a b m where mt: "min_times d ?st ?ms (PR_NEVER d) (PR_NEVER d) None = (a, b, m)"
    by (cases "min_times d ?st ?ms (PR_NEVER d) (PR_NEVER d) None")
  have seen: "seen d ?st (set ?ms) a b m"
    using min_times_seen [OF assms(2) _ assms(5) _ _ mt, of "{}"] assms(7) by (simp add: seen_def)
  define nx where "nx = (if d_eq d b (PR_NEVER d) then a else b)"
  define T where "T j = (if Some j = m then nx else a)" for j
  let ?td' = "extend_timeouts d a nx m ?ms td1"
  have "handle_trsync_state d i block td = Ret () ?td'"
    using assms(3,4,6) by (simp add: handle_trsync_state_def Let_def numeral_nat f nx_def mt flip: td1)
  moreover have "if ?ms = [j] then T j = ?st j else least_time d ?st (set ?ms - {j}) (T j)" if j: "j \<in> set ?ms" for j
  proof -
    obtain k where k: "m = Some k" using seen j by (cases m) (auto simp: seen_def)
    have s: "k \<in> set ?ms" "a = ?st k" "\<forall>x \<in> set ?ms. \<not> d_less d (?st x) a"
      "if set ?ms = {k} then b = PR_NEVER d else least_time d ?st (set ?ms - {k}) b"
      using seen unfolding seen_def k by auto
    have one: "?ms = [j] \<longleftrightarrow> set ?ms = {j}"
      using assms(5) by (cases ?ms) (auto dest: subset_singletonD)
    show ?thesis
    proof (cases "j = k")
      case True
      show ?thesis
      proof (cases "set ?ms = {k}")
        case True
        then show ?thesis using s(4) \<open>j = k\<close> one k s(2) d_orderedD(1,4) [OF assms(2)] by (simp add: T_def nx_def)
      next
        case False
        then have "\<not> d_eq d b (PR_NEVER d)"
          using s(4) assms(7) d_orderedD(4) [OF assms(2)] by (auto simp: least_time_def)
        then show ?thesis using False s(4) \<open>j = k\<close> one k by (simp add: T_def nx_def)
      qed
    next
      case False
      then have "T j = a" "set ?ms \<noteq> {j}" using k s(1) by (auto simp: T_def)
      then show ?thesis using s(1-3) False one by (auto simp: least_time_def)
    qed
  qed
  moreover have "(\<forall>j. tdm ?td' j = (if j \<in> set ?ms then extended d (tdm td1 j) (T j) else tdm td1 j)) \<and>
      queued_for ?td' q c = queued_for td1 q c @ timeout_msgs d td1 T ?ms q c" for q c
    by (rule extend_timeouts_spec) (simp_all add: T_def assms(5))
  ultimately show ?thesis unfolding f by (intro exI [of _ ?td'] exI [of _ T]) (auto simp: extends_iff)
qed

text \<open>
  The difference in the test of a timeout is cast to a signed type, but compared as an unsigned number:
  a timeout that would move back, because the estimate of the clock changed, is always sent.
\<close>

theorem set_timeout_moves_back:
  assumes "sint (expire_for d m t - expire_clock m) < 0" "min_extend_ticks m < 2 ^ 63"
  shows "expire_clock (extended d m t) = expire_for d m t"
  using assms by (simp add: extended_def extends_iff)

section \<open>Two micro-controllers\<close>

definition two_mcus :: "int trdispatch" where
  "two_mcus =
     (let queues = (\<lambda>_. (serialqueue_alloc fixed_point (\<lambda>_. 0) SQT_UART 0)
             \<lparr>ce := \<lparr>last_clock = 0, conv_clock = 0, conv_time = 0, est_freq = 1000000\<rparr>\<rparr>);
          td = trdispatch_alloc (\<lambda>_. tdm_zero fixed_point) queues;
          td = trdispatch_mcu_alloc fixed_point 2 2 0 4 20 21 22 td;
          td = trdispatch_mcu_alloc fixed_point 3 3 0 5 20 21 22 td;
          td = trdispatch_mcu_setup 2 100 0 1000 100 td;
          td = trdispatch_mcu_setup 3 200 0 1000 100 td
      in trdispatch_start 3 td)"

definition state_report :: "u32 list \<Rightarrow> u8 list" where
  "state_report vs = frame_block 0x10 (concat (map encode_int vs))"

lemma decode_report: "length vs = 5 \<Longrightarrow> msgblock_decode 5 (state_report vs) (length (state_report vs)) = Some (0, vs)"
  using decode_frame [of vs "0x10" "[]"] by (simp add: state_report_def)

lemmas two_mcus_defs = two_mcus_def trdispatch_alloc_def trdispatch_mcu_alloc_def trdispatch_mcu_setup_def
  trdispatch_start_def tdm_zero_def upd_tdm_def upd_sq_def serialqueue_get_clock_est_def serialqueue_add_fastreader_def

lemma two_mcus_eval:
  "tdm_list two_mcus = [2, 3]" "td_can_trigger two_mcus" "dispatch_reason two_mcus = 3"
  "tm_sq (tdm two_mcus 2) = 2" "tm_sq (tdm two_mcus 3) = 3" "tm_cq (tdm two_mcus 2) = 0" "tm_cq (tdm two_mcus 3) = 0"
  "tm_trsync_oid (tdm two_mcus 2) = 4" "last_status_clock (tdm two_mcus 3) = 200"
  "expire_ticks (tdm two_mcus 3) = 1000" "min_extend_ticks (tdm two_mcus 3) = 100" "expire_clock (tdm two_mcus 3) = 0"
  "tm_ce (tdm two_mcus 3) = \<lparr>last_clock = 0, conv_clock = 0, conv_time = 0, est_freq = 1000000\<rparr>"
  "ce (sqs two_mcus 2) = \<lparr>last_clock = 0, conv_clock = 0, conv_time = 0, est_freq = 1000000\<rparr>"
  "queued_for two_mcus 3 0 = []"
  by (simp_all add: two_mcus_defs queued_for_def queue_content_def serialqueue_alloc_def pollreactor.extend_def Let_def)

theorem trigger_reaches_all_witness:
  "\<exists>td'. handle_trsync_state fixed_point 2 (state_report [22, 4, 0, 2, 500]) two_mcus = Ret () td' \<and>
     queued_for td' 3 0 = [trsync_trigger_msg fixed_point (tdm two_mcus 3) 3]"
proof -
  have "msgblock_decode 5 (state_report [22, 4, 0, 2, 500]) (length (state_report [22, 4, 0, 2, 500])) =
      Some (0, [22, tm_trsync_oid (tdm two_mcus 2), 0, 2, 500])"
    by (simp add: decode_report two_mcus_eval)
  from trigger_reaches_all [OF two_mcus_eval(2) this, of fixed_point] show ?thesis
    by (auto simp: two_mcus_eval trigger_msgs_def)
qed

lemma fixed_point_ordered: "d_ordered fixed_point"
  by (auto simp: d_ordered_def fixed_point_def)

theorem timeouts_follow_the_others_witness:
  "\<exists>td'. handle_trsync_state fixed_point 2 (state_report [22, 4, 1, 0, 500]) two_mcus = Ret () td' \<and>
     expire_clock (tdm td' 3) = 1500"
proof -
  let ?td1 = "update_status 2 500 two_mcus"
  have u: "tdm ?td1 3 = tdm two_mcus 3" "status_time fixed_point ?td1 2 = 500000000" "status_time fixed_point ?td1 3 = 200000000"
    by (simp_all add: update_status_def Let_def upd_tdm_frame serialqueue_get_clock_est_def two_mcus_eval
        status_time_def clock_to_time_def clock_from_clock32_def fixed_point_def)
  have d: "msgblock_decode 5 (state_report [22, 4, 1, 0, 500]) (length (state_report [22, 4, 1, 0, 500])) =
      Some (0, [22, tm_trsync_oid (tdm two_mcus 2), 1, 0, 500])"
    by (simp add: decode_report two_mcus_eval)
  have l: "distinct (tdm_list two_mcus)"
    "\<forall>j \<in> set (tdm_list two_mcus). d_less fixed_point (status_time fixed_point ?td1 j) (PR_NEVER fixed_point)"
    using u by (simp_all add: two_mcus_eval PR_NEVER_def fixed_point_def)
  obtain td' T where td': "handle_trsync_state fixed_point 2 (state_report [22, 4, 1, 0, 500]) two_mcus = Ret () td'"
    "least_time fixed_point (status_time fixed_point ?td1) {2} (T 3)" "tdm td' 3 = extended fixed_point (tdm two_mcus 3) (T 3)"
    using timeouts_follow_the_others [OF refl fixed_point_ordered two_mcus_eval(2) _ l(1) d l(2)]
    by (auto simp: two_mcus_eval u insert_Diff_if)
  have "T 3 = 500000000" using td'(2) u by (simp add: least_time_def)
  then have "expire_clock (tdm td' 3) = 1500"
    by (simp add: td'(3) extended_def extends_def expire_for_def clock_from_time_def two_mcus_eval fixed_point_def c_div_def)
  then show ?thesis using td'(1) by blast
qed

end
