(* ===== verification/Step_Pipeline.thy ===== *)
theory Step_Pipeline
  imports Stepper Stepper_Sync
begin

text \<open>
  The way of a move from the host's step compression to the pins of a micro-controller: the message
  of \<open>add_move\<close>, its block, the dispatch of the command, and the step events.
\<close>

section \<open>The command of a move\<close>

text \<open>The arguments of \<open>queue_step\<close>, as \<open>add_move\<close> sends them.\<close>

definition queue_step_args :: "'z step_queue_scheme \<Rightarrow> u32 \<Rightarrow> step_move \<Rightarrow> u32 list" where
  "queue_step_args sc oid m = [oid, sm_interval m, ucast (sm_count m), scast (sm_add m)]"

lemma ucast_scast_16 [simp]: "ucast (scast (w :: u16) :: u32) = w"
  by (rule bit_word_eqI) (simp add: bit_simps)

lemma ucast_ucast_16 [simp]: "ucast (ucast (w :: u16) :: u32) = w"
  by (rule bit_word_eqI) (auto simp: bit_simps)

lemma load_next_timers:
  assumes "stepper_load_next oid s = Ret r s'"
  shows "timer_next s' = timer_next s" "timer_list s' = timer_list s" "last_insert s' = last_insert s"
    "timer_read_time s' = timer_read_time s"
  using assms by (auto simp: stepper_load_next_def move_queue_pop_def load_timing_def load_position_def
      move_free_def set_move_next_def upd_st_def set_waketime_def hw_do_def Let_def
      split: if_splits option.splits)

lemma ucast_ucast_8 [simp]: "ucast (ucast (w :: u8) :: u32) = w"
  by (rule bit_word_eqI) (auto simp: bit_simps)

lemma unat_double_count: "unat (ucast (c :: u16) * 2 :: u32) = 2 * unat c"
proof -
  have "unat c < 2 ^ LENGTH(16)" by (rule unsigned_less)
  then show ?thesis by (simp add: unat_times_exact unat_ucast_16_32)
qed

lemma add_timer_waketime:
  "sched_add_timer t s = Ret () s' \<Longrightarrow> x \<noteq> Deleted_timer \<Longrightarrow> timer_waketime s' x = timer_waketime s x"
  by (auto simp: sched_add_timer_eq add_at_head_def insert_timer_def Let_def timer_kick_def hw_do_def set_next_def
      set_waketime_def split: if_splits option.splits)

lemma queue_step_idle:
  assumes "oid_lookup oid Stepper_type s = Ret d s" "arg_oid args 0 = oid"
    and "st_count (stepper_of s oid) = 0" "\<not> sf_need_reset (stepper_of s oid)"
    and "mq_first (st_mq (stepper_of s oid)) = None" "move_free_list s = Some mn" "\<not> single oid s"
    and "timer_inv s xs" "Obj_timer oid \<notin> set xs" "(ucast (args ! 2) :: u16) \<noteq> 0"
    and "\<not> timer_is_before (st_next_step_time (stepper_of s oid) + args ! 1) (timer_read_time s)"
  obtains s1 where "command_queue_step args s = Ret () s1"
    "unat (st_count (stepper_of s1 oid)) = 2 * unat (ucast (args ! 2) :: u16)"
    "st_next_step_time (stepper_of s1 oid) = st_next_step_time (stepper_of s oid) + args ! 1"
    "st_interval (stepper_of s1 oid) = args ! 1 + scast (ucast (args ! 3) :: u16)"
    "st_add (stepper_of s1 oid) = ucast (args ! 3)"
    "st_step_pin (stepper_of s1 oid) = st_step_pin (stepper_of s oid)"
    "st_step_pulse_ticks (stepper_of s1 oid) = st_step_pulse_ticks (stepper_of s oid)"
    "timer_waketime s1 (Obj_timer oid) = st_next_step_time (stepper_of s oid) + args ! 1"
    "\<exists>xs'. timer_inv s1 xs' \<and> Obj_timer oid \<in> set (active xs')"
proof -
  define turn where "turn \<longleftrightarrow> sf_last_dir (stepper_of s oid) \<noteq> sf_next_dir (stepper_of s oid)"
  define m where "m = (step_move s mn)\<lparr>m_interval := args ! 1, m_count := ucast (args ! 2),
      m_add := ucast (args ! 3), m_dir := turn\<rparr>"
  define st where "st = (if turn then (stepper_of s oid)\<lparr>sf_last_dir := sf_next_dir (stepper_of s oid)\<rparr> else stepper_of s oid)
      \<lparr>st_mq := (st_mq (stepper_of s oid))\<lparr>mq_last := Some mn, mq_first := Some mn\<rparr>\<rparr>"
  define s0 where "s0 = s\<lparr>move_free_list := move_next s mn, step_move := (step_move s)(mn := m),
      move_next := (move_next s)(mn := None), stepper_of := (stepper_of s)(oid := st)\<rparr>"
  have e: "command_queue_step args s =
      andThen (stepper_load_next oid s0) (\<lambda>_ s. sched_add_timer (Obj_timer oid) s)"
    using assms(1-7,10) by (cases turn) (simp_all add: command_queue_step_def stepper_oid_lookup_def move_alloc_def
        shutdown_if_def push_step_move_def move_queue_push_def set_move_next_def s0_def st_def m_def turn_def
        upd_st_def Let_def)
  have st_other: "st_next_step_time st = st_next_step_time (stepper_of s oid)"
    "sf_single_sched st = sf_single_sched (stepper_of s oid)" "mq_first (st_mq st) = Some mn"
    "st_step_pin st = st_step_pin (stepper_of s oid)" "st_step_pulse_ticks st = st_step_pulse_ticks (stepper_of s oid)"
    by (simp_all add: st_def)
  have k0: "kconf s0 = kconf s" by (simp add: s0_def)
  have n0: "\<not> single oid s0" "mq_first (st_mq (stepper_of s0 oid)) = Some mn" "timer_inv s0 xs"
    using assms(7,8) by (simp_all add: have_frame [OF k0]) (simp_all add: s0_def st_other timer_inv_def)
  obtain s2 where l: "stepper_load_next oid s0 = Ret SF_RESCHEDULE s2"
    "stepper_of s2 oid = loaded False (HAVE_AVR_OPTIMIZATION s0) m None st"
    "timer_waketime s2 = (timer_waketime s)(Obj_timer oid := st_next_step_time (stepper_of s oid) + args ! 1)"
    using load_next_some [OF n0(2)] n0(1) by (auto simp: s0_def st_other m_def)
  note f = load_next_timers [OF l(1)]
  have i2: "timer_inv s2 xs" using n0(3) f l(3) by (subst timer_inv_cong [of s2 s0]) (auto simp: s0_def)
  have time: "\<not> timer_is_before (timer_waketime s2 (Obj_timer oid)) (timer_read_time s2)"
    using assms(11) l(3) f by (simp add: s0_def)
  have other: "Obj_timer oid \<noteq> Deleted_timer" by simp
  obtain s1 xs' where a: "sched_add_timer (Obj_timer oid) s2 = Ret () s1" and
    linked: "timer_inv s1 xs'" "Obj_timer oid \<in> set (active xs')"
  proof (rule sched_add_timer_cases [OF i2 assms(9) other])
    fix s1 xs' as bs
    assume *: "sched_add_timer (Obj_timer oid) s2 = Ret () s1" "timer_inv s1 xs'" "active xs' = as @ Obj_timer oid # bs"
    have "Obj_timer oid \<in> set (active xs')" unfolding *(3) by simp
    with *(1,2) show ?thesis by (rule that)
  qed (use time in blast)
  have st1: "stepper_of s1 = stepper_of s2"
    using sched_only_steppers [OF sched_add_timer_only [OF a]] by simp
  show ?thesis
  proof (rule that)
    show "command_queue_step args s = Ret () s1" using e l(1) a by simp
    show "timer_waketime s1 (Obj_timer oid) = st_next_step_time (stepper_of s oid) + args ! 1"
      using add_timer_waketime [OF a, of "Obj_timer oid"] by (simp add: l(3))
    show "\<exists>xs'. timer_inv s1 xs' \<and> Obj_timer oid \<in> set (active xs')" using linked by blast
  qed (simp_all add: st1 l(2) loaded_def m_def st_other unat_double_count)
qed


section \<open>Through the wire\<close>

lemma encode_int_id:
  assumes "cid < 96"
  shows "encode_int (of_nat cid) = [of_nat cid]"
proof -
  have u: "unat (of_nat cid :: u32) = cid" using assms by (simp add: unat_of_nat)
  have s: "sint (of_nat cid :: u32) = int cid"
    using assms u by (simp add: sint_uint uint_nat signed_take_bit_eq_if_positive bit_iff_odd take_bit_int_eq_self)
  have "(0x7F :: u32) = mask 7" by (simp add: mask_eq_exp_minus_1)
  then have "(of_nat cid :: u32) AND 0x7F = take_bit 7 (of_nat cid)" by (simp only: take_bit_eq_mask)
  also have "\<dots> = of_nat (take_bit 7 cid)" by (simp add: take_bit_of_nat)
  also have "take_bit 7 cid = cid" using assms by (simp add: take_bit_nat_eq_self_iff)
  finally have a: "(of_nat cid :: u32) AND 0x7F = of_nat cid" .
  have "(ucast (of_nat cid :: u32) :: u8) = of_nat cid" by (rule word_unat_eq_iff [THEN iffD2]) (use assms in \<open>simp add: unsigned_ucast_eq unat_of_nat take_bit_eq_mod\<close>)
  then show ?thesis using assms by (simp add: encode_int_def s vlq_defs a)
qed

lemma encoded_payload:
  assumes "length (concat (map encode_int data)) \<le> MESSAGE_PAYLOAD_MAX"
  shows "take (nat (qm_len (message_alloc_and_encode data))) (qm_msg (message_alloc_and_encode data)) =
    concat (map encode_int data)"
proof -
  obtain out fail where o: "message_encode_loop [] data = (out, fail)" by (cases "message_encode_loop [] data")
  from encode_loop_spec [OF _ this] assms show ?thesis
    by (auto simp: message_alloc_and_encode_def o message_alloc_def)
qed

definition payload :: "queue_message \<Rightarrow> u8 list" where
  "payload qm = take (nat (qm_len qm)) (qm_msg qm)"

lemma queue_step_payload:
  assumes "queue_step_msgtag sc = of_nat cid" "cid < 96"
  shows "payload (queue_step_msg first m sc) = encode_cmds [(cid, map Num_arg (queue_step_args sc (sc_oid sc) m))]"
proof -
  let ?d = "queue_step_msgtag sc # queue_step_args sc (sc_oid sc) m"
  have "length (concat (map encode_int ?d)) \<le> 5 * length ?d" by (rule length_encode_ints)
  then have "length (concat (map encode_int ?d)) \<le> MESSAGE_PAYLOAD_MAX"
    by (simp add: queue_step_args_def MESSAGE_PAYLOAD_MAX_def MESSAGE_MAX_def MESSAGE_MIN_def)
  from encoded_payload [OF this] show ?thesis
    using assms by (auto simp: payload_def queue_step_msg_def Let_def queue_step_args_def
        encode_int_id)
qed

lemma queue_step_dispatch:
  assumes "queue_step_msgtag sc = of_nat cid" "0 < cid" "cid < 96" "cid < length ci"
    and "cp_param_types (ci ! cid) = [PT_byte, PT_uint32, PT_uint16, PT_int16]"
    and "next_sequence s AND NOT MESSAGE_SEQ_MASK = MESSAGE_DEST" "\<not> need_sync s" "\<not> sched_is_shutdown s"
  shows "command_find_and_dispatch enc ci (frame_block (next_sequence s) (payload (queue_step_msg first m sc)) @ rest) s =
    andThen (cp_func (ci ! cid) (queue_step_args sc (sc_oid sc) m)
        (s\<lparr>need_valid := False, next_sequence := next_seq (next_sequence s)\<rparr>))
      (\<lambda>_ s. Ret (1, length (payload (queue_step_msg first m sc)) + MESSAGE_MIN) (command_send_ack s))"
proof -
  let ?vs = "queue_step_args sc (sc_oid sc) m"
  let ?cs = "[(cid, map Num_arg ?vs)]"
  let ?s = "s\<lparr>need_valid := False, next_sequence := next_seq (next_sequence s)\<rparr>"
  have p: "payload (queue_step_msg first m sc) = encode_cmds ?cs"
    using assms(1,3) by (rule queue_step_payload)
  have v: "list_all (valid_cmd ci) ?cs"
    using assms(2-5) by (simp add: valid_cmd_def queue_step_args_def int_param_def)
  have "length (encode_cmds ?cs) \<le> 1 + 5 * 4"
    using length_encode_ints [of ?vs] by (simp add: queue_step_args_def)
  then have l: "length (encode_cmds ?cs) + MESSAGE_MIN \<le> MESSAGE_MAX" by (simp add: message_consts)
  have r: "run_commands enc ci p ?cs ?s = andThen (cp_func (ci ! cid) ?vs ?s) (\<lambda>_ s. Ret () s)" for p
    using assms(8) by (simp add: sched_is_shutdown_def)
  show ?thesis
    using find_block_frame [OF l assms(6,7), of rest] dispatch_block [OF v]
    by (simp add: command_find_and_dispatch_def p r del: run_commands.simps) (simp add: andThen_assoc)
qed

section \<open>Idle steppers\<close>

text \<open>The stepper is configured and idle, and the micro-controller can take a move for it.\<close>

definition awaits_move :: "u8 \<Rightarrow> 'z steppers_scheme \<Rightarrow> bool" where
  "awaits_move oid s \<longleftrightarrow>
     oid < oid_count s \<and> (\<exists>os. oids s = Some os \<and> unat oid < length os \<and> oid_type_of (os ! unat oid) = Some Stepper_type) \<and>
     st_count (stepper_of s oid) = 0 \<and>
     \<not> sf_need_reset (stepper_of s oid) \<and> mq_first (st_mq (stepper_of s oid)) = None \<and>
     move_free_list s \<noteq> None \<and> \<not> single oid s \<and> (\<exists>xs. timer_inv s xs \<and> Obj_timer oid \<notin> set xs)"

lemma awaits_move_receive:
  assumes "awaits_move oid s"
  shows "awaits_move oid (s\<lparr>need_valid := v, next_sequence := n\<rparr>)"
proof -
  let ?s = "s\<lparr>need_valid := v, next_sequence := n\<rparr>"
  have k: "kconf ?s = kconf s" and t: "timer_inv ?s = timer_inv s"
    by (simp_all add: timer_inv_def fun_eq_iff)
  show ?thesis using assms unfolding awaits_move_def have_frame(1) [OF k] t by simp
qed

lemma below_distance:
  fixes p e x :: "'a::len word"
  assumes "p - e \<le> x" "x \<le> p"
  shows "p - x \<le> e"
proof -
  have "p - e \<le> p" using assms by (rule order_trans)
  then have "e \<le> p" by (simp only: word_sub_le_iff)
  then have "unat (p - e) = unat p - unat e" by (rule unat_sub)
  moreover have "unat (p - x) = unat p - unat x" using assms(2) by (rule unat_sub)
  moreover have "unat (p - e) \<le> unat x" "unat x \<le> unat p" "unat e \<le> unat p"
    using word_le_nat_alt [THEN iffD1, OF assms(1)] word_le_nat_alt [THEN iffD1, OF assms(2)]
      word_le_nat_alt [THEN iffD1, OF \<open>e \<le> p\<close>] .

  ultimately show ?thesis unfolding word_le_nat_alt by linarith
qed

lemma minmax_point_error:
  fixes sc :: "'z step_queue_scheme"
  assumes "of_int (minp (minmax_point sc k)) \<le> x" "x \<le> of_int (maxp (minmax_point sc k))"
  shows "queue sc ! (queue_pos sc + k) - (ucast (last_step_clock sc) + x) \<le> max_error sc"
proof -
  define q where "q = queue sc ! (queue_pos sc + k) - ucast (last_step_clock sc)"
  define d where "d = (q - (if k > 0 then queue sc ! (queue_pos sc + k - 1) - ucast (last_step_clock sc) else 0)) div 2"
  define e where "e = (if d > max_error sc then max_error sc else d)"
  have m: "minmax_point sc k = \<lparr>minp = sint (q - e), maxp = sint q\<rparr>"
    unfolding minmax_point_def q_def e_def d_def Let_def ..
  have e: "e \<le> max_error sc" by (simp add: e_def not_less)
  have "q - x \<le> e" by (rule below_distance) (use assms in \<open>simp_all add: m\<close>)
  then show ?thesis using e unfolding q_def diff_diff_eq by (rule order_trans)
qed

lemma awaits_move_lookup:
  assumes "awaits_move oid s"
  obtains d where "oid_lookup oid Stepper_type s = Ret d s"
proof -
  obtain os where "oids s = Some os" "unat oid < length os" "oid_type_of (os ! unat oid) = Some Stepper_type"
    "\<not> oid_count s \<le> oid"
    using assms by (auto simp: awaits_move_def not_le)
  then show ?thesis using that by (simp add: oid_lookup_def oid_at_def)
qed

lemma ack_steppers:
  "stepper_of (command_send_ack s) = stepper_of s" "timer_waketime (command_send_ack s) = timer_waketime s"
  "timer_inv (command_send_ack s) xs = timer_inv s xs"
  by (simp_all add: command_send_ack_def command_sendf_def Let_def timer_inv_def)

text \<open>
  C1: From the host to the pins: when the host accepts a move with \<open>check_line\<close>, the block that carries its
  message makes an idle stepper of the micro-controller execute it. Its timer is linked, and when the
  events of the first \<open>k\<close> steps have run, at whatever clocks \<open>ts\<close>, the step pin has been toggled exactly
  twice for each, and the timer is armed for the clock \<open>t\<close> of the next step, which is no later than
  the clock the host queued it for and at most \<open>max_error\<close> ticks before, or for the end of the last
  pulse if this is later. The event of this step toggles the pin and arms the timer for the end of its
  pulse. This holds provided host and micro-controller agree on the clock of the last step and the block
  does not come too late.
\<close>

theorem host_move_steps_in_time:
  assumes "check_line sc m = 0" "k < unat (sm_count m)"
    and "queue_step_msgtag sc = of_nat cid" "0 < cid" "cid < 96" "cid < length ci"
    and "ci ! cid = \<lparr>cp_in_shutdown = False, cp_param_types = [PT_byte, PT_uint32, PT_uint16, PT_int16],
                     cp_func = command_queue_step\<rparr>"
    and "next_sequence s AND NOT MESSAGE_SEQ_MASK = MESSAGE_DEST" "\<not> need_sync s" "\<not> sched_is_shutdown s"
    and "awaits_move oid s" "sc_oid sc = ucast oid"
    and "st_next_step_time (stepper_of s oid) = ucast (last_step_clock sc)"
    and "\<not> timer_is_before (ucast (last_step_clock sc) + sm_interval m) (timer_read_time s)"
    and "length ts = 2 * k"
    and "toggle = Gpio_out_toggle (st_step_pin (stepper_of s oid))" "pulse = st_step_pulse_ticks (stepper_of s oid)"
  shows "\<exists>n s1 xs s2 t. command_find_and_dispatch enc ci
      (frame_block (next_sequence s) (payload (queue_step_msg first m sc)) @ rest) s = Ret (1, n) s1 \<and>
    timer_inv s1 xs \<and> Obj_timer oid \<in> set (active xs) \<and>
    run_at ts (stepper_event_full oid) s1 = Ret () s2 \<and> hw s2 = hw s1 @ replicate (2 * k) toggle \<and>
    queue sc ! (queue_pos sc + k) - t \<le> max_error sc \<and>
    timer_waketime s2 (Obj_timer oid) = (if k = 0 then t else not_before (last ts + pulse) t) \<and>
    (\<forall>now. \<exists>s3. stepper_event_full oid (s2\<lparr>timer_read_time := now\<rparr>) = Ret SF_RESCHEDULE s3 \<and>
       hw s3 = hw s2 @ [toggle] \<and> timer_waketime s3 (Obj_timer oid) = now + pulse)"
proof -
  let ?args = "queue_step_args sc (sc_oid sc) m"
  let ?s = "s\<lparr>need_valid := False, next_sequence := next_seq (next_sequence s)\<rparr>"
  have a: "awaits_move oid ?s" using assms(11) by (rule awaits_move_receive)
  obtain d where d: "oid_lookup oid Stepper_type ?s = Ret d ?s" by (rule awaits_move_lookup [OF a])
  obtain mn xs where x: "move_free_list ?s = Some mn" "timer_inv ?s xs" "Obj_timer oid \<notin> set xs"
    using a by (auto simp: awaits_move_def)
  note i = a [unfolded awaits_move_def]
  have args: "arg_oid ?args 0 = oid" "?args ! 1 = sm_interval m" "?args ! 2 = ucast (sm_count m)"
    "?args ! 3 = scast (sm_add m)"
    by (simp_all add: queue_step_args_def arg_oid_def assms(12))
  have c: "sm_count m \<noteq> 0" using assms(2) by auto
  obtain s1 where s1: "command_queue_step ?args ?s = Ret () s1"
    "unat (st_count (stepper_of s1 oid)) = 2 * unat (sm_count m)"
    "st_next_step_time (stepper_of s1 oid) = ucast (last_step_clock sc) + sm_interval m"
    "st_interval (stepper_of s1 oid) = sm_interval m + scast (sm_add m)"
    "st_add (stepper_of s1 oid) = sm_add m"
    "st_step_pin (stepper_of s1 oid) = st_step_pin (stepper_of s oid)" "st_step_pulse_ticks (stepper_of s1 oid) = pulse"
    "timer_waketime s1 (Obj_timer oid) = ucast (last_step_clock sc) + sm_interval m"
    "\<exists>xs'. timer_inv s1 xs' \<and> Obj_timer oid \<in> set (active xs')"
    by (rule queue_step_idle [OF d args(1) _ _ _ x(1) _ x(2,3)])
      (use i c assms(13,14,17) in \<open>simp_all add: queue_step_args_def\<close>)
  obtain xs' where xs': "timer_inv s1 xs'" "Obj_timer oid \<in> set (active xs')" using s1(9) by blast
  let ?s1 = "command_send_ack s1"
  obtain s2 where s2: "run_at ts (stepper_event_full oid) ?s1 = Ret () s2"
    "st_next_step_time (stepper_of s2 oid) = st_next_step_time (stepper_of s1 oid)
      + of_nat k * st_interval (stepper_of s1 oid) + of_nat (k * (k - 1) div 2) * scast (st_add (stepper_of s1 oid))"
    "unat (st_count (stepper_of s2 oid)) = 2 * (unat (sm_count m) - k)"
    "st_step_pin (stepper_of s2 oid) = st_step_pin (stepper_of s oid)" "st_step_pulse_ticks (stepper_of s2 oid) = pulse"
    "hw s2 = hw ?s1 @ replicate (2 * k) toggle"
    "timer_waketime s2 (Obj_timer oid) = (if k = 0 then timer_waketime s1 (Obj_timer oid)
       else not_before (last ts + pulse) (st_next_step_time (stepper_of s2 oid)))"
    using full_run [OF assms(15), of ?s1 oid "unat (sm_count m)"] assms(2,16) s1(2,6,7) unfolding ack_steppers by auto
  have "k * (k + 1) div 2 = k * (k - 1) div 2 + k" using triangle_Suc [of k] by (simp add: mult.commute)
  then have t: "st_next_step_time (stepper_of s2 oid) = ucast (last_step_clock sc) + mcu_step_time m k"
    by (simp add: s2(2) s1 mcu_step_time_def algebra_simps)
  then have error: "queue sc ! (queue_pos sc + k) - st_next_step_time (stepper_of s2 oid) \<le> max_error sc"
    using minmax_point_error [of sc k "mcu_step_time m k"] check_line_bounds [OF assms(1,2)] by simp
  have first: "timer_waketime s1 (Obj_timer oid) = st_next_step_time (stepper_of s2 oid)" if "k = 0"
    using s1(3,8) s2(2) that by simp
  have "unat (st_count (stepper_of s2 oid)) \<noteq> 0" using s2(3) assms(2) by simp
  then have "st_count (stepper_of s2 oid) \<noteq> 0" by auto
  then have "unat (st_count (stepper_of s2 oid) - 1) = 2 * (unat (sm_count m) - k) - 1" using s2(3) by (simp add: div2_pred)
  then have "odd (unat (st_count (stepper_of s2 oid) - 1))" using assms(2) by simp
  then have step: "\<exists>s3. stepper_event_full oid (s2\<lparr>timer_read_time := now\<rparr>) = Ret SF_RESCHEDULE s3 \<and>
      hw s3 = hw s2 @ [toggle] \<and> timer_waketime s3 (Obj_timer oid) = now + pulse" for now
    using full_step_edge [of "s2\<lparr>timer_read_time := now\<rparr>" oid] s2(4,5) assms(16) by auto
  have "command_find_and_dispatch enc ci
      (frame_block (next_sequence s) (payload (queue_step_msg first m sc)) @ rest) s =
      Ret (1, length (payload (queue_step_msg first m sc)) + MESSAGE_MIN) ?s1"
    using queue_step_dispatch [OF assms(3-6) _ assms(8-10)] assms(7) s1(1) by simp
  then show ?thesis
    using s2(1,6,7) xs' error first step
    by (intro exI [of _ "length (payload (queue_step_msg first m sc)) + MESSAGE_MIN"] exI [of _ ?s1] exI [of _ xs']
        exI [of _ s2] exI [of _ "st_next_step_time (stepper_of s2 oid)"]) (auto simp: ack_steppers)
qed

definition three_steps :: stepcompress where
  "three_steps = stepcompress_alloc 1\<lparr>queue := [1000, 2000, 3010, 0], queue_next := 3, max_error := 25,
     queue_step_msgtag := 4\<rparr>"

definition idle_stepper :: steppers where
  "idle_stepper = steppers0\<lparr>stepper_of := (\<lambda>_. stepper_zero\<lparr>sf_need_reset := False\<rparr>), move_free_list := Some 0,
     oids := Some (replicate 2 \<lparr>oid_type_of = Some Stepper_type, oid_data = None\<rparr>), oid_count := 2\<rparr>"

definition queue_step_parser :: "steppers command_parser" where
  "queue_step_parser = \<lparr>cp_in_shutdown = False, cp_param_types = [PT_byte, PT_uint32, PT_uint16, PT_int16],
     cp_func = command_queue_step\<rparr>"

lemma idle_stepper_awaits: "awaits_move 1 idle_stepper"
proof -
  have "timer_inv idle_stepper = timer_inv sched0"
    by (simp add: fun_eq_iff timer_inv_def idle_stepper_def steppers0_defs)
  then have t: "timer_inv idle_stepper [Periodic_timer, Sentinel_timer]" using sched_init_inv(1) by simp
  show ?thesis unfolding awaits_move_def
    by (intro conjI exI [of _ "[Periodic_timer, Sentinel_timer]"] t)
      (simp_all add: idle_stepper_def stepper_zero_def)
qed

lemma three_steps_check: "check_line three_steps \<lparr>sm_interval = 1000, sm_count = 3, sm_add = 0\<rparr> = 0"
proof -
  have "queue three_steps = queue steps3" "queue_pos three_steps = queue_pos steps3"
    "max_error three_steps = max_error steps3" "last_step_clock three_steps = last_step_clock steps3"
    by (simp_all add: three_steps_def steps3_def stepcompress_alloc_def)
  then have "minmax_point three_steps = minmax_point steps3" by (simp add: fun_eq_iff minmax_point_def cong: if_cong)
  then show ?thesis by (simp add: check_line_def) (simp add: numeral_3_eq_3 steps3_points Let_def)
qed

theorem host_move_steps_in_time_witness:
  "\<exists>n s1 s2. command_find_and_dispatch (\<lambda>_. 0) (replicate 8 queue_step_parser)
      (frame_block 0x10 (payload (queue_step_msg 1000 \<lparr>sm_interval = 1000, sm_count = 3, sm_add = 0\<rparr> three_steps)))
      idle_stepper = Ret (1, n) s1 \<and>
    run_at [1000, 1500, 2000, 2500] (stepper_event_full 1) s1 = Ret () s2 \<and>
    hw s2 = hw s1 @ replicate 4 (Gpio_out_toggle 0) \<and>
    (\<exists>t. 3010 - t \<le> 25 \<and> timer_waketime s2 (Obj_timer 1) = not_before 2500 t)"
proof -
  have f: "next_sequence idle_stepper = 0x10" "\<not> need_sync idle_stepper" "\<not> sched_is_shutdown idle_stepper"
    "st_next_step_time (stepper_of idle_stepper 1) = 0" "timer_read_time idle_stepper = 0"
    "next_sequence idle_stepper AND NOT MESSAGE_SEQ_MASK = MESSAGE_DEST"
    "Gpio_out_toggle 0 = Gpio_out_toggle (st_step_pin (stepper_of idle_stepper 1))"
    "0 = st_step_pulse_ticks (stepper_of idle_stepper 1)"
    by (simp_all add: idle_stepper_def steppers0_defs sched_is_shutdown_def stepper_zero_def message_consts)
  have g: "queue three_steps ! (queue_pos three_steps + 2) = 3010" "max_error three_steps = 25"
    "last_step_clock three_steps = 0" "sc_oid three_steps = 1" "queue_step_msgtag three_steps = of_nat 4"
    by (simp_all add: three_steps_def stepcompress_alloc_def)
  have p: "(replicate 8 queue_step_parser) ! 4 = \<lparr>cp_in_shutdown = False,
      cp_param_types = [PT_byte, PT_uint32, PT_uint16, PT_int16], cp_func = command_queue_step\<rparr>"
    by (simp add: queue_step_parser_def)
  have c: "2 < unat (sm_count \<lparr>sm_interval = 1000, sm_count = 3, sm_add = 0\<rparr>)" "0 < (4 :: nat)" "4 < (96 :: nat)"
    "4 < length (replicate 8 queue_step_parser)" "sc_oid three_steps = ucast (1 :: u8)"
    "st_next_step_time (stepper_of idle_stepper 1) = ucast (last_step_clock three_steps)"
    "\<not> timer_is_before (ucast (last_step_clock three_steps) + sm_interval \<lparr>sm_interval = 1000, sm_count = 3, sm_add = 0\<rparr>)
       (timer_read_time idle_stepper)" "length [1000, 1500, 2000, 2500 :: u32] = 2 * 2"
    by (simp_all add: f(1-6) g timer_is_before_def)
  show ?thesis
    using host_move_steps_in_time [OF three_steps_check c(1) g(5) c(2-4) p f(6,2,3) idle_stepper_awaits c(5-8) f(7,8),
        of "\<lambda>_. 0" 1000 "[]"]
    unfolding f(1) g append_Nil2 by auto
qed

end
