(* ===== verification/Homing.thy ===== *)
theory Homing
  imports Trdispatch Step_Pipeline
begin

text \<open>
  Homing across the line: the message that \<open>trdispatch.c\<close> sends when one micro-controller reports its
  trigger, and what \<open>command.c\<close>, \<open>trsync.c\<close> and \<open>stepper.c\<close> do with it on another one.
\<close>

section \<open>One command in a block\<close>

lemma message_dispatch:
  assumes "0 < cid" "cid < 96" "cid < length ci" "length vs \<le> 10"
    and "list_all int_param (cp_param_types (ci ! cid))" "length (cp_param_types (ci ! cid)) = length vs"
    and "next_sequence s AND NOT MESSAGE_SEQ_MASK = MESSAGE_DEST" "\<not> need_sync s" "\<not> sched_is_shutdown s"
  shows "command_find_and_dispatch enc ci
      (frame_block (next_sequence s) (payload (message_alloc_and_encode (of_nat cid # vs))) @ rest) s =
    andThen (cp_func (ci ! cid) vs (s\<lparr>need_valid := False, next_sequence := next_seq (next_sequence s)\<rparr>))
      (\<lambda>_ s. Ret (1, length (payload (message_alloc_and_encode (of_nat cid # vs))) + MESSAGE_MIN) (command_send_ack s))"
proof -
  let ?cs = "[(cid, map Num_arg vs)]" and ?d = "of_nat cid # vs"
  let ?s = "s\<lparr>need_valid := False, next_sequence := next_seq (next_sequence s)\<rparr>"
  have l: "length (concat (map encode_int ?d)) = length (encode_cmds ?cs)"
    using assms(2) by (simp add: encode_int_id)
  have "length (encode_cmds ?cs) \<le> 1 + 5 * length vs"
    using length_encode_ints [of vs] by simp
  then have l51: "length (encode_cmds ?cs) \<le> 51" using assms(4) by simp
  have p: "payload (message_alloc_and_encode ?d) = encode_cmds ?cs"
    using encoded_payload [of ?d] l l51 assms(2)
    by (simp add: payload_def MESSAGE_PAYLOAD_MAX_def MESSAGE_MAX_def MESSAGE_MIN_def)
      (simp add: encode_int_id)
  have v: "list_all (valid_cmd ci) ?cs" using assms(1-3) nums_fit [OF assms(5,6)] by (simp add: valid_cmd_def)
  have m: "length (encode_cmds ?cs) + MESSAGE_MIN \<le> MESSAGE_MAX" using l51 by (simp add: message_consts)
  have r: "run_commands enc ci p ?cs ?s = andThen (cp_func (ci ! cid) vs ?s) (\<lambda>_ s. Ret () s)" for p
    using assms(9) by (simp add: sched_is_shutdown_def)
  show ?thesis
    using find_block_frame [OF m assms(7,8), of rest] dispatch_block [OF v]
    by (simp add: command_find_and_dispatch_def p r del: run_commands.simps) (simp add: andThen_assoc)
qed

section \<open>A trigger object that waits\<close>

text \<open>The object is configured, armed, and stops the steppers \<open>xs\<close>.\<close>

definition awaits_trigger :: "u8 \<Rightarrow> u8 list \<Rightarrow> 'z steppers_scheme \<Rightarrow> bool" where
  "awaits_trigger oid xs s \<longleftrightarrow>
     oid < oid_count s \<and> (\<exists>os. oids s = Some os \<and> unat oid < length os \<and> oid_type_of (os ! unat oid) = Some Trsync_type) \<and>
     stepper_ok s \<and> signals s oid xs \<and> ts_can_trigger (trsync_of s oid)"

lemma stopped_cong: "stepper_of s' = stepper_of s \<Longrightarrow> timer_inv s' = timer_inv s \<Longrightarrow> stopped x s' = stopped x s"
  by (simp add: stopped_def)

lemma awaits_trigger_receive:
  assumes "awaits_trigger oid xs s"
  shows "awaits_trigger oid xs (s\<lparr>need_valid := v, next_sequence := n\<rparr>)"
proof -
  let ?s = "s\<lparr>need_valid := v, next_sequence := n\<rparr>"
  have "timer_inv ?s = timer_inv s" by (rule timer_inv_cong) simp_all
  moreover have "pool ?s = pool s" by (rule pool_cong) simp_all
  ultimately show ?thesis using assms by (simp add: awaits_trigger_def stepper_ok_def signals_def)
qed

lemma del_timer_keeps_stopped:
  assumes "stepper_ok s" "d \<noteq> Periodic_timer" "d \<noteq> Sentinel_timer" "d \<noteq> Deleted_timer"
  shows "\<exists>s'. sched_del_timer d s = Ret () s' \<and> stepper_ok s' \<and> trsync_of s' = trsync_of s \<and>
    (\<forall>x. stopped x s \<longrightarrow> stopped x s')"
proof -
  obtain xs fs q where i: "timer_inv s xs" "pool s fs q" using assms(1) by (auto simp: stepper_ok_def)
  have goal: ?thesis if d: "sched_del_timer d s = Ret () s'" and inv: "timer_inv s' zs"
    and mem: "\<And>x. Obj_timer x \<in> set zs \<Longrightarrow> Obj_timer x \<in> set xs" for s' zs
  proof -
    note f = sched_only_steppers [OF sched_del_timer_only [OF d]]
    have "pool s' = pool s" by (rule pool_cong) (simp_all add: f)
    then have "stepper_ok s'" using inv i(2) by (auto simp: stepper_ok_def)
    moreover have "timer_inv s' ys \<longleftrightarrow> ys = zs" "timer_inv s ys \<longleftrightarrow> ys = xs" for ys
      using timer_inv_functional inv i(1) by blast+
    then have "stopped x s'" if "stopped x s" for x using that mem by (auto simp: stopped_def f)
    ultimately show ?thesis using d f by auto
  qed
  show ?thesis using i(1) assms(2-4)
  proof (rule sched_del_timer_cases)
    fix s' assume a: "sched_del_timer d s = Ret () s'" "timer_inv s' (Deleted_timer # tl xs)"
    show ?thesis by (rule goal [OF a]) (cases xs, auto)
  next
    fix s' assume a: "sched_del_timer d s = Ret () s'" "timer_inv s' (filter (\<lambda>x. x \<noteq> d) xs)"
    show ?thesis by (rule goal [OF a]) auto
  qed
qed

lemma trigger_command_stops:
  assumes "awaits_trigger oid xs s" "arg_oid args 0 = oid"
  shows "\<exists>s'. command_trsync_trigger stepper_signal args s = Ret () s' \<and> (\<forall>x \<in> set xs. stopped x s') \<and>
    ts_trigger_reason (trsync_of s' oid) = ucast (args ! 1) \<and> \<not> ts_can_trigger (trsync_of s' oid)"
proof -
  note a = assms(1) [unfolded awaits_trigger_def]
  have l: "trsync_oid_lookup oid s = Ret oid s"
  proof -
    obtain os where "oids s = Some os" "unat oid < length os" "oid_type_of (os ! unat oid) = Some Trsync_type"
      "\<not> oid_count s \<le> oid"
      using a by (auto simp: not_le)
    then show ?thesis by (simp add: trsync_oid_lookup_def oid_lookup_def oid_at_def)
  qed
  obtain s1 where s1: "trsync_do_trigger stepper_signal oid (ucast (args ! 1)) s = Ret () s1" "stepper_ok s1"
    "\<forall>x \<in> set xs. stopped x s1" "ts_trigger_reason (trsync_of s1 oid) = ucast (args ! 1)"
    using stepper_trigger.do_trigger_stops [of s oid xs "ucast (args ! 1)"] a by blast
  obtain s2 where s2: "sched_del_timer (Report_timer oid) s1 = Ret () s2" "stepper_ok s2"
    "trsync_of s2 = trsync_of s1" "\<forall>x. stopped x s1 \<longrightarrow> stopped x s2"
    using del_timer_keeps_stopped [OF s1(2), of "Report_timer oid"] by auto
  obtain s3 where s3: "sched_del_timer (Expire_timer oid) s2 = Ret () s3"
    "trsync_of s3 = trsync_of s2" "\<forall>x. stopped x s2 \<longrightarrow> stopped x s3"
    using del_timer_keeps_stopped [OF s2(2), of "Expire_timer oid"] by auto
  let ?s4 = "upd_ts oid (\<lambda>t. t\<lparr>ts_can_trigger := False, ts_report := False\<rparr>) s3"
  let ?s5 = "trsync_report oid False (ts_trigger_reason (trsync_of ?s4 oid)) 0 ?s4"
  have "command_trsync_trigger stepper_signal args s = Ret () ?s5"
    by (simp add: command_trsync_trigger_def assms(2) l s1(1) [unfolded One_nat_def] s2(1) s3(1) Let_def)
  moreover have "stopped x ?s5" if "x \<in> set xs" for x
  proof -
    have "timer_inv ?s5 = timer_inv s3"
      by (rule timer_inv_cong) (simp_all add: trsync_report_def command_sendf_def upd_ts_def)
    then have "stopped x ?s5 = stopped x s3"
      by (intro stopped_cong) (simp_all add: trsync_report_def command_sendf_def upd_ts_def)
    then show ?thesis using that s1(3) s2(4) s3(3) by blast
  qed
  moreover have "trsync_of ?s5 = trsync_of ?s4" by (simp add: trsync_report_def command_sendf_def)
  ultimately show ?thesis by (auto simp: upd_ts_def s3(2) s2(3) s1(4))
qed

section \<open>From one micro-controller to the steppers of another\<close>

lemma msg_bytes_payload: "msg_bytes (timed d qm) = payload qm"
  by (simp add: msg_bytes_def payload_def timed_def queue_message.extend_def)

text \<open>
  C12: Homing with several micro-controllers: when one of them reports that it can trigger no more, the
  host puts a message for every other one on its queue, and the block that carries it stops all
  steppers which wait for the trigger there, for the reason the host was started with.
\<close>

theorem report_stops_the_others:
  assumes "td_can_trigger td" "j \<in> set (tdm_list td)"
    and "msgblock_decode 5 block (length block) = Some (0, [tag, tm_trsync_oid (tdm td i), 0, r, clock])"
    and "trigger_msgtag (tdm td j) = of_nat cid" "0 < cid" "cid < 96" "cid < length ci"
    and "tm_trsync_oid (tdm td j) = ucast oid" "dispatch_reason td = ucast reason"
    and "ci ! cid = \<lparr>cp_in_shutdown = False, cp_param_types = [PT_byte, PT_byte],
                     cp_func = command_trsync_trigger stepper_signal\<rparr>"
    and "next_sequence s AND NOT MESSAGE_SEQ_MASK = MESSAGE_DEST" "\<not> need_sync s" "\<not> sched_is_shutdown s"
    and "awaits_trigger oid xs s"
  shows "\<exists>td' qm n s'. handle_trsync_state d i block td = Ret () td' \<and>
    qm \<in> set (queued_for td' (tm_sq (tdm td j)) (tm_cq (tdm td j))) \<and>
    command_find_and_dispatch enc ci (frame_block (next_sequence s) (msg_bytes qm) @ rest) s = Ret (1, n) s' \<and>
    (\<forall>x \<in> set xs. stopped x s') \<and> ts_trigger_reason (trsync_of s' oid) = reason"
proof -
  let ?qm = "trsync_trigger_msg d (tdm td j) (dispatch_reason td)"
  let ?vs = "[ucast oid, ucast reason] :: u32 list"
  let ?s = "s\<lparr>need_valid := False, next_sequence := next_seq (next_sequence s)\<rparr>"
  obtain td' where td': "handle_trsync_state d i block td = Ret () td'"
    "queued_for td' (tm_sq (tdm td j)) (tm_cq (tdm td j)) =
       queued_for td (tm_sq (tdm td j)) (tm_cq (tdm td j)) @ trigger_msgs d td (tdm_list td) (tm_sq (tdm td j)) (tm_cq (tdm td j))"
    using report_triggers_all [OF assms(1,3)] by blast
  have q: "?qm \<in> set (queued_for td' (tm_sq (tdm td j)) (tm_cq (tdm td j)))"
    using assms(2) by (auto simp: td'(2) trigger_msgs_def)
  have b: "msg_bytes ?qm = payload (message_alloc_and_encode (of_nat cid # ?vs))"
    by (simp add: trsync_trigger_msg_def msg_bytes_payload assms(4,8,9))
  have aa: "arg_oid ?vs 0 = oid" by (simp add: arg_oid_def)
  obtain s1 where s1: "command_trsync_trigger stepper_signal ?vs ?s = Ret () s1" "\<forall>x \<in> set xs. stopped x s1"
    "ts_trigger_reason (trsync_of s1 oid) = reason"
    using trigger_command_stops [OF awaits_trigger_receive [OF assms(14)] aa] by auto
  have c: "command_find_and_dispatch enc ci (frame_block (next_sequence s) (msg_bytes ?qm) @ rest) s =
      Ret (1, length (payload (message_alloc_and_encode (of_nat cid # ?vs))) + MESSAGE_MIN) (command_send_ack s1)"
    using message_dispatch [OF assms(5-7), of ?vs s enc rest] assms(10-13) s1(1)
    by (simp add: b int_param_def)
  have f: "stepper_of (command_send_ack s1) = stepper_of s1" "trsync_of (command_send_ack s1) = trsync_of s1"
    by (simp_all add: command_send_ack_def command_sendf_def Let_def)
  have "timer_inv (command_send_ack s1) = timer_inv s1"
    by (rule timer_inv_cong) (simp_all add: command_send_ack_def command_sendf_def Let_def)
  then have "stopped x (command_send_ack s1) = stopped x s1" for x by (rule stopped_cong [OF f(1)])
  then have st: "\<forall>x \<in> set xs. stopped x (command_send_ack s1)" using s1(2) by simp
  show ?thesis
  proof (intro exI conjI)
    show "handle_trsync_state d i block td = Ret () td'" by (fact td'(1))
    show "?qm \<in> set (queued_for td' (tm_sq (tdm td j)) (tm_cq (tdm td j)))" by (fact q)
    show "command_find_and_dispatch enc ci (frame_block (next_sequence s) (msg_bytes ?qm) @ rest) s =
      Ret (1, length (payload (message_alloc_and_encode (of_nat cid # ?vs))) + MESSAGE_MIN) (command_send_ack s1)"
      by (fact c)
    show "\<forall>x \<in> set xs. stopped x (command_send_ack s1)" by (fact st)
    show "ts_trigger_reason (trsync_of (command_send_ack s1) oid) = reason" by (simp add: f(2) s1(3))
  qed
qed

definition trsync_trigger_parser :: "steppers command_parser" where
  "trsync_trigger_parser = \<lparr>cp_in_shutdown = False, cp_param_types = [PT_byte, PT_byte],
     cp_func = command_trsync_trigger stepper_signal\<rparr>"

definition armed :: steppers where
  "armed = steppers1\<lparr>tss_func := (\<lambda>_. None)(1 := Some Stepper_stop),
     trsync_of := (\<lambda>_. trsync_zero)(5 := trsync_zero\<lparr>ts_signals := Some 1, ts_can_trigger := True\<rparr>),
     oids := Some (replicate 6 \<lparr>oid_type_of = Some Trsync_type, oid_data = None\<rparr>), oid_count := 6\<rparr>"

lemma armed_awaits: "awaits_trigger 5 [1] armed"
proof -
  have "timer_inv armed = timer_inv steppers1" by (rule timer_inv_cong) (simp_all add: armed_def)
  moreover have "pool armed = pool steppers1" by (rule pool_cong) (simp_all add: armed_def)
  ultimately have ok: "stepper_ok armed" using steppers1_ok by (simp add: stepper_ok_def)
  have nx: "tss_next steppers1 = (\<lambda>_. None)" by (simp add: steppers1_def steppers0_defs)
  show ?thesis unfolding awaits_trigger_def
    by (intro conjI ok) (simp_all add: armed_def signals_def nx)
qed

theorem report_stops_the_others_witness:
  "\<exists>td' qm n s'. handle_trsync_state fixed_point 2 (state_report [22, 4, 0, 2, 500]) two_mcus = Ret () td' \<and>
     qm \<in> set (queued_for td' 3 0) \<and>
     command_find_and_dispatch (\<lambda>_. 0) (replicate 30 trsync_trigger_parser) (frame_block 0x10 (msg_bytes qm)) armed = Ret (1, n) s' \<and>
     stopped 1 s' \<and> ts_trigger_reason (trsync_of s' 5) = 3"
proof -
  have f: "next_sequence armed = 0x10" "\<not> need_sync armed" "\<not> sched_is_shutdown armed"
    "next_sequence armed AND NOT MESSAGE_SEQ_MASK = MESSAGE_DEST"
    by (simp_all add: armed_def steppers1_def steppers0_defs sched_is_shutdown_def message_consts)
  have d: "msgblock_decode 5 (state_report [22, 4, 0, 2, 500]) (length (state_report [22, 4, 0, 2, 500])) =
      Some (0, [22, tm_trsync_oid (tdm two_mcus 2), 0, 2, 500])"
    by (simp add: decode_report two_mcus_eval)
  have t: "trigger_msgtag (tdm two_mcus 3) = of_nat 21" "tm_trsync_oid (tdm two_mcus 3) = ucast (5 :: u8)"
    "dispatch_reason two_mcus = ucast (3 :: u8)" "3 \<in> set (tdm_list two_mcus)"
    by (simp_all add: two_mcus_defs Let_def)
  have p: "(replicate 30 trsync_trigger_parser) ! 21 = \<lparr>cp_in_shutdown = False,
      cp_param_types = [PT_byte, PT_byte], cp_func = command_trsync_trigger stepper_signal\<rparr>"
    by (simp add: trsync_trigger_parser_def)
  have c: "0 < (21 :: nat)" "21 < (96 :: nat)" "21 < length (replicate 30 trsync_trigger_parser)" by simp_all
  from report_stops_the_others [where enc = "\<lambda>_. 0" and rest = "[]" and d = fixed_point,
      OF two_mcus_eval(2) t(4) d t(1) c t(2,3) p f(4,2,3) armed_awaits]
  show ?thesis by (auto simp: two_mcus_eval f)
qed

end
