(* ===== verification/Trapq.thy ===== *)
theory Trapq
  imports Complex_Main Poll_Reactor
begin

text \<open>
  \<open>klippy/chelper/trapq.c\<close>: the queue of moves with constant acceleration that the tool makes, and
  their history. A list has the head sentinel in front and the tail sentinel behind; the links are in
  Host_List. The operations on \<open>double\<close> values are an argument; what is proved of the geometry is
  proved of exact arithmetic, of which the code computes an approximation.
\<close>

section \<open>Exact arithmetic\<close>

definition exact :: "'a :: floor_ceiling double_ops" where
  "exact =
     \<lparr>d_lit = (\<lambda>m k. of_int m / 10 ^ k), d_of_int = of_int,
      d_to_int = (\<lambda>x. if x < 0 then \<lceil>x\<rceil> else \<lfloor>x\<rfloor>), d_ceil = (\<lambda>x. of_int \<lceil>x\<rceil>),
      d_add = (+), d_sub = (-), d_mul = (*), d_div = (/), d_abs = abs, d_less = (<), d_le = (\<le>), d_eq = (=)\<rparr>"

lemma exact_simps [simp]:
  "d_of_int exact = of_int"
  "d_add exact = (+)" "d_sub exact = (-)" "d_mul exact = (*)" "d_div exact = (/)" "d_abs exact = abs"
  "d_less exact = (<)" "d_le exact = (\<le>)" "d_eq exact = (=)" "d_zero exact = 0" "d_true exact x \<longleftrightarrow> x \<noteq> 0"
  by (simp_all add: exact_def d_zero_def d_true_def)

lemma exact_lits [simp]:
  "d_lit exact 5 (Suc 0) = 1 / 2" "d_lit exact (-5) (Suc 0) = - (1 / 2)" "d_lit exact 1 0 = 1" "d_lit exact (-1) 0 = -1"
  "d_lit exact 2 0 = 2" "d_lit exact 15 (Suc 0) = 3 / 2"
  by (simp_all add: exact_def)

text \<open>Change of sign: a product with \<open>-1\<close> is exact.\<close>

definition d_neg :: "'d double_ops \<Rightarrow> 'd \<Rightarrow> 'd" where
  "d_neg d x = d_mul d (d_lit d (-1) 0) x"

lemma exact_neg [simp]: "d_neg exact x = - x"
  by (simp add: d_neg_def)

section \<open>Data\<close>

record 'd coord =
  coord_x :: 'd
  coord_y :: 'd
  coord_z :: 'd

record 'd move =
  print_time :: 'd
  move_t :: 'd
  start_v :: 'd
  half_accel :: 'd
  start_pos :: "'d coord"
  axes_r :: "'d coord"

record 'd trapq =
  moves :: "'d move list"
  history :: "'d move list"

record 'd pull_move =
  pm_print_time :: 'd
  pm_move_t :: 'd
  pm_start_v :: 'd
  pm_accel :: 'd
  pm_start :: "'d coord"
  pm_r :: "'d coord"

definition tq_move_alloc :: "'d double_ops \<Rightarrow> 'd move" where
  "tq_move_alloc d =
     (let z = d_zero d; c = \<lparr>coord_x = z, coord_y = z, coord_z = z\<rparr> in
      \<lparr>print_time = z, move_t = z, start_v = z, half_accel = z, start_pos = c, axes_r = c\<rparr>)"

definition move_get_distance :: "'d double_ops \<Rightarrow> 'd move \<Rightarrow> 'd \<Rightarrow> 'd" where
  "move_get_distance d m move_time =
     d_mul d (d_add d (start_v m) (d_mul d (half_accel m) move_time)) move_time"

definition move_get_coord :: "'d double_ops \<Rightarrow> 'd move \<Rightarrow> 'd \<Rightarrow> 'd coord" where
  "move_get_coord d m move_time =
     (let move_dist = move_get_distance d m move_time in
      \<lparr>coord_x = d_add d (coord_x (start_pos m)) (d_mul d (coord_x (axes_r m)) move_dist),
       coord_y = d_add d (coord_y (start_pos m)) (d_mul d (coord_y (axes_r m)) move_dist),
       coord_z = d_add d (coord_z (start_pos m)) (d_mul d (coord_z (axes_r m)) move_dist)\<rparr>)"

text \<open>The end of a move in time, as the code computes it everywhere.\<close>

definition end_time :: "'d double_ops \<Rightarrow> 'd move \<Rightarrow> 'd" where
  "end_time d m = d_add d (print_time m) (move_t m)"

definition NEVER_TIME :: "'d double_ops \<Rightarrow> 'd" where "NEVER_TIME d = d_lit d 99999999999999999 1"
definition MAX_NULL_MOVE :: "'d double_ops \<Rightarrow> 'd" where "MAX_NULL_MOVE d = d_lit d 1 0"
definition HISTORY_EXPIRE :: "'d double_ops \<Rightarrow> 'd" where "HISTORY_EXPIRE d = d_lit d 30 0"

section \<open>Operations\<close>

definition trapq_alloc :: "'d double_ops \<Rightarrow> 'd trapq" where
  "trapq_alloc d =
     \<lparr>moves = [tq_move_alloc d, (tq_move_alloc d)\<lparr>print_time := NEVER_TIME d, move_t := NEVER_TIME d\<rparr>], history = []\<rparr>"

definition trapq_check_sentinels :: "'d double_ops \<Rightarrow> 'd trapq \<Rightarrow> 'd trapq" where
  "trapq_check_sentinels d tq =
     (let tail = last (moves tq) in
      if d_true d (print_time tail) then tq
      else if length (moves tq) = 2 then tq\<lparr>moves := butlast (moves tq) @ [tail\<lparr>print_time := NEVER_TIME d\<rparr>]\<rparr>
      else
        let m = last (butlast (moves tq));
            tail = tail\<lparr>print_time := end_time d m, start_pos := move_get_coord d m (move_t m)\<rparr>
        in tq\<lparr>moves := butlast (moves tq) @ [tail]\<rparr>)"

text \<open>The null move that fills the gap before \<open>m\<close>.\<close>

definition null_move :: "'d double_ops \<Rightarrow> 'd move \<Rightarrow> 'd move \<Rightarrow> 'd move" where
  "null_move d prev m =
     (let start = (if \<not> d_true d (print_time prev) \<and> d_less d (MAX_NULL_MOVE d) (print_time m)
                   then d_sub d (print_time m) (MAX_NULL_MOVE d) else end_time d prev)
      in (tq_move_alloc d)\<lparr>start_pos := start_pos m, print_time := start, move_t := d_sub d (print_time m) start\<rparr>)"

definition trapq_add_move :: "'d double_ops \<Rightarrow> 'd move \<Rightarrow> 'd trapq \<Rightarrow> 'd trapq" where
  "trapq_add_move d m tq =
     (let tail = last (moves tq); prev = last (butlast (moves tq));
          gap = (if d_less d (end_time d prev) (print_time m) then [null_move d prev m] else [])
      in tq\<lparr>moves := butlast (moves tq) @ gap @ [m] @ [tail\<lparr>print_time := d_zero d\<rparr>]\<rparr>)"

text \<open>One part of \<open>trapq_append\<close>: nothing for a time of 0, otherwise a move, whose end is returned.\<close>

definition append_part ::
    "'d double_ops \<Rightarrow> 'd \<Rightarrow> 'd \<Rightarrow> 'd \<Rightarrow> 'd coord \<Rightarrow> 'd \<times> 'd coord \<times> 'd trapq \<Rightarrow> 'd \<times> 'd coord \<times> 'd trapq" where
  "append_part d t v half_a r st =
     (case st of (time, pos, tq) \<Rightarrow>
        if d_true d t then
          let m = (tq_move_alloc d)\<lparr>print_time := time, move_t := t, start_v := v, half_accel := half_a,
                    start_pos := pos, axes_r := r\<rparr>
          in (d_add d time t, move_get_coord d m t, trapq_add_move d m tq)
        else (time, pos, tq))"

definition trapq_append ::
    "'d double_ops \<Rightarrow> 'd \<Rightarrow> 'd \<Rightarrow> 'd \<Rightarrow> 'd \<Rightarrow> 'd coord \<Rightarrow> 'd coord \<Rightarrow> 'd \<Rightarrow> 'd \<Rightarrow> 'd \<Rightarrow> 'd trapq \<Rightarrow> 'd trapq" where
  "trapq_append d time accel_t cruise_t decel_t pos r start_vel cruise_v accel tq =
     (let st = append_part d accel_t start_vel (d_mul d (d_lit d 5 1) accel) r (time, pos, tq);
          st = append_part d cruise_t cruise_v (d_zero d) r st;
          st = append_part d decel_t cruise_v (d_mul d (d_lit d (-5) 1) accel) r st
      in snd (snd st))"

text \<open>The first loop of \<open>trapq_finalize_moves\<close>, on the moves between the sentinels.\<close>

fun expire_moves :: "'d double_ops \<Rightarrow> 'd \<Rightarrow> 'd move list \<Rightarrow> 'd move list \<Rightarrow> 'd move list \<times> 'd move list" where
  "expire_moves d time [] hist = ([], hist)"
| "expire_moves d time (m # ms) hist =
     (if d_less d time (end_time d m) then (m # ms, hist)
      else expire_moves d time ms (if d_true d (start_v m) \<or> d_true d (half_accel m) then m # hist else hist))"

text \<open>The second one, from the oldest move on; the last of the list is \<open>latest\<close>.\<close>

fun expire_history :: "'d double_ops \<Rightarrow> 'd \<Rightarrow> 'd move list \<Rightarrow> 'd move list" where
  "expire_history d time [] = []"
| "expire_history d time (m # ms) =
     (if ms = [] \<or> d_less d time (end_time d m) then m # ms else expire_history d time ms)"

definition trapq_finalize_moves :: "'d double_ops \<Rightarrow> 'd \<Rightarrow> 'd trapq \<Rightarrow> 'd trapq" where
  "trapq_finalize_moves d time tq =
     (let head = hd (moves tq); tail = last (moves tq);
          (ms, hist) = expire_moves d time (butlast (tl (moves tq))) (history tq);
          tail = (if ms = [] then tail\<lparr>print_time := NEVER_TIME d\<rparr> else tail);
          hist = (if hist = [] then []
                  else let expire_time = d_sub d (end_time d (hd hist)) (HISTORY_EXPIRE d)
                       in rev (expire_history d expire_time (rev hist)))
      in tq\<lparr>moves := head # ms @ [tail], history := hist\<rparr>)"

text \<open>\<open>Prune any moves in the trapq history that were interrupted\<close>\<close>

fun prune_history :: "'d double_ops \<Rightarrow> 'd \<Rightarrow> 'd move list \<Rightarrow> 'd move list" where
  "prune_history d time [] = []"
| "prune_history d time (m # ms) =
     (if d_less d (print_time m) time then
        (if d_less d time (end_time d m) then m\<lparr>move_t := d_sub d time (print_time m)\<rparr> else m) # ms
      else prune_history d time ms)"

definition trapq_set_position :: "'d double_ops \<Rightarrow> 'd \<Rightarrow> 'd coord \<Rightarrow> 'd trapq \<Rightarrow> 'd trapq" where
  "trapq_set_position d time pos tq =
     (let tq = trapq_finalize_moves d (NEVER_TIME d) tq;
          hist = prune_history d time (history tq);
          m = (tq_move_alloc d)\<lparr>print_time := time, start_pos := pos\<rparr>
      in tq\<lparr>history := m # hist\<rparr>)"

fun trapq_extract :: "'d double_ops \<Rightarrow> nat \<Rightarrow> 'd \<Rightarrow> 'd \<Rightarrow> 'd move list \<Rightarrow> 'd pull_move list" where
  "trapq_extract d room start_t end_t [] = []"
| "trapq_extract d room start_t end_t (m # ms) =
     (if d_le d (end_time d m) start_t \<or> room = 0 then []
      else if d_le d end_t (print_time m) then trapq_extract d room start_t end_t ms
      else \<lparr>pm_print_time = print_time m, pm_move_t = move_t m, pm_start_v = start_v m,
            pm_accel = d_mul d (d_lit d 2 0) (half_accel m), pm_start = start_pos m, pm_r = axes_r m\<rparr>
        # trapq_extract d (room - 1) start_t end_t ms)"

definition trapq_extract_old :: "'d double_ops \<Rightarrow> nat \<Rightarrow> 'd \<Rightarrow> 'd \<Rightarrow> 'd trapq \<Rightarrow> 'd pull_move list" where
  "trapq_extract_old d room start_t end_t tq = trapq_extract d room start_t end_t (history tq)"

section \<open>The path\<close>

text \<open>Two moves join when the second starts when and where the first ends.\<close>

definition joins :: "'a :: floor_ceiling move \<Rightarrow> 'a move \<Rightarrow> bool" where
  "joins m n \<longleftrightarrow> end_time exact m = print_time n \<and> move_get_coord exact m (move_t m) = start_pos n"

definition path_ok :: "'a :: floor_ceiling move list \<Rightarrow> bool" where
  "path_ok ms \<longleftrightarrow> successively joins ms \<and> (\<forall>m \<in> set ms. 0 \<le> move_t m)"

text \<open>
  The moves \<open>ms\<close> of the queue between its sentinels are a path. The last one does not start at 0: this
  time stands for the head sentinel.
\<close>

definition queue_path :: "'a :: floor_ceiling trapq \<Rightarrow> 'a move list \<Rightarrow> bool" where
  "queue_path tq ms \<longleftrightarrow> (\<exists>head tail. moves tq = head # ms @ [tail] \<and> print_time head = 0 \<and> move_t head = 0) \<and>
     path_ok ms \<and> (ms \<noteq> [] \<longrightarrow> 0 < print_time (last ms))"

text \<open>A move that starts at \<open>time\<close> and \<open>pos\<close> may follow: not before the end, and from where the path ends.\<close>

definition goes_on :: "'a :: floor_ceiling move list \<Rightarrow> 'a \<Rightarrow> 'a coord \<Rightarrow> bool" where
  "goes_on ms time pos \<longleftrightarrow> 0 < time \<and>
     (ms \<noteq> [] \<longrightarrow> end_time exact (last ms) \<le> time \<and> move_get_coord exact (last ms) (move_t (last ms)) = pos)"

lemma path_ok_append:
  "path_ok (ms @ ns) \<longleftrightarrow> path_ok ms \<and> path_ok ns \<and> (ms \<noteq> [] \<and> ns \<noteq> [] \<longrightarrow> joins (last ms) (hd ns))"
  by (auto simp: path_ok_def successively_append_iff)

lemma path_ok_single [simp]: "path_ok [m] \<longleftrightarrow> 0 \<le> move_t m" "path_ok []"
  by (simp_all add: path_ok_def)

lemma null_move_fields:
  "move_get_coord exact (null_move exact prev m) t = start_pos m" "start_pos (null_move exact prev m) = start_pos m"
  "end_time exact (null_move exact prev m) = print_time m"
  by (cases "start_pos m", simp_all add: null_move_def move_get_coord_def move_get_distance_def tq_move_alloc_def
      Let_def end_time_def)

lemma add_move_path:
  assumes "queue_path tq ms" "goes_on ms (print_time m) (start_pos m)" "0 \<le> move_t m"
  shows "\<exists>ns. queue_path (trapq_add_move exact m tq) (ms @ ns @ [m]) \<and> (ns = [] \<or> (\<exists>n. ns = [n] \<and> (\<forall>t. move_get_coord exact n t = start_pos m)))"
proof -
  obtain h t where q: "moves tq = h # ms @ [t]" "print_time h = 0" "move_t h = 0" "path_ok ms"
    "ms \<noteq> [] \<longrightarrow> 0 < print_time (last ms)"
    using assms(1) by (auto simp: queue_path_def)
  note g = assms(2) [unfolded goes_on_def]
  define prev where "prev = last (butlast (moves tq))"
  have prev: "prev = (if ms = [] then h else last ms)" by (simp add: prev_def q(1) butlast_append)
  define n where "n = null_move exact prev m"
  define gap where "gap = (if end_time exact prev < print_time m then [n] else [])"
  have e: "moves (trapq_add_move exact m tq) = h # (ms @ gap @ [m]) @ [t\<lparr>print_time := 0\<rparr>]"
    by (simp add: trapq_add_move_def Let_def q(1) butlast_append gap_def n_def prev_def)
  have nt: "0 \<le> move_t n" if "end_time exact prev < print_time m"
    using that by (simp add: n_def null_move_def Let_def MAX_NULL_MOVE_def)
  have nm: "joins n m" by (simp add: joins_def n_def null_move_fields)
  have "joins prev n" if "ms \<noteq> []"
  proof -
    have "print_time n = end_time exact prev" using that q(5) by (simp add: n_def null_move_def prev Let_def)
    then show ?thesis using that g by (simp add: joins_def prev) (simp add: n_def null_move_fields)
  qed
  moreover have "joins prev m" if "ms \<noteq> []" "\<not> end_time exact prev < print_time m"
    using that g by (simp add: joins_def prev)
  ultimately have "path_ok (ms @ gap @ [m])"
    using q(4) nt nm assms(3) by (auto simp: path_ok_append gap_def prev)
  then have "queue_path (trapq_add_move exact m tq) (ms @ gap @ [m])"
    using e q(2,3) g by (simp add: queue_path_def)
  then show ?thesis by (intro exI [of _ gap]) (simp add: gap_def n_def null_move_fields)
qed

lemma add_move_goes_on:
  "goes_on (xs @ [m]) t pos \<longleftrightarrow> 0 < t \<and> end_time exact m \<le> t \<and> move_get_coord exact m (move_t m) = pos"
  by (simp add: goes_on_def)

text \<open>The place \<open>len\<close> along the direction \<open>r\<close>.\<close>

definition along :: "'a :: floor_ceiling coord \<Rightarrow> 'a coord \<Rightarrow> 'a \<Rightarrow> 'a coord" where
  "along pos r len = \<lparr>coord_x = coord_x pos + coord_x r * len, coord_y = coord_y pos + coord_y r * len,
     coord_z = coord_z pos + coord_z r * len\<rparr>"

lemma along_along: "along (along pos r a) r b = along pos r (a + b)" "along pos r 0 = pos"
  by (simp_all add: along_def algebra_simps)

lemma append_part_path:
  assumes "queue_path tq ms" "goes_on ms time pos" "0 \<le> t" "append_part exact t v ha r (time, pos, tq) = (time', pos', tq')"
  shows "\<exists>ns. queue_path tq' (ms @ ns) \<and> goes_on (ms @ ns) time' pos' \<and> time' = time + t \<and>
    pos' = along pos r ((v + ha * t) * t)"
proof (cases "t = 0")
  case True
  then show ?thesis using assms by (intro exI [of _ "[]"]) (simp add: append_part_def along_along)
next
  case False
  define m where "m = (tq_move_alloc exact)\<lparr>print_time := time, move_t := t, start_v := v, half_accel := ha,
                    start_pos := pos, axes_r := r\<rparr>"
  have f: "time' = time + t" "pos' = move_get_coord exact m t" "tq' = trapq_add_move exact m tq"
    using assms(4) False by (simp_all add: append_part_def Let_def m_def)
  have g: "goes_on ms (print_time m) (start_pos m)" "0 \<le> move_t m" using assms(2,3) by (simp_all add: m_def)
  obtain ns where "queue_path tq' (ms @ ns @ [m])" using add_move_path [OF assms(1) g] f(3) by blast
  moreover have "goes_on (ms @ ns @ [m]) time' pos'"
    using add_move_goes_on [of "ms @ ns" m] assms(2,3) by (simp add: f goes_on_def m_def end_time_def)
  moreover have "pos' = along pos r ((v + ha * t) * t)"
    by (simp add: f(2) move_get_coord_def move_get_distance_def m_def along_def Let_def)
  ultimately show ?thesis using f(1) by (intro exI [of _ "ns @ [m]"]) simp
qed

text \<open>
  C3: The tool never jumps: when moves are appended one after the other, each from the time and the
  place the last one ended or later from the same place, the queue stays a path, on which every move,
  the parts of acceleration and the waits between included, starts exactly when and where the one
  before it ends; and a move of trapezoidal speed ends at the distance that is the area under its speed.
\<close>

theorem trapq_append_path:
  assumes "queue_path tq ms" "goes_on ms time pos" "0 \<le> accel_t" "0 \<le> cruise_t" "0 \<le> decel_t"
  shows "\<exists>ns. queue_path (trapq_append exact time accel_t cruise_t decel_t pos r start_vel cruise_v accel tq) (ms @ ns) \<and>
    goes_on (ms @ ns) (time + accel_t + cruise_t + decel_t)
      (along pos r ((start_vel + accel / 2 * accel_t) * accel_t + cruise_v * cruise_t
         + (cruise_v - accel / 2 * decel_t) * decel_t))"
proof -
  obtain t1 p1 q1 where 1: "append_part exact accel_t start_vel (d_mul exact (d_lit exact 5 1) accel) r (time, pos, tq) = (t1, p1, q1)"
    by (metis prod_cases3)
  obtain t2 p2 q2 where 2: "append_part exact cruise_t cruise_v (d_zero exact) r (t1, p1, q1) = (t2, p2, q2)"
    by (metis prod_cases3)
  obtain t3 p3 q3 where 3: "append_part exact decel_t cruise_v (d_mul exact (d_lit exact (-5) 1) accel) r (t2, p2, q2) = (t3, p3, q3)"
    by (metis prod_cases3)
  have e: "trapq_append exact time accel_t cruise_t decel_t pos r start_vel cruise_v accel tq = q3"
    using 1 2 3 by (simp add: trapq_append_def Let_def)
  obtain n1 where n1: "queue_path q1 (ms @ n1)" "goes_on (ms @ n1) t1 p1" "t1 = time + accel_t" "p1 = along pos r ((start_vel + accel / 2 * accel_t) * accel_t)"
    using append_part_path [OF assms(1-3) 1] by auto
  obtain n2 where n2: "queue_path q2 ((ms @ n1) @ n2)" "goes_on ((ms @ n1) @ n2) t2 p2" "t2 = t1 + cruise_t" "p2 = along p1 r (cruise_v * cruise_t)"
    using append_part_path [OF n1(1,2) assms(4) 2] by auto
  obtain n3 where n3: "queue_path q3 (((ms @ n1) @ n2) @ n3)" "goes_on (((ms @ n1) @ n2) @ n3) t3 p3" "t3 = t2 + decel_t" "p3 = along p2 r ((cruise_v - accel / 2 * decel_t) * decel_t)"
    using append_part_path [OF n2(1,2) assms(5) 3] by auto
  show ?thesis using n3 n1(3,4) n2(3,4) by (intro exI [of _ "n1 @ n2 @ n3"]) (simp add: e along_along)
qed

theorem trapq_append_path_witness:
  "queue_path (trapq_alloc (exact :: rat double_ops)) [] \<and>
    (\<exists>ns. queue_path (trapq_append (exact :: rat double_ops) 2 (1 / 10) 1 (1 / 10) (start_pos (tq_move_alloc exact))
        \<lparr>coord_x = 1, coord_y = 0, coord_z = 0\<rparr> 0 10 100 (trapq_alloc exact)) ns \<and>
      goes_on ns (16 / 5) \<lparr>coord_x = 11, coord_y = 0, coord_z = 0\<rparr>)"
proof -
  have q: "queue_path (trapq_alloc (exact :: rat double_ops)) []"
    by (simp add: queue_path_def trapq_alloc_def tq_move_alloc_def Let_def)
  show ?thesis
    using trapq_append_path [OF q, of 2 "start_pos (tq_move_alloc exact)" "1 / 10" 1 "1 / 10"
      "\<lparr>coord_x = 1, coord_y = 0, coord_z = 0\<rparr>" 0 10 100] q
    by (simp add: goes_on_def along_def tq_move_alloc_def Let_def)
qed

end
