(* ===== verification/Itersolve.thy ===== *)
theory Itersolve
  imports Trapq Step_Queue
begin

text \<open>
  \<open>klippy/chelper/itersolve.c\<close>: the times at which a stepper has to step, found by a search for the
  times at which the position that its kinematics computes from the moves of the queue passes the
  middle between two steps. The steps go to \<open>stepcompress.c\<close>.
\<close>

section \<open>Data\<close>

text \<open>
  A callback gets the commanded position of its stepper, the queue with the place of the move in it,
  and the time in the move; it returns a position, or \<open>None\<close> when it walks past an end of the queue. A
  post callback changes the commanded position.
\<close>

type_synonym 'd calc_position = "'d \<Rightarrow> 'd move list \<Rightarrow> nat \<Rightarrow> 'd \<Rightarrow> 'd option"

text \<open>The pointers \<open>sc\<close> and \<open>tq\<close> are arguments of the operations.\<close>

record 'd stepper_kinematics =
  step_dist :: 'd
  commanded_pos :: 'd
  last_flush_time :: 'd
  last_move_time :: 'd
  active_flags :: u32
  gen_steps_pre_active :: 'd
  gen_steps_post_active :: 'd
  calc_position_cb :: "'d calc_position"
  post_cb :: "('d \<Rightarrow> 'd) option"

definition AF_X :: u32 where "AF_X = 1"
definition AF_Y :: u32 where "AF_Y = 2"
definition AF_Z :: u32 where "AF_Z = 4"
definition SEEK_TIME_RESET :: "'d double_ops \<Rightarrow> 'd" where "SEEK_TIME_RESET d = d_lit d 100 6"

text \<open>The functions of \<open>stepcompress.c\<close> that are called, on a state \<open>'c\<close>.\<close>

record ('c, 'd) step_sink =
  sink_dir :: "'c \<Rightarrow> int"
  sink_append :: "int \<Rightarrow> 'd \<Rightarrow> 'd \<Rightarrow> 'c \<Rightarrow> (int, 'c) outcome"
  sink_commit :: "'c \<Rightarrow> (int, 'c) outcome"

text \<open>
  \<open>stepcompress_append\<close> computes from the times of the move and of the step the ticks after
  \<open>last_step_clock\<close>; this conversion is the argument \<open>ticks\<close>.
\<close>

definition stepcompress_sink :: "('d \<Rightarrow> 'd \<Rightarrow> stepcompress \<Rightarrow> u64) \<Rightarrow> (stepcompress, 'd) step_sink" where
  "stepcompress_sink ticks =
     \<lparr>sink_dir = stepcompress_get_step_dir,
      sink_append = (\<lambda>dir mt st sc. stepcompress_append dir (ticks mt st sc) sc),
      sink_commit = stepcompress_commit\<rparr>"

text \<open>The local variables of the search. A guess is a time with the position then.\<close>

record 'd search =
  old_guess :: "'d \<times> 'd"
  cur_guess :: "'d \<times> 'd"
  step_dir :: int
  is_dir_change :: bool
  have_bracket :: bool
  check_oscillate :: bool
  target :: 'd
  last_time :: 'd
  low_time :: 'd
  high_time :: 'd

section \<open>The search\<close>

definition d_min :: "'d double_ops \<Rightarrow> 'd \<Rightarrow> 'd \<Rightarrow> 'd" where
  "d_min d x limit = (if d_less d limit x then limit else x)"

text \<open>
  \<open>Use the "secant method" to guess a new time\<close>, or fall back; \<open>None\<close> is the \<open>break\<close>. A quotient by 0
  is no number between the bounds.
\<close>

definition next_guess :: "'d double_ops \<Rightarrow> 'd \<Rightarrow> 'd search \<Rightarrow> ('d \<times> 'd search) option" where
  "next_guess d end_t l =
     (let guess_dist = d_sub d (snd (cur_guess l)) (target l);
          og_dist = d_sub d (snd (old_guess l)) (target l);
          next_time = d_div d (d_sub d (d_mul d (fst (old_guess l)) guess_dist) (d_mul d (fst (cur_guess l)) og_dist))
                        (d_sub d guess_dist og_dist)
      in if d_less d (low_time l) next_time \<and> d_less d next_time (high_time l) then Some (next_time, l)
         else if have_bracket l then
           Some (d_mul d (d_add d (low_time l) (high_time l)) (d_lit d 5 1), l\<lparr>check_oscillate := False\<rparr>)
         else if d_le d end_t (fst (cur_guess l)) then None
         else Some (high_time l, l\<lparr>high_time :=
                d_min d (d_sub d (d_mul d (d_lit d 2 0) (high_time l)) (last_time l)) end_t\<rparr>))"

text \<open>One step back or forth in the direction \<open>dir\<close>.\<close>

definition two_halves :: "'d double_ops \<Rightarrow> int \<Rightarrow> 'd \<Rightarrow> 'd \<Rightarrow> 'd" where
  "two_halves d dir half_step x =
     (if dir \<noteq> 0 then d_add d (d_add d x half_step) half_step else d_sub d (d_sub d x half_step) half_step)"

text \<open>
  \<open>Guess does not look close enough - update bounds\<close>: whether to guess again, and whether to commit
  the pending step before that.
\<close>

definition update_bounds :: "'d double_ops \<Rightarrow> 'd \<Rightarrow> 'd \<Rightarrow> 'd search \<Rightarrow> bool \<times> bool \<times> 'd search" where
  "update_bounds d half_step guess_dist l =
     (let rel_dist = (if step_dir l \<noteq> 0 then guess_dist else d_neg d guess_dist);
          time = fst (cur_guess l);
          l = (if d_less d (d_zero d) rel_dist then
                 let l = (if have_bracket l \<and> d_le d (fst (old_guess l)) (low_time l)
                          then (if check_oscillate l then l\<lparr>old_guess := cur_guess l\<rparr> else l)\<lparr>check_oscillate := True\<rparr>
                          else l)
                 in l\<lparr>high_time := time, have_bracket := True\<rparr>
               else if d_less d rel_dist (d_neg d (d_add d (d_add d half_step half_step) (d_lit d 10 9))) then
                 let dir = (if step_dir l = 0 then 1 else 0) in
                 l\<lparr>step_dir := dir, target := two_halves d dir half_step (target l), low_time := last_time l,
                   high_time := time, is_dir_change := True, have_bracket := True, check_oscillate := False\<rparr>
               else l\<lparr>low_time := time\<rparr>);
          again = (\<not> have_bracket l \<or> d_less d (d_lit d 1 9) (d_sub d (high_time l) (low_time l)))
      in (again, \<not> is_dir_change l \<and> d_le d (d_neg d half_step) rel_dist, l))"

text \<open>\<open>Reset bounds checking\<close> behind a step.\<close>

definition step_found :: "'d double_ops \<Rightarrow> 'd \<Rightarrow> 'd \<Rightarrow> 'd search \<Rightarrow> 'd search" where
  "step_found d half_step end_t l =
     (let time = fst (cur_guess l);
          delta = d_mul d (d_lit d 15 1) (d_sub d time (last_time l));
          delta = (if d_less d delta (d_lit d 1 9) then d_lit d 1 9 else delta);
          delta = (if is_dir_change l \<and> d_less d (SEEK_TIME_RESET d) delta then SEEK_TIME_RESET d else delta)
      in l\<lparr>target := two_halves d (step_dir l) half_step (target l), last_time := time, low_time := time,
           high_time := d_min d (d_add d time delta) end_t, is_dir_change := False, have_bracket := False,
           check_oscillate := False\<rparr>)"

text \<open>A new guess: its time and position.\<close>

definition guess_at :: "'a \<Rightarrow> 'a \<Rightarrow> 'a search \<Rightarrow> 'a search" where
  "guess_at n p l = l\<lparr>old_guess := cur_guess l, cur_guess := (n, p)\<rparr>"

text \<open>What follows from a guess: whether to guess again, and whether to commit before.\<close>

definition verdict :: "'d double_ops \<Rightarrow> 'd \<Rightarrow> 'd search \<Rightarrow> bool \<times> bool \<times> 'd search" where
  "verdict d half_step l =
     (let guess_dist = d_sub d (snd (cur_guess l)) (target l) in
      if d_less d (d_lit d 1 9) (d_abs d guess_dist) then update_bounds d half_step guess_dist l
      else (False, False, l))"

partial_function (option) gen_steps_loop ::
    "'d double_ops \<Rightarrow> ('c, 'd) step_sink \<Rightarrow> ('d \<Rightarrow> 'd option) \<Rightarrow> 'd \<Rightarrow> 'd \<Rightarrow> 'd \<Rightarrow> 'd search \<Rightarrow> 'c
       \<Rightarrow> (int \<times> 'd search, 'c) outcome option" where
  "gen_steps_loop d sink pos half_step start_t end_t l c =
     (case next_guess d end_t l of
        None \<Rightarrow> Some (Ret (0, l) c)
      | Some (next_time, l) \<Rightarrow>
          (case pos next_time of
             None \<Rightarrow> Some Fault
           | Some p \<Rightarrow>
               (case verdict d half_step (guess_at next_time p l) of
                  (again, commit, l) \<Rightarrow>
                    if again then
                      (case (if commit then sink_commit sink c else Ret 0 c) of
                         Ret _ c \<Rightarrow> gen_steps_loop d sink pos half_step start_t end_t l c
                       | Shutdown r c \<Rightarrow> Some (Shutdown r c)
                       | Fault \<Rightarrow> Some Fault)
                    else
                      (case sink_append sink (step_dir l) start_t next_time c of
                         Ret ret c \<Rightarrow>
                           if ret \<noteq> 0 then Some (Ret (ret, l) c)
                           else gen_steps_loop d sink pos half_step start_t end_t (step_found d half_step end_t l) c
                       | Shutdown r c \<Rightarrow> Some (Shutdown r c)
                       | Fault \<Rightarrow> Some Fault))))"

text \<open>The start of the search.\<close>

definition first_search :: "'d double_ops \<Rightarrow> 'd \<Rightarrow> 'd \<Rightarrow> 'd \<Rightarrow> int \<Rightarrow> 'd \<Rightarrow> 'd search" where
  "first_search d half_step start end_t dir pos =
     \<lparr>old_guess = (start, pos), cur_guess = (start, pos), step_dir = dir, is_dir_change = False, have_bracket = False,
      check_oscillate = False,
      target = (if dir \<noteq> 0 then d_add d pos half_step else d_sub d pos half_step),
      last_time = start, low_time = start, high_time = d_min d (d_add d start (SEEK_TIME_RESET d)) end_t\<rparr>"

text \<open>\<open>i\<close> is the place of the move in the queue \<open>ms\<close>.\<close>

definition itersolve_gen_steps_range ::
    "'d double_ops \<Rightarrow> ('c, 'd) step_sink \<Rightarrow> 'd move list \<Rightarrow> nat \<Rightarrow> 'd \<Rightarrow> 'd \<Rightarrow> 'd stepper_kinematics \<Rightarrow> 'c
       \<Rightarrow> (int \<times> 'd stepper_kinematics, 'c) outcome option" where
  "itersolve_gen_steps_range d sink ms i abs_start abs_end sk c =
     (let m = ms ! i;
          half_step = d_mul d (d_lit d 5 1) (step_dist sk);
          start = d_sub d abs_start (print_time m);
          start = (if d_less d start (d_zero d) then d_zero d else start);
          end_t = d_min d (d_sub d abs_end (print_time m)) (move_t m);
          l = first_search d half_step start end_t (sink_dir sink c) (commanded_pos sk)
      in map_option (\<lambda>m. andThen m (\<lambda>r c.
           let (ret, l) = r in
           if ret \<noteq> 0 then Ret (ret, sk) c
           else
             let pos = (if step_dir l \<noteq> 0 then d_sub d (target l) half_step else d_add d (target l) half_step);
                 pos = (case post_cb sk of None \<Rightarrow> pos | Some f \<Rightarrow> f pos)
             in Ret (0, sk\<lparr>commanded_pos := pos\<rparr>) c))
           (gen_steps_loop d sink (calc_position_cb sk (commanded_pos sk) ms i) half_step (print_time m) end_t l c))"

section \<open>Steps for the moves of the queue\<close>

definition check_active :: "'d double_ops \<Rightarrow> u32 \<Rightarrow> 'd move \<Rightarrow> bool" where
  "check_active d af m \<longleftrightarrow>
     (af AND AF_X \<noteq> 0 \<and> d_true d (coord_x (axes_r m))) \<or> (af AND AF_Y \<noteq> 0 \<and> d_true d (coord_y (axes_r m))) \<or>
     (af AND AF_Z \<noteq> 0 \<and> d_true d (coord_z (axes_r m)))"

text \<open>The first move from the place \<open>i\<close> on that ends behind \<open>time\<close>; \<open>None\<close> is a walk past the tail.\<close>

function seek_move :: "'d double_ops \<Rightarrow> 'd \<Rightarrow> 'd move list \<Rightarrow> nat \<Rightarrow> nat option" where
  "seek_move d time ms i =
     (if i \<ge> length ms then None
      else if d_le d (end_time d (ms ! i)) time then seek_move d time ms (i + 1) else Some i)"
  by pat_completeness auto
termination by (relation "measure (\<lambda>(d, time, ms, i). length ms - i)") auto

declare seek_move.simps [simp del]

text \<open>The walk back over the moves that were skipped.\<close>

fun back_up :: "'d double_ops \<Rightarrow> 'd \<Rightarrow> 'd move list \<Rightarrow> nat \<Rightarrow> nat \<Rightarrow> nat" where
  "back_up d abs_start ms (Suc (Suc n)) pm =
     (if d_less d abs_start (print_time (ms ! pm)) then back_up d abs_start ms (Suc n) (pm - 1) else pm)"
| "back_up d abs_start ms skip pm = pm"

text \<open>Go on with a stepper after a call that succeeded.\<close>

definition on_success ::
    "(int \<times> 'd stepper_kinematics, 'c) outcome option \<Rightarrow>
     ('d stepper_kinematics \<Rightarrow> 'c \<Rightarrow> (int \<times> 'd stepper_kinematics, 'c) outcome option)
       \<Rightarrow> (int \<times> 'd stepper_kinematics, 'c) outcome option" where
  "on_success m f =
     (case m of
        None \<Rightarrow> None
      | Some (Ret r c) \<Rightarrow> if fst r \<noteq> 0 then m else f (snd r) c
      | Some (Shutdown e c) \<Rightarrow> m
      | Some Fault \<Rightarrow> m)"

fun gen_steps_moves ::
    "'d double_ops \<Rightarrow> ('c, 'd) step_sink \<Rightarrow> 'd move list \<Rightarrow> nat list \<Rightarrow> 'd \<Rightarrow> 'd \<Rightarrow> 'd stepper_kinematics \<Rightarrow> 'c
       \<Rightarrow> (int \<times> 'd stepper_kinematics, 'c) outcome option" where
  "gen_steps_moves d sink ms [] abs_start abs_end sk c = Some (Ret (0, sk) c)"
| "gen_steps_moves d sink ms (pm # pms) abs_start abs_end sk c =
     on_success (itersolve_gen_steps_range d sink ms pm abs_start abs_end sk c)
       (gen_steps_moves d sink ms pms abs_start abs_end)"

text \<open>The loop over the moves; \<open>skip\<close> is \<open>skip_count\<close> and \<open>force\<close> is \<open>force_steps_time\<close>.\<close>

definition pre_active ::
    "'d double_ops \<Rightarrow> ('c, 'd) step_sink \<Rightarrow> 'd move list \<Rightarrow> 'd \<Rightarrow> 'd \<Rightarrow> nat \<Rightarrow> nat \<Rightarrow> 'd \<Rightarrow> 'd stepper_kinematics \<Rightarrow> 'c
       \<Rightarrow> (int \<times> 'd stepper_kinematics, 'c) outcome option" where
  "pre_active d sink ms last_flush flush_time i skip force sk c =
     (if skip \<noteq> 0 \<and> d_true d (gen_steps_pre_active sk) then
        let abs_start = d_sub d (print_time (ms ! i)) (gen_steps_pre_active sk);
            abs_start = (if d_less d abs_start last_flush then last_flush else abs_start);
            abs_start = (if d_less d abs_start force then force else abs_start)
        in gen_steps_moves d sink ms [back_up d abs_start ms skip (i - 1)..<i] abs_start flush_time sk c
      else Some (Ret (0, sk) c))"

function generate_loop ::
    "'d double_ops \<Rightarrow> ('c, 'd) step_sink \<Rightarrow> 'd move list \<Rightarrow> 'd \<Rightarrow> 'd \<Rightarrow> nat \<Rightarrow> nat \<Rightarrow> 'd \<Rightarrow> 'd stepper_kinematics \<Rightarrow> 'c
       \<Rightarrow> (int \<times> 'd stepper_kinematics, 'c) outcome option" where
  "generate_loop d sink ms last_flush flush_time i skip force sk c =
     (if i \<ge> length ms then Some Fault
      else
        let m = ms ! i; move_end = end_time d m in
        if check_active d (active_flags sk) m then
          on_success (pre_active d sink ms last_flush flush_time i skip force sk c) (\<lambda>sk c.
          on_success (itersolve_gen_steps_range d sink ms i last_flush flush_time sk c) (\<lambda>sk c.
            if d_le d flush_time move_end then Some (Ret (0, sk\<lparr>last_move_time := flush_time\<rparr>) c)
            else generate_loop d sink ms last_flush flush_time (i + 1) 0
                   (d_add d move_end (gen_steps_post_active sk)) (sk\<lparr>last_move_time := move_end\<rparr>) c))
        else
          on_success
            (if d_less d (print_time m) force
             then itersolve_gen_steps_range d sink ms i last_flush (d_min d force flush_time) sk c
             else Some (Ret (0, sk) c)) (\<lambda>sk c.
          if d_le d (d_add d flush_time (gen_steps_pre_active sk)) move_end then Some (Ret (0, sk) c)
          else generate_loop d sink ms last_flush flush_time (i + 1)
                 (if d_less d (print_time m) force then 1 else skip + 1) force sk c))"
  by pat_completeness auto
termination by (relation "measure (\<lambda>(d, sink, ms, last_flush, flush_time, i, skip, force, sk, c). length ms - i)") auto

declare generate_loop.simps [simp del]

text \<open>
  The queue is shared by the steppers; it is an argument, \<open>None\<close> when \<open>sk->tq\<close> is \<open>NULL\<close>, and its new
  state is returned by \<open>trapq_check_sentinels\<close>, which is called first.
\<close>

definition itersolve_generate_steps ::
    "'d double_ops \<Rightarrow> ('c, 'd) step_sink \<Rightarrow> 'd trapq option \<Rightarrow> 'd \<Rightarrow> 'd stepper_kinematics \<Rightarrow> 'c
       \<Rightarrow> (int \<times> 'd stepper_kinematics, 'c) outcome option" where
  "itersolve_generate_steps d sink tq flush_time sk c =
     (let last_flush = last_flush_time sk; sk = sk\<lparr>last_flush_time := flush_time\<rparr> in
      case tq of
        None \<Rightarrow> Some (Ret (0, sk) c)
      | Some tq \<Rightarrow>
          (let ms = moves (trapq_check_sentinels d tq) in
           case seek_move d last_flush ms 0 of
             None \<Rightarrow> Some Fault
           | Some i \<Rightarrow>
               generate_loop d sink ms last_flush flush_time i 0
                 (d_add d (last_move_time sk) (gen_steps_post_active sk)) sk c))"

function active_from :: "'d double_ops \<Rightarrow> u32 \<Rightarrow> 'd \<Rightarrow> 'd move list \<Rightarrow> nat \<Rightarrow> 'd option" where
  "active_from d af flush_time ms i =
     (if i \<ge> length ms then None
      else if check_active d af (ms ! i) then Some (print_time (ms ! i))
      else if d_le d flush_time (end_time d (ms ! i)) then Some (d_zero d)
      else active_from d af flush_time ms (i + 1))"
  by pat_completeness auto
termination by (relation "measure (\<lambda>(d, af, flush_time, ms, i). length ms - i)") auto

declare active_from.simps [simp del]

definition itersolve_check_active ::
    "'d double_ops \<Rightarrow> 'd trapq option \<Rightarrow> 'd \<Rightarrow> 'd stepper_kinematics \<Rightarrow> 'd option" where
  "itersolve_check_active d tq flush_time sk =
     (case tq of
        None \<Rightarrow> Some (d_zero d)
      | Some tq \<Rightarrow>
          (let ms = moves (trapq_check_sentinels d tq) in
           Option.bind (seek_move d (last_flush_time sk) ms 0) (active_from d (active_flags sk) flush_time ms)))"

definition itersolve_is_active_axis :: "'d stepper_kinematics \<Rightarrow> char \<Rightarrow> bool" where
  "itersolve_is_active_axis sk ax =
     (let n = int (of_char ax) in
      if n < int (of_char CHR ''x'') \<or> n > int (of_char CHR ''z'') then False
      else active_flags sk AND push_bit (nat (n - int (of_char CHR ''x''))) AF_X \<noteq> 0)"

definition itersolve_calc_position_from_coord ::
    "'d double_ops \<Rightarrow> 'd coord \<Rightarrow> 'd stepper_kinematics \<Rightarrow> 'd option" where
  "itersolve_calc_position_from_coord d pos sk =
     (let m = (tq_move_alloc d)\<lparr>start_pos := pos, move_t := d_lit d 1000 0\<rparr>
      in calc_position_cb sk (commanded_pos sk) [m] 0 (d_lit d 500 0))"

definition itersolve_set_position :: "'d double_ops \<Rightarrow> 'd coord \<Rightarrow> 'd stepper_kinematics \<Rightarrow> 'd stepper_kinematics option" where
  "itersolve_set_position d pos sk =
     map_option (\<lambda>p. sk\<lparr>commanded_pos := p\<rparr>) (itersolve_calc_position_from_coord d pos sk)"

definition itersolve_get_commanded_pos :: "'d stepper_kinematics \<Rightarrow> 'd" where
  "itersolve_get_commanded_pos sk = commanded_pos sk"

definition itersolve_set_stepcompress :: "'d \<Rightarrow> 'd stepper_kinematics \<Rightarrow> 'd stepper_kinematics" where
  "itersolve_set_stepcompress len sk = sk\<lparr>step_dist := len\<rparr>"

section \<open>Constant speed\<close>

text \<open>The tolerance of the search, and the literals it is made of.\<close>

definition ns :: "'a :: floor_ceiling" where "ns = 1 / 10 ^ 9"

lemma ns_lits [simp]: "d_lit exact 1 9 = ns" "d_lit exact 10 9 = 10 * ns"
  by (simp_all add: exact_def ns_def)

lemma ns_pos: "0 < (ns :: 'a :: floor_ceiling)" "0 \<le> (ns :: 'a :: floor_ceiling)"
  by (simp_all add: ns_def)

lemma exact_min [simp]: "d_min exact x y = min x y"
  by (simp add: d_min_def min_def)

lemma exact_halves [simp]: "two_halves exact dir h x = (if dir \<noteq> 0 then x + 2 * h else x - 2 * h)"
  by (simp add: two_halves_def)

definition straight :: "'a :: floor_ceiling \<Rightarrow> 'a \<Rightarrow> 'a \<Rightarrow> 'a" where
  "straight x0 v t = x0 + v * t"

lemma line_less [simp]: "0 < v \<Longrightarrow> straight x0 v s < straight x0 v t \<longleftrightarrow> s < t" "0 < v \<Longrightarrow> straight x0 v s \<le> straight x0 v t \<longleftrightarrow> s \<le> t"
  by (simp_all add: straight_def)

text \<open>
  A state of the search for the time at which the line reaches \<open>target\<close>, upwards. \<open>on_line\<close> and \<open>ready\<close>: the
  last guess lies on the line, and the one before it, too.
\<close>

definition on_line :: "'a :: floor_ceiling \<Rightarrow> 'a \<Rightarrow> 'a search \<Rightarrow> bool" where
  "on_line x0 v l \<longleftrightarrow> snd (cur_guess l) = straight x0 v (fst (cur_guess l))"

definition ready :: "'a :: floor_ceiling \<Rightarrow> 'a \<Rightarrow> 'a search \<Rightarrow> bool" where
  "ready x0 v l \<longleftrightarrow> on_line x0 v l \<and> snd (old_guess l) = straight x0 v (fst (old_guess l)) \<and>
     fst (old_guess l) \<noteq> fst (cur_guess l)"

definition seeks :: "'a :: floor_ceiling \<Rightarrow> 'a \<Rightarrow> 'a \<Rightarrow> 'a \<Rightarrow> 'a search \<Rightarrow> bool" where
  "seeks x0 v h end_t l \<longleftrightarrow>
     step_dir l \<noteq> 0 \<and> \<not> is_dir_change l \<and> \<not> check_oscillate l \<and>
     last_time l \<le> low_time l \<and> low_time l \<le> high_time l \<and> high_time l \<le> end_t \<and>
     straight x0 v (low_time l) < target l \<and> (ready x0 v l \<or> target l - 2 * h - ns \<le> straight x0 v (low_time l)) \<and>
     (if have_bracket l then target l < straight x0 v (high_time l) \<and> on_line x0 v l \<and>
        (fst (cur_guess l) = high_time l \<or> fst (cur_guess l) = low_time l \<and> ready x0 v l)
      else fst (cur_guess l) = low_time l \<and> target l - 2 * h - ns \<le> straight x0 v (high_time l) \<and>
        (low_time l < high_time l \<or> low_time l = end_t) \<and>
        (last_time l + ns \<le> high_time l \<or> high_time l = end_t))"

definition crossing :: "'a :: floor_ceiling \<Rightarrow> 'a \<Rightarrow> 'a \<Rightarrow> 'a" where
  "crossing x0 v T = (T - x0) / v"

lemma crossing_less:
  assumes "0 < v"
  shows "crossing x0 v T < t \<longleftrightarrow> T < straight x0 v t" "t < crossing x0 v T \<longleftrightarrow> straight x0 v t < T"
    "straight x0 v (crossing x0 v T) = T"
  using assms by (auto simp: crossing_def straight_def field_simps)

lemma secant_exact:
  assumes "0 < v" "s \<noteq> t"
  shows "(s * (straight x0 v t - T) - t * (straight x0 v s - T)) / ((straight x0 v t - T) - (straight x0 v s - T)) = crossing x0 v T"
proof -
  have n: "(straight x0 v t - T) - (straight x0 v s - T) = v * (t - s)" by (simp add: straight_def algebra_simps)
  have "s * (straight x0 v t - T) - t * (straight x0 v s - T) = (T - x0) * (t - s)" by (simp add: straight_def algebra_simps)
  then show ?thesis using assms(2) unfolding n by (simp only: crossing_def) simp
qed

text \<open>What the next guess is: the crossing exactly, when the guesses lie on the line.\<close>

lemma next_guess_cases:
  assumes "0 < v" "seeks x0 v h end_t l"
  obtains
    (stop) "next_guess exact end_t l = None" "low_time l = end_t" "\<not> have_bracket l"
  | (inside) n where "next_guess exact end_t l = Some (n, l)" "low_time l < n" "n < high_time l"
      "ready x0 v l \<longrightarrow> n = crossing x0 v (target l)"
  | (beyond) "next_guess exact end_t l = Some (high_time l, l\<lparr>high_time := min (2 * high_time l - last_time l) end_t\<rparr>)"
      "\<not> have_bracket l" "low_time l < high_time l" "ready x0 v l \<longrightarrow> straight x0 v (high_time l) \<le> target l"
proof -
  define q where "q = (fst (old_guess l) * (snd (cur_guess l) - target l) - fst (cur_guess l) * (snd (old_guess l) - target l))
    / ((snd (cur_guess l) - target l) - (snd (old_guess l) - target l))"
  note s = assms(2) [unfolded seeks_def]
  have exact: "q = crossing x0 v (target l)" if "ready x0 v l"
    using secant_exact [OF assms(1), of "fst (old_guess l)" "fst (cur_guess l)" x0 "target l"] that s
    by (simp add: q_def ready_def on_line_def)
  have lowc: "low_time l < crossing x0 v (target l)" using s crossing_less [OF assms(1)] by simp
  have e: "next_guess exact end_t l =
      (if low_time l < q \<and> q < high_time l then Some (q, l)
       else if have_bracket l then Some ((low_time l + high_time l) * (1 / 2), l\<lparr>check_oscillate := False\<rparr>)
       else if end_t \<le> fst (cur_guess l) then None
       else Some (high_time l, l\<lparr>high_time := min (2 * high_time l - last_time l) end_t\<rparr>))"
    by (simp add: next_guess_def Let_def q_def)
  show ?thesis
  proof (cases "low_time l < q \<and> q < high_time l")
    case True
    then show ?thesis using e exact by (intro inside [of q]) simp_all
  next
    case False
    show ?thesis
    proof (cases "have_bracket l")
      case b: True
      then have lh: "low_time l < high_time l" "target l < straight x0 v (high_time l)"
        using s order.strict_trans [of "straight x0 v (low_time l)" "target l" "straight x0 v (high_time l)"]
        by (simp_all add: line_less(1) [OF assms(1), of x0 "low_time l" "high_time l"])
      have "\<not> ready x0 v l"
        using exact False lowc lh(2) crossing_less [OF assms(1)] by auto
      moreover have "l\<lparr>check_oscillate := False\<rparr> = l" using s by (cases l) simp
      ultimately show ?thesis using e False b lh by (intro inside [of "(low_time l + high_time l) * (1 / 2)"]) (simp_all add: field_simps)
    next
      case nb: False
      then have c: "fst (cur_guess l) = low_time l" "low_time l < high_time l \<or> low_time l = end_t" using s by auto
      show ?thesis
      proof (cases "end_t \<le> low_time l")
        case True
        then show ?thesis using e False nb c s by (intro stop) auto
      next
        case nend: False
        have "straight x0 v (high_time l) \<le> target l" if "ready x0 v l"
          using exact [OF that] False lowc crossing_less(1) [OF assms(1), of x0 "target l" "high_time l"] by auto
        then show ?thesis using e False nb c nend by (intro beyond) auto
      qed
    qed
  qed
qed

text \<open>What is left to be done: steps, guesses off the line, growth of the interval.\<close>

definition room :: "'a :: floor_ceiling \<Rightarrow> 'a search \<Rightarrow> nat" where
  "room end_t l = nat \<lceil>(end_t - high_time l) / ns\<rceil> * 2 + (if low_time l < end_t then 1 else 0)"

definition tolerance :: "'a :: floor_ceiling \<Rightarrow> 'a" where
  "tolerance v = ns * max 1 v"

lemma tolerance_bounds: "ns \<le> tolerance v" "v * ns \<le> tolerance v"
  using ns_pos [where 'a = 'a] by (simp_all add: tolerance_def mult.commute mult_left_mono)

lemma guess_at_fields [simp]:
  "old_guess (guess_at n p l) = cur_guess l" "cur_guess (guess_at n p l) = (n, p)"
  "step_dir (guess_at n p l) = step_dir l" "is_dir_change (guess_at n p l) = is_dir_change l"
  "have_bracket (guess_at n p l) = have_bracket l" "check_oscillate (guess_at n p l) = check_oscillate l"
  "target (guess_at n p l) = target l" "last_time (guess_at n p l) = last_time l"
  "low_time (guess_at n p l) = low_time l" "high_time (guess_at n p l) = high_time l"
  by (simp_all add: guess_at_def)

lemma on_line_guess: "on_line x0 v (guess_at n (straight x0 v n) l)"
  by (simp add: on_line_def)

text \<open>Behind a step at the time \<open>n\<close>.\<close>

lemma step_found_seeks:
  fixes x0 v h :: "'a :: floor_ceiling"
  assumes "0 < v" "ns < h" "step_dir l \<noteq> 0" "\<not> is_dir_change l"
    and "last_time l < n" "n \<le> end_t" "straight x0 v n < target l + 2 * h"
    and "target l - ns \<le> straight x0 v n \<or> (fst (cur_guess l) \<noteq> n \<and> on_line x0 v l)"
    and "target l - ns \<le> straight x0 v (min (n + ns) end_t)"
  defines "l' \<equiv> step_found exact h end_t (guess_at n (straight x0 v n) l)"
  shows "seeks x0 v h end_t l'" "target l' = target l + 2 * h" "last_time l' = n" "step_dir l' = step_dir l"
    "on_line x0 v l'" "fst (cur_guess l) \<noteq> n \<and> on_line x0 v l \<longrightarrow> ready x0 v l'"
proof -
  define dt where "dt = max ns (3 / 2 * (n - last_time l))"
  have dt: "ns \<le> dt" by (simp add: dt_def)
  have l': "l' = (guess_at n (straight x0 v n) l)\<lparr>target := target l + 2 * h, last_time := n, low_time := n,
      high_time := min (n + dt) end_t, is_dir_change := False, have_bracket := False, check_oscillate := False\<rparr>"
    using assms(3,4) by (simp add: l'_def step_found_def Let_def dt_def max_def not_le)
  have f: "target l' = target l + 2 * h" "last_time l' = n" "low_time l' = n" "high_time l' = min (n + dt) end_t"
    "step_dir l' = step_dir l" "\<not> is_dir_change l'" "\<not> have_bracket l'" "\<not> check_oscillate l'"
    "cur_guess l' = (n, straight x0 v n)" "old_guess l' = cur_guess l"
    by (simp_all add: l' guess_at_def)
  show "target l' = target l + 2 * h" "last_time l' = n" "step_dir l' = step_dir l" "on_line x0 v l'"
    using f by (simp_all add: on_line_def)
  show rd: "fst (cur_guess l) \<noteq> n \<and> on_line x0 v l \<longrightarrow> ready x0 v l'" using f by (auto simp: ready_def on_line_def)
  have "min (n + ns) end_t \<le> min (n + dt) end_t" using dt by simp
  then have "straight x0 v (min (n + ns) end_t) \<le> straight x0 v (min (n + dt) end_t)" using assms(1) by simp
  then have hi: "target l - ns \<le> straight x0 v (min (n + dt) end_t)" using assms(9) by (rule order_trans [rotated])
  have "n < min (n + dt) end_t \<or> n = end_t" "n + ns \<le> min (n + dt) end_t \<or> min (n + dt) end_t = end_t"
    using dt ns_pos(1) [where 'a = 'a] assms(6) by auto
  then show "seeks x0 v h end_t l'"
    using f assms(3,6,7,8) rd hi dt ns_pos(1) [where 'a = 'a]
    by (auto simp: seeks_def)
qed

text \<open>The two ways to a guess, from \<open>next_guess_cases\<close>.\<close>

definition guesses :: "'a :: floor_ceiling \<Rightarrow> 'a \<Rightarrow> 'a \<Rightarrow> 'a search \<Rightarrow> 'a \<Rightarrow> 'a search \<Rightarrow> bool" where
  "guesses x0 v end_t l n l1 \<longleftrightarrow>
     l1 = l \<and> low_time l < n \<and> n < high_time l \<and> (ready x0 v l \<longrightarrow> straight x0 v n = target l) \<or>
     l1 = l\<lparr>high_time := min (2 * n - last_time l) end_t\<rparr> \<and> n = high_time l \<and> \<not> have_bracket l \<and>
     low_time l < n \<and> (ready x0 v l \<longrightarrow> straight x0 v n \<le> target l)"

lemma room_smaller:
  fixes l :: "'a :: floor_ceiling search"
  assumes "low_time l < n" "n = high_time l" "n \<le> end_t" "last_time l + ns \<le> n \<or> n = end_t"
    and "low_time l' = n" "high_time l' = min (2 * n - last_time l) end_t" "last_time l \<le> low_time l"
  shows "room end_t l' < room end_t l"
proof (cases "n = end_t")
  case True
  then have "high_time l' = end_t" using assms(1,6,7) by simp
  then show ?thesis using True assms(1,2,5) by (simp add: room_def)
next
  case False
  have "n + ns \<le> 2 * n - last_time l \<or> end_t \<le> 2 * n - last_time l" using assms(4) False by auto
  then have "end_t - high_time l' \<le> end_t - n - ns \<or> high_time l' = end_t" by (auto simp: assms(6) min_def)
  then have "(end_t - high_time l') / ns \<le> (end_t - n - ns) / ns \<or> high_time l' = end_t"
    using divide_right_mono [OF _ ns_pos(2), of "end_t - high_time l'" "end_t - n - ns"] by blast
  moreover have "(end_t - n - ns) / ns = (end_t - n) / ns - 1"
    using ns_pos(1) [where 'a = 'a] by (simp add: diff_divide_distrib)
  ultimately have "(end_t - high_time l') / ns \<le> (end_t - n) / ns - 1 \<or> high_time l' = end_t" by simp
  moreover have "0 < (end_t - n) / ns" using False assms(3) ns_pos [where 'a = 'a] by simp
  ultimately have "nat \<lceil>(end_t - high_time l') / ns\<rceil> < nat \<lceil>(end_t - n) / ns\<rceil>"
  proof (elim disjE)
    assume a: "(end_t - high_time l') / ns \<le> (end_t - n) / ns - 1" "0 < (end_t - n) / ns"
    have "\<lceil>(end_t - high_time l') / ns\<rceil> \<le> \<lceil>(end_t - n) / ns - 1\<rceil>" by (rule ceiling_mono) (rule a(1))
    also have "\<dots> = \<lceil>(end_t - n) / ns\<rceil> - 1" by simp
    finally show ?thesis using a(2) zero_less_ceiling [of "(end_t - n) / ns"] by linarith
  next
    assume "high_time l' = end_t" "0 < (end_t - n) / ns"
    then show ?thesis by simp
  qed
  moreover have "room end_t l' \<le> nat \<lceil>(end_t - high_time l') / ns\<rceil> * 2 + 1" by (simp add: room_def)
  moreover have "room end_t l = nat \<lceil>(end_t - n) / ns\<rceil> * 2 + 1" using assms(1-3) by (simp add: room_def)
  ultimately show ?thesis by linarith
qed

lemma step_found_guess:
  "step_found d h e ((guess_at n p (l\<lparr>high_time := z\<rparr>))\<lparr>high_time := a, have_bracket := b\<rparr>) = step_found d h e (guess_at n p l)"
  "step_found d h e ((guess_at n p (l\<lparr>high_time := z\<rparr>))\<lparr>low_time := a\<rparr>) = step_found d h e (guess_at n p l)"
  "step_found d h e (guess_at n p (l\<lparr>high_time := z\<rparr>)) = step_found d h e (guess_at n p l)"
  by (cases l, simp add: step_found_def guess_at_def Let_def)+

lemma verdict_cases:
  fixes x0 v h :: "'a :: floor_ceiling"
  assumes "0 < v" "ns < h" "v * ns \<le> h" "seeks x0 v h end_t l" "guesses x0 v end_t l n l1"
  obtains
    (again) commit l2 where "verdict exact h (guess_at n (straight x0 v n) l1) = (True, commit, l2)"
      "seeks x0 v h end_t l2" "on_line x0 v l2" "on_line x0 v l \<longrightarrow> ready x0 v l2" "target l2 = target l"
      "last_time l2 = last_time l" "step_dir l2 = step_dir l" "ready x0 v l \<longrightarrow> room end_t l2 < room end_t l"
  | (step) commit l2 where "verdict exact h (guess_at n (straight x0 v n) l1) = (False, commit, l2)"
      "step_dir l2 = step_dir l" "\<bar>straight x0 v n - target l\<bar> \<le> tolerance v"
      "last_time l < n" "n \<le> end_t" "seeks x0 v h end_t (step_found exact h end_t l2)"
      "target (step_found exact h end_t l2) = target l + 2 * h" "last_time (step_found exact h end_t l2) = n"
      "step_dir (step_found exact h end_t l2) = step_dir l"
proof -
  let ?g = "guess_at n (straight x0 v n) l1" and ?T = "target l"
  note s = assms(4) [unfolded seeks_def] and ns = ns_pos [where 'a = 'a]
  note lv = line_less [OF assms(1)]
  have l1: "step_dir l1 = step_dir l" "\<not> is_dir_change l1" "\<not> check_oscillate l1" "last_time l1 = last_time l"
    "low_time l1 = low_time l" "target l1 = ?T" "cur_guess l1 = cur_guess l" "have_bracket l1 = have_bracket l"
    "old_guess l1 = old_guess l"
    using assms(5) s by (auto simp: guesses_def)
  have n: "low_time l < n" "n \<le> high_time l" "n \<le> end_t" "last_time l < n" using assms(5) s by (auto simp: guesses_def)
  have cn: "fst (cur_guess l) \<noteq> n" if "have_bracket l \<longrightarrow> n \<noteq> high_time l" using s n that by (auto split: if_splits)
  have nb: "have_bracket l \<longrightarrow> l1 = l \<and> n < high_time l \<and> (ready x0 v l \<longrightarrow> straight x0 v n = ?T)"
    using assms(5) by (auto simp: guesses_def)
  then have cn': "fst (cur_guess l) \<noteq> n" using cn by auto
  have rdg: "ready x0 v ?g" if "on_line x0 v l" using that cn' l1(7) by (auto simp: ready_def on_line_def)
  have step_ok: thesis
    if v: "verdict exact h ?g = (False, commit, l2)" and f: "step_found exact h end_t l2 = step_found exact h end_t (guess_at n (straight x0 v n) l)"
      and dir: "step_dir l2 = step_dir l" and tol: "\<bar>straight x0 v n - ?T\<bar> \<le> tolerance v" and up: "straight x0 v n < ?T + 2 * h"
      and lo: "?T - ns \<le> straight x0 v n \<or> fst (cur_guess l) \<noteq> n \<and> on_line x0 v l"
      and hi: "?T - ns \<le> straight x0 v (min (n + ns) end_t)" for commit l2
    using step_found_seeks [OF assms(1,2) _ _ n(4,3) up lo hi] s f by (intro step [OF v dir tol n(4,3)]) simp_all
  obtain z where z: "l1 = l\<lparr>high_time := z\<rparr>" using assms(5) by (cases l) (auto simp: guesses_def)
  have same: "step_found exact h end_t (?g\<lparr>high_time := a, have_bracket := b\<rparr>) = step_found exact h end_t (guess_at n (straight x0 v n) l)"
    "step_found exact h end_t (?g\<lparr>low_time := a\<rparr>) = step_found exact h end_t (guess_at n (straight x0 v n) l)"
    "step_found exact h end_t ?g = step_found exact h end_t (guess_at n (straight x0 v n) l)" for a b
    by (simp_all only: z step_found_guess)
  have nn: "straight x0 v n \<le> straight x0 v (min (n + ns) end_t)" using n(3) ns by (simp add: lv)
  define gd where "gd = straight x0 v n - ?T"
  have v0: "verdict exact h ?g = (if ns < \<bar>gd\<bar> then update_bounds exact h gd ?g else (False, False, ?g))"
    by (simp add: verdict_def Let_def l1 gd_def)
  have tol: "ns \<le> tolerance v" "v * ns \<le> tolerance v" by (rule tolerance_bounds)+
  consider "\<bar>gd\<bar> \<le> ns" | "ns < gd" | "gd < - ns" by linarith
  then show thesis
  proof cases
    case 1
    have lo: "?T - ns \<le> straight x0 v n" using 1 by (simp add: gd_def abs_le_iff)
    show ?thesis
    proof (rule step_ok [of False ?g])
      show "verdict exact h ?g = (False, False, ?g)" using 1 v0 by simp
      show "straight x0 v n < ?T + 2 * h" using 1 assms(2) ns by (simp add: gd_def abs_le_iff)
      show "\<bar>straight x0 v n - ?T\<bar> \<le> tolerance v" using 1 tol unfolding gd_def by linarith
    qed (use lo nn l1 same(3) in \<open>simp_all add: order_trans [OF lo nn]\<close>)
  next
    case 2
    then have rd: "\<not> ready x0 v l" using assms(5) ns by (auto simp: guesses_def gd_def)
    have osc: "\<not> (have_bracket l \<and> fst (cur_guess l) \<le> low_time l)" using s rd nb n(1,2) by auto
    let ?l2 = "?g\<lparr>high_time := n, have_bracket := True\<rparr>"
    have v1: "verdict exact h ?g = (ns < n - low_time l, - h \<le> gd, ?l2)"
      using 2 ns osc l1 s unfolding v0 by (simp add: update_bounds_def Let_def)
    show ?thesis
    proof (cases "ns < n - low_time l")
      case True
      show ?thesis
      proof (rule again [of "- h \<le> gd" ?l2])
        show "verdict exact h ?g = (True, - h \<le> gd, ?l2)" using v1 True by simp
        show "seeks x0 v h end_t ?l2"
          using s l1 n 2 rd ns by (auto simp: seeks_def gd_def on_line_def ready_def)
      qed (use l1 rd rdg in \<open>auto simp: on_line_def ready_def\<close>)
    next
      case False
      have "straight x0 v n \<le> straight x0 v (low_time l + ns)" using False by (simp add: lv)
      also have "\<dots> = straight x0 v (low_time l) + v * ns" by (simp add: straight_def algebra_simps)
      finally have up: "straight x0 v n < ?T + v * ns" using s by linarith
      have lo: "?T - ns \<le> straight x0 v n" using 2 ns by (simp add: gd_def)
      show ?thesis
      proof (rule step_ok [of "- h \<le> gd" ?l2])
        show "verdict exact h ?g = (False, - h \<le> gd, ?l2)" using v1 False by simp
        show "straight x0 v n < ?T + 2 * h" using up assms(2,3) ns by linarith
        show "\<bar>straight x0 v n - ?T\<bar> \<le> tolerance v" using up 2 tol ns unfolding gd_def by linarith
      qed (use lo nn l1 same(1) in \<open>simp_all add: order_trans [OF lo nn]\<close>)
    qed
  next
    case 3
    have nlow: "?T - 2 * h - ns \<le> straight x0 v n"
      using assms(5) unfolding guesses_def
    proof (elim disjE conjE)
      assume "n < high_time l" "low_time l < n" "ready x0 v l \<longrightarrow> straight x0 v n = ?T"
      then have "?T - 2 * h - ns \<le> straight x0 v (low_time l)" "straight x0 v (low_time l) < straight x0 v n"
        using s 3 ns by (auto simp: gd_def lv)
      then show ?thesis by simp
    qed (use s in auto)
    then have nodir: "\<not> gd < - (2 * h + 10 * ns)" using ns unfolding gd_def by linarith
    let ?l2 = "?g\<lparr>low_time := n\<rparr>"
    have v1: "verdict exact h ?g = (\<not> have_bracket l \<or> ns < high_time l1 - n, - h \<le> gd, ?l2)"
      using 3 ns nodir l1 s unfolding v0 by (simp add: update_bounds_def Let_def)
    show ?thesis
    proof (cases "have_bracket l \<and> high_time l - n \<le> ns")
      case True
      then have b: "l1 = l" "n < high_time l" "?T < straight x0 v (high_time l)" "on_line x0 v l" using nb s by auto
      have "straight x0 v (high_time l) \<le> straight x0 v (n + ns)" using True by (simp add: lv)
      also have "\<dots> = straight x0 v n + v * ns" by (simp add: straight_def algebra_simps)
      finally have lo: "?T - v * ns < straight x0 v n" using b(3) by linarith
      have "straight x0 v (high_time l) \<le> straight x0 v (min (n + ns) end_t)" using True s by (simp add: lv)
      then have hi: "?T - ns \<le> straight x0 v (min (n + ns) end_t)" using b(3) ns by linarith
      show ?thesis
      proof (rule step_ok [of "- h \<le> gd" ?l2])
        show "verdict exact h ?g = (False, - h \<le> gd, ?l2)" using v1 True b(1) by simp
        show "straight x0 v n < ?T + 2 * h" using 3 assms(2) ns unfolding gd_def by linarith
        show "\<bar>straight x0 v n - ?T\<bar> \<le> tolerance v" using lo 3 tol ns unfolding gd_def by linarith
        show "?T - ns \<le> straight x0 v n \<or> fst (cur_guess l) \<noteq> n \<and> on_line x0 v l" using b(4) cn' by simp
      qed (use hi l1 same(2) in simp_all)
    next
      case False
      have hi: "if have_bracket l then n < high_time l1 else ?T - 2 * h - ns \<le> straight x0 v (high_time l1) \<and>
          (n < high_time l1 \<or> n = end_t) \<and> (last_time l + ns \<le> high_time l1 \<or> high_time l1 = end_t) \<and> high_time l1 \<le> end_t"
        using assms(5) unfolding guesses_def
      proof (elim disjE conjE)
        assume "l1 = l" "n < high_time l"
        then show ?thesis using s by auto
      next
        assume a: "l1 = l\<lparr>high_time := min (2 * n - last_time l) end_t\<rparr>" "n = high_time l" "\<not> have_bracket l"
        have "n \<le> min (2 * n - last_time l) end_t" using n by simp
        then have "straight x0 v n \<le> straight x0 v (min (2 * n - last_time l) end_t)" by (simp add: lv)
        moreover have "?T - 2 * h - ns \<le> straight x0 v n" "last_time l + ns \<le> n \<or> n = end_t" using s a(2,3) by auto
        ultimately show ?thesis using a n by (auto simp: min_def)
      qed
      show ?thesis
      proof (rule again [of "- h \<le> gd" ?l2])
        show "verdict exact h ?g = (True, - h \<le> gd, ?l2)" using v1 False nb by auto
        have f: "step_dir ?l2 \<noteq> 0" "\<not> is_dir_change ?l2" "\<not> check_oscillate ?l2" "last_time ?l2 = last_time l"
          "low_time ?l2 = n" "high_time ?l2 = high_time l1" "target ?l2 = ?T" "have_bracket ?l2 = have_bracket l"
          "cur_guess ?l2 = (n, straight x0 v n)" "on_line x0 v ?l2"
          using l1 s by (simp_all add: on_line_def)
        have up: "straight x0 v n < ?T" using 3 ns unfolding gd_def by linarith
        have rd: "on_line x0 v l \<longrightarrow> ready x0 v ?l2" using rdg by (auto simp: ready_def on_line_def)
        have le: "n \<le> high_time l1" "high_time l1 \<le> end_t" using assms(5) n s by (auto simp: guesses_def)
        show "seeks x0 v h end_t ?l2"
        proof (cases "have_bracket l")
          case True
          then have "?T < straight x0 v (high_time l1)" "on_line x0 v l" using s nb by auto
          then show ?thesis unfolding seeks_def f using f(1-3,10) True n(4) le up nlow rd by simp
        next
          case False
          then show ?thesis unfolding seeks_def f using f(1-3) n(4) le up nlow hi by simp
        qed
        show "ready x0 v l \<longrightarrow> room end_t ?l2 < room end_t l"
        proof
          assume r: "ready x0 v l"
          have a: "l1 = l\<lparr>high_time := min (2 * n - last_time l) end_t\<rparr>" "n = high_time l" "\<not> have_bracket l"
            using assms(5) r 3 ns by (auto simp: guesses_def gd_def)
          show "room end_t ?l2 < room end_t l"
            by (rule room_smaller [OF n(1) a(2) n(3)]) (use a s in auto)
        qed
      qed (use l1 rdg in \<open>auto simp: on_line_def ready_def\<close>)
    qed
  qed
qed

text \<open>
  The calls that are made: \<open>Some t\<close> appends a step at \<open>t\<close>, \<open>None\<close> commits. The first call that does not
  succeed is the last.
\<close>

primrec feed :: "('c, 'd) step_sink \<Rightarrow> int \<Rightarrow> 'd \<Rightarrow> 'd option list \<Rightarrow> 'c \<Rightarrow> (int, 'c) outcome" where
  "feed sink dir start_t [] c = Ret 0 c"
| "feed sink dir start_t (e # es) c =
     (case e of
        None \<Rightarrow> andThen (sink_commit sink c) (\<lambda>_ c. feed sink dir start_t es c)
      | Some t \<Rightarrow> andThen (sink_append sink dir start_t t c)
          (\<lambda>ret c. if ret \<noteq> 0 then Ret ret c else feed sink dir start_t es c))"

fun step_times :: "'d option list \<Rightarrow> 'd list" where
  "step_times [] = []"
| "step_times (None # es) = step_times es"
| "step_times (Some t # es) = t # step_times es"

text \<open>
  The run makes the calls \<open>evs\<close>, and ends with the local variables \<open>l'\<close> if they succeed.
\<close>

definition runs_as :: "(int \<times> 'd search, 'c) outcome option \<Rightarrow> (int, 'c) outcome \<Rightarrow> 'd search \<Rightarrow> bool" where
  "runs_as run fed l' \<longleftrightarrow> (\<exists>m. run = Some m \<and> andThen m (\<lambda>r c. Ret (fst r) c) = fed \<and>
     (\<forall>c. fed = Ret 0 c \<longrightarrow> m = Ret (0, l') c))"

lemma runs_as_cases:
  "runs_as (Some (Ret (0, l) c)) (Ret 0 c) l" "r \<noteq> 0 \<Longrightarrow> runs_as (Some (Ret (r, l2) c)) (Ret r c) l"
  "runs_as (Some (Shutdown e c)) (Shutdown e c) l" "runs_as (Some Fault) Fault l"
  by (auto simp: runs_as_def)

text \<open>The steps \<open>ts\<close> are in order, not behind the end, and at the crossings of the targets from \<open>T\<close> on.\<close>

definition on_time :: "'a :: floor_ceiling \<Rightarrow> 'a \<Rightarrow> 'a \<Rightarrow> 'a \<Rightarrow> 'a \<Rightarrow> 'a \<Rightarrow> 'a list \<Rightarrow> bool" where
  "on_time x0 v h lo end_t T ts \<longleftrightarrow> sorted_wrt (<) (lo # ts) \<and> (\<forall>t \<in> set ts. t \<le> end_t) \<and>
     (\<forall>k < length ts. \<bar>straight x0 v (ts ! k) - (T + 2 * h * of_nat k)\<bar> \<le> tolerance v)"

lemma on_time_Cons:
  assumes "on_time x0 v h n end_t (T + 2 * h) ts" "lo < n" "n \<le> end_t" "\<bar>straight x0 v n - T\<bar> \<le> tolerance v"
  shows "on_time x0 v h lo end_t T (n # ts)"
proof -
  have "\<bar>straight x0 v ((n # ts) ! k) - (T + 2 * h * of_nat k)\<bar> \<le> tolerance v" if "k < length (n # ts)" for k
    using that assms(1,4) by (cases k) (auto simp: on_time_def algebra_simps)
  then show ?thesis using assms(1-3) by (auto simp: on_time_def)
qed

definition steps_left :: "'a :: floor_ceiling \<Rightarrow> 'a \<Rightarrow> 'a \<Rightarrow> 'a \<Rightarrow> 'a search \<Rightarrow> nat" where
  "steps_left x0 v h end_t l = nat (\<lfloor>(straight x0 v end_t + tolerance v - target l) / (2 * h)\<rfloor> + 1)"

lemma steps_left_decr:
  assumes "0 < v" "0 < h" "\<bar>straight x0 v n - target l\<bar> \<le> tolerance v" "n \<le> end_t" "target l' = target l + 2 * h"
  shows "steps_left x0 v h end_t l' < steps_left x0 v h end_t l"
proof -
  let ?x = "(straight x0 v end_t + tolerance v - target l) / (2 * h)"
  have "straight x0 v n \<le> straight x0 v end_t" using assms(1,4) by simp
  then have "0 \<le> straight x0 v end_t + tolerance v - target l" using assms(3) by linarith
  then have "0 \<le> ?x" using assms(2) by simp
  then have "0 \<le> \<lfloor>?x\<rfloor>" by simp
  moreover have "(straight x0 v end_t + tolerance v - target l') / (2 * h) = ?x - 1"
    using assms(2) by (simp add: assms(5) field_simps)
  ultimately show ?thesis by (simp add: steps_left_def)
qed

definition off_line :: "'a :: floor_ceiling \<Rightarrow> 'a \<Rightarrow> 'a search \<Rightarrow> nat" where
  "off_line x0 v l = (if ready x0 v l then 0 else if on_line x0 v l then 1 else 2)"

lemma cruise_runs:
  fixes x0 v h :: "'a :: floor_ceiling"
  assumes "0 < v" "ns < h" "v * ns \<le> h"
  shows "seeks x0 v h end_t l \<Longrightarrow>
    \<exists>evs l'. (\<forall>c. runs_as (gen_steps_loop exact sink (\<lambda>t. Some (straight x0 v t)) h start_t end_t l c) (feed sink (step_dir l) start_t evs c) l') \<and>
      step_dir l' = step_dir l \<and> target l' = target l + 2 * h * of_nat (length (step_times evs)) \<and>
      on_time x0 v h (last_time l) end_t (target l) (step_times evs) \<and> straight x0 v end_t < target l'"
proof (induction l rule: wf_induct [OF wf_measures [of "[steps_left x0 v h end_t, off_line x0 v, room end_t]"]])
  case (1 l)
  note ns = ns_pos [where 'a = 'a]
  have h: "0 < h" using assms(2) ns by simp
  have IH: "\<exists>evs l'. (\<forall>c. runs_as (gen_steps_loop exact sink (\<lambda>t. Some (straight x0 v t)) h start_t end_t l2 c) (feed sink (step_dir l2) start_t evs c) l') \<and>
      step_dir l' = step_dir l2 \<and> target l' = target l2 + 2 * h * of_nat (length (step_times evs)) \<and>
      on_time x0 v h (last_time l2) end_t (target l2) (step_times evs) \<and> straight x0 v end_t < target l'"
    if "(l2, l) \<in> measures [steps_left x0 v h end_t, off_line x0 v, room end_t]" "seeks x0 v h end_t l2" for l2
    using 1(1) that by blast
  have go: ?case if n: "next_guess exact end_t l = Some (n, l1)" and g: "guesses x0 v end_t l n l1" for n l1
    using assms 1(2) g
  proof (rule verdict_cases)
    fix commit l2
    assume v: "verdict exact h (guess_at n (straight x0 v n) l1) = (True, commit, l2)"
      and l2: "seeks x0 v h end_t l2" "on_line x0 v l2" "on_line x0 v l \<longrightarrow> ready x0 v l2" "target l2 = target l"
      "last_time l2 = last_time l" "step_dir l2 = step_dir l" "ready x0 v l \<longrightarrow> room end_t l2 < room end_t l"
    have "steps_left x0 v h end_t l2 = steps_left x0 v h end_t l" by (simp add: steps_left_def l2(4))
    moreover have "off_line x0 v l2 < off_line x0 v l \<or> off_line x0 v l2 = off_line x0 v l \<and> room end_t l2 < room end_t l"
      using l2(2,3,7) by (auto simp: off_line_def ready_def)
    ultimately obtain evs l' where r: "\<forall>c. runs_as (gen_steps_loop exact sink (\<lambda>t. Some (straight x0 v t)) h start_t end_t l2 c) (feed sink (step_dir l2) start_t evs c) l'"
      "step_dir l' = step_dir l2" "target l' = target l2 + 2 * h * of_nat (length (step_times evs))"
      "on_time x0 v h (last_time l2) end_t (target l2) (step_times evs)" "straight x0 v end_t < target l'"
      using IH [OF _ l2(1)] by (auto simp: in_measures)
    let ?evs = "if commit then None # evs else evs"
    have "runs_as (gen_steps_loop exact sink (\<lambda>t. Some (straight x0 v t)) h start_t end_t l c) (feed sink (step_dir l) start_t ?evs c) l'" for c
      using r(1) v n l2(6)
      by (subst gen_steps_loop.simps) (auto simp: runs_as_cases split: outcome.split)
    moreover have "step_times ?evs = step_times evs" by simp
    ultimately show ?case using r(2-5) l2(4-6) by (intro exI [of _ ?evs] exI [of _ l']) simp
  next
    fix commit l2
    assume v: "verdict exact h (guess_at n (straight x0 v n) l1) = (False, commit, l2)" "step_dir l2 = step_dir l"
      and t: "\<bar>straight x0 v n - target l\<bar> \<le> tolerance v" "last_time l < n" "n \<le> end_t"
      and l2: "seeks x0 v h end_t (step_found exact h end_t l2)" "target (step_found exact h end_t l2) = target l + 2 * h"
        "last_time (step_found exact h end_t l2) = n" "step_dir (step_found exact h end_t l2) = step_dir l"
    obtain evs l' where r: "\<forall>c. runs_as (gen_steps_loop exact sink (\<lambda>t. Some (straight x0 v t)) h start_t end_t (step_found exact h end_t l2) c)
        (feed sink (step_dir l) start_t evs c) l'"
      "step_dir l' = step_dir l" "target l' = target l + 2 * h + 2 * h * of_nat (length (step_times evs))"
      "on_time x0 v h n end_t (target l + 2 * h) (step_times evs)" "straight x0 v end_t < target l'"
      using IH [OF _ l2(1)] steps_left_decr [OF assms(1) h t(1,3) l2(2)] l2(2-4) by (auto simp: in_measures)
    have "runs_as (gen_steps_loop exact sink (\<lambda>t. Some (straight x0 v t)) h start_t end_t l c) (feed sink (step_dir l) start_t (Some n # evs) c) l'" for c
      using r(1) v n
      by (subst gen_steps_loop.simps) (auto simp: runs_as_cases split: outcome.split)
    moreover have "on_time x0 v h (last_time l) end_t (target l) (step_times (Some n # evs))"
      using on_time_Cons [OF r(4) t(2,3,1)] by simp
    moreover have "target l' = target l + 2 * h * of_nat (length (step_times (Some n # evs)))"
      by (simp add: r(3) algebra_simps)
    ultimately show ?case using r(2,5) by blast
  qed
  show ?case using assms(1) 1(2)
  proof (rule next_guess_cases)
    assume n: "next_guess exact end_t l = None" "low_time l = end_t"
    have "runs_as (gen_steps_loop exact sink (\<lambda>t. Some (straight x0 v t)) h start_t end_t l c) (feed sink (step_dir l) start_t [] c) l" for c
      using n(1) by (subst gen_steps_loop.simps) (simp add: runs_as_cases)
    moreover have "straight x0 v end_t < target l" using 1(2) n(2) by (simp add: seeks_def)
    ultimately show ?case by (intro exI [of _ "[]"] exI [of _ l]) (simp add: on_time_def)
  next
    fix n
    assume "next_guess exact end_t l = Some (n, l)" "low_time l < n" "n < high_time l" "ready x0 v l \<longrightarrow> n = crossing x0 v (target l)"
    then show ?case using crossing_less(3) [OF assms(1)] by (intro go [of n l]) (auto simp: guesses_def)
  next
    assume "next_guess exact end_t l = Some (high_time l, l\<lparr>high_time := min (2 * high_time l - last_time l) end_t\<rparr>)"
      "\<not> have_bracket l" "low_time l < high_time l" "ready x0 v l \<longrightarrow> straight x0 v (high_time l) \<le> target l"
    then show ?case by (intro go) (auto simp: guesses_def)
  qed
qed

lemma first_search_seeks:
  fixes x0 v h :: "'a :: floor_ceiling"
  assumes "0 < v" "start \<le> end_t" "dir \<noteq> 0" "pos - h - ns \<le> straight x0 v start" "straight x0 v start < pos + h"
  shows "seeks x0 v h end_t (first_search exact h start end_t dir pos)"
proof -
  have r: "(ns :: 'a) \<le> SEEK_TIME_RESET exact" by (simp add: SEEK_TIME_RESET_def exact_def ns_def field_simps)
  let ?hi = "min (start + SEEK_TIME_RESET exact) end_t"
  have hi: "start \<le> ?hi" "?hi \<le> end_t" "start < ?hi \<or> start = end_t" "start + ns \<le> ?hi \<or> ?hi = end_t"
    using r ns_pos [where 'a = 'a] assms(2) by (auto simp: min_def)
  have "straight x0 v start \<le> straight x0 v ?hi" using hi(1) assms(1) by simp
  then have "pos + h - 2 * h - ns \<le> straight x0 v ?hi" using assms(4) by linarith
  then show ?thesis using hi assms(3,4,5) by (simp add: seeks_def first_search_def)
qed

text \<open>The last position is the nearest one to the line at the end.\<close>

lemma on_time_end:
  fixes x0 v h :: "'a :: floor_ceiling"
  assumes "on_time x0 v h lo end_t T ts" "0 < v" "lo \<le> end_t" "T - 2 * h - tolerance v \<le> straight x0 v lo"
  shows "T + 2 * h * of_nat (length ts) - 2 * h - tolerance v \<le> straight x0 v end_t"
proof (cases ts rule: rev_cases)
  case Nil
  have "straight x0 v lo \<le> straight x0 v end_t" using assms(2,3) by simp
  then show ?thesis using assms(4) by (simp add: Nil)
next
  case (snoc us t)
  have l: "length us < length ts" "ts ! length us = t" by (simp_all add: snoc)
  then have "\<bar>straight x0 v t - (T + 2 * h * of_nat (length us))\<bar> \<le> tolerance v"
    using assms(1) l unfolding on_time_def by metis
  moreover have "straight x0 v t \<le> straight x0 v end_t" using assms(1,2) by (simp add: on_time_def snoc)
  moreover have "2 * h * of_nat (length ts) = 2 * h * of_nat (length us) + 2 * h" by (simp add: snoc algebra_simps)
  ultimately show ?thesis by linarith
qed

text \<open>The part of a move that is looked at.\<close>

definition range_start :: "'a :: floor_ceiling move \<Rightarrow> 'a \<Rightarrow> 'a" where
  "range_start m abs_start = max 0 (abs_start - print_time m)"

definition range_end :: "'a :: floor_ceiling move \<Rightarrow> 'a \<Rightarrow> 'a" where
  "range_end m abs_end = min (abs_end - print_time m) (move_t m)"

lemma gen_steps_range_line:
  fixes v h :: "'a :: floor_ceiling"
  assumes "0 < v" "ns < step_dist sk / 2" "v * ns \<le> step_dist sk / 2" "post_cb sk = None" "sink_dir sink c \<noteq> 0"
    and "\<And>t. calc_position_cb sk (commanded_pos sk) ms i t = Some (straight x0 v t)"
    and "range_start (ms ! i) abs_start \<le> range_end (ms ! i) abs_end"
    and "commanded_pos sk - step_dist sk / 2 - ns \<le> straight x0 v (range_start (ms ! i) abs_start)"
    and "straight x0 v (range_start (ms ! i) abs_start) < commanded_pos sk + step_dist sk / 2"
  shows "\<exists>evs pos. itersolve_gen_steps_range exact sink ms i abs_start abs_end sk c =
      Some (andThen (feed sink (sink_dir sink c) (print_time (ms ! i)) evs c)
        (\<lambda>ret c. Ret (ret, if ret \<noteq> 0 then sk else sk\<lparr>commanded_pos := pos\<rparr>) c)) \<and>
    pos = commanded_pos sk + step_dist sk * of_nat (length (step_times evs)) \<and>
    on_time x0 v (step_dist sk / 2) (range_start (ms ! i) abs_start) (range_end (ms ! i) abs_end)
      (commanded_pos sk + step_dist sk / 2) (step_times evs) \<and>
    \<bar>straight x0 v (range_end (ms ! i) abs_end) - pos\<bar> \<le> step_dist sk / 2 + tolerance v"
proof -
  let ?h = "step_dist sk / 2" and ?m = "ms ! i" and ?p = "commanded_pos sk" and ?dir = "sink_dir sink c"
  let ?s = "range_start ?m abs_start" and ?e = "range_end ?m abs_end"
  let ?l = "first_search exact ?h ?s ?e ?dir ?p"
  have f: "step_dir ?l = ?dir" "target ?l = ?p + ?h" "last_time ?l = ?s"
    using assms(5) by (simp_all add: first_search_def)
  have sk: "seeks x0 v ?h ?e ?l" by (rule first_search_seeks) (use assms in auto)
  obtain evs l' where r: "\<And>c. runs_as (gen_steps_loop exact sink (\<lambda>t. Some (straight x0 v t)) ?h (print_time ?m) ?e ?l c) (feed sink ?dir (print_time ?m) evs c) l'"
    "step_dir l' = ?dir" "target l' = ?p + ?h + step_dist sk * of_nat (length (step_times evs))"
    "on_time x0 v ?h ?s ?e (?p + ?h) (step_times evs)" "straight x0 v ?e < target l'"
  proof -
    have "2 * ?h = step_dist sk" by simp
    then show thesis using cruise_runs [OF assms(1-3) sk, of sink "print_time ?m"] that unfolding f by metis
  qed
  let ?pos = "?p + step_dist sk * of_nat (length (step_times evs))"
  have cb: "calc_position_cb sk ?p ms i = (\<lambda>t. Some (straight x0 v t))" using assms(6) by (simp add: fun_eq_iff)
  have st: "(if abs_start - print_time ?m < 0 then 0 else abs_start - print_time ?m) = ?s"
    "min (abs_end - print_time ?m) (move_t ?m) = ?e" by (simp_all add: range_start_def range_end_def)
  have hd: "d_mul exact (d_lit exact 5 1) (step_dist sk) = ?h" by simp
  have e: "itersolve_gen_steps_range exact sink ms i abs_start abs_end sk c = map_option (\<lambda>m. andThen m (\<lambda>r c.
           let (ret, l) = r in
           if ret \<noteq> 0 then Ret (ret, sk) c
           else Ret (0, sk\<lparr>commanded_pos := if step_dir l \<noteq> 0 then target l - ?h else target l + ?h\<rparr>) c))
           (gen_steps_loop exact sink (\<lambda>t. Some (straight x0 v t)) ?h (print_time ?m) ?e ?l c)"
    by (simp add: itersolve_gen_steps_range_def Let_def cb assms(4) split_beta st [symmetric] cong: if_cong)
  obtain m where m: "gen_steps_loop exact sink (\<lambda>t. Some (straight x0 v t)) ?h (print_time ?m) ?e ?l c = Some m"
    "andThen m (\<lambda>r c. Ret (fst r) c) = feed sink ?dir (print_time ?m) evs c"
    "\<forall>c'. feed sink ?dir (print_time ?m) evs c = Ret 0 c' \<longrightarrow> m = Ret (0, l') c'"
    using r(1) [of c] by (auto simp: runs_as_def)
  have "itersolve_gen_steps_range exact sink ms i abs_start abs_end sk c =
      Some (andThen (feed sink ?dir (print_time ?m) evs c) (\<lambda>ret c. Ret (ret, if ret \<noteq> 0 then sk else sk\<lparr>commanded_pos := ?pos\<rparr>) c))"
    unfolding e m(1) using m(3) r(2,3) assms(5) unfolding m(2) [symmetric]
    by (cases m) (auto simp: Let_def split: prod.splits)
  moreover have "?p + ?h - 2 * ?h - tolerance v \<le> straight x0 v ?s"
    using assms(8) tolerance_bounds(1) [of v] by simp
  then have "?p + ?h + 2 * ?h * of_nat (length (step_times evs)) - 2 * ?h - tolerance v \<le> straight x0 v ?e"
    by (rule on_time_end [OF r(4) assms(1,7)])
  then have "?pos - ?h - tolerance v \<le> straight x0 v ?e" by (simp add: algebra_simps)
  then have "\<bar>straight x0 v ?e - ?pos\<bar> \<le> ?h + tolerance v"
    using r(3,5) tolerance_bounds(1) [of v] ns_pos(2) [where 'a = 'a] by (simp add: abs_le_iff)
  ultimately show ?thesis using r(4) by (intro exI [of _ evs] exI [of _ ?pos]) simp
qed

end
