(* ===== verification/Kinematics.thy ===== *)
theory Kinematics
  imports Itersolve
begin

text \<open>
  \<open>klippy/chelper/kin_cartesian.c\<close>, \<open>kin_corexy.c\<close>, \<open>kin_corexz.c\<close>, \<open>kin_delta.c\<close>, \<open>kin_polar.c\<close>,
  \<open>kin_rotary_delta.c\<close> and \<open>kin_winch.c\<close>: where a stepper has to be while the tool is at a place. The
  functions of \<open>math.h\<close> are an argument.
\<close>

record 'd math_ops =
  m_sqrt :: "'d \<Rightarrow> 'd"
  m_atan2 :: "'d \<Rightarrow> 'd \<Rightarrow> 'd"
  m_sin :: "'d \<Rightarrow> 'd"
  m_cos :: "'d \<Rightarrow> 'd"
  m_pi :: 'd

text \<open>What \<open>memset\<close> leaves of a stepper; its callback is \<open>NULL\<close>.\<close>

definition kinematics_zero :: "'d double_ops \<Rightarrow> 'd stepper_kinematics" where
  "kinematics_zero d =
     (let z = d_zero d in
      \<lparr>step_dist = z, commanded_pos = z, last_flush_time = z, last_move_time = z, active_flags = 0,
       gen_steps_pre_active = z, gen_steps_post_active = z, calc_position_cb = (\<lambda>_ _ _ _. None), post_cb = None\<rparr>)"

section \<open>Cartesian\<close>

definition cart_stepper_x_calc_position :: "'d double_ops \<Rightarrow> 'd calc_position" where
  "cart_stepper_x_calc_position d p ms i move_time = Some (coord_x (move_get_coord d (ms ! i) move_time))"

definition cart_stepper_y_calc_position :: "'d double_ops \<Rightarrow> 'd calc_position" where
  "cart_stepper_y_calc_position d p ms i move_time = Some (coord_y (move_get_coord d (ms ! i) move_time))"

definition cart_stepper_z_calc_position :: "'d double_ops \<Rightarrow> 'd calc_position" where
  "cart_stepper_z_calc_position d p ms i move_time = Some (coord_z (move_get_coord d (ms ! i) move_time))"

definition cartesian_stepper_alloc :: "'d double_ops \<Rightarrow> char \<Rightarrow> 'd stepper_kinematics" where
  "cartesian_stepper_alloc d axis =
     (let sk = kinematics_zero d in
      if axis = CHR ''x'' then sk\<lparr>calc_position_cb := cart_stepper_x_calc_position d, active_flags := AF_X\<rparr>
      else if axis = CHR ''y'' then sk\<lparr>calc_position_cb := cart_stepper_y_calc_position d, active_flags := AF_Y\<rparr>
      else if axis = CHR ''z'' then sk\<lparr>calc_position_cb := cart_stepper_z_calc_position d, active_flags := AF_Z\<rparr>
      else sk)"

definition cart_reverse_stepper_x_calc_position :: "'d double_ops \<Rightarrow> 'd calc_position" where
  "cart_reverse_stepper_x_calc_position d p ms i move_time = Some (d_neg d (coord_x (move_get_coord d (ms ! i) move_time)))"

definition cart_reverse_stepper_y_calc_position :: "'d double_ops \<Rightarrow> 'd calc_position" where
  "cart_reverse_stepper_y_calc_position d p ms i move_time = Some (d_neg d (coord_y (move_get_coord d (ms ! i) move_time)))"

definition cart_reverse_stepper_z_calc_position :: "'d double_ops \<Rightarrow> 'd calc_position" where
  "cart_reverse_stepper_z_calc_position d p ms i move_time = Some (d_neg d (coord_z (move_get_coord d (ms ! i) move_time)))"

definition cartesian_reverse_stepper_alloc :: "'d double_ops \<Rightarrow> char \<Rightarrow> 'd stepper_kinematics" where
  "cartesian_reverse_stepper_alloc d axis =
     (let sk = kinematics_zero d in
      if axis = CHR ''x'' then sk\<lparr>calc_position_cb := cart_reverse_stepper_x_calc_position d, active_flags := AF_X\<rparr>
      else if axis = CHR ''y'' then sk\<lparr>calc_position_cb := cart_reverse_stepper_y_calc_position d, active_flags := AF_Y\<rparr>
      else if axis = CHR ''z'' then sk\<lparr>calc_position_cb := cart_reverse_stepper_z_calc_position d, active_flags := AF_Z\<rparr>
      else sk)"

section \<open>CoreXY and CoreXZ\<close>

definition corexy_stepper_plus_calc_position :: "'d double_ops \<Rightarrow> 'd calc_position" where
  "corexy_stepper_plus_calc_position d p ms i move_time =
     (let c = move_get_coord d (ms ! i) move_time in Some (d_add d (coord_x c) (coord_y c)))"

definition corexy_stepper_minus_calc_position :: "'d double_ops \<Rightarrow> 'd calc_position" where
  "corexy_stepper_minus_calc_position d p ms i move_time =
     (let c = move_get_coord d (ms ! i) move_time in Some (d_sub d (coord_x c) (coord_y c)))"

definition corexy_stepper_alloc :: "'d double_ops \<Rightarrow> char \<Rightarrow> 'd stepper_kinematics" where
  "corexy_stepper_alloc d typ =
     (let sk = kinematics_zero d;
          sk = (if typ = CHR ''+'' then sk\<lparr>calc_position_cb := corexy_stepper_plus_calc_position d\<rparr>
                else if typ = CHR ''-'' then sk\<lparr>calc_position_cb := corexy_stepper_minus_calc_position d\<rparr> else sk)
      in sk\<lparr>active_flags := AF_X OR AF_Y\<rparr>)"

definition corexz_stepper_plus_calc_position :: "'d double_ops \<Rightarrow> 'd calc_position" where
  "corexz_stepper_plus_calc_position d p ms i move_time =
     (let c = move_get_coord d (ms ! i) move_time in Some (d_add d (coord_x c) (coord_z c)))"

definition corexz_stepper_minus_calc_position :: "'d double_ops \<Rightarrow> 'd calc_position" where
  "corexz_stepper_minus_calc_position d p ms i move_time =
     (let c = move_get_coord d (ms ! i) move_time in Some (d_sub d (coord_x c) (coord_z c)))"

definition corexz_stepper_alloc :: "'d double_ops \<Rightarrow> char \<Rightarrow> 'd stepper_kinematics" where
  "corexz_stepper_alloc d typ =
     (let sk = kinematics_zero d;
          sk = (if typ = CHR ''+'' then sk\<lparr>calc_position_cb := corexz_stepper_plus_calc_position d\<rparr>
                else if typ = CHR ''-'' then sk\<lparr>calc_position_cb := corexz_stepper_minus_calc_position d\<rparr> else sk)
      in sk\<lparr>active_flags := AF_X OR AF_Z\<rparr>)"

section \<open>Towers, cables and arms\<close>

definition delta_stepper_calc_position :: "'d double_ops \<Rightarrow> 'd math_ops \<Rightarrow> 'd \<Rightarrow> 'd \<Rightarrow> 'd \<Rightarrow> 'd calc_position" where
  "delta_stepper_calc_position d mo arm2 tower_x tower_y p ms i move_time =
     (let c = move_get_coord d (ms ! i) move_time;
          dx = d_sub d tower_x (coord_x c); dy = d_sub d tower_y (coord_y c)
      in Some (d_add d (m_sqrt mo (d_sub d (d_sub d arm2 (d_mul d dx dx)) (d_mul d dy dy))) (coord_z c)))"

definition delta_stepper_alloc :: "'d double_ops \<Rightarrow> 'd math_ops \<Rightarrow> 'd \<Rightarrow> 'd \<Rightarrow> 'd \<Rightarrow> 'd stepper_kinematics" where
  "delta_stepper_alloc d mo arm2 tower_x tower_y =
     (kinematics_zero d)\<lparr>calc_position_cb := delta_stepper_calc_position d mo arm2 tower_x tower_y,
       active_flags := AF_X OR AF_Y OR AF_Z\<rparr>"

definition winch_stepper_calc_position :: "'d double_ops \<Rightarrow> 'd math_ops \<Rightarrow> 'd coord \<Rightarrow> 'd calc_position" where
  "winch_stepper_calc_position d mo anchor p ms i move_time =
     (let c = move_get_coord d (ms ! i) move_time;
          dx = d_sub d (coord_x anchor) (coord_x c); dy = d_sub d (coord_y anchor) (coord_y c);
          dz = d_sub d (coord_z anchor) (coord_z c)
      in Some (m_sqrt mo (d_add d (d_add d (d_mul d dx dx) (d_mul d dy dy)) (d_mul d dz dz))))"

definition winch_stepper_alloc :: "'d double_ops \<Rightarrow> 'd math_ops \<Rightarrow> 'd \<Rightarrow> 'd \<Rightarrow> 'd \<Rightarrow> 'd stepper_kinematics" where
  "winch_stepper_alloc d mo anchor_x anchor_y anchor_z =
     (kinematics_zero d)\<lparr>calc_position_cb :=
        winch_stepper_calc_position d mo \<lparr>coord_x = anchor_x, coord_y = anchor_y, coord_z = anchor_z\<rparr>,
       active_flags := AF_X OR AF_Y OR AF_Z\<rparr>"

definition polar_stepper_radius_calc_position :: "'d double_ops \<Rightarrow> 'd math_ops \<Rightarrow> 'd calc_position" where
  "polar_stepper_radius_calc_position d mo p ms i move_time =
     (let c = move_get_coord d (ms ! i) move_time in
      Some (m_sqrt mo (d_add d (d_mul d (coord_x c) (coord_x c)) (d_mul d (coord_y c) (coord_y c)))))"

definition polar_stepper_angle_calc_position :: "'d double_ops \<Rightarrow> 'd math_ops \<Rightarrow> 'd calc_position" where
  "polar_stepper_angle_calc_position d mo commanded ms i move_time =
     (let c = move_get_coord d (ms ! i) move_time;
          angle = m_atan2 mo (coord_y c) (coord_x c); turn = d_mul d (d_lit d 2 0) (m_pi mo)
      in Some (if d_less d (m_pi mo) (d_sub d angle commanded) then d_sub d angle turn
               else if d_less d (d_sub d angle commanded) (d_neg d (m_pi mo)) then d_add d angle turn
               else angle))"

definition polar_stepper_angle_post_fixup :: "'d double_ops \<Rightarrow> 'd math_ops \<Rightarrow> 'd \<Rightarrow> 'd" where
  "polar_stepper_angle_post_fixup d mo commanded =
     (let turn = d_mul d (d_lit d 2 0) (m_pi mo) in
      if d_less d commanded (d_neg d (m_pi mo)) then d_add d commanded turn
      else if d_less d (m_pi mo) commanded then d_sub d commanded turn
      else commanded)"

definition polar_stepper_alloc :: "'d double_ops \<Rightarrow> 'd math_ops \<Rightarrow> char \<Rightarrow> 'd stepper_kinematics" where
  "polar_stepper_alloc d mo typ =
     (let sk = kinematics_zero d;
          sk = (if typ = CHR ''r'' then sk\<lparr>calc_position_cb := polar_stepper_radius_calc_position d mo\<rparr>
                else if typ = CHR ''a'' then
                  sk\<lparr>calc_position_cb := polar_stepper_angle_calc_position d mo,
                    post_cb := Some (polar_stepper_angle_post_fixup d mo)\<rparr>
                else sk)
      in sk\<lparr>active_flags := AF_X OR AF_Y\<rparr>)"

text \<open>\<open>Calculate scaled elbow coordinates via quadratic equation.\<close>\<close>

definition scaled_elbow :: "'d double_ops \<Rightarrow> 'd math_ops \<Rightarrow> 'd \<Rightarrow> 'd \<Rightarrow> 'd \<Rightarrow> 'd \<Rightarrow> 'd \<times> 'd" where
  "scaled_elbow d mo dx dy upper_arm2 lower_arm2 =
     (let inv_dy = d_div d (d_lit d 1 0) dy;
          c1 = d_mul d (d_mul d (d_lit d 5 1) inv_dy)
                 (d_sub d (d_add d (d_add d (d_mul d dx dx) (d_mul d dy dy)) upper_arm2) lower_arm2);
          c2 = d_mul d dx inv_dy;
          scale = d_add d (d_mul d c2 c2) (d_lit d 10 1);
          scaled_elbow_x = d_add d (d_mul d c1 c2) (m_sqrt mo (d_sub d (d_mul d scale upper_arm2) (d_mul d c1 c1)));
          scaled_elbow_y = d_sub d (d_mul d c1 scale) (d_mul d c2 scaled_elbow_x)
      in (scaled_elbow_x, scaled_elbow_y))"

definition rotary_two_arm_calc :: "'d double_ops \<Rightarrow> 'd math_ops \<Rightarrow> 'd \<Rightarrow> 'd \<Rightarrow> 'd \<Rightarrow> 'd \<Rightarrow> 'd" where
  "rotary_two_arm_calc d mo dx dy upper_arm2 lower_arm2 =
     (case scaled_elbow d mo dx dy upper_arm2 lower_arm2 of (x, y) \<Rightarrow> m_atan2 mo y x)"

record 'd rotary_stepper =
  rs_cos :: 'd
  rs_sin :: 'd
  shoulder_radius :: 'd
  shoulder_height :: 'd
  rs_upper_arm2 :: 'd
  rs_lower_arm2 :: 'd

definition rotary_stepper_calc_position :: "'d double_ops \<Rightarrow> 'd math_ops \<Rightarrow> 'd rotary_stepper \<Rightarrow> 'd calc_position" where
  "rotary_stepper_calc_position d mo rs p ms i move_time =
     (let c = move_get_coord d (ms ! i) move_time;
          sjz = d_sub d (d_mul d (coord_y c) (rs_cos rs)) (d_mul d (coord_x c) (rs_sin rs));
          sjx = d_sub d (d_add d (d_mul d (coord_x c) (rs_cos rs)) (d_mul d (coord_y c) (rs_sin rs))) (shoulder_radius rs);
          sjy = d_sub d (coord_z c) (shoulder_height rs)
      in Some (rotary_two_arm_calc d mo sjx sjy (rs_upper_arm2 rs) (d_sub d (rs_lower_arm2 rs) (d_mul d sjz sjz))))"

definition rotary_delta_stepper_alloc ::
    "'d double_ops \<Rightarrow> 'd math_ops \<Rightarrow> 'd \<Rightarrow> 'd \<Rightarrow> 'd \<Rightarrow> 'd \<Rightarrow> 'd \<Rightarrow> 'd stepper_kinematics" where
  "rotary_delta_stepper_alloc d mo radius height angle upper_arm lower_arm =
     (let rs = \<lparr>rs_cos = m_cos mo angle, rs_sin = m_sin mo angle, shoulder_radius = radius, shoulder_height = height,
                rs_upper_arm2 = d_mul d upper_arm upper_arm, rs_lower_arm2 = d_mul d lower_arm lower_arm\<rparr>
      in (kinematics_zero d)\<lparr>calc_position_cb := rotary_stepper_calc_position d mo rs,
           active_flags := AF_X OR AF_Y OR AF_Z\<rparr>)"

section \<open>Steppers that move with the axes\<close>

definition weighted :: "'a :: floor_ceiling coord \<Rightarrow> 'a coord \<Rightarrow> 'a" where
  "weighted w c = coord_x w * coord_x c + coord_y w * coord_y c + coord_z w * coord_z c"

text \<open>The position is a sum of the coordinates with the weights \<open>w\<close>.\<close>

definition weighs :: "'a :: floor_ceiling stepper_kinematics \<Rightarrow> 'a coord \<Rightarrow> bool" where
  "weighs sk w \<longleftrightarrow> post_cb sk = None \<and>
     calc_position_cb sk = (\<lambda>p ms i t. Some (weighted w (move_get_coord exact (ms ! i) t)))"

lemmas stepper_defs =
  cartesian_stepper_alloc_def cartesian_reverse_stepper_alloc_def corexy_stepper_alloc_def corexz_stepper_alloc_def
  cart_stepper_x_calc_position_def cart_stepper_y_calc_position_def cart_stepper_z_calc_position_def
  cart_reverse_stepper_x_calc_position_def cart_reverse_stepper_y_calc_position_def cart_reverse_stepper_z_calc_position_def
  corexy_stepper_plus_calc_position_def corexy_stepper_minus_calc_position_def
  corexz_stepper_plus_calc_position_def corexz_stepper_minus_calc_position_def kinematics_zero_def

text \<open>The weights of the steppers of a kind.\<close>

lemma weighs_axes:
  "weighs (cartesian_stepper_alloc exact CHR ''x'') \<lparr>coord_x = 1, coord_y = 0, coord_z = 0\<rparr>"
  "weighs (cartesian_stepper_alloc exact CHR ''y'') \<lparr>coord_x = 0, coord_y = 1, coord_z = 0\<rparr>"
  "weighs (cartesian_stepper_alloc exact CHR ''z'') \<lparr>coord_x = 0, coord_y = 0, coord_z = 1\<rparr>"
  "weighs (cartesian_reverse_stepper_alloc exact CHR ''x'') \<lparr>coord_x = -1, coord_y = 0, coord_z = 0\<rparr>"
  "weighs (cartesian_reverse_stepper_alloc exact CHR ''y'') \<lparr>coord_x = 0, coord_y = -1, coord_z = 0\<rparr>"
  "weighs (cartesian_reverse_stepper_alloc exact CHR ''z'') \<lparr>coord_x = 0, coord_y = 0, coord_z = -1\<rparr>"
  "weighs (corexy_stepper_alloc exact CHR ''+'') \<lparr>coord_x = 1, coord_y = 1, coord_z = 0\<rparr>"
  "weighs (corexy_stepper_alloc exact CHR ''-'') \<lparr>coord_x = 1, coord_y = -1, coord_z = 0\<rparr>"
  "weighs (corexz_stepper_alloc exact CHR ''+'') \<lparr>coord_x = 1, coord_y = 0, coord_z = 1\<rparr>"
  "weighs (corexz_stepper_alloc exact CHR ''-'') \<lparr>coord_x = 1, coord_y = 0, coord_z = -1\<rparr>"
  by (simp_all add: weighs_def weighted_def fun_eq_iff stepper_defs Let_def)

text \<open>In a move without acceleration the position is a line.\<close>

lemma weighted_line:
  "half_accel m = 0 \<Longrightarrow> weighted w (move_get_coord exact m t) =
     straight (weighted w (start_pos m)) (weighted w (axes_r m) * start_v m) t"
  by (simp add: weighted_def move_get_coord_def move_get_distance_def straight_def Let_def algebra_simps)

text \<open>
  C2: In a move of constant speed, that drives a stepper of a cartesian, CoreXY or CoreXZ machine
  forwards, from a place within half a step of the commanded position and while the stepper is already
  set to this direction, the search always ends; it makes one call for every step, in the order of time and within
  the part of the move that is looked at, the \<open>k\<close>-th step when the position passes the middle of the
  \<open>k\<close>-th and the next place of the stepper up to the tolerance of the search; and no step is missed:
  the commanded position, a whole number of steps further, is the nearest to the position at the end.
\<close>

theorem constant_speed_steps:
  fixes sk :: "'a :: floor_ceiling stepper_kinematics"
  assumes "weighs sk w" "half_accel (ms ! i) = 0"
    and "v = weighted w (axes_r (ms ! i)) * start_v (ms ! i)" "x0 = weighted w (start_pos (ms ! i))" "h = step_dist sk / 2"
    and "start = range_start (ms ! i) abs_start" "end_t = range_end (ms ! i) abs_end" "start \<le> end_t"
    and "0 < v" "ns < h" "v * ns \<le> h" "sink_dir sink c \<noteq> 0"
    and "commanded_pos sk - h - ns \<le> straight x0 v start" "straight x0 v start < commanded_pos sk + h"
  shows "\<exists>evs pos. itersolve_gen_steps_range exact sink ms i abs_start abs_end sk c =
      Some (andThen (feed sink (sink_dir sink c) (print_time (ms ! i)) evs c)
        (\<lambda>ret c. Ret (ret, if ret \<noteq> 0 then sk else sk\<lparr>commanded_pos := pos\<rparr>) c)) \<and>
    pos = commanded_pos sk + step_dist sk * of_nat (length (step_times evs)) \<and>
    on_time x0 v h start end_t (commanded_pos sk + h) (step_times evs) \<and>
    \<bar>straight x0 v end_t - pos\<bar> \<le> h + tolerance v"
proof -
  have cb: "calc_position_cb sk (commanded_pos sk) ms i t = Some (straight x0 v t)" for t
    using assms(1-4) by (simp add: weighs_def weighted_line)
  have post: "post_cb sk = None" using assms(1) by (simp add: weighs_def)
  show ?thesis
    using gen_steps_range_line [of v sk sink c ms i x0 abs_start abs_end, OF _ _ _ post _ cb] assms(8-14)
    unfolding assms(5-7) by blast
qed

text \<open>A sink that notes the times of the steps.\<close>

definition recorder :: "('d list, 'd) step_sink" where
  "recorder = \<lparr>sink_dir = (\<lambda>_. 1), sink_append = (\<lambda>dir mt t ts. Ret 0 (ts @ [t])), sink_commit = Ret 0\<rparr>"

lemma sink_dir_recorder: "sink_dir recorder ts = 1"
  by (simp add: recorder_def)

lemma feed_recorder: "feed recorder dir mt evs ts = Ret 0 (ts @ step_times evs)"
  by (induction evs arbitrary: ts rule: step_times.induct) (simp_all add: recorder_def)

definition example_move :: "rat move" where
  "example_move = (tq_move_alloc exact)\<lparr>print_time := 2, move_t := 1, start_v := 10,
     axes_r := \<lparr>coord_x = 1, coord_y = 0, coord_z = 0\<rparr>\<rparr>"

definition example_stepper :: "rat stepper_kinematics" where
  "example_stepper = (corexy_stepper_alloc exact CHR ''+'')\<lparr>step_dist := 1 / 100\<rparr>"

theorem constant_speed_steps_witness:
  "\<exists>ts pos. itersolve_gen_steps_range exact recorder [example_move] 0 0 5 example_stepper [] =
      Some (Ret (0, example_stepper\<lparr>commanded_pos := pos\<rparr>) ts) \<and>
    pos = of_nat (length ts) / 100 \<and> \<bar>10 - pos\<bar> \<le> 1 / 200 + 1 / 10 ^ 8 \<and>
    on_time 0 10 (1 / 200) 0 1 (1 / 200) ts"
proof -
  have w: "weighs example_stepper \<lparr>coord_x = 1, coord_y = 1, coord_z = 0\<rparr>"
    using weighs_axes(7) by (simp add: weighs_def example_stepper_def)
  have f: "start_pos example_move = \<lparr>coord_x = 0, coord_y = 0, coord_z = 0\<rparr>" "half_accel example_move = 0"
    "start_v example_move = 10" "axes_r example_move = \<lparr>coord_x = 1, coord_y = 0, coord_z = 0\<rparr>" "print_time example_move = 2"
    "move_t example_move = 1" "step_dist example_stepper = 1 / 100" "commanded_pos example_stepper = 0"
    by (simp_all add: example_move_def tq_move_alloc_def example_stepper_def stepper_defs Let_def)
  have r: "range_start example_move 0 = 0" "range_end example_move 5 = 1" by (simp_all add: range_start_def range_end_def f)
  have t: "tolerance (10 :: rat) = 1 / 10 ^ 8" by (simp add: tolerance_def ns_def)
  show ?thesis
    using constant_speed_steps [OF w, of "[example_move]" 0 10 0 "1 / 200" 0 0 1 5 recorder "[]"]
    by (auto simp: f r t feed_recorder weighted_def straight_def ns_def sink_dir_recorder)
qed

section \<open>Where the others are\<close>

text \<open>The functions of \<open>math.h\<close> on real numbers.\<close>

definition real_atan2 :: "real \<Rightarrow> real \<Rightarrow> real" where
  "real_atan2 y x =
     (if 0 < x then arctan (y / x)
      else if x < 0 then (if 0 \<le> y then arctan (y / x) + pi else arctan (y / x) - pi)
      else if 0 < y then pi / 2 else if y < 0 then - (pi / 2) else 0)"

definition real_math :: "real math_ops" where
  "real_math = \<lparr>m_sqrt = sqrt, m_atan2 = real_atan2, m_sin = sin, m_cos = cos, m_pi = pi\<rparr>"

lemma real_math_simps [simp]:
  "m_sqrt real_math = sqrt" "m_atan2 real_math = real_atan2" "m_sin real_math = sin" "m_cos real_math = cos"
  "m_pi real_math = pi"
  by (simp_all add: real_math_def)

lemma real_atan2_polar:
  assumes "r = sqrt (x ^ 2 + y ^ 2)"
  shows "r * cos (real_atan2 y x) = x" "r * sin (real_atan2 y x) = y"
proof -
  have "r * cos (real_atan2 y x) = x \<and> r * sin (real_atan2 y x) = y"
  proof (cases "x = 0")
    case True
    then show ?thesis using assms by (simp add: real_atan2_def abs_if)
  next
    case False
    have "r = sqrt (x ^ 2 * (1 + (y / x) ^ 2))" using False by (simp add: assms power_divide field_simps)
    then have r: "r = \<bar>x\<bar> * sqrt (1 + (y / x) ^ 2)" by (simp add: real_sqrt_mult)
    have "0 < sqrt (1 + (y / x) ^ 2)" by (simp add: add_pos_nonneg)
    then have "r * cos (arctan (y / x)) = \<bar>x\<bar>" "r * sin (arctan (y / x)) = \<bar>x\<bar> * (y / x)"
      by (simp_all add: r cos_arctan sin_arctan)
    then show ?thesis using False by (auto simp: real_atan2_def abs_if split: if_splits)
  qed
  then show "r * cos (real_atan2 y x) = x" "r * sin (real_atan2 y x) = y" by simp_all
qed

lemma real_atan2_bounds: "- pi < real_atan2 y x" "real_atan2 y x \<le> pi"
proof -
  have a: "- (pi / 2) < arctan (y / x)" "arctan (y / x) < pi / 2" by (rule arctan_lbound arctan_ubound)+
  have s: "arctan (y / x) \<le> 0" if "x < 0" "0 \<le> y" using that by (simp add: divide_nonneg_neg)
  have t: "0 < arctan (y / x)" if "x < 0" "y < 0" using that by (simp add: divide_neg_neg)
  show "- pi < real_atan2 y x" "real_atan2 y x \<le> pi"
    using a s t pi_gt_zero unfolding real_atan2_def by (auto split: if_splits)
qed

definition distance2 :: "real coord \<Rightarrow> real coord \<Rightarrow> real" where
  "distance2 a b = (coord_x a - coord_x b) ^ 2 + (coord_y a - coord_y b) ^ 2 + (coord_z a - coord_z b) ^ 2"

text \<open>The arm of a tower spans from the carriage to the tool; the cable of a winch from the anchor to it.\<close>

lemma delta_arm:
  assumes "delta_stepper_calc_position exact real_math arm2 tx ty p ms i t = Some z"
    and "c = move_get_coord exact (ms ! i) t" "(tx - coord_x c) ^ 2 + (ty - coord_y c) ^ 2 \<le> arm2"
  shows "distance2 \<lparr>coord_x = tx, coord_y = ty, coord_z = z\<rparr> c = arm2" "coord_z c \<le> z"
proof -
  have z: "z = sqrt (arm2 - (tx - coord_x c) ^ 2 - (ty - coord_y c) ^ 2) + coord_z c"
    using assms(1) by (simp add: delta_stepper_calc_position_def Let_def assms(2) power2_eq_square)
  have n: "0 \<le> arm2 - (tx - coord_x c) ^ 2 - (ty - coord_y c) ^ 2" using assms(3) by simp
  show "distance2 \<lparr>coord_x = tx, coord_y = ty, coord_z = z\<rparr> c = arm2" using n by (simp add: z distance2_def)
  show "coord_z c \<le> z" using n by (simp add: z)
qed

lemma winch_cable:
  "winch_stepper_calc_position exact real_math anchor p ms i t =
     Some (sqrt (distance2 anchor (move_get_coord exact (ms ! i) t)))"
  by (simp add: winch_stepper_calc_position_def Let_def distance2_def power2_eq_square)

text \<open>
  The angle of a polar stepper, with the radius, is the place of the tool, and not more than half a turn away
  from where the stepper was.
\<close>

lemma polar_place:
  assumes "polar_stepper_radius_calc_position exact real_math p ms i t = Some r"
    and "polar_stepper_angle_calc_position exact real_math commanded ms i t = Some a"
    and "c = move_get_coord exact (ms ! i) t"
  shows "r * cos a = coord_x c" "r * sin a = coord_y c"
    "- pi \<le> commanded \<Longrightarrow> commanded \<le> pi \<Longrightarrow> \<bar>a - commanded\<bar> \<le> pi"
proof -
  let ?b = "real_atan2 (coord_y c) (coord_x c)"
  have r: "r = sqrt (coord_x c ^ 2 + coord_y c ^ 2)"
    using assms(1) by (simp add: polar_stepper_radius_calc_position_def Let_def assms(3) power2_eq_square)
  have a: "a = (if pi < ?b - commanded then ?b - 2 * pi else if ?b - commanded < - pi then ?b + 2 * pi else ?b)"
    using assms(2) by (auto simp: polar_stepper_angle_calc_position_def Let_def assms(3) split: if_splits)
  have "cos a = cos ?b" "sin a = sin ?b" by (auto simp: a cos_diff sin_diff)
  then show "r * cos a = coord_x c" "r * sin a = coord_y c" using real_atan2_polar [OF r] by simp_all
  show "\<bar>a - commanded\<bar> \<le> pi" if "- pi \<le> commanded" "commanded \<le> pi"
    using that real_atan2_bounds [of "coord_y c" "coord_x c"] by (auto simp: a abs_if)
qed

lemma elbow_joins_arms:
  fixes upper2 :: real
  assumes "scaled_elbow exact real_math dx dy upper2 lower2 = (x, y)" "dy \<noteq> 0"
    and "(dx ^ 2 + dy ^ 2 + upper2 - lower2) ^ 2 \<le> 4 * upper2 * (dx ^ 2 + dy ^ 2)"
  shows "\<exists>s > 0. (x / s) ^ 2 + (y / s) ^ 2 = upper2 \<and> (dx - x / s) ^ 2 + (dy - y / s) ^ 2 = lower2"
proof -
  define c1 where "c1 = 1 / 2 * (1 / dy) * (dx * dx + dy * dy + upper2 - lower2)"
  define c2 where "c2 = dx * (1 / dy)"
  define s where "s = c2 * c2 + 1"
  define q where "q = sqrt (s * upper2 - c1 * c1)"
  have one: "d_lit exact 10 (Suc 0) = (1 :: real)" by (simp add: exact_def)
  have xy: "x = c1 * c2 + q" "y = c1 * s - c2 * x"
    using assms(1) by (auto simp: scaled_elbow_def Let_def one c1_def c2_def s_def q_def ac_simps)
  have s: "0 < s" unfolding s_def by (simp add: add_nonneg_pos)
  have "4 * (dy * dy) * (c1 * c1) = (dx ^ 2 + dy ^ 2 + upper2 - lower2) ^ 2"
    "4 * (dy * dy) * (s * upper2) = 4 * upper2 * (dx ^ 2 + dy ^ 2)"
    using assms(2) by (simp_all add: c1_def c2_def s_def power2_eq_square field_simps)
  then have "4 * (dy * dy) * (c1 * c1) \<le> 4 * (dy * dy) * (s * upper2)" using assms(3) by linarith
  then have "c1 * c1 \<le> s * upper2"
    using assms(2) by (subst (asm) mult_le_cancel_left_pos) (auto simp: zero_less_mult_iff)
  then have q: "q ^ 2 = s * upper2 - c1 ^ 2" by (simp add: q_def power2_eq_square)
  have ey: "y / s = c1 - c2 * (x / s)" using s by (simp add: xy(2) field_simps)
  have "(x - c1 * c2) ^ 2 = s * upper2 - c1 ^ 2" using q by (simp add: xy(1))
  moreover have "(x - c1 * c2) ^ 2 + c1 ^ 2 = s * (e ^ 2 * s - 2 * c1 * c2 * e + c1 ^ 2)" if "x = e * s" for e
    by (simp add: that) (simp add: s_def power2_eq_square algebra_simps)
  from this [of "x / s"] have "(x - c1 * c2) ^ 2 + c1 ^ 2 = s * ((x / s) ^ 2 * s - 2 * c1 * c2 * (x / s) + c1 ^ 2)"
    using s by simp
  ultimately have "(x / s) ^ 2 * s - 2 * c1 * c2 * (x / s) + c1 ^ 2 = upper2" using s by simp
  moreover have "e ^ 2 + (c1 - c2 * e) ^ 2 = e ^ 2 * s - 2 * c1 * c2 * e + c1 ^ 2" for e
    by (simp add: s_def power2_eq_square algebra_simps)
  ultimately have u: "(x / s) ^ 2 + (y / s) ^ 2 = upper2" unfolding ey by metis
  have "2 * dy * (y / s) = dx ^ 2 + dy ^ 2 + upper2 - lower2 - 2 * dx * (x / s)"
    using assms(2) unfolding ey c1_def c2_def by (simp add: field_simps power2_eq_square)
  then have "(dx - x / s) ^ 2 + (dy - y / s) ^ 2 = lower2"
    using u by (simp add: power2_eq_square algebra_simps)
  then show ?thesis using s u by blast
qed

lemma two_arm_angle:
  assumes "a = rotary_two_arm_calc exact real_math dx dy (upper ^ 2) lower2" "0 < upper" "dy \<noteq> 0"
    and "(dx ^ 2 + dy ^ 2 + upper ^ 2 - lower2) ^ 2 \<le> 4 * upper ^ 2 * (dx ^ 2 + dy ^ 2)"
  shows "(dx - upper * cos a) ^ 2 + (dy - upper * sin a) ^ 2 = lower2"
proof -
  obtain x y where xy: "scaled_elbow exact real_math dx dy (upper ^ 2) lower2 = (x, y)" by (cases "scaled_elbow exact real_math dx dy (upper ^ 2) lower2")
  obtain s where s: "0 < s" "(x / s) ^ 2 + (y / s) ^ 2 = upper ^ 2" "(dx - x / s) ^ 2 + (dy - y / s) ^ 2 = lower2"
    using elbow_joins_arms [OF xy assms(3,4)] by blast
  have "x ^ 2 + y ^ 2 = (s * upper) ^ 2" using s(1,2) by (simp add: power_divide power_mult_distrib field_simps)
  then have r: "s * upper = sqrt (x ^ 2 + y ^ 2)" using s(1) assms(2) by simp
  have "a = real_atan2 y x" by (simp add: assms(1) rotary_two_arm_calc_def xy)
  then have "upper * cos a = x / s" "upper * sin a = y / s" using real_atan2_polar [OF r] s(1) by (simp_all add: field_simps)
  then show ?thesis using s(3) by simp
qed

text \<open>The elbow of the arm at the angle \<open>th\<close> around the machine, raised by \<open>a\<close>.\<close>

definition elbow :: "real \<Rightarrow> real \<Rightarrow> real \<Rightarrow> real \<Rightarrow> real \<Rightarrow> real coord" where
  "elbow radius height th upper a =
     \<lparr>coord_x = (radius + upper * cos a) * cos th, coord_y = (radius + upper * cos a) * sin th,
      coord_z = height + upper * sin a\<rparr>"

lemma rotated:
  fixes sn cs :: real
  assumes "sn ^ 2 + cs ^ 2 = 1"
  shows "(k * cs - u) ^ 2 + (k * sn - v) ^ 2 = (u * cs + v * sn - k) ^ 2 + (v * cs - u * sn) ^ 2"
proof -
  have "(u * cs + v * sn - k) ^ 2 + (v * cs - u * sn) ^ 2 = (u ^ 2 + v ^ 2) * (sn ^ 2 + cs ^ 2) + k ^ 2 - 2 * k * (u * cs + v * sn)"
    "(k * cs - u) ^ 2 + (k * sn - v) ^ 2 = (u ^ 2 + v ^ 2) + k ^ 2 * (sn ^ 2 + cs ^ 2) - 2 * k * (u * cs + v * sn)"
    by (simp_all add: power2_eq_square algebra_simps)
  then show ?thesis by (simp add: assms)
qed

text \<open>
  C11: The angle computed for an arm of a rotary delta machine is one at which the arms meet: with the
  upper arm raised to it, the elbow is exactly the length of the lower arm away from the tool, wherever
  the tool is that the arm can reach, except exactly at the height of the shoulder. That plane is left
  out because the code divides by the height of the tool over the shoulder: there the floating point
  program computes with infinities and gets no angle at all.
\<close>

theorem rotary_delta_arms:
  fixes lower :: real
  assumes "calc_position_cb (rotary_delta_stepper_alloc exact real_math radius height th upper lower) p ms i t = Some a"
    and "c = move_get_coord exact (ms ! i) t" "0 < upper" "coord_z c \<noteq> height"
    and "x = coord_x c * cos th + coord_y c * sin th - radius" "y = coord_y c * cos th - coord_x c * sin th"
    and "z = coord_z c - height" "(x ^ 2 + z ^ 2 + upper ^ 2 - (lower ^ 2 - y ^ 2)) ^ 2 \<le> 4 * upper ^ 2 * (x ^ 2 + z ^ 2)"
  shows "distance2 (elbow radius height th upper a) c = lower ^ 2"
proof -
  have "a = rotary_two_arm_calc exact real_math x z (upper ^ 2) (lower ^ 2 - y ^ 2)"
    using assms(1) by (simp add: rotary_delta_stepper_alloc_def rotary_stepper_calc_position_def Let_def
        assms(2) [symmetric] assms(5-7) power2_eq_square)
  then have "(x - upper * cos a) ^ 2 + (z - upper * sin a) ^ 2 = lower ^ 2 - y ^ 2"
    by (rule two_arm_angle) (use assms in auto)
  moreover have "((radius + upper * cos a) * cos th - coord_x c) ^ 2 + ((radius + upper * cos a) * sin th - coord_y c) ^ 2
      = (x - upper * cos a) ^ 2 + y ^ 2"
    using rotated [of "sin th" "cos th" "radius + upper * cos a" "coord_x c" "coord_y c"] by (simp add: assms(5,6) algebra_simps)
  moreover have "(height + upper * sin a - coord_z c) ^ 2 = (z - upper * sin a) ^ 2"
    by (simp add: assms(7) power2_eq_square algebra_simps)
  ultimately show ?thesis by (simp add: distance2_def elbow_def)
qed

theorem rotary_delta_arms_witness:
  "\<exists>a. calc_position_cb (rotary_delta_stepper_alloc exact real_math 10 0 0 4 6) 0
      [(tq_move_alloc exact)\<lparr>start_pos := \<lparr>coord_x = 11, coord_y = 2, coord_z = 5\<rparr>\<rparr>] 0 0 = Some a \<and>
    distance2 (elbow 10 0 0 4 a) \<lparr>coord_x = 11, coord_y = 2, coord_z = 5\<rparr> = 36"
proof -
  let ?ms = "[(tq_move_alloc exact)\<lparr>start_pos := \<lparr>coord_x = 11, coord_y = 2, coord_z = 5\<rparr>\<rparr>] :: real move list"
  have c: "move_get_coord exact (?ms ! 0) 0 = \<lparr>coord_x = 11, coord_y = 2, coord_z = 5\<rparr>"
    by (simp add: move_get_coord_def move_get_distance_def Let_def)
  obtain a where a: "calc_position_cb (rotary_delta_stepper_alloc exact real_math 10 0 0 4 6) 0 ?ms 0 0 = Some a"
    by (simp add: rotary_delta_stepper_alloc_def rotary_stepper_calc_position_def Let_def)
  show ?thesis using rotary_delta_arms [OF a c [symmetric], of 1 2 5] a by auto
qed

end
