(* ===== verification/Extruder.thy ===== *)
theory Extruder
  imports Kinematics
begin

text \<open>
  \<open>klippy/chelper/kin_extruder.c\<close>: the extruder, with pressure advance smoothed by a weighted average
  over the moves around the time. In a move of an extruder, \<open>x\<close> is the filament and \<open>axes_r.y\<close> the
  pressure advance.
\<close>

definition extruder_integrate :: "'d double_ops \<Rightarrow> 'd \<Rightarrow> 'd \<Rightarrow> 'd \<Rightarrow> 'd \<Rightarrow> 'd \<Rightarrow> 'd" where
  "extruder_integrate d base v0 ha start end_t =
     (let half_v = d_mul d (d_lit d 5 1) v0;
          sixth_a = d_mul d (d_div d (d_lit d 1 0) (d_lit d 3 0)) ha;
          si = d_mul d start (d_add d base (d_mul d start (d_add d half_v (d_mul d start sixth_a))));
          ei = d_mul d end_t (d_add d base (d_mul d end_t (d_add d half_v (d_mul d end_t sixth_a))))
      in d_sub d ei si)"

definition extruder_integrate_time :: "'d double_ops \<Rightarrow> 'd \<Rightarrow> 'd \<Rightarrow> 'd \<Rightarrow> 'd \<Rightarrow> 'd \<Rightarrow> 'd" where
  "extruder_integrate_time d base v0 ha start end_t =
     (let half_b = d_mul d (d_lit d 5 1) base;
          third_v = d_mul d (d_div d (d_lit d 1 0) (d_lit d 3 0)) v0;
          eighth_a = d_mul d (d_lit d 25 2) ha;
          si = d_mul d (d_mul d start start)
                 (d_add d half_b (d_mul d start (d_add d third_v (d_mul d start eighth_a))));
          ei = d_mul d (d_mul d end_t end_t)
                 (d_add d half_b (d_mul d end_t (d_add d third_v (d_mul d end_t eighth_a))))
      in d_sub d ei si)"

definition pa_move_integrate :: "'d double_ops \<Rightarrow> 'd move \<Rightarrow> 'd \<Rightarrow> 'd \<Rightarrow> 'd \<Rightarrow> 'd \<Rightarrow> 'd" where
  "pa_move_integrate d m base start end_t time_offset =
     (let start = (if d_less d start (d_zero d) then d_zero d else start);
          end_t = d_min d end_t (move_t m);
          pressure_advance = coord_y (axes_r m);
          base = d_add d base (d_mul d pressure_advance (start_v m));
          sv = d_add d (start_v m) (d_mul d (d_mul d pressure_advance (d_lit d 2 0)) (half_accel m));
          ha = half_accel m;
          iext = extruder_integrate d base sv ha start end_t;
          wgt_ext = extruder_integrate_time d base sv ha start end_t
      in d_sub d wgt_ext (d_mul d time_offset iext))"

text \<open>\<open>Integrate over previous moves\<close>; \<open>None\<close> is a walk past the first one.\<close>

fun pa_previous :: "'d double_ops \<Rightarrow> 'd move list \<Rightarrow> 'd \<Rightarrow> nat \<Rightarrow> 'd \<Rightarrow> 'd \<Rightarrow> 'd option" where
  "pa_previous d ms start_base 0 start res = (if d_less d start (d_zero d) then None else Some res)"
| "pa_previous d ms start_base (Suc i) start res =
     (if d_less d start (d_zero d) then
        let prev = ms ! i;
            start = d_add d start (move_t prev);
            base = d_sub d (coord_x (start_pos prev)) start_base
        in pa_previous d ms start_base i start (d_add d res (pa_move_integrate d prev base start (move_t prev) start))
      else Some res)"

text \<open>\<open>Integrate over future moves\<close>; \<open>None\<close> is a walk past the last one.\<close>

function pa_future :: "'d double_ops \<Rightarrow> 'd move list \<Rightarrow> 'd \<Rightarrow> nat \<Rightarrow> 'd \<Rightarrow> 'd \<Rightarrow> 'd option" where
  "pa_future d ms start_base i end_t res =
     (if i \<ge> length ms then None
      else if d_less d (move_t (ms ! i)) end_t then
        if i + 1 \<ge> length ms then None
        else
          let end_t = d_sub d end_t (move_t (ms ! i)); m = ms ! (i + 1);
              base = d_sub d (coord_x (start_pos m)) start_base
          in pa_future d ms start_base (i + 1) end_t (d_sub d res (pa_move_integrate d m base (d_zero d) end_t end_t))
      else Some res)"
  by pat_completeness auto
termination by (relation "measure (\<lambda>(d, ms, start_base, i, end_t, res). length ms - i)") auto

declare pa_future.simps [simp del]

definition pa_range_integrate :: "'d double_ops \<Rightarrow> 'd move list \<Rightarrow> nat \<Rightarrow> 'd \<Rightarrow> 'd \<Rightarrow> 'd option" where
  "pa_range_integrate d ms i move_time hst =
     (let m = ms ! i;
          start = d_sub d move_time hst; end_t = d_add d move_time hst;
          start_base = coord_x (start_pos m);
          res = d_add d (d_zero d) (pa_move_integrate d m (d_zero d) start move_time start);
          res = d_sub d res (pa_move_integrate d m (d_zero d) move_time end_t end_t)
      in Option.bind (pa_previous d ms start_base i start res) (pa_future d ms start_base i end_t))"

record 'd extruder_stepper =
  es_sk :: "'d stepper_kinematics"
  half_smooth_time :: 'd
  inv_half_smooth_time2 :: 'd

definition extruder_calc_position :: "'d double_ops \<Rightarrow> 'd extruder_stepper \<Rightarrow> 'd calc_position" where
  "extruder_calc_position d es p ms i move_time =
     (let m = ms ! i; hst = half_smooth_time es in
      if \<not> d_true d hst then Some (d_add d (coord_x (start_pos m)) (move_get_distance d m move_time))
      else map_option (\<lambda>area. d_add d (coord_x (start_pos m)) (d_mul d area (inv_half_smooth_time2 es)))
             (pa_range_integrate d ms i move_time hst))"

definition extruder_set_smooth_time :: "'d double_ops \<Rightarrow> 'd \<Rightarrow> 'd extruder_stepper \<Rightarrow> 'd extruder_stepper" where
  "extruder_set_smooth_time d smooth_time es =
     (let hst = d_mul d smooth_time (d_lit d 5 1);
          es = es\<lparr>half_smooth_time := hst,
                  es_sk := (es_sk es)\<lparr>gen_steps_pre_active := hst, gen_steps_post_active := hst\<rparr>\<rparr>
      in if \<not> d_true d hst then es
         else es\<lparr>inv_half_smooth_time2 := d_div d (d_lit d 1 0) (d_mul d hst hst)\<rparr>)"

definition extruder_stepper_alloc :: "'d double_ops \<Rightarrow> 'd extruder_stepper" where
  "extruder_stepper_alloc d =
     \<lparr>es_sk = (kinematics_zero d)\<lparr>active_flags := AF_X\<rparr>, half_smooth_time = d_zero d, inv_half_smooth_time2 = d_zero d\<rparr>"

text \<open>The stepper as \<open>itersolve.c\<close> sees it: the callback reads the extruder that contains it.\<close>

definition extruder_sk :: "'d double_ops \<Rightarrow> 'd extruder_stepper \<Rightarrow> 'd stepper_kinematics" where
  "extruder_sk d es = (es_sk es)\<lparr>calc_position_cb := extruder_calc_position d es\<rparr>"

section \<open>Integrals\<close>

text \<open>The integrals are those of the polynomials: they are their antiderivatives, and 0 over nothing.\<close>

lemma exact_thirds [simp]:
  "d_lit exact 3 0 = 3" "d_lit exact 25 2 = 1 / 4"
  by (simp_all add: exact_def)

lemma extruder_integrate_deriv:
  fixes base :: real
  shows "((\<lambda>x. extruder_integrate exact base v ha s x) has_real_derivative base + x * (v + x * ha)) (at x)"
    "extruder_integrate exact base v ha s s = 0"
  unfolding extruder_integrate_def Let_def
  by (auto intro!: derivative_eq_intros simp: algebra_simps)

lemma extruder_integrate_time_deriv:
  fixes base :: real
  shows "((\<lambda>x. extruder_integrate_time exact base v ha s x) has_real_derivative x * (base + x * (v + x * ha))) (at x)"
    "extruder_integrate_time exact base v ha s s = 0"
  unfolding extruder_integrate_time_def Let_def
  by (auto intro!: derivative_eq_intros simp: algebra_simps)

text \<open>
  C5: With pressure advance, the extruder follows its formula: while the window of smoothing lies in one
  move, its position is the nominal one plus the pressure advance times the nominal speed then, and the
  weighted average adds nothing but a sixth of the half acceleration times the square of half the window;
  the average of a motion at constant speed is that motion.
\<close>

theorem pressure_advance_position:
  fixes m :: "'a :: floor_ceiling move"
  assumes "es = extruder_set_smooth_time exact smooth es0" "0 < smooth" "i < length ms" "m = ms ! i" "h = smooth / 2"
    and "h \<le> t" "t + h \<le> move_t m" "sk = extruder_sk exact es"
  shows "calc_position_cb sk (commanded_pos sk) ms i t =
    Some (coord_x (start_pos m) + move_get_distance exact m t
      + coord_y (axes_r m) * (start_v m + 2 * half_accel m * t) + half_accel m * h ^ 2 / 6)"
proof -
  have h: "0 < h" using assms(2,5) by simp
  have es: "half_smooth_time es = h" "inv_half_smooth_time2 es = 1 / (h * h)"
    using h by (simp_all add: assms(1,5) extruder_set_smooth_time_def Let_def)
  define b where "b = coord_y (axes_r m) * start_v m"
  define v where "v = start_v m + coord_y (axes_r m) * 2 * half_accel m"
  define a where "a = half_accel m"
  have p: "pa_move_integrate exact m 0 s e w = extruder_integrate_time exact b v a s e - w * extruder_integrate exact b v a s e"
    if "0 \<le> s" "e \<le> move_t m" for s e w
    using that by (simp add: pa_move_integrate_def Let_def b_def v_def a_def min_def)
  let ?area = "pa_move_integrate exact m 0 (t - h) t (t - h) - pa_move_integrate exact m 0 t (t + h) (t + h)"
  have prev: "pa_previous exact ms x i (t - h) r = Some r" for x r using assms(6) by (cases i) simp_all
  have fut: "pa_future exact ms x i (t + h) r = Some r" for x r
    using assms(3,4,7) by (subst pa_future.simps) simp
  have "pa_range_integrate exact ms i t h = Some ?area"
    by (simp add: pa_range_integrate_def Let_def prev fut assms(4))
  moreover have "?area = h * h * (b + v * t + a * t * t + a * h * h / 6)"
  proof -
    have "t - h \<le> t" "t \<le> t + h" "0 \<le> t" "t \<le> move_t m" using h assms(6,7) by linarith+
    then show ?thesis using assms(6,7)
      by (simp add: p extruder_integrate_def extruder_integrate_time_def Let_def field_simps)
  qed
  ultimately have "calc_position_cb sk (commanded_pos sk) ms i t =
      Some (coord_x (start_pos m) + h * h * (b + v * t + a * t * t + a * h * h / 6) * (1 / (h * h)))"
    using h es by (simp add: assms(8) extruder_sk_def extruder_calc_position_def Let_def assms(4))
  moreover have "h * h * x * (1 / (h * h)) = x" for x using h by simp
  ultimately show ?thesis
    by (simp only:) (simp add: b_def v_def a_def move_get_distance_def power2_eq_square algebra_simps)
qed

theorem pressure_advance_position_witness:
  "calc_position_cb (extruder_sk exact (extruder_set_smooth_time exact (4 / 100) (extruder_stepper_alloc exact))) 0
      [(tq_move_alloc exact)\<lparr>move_t := 1, start_v := 5, axes_r := \<lparr>coord_x = 1, coord_y = 1 / 10, coord_z = 0\<rparr>\<rparr>] 0 (1 / 2)
    = Some (3 :: rat)"
proof -
  let ?es = "extruder_set_smooth_time exact (4 / 100) (extruder_stepper_alloc (exact :: rat double_ops))"
  have "commanded_pos (extruder_sk exact ?es) = 0"
    by (simp add: extruder_sk_def extruder_set_smooth_time_def extruder_stepper_alloc_def kinematics_zero_def Let_def)
  then show ?thesis
    using pressure_advance_position [OF refl, of "4 / 100" 0
      "[(tq_move_alloc exact)\<lparr>move_t := 1, start_v := 5, axes_r := \<lparr>coord_x = 1, coord_y = 1 / 10, coord_z = 0\<rparr>\<rparr>]"
      _ "2 / 100" "1 / 2" "extruder_sk exact ?es" "extruder_stepper_alloc exact"]
    by (simp add: tq_move_alloc_def Let_def move_get_distance_def)
qed

end
