(* ===== verification/Shaper.thy ===== *)
theory Shaper
  imports Kinematics
begin

text \<open>
  \<open>klippy/chelper/kin_shaper.c\<close>: input shaping, that replaces the place of the tool at a time by a
  weighted sum of its places at times around, on the moves before and behind.
\<close>

section \<open>Shapers\<close>

record 'd pulse =
  pulse_t :: 'd
  pulse_a :: 'd

text \<open>\<open>struct shaper_pulses\<close> is the list of its first \<open>num_pulses\<close> entries.\<close>

type_synonym 'd shaper_pulses = "'d pulse list"

definition MAX_PULSES :: nat where "MAX_PULSES = 5"

definition shift_pulses :: "'d double_ops \<Rightarrow> 'd shaper_pulses \<Rightarrow> 'd shaper_pulses" where
  "shift_pulses d sp =
     (let ts = foldl (\<lambda>ts p. d_add d ts (d_mul d (pulse_a p) (pulse_t p))) (d_zero d) sp
      in map (\<lambda>p. p\<lparr>pulse_t := d_sub d (pulse_t p) ts\<rparr>) sp)"

text \<open>\<open>None\<close> is a read behind the arrays.\<close>

definition init_shaper :: "'d double_ops \<Rightarrow> int \<Rightarrow> 'd list \<Rightarrow> 'd list \<Rightarrow> (int \<times> 'd shaper_pulses) option" where
  "init_shaper d n a t =
     (if n < 0 \<or> n > int MAX_PULSES then Some (-1, [])
      else if length a < nat n \<or> length t < nat n then None
      else
        let a = take (nat n) a; t = take (nat n) t;
            inv_a = d_div d (d_lit d 1 0) (foldl (d_add d) (d_zero d) a);
            sp = rev (map2 (\<lambda>a t. \<lparr>pulse_t = d_neg d t, pulse_a = d_mul d a inv_a\<rparr>) a t)
        in Some (0, shift_pulses d sp))"

section \<open>Convolution\<close>

definition axis_of :: "char \<Rightarrow> 'd coord \<Rightarrow> 'd" where
  "axis_of axis c = (if axis = CHR ''x'' then coord_x c else if axis = CHR ''y'' then coord_y c else coord_z c)"

definition get_axis_position :: "'d double_ops \<Rightarrow> 'd move \<Rightarrow> char \<Rightarrow> 'd \<Rightarrow> 'd" where
  "get_axis_position d m axis move_time =
     d_add d (axis_of axis (start_pos m)) (d_mul d (axis_of axis (axes_r m)) (move_get_distance d m move_time))"

text \<open>The two walks; \<open>None\<close> is one past an end of the queue.\<close>

fun walk_back :: "'d double_ops \<Rightarrow> 'd move list \<Rightarrow> nat \<Rightarrow> 'd \<Rightarrow> (nat \<times> 'd) option" where
  "walk_back d ms 0 time = (if d_less d time (d_zero d) then None else Some (0, time))"
| "walk_back d ms (Suc i) time =
     (if d_less d time (d_zero d) then walk_back d ms i (d_add d time (move_t (ms ! i))) else Some (Suc i, time))"

function walk_on :: "'d double_ops \<Rightarrow> 'd move list \<Rightarrow> nat \<Rightarrow> 'd \<Rightarrow> (nat \<times> 'd) option" where
  "walk_on d ms i time =
     (if i \<ge> length ms then None
      else if d_less d (move_t (ms ! i)) time then walk_on d ms (i + 1) (d_sub d time (move_t (ms ! i)))
      else Some (i, time))"
  by pat_completeness auto
termination by (relation "measure (\<lambda>(d, ms, i, time). length ms - i)") auto

declare walk_on.simps [simp del]

definition get_axis_position_across_moves ::
    "'d double_ops \<Rightarrow> 'd move list \<Rightarrow> nat \<Rightarrow> char \<Rightarrow> 'd \<Rightarrow> 'd option" where
  "get_axis_position_across_moves d ms i axis time =
     Option.bind (walk_back d ms i time) (\<lambda>(i, time).
     map_option (\<lambda>(i, time). get_axis_position d (ms ! i) axis time) (walk_on d ms i time))"

fun convolve :: "'d double_ops \<Rightarrow> 'd move list \<Rightarrow> nat \<Rightarrow> char \<Rightarrow> 'd \<Rightarrow> 'd shaper_pulses \<Rightarrow> 'd \<Rightarrow> 'd option" where
  "convolve d ms i axis move_time [] res = Some res"
| "convolve d ms i axis move_time (p # ps) res =
     Option.bind (get_axis_position_across_moves d ms i axis (d_add d move_time (pulse_t p))) (\<lambda>x.
     convolve d ms i axis move_time ps (d_add d res (d_mul d (pulse_a p) x)))"

definition shaper_calc_position ::
    "'d double_ops \<Rightarrow> 'd move list \<Rightarrow> nat \<Rightarrow> char \<Rightarrow> 'd \<Rightarrow> 'd shaper_pulses \<Rightarrow> 'd option" where
  "shaper_calc_position d ms i axis move_time sp = convolve d ms i axis move_time sp (d_zero d)"

section \<open>The stepper\<close>

definition DUMMY_T :: "'d double_ops \<Rightarrow> 'd" where "DUMMY_T d = d_lit d 5000 1"

datatype shaper_cb = Shaper_none | Shaper_x | Shaper_y | Shaper_xy

text \<open>
  \<open>is_cb\<close> is the callback that \<open>input_shaper_set_sk\<close> chose. \<open>is_m\<close> is the move that the callbacks hand on:
  they overwrite the coordinates that they compute, which the callback behind reads at once.
\<close>

record 'd input_shaper =
  is_sk :: "'d stepper_kinematics"
  is_cb :: shaper_cb
  orig_sk :: "'d stepper_kinematics option"
  is_m :: "'d move"
  shaper_sx :: "'d shaper_pulses"
  shaper_sy :: "'d shaper_pulses"

definition call_orig :: "'d stepper_kinematics \<Rightarrow> 'd move list \<Rightarrow> nat \<Rightarrow> 'd \<Rightarrow> 'd option" where
  "call_orig sk ms i t = calc_position_cb sk (commanded_pos sk) ms i t"

definition shaper_x_calc_position :: "'d double_ops \<Rightarrow> 'd input_shaper \<Rightarrow> 'd calc_position" where
  "shaper_x_calc_position d is p ms i move_time =
     Option.bind (orig_sk is) (\<lambda>sk.
       if shaper_sx is = [] then call_orig sk ms i move_time
       else Option.bind (shaper_calc_position d ms i CHR ''x'' move_time (shaper_sx is)) (\<lambda>x.
              call_orig sk [(is_m is)\<lparr>start_pos := (start_pos (is_m is))\<lparr>coord_x := x\<rparr>\<rparr>] 0 (DUMMY_T d)))"

definition shaper_y_calc_position :: "'d double_ops \<Rightarrow> 'd input_shaper \<Rightarrow> 'd calc_position" where
  "shaper_y_calc_position d is p ms i move_time =
     Option.bind (orig_sk is) (\<lambda>sk.
       if shaper_sy is = [] then call_orig sk ms i move_time
       else Option.bind (shaper_calc_position d ms i CHR ''y'' move_time (shaper_sy is)) (\<lambda>y.
              call_orig sk [(is_m is)\<lparr>start_pos := (start_pos (is_m is))\<lparr>coord_y := y\<rparr>\<rparr>] 0 (DUMMY_T d)))"

text \<open>The coordinate of one axis: shaped, if there is a shaper for it.\<close>

definition shaped ::
    "'d double_ops \<Rightarrow> 'd move list \<Rightarrow> nat \<Rightarrow> char \<Rightarrow> 'd \<Rightarrow> 'd shaper_pulses \<Rightarrow> 'd \<Rightarrow> 'd option" where
  "shaped d ms i axis move_time sp x = (if sp = [] then Some x else shaper_calc_position d ms i axis move_time sp)"

definition shaper_xy_calc_position :: "'d double_ops \<Rightarrow> 'd input_shaper \<Rightarrow> 'd calc_position" where
  "shaper_xy_calc_position d is p ms i move_time =
     Option.bind (orig_sk is) (\<lambda>sk.
       if shaper_sx is = [] \<and> shaper_sy is = [] then call_orig sk ms i move_time
       else
         let c = move_get_coord d (ms ! i) move_time in
         Option.bind (shaped d ms i CHR ''x'' move_time (shaper_sx is) (coord_x c)) (\<lambda>x.
         Option.bind (shaped d ms i CHR ''y'' move_time (shaper_sy is) (coord_y c)) (\<lambda>y.
           call_orig sk [(is_m is)\<lparr>start_pos := c\<lparr>coord_x := x, coord_y := y\<rparr>\<rparr>] 0 (DUMMY_T d))))"

text \<open>The stepper as \<open>itersolve.c\<close> sees it: the callback reads the shaper that contains it.\<close>

definition shaper_sk :: "'d double_ops \<Rightarrow> 'd input_shaper \<Rightarrow> 'd stepper_kinematics" where
  "shaper_sk d is = (is_sk is)\<lparr>calc_position_cb :=
     (case is_cb is of
        Shaper_none \<Rightarrow> calc_position_cb (is_sk is)
      | Shaper_x \<Rightarrow> shaper_x_calc_position d is
      | Shaper_y \<Rightarrow> shaper_y_calc_position d is
      | Shaper_xy \<Rightarrow> shaper_xy_calc_position d is)\<rparr>"

definition input_shaper_set_sk :: "'d stepper_kinematics \<Rightarrow> 'd input_shaper \<Rightarrow> int \<times> 'd input_shaper" where
  "input_shaper_set_sk orig is =
     (let af = active_flags orig in
      if af = AF_X \<or> af = AF_Y \<or> af AND (AF_X OR AF_Y) \<noteq> 0 then
        (0, is\<lparr>is_cb := (if af = AF_X then Shaper_x else if af = AF_Y then Shaper_y else Shaper_xy),
               is_sk := (is_sk is)\<lparr>active_flags := af\<rparr>, orig_sk := Some orig\<rparr>)
      else (-1, is))"

definition shaper_note_generation_time :: "'d double_ops \<Rightarrow> 'd input_shaper \<Rightarrow> 'd input_shaper" where
  "shaper_note_generation_time d is =
     (let af = active_flags (is_sk is); sx = shaper_sx is; sy = shaper_sy is;
          pre = d_zero d; post = d_zero d;
          (pre, post) = (if af AND AF_X \<noteq> 0 \<and> sx \<noteq> [] then (pulse_t (last sx), d_neg d (pulse_t (hd sx))) else (pre, post));
          (pre, post) =
            (if af AND AF_Y \<noteq> 0 \<and> sy \<noteq> [] then
               (if d_less d pre (pulse_t (last sy)) then pulse_t (last sy) else pre,
                if d_less d post (d_neg d (pulse_t (hd sy))) then d_neg d (pulse_t (hd sy)) else post)
             else (pre, post))
      in is\<lparr>is_sk := (is_sk is)\<lparr>gen_steps_pre_active := pre, gen_steps_post_active := post\<rparr>\<rparr>)"

text \<open>\<open>None\<close> also is the access to \<open>orig_sk\<close> before \<open>input_shaper_set_sk\<close>.\<close>

definition input_shaper_set_shaper_params ::
    "'d double_ops \<Rightarrow> char \<Rightarrow> int \<Rightarrow> 'd list \<Rightarrow> 'd list \<Rightarrow> 'd input_shaper \<Rightarrow> (int \<times> 'd input_shaper) option" where
  "input_shaper_set_shaper_params d axis n a t is =
     (if axis \<noteq> CHR ''x'' \<and> axis \<noteq> CHR ''y'' then Some (-1, is)
      else
        Option.bind (orig_sk is) (\<lambda>sk.
        map_option (\<lambda>(status, sp).
            let is = (if axis = CHR ''x'' then is\<lparr>shaper_sx := sp\<rparr> else is\<lparr>shaper_sy := sp\<rparr>)
            in (status, shaper_note_generation_time d is))
          (if active_flags sk AND (if axis = CHR ''x'' then AF_X else AF_Y) \<noteq> 0 then init_shaper d n a t
           else Some (0, []))))"

definition input_shaper_get_step_generation_window ::
    "'d double_ops \<Rightarrow> int \<Rightarrow> 'd list \<Rightarrow> 'd list \<Rightarrow> 'd option" where
  "input_shaper_get_step_generation_window d n a t =
     map_option (\<lambda>(status, sp).
         if sp = [] then d_zero d
         else
           let window = d_neg d (pulse_t (hd sp)) in
           if d_less d window (pulse_t (last sp)) then pulse_t (last sp) else window)
       (init_shaper d n a t)"

definition input_shaper_alloc :: "'d double_ops \<Rightarrow> 'd input_shaper" where
  "input_shaper_alloc d =
     \<lparr>is_sk = kinematics_zero d, is_cb = Shaper_none, orig_sk = None,
      is_m = (tq_move_alloc d)\<lparr>move_t := d_mul d (d_lit d 2 0) (DUMMY_T d)\<rparr>, shaper_sx = [], shaper_sy = []\<rparr>"

section \<open>Weights\<close>

lemma foldl_sum: "foldl (\<lambda>r x. r + f x) z xs = z + sum_list (map f (xs :: 'b list))" for f :: "'b \<Rightarrow> 'a :: comm_monoid_add"
  by (induction xs arbitrary: z) (simp_all add: add.assoc)

definition weight :: "'a :: floor_ceiling shaper_pulses \<Rightarrow> 'a" where
  "weight sp = sum_list (map pulse_a sp)"

definition moment :: "'a :: floor_ceiling shaper_pulses \<Rightarrow> 'a" where
  "moment sp = sum_list (map (\<lambda>p. pulse_a p * pulse_t p) sp)"

lemma weight_Cons [simp]:
  "weight (p # sp) = pulse_a p + weight sp" "moment (p # sp) = pulse_a p * pulse_t p + moment sp" "weight [] = 0" "moment [] = 0"
  by (simp_all add: weight_def moment_def)

lemma shifted_moment:
  "weight (map (\<lambda>p. p\<lparr>pulse_t := pulse_t p - ts\<rparr>) sp) = weight sp"
  "moment (map (\<lambda>p. p\<lparr>pulse_t := pulse_t p - ts\<rparr>) sp) = moment sp - weight sp * ts"
  by (induction sp) (simp_all add: algebra_simps)

lemma shift_pulses_moment:
  "weight (shift_pulses exact sp) = weight sp" "weight sp = 1 \<Longrightarrow> moment (shift_pulses exact sp) = 0"
  using foldl_sum [of "\<lambda>p. pulse_a p * pulse_t p" 0 sp]
  by (simp_all add: shift_pulses_def Let_def shifted_moment moment_def [symmetric])

lemma raw_weight:
  fixes b :: "'a :: floor_ceiling list"
  shows "length b = length u \<Longrightarrow>
    weight (rev (map2 (\<lambda>a t. \<lparr>pulse_t = - t, pulse_a = a * c\<rparr>) b u)) = sum_list (map (\<lambda>a. a * c) b)"
  by (induction b u rule: list_induct2) (simp_all add: weight_def)

text \<open>The weights of a shaper add up to 1, and the delays, weighted, to 0.\<close>

lemma init_shaper_balanced:
  assumes "init_shaper exact n a t = Some (0, sp)" "sum_list (take (nat n) a) \<noteq> 0"
  shows "weight sp = 1" "moment sp = 0"
proof -
  define b u where "b = take (nat n) a" "u = take (nat n) t"
  let ?raw = "rev (map2 (\<lambda>a t. \<lparr>pulse_t = - t, pulse_a = a * (1 / sum_list b)\<rparr>) b u)"
  have l: "length b = length u" "sp = shift_pulses exact ?raw"
    using assms(1) foldl_sum [of "\<lambda>x. x" 0 b]
    by (auto simp: init_shaper_def Let_def b_u_def [symmetric] split: if_splits) (auto simp: b_u_def)
  have "weight ?raw = sum_list (map (\<lambda>a. a * (1 / sum_list b)) b)"
    using raw_weight [OF l(1)] .
  also have "\<dots> = sum_list b * (1 / sum_list b)" by (simp only: sum_list_mult_const list.map_ident)
  also have "\<dots> = 1" using assms(2) by (simp add: b_u_def)
  finally show "weight sp = 1" "moment sp = 0" by (simp_all add: l(2) shift_pulses_moment)
qed

section \<open>The path again\<close>

text \<open>The coordinate of the tool at the absolute time \<open>time\<close>.\<close>

definition tool_at :: "'a :: floor_ceiling move list \<Rightarrow> char \<Rightarrow> 'a \<Rightarrow> 'a \<Rightarrow> bool" where
  "tool_at ms axis time x \<longleftrightarrow> (\<exists>m \<in> set ms. print_time m \<le> time \<and> time \<le> end_time exact m \<and>
     x = get_axis_position exact m axis (time - print_time m))"

lemma path_next:
  assumes "path_ok ms" "Suc i < length ms"
  shows "print_time (ms ! Suc i) = print_time (ms ! i) + move_t (ms ! i)"
  using assms by (auto simp: path_ok_def successively_conv_nth joins_def end_time_def)

lemma walk_back_path:
  assumes "path_ok ms"
  shows "i < length ms \<Longrightarrow> print_time (ms ! 0) \<le> print_time (ms ! i) + t \<Longrightarrow>
    \<exists>j u. walk_back exact ms i t = Some (j, u) \<and> j \<le> i \<and> 0 \<le> u \<and> print_time (ms ! j) + u = print_time (ms ! i) + t"
proof (induction i arbitrary: t)
  case (Suc i)
  show ?case
  proof (cases "t < 0")
    case True
    have n: "print_time (ms ! Suc i) + t = print_time (ms ! i) + (t + move_t (ms ! i))"
      using path_next [OF assms Suc.prems(1)] by simp
    obtain j u where "walk_back exact ms i (t + move_t (ms ! i)) = Some (j, u)" "j \<le> i" "0 \<le> u"
      "print_time (ms ! j) + u = print_time (ms ! i) + (t + move_t (ms ! i))"
      using Suc.IH [of "t + move_t (ms ! i)"] Suc.prems n by auto
    then show ?thesis using True n by auto
  qed simp
qed simp

lemma walk_on_path:
  assumes "path_ok ms"
  shows "i < length ms \<Longrightarrow> 0 \<le> t \<Longrightarrow> print_time (ms ! i) + t \<le> end_time exact (last ms) \<Longrightarrow>
    \<exists>j u. walk_on exact ms i t = Some (j, u) \<and> j < length ms \<and> 0 \<le> u \<and> u \<le> move_t (ms ! j) \<and>
      print_time (ms ! j) + u = print_time (ms ! i) + t"
proof (induction "length ms - i" arbitrary: i t)
  case (Suc n)
  show ?case
  proof (cases "move_t (ms ! i) < t")
    case True
    have "Suc i < length ms"
    proof (rule ccontr)
      assume "\<not> Suc i < length ms"
      then have "i = length ms - 1" "ms \<noteq> []" using Suc.prems(1) by auto
      then have "last ms = ms ! i" by (simp add: last_conv_nth)
      then show False using Suc.prems(3) True by (simp add: end_time_def)
    qed
    moreover have n: "print_time (ms ! Suc i) + (t - move_t (ms ! i)) = print_time (ms ! i) + t"
      using path_next [OF assms calculation] by simp
    moreover have "n = length ms - Suc i" using Suc.hyps(2) by simp
    ultimately obtain j u where "walk_on exact ms (Suc i) (t - move_t (ms ! i)) = Some (j, u)" "j < length ms" "0 \<le> u"
      "u \<le> move_t (ms ! j)" "print_time (ms ! j) + u = print_time (ms ! i) + t"
      using Suc.hyps(1) [of "Suc i" "t - move_t (ms ! i)"] Suc.prems(3) True unfolding n by auto
    then show ?thesis using True Suc.prems(1) by (subst walk_on.simps) simp
  next
    case False
    then show ?thesis using Suc.prems by (subst walk_on.simps) simp
  qed
qed simp

text \<open>Across moves, the coordinate is that of the tool at the absolute time.\<close>

lemma across_moves_tool_at:
  assumes "path_ok ms" "i < length ms" "print_time (hd ms) \<le> print_time (ms ! i) + t"
    and "print_time (ms ! i) + t \<le> end_time exact (last ms)"
  shows "\<exists>x. get_axis_position_across_moves exact ms i axis t = Some x \<and> tool_at ms axis (print_time (ms ! i) + t) x"
proof -
  have hd: "hd ms = ms ! 0" using assms(2) by (cases ms) auto
  obtain j u where b: "walk_back exact ms i t = Some (j, u)" "j \<le> i" "0 \<le> u" "print_time (ms ! j) + u = print_time (ms ! i) + t"
    using walk_back_path [OF assms(1,2), of t] assms(3) unfolding hd by blast
  obtain k w where f: "walk_on exact ms j u = Some (k, w)" "k < length ms" "0 \<le> w" "w \<le> move_t (ms ! k)"
    "print_time (ms ! k) + w = print_time (ms ! i) + t"
    using walk_on_path [OF assms(1), of j u] b assms(2,4) by auto
  have w: "w = print_time (ms ! i) + t - print_time (ms ! k)" using f(5) by (simp add: algebra_simps)
  have "tool_at ms axis (print_time (ms ! i) + t) (get_axis_position exact (ms ! k) axis w)"
    unfolding tool_at_def using f(2-5) w by (intro bexI [of _ "ms ! k"]) (auto simp: end_time_def)
  then show ?thesis using b(1) f(1) by (simp add: get_axis_position_across_moves_def)
qed

lemma convolve_line:
  assumes "\<And>p. p \<in> set ps \<Longrightarrow> get_axis_position_across_moves exact ms i axis (t + pulse_t p) = Some (x0 + v * (T + pulse_t p))"
  shows "convolve exact ms i axis t ps res = Some (res + (x0 + v * T) * weight ps + v * moment ps)"
  using assms by (induction ps arbitrary: res) (simp_all add: algebra_simps)

text \<open>
  C4: Input shaping does not change a motion of constant speed: where the tool moves along a line at all
  the times that a shaper looks at, over any number of moves of the path, the shaped position is the
  position itself, whatever the delays of the shaper and whatever its amplitudes, as long as their sum,
  by which they are divided, is not 0.
\<close>

theorem shaper_keeps_cruise:
  assumes "init_shaper exact n a t = Some (0, sp)" "sum_list (take (nat n) a) \<noteq> 0"
    and "path_ok ms" "i < length ms" "T = print_time (ms ! i) + move_time"
    and "\<And>p. p \<in> set sp \<Longrightarrow> print_time (hd ms) \<le> T + pulse_t p \<and> T + pulse_t p \<le> end_time exact (last ms)"
    and "\<And>p x. p \<in> set sp \<Longrightarrow> tool_at ms axis (T + pulse_t p) x \<Longrightarrow> x = x0 + v * (T + pulse_t p)"
  shows "shaper_calc_position exact ms i axis move_time sp = Some (x0 + v * T)"
proof -
  have "get_axis_position_across_moves exact ms i axis (move_time + pulse_t p) = Some (x0 + v * (T + pulse_t p))"
    if p: "p \<in> set sp" for p
    using across_moves_tool_at [OF assms(3,4), of "move_time + pulse_t p" axis] assms(6,7) [OF p]
    by (auto simp: assms(5) add.assoc)
  then show ?thesis
    using convolve_line [of sp ms i axis move_time x0 v T 0] init_shaper_balanced [OF assms(1,2)]
    by (simp add: shaper_calc_position_def)
qed

definition two_moves :: "rat move list" where
  "two_moves =
     [(tq_move_alloc exact)\<lparr>print_time := 1, move_t := 1, start_v := 10, axes_r := \<lparr>coord_x = 1, coord_y = 0, coord_z = 0\<rparr>\<rparr>,
      (tq_move_alloc exact)\<lparr>print_time := 2, move_t := 1, start_v := 10, axes_r := \<lparr>coord_x = 1, coord_y = 0, coord_z = 0\<rparr>,
        start_pos := \<lparr>coord_x = 10, coord_y = 0, coord_z = 0\<rparr>\<rparr>]"

theorem shaper_keeps_cruise_witness:
  "\<exists>sp. init_shaper exact 2 [1, 1] [0, 1 / 50] = Some (0, sp) \<and>
    shaper_calc_position exact two_moves 1 CHR ''x'' (1 / 200) sp = Some (201 / 20)"
proof -
  let ?sp = "[\<lparr>pulse_t = - (1 / 100), pulse_a = 1 / 2\<rparr>, \<lparr>pulse_t = 1 / 100, pulse_a = 1 / 2\<rparr>] :: rat shaper_pulses"
  have i: "init_shaper exact 2 [1, 1] [0, 1 / 50] = Some (0, ?sp)"
    by (simp add: init_shaper_def Let_def MAX_PULSES_def shift_pulses_def numeral_2_eq_2)
  have "shaper_calc_position exact two_moves 1 CHR ''x'' (1 / 200) ?sp = Some (- 10 + 10 * (401 / 200))"
  proof (rule shaper_keeps_cruise [OF i])
    show "path_ok two_moves"
      by (simp add: two_moves_def path_ok_def joins_def end_time_def tq_move_alloc_def Let_def move_get_coord_def move_get_distance_def)
  qed (auto simp: two_moves_def tool_at_def tq_move_alloc_def Let_def end_time_def get_axis_position_def axis_of_def
      move_get_distance_def numeral_2_eq_2)
  then show ?thesis using i by auto
qed

end
