(* ===== verification/Spec2Isabelle.thy ===== *)
theory Spec2Isabelle
  imports Main_Loop Homing Extruder Shaper Canbus
begin

text \<open>
  A verification development for the real-time core of this printer firmware: the Klipper
  micro-controller code under \<open>klipper/src\<close> and the C half of the host under
  \<open>klipper/klippy/chelper\<close> that feeds it.

  The parts of the program and how they interact. The host keeps the moves of the tool in a queue
  (\<open>trapq.c\<close>), finds the times at which every stepper has to step for them (\<open>itersolve.c\<close>, with the
  kinematics of the machine in \<open>kin_*.c\<close>), turns these step times
  into moves of constant acceleration of the stepper (\<open>stepcompress.c\<close>), orders the messages of all steppers so
  that the move queue of the micro-controller never overflows (\<open>steppersync\<close>), and packs them by
  priority into numbered blocks that it sends, and sends again, until they are acknowledged
  (\<open>msgblock.c\<close>, \<open>serialqueue.c\<close>, driven by the event loop of \<open>pollreactor.c\<close>). While an axis homes, it
  keeps the trigger objects of all micro-controllers together (\<open>trdispatch.c\<close>). The micro-controller
  collects the bytes of its serial line (\<open>generic/serial_irq.c\<close>), finds the blocks, decodes the commands and calls their handlers
  (\<open>command.c\<close>). The handlers configure objects by oid (\<open>basecmd.c\<close>), queue work for them, and
  arm timers (\<open>sched.c\<close>); the timers drive steppers, pins, converters, buttons and buses from
  interrupt context. Every failure goes through \<open>shutdown\<close>, a \<open>longjmp\<close> out of whatever runs, after
  which the shutdown functions of all components have to bring their outputs to a safe level.

  Theories, in the order of their imports, and the code each models.
  \<^item> Firmware_Base: the C integer types as words, \<open>outcome\<close> (a value and a state, a shutdown with its
    reason, or \<open>Fault\<close> for undefined behaviour: a NULL or out of bounds access, a signed overflow),
    linked lists through a next field, \<open>timer_is_before\<close> of \<open>board/misc.h\<close>.
  \<^item> Wire, Comm: the constants of \<open>command.h\<close>, \<open>crc16_ccitt.c\<close>, the number codec, \<open>command_parsef\<close>,
    \<open>command_encodef\<close>, \<open>command_find_block\<close> and the message framing of \<open>command.c\<close>.
  \<^item> Sched, Timer_Contract: \<open>sched.c\<close> with the timer list, the dispatcher, the task flags and the
    shutdown path; the locale of a component that owns timers.
  \<^item> Console: the dispatch half of \<open>command.c\<close> and \<open>generic/serial_irq.c\<close>.
  \<^item> Fifo_Contract, Basecmd: the locale of a queue; \<open>basecmd.c\<close>.
  \<^item> Trsync, Stepper, Endstop: \<open>trsync.c\<close>, \<open>stepper.c\<close>, \<open>endstop.c\<close>; the locale of an object that a
    trigger stops.
  \<^item> Digital_Out, Device_Base, Analog_In, Pwm_Out, Buttons, Counter, Tmcuart, Spi_Device,
    Thermocouple: \<open>gpiocmds.c\<close>, \<open>adccmds.c\<close>, \<open>pwmcmds.c\<close>, \<open>buttons.c\<close>, \<open>pulse_counter.c\<close>,
    \<open>tmcuart.c\<close>, \<open>spicmds.c\<close> with \<open>spi_software.c\<close>, \<open>thermocouple.c\<close>.
  \<^item> Accel, I2c_Device, Canbus: \<open>sensor_adxl345.c\<close>, \<open>i2ccmds.c\<close>, and \<open>generic/canbus.c\<close>, the console over CAN
    with the protocol that gives the nodes their ids.
  \<^item> Main_Loop: the loop \<open>run_tasks\<close> of \<open>sched.c\<close> with the tasks of the components, and
    \<open>generic/timer_irq.c\<close>; the locale of a task that waits for a flag.
  \<^item> Msgblock, Host_List: \<open>msgblock.c\<close> and \<open>list.h\<close> of the host.
  \<^item> Step_Compress, Step_Queue, Stepper_Sync: \<open>stepcompress.c\<close>, its search and check, its queue and
    message generation, and \<open>steppersync\<close> with the locale of a pool of places.
  \<^item> Poll_Reactor, Serial_Queue: \<open>pollreactor.c\<close> and \<open>serialqueue.c\<close>; Serial_Flow: the byte counts and
    the order of the command queues, the input buffer; Serial_Link: the sliding window of
    \<open>serialqueue.c\<close> against \<open>command_find_block\<close> over a line that loses blocks, as a step relation.
  \<^item> Trapq, Itersolve, Kinematics: \<open>trapq.c\<close>, \<open>itersolve.c\<close>, and the callbacks of \<open>kin_cartesian.c\<close>,
    \<open>kin_corexy.c\<close>, \<open>kin_corexz.c\<close>, \<open>kin_delta.c\<close>, \<open>kin_polar.c\<close>, \<open>kin_rotary_delta.c\<close> and \<open>kin_winch.c\<close>.
  \<^item> Extruder, Shaper: \<open>kin_extruder.c\<close> and \<open>kin_shaper.c\<close>, on the moves around a time.
  \<^item> Trdispatch, Homing: \<open>trdispatch.c\<close>, and the way of a trigger from one micro-controller over the host
    to the steppers of another one.
  \<^item> Step_Pipeline: the way of a move from \<open>check_line\<close> on the host to the step events.

  How state corresponds to the code. The state of the micro-controller is one record, extended
  component by component: the static variables of a file are fields, and the objects allocated by
  \<open>oid_alloc\<close> are a function from the oid to the record of their struct. Pointers into the store are
  oids, move node indices or timer references (\<open>timer_ref\<close> names the timer a pointer points to); a
  struct timer is its fields \<open>timer_next\<close>, \<open>timer_waketime\<close>, \<open>timer_func\<close> over those references.
  What the hardware does is a list of operations (\<open>hw\<close>), what it answers (pin levels, converter
  values, the clock) are fields that the code reads and the environment sets; interrupt arrivals are
  explicit steps where the code races with them. An operation of the code is a definition of the
  same name from arguments and state to an \<open>outcome\<close>, and an early return, a \<open>shutdown\<close> or an
  unchecked access is a branch of it. On the host, each object is a record of its own; its lists are
  lists where only their order matters, and Host_List justifies this against the pointer code. What the threads of
  \<open>serialqueue.c\<close> do with its lock held is one step; what goes to the operating system is a list
  (\<open>io\<close>), its answers are arguments. Where the code computes with \<open>double\<close> values, the arithmetic
  is a record of functions (\<open>double_ops\<close>), about which only this is assumed: \<open>never_is_not_now\<close>, the
  constants \<open>PR_NEVER\<close> and \<open>PR_NOW\<close> differ, and in Trdispatch \<open>d_ordered\<close>, comparison is an order. What is proved of
  the geometry from Trapq to Shaper is about the same definitions with exact arithmetic
  (\<open>exact\<close>, over any ordered field with a floor function), of which the code computes an approximation.

  What the lemmas show. For each component: that its operations keep its invariant, what each
  operation does on every branch, the contract it keeps towards its callers (the locales
  \<open>timer_component\<close>, \<open>trigger_client\<close>, \<open>fifo\<close>, \<open>slot_pool\<close>, \<open>polled_task\<close>, each interpreted on the model's own
  definitions), and then the properties named C1 to C40. The leading ones span components:
  the path of the tool has no gap, the search for the steps of a move at constant speed ends and misses no step, a move that the host's check accepts is executed by the micro-controller within the error the host
  allowed; over a line that may lose any block, the micro-controller dispatches what the host sent exactly once
  and in order, and one retransmission that arrives brings both ends together again; a trigger that one micro-controller
  reports stops the steppers of all others, and one that falls silent holds back their timeouts; flushing sends
  exactly the queued steps and never fails its own check; host and
  micro-controller accept the same blocks; the move queue is never overcommitted; timers fire in
  order and cannot keep the tasks from running, no task that an interrupt woke is forgotten, and a shutdown leaves outputs at their defaults.

  Bounds and fuel. Loops over lists recurse on the list; the loops of the search, of the flush, of
  the heap and of the merge are functions with a measure, so they are total. The walk of
  \<open>insert_timer\<close> and the other walks through next pointers get the number of nodes as fuel, and a
  lemma shows for each that the fuel is never used up on a well formed list: \<open>list_for_each\<close> and
  \<open>message_queue_free\<close> get the length of the list, \<open>free_moves\<close> one more than the number of moves.
  \<open>dispatch_signals\<close> and \<open>foreach_oid\<close> get 256, the number of oids; \<open>sched_resume\<close> gets its number
  of restarts as an argument, because every shutdown function may shut down again. The loop of
  \<open>command_event\<close> gets 13 more than the number of queued messages; since every turn but the last
  fills a place of the window of 12 blocks, it always ends before. The search of \<open>itersolve_gen_steps_range\<close>
  is a \<open>partial_function (option)\<close>, since it need not end for every callback; so is \<open>can_send_retry\<close>, which does
  not end on a bus that is never free. The transmission
  of a message by \<open>tx_run\<close> takes as many events as the message has bits.

  What is not modelled. The rounding of \<open>double\<close> values;
  in \<open>stepcompress.c\<close> the conversion of times to clocks and the root of \<open>find_past_position\<close> enter as
  functions or as the clocks computed from them. Register access of the boards (\<open>src/stm32\<close>, \<open>src/avr\<close> and the like), which
  appears as hardware operations and inputs. What the build generates from the \<open>DECL_\<close> macros: the
  command table, the encoders and the lists of tasks and shutdown functions are parameters. The
  preemption of threads inside a region that the code runs without its lock. The Python host, the web services,
  the touch screen firmware with its vendored libraries, and all vendored code.
\<close>

end
